(* ===== verification/Prelude.thy ===== *)
theory Prelude
  imports Main "HOL-Library.Word" "HOL-Library.Monad_Syntax" "HOL-Library.Multiset"
begin

text \<open>
  The shared vocabulary of the development: machine integers, return codes, addresses and
  the reading of a run that does not return, with the generic lemmas on lists, multisets
  and words the components share.
\<close>

unbundle bit_operations_syntax

section \<open>Types\<close>

text \<open>The integer types of \<^verbatim>\<open>stdint.h\<close>, at their width: arithmetic wraps around.\<close>

type_synonym u8 = "8 word"
type_synonym u32 = "32 word"
type_synonym u64 = "64 word"

text \<open>
  \<^verbatim>\<open>amrc_t\<close> of \<^verbatim>\<open>include/libam/libam_types.h\<close>.
\<close>

datatype amrc = AMRC_SUCCESS | AMRC_ERROR

text \<open>
  An address is a number, a pointer an \<open>addr option\<close> in which \<open>None\<close> is \<^verbatim>\<open>NULL\<close>.
  Code that can fail to return (it dereferences \<^verbatim>\<open>NULL\<close>, reads outside an array, calls
  \<^verbatim>\<open>abort\<close>, breaks an \<^verbatim>\<open>assert\<close>, traps on a division or loops for ever) has an option
  result, and \<open>None\<close> stands for each of these. A pointer bound in \<^theory_text>\<open>do\<close> notation is
  therefore the \<^verbatim>\<open>NULL\<close> check of a dereference.
\<close>

type_synonym addr = nat

definition c_assert :: "bool \<Rightarrow> unit option" where
  "c_assert b = (if b then Some () else None)"

lemma c_assert_simps [simp]:
  "c_assert True = Some ()" "c_assert False = None"
  by (simp_all add: c_assert_def)

lemma c_assert_eq_Some [simp]: "c_assert b = Some u \<longleftrightarrow> b"
  by (simp add: c_assert_def)

section \<open>Rule collections\<close>

named_theorems frame_simps \<open>what a write to memory leaves unchanged\<close>
named_theorems heap_simps \<open>reads of a memory after a write\<close>
named_theorems inv_intros \<open>invariants kept by an operation\<close>

section \<open>Lists, options and words\<close>

lemma bind_eq_SomeD: "Option.bind m f = Some y \<Longrightarrow> \<exists>x. m = Some x \<and> f x = Some y"
  by (cases m) auto

lemma remove1_split: "x \<notin> set xs \<Longrightarrow> remove1 x (xs @ x # ys) = xs @ ys"
  by (induction xs) auto

lemma unat_plus_one_less: "(x :: u64) < y \<Longrightarrow> unat (x + 1) = Suc (unat x)"
  using unsigned_less [where 'b = 64 and 'a = nat and w = y]
  by (simp add: word_less_nat_alt unat_word_ariths)

lemma unat_u64_less: "unat (v :: u64) < 2 ^ 64"
  using unsigned_less [where 'b = 64 and 'a = nat and w = v] by simp

lemma plus_fits:
  assumes "unat a + unat b < 2 ^ 64"
  shows "unat (a + b :: u64) = unat a + unat b" and "\<not> a + b < a"
proof -
  show u: "unat (a + b) = unat a + unat b" using assms by (simp add: unat_word_ariths)
  show "\<not> a + b < a" by (simp add: word_less_nat_alt u)
qed

lemma times_fits: "unat a * unat b < 2 ^ 64 \<Longrightarrow> unat (a * b :: u64) = unat a * unat b"
  by (simp add: unat_word_ariths)

lemma unat_of_nat_fits: "n < 2 ^ 64 \<Longrightarrow> unat (of_nat n :: u64) = n"
  by (simp add: unsigned_of_nat take_bit_nat_eq_self)

section \<open>Text\<close>

text \<open>
  A character buffer is a list of characters, a C string in it ends before the first NUL.
  \<open>dec\<close> is the conversion \<^verbatim>\<open>%lu\<close>, \<open>pad_left\<close> a minimal field width, and \<open>snprintf\<close> the effect on
  the buffer of \<^verbatim>\<open>snprintf(buf, n, ...)\<close> with the formatted text \<open>s\<close>: at most \<open>n - 1\<close> characters and a
  NUL; \<open>None\<close> is a write past the end of the buffer.
\<close>

definition digit :: "nat \<Rightarrow> char" where
  "digit d = char_of (48 + d)"

fun dec :: "nat \<Rightarrow> string" where
  "dec n = (if n < 10 then [digit n] else dec (n div 10) @ [digit (n mod 10)])"

declare dec.simps [simp del]

definition pad_left :: "nat \<Rightarrow> string \<Rightarrow> string" where
  "pad_left w s = replicate (w - length s) CHR '' '' @ s"

definition NUL :: char where "NUL = CHR 0x00"

definition cstring :: "string \<Rightarrow> string" where
  "cstring buf = takeWhile (\<lambda>c. c \<noteq> NUL) buf"

definition snprintf :: "string \<Rightarrow> nat \<Rightarrow> string \<Rightarrow> string option" where
  "snprintf buf n s =
     (if n = 0 then Some buf
      else (let w = take (n - 1) s @ [NUL]
            in if length w \<le> length buf then Some (w @ drop (length w) buf) else None))"

lemma digit_not_NUL [simp]: "d < 10 \<Longrightarrow> digit d \<noteq> NUL"
proof -
  assume "d < 10"
  then have "of_char (digit d) = 48 + d" by (simp add: digit_def)
  moreover have "of_char NUL = (0 :: nat)" by (simp add: NUL_def)
  ultimately show ?thesis by (metis add_is_0 zero_neq_numeral)
qed

lemma dec_no_NUL: "NUL \<notin> set (dec n)"
  by (induction n rule: dec.induct) (subst dec.simps, auto dest: sym)

lemma pad_left_no_NUL: "NUL \<notin> set s \<Longrightarrow> NUL \<notin> set (pad_left w s)"
  by (auto simp: pad_left_def NUL_def)

lemma cstring_append_NUL: "NUL \<notin> set s \<Longrightarrow> cstring (s @ NUL # t) = s"
  by (induction s) (auto simp: cstring_def)

lemma cstring_snprintf:
  assumes "snprintf buf n s = Some buf'" and "0 < n" and "NUL \<notin> set s"
  shows "cstring buf' = take (n - 1) s"
proof -
  have "buf' = take (n - 1) s @ NUL # drop (Suc (length (take (n - 1) s))) buf"
    using assms(1,2) by (auto simp: snprintf_def Let_def split: if_splits)
  moreover have "NUL \<notin> set (take (n - 1) s)" using assms(3) by (auto dest: in_set_takeD)
  ultimately show ?thesis using cstring_append_NUL by metis
qed

lemma cstring_set_NUL:
  assumes "NUL \<notin> set w" and "length w \<le> k"
  shows "cstring ((w @ NUL # t)[k := NUL]) = w"
  using assms by (cases "k - length w") (simp_all add: list_update_append cstring_append_NUL)

section \<open>The allocator\<close>

text \<open>
  \<^verbatim>\<open>malloc\<close> is not code of the repository: it is a parameter, a function of the number of the call,
  the size and the live blocks with their sizes. What the code relies on is \<open>malloc_spec\<close>: a block
  that is returned was not live, is not larger than \<^verbatim>\<open>PTRDIFF_MAX\<close> and has a 64-bit address. It may be the address of
  a block freed before, and any call may fail: \<open>refusals\<close> counts the calls that did. \<^verbatim>\<open>free\<close> of a block that is not live is \<open>None\<close>.
\<close>

type_synonym allocator = "nat \<Rightarrow> u64 \<Rightarrow> (addr \<rightharpoonup> u64) \<Rightarrow> addr option"

record heap =
  live :: "addr \<rightharpoonup> u64"
  calls :: nat
  refusals :: nat

definition malloc_spec :: "allocator \<Rightarrow> bool" where
  "malloc_spec alloc \<longleftrightarrow>
     (\<forall>n sz lv a. alloc n sz lv = Some a \<longrightarrow>
        lv a = None \<and> unat sz < 2 ^ 63 \<and> 0 < a \<and> a < 2 ^ 64)"

definition malloc :: "allocator \<Rightarrow> u64 \<Rightarrow> heap \<Rightarrow> addr option \<times> heap" where
  "malloc alloc sz h =
     (let h' = h\<lparr>calls := calls h + 1\<rparr>
      in case alloc (calls h) sz (live h) of
           None \<Rightarrow> (None, h'\<lparr>refusals := refusals h + 1\<rparr>)
         | Some a \<Rightarrow> (Some a, h'\<lparr>live := (live h)(a \<mapsto> sz)\<rparr>))"

definition free_block :: "addr option \<Rightarrow> heap \<Rightarrow> heap option" where
  "free_block p h =
     (case p of
        None \<Rightarrow> Some h
      | Some a \<Rightarrow> (if live h a = None then None else Some (h\<lparr>live := (live h)(a := None)\<rparr>)))"

lemma malloc_None: "malloc alloc sz h = (None, h') \<Longrightarrow> live h' = live h"
  by (auto simp: malloc_def Let_def split: option.splits)

lemma malloc_refusals:
  "malloc alloc sz h = (p, h') \<Longrightarrow> refusals h' = refusals h + (if p = None then 1 else 0)"
  by (auto simp: malloc_def Let_def split: option.splits)

text \<open>Whether a call of \<^verbatim>\<open>malloc\<close> failed between two states of the memory.\<close>

definition refused :: "heap \<Rightarrow> heap \<Rightarrow> bool" where
  "refused h h' \<longleftrightarrow> refusals h < refusals h'"

lemma free_block_refusals: "free_block p h = Some h' \<Longrightarrow> refusals h' = refusals h"
  by (auto simp: free_block_def split: option.splits if_splits)

lemma malloc_Some:
  assumes "malloc_spec alloc" and "malloc alloc sz h = (Some a, h')"
  shows "live h a = None" and "live h' = (live h)(a \<mapsto> sz)" and "unat sz < 2 ^ 63"
    and "0 < a \<and> a < 2 ^ 64"
  using assms by (auto simp: malloc_spec_def malloc_def Let_def split: option.splits)

text \<open>An allocator that meets the specification and never fails on a reasonable size.\<close>

definition first_fit :: allocator where
  "first_fit n sz lv =
     (if unat sz < 2 ^ 63 then List.find (\<lambda>a. lv a = None) [1 ..< 100] else None)"

lemma first_fit_spec: "malloc_spec first_fit"
  by (auto simp: malloc_spec_def first_fit_def find_Some_iff split: if_splits)

lemma find_after: "\<forall>b \<in> set xs. \<not> P b \<Longrightarrow> P x \<Longrightarrow> List.find P (xs @ x # ys) = Some x"
  by (induction xs) auto

lemma first_fit_at:
  assumes "\<forall>b \<in> set [1 ..< a]. lv b \<noteq> None" and "lv a = None" and "1 \<le> a" and "a < 100" and "unat sz < 2 ^ 63"
  shows "first_fit n sz lv = Some a"
proof -
  have "[1 ..< 100] = [1 ..< a] @ [a ..< 100]" using upt_add_eq_append [OF assms(3), of "100 - a"] assms(4) by simp
  then have u: "[1 ..< 100] = [1 ..< a] @ a # [Suc a ..< 100]" using upt_conv_Cons [OF assms(4)] by (simp only:)
  have "List.find (\<lambda>b. lv b = None) ([1 ..< a] @ a # [Suc a ..< 100]) = Some a"
    by (rule find_after) (use assms(1,2) in auto)
  then show ?thesis using assms(5) unfolding first_fit_def u by simp
qed

end
