(* ===== verification/AmHash.thy ===== *)
theory AmHash
  imports Prelude
begin

text \<open>
  The three djb2 hash functions of \<^verbatim>\<open>src/libam_hash.c\<close> over a memory buffer, given as the list
  of its bytes: a read behind the end of the buffer makes the run fail.
\<close>

section \<open>Model\<close>

text \<open>\<^verbatim>\<open>hash += (hash << 5) + c\<close> with an unsigned byte, converted by zero extension.\<close>

fun amhash_loop :: "u64 \<Rightarrow> u8 list \<Rightarrow> nat \<Rightarrow> u64 option" where
  "amhash_loop hash data 0 = Some hash"
| "amhash_loop hash [] (Suc len) = None"
| "amhash_loop hash (c # data) (Suc len) =
     amhash_loop (hash + (push_bit 5 hash + ucast c)) data len"

definition amhash :: "u8 list \<Rightarrow> u64 \<Rightarrow> u64 option" where
  "amhash data len = amhash_loop 5381 data (unat len)"

text \<open>
  The string functions read \<^verbatim>\<open>char\<close>, which is signed on the platforms the makefile targets
  (gcc and clang on x86-64): the byte is sign extended.
\<close>

fun amshash_loop :: "u64 \<Rightarrow> u64 \<Rightarrow> u8 list \<Rightarrow> (u64 \<times> u64) option" where
  "amshash_loop hash len [] = None"
| "amshash_loop hash len (c # str) =
     (if c = 0 then Some (hash, len)
      else amshash_loop (hash + (push_bit 5 hash + scast c)) (len + 1) str)"

definition amshash :: "u8 list \<Rightarrow> (u64 \<times> u64) option" where
  "amshash str = amshash_loop 5381 0 str"

function amsnhash_loop :: "u64 \<Rightarrow> u64 \<Rightarrow> u64 \<Rightarrow> u8 list \<Rightarrow> (u64 \<times> u64) option" where
  "amsnhash_loop hash len max_len str =
     (if len < max_len then
        (case str of
           [] \<Rightarrow> None
         | c # str' \<Rightarrow>
             if c = 0 then Some (hash, len)
             else amsnhash_loop (hash + (push_bit 5 hash + scast c)) (len + 1) max_len str')
      else Some (hash, len))"
  by pat_completeness auto
termination
  by (relation "measure (\<lambda>(hash, len, max_len, str). length str)") auto

declare amsnhash_loop.simps [simp del]

definition amsnhash :: "u8 list \<Rightarrow> u64 \<Rightarrow> (u64 \<times> u64) option" where
  "amsnhash str max_len = amsnhash_loop 5381 0 max_len str"

section \<open>The polynomial the loops compute\<close>

definition djb2 :: "u64 \<Rightarrow> u64 list \<Rightarrow> u64" where
  "djb2 h cs = h * 33 ^ length cs + (\<Sum>i < length cs. cs ! i * 33 ^ (length cs - Suc i))"

lemma djb2_Nil [simp]: "djb2 h [] = h"
  by (simp add: djb2_def)

lemma djb2_round: "h + (push_bit 5 h + c) = h * 33 + (c :: u64)"
  by (simp add: push_bit_eq_mult)

lemma djb2_Cons [simp]: "djb2 h (c # cs) = djb2 (h * 33 + c) cs"
proof -
  have "(\<Sum>i < Suc (length cs). (c # cs) ! i * 33 ^ (Suc (length cs) - Suc i)) =
      c * 33 ^ length cs + (\<Sum>i < length cs. cs ! i * 33 ^ (length cs - Suc i))"
    by (subst sum.lessThan_Suc_shift) simp
  then show ?thesis by (simp add: djb2_def algebra_simps)
qed

lemma amhash_loop_djb2:
  "n \<le> length data \<Longrightarrow> amhash_loop h data n = Some (djb2 h (map ucast (take n data)))"
  by (induction h data n rule: amhash_loop.induct) (simp_all add: djb2_round)

lemma amhash_loop_short: "length data < n \<Longrightarrow> amhash_loop h data n = None"
  by (induction h data n rule: amhash_loop.induct) simp_all

lemma amshash_loop_djb2:
  "0 \<notin> set s \<Longrightarrow>
   amshash_loop h len (s @ 0 # rest) = Some (djb2 h (map scast s), len + of_nat (length s))"
  by (induction s arbitrary: h len) (simp_all add: djb2_round)

lemma amsnhash_loop_djb2:
  assumes "0 \<notin> set s" and "unat len + length s \<le> unat max_len"
    and "unat len + length s < unat max_len \<longrightarrow> (\<exists>r. rest = 0 # r)"
  shows "amsnhash_loop h len max_len (s @ rest) =
    Some (djb2 h (map scast s), len + of_nat (length s))"
  using assms
proof (induction s arbitrary: h len)
  case Nil
  then show ?case by (auto simp: amsnhash_loop.simps [of h] word_less_nat_alt)
next
  case (Cons c s)
  then have lt: "len < max_len" by (simp add: word_less_nat_alt)
  then have "unat (len + 1) = Suc (unat len)" by (rule unat_plus_one_less)
  with Cons lt show ?case
    by (simp add: amsnhash_loop.simps [of h] djb2_round)
qed

lemma amshash_loop_none: "0 \<notin> set s \<Longrightarrow> amshash_loop h len s = None"
  by (induction s arbitrary: h len) simp_all

lemma amsnhash_loop_none:
  "0 \<notin> set s \<Longrightarrow> unat len + length s < unat max_len \<Longrightarrow> amsnhash_loop h len max_len s = None"
proof (induction s arbitrary: h len)
  case Nil
  then show ?case by (simp add: amsnhash_loop.simps [of h] word_less_nat_alt)
next
  case (Cons c s)
  then have lt: "len < max_len" by (simp add: word_less_nat_alt)
  then have "unat (len + 1) = Suc (unat len)" by (rule unat_plus_one_less)
  with Cons lt show ?case by (simp add: amsnhash_loop.simps [of h])
qed

lemma scast_eq_ucast_ascii: 
  assumes "c < 128"
  shows "(scast (c :: u8) :: u64) = ucast c"
proof -
  have "uint c < 128" using assms by (simp add: word_less_def)
  then have "signed_take_bit 7 (uint c) = uint c"
    using signed_take_bit_int_eq_self [of 7 "uint c"] uint_ge_0 [of c] by simp
  then have "sint c = uint c" by (simp add: sint_uint)
  then have "(of_int (sint c) :: u64) = of_int (uint c)" by simp
  then show ?thesis by simp
qed

section \<open>Properties\<close>

text \<open>
  \<open>amhash\<close> returns, on every buffer that holds at least \<open>len\<close> bytes, the djb2 polynomial
  (in 64-bit arithmetic) of exactly the first \<open>len\<close> bytes, each taken as unsigned; on a shorter
  buffer it reads out of bounds.
\<close>

theorem amhash_polynomial:
  "amhash data len =
     (if unat len \<le> length data then Some (djb2 5381 (map ucast (take (unat len) data))) else None)"
  by (simp add: amhash_def amhash_loop_djb2 amhash_loop_short)

lemma amshash_polynomial_aux:
  assumes "0 \<in> set str"
  shows "amshash str = (let s = takeWhile (\<lambda>c. c \<noteq> 0) str
    in Some (djb2 5381 (map scast s), of_nat (length s)))"
proof -
  from assms obtain s rest where str: "str = s @ 0 # rest" and s: "0 \<notin> set s"
    by (meson split_list_first)
  then have "takeWhile (\<lambda>c. c \<noteq> 0) str = s" by (induction s arbitrary: str) auto
  with s show ?thesis by (simp add: amshash_def str amshash_loop_djb2)
qed

text \<open>
  \<open>amshash\<close> returns, for every buffer that holds a terminator, the djb2 polynomial of the
  sign-extended bytes before the first terminator, and their number as the length; without a
  terminator it runs out of the buffer.
\<close>

theorem amshash_polynomial:
  "amshash str =
     (if 0 \<in> set str
      then (let s = takeWhile (\<lambda>c. c \<noteq> 0) str
            in Some (djb2 5381 (map scast s), of_nat (length s)))
      else None)"
proof (cases "0 \<in> set str")
  case True
  then show ?thesis by (simp only: amshash_polynomial_aux if_True)
next
  case False
  then show ?thesis by (simp add: amshash_def amshash_loop_none)
qed

text \<open>
  \<open>amsnhash\<close> with bound \<open>n\<close> is \<open>amshash\<close> on the first \<open>n\<close> bytes with a terminator put
  behind them; it fails only if the buffer is shorter than \<open>n\<close> and holds no terminator.
\<close>

theorem amsnhash_as_amshash:
  "amsnhash str n =
     (if 0 \<in> set str \<or> unat n \<le> length str then amshash (take (unat n) str @ [0]) else None)"
proof -
  let ?p = "take (unat n) str"
  let ?s = "takeWhile (\<lambda>c. c \<noteq> 0) ?p"
  have len: "length ?s \<le> unat n" using length_takeWhile_le [of "\<lambda>c. c \<noteq> 0" ?p] by simp
  have s: "0 \<notin> set ?s" by (auto dest: set_takeWhileD)
  have split: "?p = ?s @ dropWhile (\<lambda>c. c \<noteq> 0) ?p" by simp
  have run: "amsnhash (?s @ rest) n = Some (djb2 5381 (map scast ?s), of_nat (length ?s))"
    if "length ?s < unat n \<longrightarrow> (\<exists>r. rest = 0 # r)" for rest
    unfolding amsnhash_def by (subst amsnhash_loop_djb2) (use that len s in auto)
  have "takeWhile (\<lambda>c. c \<noteq> 0) (?p @ [0]) = ?s"
    by (simp add: takeWhile_append takeWhile_eq_all_conv [THEN iffD2] del: takeWhile_append1)
  then have ref: "amshash (?p @ [0]) = Some (djb2 5381 (map scast ?s), of_nat (length ?s))"
    by (simp add: amshash_polynomial_aux Let_def)
  show ?thesis
  proof (cases "0 \<in> set ?p")
    case True
    then obtain d where d: "dropWhile (\<lambda>c. c \<noteq> 0) ?p = 0 # d"
      by (metis (mono_tags, lifting) dropWhile_eq_Nil_conv hd_dropWhile list.collapse)
    have "str = ?s @ (0 # d @ drop (unat n) str)"
      by (metis append_Cons append_assoc append_take_drop_id d split)
    then have "amsnhash str n = Some (djb2 5381 (map scast ?s), of_nat (length ?s))"
      using run [of "0 # d @ drop (unat n) str"] by auto
    moreover have "0 \<in> set str" using True by (rule in_set_takeD)
    ultimately show ?thesis by (simp only: ref simp_thms if_True)
  next
    case False
    then have p: "?s = ?p" by (subst takeWhile_eq_all_conv) auto
    show ?thesis
    proof (cases "unat n \<le> length str")
      case True
      then have "length ?s = unat n" by (subst p) simp
      moreover have "str = ?s @ drop (unat n) str" by (subst p) simp
      ultimately have "amsnhash str n = Some (djb2 5381 (map scast ?s), of_nat (length ?s))"
        using run [of "drop (unat n) str"] by auto
      with True show ?thesis by (simp only: ref simp_thms if_True)
    next
      case short: False
      with False have "0 \<notin> set str" by simp
      with short show ?thesis by (simp add: amsnhash_def amsnhash_loop_none)
    qed
  qed
qed

text \<open>
  On a string of 7-bit characters the three functions agree: hashing it by its length, up
  to its terminator or up to any bound that is at least its length gives the same value.
\<close>

theorem hash_functions_agree:
  assumes "\<forall>c \<in> set s. c \<noteq> 0 \<and> c < 128" and "length s < 2 ^ 64" and "of_nat (length s) \<le> n"
  shows "amshash (s @ 0 # rest) = Some (h, l) \<Longrightarrow>
    amhash s (of_nat (length s)) = Some h \<and> amsnhash (s @ 0 # rest) n = Some (h, l)"
proof -
  have len: "unat (of_nat (length s) :: u64) = length s"
    using assms(2) by (simp add: unat_of_nat)
  have nz: "0 \<notin> set s" using assms(1) by auto
  have ext: "map scast s = (map ucast s :: u64 list)"
    using assms(1) by (auto simp: scast_eq_ucast_ascii)
  have "amhash s (of_nat (length s)) = Some (djb2 5381 (map scast s))"
    by (simp add: amhash_polynomial len ext)
  moreover have "length s \<le> unat n" using assms(3) len by (simp add: word_le_nat_alt)
  then have "amsnhash (s @ 0 # rest) n = Some (djb2 5381 (map scast s), of_nat (length s))"
    unfolding amsnhash_def by (subst amsnhash_loop_djb2) (use nz in auto)
  moreover assume "amshash (s @ 0 # rest) = Some (h, l)"
  then have "h = djb2 5381 (map scast s)" "l = of_nat (length s)"
    using nz by (simp_all add: amshash_def amshash_loop_djb2)
  ultimately show ?thesis by simp
qed

theorem hash_functions_agree_witness:
  "amhash [97, 98] 2 = Some 5863208 \<and> amsnhash [97, 98, 0] 7 = Some (5863208, 2)"
  using hash_functions_agree [of "[97, 98]" 7 "[]" 5863208 2]
  by (simp add: amshash_def djb2_round)

text \<open>
  The agreement ends at the first byte with its high bit set, which only the string functions
  extend by its sign; and the hash is not injective, already on strings of two characters.
\<close>

lemma amshash_high_byte: "amshash [128, 0] \<noteq> map_option (\<lambda>h. (h, 1)) (amhash [128] 1)"
  by (simp add: amshash_def amhash_def djb2_round)

lemma amshash_collision: "amshash [97, 98, 0] = amshash [98, 65, 0]"
  by (simp add: amshash_def djb2_round)

end
