(* ===== verification/AmList.thy ===== *)
theory AmList
  imports Prelude
begin

text \<open>
  The intrusive, circular, doubly linked list of \<^verbatim>\<open>include/libam/libam_list.h\<close> over an explicit
  memory of links, its abstraction to a HOL list, and the contract under which the other
  components use it.
\<close>

section \<open>Model\<close>

text \<open>
  \<^verbatim>\<open>struct amlist_head\<close>, for anchors and members alike. The memory maps the address of a link
  to its two fields; \<open>None\<close> is \<^verbatim>\<open>NULL\<close> (a link that was cleared with \<^verbatim>\<open>memset\<close>).
\<close>

record 'l amlist_head =
  lnext :: "'l option"
  lprev :: "'l option"

type_synonym 'l links = "'l \<Rightarrow> 'l amlist_head"

definition set_next :: "'l \<Rightarrow> 'l option \<Rightarrow> 'l links \<Rightarrow> 'l links" where
  "set_next a v h = h(a := (h a)\<lparr>lnext := v\<rparr>)"

definition set_prev :: "'l \<Rightarrow> 'l option \<Rightarrow> 'l links \<Rightarrow> 'l links" where
  "set_prev a v h = h(a := (h a)\<lparr>lprev := v\<rparr>)"

definition amlist_init :: "'l links \<Rightarrow> 'l \<Rightarrow> 'l links" where
  "amlist_init h list = set_prev list (Some list) (set_next list (Some list) h)"

definition amlist_add_between :: "'l links \<Rightarrow> 'l \<Rightarrow> 'l \<Rightarrow> 'l \<Rightarrow> 'l links" where
  "amlist_add_between h entry prv nxt =
     (let h = set_prev nxt (Some entry) h;
          h = set_next entry (Some nxt) h;
          h = set_prev entry (Some prv) h
      in set_next prv (Some entry) h)"

definition amlist_add :: "'l links \<Rightarrow> 'l \<Rightarrow> 'l \<Rightarrow> 'l links option" where
  "amlist_add h head entry =
     do { nxt \<leftarrow> lnext (h head); Some (amlist_add_between h entry head nxt) }"

definition amlist_add_tail :: "'l links \<Rightarrow> 'l \<Rightarrow> 'l \<Rightarrow> 'l links option" where
  "amlist_add_tail h head entry =
     do { prv \<leftarrow> lprev (h head); Some (amlist_add_between h entry prv head) }"

definition amlist_del_between :: "'l links \<Rightarrow> 'l \<Rightarrow> 'l \<Rightarrow> 'l links" where
  "amlist_del_between h prv nxt = set_next prv (Some nxt) (set_prev nxt (Some prv) h)"

definition amlist_del :: "'l links \<Rightarrow> 'l \<Rightarrow> 'l links option" where
  "amlist_del h entry =
     do { prv \<leftarrow> lprev (h entry); nxt \<leftarrow> lnext (h entry);
          Some (amlist_del_between h prv nxt) }"

definition amlist_empty :: "'l links \<Rightarrow> 'l \<Rightarrow> bool" where
  "amlist_empty h head \<longleftrightarrow> lnext (h head) = Some head"

text \<open>\<^verbatim>\<open>amlist_first_entry\<close> and \<^verbatim>\<open>amlist_last_entry\<close>, up to \<^verbatim>\<open>container_of\<close>.\<close>

definition amlist_first :: "'l links \<Rightarrow> 'l \<Rightarrow> 'l option" where
  "amlist_first h head = lnext (h head)"

definition amlist_last :: "'l links \<Rightarrow> 'l \<Rightarrow> 'l option" where
  "amlist_last h head = lprev (h head)"

text \<open>
  The members \<^verbatim>\<open>amlist_for_each_entry\<close> visits, in their order, from the position \<open>pos\<close> on.
\<close>

partial_function (option) amlist_for_each_from :: "'l links \<Rightarrow> 'l \<Rightarrow> 'l \<Rightarrow> 'l list option" where
  "amlist_for_each_from h head pos =
     (if pos = head then Some []
      else do { nxt \<leftarrow> lnext (h pos);
                rest \<leftarrow> amlist_for_each_from h head nxt;
                Some (pos # rest) })"

definition amlist_for_each_entry :: "'l links \<Rightarrow> 'l \<Rightarrow> 'l list option" where
  "amlist_for_each_entry h head =
     do { first \<leftarrow> lnext (h head); amlist_for_each_from h head first }"

section \<open>Reads after writes\<close>

lemma lnext_set [heap_simps]:
  "lnext (set_next a v h b) = (if b = a then v else lnext (h b))"
  "lnext (set_prev a v h b) = lnext (h b)"
  by (simp_all add: set_next_def set_prev_def)

lemma lprev_set [heap_simps]:
  "lprev (set_prev a v h b) = (if b = a then v else lprev (h b))"
  "lprev (set_next a v h b) = lprev (h b)"
  by (simp_all add: set_next_def set_prev_def)

section \<open>Segments and circular lists\<close>

text \<open>
  \<open>chain h a xs b\<close>: following \<open>lnext\<close> from \<open>a\<close> visits \<open>xs\<close> and arrives at \<open>b\<close>, and every
  \<open>lprev\<close> on the way points back.
\<close>

fun chain :: "'l links \<Rightarrow> 'l \<Rightarrow> 'l list \<Rightarrow> 'l \<Rightarrow> bool" where
  "chain h a [] b \<longleftrightarrow> lnext (h a) = Some b \<and> lprev (h b) = Some a"
| "chain h a (x # xs) b \<longleftrightarrow> lnext (h a) = Some x \<and> lprev (h x) = Some a \<and> chain h x xs b"

lemma chain_append: "chain h a (xs @ y # ys) b \<longleftrightarrow> chain h a xs y \<and> chain h y ys b"
  by (induction xs arbitrary: a) auto

lemma chain_set_next [frame_simps]:
  "c \<notin> set (a # xs) \<Longrightarrow> chain (set_next c v h) a xs b = chain h a xs b"
  by (induction xs arbitrary: a) (auto simp: heap_simps)

lemma chain_set_prev [frame_simps]:
  "c \<notin> set (xs @ [b]) \<Longrightarrow> chain (set_prev c v h) a xs b = chain h a xs b"
  by (induction xs arbitrary: a) (auto simp: heap_simps)

lemma chain_cong:
  assumes "\<forall>x \<in> set (a # xs @ [b]). h' x = h x"
  shows "chain h' a xs b = chain h a xs b"
  using assms by (induction xs arbitrary: a) auto

definition dlist :: "'l links \<Rightarrow> 'l \<Rightarrow> 'l list \<Rightarrow> bool" where
  "dlist h head xs \<longleftrightarrow> distinct (head # xs) \<and> chain h head xs head"

lemma dlist_cong:
  assumes "\<forall>x \<in> set (head # xs). h' x = h x"
  shows "dlist h' head xs = dlist h head xs"
  unfolding dlist_def using chain_cong [of head xs head h' h] assms by auto

text \<open>A circular list can be entered at any of its links.\<close>

lemma dlist_rotate: "dlist h head (xs @ p # ys) \<longleftrightarrow> dlist h p (ys @ head # xs)"
  by (auto simp: dlist_def chain_append)

lemma dlist_Nil: "dlist h head [] \<longleftrightarrow> lnext (h head) = Some head \<and> lprev (h head) = Some head"
  by (auto simp: dlist_def)

lemma dlist_next: "dlist h head xs \<Longrightarrow> lnext (h head) = Some (hd (xs @ [head]))"
  by (cases xs) (auto simp: dlist_def)

lemma dlist_prev: "dlist h head xs \<Longrightarrow> lprev (h head) = Some (last (head # xs))"
  by (cases xs rule: rev_cases) (auto simp: dlist_def chain_append)

lemma dlist_init: "dlist (amlist_init h head) head []"
  by (simp add: dlist_Nil amlist_init_def heap_simps)

lemma amlist_init_other: "x \<noteq> head \<Longrightarrow> amlist_init h head x = h x"
  by (simp add: amlist_init_def set_next_def set_prev_def)

lemma amlist_empty_iff: "dlist h head xs \<Longrightarrow> amlist_empty h head \<longleftrightarrow> xs = []"
  by (cases xs) (auto simp: amlist_empty_def dlist_def)

lemma amlist_first_eq: "dlist h head (x # xs) \<Longrightarrow> amlist_first h head = Some x"
  by (simp add: amlist_first_def dlist_def)

lemma amlist_last_eq: "dlist h head (xs @ [x]) \<Longrightarrow> amlist_last h head = Some x"
  by (simp add: amlist_last_def dlist_def chain_append)

lemma amlist_add_between_other:
  "x \<notin> {e, p, n} \<Longrightarrow> amlist_add_between h e p n x = h x"
  by (simp add: amlist_add_between_def set_next_def set_prev_def Let_def)

lemma amlist_del_between_other: "x \<notin> {p, n} \<Longrightarrow> amlist_del_between h p n x = h x"
  by (simp add: amlist_del_between_def set_next_def set_prev_def)

lemma amlist_add_dlist:
  assumes "dlist h head xs" and "e \<notin> set (head # xs)"
  shows "\<exists>h'. amlist_add h head e = Some h' \<and> dlist h' head (e # xs) \<and>
    (\<forall>x. x \<notin> set (e # head # xs) \<longrightarrow> h' x = h x)"
proof -
  define n where "n = hd (xs @ [head])"
  then have n: "n \<in> set (head # xs)" by (cases xs) auto
  let ?h = "amlist_add_between h e head n"
  have "amlist_add h head e = Some ?h"
    using dlist_next [OF assms(1)] by (simp add: amlist_add_def n_def)
  moreover have "dlist ?h head (e # xs)"
    using assms unfolding n_def
    by (cases xs) (auto simp: dlist_def amlist_add_between_def heap_simps frame_simps Let_def)
  moreover have "\<forall>x. x \<notin> set (e # head # xs) \<longrightarrow> ?h x = h x"
    using n by (auto intro!: amlist_add_between_other)
  ultimately show ?thesis by blast
qed

text \<open>Adding after a member \<open>p\<close> is adding at the front of the list entered at \<open>p\<close>.\<close>

lemma amlist_add_after:
  assumes "dlist h head (xs @ p # ys)" and "e \<notin> set (head # xs @ p # ys)"
  shows "\<exists>h'. amlist_add h p e = Some h' \<and> dlist h' head (xs @ p # e # ys) \<and>
    (\<forall>x. x \<notin> set (e # head # xs @ p # ys) \<longrightarrow> h' x = h x)"
proof -
  have "dlist h p (ys @ head # xs)" using assms(1) by (simp add: dlist_rotate)
  from amlist_add_dlist [OF this, of e] assms(2) obtain h' where
    "amlist_add h p e = Some h'" "dlist h' p ((e # ys) @ head # xs)"
    "\<forall>x. x \<notin> set (e # p # ys @ head # xs) \<longrightarrow> h' x = h x"
    by auto
  then show ?thesis by (auto simp: dlist_rotate [of h' head xs p "e # ys"])
qed

lemma amlist_add_tail_as_add:
  assumes "dlist h head xs"
  shows "amlist_add_tail h head e = amlist_add h (last (head # xs)) e"
proof (cases xs rule: rev_cases)
  case Nil
  with assms show ?thesis by (simp add: amlist_add_tail_def amlist_add_def dlist_Nil)
next
  case (snoc ys p)
  with assms have "dlist h p ([] @ head # ys)" by (simp only: dlist_rotate)
  then have "lnext (h p) = Some head" by (auto dest: dlist_next)
  with snoc show ?thesis
    using dlist_prev [OF assms] by (simp add: amlist_add_tail_def amlist_add_def)
qed

lemma amlist_add_tail_dlist:
  assumes "dlist h head xs" and "e \<notin> set (head # xs)"
  shows "\<exists>h'. amlist_add_tail h head e = Some h' \<and> dlist h' head (xs @ [e]) \<and>
    (\<forall>x. x \<notin> set (e # head # xs) \<longrightarrow> h' x = h x)"
proof (cases xs rule: rev_cases)
  case Nil
  with assms amlist_add_dlist [OF assms] show ?thesis by (simp add: amlist_add_tail_as_add)
next
  case (snoc ys p)
  with assms amlist_add_after [of h head ys p "[]" e] show ?thesis
    by (auto simp: amlist_add_tail_as_add)
qed

lemma amlist_add_before:
  assumes "dlist h head (xs @ p # ys)" and "e \<notin> set (head # xs @ p # ys)"
  shows "\<exists>h'. amlist_add_tail h p e = Some h' \<and> dlist h' head (xs @ e # p # ys) \<and>
    (\<forall>x. x \<notin> set (e # head # xs @ p # ys) \<longrightarrow> h' x = h x)"
proof -
  have "dlist h p (ys @ head # xs)" using assms(1) by (simp add: dlist_rotate)
  from amlist_add_tail_dlist [OF this, of e] assms(2) obtain h' where
    "amlist_add_tail h p e = Some h'" "dlist h' p (ys @ head # (xs @ [e]))"
    "\<forall>x. x \<notin> set (e # p # ys @ head # xs) \<longrightarrow> h' x = h x"
    by auto
  moreover from this(2) have "dlist h' head ((xs @ [e]) @ p # ys)" by (simp only: dlist_rotate)
  ultimately show ?thesis by auto
qed

lemma amlist_del_dlist:
  assumes "dlist h head (xs @ e # ys)"
  shows "\<exists>h'. amlist_del h e = Some h' \<and> dlist h' head (xs @ ys) \<and>
    (\<forall>x. x \<notin> set (head # xs @ ys) \<longrightarrow> h' x = h x)"
proof -
  define p n where "p = last (head # xs)" and "n = hd (ys @ [head])"
  have pn: "p \<in> set (head # xs) \<and> n \<in> set (head # ys)"
    unfolding p_def n_def by (cases ys) auto
  let ?h = "amlist_del_between h p n"
  have "dlist h e (ys @ head # xs)" using assms by (simp add: dlist_rotate)
  then have "lnext (h e) = Some n" "lprev (h e) = Some p"
    using dlist_next [of h e "ys @ head # xs"] dlist_prev [of h e "ys @ head # xs"]
    by (cases ys; simp add: n_def p_def)+
  then have "amlist_del h e = Some ?h" by (simp add: amlist_del_def)
  moreover have "dlist ?h head (xs @ ys)"
    using assms unfolding p_def n_def
    by (cases xs rule: rev_cases; cases ys)
      (auto simp: dlist_def amlist_del_between_def chain_append heap_simps frame_simps)
  moreover have "\<forall>x. x \<notin> set (head # xs @ ys) \<longrightarrow> ?h x = h x"
    using pn by (auto intro!: amlist_del_between_other)
  ultimately show ?thesis by blast
qed

lemma amlist_for_each_from_chain:
  assumes "chain h a xs head" and "head \<notin> set xs"
  shows "\<exists>pos. lnext (h a) = Some pos \<and> amlist_for_each_from h head pos = Some xs"
  using assms
proof (induction xs arbitrary: a)
  case Nil
  then show ?case by (simp add: amlist_for_each_from.simps)
next
  case (Cons x xs)
  then obtain pos where "lnext (h x) = Some pos" "amlist_for_each_from h head pos = Some xs"
    by auto
  with Cons.prems show ?case by (auto simp: amlist_for_each_from.simps [of h head x])
qed

lemma amlist_for_each_dlist: "dlist h head xs \<Longrightarrow> amlist_for_each_entry h head = Some xs"
  using amlist_for_each_from_chain [of h head xs head]
  by (auto simp: amlist_for_each_entry_def dlist_def)

section \<open>Many lists in one memory\<close>

text \<open>
  \<open>forest h A f\<close>: the links in \<open>A\<close> are anchors, the list at anchor \<open>a\<close> has the members \<open>f a\<close>,
  and no link is on two lists.
\<close>

definition forest :: "'l links \<Rightarrow> 'l set \<Rightarrow> ('l \<Rightarrow> 'l list) \<Rightarrow> bool" where
  "forest h A f \<longleftrightarrow>
     (\<forall>a \<in> A. dlist h a (f a) \<and> set (f a) \<inter> A = {}) \<and>
     (\<forall>a \<in> A. \<forall>b \<in> A. a \<noteq> b \<longrightarrow> set (f a) \<inter> set (f b) = {})"

lemma forest_dlist: "forest h A f \<Longrightarrow> a \<in> A \<Longrightarrow> dlist h a (f a)"
  by (simp add: forest_def)

lemma forest_distinct: "forest h A f \<Longrightarrow> a \<in> A \<Longrightarrow> distinct (f a)"
  by (simp add: forest_def dlist_def)

lemma forest_subset: "forest h A f \<Longrightarrow> B \<subseteq> A \<Longrightarrow> forest h B f"
  unfolding forest_def by blast

lemma forest_cong: "forest h A f \<Longrightarrow> (\<And>a. a \<in> A \<Longrightarrow> g a = f a) \<Longrightarrow> forest h A g"
  unfolding forest_def by (simp cong: ball_cong)

text \<open>Changing one list of a forest, within the links it owns and links that are on no list.\<close>

lemma forest_update:
  assumes "forest h A f" and "a \<in> A" and "dlist h' a xs"
    and "\<forall>x. x \<notin> insert a (set (f a)) \<union> N \<longrightarrow> h' x = h x"
    and "N \<inter> A = {}" and "\<forall>b \<in> A. N \<inter> set (f b) = {}" and "set xs \<subseteq> set (f a) \<union> N"
  shows "forest h' A (f(a := xs))"
proof -
  have "dlist h' b (f b)" if "b \<in> A" "b \<noteq> a" for b
  proof -
    have "set (f a) \<inter> A = {}" "set (f b) \<inter> A = {}" "set (f b) \<inter> set (f a) = {}"
      using assms(1,2) that by (simp_all add: forest_def)
    moreover have "N \<inter> set (f b) = {}" using assms(6) that(1) by blast
    ultimately have "set (b # f b) \<inter> (insert a (set (f a)) \<union> N) = {}"
      using that assms(2,5) by auto
    with assms(4) have "\<forall>x \<in> set (b # f b). h' x = h x" by blast
    then show ?thesis
      using dlist_cong [of b "f b" h' h] forest_dlist [OF assms(1) that(1)] by blast
  qed
  moreover have "set xs \<inter> A = {}" using assms(1,2,5,7) by (auto simp: forest_def)
  moreover have "set xs \<inter> set (f b) = {}" if "b \<in> A" "b \<noteq> a" for b
  proof -
    have "set (f a) \<inter> set (f b) = {}" using assms(1,2) that by (simp add: forest_def)
    with assms(6,7) that show ?thesis by blast
  qed
  ultimately show ?thesis using assms(1,3) by (auto simp: forest_def)
qed

lemma forest_add:
  assumes "forest h A f" and "a \<in> A" and "e \<notin> A" and "\<forall>b \<in> A. e \<notin> set (f b)"
  shows "\<exists>h'. amlist_add h a e = Some h' \<and> forest h' A (f(a := e # f a))"
proof -
  from assms obtain h' where "amlist_add h a e = Some h'" "dlist h' a (e # f a)"
    "\<forall>x. x \<notin> set (e # a # f a) \<longrightarrow> h' x = h x"
    using amlist_add_dlist [OF forest_dlist] by (metis set_ConsD)
  moreover from this assms have "forest h' A (f(a := e # f a))"
    by (intro forest_update [where N = "{e}" and h = h]) auto
  ultimately show ?thesis by blast
qed

lemma forest_add_tail:
  assumes "forest h A f" and "a \<in> A" and "e \<notin> A" and "\<forall>b \<in> A. e \<notin> set (f b)"
  shows "\<exists>h'. amlist_add_tail h a e = Some h' \<and> forest h' A (f(a := f a @ [e]))"
proof -
  from assms obtain h' where "amlist_add_tail h a e = Some h'" "dlist h' a (f a @ [e])"
    "\<forall>x. x \<notin> set (e # a # f a) \<longrightarrow> h' x = h x"
    using amlist_add_tail_dlist [OF forest_dlist] by (metis set_ConsD)
  moreover from this assms have "forest h' A (f(a := f a @ [e]))"
    by (intro forest_update [where N = "{e}" and h = h]) auto
  ultimately show ?thesis by blast
qed

lemma forest_del:
  assumes "forest h A f" and "a \<in> A" and "e \<in> set (f a)"
  shows "\<exists>h'. amlist_del h e = Some h' \<and> forest h' A (f(a := remove1 e (f a)))"
proof -
  from assms(3) obtain xs ys where fa: "f a = xs @ e # ys" by (meson split_list)
  with forest_distinct [OF assms(1,2)] have rem: "remove1 e (f a) = xs @ ys"
    by (simp add: remove1_split)
  from forest_dlist [OF assms(1,2)] fa obtain h' where "amlist_del h e = Some h'"
    "dlist h' a (xs @ ys)" "\<forall>x. x \<notin> set (a # xs @ ys) \<longrightarrow> h' x = h x"
    using amlist_del_dlist by metis
  moreover from this assms fa have "forest h' A (f(a := xs @ ys))"
    by (intro forest_update [where N = "{}" and h = h]) auto
  ultimately show ?thesis using rem by auto
qed

lemma forest_init:
  assumes "forest h A f" and "\<forall>b \<in> A. a \<notin> set (f b)"
  shows "forest (amlist_init h a) (insert a A) (f(a := []))"
proof -
  have "dlist (amlist_init h a) b (f b)" if "b \<in> A" "b \<noteq> a" for b
    using assms that
    by (subst dlist_cong [where h = h]) (auto simp: forest_def intro!: amlist_init_other)
  then show ?thesis using assms by (auto simp: forest_def dlist_init)
qed

section \<open>The contract of the list component\<close>

text \<open>
  What the other components rely on: a store that represents one HOL list per anchor, and
  operations that change the lists as their names say. The lemmas of the locale are the steps
  the clients take: emptying a list from its front, and moving a member to another list.
\<close>

locale list_store =
  fixes rep :: "'h \<Rightarrow> 'l set \<Rightarrow> ('l \<Rightarrow> 'l list) \<Rightarrow> bool"
    and init :: "'h \<Rightarrow> 'l \<Rightarrow> 'h"
    and add :: "'h \<Rightarrow> 'l \<Rightarrow> 'l \<Rightarrow> 'h option"
    and add_tail :: "'h \<Rightarrow> 'l \<Rightarrow> 'l \<Rightarrow> 'h option"
    and del :: "'h \<Rightarrow> 'l \<Rightarrow> 'h option"
    and is_empty :: "'h \<Rightarrow> 'l \<Rightarrow> bool"
    and first :: "'h \<Rightarrow> 'l \<Rightarrow> 'l option"
    and for_each :: "'h \<Rightarrow> 'l \<Rightarrow> 'l list option"
  assumes rep_init: "rep h A f \<Longrightarrow> \<forall>b \<in> A. a \<notin> set (f b) \<Longrightarrow> rep (init h a) (insert a A) (f(a := []))"
    and rep_add: "rep h A f \<Longrightarrow> a \<in> A \<Longrightarrow> e \<notin> A \<Longrightarrow> \<forall>b \<in> A. e \<notin> set (f b) \<Longrightarrow>
      \<exists>h'. add h a e = Some h' \<and> rep h' A (f(a := e # f a))"
    and rep_add_tail: "rep h A f \<Longrightarrow> a \<in> A \<Longrightarrow> e \<notin> A \<Longrightarrow> \<forall>b \<in> A. e \<notin> set (f b) \<Longrightarrow>
      \<exists>h'. add_tail h a e = Some h' \<and> rep h' A (f(a := f a @ [e]))"
    and rep_del: "rep h A f \<Longrightarrow> a \<in> A \<Longrightarrow> e \<in> set (f a) \<Longrightarrow>
      \<exists>h'. del h e = Some h' \<and> rep h' A (f(a := remove1 e (f a)))"
    and rep_is_empty: "rep h A f \<Longrightarrow> a \<in> A \<Longrightarrow> is_empty h a \<longleftrightarrow> f a = []"
    and rep_first: "rep h A f \<Longrightarrow> a \<in> A \<Longrightarrow> f a = x # xs \<Longrightarrow> first h a = Some x"
    and rep_for_each: "rep h A f \<Longrightarrow> a \<in> A \<Longrightarrow> for_each h a = Some (f a)"
    and rep_distinct: "rep h A f \<Longrightarrow> a \<in> A \<Longrightarrow> distinct (f a)"
    and rep_anchor: "rep h A f \<Longrightarrow> a \<in> A \<Longrightarrow> e \<in> set (f a) \<Longrightarrow> e \<notin> A"
    and rep_disjoint: "rep h A f \<Longrightarrow> a \<in> A \<Longrightarrow> b \<in> A \<Longrightarrow> a \<noteq> b \<Longrightarrow> set (f a) \<inter> set (f b) = {}"
    and rep_empty: "rep h {} f"
begin

lemma pop_first:
  assumes "rep h A f" and "a \<in> A" and "f a = x # xs"
  shows "\<not> is_empty h a \<and> first h a = Some x \<and>
    (\<exists>h'. del h x = Some h' \<and> rep h' A (f(a := xs)))"
proof -
  have "remove1 x (f a) = xs" using assms(3) by simp
  with rep_del [OF assms(1,2), of x] assms(3)
  obtain h' where "del h x = Some h'" "rep h' A (f(a := xs))" by auto
  then show ?thesis using rep_first [OF assms] rep_is_empty [OF assms(1,2)] assms(3) by auto
qed

lemma unlinked_after_del:
  assumes "rep h A f" and "a \<in> A" and "e \<in> set (f a)"
  shows "\<forall>b \<in> A. e \<notin> set ((f(a := remove1 e (f a))) b)"
proof
  fix b assume "b \<in> A"
  with assms show "e \<notin> set ((f(a := remove1 e (f a))) b)"
    using rep_distinct [OF assms(1,2)] rep_disjoint [OF assms(1,2)]
    by (cases "b = a") auto
qed

lemma move:
  assumes "rep h A f" and "a \<in> A" and "b \<in> A" and "e \<in> set (f a)"
  shows "\<exists>h1 h2. del h e = Some h1 \<and> add h1 b e = Some h2 \<and>
    rep h2 A ((f(a := remove1 e (f a)))(b := e # (f(a := remove1 e (f a))) b))"
proof -
  from rep_del [OF assms(1,2,4)] obtain h1
    where h1: "del h e = Some h1" "rep h1 A (f(a := remove1 e (f a)))" by blast
  from rep_add [OF h1(2) assms(3) rep_anchor [OF assms(1,2,4)]
      unlinked_after_del [OF assms(1,2,4)]] h1(1)
  show ?thesis by blast
qed

end

lemma forest_is_empty: "forest h A f \<Longrightarrow> a \<in> A \<Longrightarrow> amlist_empty h a \<longleftrightarrow> f a = []"
  by (rule amlist_empty_iff [OF forest_dlist])

lemma forest_first: "forest h A f \<Longrightarrow> a \<in> A \<Longrightarrow> f a = x # xs \<Longrightarrow> amlist_first h a = Some x"
  using forest_dlist [of h A f a] by (simp add: amlist_first_eq)

lemma forest_for_each: "forest h A f \<Longrightarrow> a \<in> A \<Longrightarrow> amlist_for_each_entry h a = Some (f a)"
  by (rule amlist_for_each_dlist [OF forest_dlist])

interpretation links: list_store forest amlist_init amlist_add amlist_add_tail amlist_del
  amlist_empty amlist_first amlist_for_each_entry
proof unfold_locales
qed (fact forest_init forest_add forest_add_tail forest_del forest_is_empty forest_first
    forest_for_each forest_distinct |
    (auto simp: forest_def; fail))+

section \<open>Properties\<close>

text \<open>
  Inserting next to any member of a list, in front of it with \<open>amlist_add_tail\<close> or behind it
  with \<open>amlist_add\<close>, returns, puts the new link at exactly that place of the sequence, keeps
  the list circular and doubly linked, and writes to no link outside the list.
\<close>

theorem amlist_insert_at_member:
  assumes "dlist h head (xs @ p # ys)" and "e \<notin> set (head # xs @ p # ys)"
  shows "(\<exists>h'. amlist_add h p e = Some h' \<and> dlist h' head (xs @ p # e # ys) \<and>
            (\<forall>x. x \<notin> set (e # head # xs @ p # ys) \<longrightarrow> h' x = h x)) \<and>
         (\<exists>h'. amlist_add_tail h p e = Some h' \<and> dlist h' head (xs @ e # p # ys) \<and>
            (\<forall>x. x \<notin> set (e # head # xs @ p # ys) \<longrightarrow> h' x = h x))"
  using amlist_add_after [OF assms] amlist_add_before [OF assms] by blast

text \<open>
  \<open>amlist_del\<close> of a member returns and takes exactly that member out of the sequence, the
  others keeping their order, and a member deleted and added again at the front of the same
  list is found first by the next traversal.
\<close>

theorem amlist_del_then_add:
  assumes "dlist h head (xs @ e # ys)"
  shows "\<exists>h1 h2. amlist_del h e = Some h1 \<and> amlist_for_each_entry h1 head = Some (xs @ ys) \<and>
    amlist_add h1 head e = Some h2 \<and> amlist_for_each_entry h2 head = Some (e # xs @ ys)"
proof -
  from assms have e: "e \<notin> set (head # xs @ ys)" by (auto simp: dlist_def)
  from amlist_del_dlist [OF assms] obtain h1
    where h1: "amlist_del h e = Some h1" "dlist h1 head (xs @ ys)" by blast
  from amlist_add_dlist [OF h1(2) e] obtain h2
    where "amlist_add h1 head e = Some h2" "dlist h2 head (e # xs @ ys)" by blast
  with h1 show ?thesis by (auto dest: amlist_for_each_dlist)
qed

definition two_links :: "nat links" where
  "two_links = (\<lambda>x. \<lparr>lnext = None, lprev = None\<rparr>)
     (0 := \<lparr>lnext = Some 1, lprev = Some 2\<rparr>, 1 := \<lparr>lnext = Some 2, lprev = Some 0\<rparr>,
      2 := \<lparr>lnext = Some 0, lprev = Some 1\<rparr>)"

lemma two_links_dlist: "dlist two_links 0 ([1] @ 2 # [])"
  by (simp add: dlist_def two_links_def)

theorem amlist_insert_at_member_witness:
  "\<exists>h'. amlist_add_tail two_links 2 7 = Some h' \<and> dlist h' 0 [1, 7, 2]"
  using amlist_insert_at_member [OF two_links_dlist, of 7] by auto

theorem amlist_del_then_add_witness:
  "\<exists>h1 h2. amlist_del two_links 2 = Some h1 \<and> amlist_for_each_entry h1 0 = Some [1] \<and>
    amlist_add h1 0 2 = Some h2 \<and> amlist_for_each_entry h2 0 = Some [2, 1]"
  using amlist_del_then_add [OF two_links_dlist] by auto

end
