(* ===== verification/AmTree.thy ===== *)
theory AmTree
  imports Prelude "HOL-Library.Tree"
begin

text \<open>
  The AVL tree of \<^verbatim>\<open>src/libam_tree.c\<close> over an explicit memory of nodes with parent pointers:
  every function, statement by statement. The abstraction to a HOL tree and the proofs are in
  the theories AmTreeShape, AmTreeInsert and AmTreeDelete.
\<close>

section \<open>State\<close>

text \<open>
  \<^verbatim>\<open>struct amtree_node\<close>. \<^verbatim>\<open>balance\<close> is a C \<^verbatim>\<open>int\<close>, modelled without a width: the invariant keeps
  it between \<open>-2\<close> and \<open>2\<close>, and every other value ends in \<^verbatim>\<open>abort()\<close>.
\<close>

record amtree_node =
  parent :: "addr option"
  left :: "addr option"
  right :: "addr option"
  key :: u64
  balance :: int

text \<open>\<^verbatim>\<open>struct amtree\<close>, with the memory the node pointers point into.\<close>

record amtree =
  root :: "addr option"
  count :: u32
  nodes :: "addr \<Rightarrow> amtree_node"

abbreviation "par t a \<equiv> parent (nodes t a)"
abbreviation "lft t a \<equiv> left (nodes t a)"
abbreviation "rgt t a \<equiv> right (nodes t a)"
abbreviation "ky t a \<equiv> key (nodes t a)"
abbreviation "bal t a \<equiv> balance (nodes t a)"

definition set_node :: "addr \<Rightarrow> amtree_node \<Rightarrow> amtree \<Rightarrow> amtree" where
  "set_node a n t = t\<lparr>nodes := (nodes t)(a := n)\<rparr>"

definition set_root :: "addr option \<Rightarrow> amtree \<Rightarrow> amtree" where
  "set_root r t = t\<lparr>root := r\<rparr>"

definition set_parent :: "addr \<Rightarrow> addr option \<Rightarrow> amtree \<Rightarrow> amtree" where
  "set_parent a v t = set_node a ((nodes t a)\<lparr>parent := v\<rparr>) t"

definition set_left :: "addr \<Rightarrow> addr option \<Rightarrow> amtree \<Rightarrow> amtree" where
  "set_left a v t = set_node a ((nodes t a)\<lparr>left := v\<rparr>) t"

definition set_right :: "addr \<Rightarrow> addr option \<Rightarrow> amtree \<Rightarrow> amtree" where
  "set_right a v t = set_node a ((nodes t a)\<lparr>right := v\<rparr>) t"

definition set_balance :: "addr \<Rightarrow> int \<Rightarrow> amtree \<Rightarrow> amtree" where
  "set_balance a v t = set_node a ((nodes t a)\<lparr>balance := v\<rparr>) t"

text \<open>The recurring statement \<^verbatim>\<open>if (x != NULL) x->parent = v;\<close>.\<close>

definition set_parent_if :: "addr option \<Rightarrow> addr option \<Rightarrow> amtree \<Rightarrow> amtree" where
  "set_parent_if x v t = (case x of None \<Rightarrow> t | Some a \<Rightarrow> set_parent a v t)"

text \<open>The macros of \<^verbatim>\<open>include/libam/libam_tree.h\<close>.\<close>

definition amtree_init :: "amtree \<Rightarrow> amtree" where
  "amtree_init t = t\<lparr>root := None, count := 0\<rparr>"

definition amtree_is_empty :: "amtree \<Rightarrow> bool" where
  "amtree_is_empty t \<longleftrightarrow> count t = 0"

section \<open>Lookup\<close>

definition amtree_cmp :: "amtree \<Rightarrow> u64 \<Rightarrow> addr \<Rightarrow> addr option" where
  "amtree_cmp t targ_key compare =
     (if targ_key > ky t compare then rgt t compare
      else if targ_key < ky t compare then lft t compare
      else Some compare)"

partial_function (option) amtree_find_from :: "amtree \<Rightarrow> u64 \<Rightarrow> addr option \<Rightarrow> addr option option" where
  "amtree_find_from t k cur =
     (case cur of
        None \<Rightarrow> Some None
      | Some c \<Rightarrow>
          (let nxt = amtree_cmp t k c
           in if nxt = Some c then Some (Some c) else amtree_find_from t k nxt))"

text \<open>\<^verbatim>\<open>amtree_find\<close> reads nothing of its target but the key.\<close>

definition amtree_find :: "amtree \<Rightarrow> amtree_node \<Rightarrow> addr option option" where
  "amtree_find t target = amtree_find_from t (key target) (root t)"

definition amtree_find_key :: "amtree \<Rightarrow> u64 \<Rightarrow> addr option option" where
  "amtree_find_key t k =
     amtree_find t \<lparr>parent = None, left = None, right = None, key = k, balance = 0\<rparr>"

section \<open>Rotations\<close>

text \<open>
  \<^verbatim>\<open>amtree_which_child\<close> returns the address of one of two fields; the model returns which.
\<close>

datatype child_slot = LeftSlot | RightSlot

definition amtree_which_child :: "amtree \<Rightarrow> addr \<Rightarrow> addr \<Rightarrow> child_slot" where
  "amtree_which_child t p child = (if lft t p = Some child then LeftSlot else RightSlot)"

definition set_child :: "addr \<Rightarrow> child_slot \<Rightarrow> addr option \<Rightarrow> amtree \<Rightarrow> amtree" where
  "set_child p slot v t = (case slot of LeftSlot \<Rightarrow> set_left p v t | RightSlot \<Rightarrow> set_right p v t)"

text \<open>
  The statement \<^verbatim>\<open>if (p == NULL) t->root = x; else *amtree_which_child(p, n) = x;\<close> with which
  rotations, deletion and swap put \<open>x\<close> in the place of \<open>n\<close>.
\<close>

definition replace_child :: "addr option \<Rightarrow> addr \<Rightarrow> addr option \<Rightarrow> amtree \<Rightarrow> amtree" where
  "replace_child p n x t =
     (case p of None \<Rightarrow> set_root x t | Some q \<Rightarrow> set_child q (amtree_which_child t q n) x t)"

definition amtree_rotate_right :: "amtree \<Rightarrow> addr \<Rightarrow> addr \<Rightarrow> amtree" where
  "amtree_rotate_right t n cl =
     (let p = par t n;
          glr = rgt t cl;
          t = replace_child p n (Some cl) t;
          t = set_parent cl p t;
          t = set_left n glr t;
          t = set_parent_if glr (Some n) t;
          t = set_parent n (Some cl) t;
          t = set_right cl (Some n) t
      in if bal t cl = 0
         then set_balance cl 1 (set_balance n (-1) t)
         else set_balance cl 0 (set_balance n 0 t))"

definition amtree_rotate_left :: "amtree \<Rightarrow> addr \<Rightarrow> addr \<Rightarrow> amtree" where
  "amtree_rotate_left t n cr =
     (let p = par t n;
          grl = lft t cr;
          t = replace_child p n (Some cr) t;
          t = set_parent cr p t;
          t = set_right n grl t;
          t = set_parent_if grl (Some n) t;
          t = set_parent n (Some cr) t;
          t = set_left cr (Some n) t
      in if bal t cr = 0
         then set_balance cr (-1) (set_balance n 1 t)
         else set_balance cr 0 (set_balance n 0 t))"

definition amtree_rotate_right_left :: "amtree \<Rightarrow> addr \<Rightarrow> addr \<Rightarrow> amtree option" where
  "amtree_rotate_right_left t n cr =
     do { grl \<leftarrow> lft t cr;
          let p = par t n;
          let ggrlr = rgt t grl;
          let ggrll = lft t grl;
          let t = replace_child p n (Some grl) t;
          let t = set_parent grl p t;
          let t = set_left cr ggrlr t;
          let t = set_parent_if ggrlr (Some cr) t;
          let t = set_right n ggrll t;
          let t = set_parent_if ggrll (Some n) t;
          let t = set_right grl (Some cr) t;
          let t = set_parent cr (Some grl) t;
          let t = set_left grl (Some n) t;
          let t = set_parent n (Some grl) t;
          let t = (if bal t grl > 0 then set_balance cr 0 (set_balance n (-1) t)
                   else if bal t grl = 0 then set_balance cr 0 (set_balance n 0 t)
                   else set_balance cr 1 (set_balance n 0 t));
          Some (set_balance grl 0 t) }"

definition amtree_rotate_left_right :: "amtree \<Rightarrow> addr \<Rightarrow> addr \<Rightarrow> amtree option" where
  "amtree_rotate_left_right t n cl =
     do { glr \<leftarrow> rgt t cl;
          let p = par t n;
          let gglrl = lft t glr;
          let gglrr = rgt t glr;
          let t = replace_child p n (Some glr) t;
          let t = set_parent glr p t;
          let t = set_right cl gglrl t;
          let t = set_parent_if gglrl (Some cl) t;
          let t = set_left n gglrr t;
          let t = set_parent_if gglrr (Some n) t;
          let t = set_left glr (Some cl) t;
          let t = set_parent cl (Some glr) t;
          let t = set_right glr (Some n) t;
          let t = set_parent n (Some glr) t;
          let t = (if bal t glr < 0 then set_balance cl 0 (set_balance n 1 t)
                   else if bal t glr = 0 then set_balance cl 0 (set_balance n 0 t)
                   else set_balance cl (-1) (set_balance n 0 t));
          Some (set_balance glr 0 t) }"

section \<open>Insertion\<close>

text \<open>
  The climb of \<^verbatim>\<open>amtree_balance_add\<close>: \<open>n\<close> and \<open>p\<close> are the two loop variables. A balance
  outside \<open>-2 .. 2\<close> is the \<^verbatim>\<open>default\<close> of the switch, \<^verbatim>\<open>abort()\<close>.
\<close>

partial_function (option) amtree_balance_add_loop ::
    "amtree \<Rightarrow> addr option \<Rightarrow> addr option \<Rightarrow> amtree option" where
  "amtree_balance_add_loop t n po =
     (case po of
        None \<Rightarrow> Some t
      | Some p \<Rightarrow>
          (let t = (if lft t p = n then set_balance p (bal t p - 1) t
                    else set_balance p (bal t p + 1) t)
           in if bal t p = 0 then Some t
              else if bal t p = 1 \<or> bal t p = -1 then
                do { n \<leftarrow> n; amtree_balance_add_loop t (par t n) (par t p) }
              else if bal t p = 2 then
                do { n \<leftarrow> n;
                     if bal t n = 1 then Some (amtree_rotate_left t p n)
                     else amtree_rotate_right_left t p n }
              else if bal t p = -2 then
                do { n \<leftarrow> n;
                     if bal t n = -1 then Some (amtree_rotate_right t p n)
                     else amtree_rotate_left_right t p n }
              else None))"

definition amtree_balance_add :: "amtree \<Rightarrow> addr \<Rightarrow> amtree option" where
  "amtree_balance_add t n = amtree_balance_add_loop t (Some n) (par t n)"

text \<open>The descent: \<open>Inl\<close> an existing node with the key, \<open>Inr\<close> the parent of the free place.\<close>

partial_function (option) amtree_insert_descend ::
    "amtree \<Rightarrow> u64 \<Rightarrow> addr \<Rightarrow> (addr + addr) option" where
  "amtree_insert_descend t k p =
     (let nxt = amtree_cmp t k p
      in if nxt = Some p then Some (Inl p)
         else (case nxt of
                 None \<Rightarrow> Some (Inr p)
               | Some q \<Rightarrow> amtree_insert_descend t k q))"

definition amtree_insert :: "amtree \<Rightarrow> addr \<Rightarrow> (amtree \<times> addr option) option" where
  "amtree_insert t n =
     (case root t of
        None \<Rightarrow>
          (let t = set_root (Some n) t\<lparr>count := 1\<rparr>;
               t = set_balance n 0 (set_right n None (set_left n None (set_parent n None t)))
           in Some (t, None))
      | Some r \<Rightarrow>
          do { found \<leftarrow> amtree_insert_descend t (ky t n) r;
               (case found of
                  Inl existing \<Rightarrow> Some (t, Some existing)
                | Inr p \<Rightarrow>
                    do { let t = set_balance n 0 (set_right n None (set_left n None t));
                         let t = set_parent n (Some p) t;
                         let t = (if ky t n < ky t p then set_left p (Some n) t
                                  else set_right p (Some n) t);
                         let t = t\<lparr>count := count t + 1\<rparr>;
                         t \<leftarrow> amtree_balance_add t n;
                         Some (t, None) }) })"

section \<open>Deletion\<close>

text \<open>
  The switch of \<^verbatim>\<open>amtree_balance_del\<close> on the balance of the current node: the tree after it,
  with \<open>None\<close> where the code returns and the node to climb from where it breaks.
\<close>

definition amtree_balance_del_switch :: "amtree \<Rightarrow> addr \<Rightarrow> (amtree \<times> addr option) option" where
  "amtree_balance_del_switch t p =
     (if bal t p = 0 then Some (t, Some p)
      else if bal t p = 1 \<or> bal t p = -1 then Some (t, None)
      else if bal t p = 2 then
        do { c \<leftarrow> rgt t p;
             if bal t c \<noteq> -1 then
               (let t = amtree_rotate_left t p c
                in Some (t, if bal t c \<noteq> 0 then None else Some c))
             else
               do { t \<leftarrow> amtree_rotate_right_left t p c;
                    p \<leftarrow> par t p;
                    Some (t, Some p) } }
      else if bal t p = -2 then
        do { c \<leftarrow> lft t p;
             if bal t c \<noteq> 1 then
               (let t = amtree_rotate_right t p c
                in Some (t, if bal t c \<noteq> 0 then None else Some c))
             else
               do { t \<leftarrow> amtree_rotate_left_right t p c;
                    p \<leftarrow> par t p;
                    Some (t, Some p) } }
      else None)"

partial_function (option) amtree_balance_del :: "amtree \<Rightarrow> addr \<Rightarrow> amtree option" where
  "amtree_balance_del t p =
     do { sw \<leftarrow> amtree_balance_del_switch t p;
          (case sw of
             (t, None) \<Rightarrow> Some t
           | (t, Some p) \<Rightarrow>
               (case par t p of
                  None \<Rightarrow> Some t
                | Some nxt \<Rightarrow>
                    (let t = (if lft t nxt = Some p then set_balance nxt (bal t nxt + 1) t
                              else set_balance nxt (bal t nxt - 1) t)
                     in amtree_balance_del t nxt))) }"

text \<open>\<^verbatim>\<open>for (min = cr; min->left != NULL; min = min->left);\<close>\<close>

partial_function (option) amtree_leftmost :: "amtree \<Rightarrow> addr \<Rightarrow> addr option" where
  "amtree_leftmost t m = (case lft t m of None \<Rightarrow> Some m | Some l \<Rightarrow> amtree_leftmost t l)"

definition amtree_delete :: "amtree \<Rightarrow> addr \<Rightarrow> amtree option" where
  "amtree_delete t n =
     (let p = par t n;
          t = t\<lparr>count := count t - 1\<rparr>
      in case (lft t n, rgt t n) of
           (Some cl, Some cr) \<Rightarrow>
             (if lft t cr = None then
                do { let t = set_parent cr p t;
                     let t = replace_child p n (Some cr) t;
                     let t = set_parent cl (Some cr) t;
                     let t = set_left cr (Some cl) t;
                     let t = set_balance cr (bal t n - 1) t;
                     amtree_balance_del t cr }
              else
                do { m \<leftarrow> amtree_leftmost t cr;
                     min_p \<leftarrow> par t m;
                     let t = set_left min_p (rgt t m) t;
                     let t = set_parent_if (rgt t m) (Some min_p) t;
                     let t = set_balance min_p (bal t min_p + 1) t;
                     let t = set_balance m (bal t n) t;
                     let t = set_parent m p t;
                     let t = replace_child p n (Some m) t;
                     let t = set_parent cl (Some m) t;
                     let t = set_left m (Some cl) t;
                     let t = set_parent cr (Some m) t;
                     let t = set_right m (Some cr) t;
                     amtree_balance_del t min_p })
         | (cl, cr) \<Rightarrow>
             (let c = (if cr \<noteq> None then cr else cl);
                  t = set_parent_if c p t
              in case p of
                   None \<Rightarrow> Some (set_root c t)
                 | Some q \<Rightarrow>
                     (let t = (if lft t q = Some n
                               then set_balance q (bal t q + 1) (set_left q c t)
                               else set_balance q (bal t q - 1) (set_right q c t))
                      in amtree_balance_del t q)))"

definition amtree_delete_key :: "amtree \<Rightarrow> u64 \<Rightarrow> (amtree \<times> addr option) option" where
  "amtree_delete_key t k =
     do { targ \<leftarrow> amtree_find_key t k;
          (case targ of
             None \<Rightarrow> Some (t, None)
           | Some a \<Rightarrow> do { t \<leftarrow> amtree_delete t a; Some (t, Some a) }) }"

section \<open>Swap\<close>

definition amtree_swap :: "amtree \<Rightarrow> addr \<Rightarrow> addr \<Rightarrow> amtree" where
  "amtree_swap t to_remove to_insert =
     (let t = set_node to_insert (nodes t to_remove) t;
          t = set_node to_remove
                \<lparr>parent = None, left = None, right = None, key = 0, balance = 0\<rparr> t;
          t = replace_child (par t to_insert) to_remove (Some to_insert) t;
          t = set_parent_if (lft t to_insert) (Some to_insert) t
      in set_parent_if (rgt t to_insert) (Some to_insert) t)"

end
