(* ===== verification/AmTreeShape.thy ===== *)
theory AmTreeShape
  imports AmTree
begin

text \<open>
  The abstraction of the node memory of AmTree: subtrees, contexts (the way from a node up to
  the root, the path the parent pointers give the code), the balance invariant, what each
  write leaves unchanged, and the effect of a rotation.
\<close>

section \<open>Reads after writes\<close>

lemma nodes_set_node [simp]:
  "nodes (set_node a n t) b = (if b = a then n else nodes t b)"
  "root (set_node a n t) = root t" "count (set_node a n t) = count t"
  by (simp_all add: set_node_def)

lemma set_root_simps [simp]:
  "nodes (set_root r t) = nodes t" "root (set_root r t) = r" "count (set_root r t) = count t"
  by (simp_all add: set_root_def)

lemma set_parent_simps [simp]:
  "par (set_parent a v t) b = (if b = a then v else par t b)"
  "lft (set_parent a v t) b = lft t b" "rgt (set_parent a v t) b = rgt t b"
  "ky (set_parent a v t) b = ky t b" "bal (set_parent a v t) b = bal t b"
  "root (set_parent a v t) = root t" "count (set_parent a v t) = count t"
  by (simp_all add: set_parent_def)

lemma set_left_simps [simp]:
  "lft (set_left a v t) b = (if b = a then v else lft t b)"
  "par (set_left a v t) b = par t b" "rgt (set_left a v t) b = rgt t b"
  "ky (set_left a v t) b = ky t b" "bal (set_left a v t) b = bal t b"
  "root (set_left a v t) = root t" "count (set_left a v t) = count t"
  by (simp_all add: set_left_def)

lemma set_right_simps [simp]:
  "rgt (set_right a v t) b = (if b = a then v else rgt t b)"
  "par (set_right a v t) b = par t b" "lft (set_right a v t) b = lft t b"
  "ky (set_right a v t) b = ky t b" "bal (set_right a v t) b = bal t b"
  "root (set_right a v t) = root t" "count (set_right a v t) = count t"
  by (simp_all add: set_right_def)

lemma set_balance_simps [simp]:
  "bal (set_balance a v t) b = (if b = a then v else bal t b)"
  "par (set_balance a v t) b = par t b" "lft (set_balance a v t) b = lft t b"
  "rgt (set_balance a v t) b = rgt t b" "ky (set_balance a v t) b = ky t b"
  "root (set_balance a v t) = root t" "count (set_balance a v t) = count t"
  by (simp_all add: set_balance_def)

lemma set_parent_if_simps [simp]:
  "set_parent_if None v t = t"
  "par (set_parent_if x v t) b = (if x = Some b then v else par t b)"
  "lft (set_parent_if x v t) b = lft t b" "rgt (set_parent_if x v t) b = rgt t b"
  "ky (set_parent_if x v t) b = ky t b" "bal (set_parent_if x v t) b = bal t b"
  "root (set_parent_if x v t) = root t" "count (set_parent_if x v t) = count t"
  by (auto simp: set_parent_if_def split: option.splits)

lemma replace_child_simps [simp]:
  "par (replace_child p n x t) b = par t b" "ky (replace_child p n x t) b = ky t b"
  "bal (replace_child p n x t) b = bal t b" "count (replace_child p n x t) = count t"
  "p \<noteq> Some b \<Longrightarrow> nodes (replace_child p n x t) b = nodes t b"
  by (auto simp: replace_child_def set_child_def set_left_def set_right_def
      split: option.splits child_slot.splits)

lemma nodes_other [simp]:
  "b \<noteq> a \<Longrightarrow> nodes (set_parent a v t) b = nodes t b"
  "b \<noteq> a \<Longrightarrow> nodes (set_left a v t) b = nodes t b"
  "b \<noteq> a \<Longrightarrow> nodes (set_right a v t) b = nodes t b"
  "b \<noteq> a \<Longrightarrow> nodes (set_balance a i t) b = nodes t b"
  "x \<noteq> Some b \<Longrightarrow> nodes (set_parent_if x v t) b = nodes t b"
  by (auto simp: set_parent_def set_left_def set_right_def set_balance_def set_parent_if_def
      split: option.splits)

section \<open>Subtrees\<close>

text \<open>
  \<open>tree_at t p r T\<close>: the pointer \<open>r\<close> is the root of a subtree of the shape \<open>T\<close> (a tree of node
  addresses), whose parent pointer is \<open>p\<close>.
\<close>

fun tree_at :: "amtree \<Rightarrow> addr option \<Rightarrow> addr option \<Rightarrow> addr tree \<Rightarrow> bool" where
  "tree_at t p r Leaf \<longleftrightarrow> r = None"
| "tree_at t p r (Node L a R) \<longleftrightarrow>
     r = Some a \<and> par t a = p \<and> tree_at t (Some a) (lft t a) L \<and> tree_at t (Some a) (rgt t a) R"

text \<open>Every balance is the height of the right subtree less that of the left, and at most one.\<close>

fun bal_at :: "amtree \<Rightarrow> addr tree \<Rightarrow> bool" where
  "bal_at t Leaf \<longleftrightarrow> True"
| "bal_at t (Node L a R) \<longleftrightarrow>
     bal t a = int (height R) - int (height L) \<and> \<bar>bal t a\<bar> \<le> 1 \<and> bal_at t L \<and> bal_at t R"

lemma tree_at_cong:
  assumes "\<forall>a \<in> set_tree T. par t' a = par t a \<and> lft t' a = lft t a \<and> rgt t' a = rgt t a"
  shows "tree_at t' p r T = tree_at t p r T"
  using assms by (induction T arbitrary: p r) auto

lemma bal_at_cong: "\<forall>a \<in> set_tree T. bal t' a = bal t a \<Longrightarrow> bal_at t' T = bal_at t T"
  by (induction T) auto

lemma tree_at_frame [simp]:
  "a \<notin> set_tree T \<Longrightarrow> tree_at (set_parent a v t) p r T = tree_at t p r T"
  "a \<notin> set_tree T \<Longrightarrow> tree_at (set_left a v t) p r T = tree_at t p r T"
  "a \<notin> set_tree T \<Longrightarrow> tree_at (set_right a v t) p r T = tree_at t p r T"
  "a \<notin> set_tree T \<Longrightarrow> tree_at (set_node a n t) p r T = tree_at t p r T"
  "tree_at (set_balance a i t) p r T = tree_at t p r T"
  "tree_at (set_root x t) p r T = tree_at t p r T"
  "tree_at (t\<lparr>count := c\<rparr>) p r T = tree_at t p r T"
  by (rule tree_at_cong; auto)+

lemma bal_at_frame [simp]:
  "bal_at (set_parent a v t) T = bal_at t T" "bal_at (set_left a v t) T = bal_at t T"
  "bal_at (set_right a v t) T = bal_at t T" "bal_at (set_root x t) T = bal_at t T"
  "bal_at (set_parent_if x v t) T = bal_at t T" "bal_at (replace_child q n x t) T = bal_at t T"
  "bal_at (t\<lparr>count := c\<rparr>) T = bal_at t T"
  "a \<notin> set_tree T \<Longrightarrow> bal_at (set_balance a i t) T = bal_at t T"
  "a \<notin> set_tree T \<Longrightarrow> bal_at (set_node a nd t) T = bal_at t T"
  by (rule bal_at_cong; auto)+

lemma tree_at_set_parent_if_other [simp]:
  "\<forall>a. x = Some a \<longrightarrow> a \<notin> set_tree T \<Longrightarrow> tree_at (set_parent_if x v t) p r T = tree_at t p r T"
  by (cases x) (auto simp: set_parent_if_def)

lemma tree_at_replace_child_other [simp]:
  "\<forall>a. q = Some a \<longrightarrow> a \<notin> set_tree T \<Longrightarrow>
   tree_at (replace_child q n x t) p r T = tree_at t p r T"
  by (auto simp: replace_child_def set_child_def split: option.splits child_slot.splits)

lemma tree_at_root: "tree_at t p r T \<Longrightarrow> r = Some a \<Longrightarrow> a \<in> set_tree T"
  by (cases T) auto

text \<open>\<^verbatim>\<open>if (x != NULL) x->parent = v;\<close> moves the subtree at \<open>x\<close> to the parent \<open>v\<close>.\<close>

lemma tree_at_reparent:
  "tree_at t p r T \<Longrightarrow> distinct (inorder T) \<Longrightarrow> tree_at (set_parent_if r v t) v r T"
  by (cases T) (auto simp: set_parent_if_def)

section \<open>Contexts\<close>

text \<open>
  A context is a tree with a hole, from the hole outwards: \<open>InLeft a R\<close> says that the hole is
  the left child of \<open>a\<close>, whose right subtree is \<open>R\<close>.
\<close>

datatype crumb = InLeft addr "addr tree" | InRight addr "addr tree"

fun plug :: "crumb list \<Rightarrow> addr tree \<Rightarrow> addr tree" where
  "plug [] T = T"
| "plug (InLeft a R # C) T = plug C (Node T a R)"
| "plug (InRight a L # C) T = plug C (Node L a T)"

fun before_hole :: "crumb list \<Rightarrow> addr list" where
  "before_hole [] = []"
| "before_hole (InLeft a R # C) = before_hole C"
| "before_hole (InRight a L # C) = before_hole C @ inorder L @ [a]"

fun after_hole :: "crumb list \<Rightarrow> addr list" where
  "after_hole [] = []"
| "after_hole (InLeft a R # C) = a # inorder R @ after_hole C"
| "after_hole (InRight a L # C) = after_hole C"

lemma inorder_plug: "inorder (plug C T) = before_hole C @ inorder T @ after_hole C"
  by (induction C T rule: plug.induct) auto

lemma set_tree_plug: "set_tree (plug C T) = set (before_hole C) \<union> set_tree T \<union> set (after_hole C)"
  using arg_cong [OF inorder_plug, of set C T] by auto

text \<open>\<open>ctx_at t C r p\<close>: the context is in memory around a hole with the pointer \<open>r\<close> and the parent \<open>p\<close>.\<close>

fun ctx_at :: "amtree \<Rightarrow> crumb list \<Rightarrow> addr option \<Rightarrow> addr option \<Rightarrow> bool" where
  "ctx_at t [] r p \<longleftrightarrow> root t = r \<and> p = None"
| "ctx_at t (InLeft a R # C) r p \<longleftrightarrow>
     p = Some a \<and> lft t a = r \<and> tree_at t (Some a) (rgt t a) R \<and> ctx_at t C (Some a) (par t a)"
| "ctx_at t (InRight a L # C) r p \<longleftrightarrow>
     p = Some a \<and> rgt t a = r \<and> tree_at t (Some a) (lft t a) L \<and> ctx_at t C (Some a) (par t a)"

text \<open>\<open>ctx_bal t C k\<close>: the balances along the context are right for a hole of height \<open>k\<close>.\<close>

fun ctx_bal :: "amtree \<Rightarrow> crumb list \<Rightarrow> nat \<Rightarrow> bool" where
  "ctx_bal t [] k \<longleftrightarrow> True"
| "ctx_bal t (InLeft a R # C) k \<longleftrightarrow>
     bal t a = int (height R) - int k \<and> \<bar>bal t a\<bar> \<le> 1 \<and> bal_at t R \<and> ctx_bal t C (Suc (max k (height R)))"
| "ctx_bal t (InRight a L # C) k \<longleftrightarrow>
     bal t a = int k - int (height L) \<and> \<bar>bal t a\<bar> \<le> 1 \<and> bal_at t L \<and> ctx_bal t C (Suc (max (height L) k))"

lemma tree_at_plug:
  "tree_at t None (root t) (plug C T) \<longleftrightarrow> (\<exists>r p. ctx_at t C r p \<and> tree_at t p r T)"
  by (induction C T rule: plug.induct) auto

lemma bal_at_plug: "bal_at t (plug C T) \<longleftrightarrow> bal_at t T \<and> ctx_bal t C (height T)"
  by (induction C T rule: plug.induct) auto

lemma ctx_at_cong:
  assumes "\<forall>a \<in> set (before_hole C) \<union> set (after_hole C).
      par t' a = par t a \<and> lft t' a = lft t a \<and> rgt t' a = rgt t a"
    and "root t' = root t"
  shows "ctx_at t' C r p = ctx_at t C r p"
  using assms
proof (induction C arbitrary: r p)
  case (Cons c C)
  then show ?case by (cases c) (auto simp: ball_Un tree_at_cong [of _ t' t])
qed simp

lemma ctx_bal_cong:
  assumes "\<forall>a \<in> set (before_hole C) \<union> set (after_hole C). bal t' a = bal t a"
  shows "ctx_bal t' C k = ctx_bal t C k"
  using assms
proof (induction C arbitrary: k)
  case (Cons c C)
  then show ?case by (cases c) (auto simp: ball_Un bal_at_cong [of _ t' t])
qed simp

lemma ctx_at_frame [simp]:
  "a \<notin> set (before_hole C) \<Longrightarrow> a \<notin> set (after_hole C) \<Longrightarrow>
    ctx_at (set_parent a v t) C r p = ctx_at t C r p"
  "a \<notin> set (before_hole C) \<Longrightarrow> a \<notin> set (after_hole C) \<Longrightarrow>
    ctx_at (set_left a v t) C r p = ctx_at t C r p"
  "a \<notin> set (before_hole C) \<Longrightarrow> a \<notin> set (after_hole C) \<Longrightarrow>
    ctx_at (set_right a v t) C r p = ctx_at t C r p"
  "a \<notin> set (before_hole C) \<Longrightarrow> a \<notin> set (after_hole C) \<Longrightarrow>
    ctx_at (set_node a n t) C r p = ctx_at t C r p"
  "ctx_at (set_balance a i t) C r p = ctx_at t C r p"
  "ctx_at (t\<lparr>count := c\<rparr>) C r p = ctx_at t C r p"
  by (rule ctx_at_cong; auto)+

lemma ctx_at_set_parent_if [simp]:
  "\<forall>a. x = Some a \<longrightarrow> a \<notin> set (before_hole C) \<and> a \<notin> set (after_hole C) \<Longrightarrow>
   ctx_at (set_parent_if x v t) C r p = ctx_at t C r p"
  by (cases x) (auto simp: set_parent_if_def)

lemma ctx_bal_frame [simp]:
  "ctx_bal (set_parent a v t) C k = ctx_bal t C k" "ctx_bal (set_left a v t) C k = ctx_bal t C k"
  "ctx_bal (set_right a v t) C k = ctx_bal t C k" "ctx_bal (set_root x t) C k = ctx_bal t C k"
  "ctx_bal (set_parent_if x v t) C k = ctx_bal t C k"
  "ctx_bal (replace_child q n x t) C k = ctx_bal t C k"
  "ctx_bal (t\<lparr>count := c\<rparr>) C k = ctx_bal t C k"
  "a \<notin> set (before_hole C) \<Longrightarrow> a \<notin> set (after_hole C) \<Longrightarrow>
    ctx_bal (set_balance a i t) C k = ctx_bal t C k"
  "a \<notin> set (before_hole C) \<Longrightarrow> a \<notin> set (after_hole C) \<Longrightarrow>
    ctx_bal (set_node a nd t) C k = ctx_bal t C k"
  by (rule ctx_bal_cong; auto)+

text \<open>The parent pointer of the hole points into the context.\<close>

lemma ctx_at_parent: "ctx_at t C r (Some q) \<Longrightarrow> q \<in> set (before_hole C) \<union> set (after_hole C)"
  by (cases "(t, C, r, Some q)" rule: ctx_at.cases) auto

lemma ctx_at_replace:
  assumes "ctx_at t C (Some n) p" and "distinct (before_hole C @ n # after_hole C)"
  shows "ctx_at (replace_child p n x t) C x p"
proof (cases "(t, C, Some n, p)" rule: ctx_at.cases)
  case (2 t' a R C' r p')
  then show ?thesis
    using assms by (auto simp: replace_child_def set_child_def amtree_which_child_def)
next
  case (3 t' a L C' r p')
  have "lft t a \<noteq> Some n" using assms 3 tree_at_root [of t "Some a" "lft t a" L n] by auto
  then show ?thesis
    using assms 3 by (auto simp: replace_child_def set_child_def amtree_which_child_def)
qed (use assms in \<open>auto simp: replace_child_def\<close>)

text \<open>What an operation on a set of nodes may change: no key, no count and no other node.\<close>

definition only_within :: "addr set \<Rightarrow> amtree \<Rightarrow> amtree \<Rightarrow> bool" where
  "only_within S t t' \<longleftrightarrow>
     (\<forall>b. b \<notin> S \<longrightarrow> nodes t' b = nodes t b) \<and> (\<forall>b. ky t' b = ky t b) \<and> count t' = count t"

lemma only_within_refl [simp]: "only_within S t t"
  by (simp add: only_within_def)

lemma only_within_trans:
  "only_within S t t' \<Longrightarrow> only_within S t' t'' \<Longrightarrow> only_within S t t''"
  by (simp add: only_within_def)

lemma only_within_mono: "only_within S t t' \<Longrightarrow> S \<subseteq> S' \<Longrightarrow> only_within S' t t'"
  by (auto simp: only_within_def)

end
