(* ===== verification/AmTreeRotate.thy ===== *)
theory AmTreeRotate
  imports AmTreeShape
begin

text \<open>
  What the four rotations do to a subtree inside its context: the shape, the balances they
  write, and that they write only inside the subtree and the child pointer of its parent.
\<close>

text \<open>
  A subtree \<open>T\<close> with the root \<open>n\<close> in the context \<open>C\<close>; the addresses are all different.
\<close>

definition focus :: "amtree \<Rightarrow> crumb list \<Rightarrow> addr \<Rightarrow> addr tree \<Rightarrow> bool" where
  "focus t C n T \<longleftrightarrow>
     (\<exists>p. ctx_at t C (Some n) p \<and> tree_at t p (Some n) T) \<and> distinct (inorder (plug C T))"

lemma focus_root: "focus t C n (Node L a R) \<Longrightarrow> a = n"
  by (auto simp: focus_def)

lemma focus_tree:
  "focus t C n T \<Longrightarrow> tree_at t None (root t) (plug C T) \<and> distinct (inorder (plug C T))"
  by (auto simp: focus_def tree_at_plug)

lemma focusI:
  assumes "tree_at t None (root t) (plug C (Node L n R))" and "distinct (inorder (plug C (Node L n R)))"
  shows "focus t C n (Node L n R)"
  using assms by (auto simp: focus_def tree_at_plug)

lemma tree_at_reparent_iff [simp]:
  "distinct (inorder T) \<Longrightarrow> tree_at (set_parent_if r v t) v r T \<longleftrightarrow> (\<exists>p. tree_at t p r T)"
  by (cases T) (auto simp: set_parent_if_def)

lemma tree_at_root_in: "tree_at t p r T \<Longrightarrow> S \<inter> set_tree T = {} \<Longrightarrow> \<forall>a. r = Some a \<longrightarrow> a \<notin> S"
  by (cases T) auto

lemma tree_at_root_out: "tree_at t p r T \<Longrightarrow> \<forall>b. b \<notin> set_tree T \<longrightarrow> r \<noteq> Some b"
  by (cases T) auto

text \<open>What a focus says, spelt out for the simplifier.\<close>

lemma focusD:
  assumes "focus t C n T"
  shows "ctx_at t C (Some n) (par t n)" and "tree_at t (par t n) (Some n) T"
    and "distinct (before_hole C @ inorder T @ after_hole C)"
    and "\<forall>a. par t n = Some a \<longrightarrow>
      a \<in> set (before_hole C) \<union> set (after_hole C) \<and> a \<notin> set_tree T"
    and "ctx_at (replace_child (par t n) n x t) C x (par t n)"
proof -
  from assms obtain p where c: "ctx_at t C (Some n) p" and s: "tree_at t p (Some n) T"
    and d: "distinct (before_hole C @ inorder T @ after_hole C)"
    by (auto simp: focus_def inorder_plug)
  from s have p: "par t n = p" and n: "n \<in> set_tree T" by (cases T; auto)+
  from n d have "distinct (before_hole C @ n # after_hole C)" by (auto simp flip: set_inorder)
  with c show "ctx_at (replace_child (par t n) n x t) C x (par t n)"
    unfolding p by (rule ctx_at_replace)
  show "\<forall>a. par t n = Some a \<longrightarrow>
      a \<in> set (before_hole C) \<union> set (after_hole C) \<and> a \<notin> set_tree T"
    using c d unfolding p by (auto dest!: ctx_at_parent)
qed (use assms in \<open>auto simp: focus_def inorder_plug elim: tree_at.elims\<close>)

lemma rotate_right_focus:
  assumes "focus t C n (Node (Node A cl B) n D)"
  defines "t' \<equiv> amtree_rotate_right t n cl"
  shows "focus t' C cl (Node A cl (Node B n D)) \<and>
    bal t' n = (if bal t cl = 0 then - 1 else 0) \<and> bal t' cl = (if bal t cl = 0 then 1 else 0) \<and>
    (\<forall>b. b \<noteq> n \<and> b \<noteq> cl \<longrightarrow> bal t' b = bal t b) \<and>
    only_within (set_tree (plug C (Node (Node A cl B) n D))) t t'"
proof -
  note f = focusD [OF assms(1)]
  let ?p = "par t n"
  have b: "\<forall>a. rgt t cl = Some a \<longrightarrow> a \<notin> {n, cl} \<union> set (before_hole C) \<union> set (after_hole C) \<union> set_tree A \<union> set_tree D"
    by (rule tree_at_root_in [of t _ _ B]) (use f(2,3) in auto)
  have ne: "?p \<noteq> Some n" "?p \<noteq> Some cl" "rgt t cl \<noteq> Some n" "rgt t cl \<noteq> Some cl"
    using f(4) b by auto
  let ?t = "set_right cl (Some n) (set_parent n (Some cl) (set_parent_if (rgt t cl) (Some n)
      (set_left n (rgt t cl) (set_parent cl ?p (replace_child ?p n (Some cl) t)))))"
  have t': "t' = (if bal t cl = 0 then set_balance cl 1 (set_balance n (-1) ?t)
      else set_balance cl 0 (set_balance n 0 ?t))"
    using f(3) by (simp add: t'_def amtree_rotate_right_def Let_def)
  have shape: "ctx_at ?t C (Some cl) ?p" "tree_at ?t ?p (Some cl) (Node A cl (Node B n D))"
    using f(5) [of "Some cl"] f(2-4) b ne by auto
  have "\<forall>b. b \<notin> set (before_hole C) \<longrightarrow> b \<notin> set (after_hole C) \<longrightarrow> ?p \<noteq> Some b"
    using f(4) by blast
  moreover have "\<forall>b. b \<notin> set_tree B \<longrightarrow> rgt t cl \<noteq> Some b"
    using f(2) by (auto dest: tree_at_root_out)
  ultimately have within: "only_within (set_tree (plug C (Node (Node A cl B) n D))) t ?t"
    by (simp add: only_within_def set_tree_plug)
  show ?thesis
    using f(3) shape within by (auto simp: t' focus_def inorder_plug only_within_def set_tree_plug)
qed

lemma rotate_left_focus:
  assumes "focus t C n (Node A n (Node B cr D))"
  defines "t' \<equiv> amtree_rotate_left t n cr"
  shows "focus t' C cr (Node (Node A n B) cr D) \<and>
    bal t' n = (if bal t cr = 0 then 1 else 0) \<and> bal t' cr = (if bal t cr = 0 then - 1 else 0) \<and>
    (\<forall>b. b \<noteq> n \<and> b \<noteq> cr \<longrightarrow> bal t' b = bal t b) \<and>
    only_within (set_tree (plug C (Node A n (Node B cr D)))) t t'"
proof -
  note f = focusD [OF assms(1)]
  let ?p = "par t n"
  have b: "\<forall>a. lft t cr = Some a \<longrightarrow> a \<notin> {n, cr} \<union> set (before_hole C) \<union> set (after_hole C) \<union> set_tree A \<union> set_tree D"
    by (rule tree_at_root_in [of t _ _ B]) (use f(2,3) in auto)
  have ne: "?p \<noteq> Some n" "?p \<noteq> Some cr" "lft t cr \<noteq> Some n" "lft t cr \<noteq> Some cr"
    using f(4) b by auto
  let ?t = "set_left cr (Some n) (set_parent n (Some cr) (set_parent_if (lft t cr) (Some n)
      (set_right n (lft t cr) (set_parent cr ?p (replace_child ?p n (Some cr) t)))))"
  have t': "t' = (if bal t cr = 0 then set_balance cr (-1) (set_balance n 1 ?t)
      else set_balance cr 0 (set_balance n 0 ?t))"
    using f(3) by (simp add: t'_def amtree_rotate_left_def Let_def)
  have shape: "ctx_at ?t C (Some cr) ?p" "tree_at ?t ?p (Some cr) (Node (Node A n B) cr D)"
    using f(5) [of "Some cr"] f(2-4) b ne by auto
  have "\<forall>b. b \<notin> set (before_hole C) \<longrightarrow> b \<notin> set (after_hole C) \<longrightarrow> ?p \<noteq> Some b"
    using f(4) by blast
  moreover have "\<forall>b. b \<notin> set_tree B \<longrightarrow> lft t cr \<noteq> Some b"
    using f(2) by (auto dest: tree_at_root_out)
  ultimately have within: "only_within (set_tree (plug C (Node A n (Node B cr D)))) t ?t"
    by (simp add: only_within_def set_tree_plug)
  show ?thesis
    using f(3) shape within by (auto simp: t' focus_def inorder_plug only_within_def set_tree_plug)
qed

lemma rotate_right_left_focus:
  assumes "focus t C n (Node A n (Node (Node B g D) cr E))"
  shows "\<exists>t'. amtree_rotate_right_left t n cr = Some t' \<and>
    focus t' C g (Node (Node A n B) g (Node D cr E)) \<and>
    bal t' n = (if bal t g > 0 then - 1 else 0) \<and>
    bal t' cr = (if bal t g < 0 then 1 else 0) \<and> bal t' g = 0 \<and>
    (\<forall>b. b \<noteq> n \<and> b \<noteq> cr \<and> b \<noteq> g \<longrightarrow> bal t' b = bal t b) \<and>
    only_within (set_tree (plug C (Node A n (Node (Node B g D) cr E)))) t t'"
proof -
  note f = focusD [OF assms(1)]
  let ?p = "par t n"
  have b: "\<forall>a. lft t g = Some a \<longrightarrow> a \<notin> {n, cr, g} \<union> set (before_hole C) \<union> set (after_hole C) \<union> set_tree A \<union> set_tree D \<union> set_tree E"
    by (rule tree_at_root_in [of t _ _ B]) (use f(2,3) in auto)
  have d: "\<forall>a. rgt t g = Some a \<longrightarrow> a \<notin> {n, cr, g} \<union> set (before_hole C) \<union> set (after_hole C) \<union> set_tree A \<union> set_tree B \<union> set_tree E"
    by (rule tree_at_root_in [of t _ _ D]) (use f(2,3) in auto)
  have ne: "?p \<noteq> Some n" "?p \<noteq> Some cr" "?p \<noteq> Some g" "lft t g \<noteq> Some n" "lft t g \<noteq> Some cr" "lft t g \<noteq> Some g" "rgt t g \<noteq> Some n" "rgt t g \<noteq> Some cr" "rgt t g \<noteq> Some g"
    using f(4) b d by auto
  let ?t = "set_parent n (Some g) (set_left g (Some n) (set_parent cr (Some g)
      (set_right g (Some cr) (set_parent_if (lft t g) (Some n) (set_right n (lft t g)
      (set_parent_if (rgt t g) (Some cr) (set_left cr (rgt t g) (set_parent g ?p
      (replace_child ?p n (Some g) t)))))))))"
  let ?t' = "set_balance g 0 (if bal t g > 0 then set_balance cr 0 (set_balance n (-1) ?t)
      else if bal t g = 0 then set_balance cr 0 (set_balance n 0 ?t)
      else set_balance cr 1 (set_balance n 0 ?t))"
  have run: "amtree_rotate_right_left t n cr = Some ?t'"
    using f(2,3) by (auto simp: amtree_rotate_right_left_def Let_def)
  have shape: "ctx_at ?t C (Some g) ?p" "tree_at ?t ?p (Some g) (Node (Node A n B) g (Node D cr E))"
    using f(5) [of "Some g"] f(2-4) b d ne by auto
  have "\<forall>b. b \<notin> set (before_hole C) \<longrightarrow> b \<notin> set (after_hole C) \<longrightarrow> ?p \<noteq> Some b"
    using f(4) by blast
  moreover have "\<forall>b. b \<notin> set_tree B \<longrightarrow> lft t g \<noteq> Some b"
    using f(2) by (auto dest: tree_at_root_out)
  moreover have "\<forall>b. b \<notin> set_tree D \<longrightarrow> rgt t g \<noteq> Some b"
    using f(2) by (auto dest: tree_at_root_out)
  ultimately have within: "only_within (set_tree (plug C (Node A n (Node (Node B g D) cr E)))) t ?t"
    by (simp add: only_within_def set_tree_plug)
  show ?thesis
    using f(3) run shape within by (auto simp: focus_def inorder_plug only_within_def set_tree_plug)
qed

lemma rotate_left_right_focus:
  assumes "focus t C n (Node (Node A cl (Node B g D)) n E)"
  shows "\<exists>t'. amtree_rotate_left_right t n cl = Some t' \<and>
    focus t' C g (Node (Node A cl B) g (Node D n E)) \<and>
    bal t' n = (if bal t g < 0 then 1 else 0) \<and>
    bal t' cl = (if bal t g > 0 then - 1 else 0) \<and> bal t' g = 0 \<and>
    (\<forall>b. b \<noteq> n \<and> b \<noteq> cl \<and> b \<noteq> g \<longrightarrow> bal t' b = bal t b) \<and>
    only_within (set_tree (plug C (Node (Node A cl (Node B g D)) n E))) t t'"
proof -
  note f = focusD [OF assms(1)]
  let ?p = "par t n"
  have b: "\<forall>a. lft t g = Some a \<longrightarrow> a \<notin> {n, cl, g} \<union> set (before_hole C) \<union> set (after_hole C) \<union> set_tree A \<union> set_tree D \<union> set_tree E"
    by (rule tree_at_root_in [of t _ _ B]) (use f(2,3) in auto)
  have d: "\<forall>a. rgt t g = Some a \<longrightarrow> a \<notin> {n, cl, g} \<union> set (before_hole C) \<union> set (after_hole C) \<union> set_tree A \<union> set_tree B \<union> set_tree E"
    by (rule tree_at_root_in [of t _ _ D]) (use f(2,3) in auto)
  have ne: "?p \<noteq> Some n" "?p \<noteq> Some cl" "?p \<noteq> Some g" "lft t g \<noteq> Some n" "lft t g \<noteq> Some cl" "lft t g \<noteq> Some g" "rgt t g \<noteq> Some n" "rgt t g \<noteq> Some cl" "rgt t g \<noteq> Some g"
    using f(4) b d by auto
  let ?t = "set_parent n (Some g) (set_right g (Some n) (set_parent cl (Some g)
      (set_left g (Some cl) (set_parent_if (rgt t g) (Some n) (set_left n (rgt t g)
      (set_parent_if (lft t g) (Some cl) (set_right cl (lft t g) (set_parent g ?p
      (replace_child ?p n (Some g) t)))))))))"
  let ?t' = "set_balance g 0 (if bal t g < 0 then set_balance cl 0 (set_balance n 1 ?t)
      else if bal t g = 0 then set_balance cl 0 (set_balance n 0 ?t)
      else set_balance cl (-1) (set_balance n 0 ?t))"
  have run: "amtree_rotate_left_right t n cl = Some ?t'"
    using f(2,3) by (auto simp: amtree_rotate_left_right_def Let_def)
  have shape: "ctx_at ?t C (Some g) ?p" "tree_at ?t ?p (Some g) (Node (Node A cl B) g (Node D n E))"
    using f(5) [of "Some g"] f(2-4) b d ne by auto
  have "\<forall>b. b \<notin> set (before_hole C) \<longrightarrow> b \<notin> set (after_hole C) \<longrightarrow> ?p \<noteq> Some b"
    using f(4) by blast
  moreover have "\<forall>b. b \<notin> set_tree B \<longrightarrow> lft t g \<noteq> Some b"
    using f(2) by (auto dest: tree_at_root_out)
  moreover have "\<forall>b. b \<notin> set_tree D \<longrightarrow> rgt t g \<noteq> Some b"
    using f(2) by (auto dest: tree_at_root_out)
  ultimately have within: "only_within (set_tree (plug C (Node (Node A cl (Node B g D)) n E))) t ?t"
    by (simp add: only_within_def set_tree_plug)
  show ?thesis
    using f(3) run shape within by (auto simp: focus_def inorder_plug only_within_def set_tree_plug)
qed

end
