(* ===== verification/AmTreeBalance.thy ===== *)
theory AmTreeBalance
  imports AmTreeRotate
begin

text \<open>
  The rebalancing step both loops share: a subtree whose one side is two higher than the other
  is balanced again by the rotation the code chooses.
\<close>

section \<open>Moving the focus\<close>

lemma focus_up_left:
  "focus t (InLeft p R # C) n T \<Longrightarrow> focus t C p (Node T p R) \<and> par t n = Some p \<and> lft t p = Some n"
  by (auto simp: focus_def elim: tree_at.elims)

lemma focus_up_right:
  assumes "focus t (InRight p L # C) n T"
  shows "focus t C p (Node L p T) \<and> par t n = Some p \<and> rgt t p = Some n \<and> lft t p \<noteq> Some n"
proof -
  note f = focusD [OF assms]
  have "n \<in> set_tree T" using f(2) tree_at_root by blast
  moreover have "tree_at t (Some p) (lft t p) L" using f(1) by simp
  ultimately have "lft t p \<noteq> Some n"
    using f(3) tree_at_root [of t "Some p" "lft t p" L n] by auto
  with assms show ?thesis by (auto simp: focus_def elim: tree_at.elims)
qed

lemma focus_top: "focus t [] n T \<Longrightarrow> par t n = None"
  by (auto simp: focus_def elim: tree_at.elims)

lemma focus_set_balance [simp]: "focus (set_balance a i t) C n T = focus t C n T"
  by (simp add: focus_def)

lemma focus_fresh:
  assumes "focus t C n T"
  shows "a \<in> set_tree T \<Longrightarrow> a \<notin> set (before_hole C) \<and> a \<notin> set (after_hole C)"
  using focusD(3) [OF assms] by auto

lemma focus_parts:
  assumes "focus t C n (Node L a R)"
  shows "a \<notin> set_tree L" "a \<notin> set_tree R" "a \<notin> set (before_hole C)" "a \<notin> set (after_hole C)"
    "set_tree L \<inter> set_tree R = {}"
  using focusD(3) [OF assms] by auto

section \<open>Rotations and balances\<close>

lemma rotate_right_balance:
  assumes "focus t C p (Node (Node A n B) p R)" and "bal_at t (Node A n B)" and "bal_at t R"
    and "height (Node A n B) = height R + 2" and "bal t n \<noteq> 1"
  defines "t' \<equiv> amtree_rotate_right t p n"
  shows "focus t' C n (Node A n (Node B p R)) \<and> bal_at t' (Node A n (Node B p R)) \<and>
    height (Node A n (Node B p R)) = height R + (if bal t n = 0 then 3 else 2) \<and>
    (bal t' n = 0 \<longleftrightarrow> bal t n \<noteq> 0) \<and> (\<forall>k. ctx_bal t' C k = ctx_bal t C k) \<and>
    only_within (set_tree (plug C (Node (Node A n B) p R))) t t'"
proof -
  note r = rotate_right_focus [OF assms(1), folded t'_def]
  note d = focusD(3) [OF assms(1)]
  have "bal_at t' T = bal_at t T" if "set_tree T \<inter> {n, p} = {}" for T
    using r that by (intro bal_at_cong) auto
  then have "bal_at t' A = bal_at t A" "bal_at t' B = bal_at t B" "bal_at t' R = bal_at t R"
    using d by auto
  moreover have "ctx_bal t' C k = ctx_bal t C k" for k
    using r d by (intro ctx_bal_cong) auto
  ultimately show ?thesis using r assms(2-5) by (auto simp: max_def split: if_splits)
qed

lemma rotate_left_balance:
  assumes "focus t C p (Node L p (Node A n B))" and "bal_at t (Node A n B)" and "bal_at t L"
    and "height (Node A n B) = height L + 2" and "bal t n \<noteq> -1"
  defines "t' \<equiv> amtree_rotate_left t p n"
  shows "focus t' C n (Node (Node L p A) n B) \<and> bal_at t' (Node (Node L p A) n B) \<and>
    height (Node (Node L p A) n B) = height L + (if bal t n = 0 then 3 else 2) \<and>
    (bal t' n = 0 \<longleftrightarrow> bal t n \<noteq> 0) \<and> (\<forall>k. ctx_bal t' C k = ctx_bal t C k) \<and>
    only_within (set_tree (plug C (Node L p (Node A n B)))) t t'"
proof -
  note r = rotate_left_focus [OF assms(1), folded t'_def]
  note d = focusD(3) [OF assms(1)]
  have "bal_at t' T = bal_at t T" if "set_tree T \<inter> {n, p} = {}" for T
    using r that by (intro bal_at_cong) auto
  then have "bal_at t' A = bal_at t A" "bal_at t' B = bal_at t B" "bal_at t' L = bal_at t L"
    using d by auto
  moreover have "ctx_bal t' C k = ctx_bal t C k" for k
    using r d by (intro ctx_bal_cong) auto
  ultimately show ?thesis using r assms(2-5) by (auto simp: max_def split: if_splits)
qed

lemma rotate_left_right_balance:
  assumes "focus t C p (Node (Node A n B) p R)" and "bal_at t (Node A n B)" and "bal_at t R"
    and "height (Node A n B) = height R + 2" and "bal t n = 1"
  shows "\<exists>t' g U. amtree_rotate_left_right t p n = Some t' \<and> focus t' C g U \<and> bal_at t' U \<and>
    height U = height R + 2 \<and> inorder U = inorder (Node (Node A n B) p R) \<and>
    par t' p = Some g \<and> (\<forall>k. ctx_bal t' C k = ctx_bal t C k) \<and>
    only_within (set_tree (plug C (Node (Node A n B) p R))) t t'"
proof -
  from assms(2,5) have "height B \<noteq> 0" by auto
  then obtain D g E where B: "B = Node D g E" by (cases B) auto
  from rotate_left_right_focus [OF assms(1) [unfolded B]] obtain t' where
    r: "amtree_rotate_left_right t p n = Some t'"
    "focus t' C g (Node (Node A n D) g (Node E p R))"
    "bal t' p = (if bal t g < 0 then 1 else 0)" "bal t' n = (if bal t g > 0 then - 1 else 0)"
    "bal t' g = 0" "\<forall>b. b \<noteq> p \<and> b \<noteq> n \<and> b \<noteq> g \<longrightarrow> bal t' b = bal t b"
    "only_within (set_tree (plug C (Node (Node A n (Node D g E)) p R))) t t'"
    by blast
  note d = focusD(3) [OF assms(1) [unfolded B]]
  have "bal_at t' T = bal_at t T" if "set_tree T \<inter> {n, p, g} = {}" for T
    using r that by (intro bal_at_cong) auto
  then have "bal_at t' A = bal_at t A" "bal_at t' D = bal_at t D" "bal_at t' E = bal_at t E"
    "bal_at t' R = bal_at t R"
    using d by auto
  moreover have ctx: "\<forall>k. ctx_bal t' C k = ctx_bal t C k"
    using r d by (intro allI ctx_bal_cong) auto
  ultimately have "bal_at t' (Node (Node A n D) g (Node E p R))"
    "height (Node (Node A n D) g (Node E p R)) = height R + 2"
    using r(3-5) assms(2-5) B by (auto simp: max_def split: if_splits)
  moreover have "par t' p = Some g" using focusD(2) [OF r(2)] by simp
  moreover have "inorder (Node (Node A n D) g (Node E p R)) = inorder (Node (Node A n B) p R)" by (simp add: B)
  ultimately show ?thesis using r(1,2,7) ctx unfolding B by metis
qed

lemma rotate_right_left_balance:
  assumes "focus t C p (Node L p (Node A n B))" and "bal_at t (Node A n B)" and "bal_at t L"
    and "height (Node A n B) = height L + 2" and "bal t n = -1"
  shows "\<exists>t' g U. amtree_rotate_right_left t p n = Some t' \<and> focus t' C g U \<and> bal_at t' U \<and>
    height U = height L + 2 \<and> inorder U = inorder (Node L p (Node A n B)) \<and>
    par t' p = Some g \<and> (\<forall>k. ctx_bal t' C k = ctx_bal t C k) \<and>
    only_within (set_tree (plug C (Node L p (Node A n B)))) t t'"
proof -
  from assms(2,5) have "height A \<noteq> 0" by auto
  then obtain D g E where A: "A = Node D g E" by (cases A) auto
  from rotate_right_left_focus [OF assms(1) [unfolded A]] obtain t' where
    r: "amtree_rotate_right_left t p n = Some t'"
    "focus t' C g (Node (Node L p D) g (Node E n B))"
    "bal t' p = (if bal t g > 0 then - 1 else 0)" "bal t' n = (if bal t g < 0 then 1 else 0)"
    "bal t' g = 0" "\<forall>b. b \<noteq> p \<and> b \<noteq> n \<and> b \<noteq> g \<longrightarrow> bal t' b = bal t b"
    "only_within (set_tree (plug C (Node L p (Node (Node D g E) n B)))) t t'"
    by blast
  note d = focusD(3) [OF assms(1) [unfolded A]]
  have "bal_at t' T = bal_at t T" if "set_tree T \<inter> {n, p, g} = {}" for T
    using r that by (intro bal_at_cong) auto
  then have "bal_at t' B = bal_at t B" "bal_at t' D = bal_at t D" "bal_at t' E = bal_at t E"
    "bal_at t' L = bal_at t L"
    using d by auto
  moreover have ctx: "\<forall>k. ctx_bal t' C k = ctx_bal t C k"
    using r d by (intro allI ctx_bal_cong) auto
  ultimately have "bal_at t' (Node (Node L p D) g (Node E n B))"
    "height (Node (Node L p D) g (Node E n B)) = height L + 2"
    using r(3-5) assms(2-5) A by (auto simp: max_def split: if_splits)
  moreover have "par t' p = Some g" using focusD(2) [OF r(2)] by simp
  moreover have "inorder (Node (Node L p D) g (Node E n B)) = inorder (Node L p (Node A n B))" by (simp add: A)
  ultimately show ?thesis using r(1,2,7) ctx unfolding A by metis
qed

end
