(* ===== verification/AmTreeInsert.thy ===== *)
theory AmTreeInsert
  imports AmTreeBalance
begin

text \<open>
  The invariant of the tree, lookup in it, and the proof that \<^verbatim>\<open>amtree_insert\<close> returns on every
  valid tree, with a valid tree that has the new node in its place.
\<close>

section \<open>The invariant\<close>

definition keys_sorted :: "amtree \<Rightarrow> addr tree \<Rightarrow> bool" where
  "keys_sorted t T \<longleftrightarrow> sorted_wrt (<) (map (ky t) (inorder T))"

definition amtree_ok :: "amtree \<Rightarrow> addr tree \<Rightarrow> bool" where
  "amtree_ok t T \<longleftrightarrow> tree_at t None (root t) T \<and> bal_at t T \<and> keys_sorted t T \<and>
     count t = of_nat (size T)"

lemma sorted_wrt_less_distinct: "sorted_wrt (<) (map f xs) \<Longrightarrow> distinct (xs :: 'a list)"
  for f :: "'a \<Rightarrow> 'b :: linorder"
  by (induction xs) auto

lemma keys_sorted_distinct: "keys_sorted t T \<Longrightarrow> distinct (inorder T)"
  unfolding keys_sorted_def by (rule sorted_wrt_less_distinct)

lemma keys_sorted_Node:
  "keys_sorted t (Node L a R) \<longleftrightarrow> keys_sorted t L \<and> keys_sorted t R \<and>
     (\<forall>x \<in> set_tree L. ky t x < ky t a) \<and> (\<forall>x \<in> set_tree R. ky t a < ky t x)"
  by (auto simp: keys_sorted_def sorted_wrt_append dest: less_trans)

section \<open>Lookup\<close>

text \<open>The reference: the node in the sequence that has the key.\<close>

definition node_with_key :: "amtree \<Rightarrow> addr list \<Rightarrow> u64 \<Rightarrow> addr option" where
  "node_with_key t xs k = List.find (\<lambda>a. ky t a = k) xs"

lemma node_with_key_None: "node_with_key t xs k = None \<longleftrightarrow> (\<forall>a \<in> set xs. ky t a \<noteq> k)"
  by (auto simp: node_with_key_def find_None_iff)

lemma node_with_key_Some: "node_with_key t xs k = Some a \<Longrightarrow> a \<in> set xs \<and> ky t a = k"
  by (auto simp: node_with_key_def find_Some_iff in_set_conv_nth)

lemma node_with_key_Nil [simp]: "node_with_key t [] k = None"
  by (simp add: node_with_key_def)

lemma node_with_key_append:
  "node_with_key t (xs @ ys) k =
     (case node_with_key t xs k of None \<Rightarrow> node_with_key t ys k | Some a \<Rightarrow> Some a)"
  by (induction xs) (auto simp: node_with_key_def)

lemma node_with_key_Node:
  assumes "keys_sorted t (Node L a R)"
  shows "node_with_key t (inorder L @ a # inorder R) k =
    (if k > ky t a then node_with_key t (inorder R) k
     else if k < ky t a then node_with_key t (inorder L) k else Some a)"
proof -
  have "node_with_key t (inorder L) k = None" if "\<not> k < ky t a"
    using assms that by (auto simp: node_with_key_None keys_sorted_Node)
  moreover have "node_with_key t (inorder R) k = None" if "\<not> k > ky t a"
    using assms that by (auto simp: node_with_key_None keys_sorted_Node)
  moreover have "node_with_key t (a # inorder R) k =
      (if ky t a = k then Some a else node_with_key t (inorder R) k)"
    by (simp add: node_with_key_def)
  ultimately show ?thesis
    by (auto simp: node_with_key_append split: option.splits)
qed

lemma child_not_self:
  assumes "tree_at t p r (Node L a R)" and "keys_sorted t (Node L a R)"
  shows "lft t a \<noteq> Some a \<and> rgt t a \<noteq> Some a"
  using assms keys_sorted_distinct [OF assms(2)]
  by (auto dest: tree_at_root)

lemma amtree_find_from_eq:
  assumes "tree_at t p r T" and "keys_sorted t T"
  shows "amtree_find_from t k r = Some (node_with_key t (inorder T) k)"
  using assms
proof (induction T arbitrary: p r)
  case Leaf
  then show ?case by (simp add: amtree_find_from.simps)
next
  case (Node L a R)
  note ns = child_not_self [OF Node.prems]
  from Node have "amtree_find_from t k (lft t a) = Some (node_with_key t (inorder L) k)"
    "amtree_find_from t k (rgt t a) = Some (node_with_key t (inorder R) k)"
    by (auto simp: keys_sorted_Node)
  with Node.prems ns show ?case
    by (simp add: amtree_find_from.simps [of t k "Some a"] amtree_cmp_def node_with_key_Node)
qed

section \<open>The descent\<close>

lemma plug_append: "plug (C @ D) T = plug D (plug C T)"
  by (induction C T rule: plug.induct) auto

lemma hole_append:
  "before_hole (C @ D) = before_hole D @ before_hole C"
  "after_hole (C @ D) = after_hole C @ after_hole D"
proof (induction C)
  case (Cons c C)
  { case 1 then show ?case using Cons by (cases c) auto }
  { case 2 then show ?case using Cons by (cases c) auto }
qed auto

text \<open>The place a new key belongs to: a leaf in its context, next to the node \<open>q\<close>.\<close>

definition free_place :: "amtree \<Rightarrow> u64 \<Rightarrow> addr tree \<Rightarrow> addr \<Rightarrow> crumb list \<Rightarrow> bool" where
  "free_place t k T q C \<longleftrightarrow> plug C Leaf = T \<and>
     (\<forall>a \<in> set (before_hole C). ky t a < k) \<and> (\<forall>a \<in> set (after_hole C). k < ky t a) \<and>
     (\<exists>S D. C = InLeft q S # D \<or> C = InRight q S # D)"

lemma free_place_left:
  assumes "free_place t k L q C" and "keys_sorted t (Node L a R)" and "k < ky t a"
  shows "free_place t k (Node L a R) q (C @ [InLeft a R])"
  using assms by (auto simp: free_place_def plug_append hole_append keys_sorted_Node)

lemma free_place_right:
  assumes "free_place t k R q C" and "keys_sorted t (Node L a R)" and "k > ky t a"
  shows "free_place t k (Node L a R) q (C @ [InRight a L])"
  using assms by (auto simp: free_place_def plug_append hole_append keys_sorted_Node)

lemma amtree_insert_descend_eq:
  assumes "tree_at t p (Some r) T" and "keys_sorted t T"
  shows "case node_with_key t (inorder T) k of
           Some a \<Rightarrow> amtree_insert_descend t k r = Some (Inl a)
         | None \<Rightarrow> \<exists>q C. amtree_insert_descend t k r = Some (Inr q) \<and> free_place t k T q C"
  using assms
proof (induction T arbitrary: p r)
  case Leaf
  then show ?case by simp
next
  case (Node L a R)
  then have r: "r = a" by simp
  note ns = child_not_self [OF Node.prems]
  note step = amtree_insert_descend.simps [of t k a]
  consider (gt) "k > ky t a" | (lt) "k < ky t a" | (eq) "k = ky t a" by fastforce
  then show ?case
  proof cases
    case gt
    show ?thesis
    proof (cases R)
      case Leaf
      then have "free_place t k (Node L a R) a [InRight a L]"
        using Node.prems gt by (auto simp: free_place_def keys_sorted_Node dest: less_trans)
      with Leaf gt Node.prems ns r show ?thesis
        using node_with_key_Node [OF Node.prems(2), of k] by (auto simp: step amtree_cmp_def)
    next
      case (Node L' b R')
      with Node.prems have "rgt t a = Some b" by simp
      moreover from this Node.prems Node.IH(2) [of "Some a" b]
      have "case node_with_key t (inorder R) k of
          Some a \<Rightarrow> amtree_insert_descend t k b = Some (Inl a)
        | None \<Rightarrow> \<exists>q C. amtree_insert_descend t k b = Some (Inr q) \<and> free_place t k R q C"
        by (simp add: keys_sorted_Node)
      ultimately show ?thesis
        using gt Node.prems ns r free_place_right [OF _ Node.prems(2) gt]
        by (auto simp: step amtree_cmp_def node_with_key_Node split: option.splits)
    qed
  next
    case lt
    show ?thesis
    proof (cases L)
      case Leaf
      then have "free_place t k (Node L a R) a [InLeft a R]"
        using Node.prems lt by (auto simp: free_place_def keys_sorted_Node dest: less_trans)
      with Leaf lt Node.prems ns r show ?thesis
        using node_with_key_Node [OF Node.prems(2), of k] by (auto simp: step amtree_cmp_def)
    next
      case (Node L' b R')
      with Node.prems have "lft t a = Some b" by simp
      moreover from this Node.prems Node.IH(1) [of "Some a" b]
      have "case node_with_key t (inorder L) k of
          Some a \<Rightarrow> amtree_insert_descend t k b = Some (Inl a)
        | None \<Rightarrow> \<exists>q C. amtree_insert_descend t k b = Some (Inr q) \<and> free_place t k L q C"
        by (simp add: keys_sorted_Node)
      ultimately show ?thesis
        using lt Node.prems ns r free_place_left [OF _ Node.prems(2) lt]
        by (auto simp: step amtree_cmp_def node_with_key_Node split: option.splits)
    qed
  next
    case eq
    have "amtree_insert_descend t k a = Some (Inl a)"
      using eq by (subst step) (simp add: amtree_cmp_def)
    with eq Node.prems r show ?thesis by (simp add: node_with_key_Node)
  qed
qed

section \<open>The climb\<close>

text \<open>The subtree in focus is right and so are the balances above it: the tree is.\<close>

definition settled :: "amtree \<Rightarrow> addr tree \<Rightarrow> amtree \<Rightarrow> bool" where
  "settled t V t' \<longleftrightarrow> (\<exists>T'. tree_at t' None (root t') T' \<and> bal_at t' T' \<and>
     inorder T' = inorder V \<and> only_within (set_tree V) t t')"

lemma settledI:
  assumes "focus t' C m U" and "bal_at t' U" and "ctx_bal t' C (height U)"
    and "inorder U = inorder V" and "only_within (set_tree (plug C V)) t t'"
  shows "settled t (plug C V) t'"
  using assms focus_tree [OF assms(1)] unfolding settled_def
  by (intro exI [of _ "plug C U"]) (simp add: bal_at_plug inorder_plug)

lemma settled_trans: "only_within (set_tree V) t t' \<Longrightarrow> settled t' V t'' \<Longrightarrow> settled t V t''"
  unfolding settled_def using only_within_trans by blast

text \<open>
  The climb is entered with the subtree at \<open>n\<close> one higher than the balances above it say.
\<close>

lemma amtree_balance_add_loop_ok:
  assumes "focus t C n T" and "bal_at t T" and "height T = Suc k" and "ctx_bal t C k"
    and "k = 0 \<or> bal t n \<noteq> 0"
  shows "\<exists>t'. amtree_balance_add_loop t (Some n) (par t n) = Some t' \<and> settled t (plug C T) t'"
  using assms
proof (induction C arbitrary: t n T k)
  case Nil
  then have "amtree_balance_add_loop t (Some n) (par t n) = Some t"
    by (subst amtree_balance_add_loop.simps) (simp add: focus_top)
  with Nil settledI [of t "[]" n T T t] show ?case by simp
next
  case (Cons c C)
  obtain A B where T: "T = Node A n B"
    using Cons.prems(1,3) focus_root by (cases T) auto
  show ?case
  proof (cases c)
    case (InLeft p R)
    let ?t = "set_balance p (bal t p - 1) t"
    from Cons.prems(1) InLeft have up: "focus t C p (Node T p R)" "par t n = Some p" "lft t p = Some n"
      using focus_up_left by blast+
    from Cons.prems(4) InLeft have b: "bal t p = int (height R) - int k" "\<bar>bal t p\<bar> \<le> 1" "bal_at t R"
      "ctx_bal t C (Suc (max k (height R)))" by auto
    note fresh = focus_parts [OF up(1)]
    have sub: "focus ?t C p (Node T p R)" "bal_at ?t T" "bal_at ?t R" "n \<noteq> p"
      "ctx_bal ?t C (Suc (max k (height R)))" "bal ?t n = bal t n" "bal ?t p = bal t p - 1"
      using up b Cons.prems(2) fresh T by auto
    have w: "only_within (set_tree (plug C (Node T p R))) t ?t"
      by (simp add: only_within_def set_tree_plug)
    note step = amtree_balance_add_loop.simps [of t "Some n" "Some p"]
    consider "height R = Suc k" | "height R = k" | "k = Suc (height R)" using b(1,2) by linarith
    then show ?thesis
    proof cases
      case 1
      then have "amtree_balance_add_loop t (Some n) (Some p) = Some ?t"
        using up b by (simp add: step Let_def)
      moreover have "settled t (plug C (Node T p R)) ?t"
        using sub w 1 b Cons.prems(3) by (intro settledI [of _ _ p "Node T p R"]) auto
      ultimately show ?thesis using up InLeft by simp
    next
      case 2
      then have "\<exists>t'. amtree_balance_add_loop ?t (Some p) (par ?t p) = Some t' \<and>
          settled ?t (plug C (Node T p R)) t'"
        using sub b Cons.prems(3) by (intro Cons.IH [of _ _ _ "Suc k"]) auto
      moreover have "amtree_balance_add_loop t (Some n) (Some p) =
          amtree_balance_add_loop ?t (Some p) (par ?t p)"
        using 2 up b by (simp add: step Let_def)
      ultimately show ?thesis using up InLeft settled_trans [OF w] by auto
    next
      case 3
      have h: "height (Node A n B) = height R + 2" using 3 Cons.prems(3) T by simp
      show ?thesis
      proof (cases "bal t n = -1")
        case True
        then have "bal ?t n = -1" using sub by simp
        with rotate_right_balance [of ?t C p A n B R] sub h
        have "settled ?t (plug C (Node T p R)) (amtree_rotate_right ?t p n)"
          using 3 unfolding T by (intro settledI [of _ _ n "Node A n (Node B p R)"]) simp_all
        moreover have "amtree_balance_add_loop t (Some n) (Some p) = Some (amtree_rotate_right ?t p n)"
          using 3 up b sub True by (simp add: step Let_def)
        ultimately show ?thesis using up InLeft settled_trans [OF w] by auto
      next
        case False
        then have "bal ?t n = 1" using Cons.prems(2,5) 3 T sub by auto
        with rotate_left_right_balance [of ?t C p A n B R] sub h obtain t' g U where
          r: "amtree_rotate_left_right ?t p n = Some t'" "focus t' C g U" "bal_at t' U"
          "height U = height R + 2" "inorder U = inorder (Node T p R)"
          "\<forall>k. ctx_bal t' C k = ctx_bal ?t C k" "only_within (set_tree (plug C (Node T p R))) ?t t'"
          unfolding T by blast
        then have "settled ?t (plug C (Node T p R)) t'"
          using sub(5) 3 by (intro settledI [of _ _ g U]) simp_all
        moreover have "amtree_balance_add_loop t (Some n) (Some p) = Some t'"
          using 3 up b sub False r(1) by (simp add: step Let_def)
        ultimately show ?thesis using up InLeft settled_trans [OF w] by auto
      qed
    qed
  next
    case (InRight p L)
    let ?t = "set_balance p (bal t p + 1) t"
    from Cons.prems(1) InRight have up: "focus t C p (Node L p T)" "par t n = Some p" "rgt t p = Some n" "lft t p \<noteq> Some n"
      using focus_up_right by blast+
    from Cons.prems(4) InRight have b: "bal t p = int k - int (height L)" "\<bar>bal t p\<bar> \<le> 1" "bal_at t L"
      "ctx_bal t C (Suc (max (height L) k))" by auto
    note fresh = focus_parts [OF up(1)]
    have sub: "focus ?t C p (Node L p T)" "bal_at ?t T" "bal_at ?t L" "n \<noteq> p"
      "ctx_bal ?t C (Suc (max (height L) k))" "bal ?t n = bal t n" "bal ?t p = bal t p + 1"
      using up b Cons.prems(2) fresh T by auto
    have w: "only_within (set_tree (plug C (Node L p T))) t ?t"
      by (simp add: only_within_def set_tree_plug)
    note step = amtree_balance_add_loop.simps [of t "Some n" "Some p"]
    consider "height L = Suc k" | "height L = k" | "k = Suc (height L)" using b(1,2) by linarith
    then show ?thesis
    proof cases
      case 1
      then have "amtree_balance_add_loop t (Some n) (Some p) = Some ?t"
        using up b by (simp add: step Let_def)
      moreover have "settled t (plug C (Node L p T)) ?t"
        using sub w 1 b Cons.prems(3) by (intro settledI [of _ _ p "Node L p T"]) auto
      ultimately show ?thesis using up InRight by simp
    next
      case 2
      then have "\<exists>t'. amtree_balance_add_loop ?t (Some p) (par ?t p) = Some t' \<and>
          settled ?t (plug C (Node L p T)) t'"
        using sub b Cons.prems(3) by (intro Cons.IH [of _ _ _ "Suc k"]) auto
      moreover have "amtree_balance_add_loop t (Some n) (Some p) =
          amtree_balance_add_loop ?t (Some p) (par ?t p)"
        using 2 up b by (simp add: step Let_def)
      ultimately show ?thesis using up InRight settled_trans [OF w] by auto
    next
      case 3
      have h: "height (Node A n B) = height L + 2" using 3 Cons.prems(3) T by simp
      show ?thesis
      proof (cases "bal t n = 1")
        case True
        then have "bal ?t n = 1" using sub by simp
        with rotate_left_balance [of ?t C p L A n B] sub h
        have "settled ?t (plug C (Node L p T)) (amtree_rotate_left ?t p n)"
          using 3 unfolding T by (intro settledI [of _ _ n "Node (Node L p A) n B"]) simp_all
        moreover have "amtree_balance_add_loop t (Some n) (Some p) = Some (amtree_rotate_left ?t p n)"
          using 3 up b sub True by (simp add: step Let_def)
        ultimately show ?thesis using up InRight settled_trans [OF w] by auto
      next
        case False
        then have "bal ?t n = -1" using Cons.prems(2,5) 3 T sub by auto
        with rotate_right_left_balance [of ?t C p L A n B] sub h obtain t' g U where
          r: "amtree_rotate_right_left ?t p n = Some t'" "focus t' C g U" "bal_at t' U"
          "height U = height L + 2" "inorder U = inorder (Node L p T)"
          "\<forall>k. ctx_bal t' C k = ctx_bal ?t C k" "only_within (set_tree (plug C (Node L p T))) ?t t'"
          unfolding T by blast
        then have "settled ?t (plug C (Node L p T)) t'"
          using sub(5) 3 by (intro settledI [of _ _ g U]) simp_all
        moreover have "amtree_balance_add_loop t (Some n) (Some p) = Some t'"
          using 3 up b sub False r(1) by (simp add: step Let_def)
        ultimately show ?thesis using up InRight settled_trans [OF w] by auto
      qed
    qed
  qed
qed

section \<open>Insertion\<close>

lemma insort_key_middle:
  assumes "\<forall>a \<in> set xs. f a < f x" and "\<forall>a \<in> set ys. f x < f a"
  shows "insort_key f x (xs @ ys) = xs @ x # ys"
  using assms by (induction xs) (cases ys; auto simp: less_imp_le)+

lemma size_length_inorder: "length (inorder T) = size T"
  by (induction T) auto

text \<open>A fresh leaf hung into a free place is a focus.\<close>

lemma hang_leaf:
  assumes t: "tree_at t None (root t) T" "bal_at t T" "keys_sorted t T"
    and pl: "free_place t (ky t n) T q C" and n: "n \<notin> set_tree T"
  defines "u \<equiv> set_parent n (Some q) (set_balance n 0 (set_right n None (set_left n None t)))"
  defines "u' \<equiv> if ky u n < ky u q then set_left q (Some n) u else set_right q (Some n) u"
  shows "focus u' C n (Node Leaf n Leaf) \<and> par u' n = Some q \<and> bal_at u' (Node Leaf n Leaf) \<and>
    ctx_bal u' C 0 \<and> (\<forall>b. ky u' b = ky t b) \<and> root u' = root t \<and> count u' = count t \<and>
    (\<forall>b. b \<notin> insert n (set_tree T) \<longrightarrow> nodes u' b = nodes t b)"
proof -
  from pl have T: "plug C Leaf = T" by (simp add: free_place_def)
  then have i: "inorder T = before_hole C @ after_hole C" by (auto simp: inorder_plug)
  from keys_sorted_distinct [OF t(3)] i
  have d: "distinct (before_hole C @ after_hole C)" by simp
  from n have n': "n \<notin> set (before_hole C)" "n \<notin> set (after_hole C)"
    by (simp_all add: i flip: set_inorder)
  have c: "\<exists>p. ctx_at t C None p" "ctx_bal t C 0"
    using t T tree_at_plug [of t C Leaf] bal_at_plug [of t C Leaf] by auto
  from pl have k: "\<forall>a \<in> set (before_hole C). ky t a < ky t n" "\<forall>a \<in> set (after_hole C). ky t n < ky t a"
    by (simp_all add: free_place_def)
  have st: "set_tree T = set (before_hole C) \<union> set (after_hole C)"
    by (simp add: i flip: set_inorder)
  from pl consider (L) S D where "C = InLeft q S # D" | (R) S D where "C = InRight q S # D"
    by (auto simp: free_place_def)
  then show ?thesis
  proof cases
    case L
    then have u': "u' = set_left q (Some n) u"
      using k n' by (auto simp: u'_def u_def)
    have "ctx_at u' C (Some n) (Some q)"
      using c L n' d unfolding u' u_def by auto
    moreover have "ctx_bal u' C 0" using c n' unfolding u' u_def by simp
    ultimately show ?thesis
      using d n' L st unfolding focus_def inorder_plug u' u_def by auto
  next
    case R
    then have u': "u' = set_right q (Some n) u"
      using k n' by (auto simp: u'_def u_def)
    have "ctx_at u' C (Some n) (Some q)"
      using c R n' d unfolding u' u_def by auto
    moreover have "ctx_bal u' C 0" using c n' unfolding u' u_def by simp
    ultimately show ?thesis
      using d n' R st unfolding focus_def inorder_plug u' u_def by auto
  qed
qed

lemma amtree_insert_existing:
  assumes "amtree_ok t T" and "node_with_key t (inorder T) (ky t n) = Some a"
  shows "amtree_insert t n = Some (t, Some a)"
proof -
  from assms have "T \<noteq> Leaf" by auto
  with assms(1) obtain r where r: "root t = Some r" by (cases T) (auto simp: amtree_ok_def)
  with assms have "amtree_insert_descend t (ky t n) r = Some (Inl a)"
    using amtree_insert_descend_eq [of t None r T "ky t n"] by (simp add: amtree_ok_def)
  with r show ?thesis by (simp add: amtree_insert_def)
qed

lemma amtree_insert_new:
  assumes ok: "amtree_ok t T" and no: "node_with_key t (inorder T) (ky t n) = None"
    and n: "n \<notin> set_tree T"
  shows "\<exists>t' T'. amtree_insert t n = Some (t', None) \<and> amtree_ok t' T' \<and>
    inorder T' = insort_key (ky t) n (inorder T) \<and> (\<forall>b. ky t' b = ky t b) \<and>
    (\<forall>b. b \<notin> insert n (set_tree T) \<longrightarrow> nodes t' b = nodes t b)"
proof (cases "root t")
  case None
  with ok have T: "T = Leaf" by (cases T) (auto simp: amtree_ok_def)
  let ?t = "set_balance n 0 (set_right n None (set_left n None (set_parent n None
      (set_root (Some n) t\<lparr>count := 1\<rparr>))))"
  have "amtree_insert t n = Some (?t, None)" using None by (simp add: amtree_insert_def Let_def)
  moreover have "amtree_ok ?t (Node Leaf n Leaf)" by (simp add: amtree_ok_def keys_sorted_def)
  moreover have "\<forall>b. ky ?t b = ky t b" "\<forall>b. b \<notin> insert n (set_tree T) \<longrightarrow> nodes ?t b = nodes t b"
    by auto
  ultimately show ?thesis using T by (intro exI [of _ ?t] exI [of _ "Node Leaf n Leaf"]) simp
next
  case (Some r)
  with ok have t: "tree_at t None (Some r) T" "bal_at t T" "keys_sorted t T" "count t = of_nat (size T)"
    by (auto simp: amtree_ok_def)
  from amtree_insert_descend_eq [OF t(1,3), of "ky t n"] no obtain q C where
    q: "amtree_insert_descend t (ky t n) r = Some (Inr q)" and pl: "free_place t (ky t n) T q C"
    by auto
  let ?u = "set_parent n (Some q) (set_balance n 0 (set_right n None (set_left n None t)))"
  let ?v = "if ky ?u n < ky ?u q then set_left q (Some n) ?u else set_right q (Some n) ?u"
  let ?w = "?v\<lparr>count := count ?v + 1\<rparr>"
  from hang_leaf [OF _ t(2,3) pl n] t(1) Some
  have v: "focus ?v C n (Node Leaf n Leaf)" "par ?v n = Some q" "bal_at ?v (Node Leaf n Leaf)"
    "ctx_bal ?v C 0" "\<forall>b. ky ?v b = ky t b" "count ?v = count t"
    "\<forall>b. b \<notin> insert n (set_tree T) \<longrightarrow> nodes ?v b = nodes t b" by auto
  have "focus ?w C n (Node Leaf n Leaf)" "bal_at ?w (Node Leaf n Leaf)" "ctx_bal ?w C 0"
    using v(1,3,4) by (simp_all add: focus_def del: tree_at.simps)
  from amtree_balance_add_loop_ok [OF this(1,2) _ this(3)] obtain t' where
    t': "amtree_balance_add ?w n = Some t'" "settled ?w (plug C (Node Leaf n Leaf)) t'"
    unfolding amtree_balance_add_def by auto
  from t'(2) obtain T' where T': "tree_at t' None (root t') T'" "bal_at t' T'"
    "inorder T' = inorder (plug C (Node Leaf n Leaf))"
    "only_within (set_tree (plug C (Node Leaf n Leaf))) ?w t'"
    unfolding settled_def by blast
  have i: "inorder T = before_hole C @ after_hole C"
    using pl inorder_plug [of C Leaf] by (simp add: free_place_def)
  have i': "inorder T' = before_hole C @ n # after_hole C" using T'(3) by (simp add: inorder_plug)
  have k: "\<forall>b. ky t' b = ky t b" using T'(4) v(5) by (simp add: only_within_def)
  have seq: "inorder T' = insort_key (ky t) n (inorder T)"
    unfolding i i' by (rule insort_key_middle [symmetric]) (use pl in \<open>simp_all add: free_place_def\<close>)
  have "keys_sorted t' T'"
    using pl t(3) unfolding keys_sorted_def i i'
    by (auto simp: k sorted_wrt_append free_place_def cong: map_cong)
  moreover have "size T' = Suc (size T)"
    using arg_cong [OF i, of length] arg_cong [OF i', of length] by (simp add: size_length_inorder)
  then have "count t' = of_nat (size T')" using T'(4) v(6) t(4) by (simp add: only_within_def)
  ultimately have "amtree_ok t' T'" using T'(1,2) by (simp add: amtree_ok_def)
  moreover have "amtree_insert t n = Some (t', None)"
    using Some q t'(1) by (simp add: amtree_insert_def Let_def)
  moreover have "set_tree (plug C (Node Leaf n Leaf)) = insert n (set_tree T)"
    using arg_cong [OF i, of set] by (auto simp: set_tree_plug)
  then have "\<forall>b. b \<notin> insert n (set_tree T) \<longrightarrow> nodes t' b = nodes t b"
    using T'(4) v(7) by (simp add: only_within_def)
  ultimately show ?thesis using seq k by blast
qed

end
