(* ===== verification/AmTreeDelete.thy ===== *)
theory AmTreeDelete
  imports AmTreeInsert
begin

text \<open>
  Deletion: the climb that repairs the balances after a subtree has lost height, and the proof
  that \<^verbatim>\<open>amtree_delete\<close> returns on every valid tree and takes out exactly the one node.
\<close>

section \<open>The climb\<close>

lemma settled_cong: "inorder V = inorder V' \<Longrightarrow> settled t V t' = settled t V' t'"
  by (simp add: settled_def flip: set_inorder)

definition unbal_at :: "amtree \<Rightarrow> addr tree \<Rightarrow> addr \<Rightarrow> addr tree \<Rightarrow> bool" where
  "unbal_at t L n R \<longleftrightarrow> bal t n = int (height R) - int (height L) \<and> \<bar>bal t n\<bar> \<le> 2 \<and>
     bal_at t L \<and> bal_at t R"

text \<open>The height the context still counts with: the current one, or one more.\<close>

definition old_height :: "addr tree \<Rightarrow> addr tree \<Rightarrow> nat" where
  "old_height L R = Suc (max (height L) (height R)) + (if height L = height R then 1 else 0)"

lemma amtree_balance_del_switch_ok:
  assumes "focus t C n (Node L n R)" and "unbal_at t L n R" and "ctx_bal t C (old_height L R)"
  shows "\<exists>t' r. amtree_balance_del_switch t n = Some (t', r) \<and>
    only_within (set_tree (plug C (Node L n R))) t t' \<and>
    (case r of
       None \<Rightarrow> settled t (plug C (Node L n R)) t'
     | Some m \<Rightarrow> \<exists>U. focus t' C m U \<and> bal_at t' U \<and> ctx_bal t' C (Suc (height U)) \<and>
         inorder U = inorder (Node L n R))"
proof -
  from assms(2) have b: "bal t n = int (height R) - int (height L)" "bal_at t L" "bal_at t R"
    by (auto simp: unbal_at_def)
  note fp = focus_parts [OF assms(1)] focusD(2) [OF assms(1)]
  from assms(2) consider (z) "height R = height L" | (one) "\<bar>bal t n\<bar> = 1" "height R \<noteq> height L"
    | (right) "height R = height L + 2" | (left) "height L = height R + 2"
    by (fastforce simp: unbal_at_def)
  then show ?thesis
  proof cases
    case z
    then have "amtree_balance_del_switch t n = Some (t, Some n)"
      using b by (simp add: amtree_balance_del_switch_def)
    then show ?thesis using assms b z
      by (intro exI [of _ t] exI [of _ "Some n"]) (auto simp: old_height_def intro!: exI [of _ "Node L n R"])
  next
    case one
    then have "bal t n = 1 \<or> bal t n = -1" by linarith
    then have "amtree_balance_del_switch t n = Some (t, None)"
      by (auto simp: amtree_balance_del_switch_def)
    moreover have "settled t (plug C (Node L n R)) t"
      using assms b one by (intro settledI [of _ _ n "Node L n R"]) (auto simp: old_height_def)
    ultimately show ?thesis by auto
  next
    case right
    then obtain A c B where R: "R = Node A c B" by (cases R) auto
    with fp have c: "rgt t n = Some c" by simp
    note rot = assms(1) [unfolded R] b(3) [unfolded R] b(2) right [unfolded R]
    have b2: "bal t n = 2" and k: "old_height L R = height L + 3"
      using b right by (simp_all add: old_height_def)
    show ?thesis
    proof (cases "bal t c = -1")
      case False
      let ?t = "amtree_rotate_left t n c" and ?U = "Node (Node L n A) c B"
      from rotate_left_balance [OF rot False] have r: "focus ?t C c ?U" "bal_at ?t ?U"
        "height ?U = height L + (if bal t c = 0 then 3 else 2)" "bal ?t c = 0 \<longleftrightarrow> bal t c \<noteq> 0"
        "ctx_bal ?t C (old_height L R)" "only_within (set_tree (plug C (Node L n R))) t ?t"
        using assms(3) R by auto
      have "amtree_balance_del_switch t n = Some (?t, if bal ?t c \<noteq> 0 then None else Some c)"
        using b2 c False by (simp add: amtree_balance_del_switch_def Let_def)
      moreover have "settled t (plug C (Node L n R)) ?t" if "bal ?t c \<noteq> 0"
      proof (rule settledI [OF r(1,2) _ _ r(6)])
        have "height ?U = old_height L R" using r(3,4) that k by simp
        with r(5) show "ctx_bal ?t C (height ?U)" by simp
      qed (simp add: R)
      moreover have "ctx_bal ?t C (Suc (height ?U))" if "bal ?t c = 0"
      proof -
        have e: "Suc (height ?U) = old_height L R" using r(3,4) that k by simp
        show ?thesis unfolding e by (rule r(5))
      qed
      moreover have "inorder ?U = inorder (Node L n R)" by (simp add: R)
      ultimately show ?thesis using r(1,2,6) by (auto simp del: inorder.simps height_tree.simps)
    next
      case True
      from rotate_right_left_balance [OF rot True] obtain t' g U where
        r: "amtree_rotate_right_left t n c = Some t'" "focus t' C g U" "bal_at t' U"
        "height U = height L + 2" "inorder U = inorder (Node L n R)" "par t' n = Some g"
        "\<forall>k. ctx_bal t' C k = ctx_bal t C k" "only_within (set_tree (plug C (Node L n R))) t t'"
        unfolding R by blast
      have "amtree_balance_del_switch t n = Some (t', Some g)"
        using b2 c True r(1,6) by (simp add: amtree_balance_del_switch_def)
      moreover have "ctx_bal t' C (Suc (height U))" using r(4,7) k assms(3) by (simp add: eval_nat_numeral)
      ultimately show ?thesis using r(2,3,5,8)
        by (intro exI [of _ t'] exI [of _ "Some g"]) (auto simp del: inorder.simps)
    qed
  next
    case left
    then obtain A c B where L: "L = Node A c B" by (cases L) auto
    with fp have c: "lft t n = Some c" by simp
    note rot = assms(1) [unfolded L] b(2) [unfolded L] b(3) left [unfolded L]
    have b2: "bal t n = -2" and k: "old_height L R = height R + 3"
      using b left by (simp_all add: old_height_def)
    show ?thesis
    proof (cases "bal t c = 1")
      case False
      let ?t = "amtree_rotate_right t n c" and ?U = "Node A c (Node B n R)"
      from rotate_right_balance [OF rot False] have r: "focus ?t C c ?U" "bal_at ?t ?U"
        "height ?U = height R + (if bal t c = 0 then 3 else 2)" "bal ?t c = 0 \<longleftrightarrow> bal t c \<noteq> 0"
        "ctx_bal ?t C (old_height L R)" "only_within (set_tree (plug C (Node L n R))) t ?t"
        using assms(3) L by auto
      have "amtree_balance_del_switch t n = Some (?t, if bal ?t c \<noteq> 0 then None else Some c)"
        using b2 c False by (simp add: amtree_balance_del_switch_def Let_def)
      moreover have "settled t (plug C (Node L n R)) ?t" if "bal ?t c \<noteq> 0"
      proof (rule settledI [OF r(1,2) _ _ r(6)])
        have "height ?U = old_height L R" using r(3,4) that k by simp
        with r(5) show "ctx_bal ?t C (height ?U)" by simp
      qed (simp add: L)
      moreover have "ctx_bal ?t C (Suc (height ?U))" if "bal ?t c = 0"
      proof -
        have e: "Suc (height ?U) = old_height L R" using r(3,4) that k by simp
        show ?thesis unfolding e by (rule r(5))
      qed
      moreover have "inorder ?U = inorder (Node L n R)" by (simp add: L)
      ultimately show ?thesis using r(1,2,6) by (auto simp del: inorder.simps height_tree.simps)
    next
      case True
      from rotate_left_right_balance [OF rot True] obtain t' g U where
        r: "amtree_rotate_left_right t n c = Some t'" "focus t' C g U" "bal_at t' U"
        "height U = height R + 2" "inorder U = inorder (Node L n R)" "par t' n = Some g"
        "\<forall>k. ctx_bal t' C k = ctx_bal t C k" "only_within (set_tree (plug C (Node L n R))) t t'"
        unfolding L by blast
      have "amtree_balance_del_switch t n = Some (t', Some g)"
        using b2 c True r(1,6) by (simp add: amtree_balance_del_switch_def)
      moreover have "ctx_bal t' C (Suc (height U))" using r(4,7) k assms(3) by (simp add: eval_nat_numeral)
      ultimately show ?thesis using r(2,3,5,8)
        by (intro exI [of _ t'] exI [of _ "Some g"]) (auto simp del: inorder.simps)
    qed
  qed
qed

text \<open>
  One step up: \<open>x\<close> has lost height, and the balance of its parent takes that into account.
\<close>

lemma lost_height_up:
  assumes "ctx_at t (c # D) x p" and "tree_at t p x U" and "distinct (inorder (plug (c # D) U))"
    and "bal_at t U" and "ctx_bal t (c # D) (Suc (height U))"
  shows "\<exists>q L R. p = Some q \<and> plug (c # D) U = plug D (Node L q R) \<and>
    (case c of InLeft _ _ \<Rightarrow> L = U | InRight _ _ \<Rightarrow> R = U) \<and>
    (let t' = set_balance q (case c of InLeft _ _ \<Rightarrow> bal t q + 1 | InRight _ _ \<Rightarrow> bal t q - 1) t
     in focus t' D q (Node L q R) \<and> unbal_at t' L q R \<and> ctx_bal t' D (old_height L R))"
proof (cases c)
  case (InLeft q R)
  then have up: "focus t D q (Node U q R)" "p = Some q"
    using assms(1-3) by (auto simp: focus_def)
  from assms(5) InLeft have b: "bal t q = int (height R) - int (Suc (height U))" "\<bar>bal t q\<bar> \<le> 1"
    "bal_at t R" "ctx_bal t D (Suc (max (Suc (height U)) (height R)))" by auto
  then have "Suc (max (Suc (height U)) (height R)) = old_height U R"
    by (auto simp: old_height_def)
  then show ?thesis
    using up b assms(4) InLeft focus_parts [OF up(1)]
    by (intro exI [of _ q] exI [of _ U] exI [of _ R]) (auto simp: unbal_at_def Let_def)
next
  case (InRight q L)
  then have up: "focus t D q (Node L q U)" "p = Some q"
    using assms(1-3) by (auto simp: focus_def)
  from assms(5) InRight have b: "bal t q = int (Suc (height U)) - int (height L)" "\<bar>bal t q\<bar> \<le> 1"
    "bal_at t L" "ctx_bal t D (Suc (max (height L) (Suc (height U))))" by auto
  then have "Suc (max (height L) (Suc (height U))) = old_height L U"
    by (auto simp: old_height_def)
  then show ?thesis
    using up b assms(4) InRight focus_parts [OF up(1)]
    by (intro exI [of _ q] exI [of _ L] exI [of _ U]) (auto simp: unbal_at_def Let_def)
qed

lemma climb_up:
  assumes "focus t (c # D) m U" and "bal_at t U" and "ctx_bal t (c # D) (Suc (height U))"
  shows "\<exists>q L R. par t m = Some q \<and> plug (c # D) U = plug D (Node L q R) \<and>
    (let t' = (if lft t q = Some m then set_balance q (bal t q + 1) t
               else set_balance q (bal t q - 1) t)
     in focus t' D q (Node L q R) \<and> unbal_at t' L q R \<and> ctx_bal t' D (old_height L R) \<and>
        only_within (set_tree (plug D (Node L q R))) t t')"
proof -
  note f = focusD [OF assms(1)]
  from lost_height_up [OF f(1,2) _ assms(2,3)] f(3) obtain q L R where
    q: "par t m = Some q" "plug (c # D) U = plug D (Node L q R)" and
    rest: "let t' = set_balance q (case c of InLeft _ _ \<Rightarrow> bal t q + 1 | InRight _ _ \<Rightarrow> bal t q - 1) t
     in focus t' D q (Node L q R) \<and> unbal_at t' L q R \<and> ctx_bal t' D (old_height L R)"
    unfolding inorder_plug by blast
  have "lft t q = Some m \<longleftrightarrow> (case c of InLeft _ _ \<Rightarrow> True | InRight _ _ \<Rightarrow> False)"
    using assms(1) q(1) by (cases c) (auto dest: focus_up_left focus_up_right)
  with rest have "let t' = (if lft t q = Some m then set_balance q (bal t q + 1) t
               else set_balance q (bal t q - 1) t)
     in focus t' D q (Node L q R) \<and> unbal_at t' L q R \<and> ctx_bal t' D (old_height L R) \<and>
        only_within (set_tree (plug D (Node L q R))) t t'"
    by (auto simp: Let_def only_within_def set_tree_plug split: crumb.splits)
  with q show ?thesis by blast
qed

lemma amtree_balance_del_ok:
  assumes "focus t C n (Node L n R)" and "unbal_at t L n R" and "ctx_bal t C (old_height L R)"
  shows "\<exists>t'. amtree_balance_del t n = Some t' \<and> settled t (plug C (Node L n R)) t'"
  using assms
proof (induction "length C" arbitrary: C t n L R rule: less_induct)
  case less
  let ?V = "plug C (Node L n R)"
  note step = amtree_balance_del.simps [of t n]
  from amtree_balance_del_switch_ok [OF less.prems] obtain t1 r where
    sw: "amtree_balance_del_switch t n = Some (t1, r)" "only_within (set_tree ?V) t t1"
    and r: "case r of None \<Rightarrow> settled t ?V t1
      | Some m \<Rightarrow> \<exists>U. focus t1 C m U \<and> bal_at t1 U \<and> ctx_bal t1 C (Suc (height U)) \<and>
         inorder U = inorder (Node L n R)"
    by blast
  show ?case
  proof (cases r)
    case None
    with sw r show ?thesis by (simp add: step)
  next
    case (Some m)
    with r obtain U where U: "focus t1 C m U" "bal_at t1 U" "ctx_bal t1 C (Suc (height U))"
      "inorder U = inorder (Node L n R)" by auto
    show ?thesis
    proof (cases C)
      case Nil
      with U(1) focus_top have "par t1 m = None" by blast
      moreover have "settled t ?V t1" using U sw(2) Nil by (intro settledI [of _ _ m U]) auto
      ultimately show ?thesis using sw Some by (simp add: step)
    next
      case (Cons c D)
      from climb_up [OF U(1-3) [unfolded Cons]] obtain q L' R' where
        q: "par t1 m = Some q" "plug (c # D) U = plug D (Node L' q R')" and
        rest: "let t' = (if lft t1 q = Some m then set_balance q (bal t1 q + 1) t1
               else set_balance q (bal t1 q - 1) t1)
          in focus t' D q (Node L' q R') \<and> unbal_at t' L' q R' \<and> ctx_bal t' D (old_height L' R') \<and>
            only_within (set_tree (plug D (Node L' q R'))) t1 t'" by blast
      let ?t = "if lft t1 q = Some m then set_balance q (bal t1 q + 1) t1
               else set_balance q (bal t1 q - 1) t1"
      have V: "inorder (plug D (Node L' q R')) = inorder ?V"
        unfolding q(2) [symmetric] Cons inorder_plug U(4) ..
      then have S: "set_tree (plug D (Node L' q R')) = set_tree ?V"
        by (metis set_inorder)
      from rest less.hyps [of D ?t q L' R'] Cons obtain t' where
        t': "amtree_balance_del ?t q = Some t'" "settled ?t (plug D (Node L' q R')) t'"
        by (auto simp: Let_def)
      have "amtree_balance_del t n = Some t'"
        using sw Some q(1) t'(1) by (simp add: step Let_def)
      moreover have "only_within (set_tree ?V) t ?t"
        using rest sw(2) only_within_trans unfolding S by (metis (no_types, lifting))
      ultimately show ?thesis
        using t'(2) settled_trans settled_cong [OF V] by blast
    qed
  qed
qed

section \<open>The node to take out, and its successor\<close>

lemma split_at: "n \<in> set_tree T \<Longrightarrow> \<exists>C L R. T = plug C (Node L n R)"
proof (induction T)
  case (Node L a R)
  then consider "n = a" | "n \<in> set_tree L" | "n \<in> set_tree R" by auto
  then show ?case
  proof cases
    case 1
    then have "Node L a R = plug [] (Node L n R)" by simp
    then show ?thesis by blast
  next
    case 2
    with Node.IH(1) obtain C L' R' where "L = plug C (Node L' n R')" by blast
    then have "Node L a R = plug (C @ [InLeft a R]) (Node L' n R')" by (simp add: plug_append)
    then show ?thesis by blast
  next
    case 3
    with Node.IH(2) obtain C L' R' where "R = plug C (Node L' n R')" by blast
    then have "Node L a R = plug (C @ [InRight a L]) (Node L' n R')" by (simp add: plug_append)
    then show ?thesis by blast
  qed
qed simp

text \<open>Taking the leftmost node out of a subtree, with the first two writes of the code.\<close>

lemma leftmost_unlink:
  assumes "tree_at t p (Some a) (Node L a R)" and "L \<noteq> Leaf" and "distinct (inorder (Node L a R))"
  shows "\<exists>E q S m M. Node L a R = plug E (Node (Node Leaf m M) q S) \<and>
    before_hole E = [] \<and> amtree_leftmost t a = Some m \<and> par t m = Some q \<and>
    (\<forall>x. rgt t m = Some x \<longrightarrow> x \<in> set_tree M) \<and>
    tree_at (set_parent_if (rgt t m) (Some q) (set_left q (rgt t m) t)) p (Some a)
      (plug E (Node M q S))"
  using assms
proof (induction L arbitrary: p a R)
  case (Node L1 b L2)
  from Node.prems have b: "lft t a = Some b" "par t a = p" "par t b = Some a"
    "tree_at t (Some a) (Some b) (Node L1 b L2)" "tree_at t (Some a) (rgt t a) R" by auto
  have step: "amtree_leftmost t a = amtree_leftmost t b"
    using b(1) by (simp add: amtree_leftmost.simps [of t a])
  show ?case
  proof (cases "L1 = Leaf")
    case True
    let ?t = "set_parent_if (rgt t b) (Some a) (set_left a (rgt t b) t)"
    have r: "tree_at t (Some b) (rgt t b) L2" using b(4) by simp
    have "\<forall>x. rgt t b = Some x \<longrightarrow> x \<notin> insert a (set_tree R)"
      by (rule tree_at_root_in [OF r]) (use Node.prems(3) in auto)
    then have "tree_at ?t p (Some a) (Node L2 a R)"
      using Node.prems b r by auto
    moreover have "amtree_leftmost t b = Some b"
      using True b(4) by (simp add: amtree_leftmost.simps)
    moreover have "\<forall>x. rgt t b = Some x \<longrightarrow> x \<in> set_tree L2" using r tree_at_root by blast
    moreover have "before_hole [] = []" "Node (Node L1 b L2) a R = plug [] (Node (Node Leaf b L2) a R)"
      "Node L2 a R = plug [] (Node L2 a R)" using True by simp_all
    ultimately show ?thesis using step b(3) by metis
  next
    case False
    have d: "distinct (inorder (Node L1 b L2))" using Node.prems(3) by auto
    obtain E q S m M where
      E: "Node L1 b L2 = plug E (Node (Node Leaf m M) q S)" "amtree_leftmost t b = Some m" "before_hole E = []"
        "par t m = Some q" "\<forall>x. rgt t m = Some x \<longrightarrow> x \<in> set_tree M"
        "tree_at (set_parent_if (rgt t m) (Some q) (set_left q (rgt t m) t)) (Some a) (Some b)
          (plug E (Node M q S))"
      using Node.IH(1) [OF b(4) False d] by blast
    let ?t = "set_parent_if (rgt t m) (Some q) (set_left q (rgt t m) t)"
    have "insert q (set_tree M) \<subseteq> set_tree (Node L1 b L2)"
      unfolding E(1) set_tree_plug by auto
    then have out: "a \<noteq> q" "q \<notin> set_tree R" "rgt t m \<noteq> Some a"
      "\<forall>x. rgt t m = Some x \<longrightarrow> x \<notin> set_tree R"
      using Node.prems(3) E(5) by auto
    have "Node (Node L1 b L2) a R = plug (E @ [InLeft a R]) (Node (Node Leaf m M) q S)"
      using E(1) by (simp add: plug_append)
    moreover have "tree_at ?t p (Some a) (plug (E @ [InLeft a R]) (Node M q S))"
      using E(6) out b by (simp add: plug_append)
    moreover have "before_hole (E @ [InLeft a R]) = []" using E(3) by (simp add: hole_append)
    ultimately show ?thesis using E(2,4,5) step by metis
  qed
qed simp

section \<open>The three cases of deletion\<close>

text \<open>The tree is right, and is the sequence \<open>xs\<close>; only nodes in \<open>W\<close> have been written.\<close>

definition rebuilt :: "addr set \<Rightarrow> addr list \<Rightarrow> amtree \<Rightarrow> amtree \<Rightarrow> bool" where
  "rebuilt W xs t t' \<longleftrightarrow> (\<exists>T'. tree_at t' None (root t') T' \<and> bal_at t' T' \<and>
     inorder T' = xs \<and> only_within W t t')"

lemma settled_rebuilt:
  assumes "settled t1 V t'" and "only_within W t t1" and "set_tree V \<subseteq> W" and "inorder V = xs"
  shows "rebuilt W xs t t'"
  using assms only_within_trans only_within_mono unfolding settled_def rebuilt_def by metis

lemma only_within_set_balance:
  assumes "only_within W t t'" and "q \<in> W"
  shows "only_within W t (set_balance q i t')"
  using assms nodes_other(4) unfolding only_within_def by (metis set_balance_simps(5,7))

lemma amtree_delete_one_child:
  assumes f: "focus t C n (Node L n R)" and b: "bal_at t (Node L n R)"
    and c: "ctx_bal t C (height (Node L n R))" and e: "L = Leaf \<or> R = Leaf"
  shows "\<exists>t'. amtree_delete t n = Some t' \<and>
    rebuilt (set_tree (plug C (Node L n R))) (before_hole C @ inorder L @ inorder R @ after_hole C)
      (t\<lparr>count := count t - 1\<rparr>) t'"
proof -
  define S where "S = (if R = Leaf then L else R)"
  define x where "x = (if rgt t n \<noteq> None then rgt t n else lft t n)"
  let ?t0 = "t\<lparr>count := count t - 1\<rparr>" and ?p = "par t n"
  let ?t1 = "set_parent_if x ?p ?t0"
  let ?t2 = "replace_child ?p n x ?t1"
  note fd = focusD [OF f]
  have h: "height (Node L n R) = Suc (height S)" and i: "inorder L @ inorder R = inorder S"
    using e by (auto simp: S_def)
  have x: "tree_at t (Some n) x S" using fd(2) e by (cases L; cases R) (auto simp: S_def x_def)
  have xs: "\<forall>a. x = Some a \<longrightarrow> a \<in> set_tree S" using x tree_at_root by blast
  have St: "set_tree S \<subseteq> set_tree L \<union> set_tree R" by (auto simp: S_def)
  have dS: "distinct (inorder S)" using fd(3) by (auto simp: S_def)
  have out: "\<forall>a. x = Some a \<longrightarrow> a \<notin> set (before_hole C) \<and> a \<notin> set (after_hole C)"
    "\<forall>a. ?p = Some a \<longrightarrow> a \<notin> set_tree S"
    using xs St fd(3,4) by auto
  have "ctx_at ?t1 C (Some n) ?p" using fd(1) out(1) by simp
  then have cx: "ctx_at ?t2 C x ?p" by (rule ctx_at_replace) (use fd(3) in auto)
  have tr: "tree_at ?t2 ?p x S" using x dS out(2) by auto
  have bl: "bal_at ?t2 S" "ctx_bal ?t2 C (Suc (height S))" using b c h by (simp_all add: S_def)
  have w: "only_within (set_tree (plug C (Node L n R))) ?t0 ?t2"
  proof -
    have "\<forall>b. b \<notin> set_tree (plug C (Node L n R)) \<longrightarrow> ?p \<noteq> Some b \<and> x \<noteq> Some b"
      using xs St fd(4) by (auto simp: set_tree_plug)
    then show ?thesis by (simp add: only_within_def)
  qed
  have leaf: "lft t n = None \<or> rgt t n = None" using fd(2) e by auto
  have run: "amtree_delete t n = (case ?p of None \<Rightarrow> Some ?t2
    | Some q \<Rightarrow> amtree_balance_del
        (set_balance q (if lft t q = Some n then bal t q + 1 else bal t q - 1) ?t2) q)"
    using leaf by (auto simp: amtree_delete_def Let_def x_def replace_child_def set_child_def
      amtree_which_child_def split: option.splits)
  have seq: "inorder (plug C S) = before_hole C @ inorder L @ inorder R @ after_hole C"
    unfolding inorder_plug i [symmetric] by simp
  show ?thesis
  proof (cases C)
    case Nil
    with cx have "?p = None" "root ?t2 = x" by auto
    with run tr bl w seq Nil show ?thesis by (auto simp: rebuilt_def intro!: exI [of _ S])
  next
    case (Cons c D)
    have dist: "distinct (inorder (plug C S))" using fd(3) unfolding seq by auto
    from lost_height_up [OF cx [unfolded Cons] tr dist [unfolded Cons] bl [unfolded Cons]] obtain q L' R' where
      q: "?p = Some q" "plug C S = plug D (Node L' q R')" and
      rest: "let t' = set_balance q (case c of InLeft _ _ \<Rightarrow> bal ?t2 q + 1 | InRight _ _ \<Rightarrow> bal ?t2 q - 1) ?t2
        in focus t' D q (Node L' q R') \<and> unbal_at t' L' q R' \<and> ctx_bal t' D (old_height L' R')"
      unfolding Cons by blast
    let ?t3 = "set_balance q (if lft t q = Some n then bal t q + 1 else bal t q - 1) ?t2"
    have "lft t q = Some n \<longleftrightarrow> (case c of InLeft _ _ \<Rightarrow> True | InRight _ _ \<Rightarrow> False)"
      using f q(1) Cons by (cases c) (auto dest: focus_up_left focus_up_right)
    with rest have "focus ?t3 D q (Node L' q R')" "unbal_at ?t3 L' q R'" "ctx_bal ?t3 D (old_height L' R')"
      by (auto simp: Let_def split: crumb.splits)
    from amtree_balance_del_ok [OF this] obtain t' where
      t': "amtree_balance_del ?t3 q = Some t'" "settled ?t3 (plug C S) t'" unfolding q(2) by blast
    have "set_tree (plug C S) \<subseteq> set_tree (plug C (Node L n R))"
      using St by (auto simp: set_tree_plug)
    moreover have "only_within (set_tree (plug C (Node L n R))) ?t0 ?t3"
      by (rule only_within_set_balance [OF w]) (use fd(4) q(1) in \<open>auto simp: set_tree_plug\<close>)
    ultimately have "rebuilt (set_tree (plug C (Node L n R)))
        (before_hole C @ inorder L @ inorder R @ after_hole C) ?t0 t'"
      using settled_rebuilt [OF t'(2)] seq by blast
    with run q(1) t'(1) show ?thesis by simp
  qed
qed

lemma amtree_delete_right_child_up:
  assumes f: "focus t C n (Node L n (Node Leaf cr R))" and b: "bal_at t (Node L n (Node Leaf cr R))"
    and c: "ctx_bal t C (height (Node L n (Node Leaf cr R)))" and L: "L \<noteq> Leaf"
  shows "\<exists>t'. amtree_delete t n = Some t' \<and>
    rebuilt (set_tree (plug C (Node L n (Node Leaf cr R))))
      (before_hole C @ inorder L @ cr # inorder R @ after_hole C) (t\<lparr>count := count t - 1\<rparr>) t'"
proof -
  let ?W = "set_tree (plug C (Node L n (Node Leaf cr R)))"
  let ?t0 = "t\<lparr>count := count t - 1\<rparr>" and ?p = "par t n"
  note fd = focusD [OF f]
  from L fd(2) obtain cl where cl: "lft t n = Some cl" by (cases L) auto
  let ?t1 = "set_left cr (Some cl) (set_parent cl (Some cr)
    (replace_child ?p n (Some cr) (set_parent cr ?p ?t0)))"
  let ?t2 = "set_balance cr (bal t n - 1) ?t1"
  have st: "tree_at t (Some n) (Some cl) L" "tree_at t (Some cr) (rgt t cr) R" "rgt t n = Some cr"
    "lft t cr = None" using fd(2) cl by auto
  have clL: "cl \<in> set_tree L" using st(1) tree_at_root by blast
  have dL: "distinct (inorder L)" using fd(3) by auto
  have ctx0: "ctx_at (set_parent cr ?p ?t0) C (Some n) ?p" using fd(1,3) by simp
  have ctx: "ctx_at (replace_child ?p n (Some cr) (set_parent cr ?p ?t0)) C (Some cr) ?p"
    by (rule ctx_at_replace [OF ctx0]) (use fd(3) in auto)
  have out: "cr \<noteq> n" "cr \<notin> set_tree L" "cr \<notin> set_tree R" "cr \<notin> set (before_hole C)" "cr \<notin> set (after_hole C)"
    "cl \<noteq> cr" "cl \<notin> set_tree R" "cl \<notin> set (before_hole C)" "cl \<notin> set (after_hole C)"
    "\<forall>a. ?p = Some a \<longrightarrow> a \<notin> set_tree L \<and> a \<notin> set_tree R" "?p \<noteq> Some cr" "?p \<noteq> Some cl"
    using fd(3,4) clL by auto
  let ?u = "replace_child ?p n (Some cr) (set_parent cr ?p ?t0)"
  have "tree_at ?u (Some n) (Some cl) L" using st(1) out by simp
  then have "tree_at (set_parent cl (Some cr) ?u) (Some cr) (Some cl) L"
    using tree_at_reparent [OF _ dL, of ?u _ "Some cl"] by (simp add: set_parent_if_def)
  moreover have "tree_at ?u (Some cr) (rgt t cr) R" using st(2) out by simp
  ultimately have "tree_at ?t1 ?p (Some cr) (Node L cr R)"
    using out by simp
  moreover have "ctx_at ?t1 C (Some cr) ?p" using ctx out by simp
  ultimately have foc: "focus ?t2 C cr (Node L cr R)"
    using fd(3) unfolding focus_set_balance focus_def inorder_plug by auto
  have "old_height L R = height (Node L n (Node Leaf cr R))" and ub: "unbal_at ?t2 L cr R"
    using b out by (auto simp: old_height_def unbal_at_def)
  with c out have "ctx_bal ?t2 C (old_height L R)" by simp
  from amtree_balance_del_ok [OF foc ub this] obtain t' where
    t': "amtree_balance_del ?t2 cr = Some t'" "settled ?t2 (plug C (Node L cr R)) t'" by blast
  have "\<forall>b. b \<notin> ?W \<longrightarrow> ?p \<noteq> Some b \<and> b \<noteq> cr \<and> b \<noteq> cl"
    using fd(4) clL by (auto simp: set_tree_plug)
  then have "only_within ?W ?t0 ?t2" by (simp add: only_within_def)
  with t'(2) have "rebuilt ?W (before_hole C @ inorder L @ cr # inorder R @ after_hole C) ?t0 t'"
    by (rule settled_rebuilt) (auto simp: set_tree_plug inorder_plug)
  moreover have "amtree_delete t n = Some t'"
    using st cl out t'(1) by (simp add: amtree_delete_def Let_def)
  ultimately show ?thesis by blast
qed

lemma ctx_bal_relabel:
  assumes "\<forall>a \<in> set (before_hole E) \<union> set (after_hole E) \<union> set_tree L \<union>
      set (before_hole C) \<union> set (after_hole C). bal t' a = bal t a"
    and "bal t' m = bal t n"
  shows "ctx_bal t' (E @ InRight m L # C) k = ctx_bal t (E @ InRight n L # C) k"
  using assms(1)
proof (induction E arbitrary: k)
  case Nil
  then have "bal_at t' L = bal_at t L" "ctx_bal t' C k = ctx_bal t C k" for k
    by (simp_all add: bal_at_cong ctx_bal_cong)
  with assms(2) show ?case by simp
next
  case (Cons c E)
  then show ?case by (cases c) (auto simp: bal_at_cong [of _ t' t])
qed

lemma amtree_delete_successor_up:
  assumes f: "focus t C n (Node L n R)" and b: "bal_at t (Node L n R)"
    and c: "ctx_bal t C (height (Node L n R))" and L: "L \<noteq> Leaf"
    and R: "R = Node RL cr RR" "RL \<noteq> Leaf"
  shows "\<exists>t'. amtree_delete t n = Some t' \<and>
    rebuilt (set_tree (plug C (Node L n R)))
      (before_hole C @ inorder L @ inorder R @ after_hole C) (t\<lparr>count := count t - 1\<rparr>) t'"
proof -
  let ?W = "set_tree (plug C (Node L n R))"
  let ?t0 = "t\<lparr>count := count t - 1\<rparr>" and ?p = "par t n"
  note fd = focusD [OF f]
  from L fd(2) obtain cl where cl: "lft t n = Some cl" by (cases L) auto
  have st: "tree_at t (Some n) (Some cl) L" "rgt t n = Some cr" "tree_at t (Some n) (Some cr) R"
    "lft t cr \<noteq> None"
    using fd(2) cl R by (auto elim: tree_at.elims)
  have dR: "distinct (inorder R)" and dL: "distinct (inorder L)" using fd(3) by auto
  have "tree_at ?t0 (Some n) (Some cr) R" using st(3) by simp
  with leftmost_unlink [of ?t0 "Some n" cr RL RR] R dR obtain E q S m M where
    E: "R = plug E (Node (Node Leaf m M) q S)" "before_hole E = []" "amtree_leftmost ?t0 cr = Some m"
      "par t m = Some q" "\<forall>x. rgt t m = Some x \<longrightarrow> x \<in> set_tree M"
      "tree_at (set_parent_if (rgt t m) (Some q) (set_left q (rgt t m) ?t0)) (Some n) (Some cr)
        (plug E (Node M q S))"
    by auto
  let ?R = "plug E (Node M q S)"
  have iR: "inorder R = m # inorder ?R" "inorder ?R = inorder M @ q # inorder S @ after_hole E"
    unfolding E(1) inorder_plug by (simp_all add: E(2))
  have sR: "set_tree R = insert m (set_tree ?R)"
    using arg_cong [OF iR(1), of set] by simp
  have qR: "q \<in> set_tree ?R" "set_tree M \<subseteq> set_tree ?R" by (auto simp: set_tree_plug)
  have d: "distinct (before_hole C @ inorder L @ n # m # inorder ?R @ after_hole C)"
    using fd(3) iR(1) by simp
  have clL: "cl \<in> set_tree L" using st(1) tree_at_root by blast
  have crR: "cr \<in> set_tree ?R"
    using E(6) by (rule tree_at_root) simp
  have out: "\<forall>a. ?p = Some a \<longrightarrow> a \<notin> insert m (insert n (set_tree L \<union> set_tree ?R))"
    "\<forall>a \<in> insert m (set_tree L \<union> set_tree ?R). a \<notin> set (before_hole C) \<and> a \<notin> set (after_hole C)"
    "set_tree L \<inter> set_tree ?R = {}" "m \<notin> set_tree L \<union> set_tree ?R" "n \<notin> set_tree L \<union> set_tree ?R" "m \<noteq> n"
    using fd(4) sR d by auto
  have xM: "\<forall>x. rgt t m = Some x \<longrightarrow> x \<notin> set_tree L \<and> x \<notin> set (before_hole C) \<and> x \<notin> set (after_hole C)"
    using E(5) qR(2) out by blast
  let ?u0 = "set_balance m (bal t n) (set_balance q (bal t q + 1)
    (set_parent_if (rgt t m) (Some q) (set_left q (rgt t m) ?t0)))"
  let ?u1 = "replace_child ?p n (Some m) (set_parent m ?p ?u0)"
  let ?u2 = "set_left m (Some cl) (set_parent cl (Some m) ?u1)"
  let ?u3 = "set_right m (Some cr) (set_parent cr (Some m) ?u2)"
  have ne: "m \<noteq> cl" "m \<noteq> cr" "m \<noteq> q" "q \<noteq> n" "cl \<notin> set_tree ?R" "cr \<notin> set_tree L" "q \<notin> set_tree L" "q \<noteq> cl"
    "cl \<noteq> cr" "?p \<noteq> Some m" "?p \<noteq> Some cl" "?p \<noteq> Some cr"
    using out clL crR qR by auto
  have "ctx_at (set_parent m ?p ?u0) C (Some n) ?p"
    using fd(1) out xM qR(1) by simp
  then have "ctx_at ?u1 C (Some m) ?p" by (rule ctx_at_replace) (use d in auto)
  then have ctx: "ctx_at ?u3 C (Some m) ?p" using out clL crR by simp
  have "tree_at ?u1 (Some n) (Some cl) L" using st(1) out xM ne by simp
  then have "tree_at (set_parent cl (Some m) ?u1) (Some m) (Some cl) L"
    using tree_at_reparent [OF _ dL, of ?u1 _ "Some cl"] by (simp add: set_parent_if_def)
  then have tL: "tree_at ?u3 (Some m) (Some cl) L" using out ne by simp
  have "tree_at ?u2 (Some n) (Some cr) ?R" using E(6) out ne by simp
  then have "tree_at (set_parent cr (Some m) ?u2) (Some m) (Some cr) ?R"
    using tree_at_reparent [of ?u2 _ "Some cr" ?R "Some m"] d by (simp add: set_parent_if_def)
  then have tR: "tree_at ?u3 (Some m) (Some cr) ?R" using out by simp
  have "tree_at ?u3 ?p (Some m) (Node L m ?R)" using tL tR ne by simp
  with ctx have whole: "tree_at ?u3 None (root ?u3) (plug C (Node L m ?R))"
    unfolding tree_at_plug by blast
  have pl: "plug C (Node L x (plug E U)) = plug (E @ InRight x L # C) U" for x U
    by (simp add: plug_append)
  have foc: "focus ?u3 (E @ InRight m L # C) q (Node M q S)"
  proof (rule focusI)
    show "distinct (inorder (plug (E @ InRight m L # C) (Node M q S)))"
      unfolding pl [symmetric] inorder_plug using d by auto
  qed (use whole in \<open>simp only: pl\<close>)
  have "bal_at t (plug (E @ InRight n L # C) (Node (Node Leaf m M) q S))"
    using b c unfolding pl [symmetric] E(1) [symmetric] bal_at_plug by blast
  then have bt: "bal_at t (Node (Node Leaf m M) q S)"
    "ctx_bal t (E @ InRight n L # C) (height (Node (Node Leaf m M) q S))"
    unfolding bal_at_plug by auto
  have dRR: "distinct (inorder M @ q # inorder S @ after_hole E)"
    using d unfolding iR(2) by auto
  have bq: "bal ?u3 q = bal t q + 1" "bal ?u3 m = bal t n"
    "\<And>a. a \<noteq> q \<Longrightarrow> a \<noteq> m \<Longrightarrow> bal ?u3 a = bal t a" using ne by auto
  have "m \<notin> set_tree M \<union> set_tree S \<union> set (after_hole E)"
    using out(4) by (auto simp: set_tree_plug)
  then have "bal_at ?u3 M = bal_at t M" "bal_at ?u3 S = bal_at t S"
    "ctx_bal ?u3 (E @ InRight m L # C) k = ctx_bal t (E @ InRight n L # C) k" for k
    using dRR out ne(7) qR(1) bq E(2) by (auto intro!: bal_at_cong ctx_bal_relabel)
  moreover have "old_height M S = height (Node (Node Leaf m M) q S)"
    using bt(1) by (auto simp: old_height_def)
  ultimately have "unbal_at ?u3 M q S" "ctx_bal ?u3 (E @ InRight m L # C) (old_height M S)"
    using bt bq(1) by (auto simp: unbal_at_def)
  from amtree_balance_del_ok [OF foc this] obtain t' where
    t': "amtree_balance_del ?u3 q = Some t'"
      "settled ?u3 (plug (E @ InRight m L # C) (Node M q S)) t'" by blast
  have W: "insert n (insert m (set (before_hole C) \<union> set_tree L \<union> set_tree ?R \<union> set (after_hole C))) = ?W"
    using sR by (auto simp: set_tree_plug)
  have "\<forall>b. b \<notin> ?W \<longrightarrow> ?p \<noteq> Some b \<and> b \<noteq> m \<and> b \<noteq> q \<and> b \<noteq> cl \<and> b \<noteq> cr \<and> rgt t m \<noteq> Some b"
    using fd(4) clL crR qR E(5) unfolding W [symmetric] by auto
  then have "only_within ?W ?t0 ?u3" by (simp add: only_within_def)
  with t'(2) have "rebuilt ?W (before_hole C @ inorder L @ inorder R @ after_hole C) ?t0 t'"
  proof (rule settled_rebuilt)
    show "set_tree (plug (E @ InRight m L # C) (Node M q S)) \<subseteq> ?W"
      unfolding pl [symmetric] W [symmetric] by (auto simp: set_tree_plug)
    show "inorder (plug (E @ InRight m L # C) (Node M q S)) =
        before_hole C @ inorder L @ inorder R @ after_hole C"
      unfolding pl [symmetric] inorder_plug [of C] iR(1) by simp
  qed
  moreover have "amtree_delete t n = Some t'"
    using cl st(2,4) E(3,4) ne(2-4) t'(1) by (auto simp: amtree_delete_def Let_def)
  ultimately show ?thesis by blast
qed

section \<open>Deletion\<close>

lemma amtree_delete_ok:
  assumes ok: "amtree_ok t T" and n: "n \<in> set_tree T"
  shows "\<exists>t' T'. amtree_delete t n = Some t' \<and> amtree_ok t' T' \<and>
    inorder T' = remove1 n (inorder T) \<and> (\<forall>b. ky t' b = ky t b) \<and>
    (\<forall>b. b \<notin> set_tree T \<longrightarrow> nodes t' b = nodes t b)"
proof -
  from split_at [OF n] obtain C L R where T: "T = plug C (Node L n R)" by blast
  from ok have t: "tree_at t None (root t) T" "bal_at t T" "keys_sorted t T"
    "count t = of_nat (size T)" by (simp_all add: amtree_ok_def)
  have d: "distinct (inorder T)" using t(3) by (rule keys_sorted_distinct)
  have f: "focus t C n (Node L n R)" using t(1) d unfolding T by (rule focusI)
  have b: "bal_at t (Node L n R)" "ctx_bal t C (height (Node L n R))"
    using t(2) unfolding T bal_at_plug by auto
  let ?xs = "before_hole C @ inorder L @ inorder R @ after_hole C"
  have "\<exists>t'. amtree_delete t n = Some t' \<and>
    rebuilt (set_tree T) ?xs (t\<lparr>count := count t - 1\<rparr>) t'"
  proof (cases "L = Leaf \<or> R = Leaf")
    case True
    then show ?thesis unfolding T by (rule amtree_delete_one_child [OF f b])
  next
    case False
    then obtain RL cr RR where R: "R = Node RL cr RR" by (cases R) auto
    show ?thesis
    proof (cases "RL = Leaf")
      case True
      note up = f [unfolded R True] b [unfolded R True]
      from amtree_delete_right_child_up [OF up] False show ?thesis unfolding T R True by auto
    next
      case rl: False
      show ?thesis unfolding T
        by (rule amtree_delete_successor_up [OF f b _ R rl]) (use False in simp)
    qed
  qed
  then obtain t' T' where t': "amtree_delete t n = Some t'" "tree_at t' None (root t') T'" "bal_at t' T'"
    "inorder T' = ?xs" "only_within (set_tree T) (t\<lparr>count := count t - 1\<rparr>) t'"
    unfolding rebuilt_def by blast
  have i: "inorder T = before_hole C @ inorder L @ n # inorder R @ after_hole C"
    unfolding T inorder_plug by simp
  have xs: "?xs = remove1 n (inorder T)"
    unfolding i using d [unfolded i] by (simp add: remove1_append)
  have k: "\<forall>b. ky t' b = ky t b" using t'(5) by (simp add: only_within_def)
  have "keys_sorted t' T'"
    using t(3) unfolding keys_sorted_def t'(4) i by (auto simp: k sorted_wrt_append cong: map_cong)
  moreover have "size T = Suc (size T')"
    using arg_cong [OF i, of length] arg_cong [OF t'(4), of length] by (simp add: size_length_inorder)
  then have "count t' = of_nat (size T')" using t'(5) t(4) by (simp add: only_within_def)
  ultimately have "amtree_ok t' T'" using t'(2,3) by (simp add: amtree_ok_def)
  with t' k xs show ?thesis by (auto simp: only_within_def)
qed

lemma amtree_find_key_ok:
  assumes "amtree_ok t T"
  shows "amtree_find_key t k = Some (node_with_key t (inorder T) k)"
  using assms amtree_find_from_eq [of t None "root t" T k]
  by (simp add: amtree_ok_def amtree_find_key_def amtree_find_def)

end
