(* ===== verification/AmTreeIndex.thy ===== *)
theory AmTreeIndex
  imports AmTreeDelete
begin

text \<open>
  What a caller of the AVL tree relies on: the contract of an ordered index (a sequence of
  nodes with increasing keys under find, insert and delete), its consequences proved once, and
  the proof that \<^verbatim>\<open>src/libam_tree.c\<close> meets it. The contract is met by \<^verbatim>\<open>amitree_t\<close> as well, in the
  theory AmItree.
\<close>

section \<open>The contract\<close>

text \<open>\<open>valid s xs\<close>: the index \<open>s\<close> is in order and holds the nodes \<open>xs\<close>, the smallest key first.\<close>

locale ordered_index =
  fixes valid :: "'s \<Rightarrow> addr list \<Rightarrow> bool"
    and key_of :: "'s \<Rightarrow> addr \<Rightarrow> u64"
    and find_op :: "'s \<Rightarrow> u64 \<Rightarrow> addr option option"
    and insert_op :: "'s \<Rightarrow> addr \<Rightarrow> ('s \<times> addr option) option"
    and delete_op :: "'s \<Rightarrow> addr \<Rightarrow> 's option"
  assumes increasing: "valid s xs \<Longrightarrow> sorted_wrt (<) (map (key_of s) xs)"
    and find_law: "valid s xs \<Longrightarrow> find_op s k = Some (List.find (\<lambda>a. key_of s a = k) xs)"
    and insert_dup: "valid s xs \<Longrightarrow> List.find (\<lambda>a. key_of s a = key_of s n) xs = Some a \<Longrightarrow>
      insert_op s n = Some (s, Some a)"
    and insert_new: "valid s xs \<Longrightarrow> n \<notin> set xs \<Longrightarrow>
      List.find (\<lambda>a. key_of s a = key_of s n) xs = None \<Longrightarrow>
      \<exists>s'. insert_op s n = Some (s', None) \<and> valid s' (insort_key (key_of s) n xs) \<and>
        key_of s' = key_of s"
    and delete_law: "valid s xs \<Longrightarrow> n \<in> set xs \<Longrightarrow>
      \<exists>s'. delete_op s n = Some s' \<and> valid s' (remove1 n xs) \<and> key_of s' = key_of s"

text \<open>Inserting one node after the other, giving up on the first duplicate.\<close>

primrec insert_all :: "('s \<Rightarrow> addr \<Rightarrow> ('s \<times> addr option) option) \<Rightarrow> 's \<Rightarrow> addr list \<Rightarrow> 's option" where
  "insert_all ins s [] = Some s"
| "insert_all ins s (n # ns) =
     do { (s, dup) \<leftarrow> ins s n; if dup = None then insert_all ins s ns else None }"

primrec delete_all :: "('s \<Rightarrow> addr \<Rightarrow> 's option) \<Rightarrow> 's \<Rightarrow> addr list \<Rightarrow> 's option" where
  "delete_all del s [] = Some s"
| "delete_all del s (n # ns) = do { s \<leftarrow> del s n; delete_all del s ns }"

lemma set_insort_key_iff: "set (insort_key f x xs) = insert x (set xs)"
  by (simp add: set_insort_key)

lemma sorted_find_iff:
  fixes f :: "'a \<Rightarrow> 'b :: linorder"
  assumes "sorted_wrt (<) (map f xs)"
  shows "List.find (\<lambda>a. f a = k) xs = Some a \<longleftrightarrow> a \<in> set xs \<and> f a = k"
  using assms
proof (induction xs)
  case (Cons b xs)
  have ne: "f a \<noteq> f b" if "a \<in> set xs" for a
  proof -
    have "f b < f a" using Cons.prems that by simp
    then show ?thesis by simp
  qed
  have "List.find (\<lambda>a. f a = k) xs = Some a \<longleftrightarrow> a \<in> set xs \<and> f a = k"
    using Cons by simp
  then show ?case using ne [of a] by (cases "f b = k") auto
qed simp

lemma sort_key_unique:
  assumes "sorted (map f ys)" and "mset ys = mset xs" and "inj_on f (set xs)"
  shows "sort_key f xs = ys"
  using assms by (intro sort_key_inj_key_eq) simp_all

context ordered_index
begin

lemma valid_distinct: "valid s xs \<Longrightarrow> distinct xs"
  using increasing sorted_wrt_less_distinct by blast

lemma find_iff:
  "valid s xs \<Longrightarrow> find_op s k = Some (Some a) \<longleftrightarrow> a \<in> set xs \<and> key_of s a = k"
  by (simp add: find_law sorted_find_iff increasing)

lemma find_none_iff:
  "valid s xs \<Longrightarrow> find_op s k = Some None \<longleftrightarrow> (\<forall>a \<in> set xs. key_of s a \<noteq> k)"
  by (auto simp: find_law find_None_iff)

lemma find_eqI:
  assumes "valid s xs" and "valid s' ys"
    and "\<And>a. a \<in> set xs \<and> key_of s a = k \<longleftrightarrow> a \<in> set ys \<and> key_of s' a = k'"
  shows "find_op s k = find_op s' k'"
proof (cases "List.find (\<lambda>a. key_of s a = k) xs")
  case None
  then have "List.find (\<lambda>a. key_of s' a = k') ys = None"
    using assms(3) by (auto simp: find_None_iff)
  with None assms(1,2) show ?thesis by (simp add: find_law)
next
  case (Some a)
  then have "find_op s k = Some (Some a)" using assms(1) by (simp add: find_law)
  moreover from this have "find_op s' k' = Some (Some a)"
    using find_iff [OF assms(1)] find_iff [OF assms(2)] assms(3) by blast
  ultimately show ?thesis by simp
qed

text \<open>A lookup after an insertion.\<close>

lemma find_after_insert:
  assumes "valid s xs" and "n \<notin> set xs" and "find_op s (key_of s n) = Some None"
  shows "\<exists>s'. insert_op s n = Some (s', None) \<and> find_op s' (key_of s n) = Some (Some n) \<and>
    (\<forall>k. k \<noteq> key_of s n \<longrightarrow> find_op s' k = find_op s k)"
proof -
  from assms insert_new [of s xs n] obtain s' where
    s': "insert_op s n = Some (s', None)" "valid s' (insort_key (key_of s) n xs)" "key_of s' = key_of s"
    by (auto simp: find_law)
  have "find_op s' (key_of s n) = Some (Some n)"
    using find_iff [OF s'(2)] by (simp add: s'(3) set_insort_key_iff)
  moreover have "find_op s' k = find_op s k" if "k \<noteq> key_of s n" for k
    by (rule find_eqI [OF s'(2) assms(1)]) (use that in \<open>auto simp: s'(3) set_insort_key_iff\<close>)
  ultimately show ?thesis using s'(1) by blast
qed

text \<open>A lookup after a deletion.\<close>

lemma find_after_delete:
  assumes "valid s xs" and "n \<in> set xs"
  shows "\<exists>s'. delete_op s n = Some s' \<and> find_op s' (key_of s n) = Some None \<and>
    (\<forall>k. k \<noteq> key_of s n \<longrightarrow> find_op s' k = find_op s k)"
proof -
  from assms delete_law obtain s' where
    s': "delete_op s n = Some s'" "valid s' (remove1 n xs)" "key_of s' = key_of s" by blast
  have d: "set (remove1 n xs) = set xs - {n}" using valid_distinct [OF assms(1)] by simp
  have "inj_on (key_of s) (set xs)"
    using increasing [OF assms(1)] strict_sorted_iff distinct_map by blast
  then have "find_op s' (key_of s n) = Some None"
    using find_none_iff [OF s'(2)] assms(2) by (auto simp: d s'(3) inj_on_def)
  moreover have "find_op s' k = find_op s k" if "k \<noteq> key_of s n" for k
    by (rule find_eqI [OF s'(2) assms(1)]) (use that in \<open>auto simp: s'(3) d\<close>)
  ultimately show ?thesis using s'(1) by blast
qed

text \<open>Deleting the node just inserted gives the old sequence back.\<close>

lemma delete_after_insert:
  assumes "valid s xs" and "n \<notin> set xs" and "find_op s (key_of s n) = Some None"
  shows "\<exists>s' s''. insert_op s n = Some (s', None) \<and> delete_op s' n = Some s'' \<and> valid s'' xs"
proof -
  from assms insert_new [of s xs n] obtain s' where
    s': "insert_op s n = Some (s', None)" "valid s' (insort_key (key_of s) n xs)"
    by (auto simp: find_law)
  moreover from delete_law [OF s'(2), of n] obtain s'' where
    "delete_op s' n = Some s''" "valid s'' (remove1 n (insort_key (key_of s) n xs))"
    by (auto simp: set_insort_key_iff)
  moreover have "remove1 n (insort_key (key_of s) n xs) = xs"
    using assms(2) by (induction xs) auto
  ultimately show ?thesis by metis
qed

text \<open>Filling an index sorts the nodes by their keys.\<close>

lemma insert_all_valid:
  assumes "valid s xs" and "distinct (map (key_of s) (ns @ xs))"
  shows "\<exists>s' ys. insert_all insert_op s ns = Some s' \<and> valid s' ys \<and> mset ys = mset (ns @ xs) \<and>
    key_of s' = key_of s"
  using assms
proof (induction ns arbitrary: s xs)
  case (Cons n ns)
  have "key_of s n \<notin> key_of s ` set xs" using Cons.prems(2) by auto
  then have "n \<notin> set xs" "List.find (\<lambda>a. key_of s a = key_of s n) xs = None"
    unfolding find_None_iff by (blast, metis imageI)
  with insert_new [OF Cons.prems(1)] obtain s1 where
    s1: "insert_op s n = Some (s1, None)" "valid s1 (insort_key (key_of s) n xs)" "key_of s1 = key_of s"
    by blast
  have "distinct (map (key_of s1) (ns @ insort_key (key_of s) n xs))"
  proof -
    have "mset (ns @ insort_key (key_of s) n xs) = mset ((n # ns) @ xs)"
      by (simp add: mset_insort)
    then have "mset (map (key_of s) (ns @ insort_key (key_of s) n xs)) =
        mset (map (key_of s) ((n # ns) @ xs))" unfolding mset_map by (rule arg_cong)
    from mset_eq_imp_distinct_iff [OF this] Cons.prems(2) show ?thesis unfolding s1(3) by blast
  qed
  from Cons.IH [OF s1(2) this] s1 show ?case by (auto simp: mset_insort)
qed auto

lemma insert_all_sorts:
  assumes "valid s []" and "distinct (map (key_of s) ns)"
  shows "\<exists>s'. insert_all insert_op s ns = Some s' \<and> valid s' (sort_key (key_of s) ns)"
proof -
  from insert_all_valid [OF assms(1), of ns] assms(2) obtain s' ys where
    s': "insert_all insert_op s ns = Some s'" "valid s' ys" "mset ys = mset ns" "key_of s' = key_of s"
    by auto
  from increasing [OF s'(2)] have "sorted (map (key_of s) ys)"
    unfolding s'(4) using strict_sorted_imp_sorted by blast
  with s'(3) assms(2) have "sort_key (key_of s) ns = ys"
    by (intro sort_key_unique) (simp_all add: distinct_map)
  with s' show ?thesis by blast
qed

text \<open>Emptying it, in any order.\<close>

lemma delete_all_valid:
  assumes "valid s xs" and "mset ns = mset xs"
  shows "\<exists>s'. delete_all delete_op s ns = Some s' \<and> valid s' []"
  using assms
proof (induction ns arbitrary: s xs)
  case (Cons n ns)
  then have "n \<in> set xs" by (metis list.set_intros(1) mset_eq_setD)
  with delete_law Cons.prems(1) obtain s1 where
    s1: "delete_op s n = Some s1" "valid s1 (remove1 n xs)" by blast
  have "mset ns = mset (remove1 n xs)" by (simp add: Cons.prems(2) [symmetric])
  with Cons.IH [OF s1(2)] s1(1) show ?case by simp
qed simp

end

section \<open>Replacing a node\<close>

lemma amtree_swap_ok:
  assumes ok: "amtree_ok t T" and a: "a \<in> set_tree T" and b: "b \<notin> set_tree T"
  defines "t' \<equiv> amtree_swap t a b"
  shows "\<exists>T'. amtree_ok t' T' \<and> inorder T' = map (id(a := b)) (inorder T) \<and>
    ky t' b = ky t a \<and> (\<forall>c. c \<noteq> a \<and> c \<noteq> b \<longrightarrow> ky t' c = ky t c) \<and>
    (\<forall>c. c \<notin> insert b (set_tree T) \<longrightarrow> nodes t' c = nodes t c)"
proof -
  from split_at [OF a] obtain C L R where T: "T = plug C (Node L a R)" by blast
  from ok have t: "tree_at t None (root t) T" "bal_at t T" "keys_sorted t T"
    "count t = of_nat (size T)" by (simp_all add: amtree_ok_def)
  have i: "inorder T = before_hole C @ inorder L @ a # inorder R @ after_hole C"
    unfolding T inorder_plug by simp
  have d: "distinct (inorder T)" using t(3) by (rule keys_sorted_distinct)
  have f: "focus t C a (Node L a R)" using t(1) d unfolding T by (rule focusI)
  note fd = focusD [OF f]
  let ?p = "par t a"
  have out: "b \<notin> set (before_hole C)" "b \<notin> set (after_hole C)" "b \<notin> set_tree L" "b \<notin> set_tree R" "a \<noteq> b"
    "a \<notin> set (before_hole C)" "a \<notin> set (after_hole C)" "a \<notin> set_tree L" "a \<notin> set_tree R"
    using b d unfolding T set_tree_plug by (auto simp: inorder_plug)
  have l: "tree_at t (Some a) (lft t a) L" and r: "tree_at t (Some a) (rgt t a) R" using fd(2) by auto
  have lx: "\<forall>x. lft t a = Some x \<longrightarrow> x \<in> set_tree L" and rx: "\<forall>x. rgt t a = Some x \<longrightarrow> x \<in> set_tree R"
    using l r tree_at_root by blast+
  have ne: "?p \<noteq> Some b" "?p \<noteq> Some a" "lft t a \<noteq> Some b" "rgt t a \<noteq> Some b" using lx rx fd(4) out by auto
  let ?Z = "\<lparr>parent = None, left = None, right = None, key = 0, balance = 0\<rparr>"
  let ?t1 = "set_node a ?Z (set_node b (nodes t a) t)"
  let ?t2 = "replace_child ?p a (Some b) ?t1"
  have t': "t' = set_parent_if (rgt t a) (Some b) (set_parent_if (lft t a) (Some b) ?t2)"
    using ne out(5) by (simp add: t'_def amtree_swap_def Let_def)
  have "ctx_at ?t1 C (Some a) ?p" using fd(1) out by simp
  then have "ctx_at ?t2 C (Some b) ?p" by (rule ctx_at_replace) (use fd(3) in auto)
  moreover have "\<forall>x. lft t a = Some x \<longrightarrow> x \<notin> set (before_hole C) \<and> x \<notin> set (after_hole C)"
    "\<forall>x. rgt t a = Some x \<longrightarrow> x \<notin> set (before_hole C) \<and> x \<notin> set (after_hole C)"
    using lx rx fd(3) by auto
  ultimately have ctx: "ctx_at t' C (Some b) ?p" by (simp add: t')
  have dLR: "distinct (inorder L)" "distinct (inorder R)" "set_tree L \<inter> set_tree R = {}"
    using fd(3) by auto
  have po: "\<forall>x. ?p = Some x \<longrightarrow> x \<notin> set_tree L \<and> x \<notin> set_tree R" using fd(4) by auto
  have xo: "\<forall>x. lft t a = Some x \<longrightarrow> x \<notin> set_tree R" "\<forall>x. rgt t a = Some x \<longrightarrow> x \<notin> set_tree L"
    using lx rx dLR(3) by blast+
  have "tree_at ?t2 (Some a) (lft t a) L" "tree_at ?t2 (Some a) (rgt t a) R"
    using l r out po by simp_all
  then have "tree_at t' (Some b) (lft t a) L" "tree_at t' (Some b) (rgt t a) R"
    using xo dLR unfolding t' by auto
  then have "tree_at t' ?p (Some b) (Node L b R)"
    using ne out(5) by (simp add: t')
  with ctx have "tree_at t' None (root t') (plug C (Node L b R))" unfolding tree_at_plug by blast
  moreover have "bal_at t (Node L a R)" "ctx_bal t C (height (Node L a R))"
    using t(2) unfolding T bal_at_plug by auto
  then have "bal_at t' (plug C (Node L b R))"
    unfolding bal_at_plug using out by (auto simp: t')
  moreover have i': "inorder (plug C (Node L b R)) = map (id(a := b)) (inorder T)"
    unfolding i inorder_plug using out
    by (auto intro!: map_idI [symmetric] simp flip: set_inorder)
  have k: "ky t' b = ky t a" "\<forall>c. c \<noteq> a \<and> c \<noteq> b \<longrightarrow> ky t' c = ky t c"
    using out by (simp_all add: t')
  have km: "map (ky t') (map (id(a := b)) (inorder T)) = map (ky t) (inorder T)"
    using k b by (auto simp flip: set_inorder)
  have "keys_sorted t' (plug C (Node L b R))"
    using t(3) unfolding keys_sorted_def i' km .
  moreover have "size (plug C (Node L b R)) = size T"
    using arg_cong [OF i', of length] by (simp add: size_length_inorder)
  then have "count t' = of_nat (size (plug C (Node L b R)))" using t(4) by (simp add: t')
  ultimately have "amtree_ok t' (plug C (Node L b R))" by (simp add: amtree_ok_def)
  moreover have "\<forall>c. c \<notin> insert b (set_tree T) \<longrightarrow> ?p \<noteq> Some c \<and> lft t a \<noteq> Some c \<and> rgt t a \<noteq> Some c \<and> c \<noteq> a"
    using lx rx fd(4) unfolding T set_tree_plug by auto
  then have "\<forall>c. c \<notin> insert b (set_tree T) \<longrightarrow> nodes t' c = nodes t c" by (simp add: t')
  ultimately show ?thesis using i' k by blast
qed

section \<open>The height\<close>

lemma bal_at_height_bound: "bal_at t T \<Longrightarrow> 2 ^ (height T div 2) \<le> size1 T"
proof (induction T)
  case (Node L a R)
  define m where "m = min (height L) (height R)"
  have "2 ^ (m div 2) \<le> (2 :: nat) ^ (height L div 2)" "2 ^ (m div 2) \<le> (2 :: nat) ^ (height R div 2)"
    by (auto intro!: power_increasing div_le_mono simp: m_def)
  moreover have "2 ^ (height L div 2) \<le> size1 L" "2 ^ (height R div 2) \<le> size1 R"
    using Node by simp_all
  ultimately have "2 ^ (m div 2) \<le> size1 L" "2 ^ (m div 2) \<le> size1 R"
    using order_trans by blast+
  then have "2 * 2 ^ (m div 2) \<le> size1 (Node L a R)" by simp
  moreover have "height (Node L a R) \<le> m + 2" using Node.prems by (auto simp: m_def)
  then have "height (Node L a R) div 2 \<le> Suc (m div 2)" by presburger
  then have "2 ^ (height (Node L a R) div 2) \<le> (2 :: nat) ^ Suc (m div 2)"
    by (rule power_increasing) simp
  ultimately show ?case by simp
qed simp

section \<open>The tree meets the contract\<close>

text \<open>The tree \<open>t\<close> is valid and holds the nodes \<open>xs\<close>, in the order of their keys.\<close>

definition amtree_holds :: "amtree \<Rightarrow> addr list \<Rightarrow> bool" where
  "amtree_holds t xs \<longleftrightarrow> (\<exists>T. amtree_ok t T \<and> inorder T = xs)"

interpretation avl: ordered_index amtree_holds "\<lambda>t. \<lambda>a. ky t a" amtree_find_key amtree_insert amtree_delete
proof unfold_locales
  fix t xs
  assume "amtree_holds t xs"
  then obtain T where T: "amtree_ok t T" "inorder T = xs" by (auto simp: amtree_holds_def)
  then show "sorted_wrt (<) (map (\<lambda>a. ky t a) xs)" by (auto simp: amtree_ok_def keys_sorted_def)
  show "amtree_find_key t k = Some (List.find (\<lambda>a. ky t a = k) xs)" for k
    using amtree_find_key_ok [OF T(1)] T(2) by (simp add: node_with_key_def)
  show "amtree_insert t n = Some (t, Some a)"
    if "List.find (\<lambda>a. ky t a = ky t n) xs = Some a" for n a
    using amtree_insert_existing [OF T(1)] that T(2) by (simp add: node_with_key_def)
  show "\<exists>s'. amtree_insert t n = Some (s', None) \<and>
      amtree_holds s' (insort_key (\<lambda>a. ky t a) n xs) \<and> (\<lambda>a. ky s' a) = (\<lambda>a. ky t a)"
    if "n \<notin> set xs" "List.find (\<lambda>a. ky t a = ky t n) xs = None" for n
  proof -
    have "n \<notin> set_tree T" using that(1) T(2) by auto
    from amtree_insert_new [OF T(1) _ this] that(2) T(2) obtain t' T' where
      "amtree_insert t n = Some (t', None)" "amtree_ok t' T'" "inorder T' = insort_key (ky t) n xs"
      "\<forall>b. ky t' b = ky t b" by (auto simp: node_with_key_def)
    then show ?thesis unfolding amtree_holds_def by auto
  qed
  show "\<exists>s'. amtree_delete t n = Some s' \<and> amtree_holds s' (remove1 n xs) \<and>
      (\<lambda>a. ky s' a) = (\<lambda>a. ky t a)" if "n \<in> set xs" for n
  proof -
    have "n \<in> set_tree T" using that T(2) by auto
    from amtree_delete_ok [OF T(1) this] T(2) show ?thesis unfolding amtree_holds_def by fastforce
  qed
qed

lemma avl_init: "amtree_holds (amtree_init t) []"
  by (auto simp: amtree_holds_def amtree_ok_def amtree_init_def keys_sorted_def intro!: exI [of _ Leaf])

section \<open>Properties of the tree\<close>

text \<open>
  C1. \<open>amtree_insert\<close> returns on every valid tree that does not hold the node yet. If a node has
  the key already, that node is returned and nothing is changed; otherwise the tree is valid
  again (links, balances, order, count), holds the new node at its place in the key order and
  every other node as before, and no node outside the tree and no key has been written.
\<close>

theorem amtree_insert_correct:
  assumes "amtree_holds t xs" and "n \<notin> set xs"
  shows "case List.find (\<lambda>a. ky t a = ky t n) xs of
      Some a \<Rightarrow> amtree_insert t n = Some (t, Some a)
    | None \<Rightarrow> \<exists>t'. amtree_insert t n = Some (t', None) \<and>
        amtree_holds t' (insort_key (\<lambda>a. ky t a) n xs) \<and> (\<forall>b. ky t' b = ky t b) \<and>
        (\<forall>b. b \<notin> insert n (set xs) \<longrightarrow> nodes t' b = nodes t b)"
proof -
  from assms(1) obtain T where T: "amtree_ok t T" "inorder T = xs" by (auto simp: amtree_holds_def)
  then have set: "set_tree T = set xs" by auto
  show ?thesis
  proof (cases "List.find (\<lambda>a. ky t a = ky t n) xs")
    case None
    then have "node_with_key t (inorder T) (ky t n) = None" by (simp add: node_with_key_def T(2))
    from amtree_insert_new [OF T(1) this] assms(2) obtain t' T' where
      "amtree_insert t n = Some (t', None)" "amtree_ok t' T'" "inorder T' = insort_key (ky t) n xs"
      "\<forall>b. ky t' b = ky t b" "\<forall>b. b \<notin> insert n (set xs) \<longrightarrow> nodes t' b = nodes t b"
      unfolding set T(2) by blast
    with None show ?thesis unfolding amtree_holds_def by auto
  next
    case (Some a)
    with amtree_insert_existing [OF T(1), of n a] T(2) show ?thesis by (simp add: node_with_key_def)
  qed
qed

text \<open>
  C2. \<open>amtree_delete\<close> of a node of a valid tree returns, whatever the node's children; the tree
  is valid again and holds exactly the other nodes, in the same order, and no node outside the
  tree and no key has been written.
\<close>

theorem amtree_delete_correct:
  assumes "amtree_holds t xs" and "n \<in> set xs"
  shows "\<exists>t'. amtree_delete t n = Some t' \<and> amtree_holds t' (remove1 n xs) \<and>
    (\<forall>b. ky t' b = ky t b) \<and> (\<forall>b. b \<notin> set xs \<longrightarrow> nodes t' b = nodes t b)"
proof -
  from assms(1) obtain T where T: "amtree_ok t T" "inorder T = xs" by (auto simp: amtree_holds_def)
  then have set: "set_tree T = set xs" by auto
  from amtree_delete_ok [OF T(1), of n] assms(2) show ?thesis
    unfolding amtree_holds_def set T(2) by blast
qed

text \<open>
  \<open>amtree_delete_key\<close> returns on every valid tree: with \<open>NULL\<close> and the tree unchanged when no
  node has the key, else with the node that has it, which is no longer in the tree.
\<close>

theorem amtree_delete_key_correct:
  assumes "amtree_holds t xs"
  shows "case List.find (\<lambda>a. ky t a = k) xs of
      None \<Rightarrow> amtree_delete_key t k = Some (t, None)
    | Some a \<Rightarrow> ky t a = k \<and> (\<exists>t'. amtree_delete_key t k = Some (t', Some a) \<and>
        amtree_holds t' (remove1 a xs) \<and> amtree_find_key t' k = Some None)"
proof -
  have f: "amtree_find_key t k = Some (List.find (\<lambda>a. ky t a = k) xs)"
    using avl.find_law [OF assms] .
  show ?thesis
  proof (cases "List.find (\<lambda>a. ky t a = k) xs")
    case None
    with f show ?thesis by (simp add: amtree_delete_key_def)
  next
    case (Some a)
    then have a: "a \<in> set xs" "ky t a = k" by (auto simp: find_Some_iff in_set_conv_nth)
    from avl.find_after_delete [OF assms a(1)] avl.delete_law [OF assms a(1)] a(2) obtain t' where
      "amtree_delete t a = Some t'" "amtree_holds t' (remove1 a xs)" "amtree_find_key t' k = Some None"
      by auto
    with f Some a(2) show ?thesis by (simp add: amtree_delete_key_def)
  qed
qed

text \<open>
  \<open>amtree_swap\<close> puts a node outside the tree in the place of one inside: the tree is valid
  with the same sequence but for that node, the new node has the old one's key, and nothing
  outside the tree is written but the new node.
\<close>

theorem amtree_swap_correct:
  assumes "amtree_holds t xs" and "a \<in> set xs" and "b \<notin> set xs"
  shows "amtree_holds (amtree_swap t a b) (map (id(a := b)) xs) \<and> ky (amtree_swap t a b) b = ky t a \<and>
    (\<forall>c. c \<notin> insert b (set xs) \<longrightarrow> nodes (amtree_swap t a b) c = nodes t c)"
proof -
  from assms(1) obtain T where T: "amtree_ok t T" "inorder T = xs" by (auto simp: amtree_holds_def)
  then have set: "set_tree T = set xs" by auto
  from amtree_swap_ok [OF T(1), of a b] assms(2,3) show ?thesis
    unfolding amtree_holds_def set T(2) by blast
qed

text \<open>
  Filling an empty tree with nodes of different keys and then deleting them one by one, in any
  order, never fails: after the insertions the tree holds the nodes sorted by key, after the
  deletions it is empty.
\<close>

theorem amtree_fill_drain:
  assumes "distinct (map (\<lambda>a. ky t a) ns)" and "mset ms = mset ns"
  shows "\<exists>t1 t2. insert_all amtree_insert (amtree_init t) ns = Some t1 \<and>
    amtree_holds t1 (sort_key (\<lambda>a. ky t a) ns) \<and>
    delete_all amtree_delete t1 ms = Some t2 \<and> amtree_is_empty t2"
proof -
  have k: "(\<lambda>a. ky (amtree_init t) a) = (\<lambda>a. ky t a)" by (simp add: amtree_init_def)
  from avl.insert_all_sorts [OF avl_init [of t], of ns] assms(1) obtain t1 where
    t1: "insert_all amtree_insert (amtree_init t) ns = Some t1"
      "amtree_holds t1 (sort_key (\<lambda>a. ky t a) ns)" unfolding k by blast
  from avl.delete_all_valid [OF t1(2), of ms] assms(2) obtain t2 where
    t2: "delete_all amtree_delete t1 ms = Some t2" "amtree_holds t2 []" by auto
  from t2(2) obtain T where T: "amtree_ok t2 T" "inorder T = []" by (auto simp: amtree_holds_def)
  from T(2) have "T = Leaf" by (cases T) auto
  with T(1) have "amtree_is_empty t2" by (simp add: amtree_ok_def amtree_is_empty_def)
  with t1 t2(1) show ?thesis by blast
qed

text \<open>A run of insertions and deletions, and the nodes that are in the tree after it, in the order of their keys.\<close>

datatype tree_op = Insert addr | Delete addr

fun run_tree :: "tree_op list \<Rightarrow> amtree \<Rightarrow> amtree option" where
  "run_tree [] t = Some t"
| "run_tree (Insert n # ops) t = do { (t, dup) \<leftarrow> amtree_insert t n; run_tree ops t }"
| "run_tree (Delete n # ops) t = do { t \<leftarrow> amtree_delete t n; run_tree ops t }"

fun nodes_after :: "(addr \<Rightarrow> u64) \<Rightarrow> tree_op list \<Rightarrow> addr list \<Rightarrow> addr list option" where
  "nodes_after k [] xs = Some xs"
| "nodes_after k (Insert n # ops) xs =
     (if n \<in> set xs then None else nodes_after k ops (if k n \<in> k ` set xs then xs else insort_key k n xs))"
| "nodes_after k (Delete n # ops) xs = (if n \<in> set xs then nodes_after k ops (remove1 n xs) else None)"

lemma run_tree_ok:
  "amtree_holds t xs \<Longrightarrow> nodes_after (ky t) ops xs = Some ys \<Longrightarrow> \<exists>t'. run_tree ops t = Some t' \<and> amtree_holds t' ys"
proof (induction ops arbitrary: t xs)
  case (Cons op ops)
  show ?case
  proof (cases op)
    case (Insert n)
    with Cons.prems have n: "n \<notin> set xs"
      "nodes_after (ky t) ops (if ky t n \<in> ky t ` set xs then xs else insort_key (ky t) n xs) = Some ys" by (simp_all split: if_splits)
    from Cons.prems(1) obtain T where T: "amtree_ok t T" "inorder T = xs" by (auto simp: amtree_holds_def)
    then have set: "set_tree T = set xs" by auto
    show ?thesis
    proof (cases "node_with_key t xs (ky t n)")
      case None
      then have new: "ky t n \<notin> ky t ` set xs" by (auto simp: node_with_key_def find_None_iff)
      have "node_with_key t (inorder T) (ky t n) = None" "n \<notin> set_tree T" using None n(1) T(2) set by simp_all
      from amtree_insert_new [OF T(1) this] obtain t' T' where
        t': "amtree_insert t n = Some (t', None)" "amtree_ok t' T'" "inorder T' = insort_key (ky t) n xs" "\<forall>b. ky t' b = ky t b"
        unfolding T(2) by blast
      from t'(4) have k: "ky t' = ky t" by (simp add: fun_eq_iff)
      have "amtree_holds t' (insort_key (ky t) n xs)" unfolding amtree_holds_def using t'(2,3) by blast
      from Cons.IH [OF this] n(2) new show ?thesis using t'(1) k Insert by simp
    next
      case (Some a)
      then have old: "ky t n \<in> ky t ` set xs" by (auto simp: node_with_key_def find_Some_iff) (metis image_eqI nth_mem)
      from amtree_insert_existing [OF T(1), of n a] Some T(2) have "amtree_insert t n = Some (t, Some a)" by simp
      then show ?thesis using Cons.IH [OF Cons.prems(1)] n(2) old Insert by simp
    qed
  next
    case (Delete n)
    with Cons.prems have n: "n \<in> set xs" "nodes_after (ky t) ops (remove1 n xs) = Some ys" by (simp_all split: if_splits)
    from Cons.prems(1) obtain T where T: "amtree_ok t T" "inorder T = xs" by (auto simp: amtree_holds_def)
    have "n \<in> set_tree T" using n(1) T(2) by auto
    from amtree_delete_ok [OF T(1) this] obtain t' T' where
      t': "amtree_delete t n = Some t'" "amtree_ok t' T'" "inorder T' = remove1 n xs" "\<forall>b. ky t' b = ky t b" unfolding T(2) by blast
    then have "amtree_holds t' (remove1 n xs)" "ky t' = ky t" by (auto simp: amtree_holds_def fun_eq_iff)
    then show ?thesis using Cons.IH n(2) t'(1) Delete by simp
  qed
qed simp

text \<open>The root is passed within so many steps to the parent.\<close>

definition above :: "amtree \<Rightarrow> nat \<Rightarrow> addr \<Rightarrow> addr option" where
  "above t n a = ((\<lambda>p. Option.bind p (par t)) ^^ n) (Some a)"

lemma above_Suc: "above t (Suc n) a = Option.bind (above t n a) (par t)"
  by (simp add: above_def)

lemma above_root: "tree_at t p r T \<Longrightarrow> a \<in> set_tree T \<Longrightarrow> \<exists>n \<le> height T. above t n a = p"
proof (induction T arbitrary: p r)
  case (Node L b R)
  consider "a = b" | "a \<in> set_tree L" | "a \<in> set_tree R" using Node.prems(2) by auto
  then show ?case
  proof cases
    case 1
    then have "above t (Suc 0) a = p" using Node.prems(1) by (simp add: above_def)
    then show ?thesis by (intro exI [of _ "Suc 0"]) simp
  next
    case 2
    with Node obtain n where "n \<le> height L" "above t n a = Some b" by fastforce
    then show ?thesis using Node.prems(1) by (intro exI [of _ "Suc n"]) (simp add: above_Suc)
  next
    case 3
    with Node obtain n where "n \<le> height R" "above t n a = Some b" by fastforce
    then show ?thesis using Node.prems(1) by (intro exI [of _ "Suc n"]) (simp add: above_Suc)
  qed
qed simp

lemma above_none: "above t n a = None \<Longrightarrow> n \<le> m \<Longrightarrow> above t m a = None"
  by (induction m) (auto simp: above_Suc le_Suc_eq)

text \<open>
  C40. Any run of calls of \<open>amtree_insert\<close>, of nodes that are not in the tree, and \<open>amtree_delete\<close>, of nodes that are, after \<open>amtree_init\<close> returns,
  and the tree stays flat: for some \<open>h\<close> with \<open>2 ^ (h div 2) \<le> n + 1\<close>, where \<open>n\<close> is the number of nodes in the tree, the walk over the parents from any
  node in it passes the root within \<open>h\<close> steps. For fewer than \<open>2 ^ 32\<close> nodes these are at most 65 steps.
\<close>

theorem amtree_height_bound:
  assumes "nodes_after (ky t) ops [] = Some xs"
  shows "\<exists>t' h. run_tree ops (amtree_init t) = Some t' \<and> 2 ^ (h div 2) \<le> length xs + 1 \<and>
    (\<forall>a \<in> set xs. above t' h a = None) \<and> (length xs < 2 ^ 32 \<longrightarrow> (\<forall>a \<in> set xs. above t' 65 a = None))"
proof -
  have i: "amtree_holds (amtree_init t) []" unfolding amtree_holds_def
    by (intro exI [of _ Leaf]) (simp add: amtree_ok_def amtree_init_def keys_sorted_def)
  have "ky (amtree_init t) = ky t" by (simp add: amtree_init_def fun_eq_iff)
  with run_tree_ok [OF i, of ops xs] assms obtain t' T where
    t': "run_tree ops (amtree_init t) = Some t'" "amtree_ok t' T" "inorder T = xs" unfolding amtree_holds_def by auto
  have "set_tree T = set xs" "size T = length xs" using t'(3) by (auto simp: length_inorder [symmetric])
  moreover from t'(2) have b: "2 ^ (height T div 2) \<le> size1 T"
    by (intro bal_at_height_bound [of t']) (simp add: amtree_ok_def)
  moreover have up: "above t' m a = None" if "a \<in> set_tree T" "height T \<le> m" for a m
    using above_root [of t' None "root t'" T a] t'(2) that above_none [of t' _ a m] by (auto simp: amtree_ok_def)
  moreover have "height T \<le> 65" if "size T < 2 ^ 32"
  proof -
    have "(2 :: nat) ^ (height T div 2) \<le> 2 ^ 32" using b that by (simp add: size1_size)
    then have "height T div 2 \<le> 32" by (rule power_le_imp_le_exp [rotated]) simp
    then show ?thesis by simp
  qed
  ultimately show ?thesis using t'(1) by (intro exI [of _ t'] exI [of _ "height T"]) (simp add: size1_size)
qed

section \<open>The properties on a concrete tree\<close>

text \<open>
  Nodes 1, 2, 3 with the keys 10, 20, 30 are in the tree, node 2 at the root; node 4 has the key 25
  and node 5 the key 20 and they are not.
\<close>

definition three_nodes :: amtree where
  "three_nodes = \<lparr>root = Some 2, count = 3, nodes = (\<lambda>_. \<lparr>parent = None, left = None, right = None, key = 0, balance = 0\<rparr>)
     (1 := \<lparr>parent = Some 2, left = None, right = None, key = 10, balance = 0\<rparr>,
      2 := \<lparr>parent = None, left = Some 1, right = Some 3, key = 20, balance = 0\<rparr>,
      3 := \<lparr>parent = Some 2, left = None, right = None, key = 30, balance = 0\<rparr>,
      4 := \<lparr>parent = None, left = None, right = None, key = 25, balance = 0\<rparr>,
      5 := \<lparr>parent = None, left = None, right = None, key = 20, balance = 0\<rparr>)\<rparr>"

lemma three_nodes_ok: "amtree_ok three_nodes (Node (Node Leaf 1 Leaf) 2 (Node Leaf 3 Leaf))"
  by (simp add: amtree_ok_def keys_sorted_def three_nodes_def)

lemma three_nodes_holds: "amtree_holds three_nodes [1, 2, 3]"
  unfolding amtree_holds_def by (intro exI conjI, rule three_nodes_ok) simp

lemma three_nodes_keys:
  "ky three_nodes (Suc 0) = 10" "ky three_nodes 1 = 10" "ky three_nodes 2 = 20" "ky three_nodes 3 = 30"
  "ky three_nodes 4 = 25" "ky three_nodes 5 = 20"
  by (simp_all add: three_nodes_def)

theorem amtree_insert_correct_witness:
  "amtree_insert three_nodes 5 = Some (three_nodes, Some 2) \<and>
   (\<exists>t'. amtree_insert three_nodes 4 = Some (t', None) \<and> amtree_holds t' [1, 2, 4, 3])"
  using amtree_insert_correct [OF three_nodes_holds, of 5]
    amtree_insert_correct [OF three_nodes_holds, of 4]
  by (auto simp: three_nodes_keys)

theorem amtree_delete_correct_witness:
  "\<exists>t'. amtree_delete three_nodes 2 = Some t' \<and> amtree_holds t' [1, 3]"
  using amtree_delete_correct [OF three_nodes_holds, of 2] by auto

theorem amtree_delete_key_correct_witness:
  "amtree_delete_key three_nodes 21 = Some (three_nodes, None) \<and>
   (\<exists>t'. amtree_delete_key three_nodes 30 = Some (t', Some 3) \<and> amtree_holds t' [1, 2])"
  using amtree_delete_key_correct [OF three_nodes_holds, of 21]
    amtree_delete_key_correct [OF three_nodes_holds, of 30]
  by (auto simp: three_nodes_keys)

theorem amtree_swap_correct_witness:
  "amtree_holds (amtree_swap three_nodes 2 4) [1, 4, 3]"
  using amtree_swap_correct [OF three_nodes_holds, of 2 4] by simp

theorem amtree_fill_drain_witness:
  "\<exists>t1 t2. insert_all amtree_insert (amtree_init three_nodes) [3, 1, 4, 2] = Some t1 \<and>
    amtree_holds t1 [1, 2, 4, 3] \<and> delete_all amtree_delete t1 [2, 3, 1, 4] = Some t2 \<and> amtree_is_empty t2"
  using amtree_fill_drain [of three_nodes "[3, 1, 4, 2]" "[2, 3, 1, 4]"]
  by (simp add: three_nodes_keys add_mset_commute)

theorem amtree_height_bound_witness:
  "\<exists>t. run_tree [Insert 3, Insert 5, Insert 1, Insert 4, Delete 5] (amtree_init three_nodes) = Some t \<and>
    (\<forall>a \<in> {1, 3, 4}. above t 5 a = None)"
proof -
  have "nodes_after (ky three_nodes) [Insert 3, Insert 5, Insert 1, Insert 4, Delete 5] [] = Some [1, 4, 3]"
    by (simp add: three_nodes_keys)
  from amtree_height_bound [OF this] obtain t h where
    t: "run_tree [Insert 3, Insert 5, Insert 1, Insert 4, Delete 5] (amtree_init three_nodes) = Some t"
    and h: "2 ^ (h div 2) \<le> length [1 :: addr, 4, 3] + 1" "\<forall>a \<in> set [1, 4, 3]. above t h a = None" by blast
  have "h \<le> 5"
  proof (rule ccontr)
    assume "\<not> h \<le> 5"
    then have "(2 :: nat) ^ 3 \<le> 2 ^ (h div 2)" by (intro power_increasing) simp_all
    with h(1) show False by simp
  qed
  with t h(2) show ?thesis using above_none [of t h _ 5] by auto
qed

end
