(* ===== verification/AmItree.thy ===== *)
theory AmItree
  imports AmTreeIndex AmList
begin

text \<open>
  The iterable tree of \<^verbatim>\<open>src/libam_itree.c\<close>: the AVL tree with its nodes linked, besides, into
  a list in the order of their keys. A node's tree fields and its embedded \<^verbatim>\<open>link\<close> are two
  memories; lookup, rotations and the two rebalancing climbs are the text of
  \<^verbatim>\<open>src/libam_tree.c\<close> with \<^verbatim>\<open>amtree\<close> renamed to \<^verbatim>\<open>amitree\<close> and never touch a link, so that
  they are the functions of AmTree on the first memory.
\<close>

section \<open>State\<close>

text \<open>A link is the anchor \<^verbatim>\<open>ordered_list\<close> of the tree or the \<^verbatim>\<open>link\<close> field of a node.\<close>

datatype ilink = Anchor | LinkOf addr

record amitree =
  tree :: amtree
  links :: "ilink links"

definition cleared_link :: "ilink amlist_head" where
  "cleared_link = \<lparr>lnext = None, lprev = None\<rparr>"

definition amitree_init :: "amitree \<Rightarrow> amitree \<times> amrc" where
  "amitree_init t =
     (let t = t\<lparr>tree := (tree t)\<lparr>root := None, count := 0\<rparr>, links := (links t)(Anchor := cleared_link)\<rparr>;
          t = t\<lparr>links := amlist_init (links t) Anchor\<rparr>
      in (t, AMRC_SUCCESS))"

text \<open>\<^verbatim>\<open>container_of(l, amitree_node_t, link)\<close>; of the anchor it is not a node.\<close>

fun node_of_link :: "ilink \<Rightarrow> addr option" where
  "node_of_link (LinkOf a) = Some a"
| "node_of_link Anchor = None"

text \<open>
  The macros of \<^verbatim>\<open>include/libam/libam_itree.h\<close>. \<open>Some None\<close> is the result \<^verbatim>\<open>NULL\<close>, \<open>None\<close> a
  \<^verbatim>\<open>NULL\<close> link or an anchor taken for a node.
\<close>

definition amitree_is_empty :: "amitree \<Rightarrow> bool" where
  "amitree_is_empty t \<longleftrightarrow> count (tree t) = 0"

definition amitree_smallest :: "amitree \<Rightarrow> addr option option" where
  "amitree_smallest t =
     (if amitree_is_empty t then Some None
      else do { l \<leftarrow> lnext (links t Anchor); a \<leftarrow> node_of_link l; Some (Some a) })"

definition amitree_largest :: "amitree \<Rightarrow> addr option option" where
  "amitree_largest t =
     (if amitree_is_empty t then Some None
      else do { l \<leftarrow> lprev (links t Anchor); a \<leftarrow> node_of_link l; Some (Some a) })"

definition amitree_larger :: "amitree \<Rightarrow> addr option \<Rightarrow> addr option option" where
  "amitree_larger t n =
     (case n of
        None \<Rightarrow> Some None
      | Some n \<Rightarrow>
          (if lnext (links t (LinkOf n)) = Some Anchor then Some None
           else do { l \<leftarrow> lnext (links t (LinkOf n)); a \<leftarrow> node_of_link l; Some (Some a) }))"

definition amitree_smaller :: "amitree \<Rightarrow> addr option \<Rightarrow> addr option option" where
  "amitree_smaller t n =
     (case n of
        None \<Rightarrow> Some None
      | Some n \<Rightarrow>
          (if lprev (links t (LinkOf n)) = Some Anchor then Some None
           else do { l \<leftarrow> lprev (links t (LinkOf n)); a \<leftarrow> node_of_link l; Some (Some a) }))"

section \<open>Operations that do not touch the list\<close>

definition amitree_cmp :: "amitree \<Rightarrow> u64 \<Rightarrow> addr \<Rightarrow> addr option" where
  "amitree_cmp t = amtree_cmp (tree t)"

definition amitree_find :: "amitree \<Rightarrow> amtree_node \<Rightarrow> addr option option" where
  "amitree_find t = amtree_find (tree t)"

definition amitree_find_key :: "amitree \<Rightarrow> u64 \<Rightarrow> addr option option" where
  "amitree_find_key t = amtree_find_key (tree t)"

definition amitree_which_child :: "amitree \<Rightarrow> addr \<Rightarrow> addr \<Rightarrow> child_slot" where
  "amitree_which_child t = amtree_which_child (tree t)"

definition amitree_rotate_right :: "amitree \<Rightarrow> addr \<Rightarrow> addr \<Rightarrow> amitree" where
  "amitree_rotate_right t n cl = t\<lparr>tree := amtree_rotate_right (tree t) n cl\<rparr>"

definition amitree_rotate_left :: "amitree \<Rightarrow> addr \<Rightarrow> addr \<Rightarrow> amitree" where
  "amitree_rotate_left t n cr = t\<lparr>tree := amtree_rotate_left (tree t) n cr\<rparr>"

definition amitree_rotate_right_left :: "amitree \<Rightarrow> addr \<Rightarrow> addr \<Rightarrow> amitree option" where
  "amitree_rotate_right_left t n cr =
     do { u \<leftarrow> amtree_rotate_right_left (tree t) n cr; Some (t\<lparr>tree := u\<rparr>) }"

definition amitree_rotate_left_right :: "amitree \<Rightarrow> addr \<Rightarrow> addr \<Rightarrow> amitree option" where
  "amitree_rotate_left_right t n cl =
     do { u \<leftarrow> amtree_rotate_left_right (tree t) n cl; Some (t\<lparr>tree := u\<rparr>) }"

definition amitree_balance_add :: "amitree \<Rightarrow> addr \<Rightarrow> amitree option" where
  "amitree_balance_add t n = do { u \<leftarrow> amtree_balance_add (tree t) n; Some (t\<lparr>tree := u\<rparr>) }"

definition amitree_balance_del :: "amitree \<Rightarrow> addr \<Rightarrow> amitree option" where
  "amitree_balance_del t p = do { u \<leftarrow> amtree_balance_del (tree t) p; Some (t\<lparr>tree := u\<rparr>) }"

section \<open>Operations on tree and list\<close>

definition amitree_insert :: "amitree \<Rightarrow> addr \<Rightarrow> (amitree \<times> addr option) option" where
  "amitree_insert t n =
     (case root (tree t) of
        None \<Rightarrow>
          do { let u = set_root (Some n) (tree t)\<lparr>count := 1\<rparr>;
               let u = set_balance n 0 (set_right n None (set_left n None (set_parent n None u)));
               ls \<leftarrow> amlist_add (links t) Anchor (LinkOf n);
               Some (t\<lparr>tree := u, links := ls\<rparr>, None) }
      | Some r \<Rightarrow>
          do { found \<leftarrow> amtree_insert_descend (tree t) (ky (tree t) n) r;
               (case found of
                  Inl existing \<Rightarrow> Some (t, Some existing)
                | Inr p \<Rightarrow>
                    do { let u = set_balance n 0 (set_right n None (set_left n None (tree t)));
                         let u = set_parent n (Some p) u;
                         t \<leftarrow> (if ky u n < ky u p then
                                 do { ls \<leftarrow> amlist_add_tail (links t) (LinkOf p) (LinkOf n);
                                      Some (t\<lparr>tree := set_left p (Some n) u, links := ls\<rparr>) }
                               else
                                 do { ls \<leftarrow> amlist_add (links t) (LinkOf p) (LinkOf n);
                                      Some (t\<lparr>tree := set_right p (Some n) u, links := ls\<rparr>) });
                         let t = t\<lparr>tree := (tree t)\<lparr>count := count (tree t) + 1\<rparr>\<rparr>;
                         t \<leftarrow> amitree_balance_add t n;
                         Some (t, None) }) })"

text \<open>
  After the two statements on the link the body is the one of \<^verbatim>\<open>amtree_delete\<close>, which starts with
  the counter: the statements work on different memories.
\<close>

definition amitree_delete :: "amitree \<Rightarrow> addr \<Rightarrow> amitree option" where
  "amitree_delete t n =
     do { ls \<leftarrow> amlist_del (links t) (LinkOf n);
          let ls = ls(LinkOf n := cleared_link);
          u \<leftarrow> amtree_delete (tree t) n;
          Some (t\<lparr>tree := u, links := ls\<rparr>) }"

definition amitree_delete_key :: "amitree \<Rightarrow> u64 \<Rightarrow> (amitree \<times> addr option) option" where
  "amitree_delete_key t k =
     do { targ \<leftarrow> amitree_find_key t k;
          (case targ of
             None \<Rightarrow> Some (t, None)
           | Some a \<Rightarrow> do { t \<leftarrow> amitree_delete t a; Some (t, Some a) }) }"

text \<open>
  \<^verbatim>\<open>memcpy\<close> and \<^verbatim>\<open>memset\<close> move the link with the node; its two neighbours are then pointed at it.
  The statements on the tree fields are the ones of \<^verbatim>\<open>amtree_swap\<close>.
\<close>

definition amitree_swap :: "amitree \<Rightarrow> addr \<Rightarrow> addr \<Rightarrow> amitree option" where
  "amitree_swap t to_remove to_insert =
     do { let ls = (links t)(LinkOf to_insert := links t (LinkOf to_remove));
          let ls = ls(LinkOf to_remove := cleared_link);
          nxt \<leftarrow> lnext (ls (LinkOf to_insert));
          let ls = set_prev nxt (Some (LinkOf to_insert)) ls;
          prv \<leftarrow> lprev (ls (LinkOf to_insert));
          let ls = set_next prv (Some (LinkOf to_insert)) ls;
          Some (t\<lparr>tree := amtree_swap (tree t) to_remove to_insert, links := ls\<rparr>) }"

section \<open>The invariant\<close>

text \<open>The tree is valid, holds the nodes \<open>xs\<close> in key order, and the list is exactly that sequence.\<close>

definition amitree_holds :: "amitree \<Rightarrow> addr list \<Rightarrow> bool" where
  "amitree_holds t xs \<longleftrightarrow> amtree_holds (tree t) xs \<and> dlist (links t) Anchor (map LinkOf xs)"

lemma amitree_init_holds: "amitree_holds (fst (amitree_init t)) []"
  using avl_init [of "tree t"] dlist_init
  by (simp add: amitree_holds_def amitree_init_def amtree_init_def Let_def)

lemma amitree_insert_existing:
  assumes "amitree_holds t xs" and "List.find (\<lambda>a. ky (tree t) a = ky (tree t) n) xs = Some a"
  shows "amitree_insert t n = Some (t, Some a)"
proof -
  from assms(1) obtain T where T: "amtree_ok (tree t) T" "inorder T = xs"
    by (auto simp: amitree_holds_def amtree_holds_def)
  with assms(2) have f: "node_with_key (tree t) (inorder T) (ky (tree t) n) = Some a"
    by (simp add: node_with_key_def)
  then have "T \<noteq> Leaf" by auto
  with T(1) obtain r where r: "root (tree t) = Some r" by (cases T) (auto simp: amtree_ok_def)
  with T f have "amtree_insert_descend (tree t) (ky (tree t) n) r = Some (Inl a)"
    using amtree_insert_descend_eq [of "tree t" None r T "ky (tree t) n"] by (simp add: amtree_ok_def)
  with r show ?thesis by (simp add: amitree_insert_def)
qed

text \<open>The link goes in next to the parent, which is the neighbour in the key order.\<close>

lemma link_at_free_place:
  assumes pl: "free_place u k T q C" and h: "dlist ls Anchor (map LinkOf (inorder T))"
    and n: "n \<notin> set_tree T" and k: "ky u n = k"
  shows "\<exists>ls'. (if ky u n < ky u q then amlist_add_tail ls (LinkOf q) (LinkOf n)
      else amlist_add ls (LinkOf q) (LinkOf n)) = Some ls' \<and>
    dlist ls' Anchor (map LinkOf (insort_key (\<lambda>a. ky u a) n (inorder T)))"
proof -
  have i: "inorder T = before_hole C @ after_hole C"
    using pl inorder_plug [of C Leaf] by (simp add: free_place_def)
  have s: "insort_key (\<lambda>a. ky u a) n (inorder T) = before_hole C @ n # after_hole C"
    unfolding i by (rule insort_key_middle) (use pl k in \<open>simp_all add: free_place_def\<close>)
  have n': "LinkOf n \<notin> set (Anchor # map LinkOf (inorder T))" using n by auto
  from pl consider (L) S D where "C = InLeft q S # D" | (R) S D where "C = InRight q S # D"
    by (auto simp: free_place_def)
  then show ?thesis
  proof cases
    case L
    have "ky u n < ky u q" using pl k L by (simp add: free_place_def)
    with amlist_add_before [of ls Anchor "map LinkOf (before_hole D)" "LinkOf q"
        "map LinkOf (inorder S @ after_hole D)" "LinkOf n"] h n'
    show ?thesis unfolding s unfolding i L by auto
  next
    case R
    have "\<not> ky u n < ky u q" using pl k R by (auto simp: free_place_def)
    with amlist_add_after [of ls Anchor "map LinkOf (before_hole D @ inorder S)" "LinkOf q"
        "map LinkOf (after_hole D)" "LinkOf n"] h n'
    show ?thesis unfolding s unfolding i R by auto
  qed
qed

lemma amitree_insert_new:
  assumes h: "amitree_holds t xs" and n: "n \<notin> set xs"
    and no: "List.find (\<lambda>a. ky (tree t) a = ky (tree t) n) xs = None"
  shows "\<exists>t'. amitree_insert t n = Some (t', None) \<and>
    amitree_holds t' (insort_key (\<lambda>a. ky (tree t) a) n xs) \<and>
    (\<lambda>a. ky (tree t') a) = (\<lambda>a. ky (tree t) a)"
proof -
  from h obtain T where T: "amtree_ok (tree t) T" "inorder T = xs" and ls: "dlist (links t) Anchor (map LinkOf xs)"
    by (auto simp: amitree_holds_def amtree_holds_def)
  from avl.insert_new [of "tree t" xs n] h n no obtain u' where
    u': "amtree_insert (tree t) n = Some (u', None)"
      "amtree_holds u' (insort_key (\<lambda>a. ky (tree t) a) n xs)" "(\<lambda>a. ky u' a) = (\<lambda>a. ky (tree t) a)"
    by (auto simp: amitree_holds_def)
  have "\<exists>t'. amitree_insert t n = Some (t', None) \<and> tree t' = u' \<and>
    dlist (links t') Anchor (map LinkOf (insort_key (\<lambda>a. ky (tree t) a) n xs))"
  proof (cases "root (tree t)")
    case None
    with T have "xs = []" by (cases T) (auto simp: amtree_ok_def)
    with ls amlist_add_dlist [of "links t" Anchor "[]" "LinkOf n"] obtain ls' where
      "amlist_add (links t) Anchor (LinkOf n) = Some ls'" "dlist ls' Anchor [LinkOf n]" by auto
    with None u'(1) \<open>xs = []\<close> show ?thesis by (auto simp: amitree_insert_def amtree_insert_def Let_def)
  next
    case (Some r)
    from T(1) Some have "tree_at (tree t) None (Some r) T" "keys_sorted (tree t) T"
      by (simp_all add: amtree_ok_def)
    from amtree_insert_descend_eq [OF this, of "ky (tree t) n"] no obtain q C where
      q: "amtree_insert_descend (tree t) (ky (tree t) n) r = Some (Inr q)"
        "free_place (tree t) (ky (tree t) n) T q C"
      by (auto simp: node_with_key_def T(2))
    have "n \<notin> set_tree T" using n T(2) by auto
    from link_at_free_place [OF q(2) _ this refl, of "links t"] ls T(2) obtain ls' where
      l: "(if ky (tree t) n < ky (tree t) q then amlist_add_tail (links t) (LinkOf q) (LinkOf n)
        else amlist_add (links t) (LinkOf q) (LinkOf n)) = Some ls'"
        "dlist ls' Anchor (map LinkOf (insort_key (\<lambda>a. ky (tree t) a) n xs))" by auto
    with Some q(1) u'(1) show ?thesis
      by (cases "ky (tree t) n < ky (tree t) q")
        (auto simp: amitree_insert_def amtree_insert_def Let_def amitree_balance_add_def
          dest!: bind_eq_SomeD)
  qed
  then show ?thesis using u' by (auto simp: amitree_holds_def)
qed

lemma cleared_link_frame:
  assumes "dlist ls Anchor (map LinkOf xs)" and "n \<notin> set xs"
  shows "dlist (ls(LinkOf n := c)) Anchor (map LinkOf xs)"
  by (rule iffD2 [OF dlist_cong assms(1)]) (use assms(2) in auto)

lemma amitree_delete_ok:
  assumes h: "amitree_holds t xs" and n: "n \<in> set xs"
  shows "\<exists>t'. amitree_delete t n = Some t' \<and> amitree_holds t' (remove1 n xs) \<and>
    (\<lambda>a. ky (tree t') a) = (\<lambda>a. ky (tree t) a) \<and> links t' (LinkOf n) = cleared_link"
proof -
  have ah: "amtree_holds (tree t) xs" and dl: "dlist (links t) Anchor (map LinkOf xs)"
    using h by (simp_all add: amitree_holds_def)
  from avl.delete_law [OF ah n] obtain u' where
    u': "amtree_delete (tree t) n = Some u'" "amtree_holds u' (remove1 n xs)"
      "(\<lambda>a. ky u' a) = (\<lambda>a. ky (tree t) a)" by blast
  from n obtain ys zs where xs: "xs = ys @ n # zs" by (auto dest: split_list)
  have "n \<notin> set ys \<union> set zs" using avl.valid_distinct [OF ah] xs by auto
  then have r: "remove1 n xs = ys @ zs" "n \<notin> set (ys @ zs)" by (simp_all add: xs remove1_split)
  from amlist_del_dlist [of "links t" Anchor "map LinkOf ys" "LinkOf n" "map LinkOf zs"] dl xs
  obtain ls' where ls': "amlist_del (links t) (LinkOf n) = Some ls'"
    "dlist ls' Anchor (map LinkOf (ys @ zs))" by auto
  have "dlist (ls'(LinkOf n := cleared_link)) Anchor (map LinkOf (remove1 n xs))"
    unfolding r(1) by (rule cleared_link_frame [OF ls'(2) r(2)])
  with u' ls'(1) show ?thesis by (auto simp: amitree_delete_def amitree_holds_def)
qed

interpretation iavl: ordered_index amitree_holds "\<lambda>t. \<lambda>a. ky (tree t) a"
  amitree_find_key amitree_insert amitree_delete
proof unfold_locales
  fix t xs
  assume h: "amitree_holds t xs"
  then have ah: "amtree_holds (tree t) xs" by (simp add: amitree_holds_def)
  show "sorted_wrt (<) (map (\<lambda>a. ky (tree t) a) xs)" by (rule avl.increasing [OF ah])
  show "amitree_find_key t k = Some (List.find (\<lambda>a. ky (tree t) a = k) xs)" for k
    using avl.find_law [OF ah] by (simp add: amitree_find_key_def)
  show "amitree_insert t n = Some (t, Some a)"
    if "List.find (\<lambda>a. ky (tree t) a = ky (tree t) n) xs = Some a" for n a
    by (rule amitree_insert_existing [OF h that])
  show "\<exists>s'. amitree_insert t n = Some (s', None) \<and>
      amitree_holds s' (insort_key (\<lambda>a. ky (tree t) a) n xs) \<and>
      (\<lambda>a. ky (tree s') a) = (\<lambda>a. ky (tree t) a)"
    if "n \<notin> set xs" "List.find (\<lambda>a. ky (tree t) a = ky (tree t) n) xs = None" for n
    by (rule amitree_insert_new [OF h that])
  show "\<exists>s'. amitree_delete t n = Some s' \<and> amitree_holds s' (remove1 n xs) \<and>
      (\<lambda>a. ky (tree s') a) = (\<lambda>a. ky (tree t) a)" if "n \<in> set xs" for n
    using amitree_delete_ok [OF h that] by blast
qed

section \<open>Replacing a node\<close>

lemma chain_fun_upd: "c \<notin> set (a # xs @ [b]) \<Longrightarrow> chain (h(c := v)) a xs b = chain h a xs b"
  by (rule chain_cong) auto

lemma relink:
  assumes h: "dlist h A (ys @ a # zs)" and b: "b \<notin> set (A # ys @ a # zs)"
  shows "\<exists>nxt prv. lnext (h a) = Some nxt \<and> lprev (h a) = Some prv \<and> nxt \<noteq> b \<and>
    dlist (set_next prv (Some b) (set_prev nxt (Some b) (h(b := h a, a := c)))) A (ys @ b # zs)"
proof -
  define nxt prv where "nxt = hd (zs @ [A])" and "prv = last (A # ys)"
  have "dlist h a (zs @ A # ys)" using h by (simp only: dlist_rotate)
  then have np: "lnext (h a) = Some nxt" "lprev (h a) = Some prv"
    using dlist_next [of h a] dlist_prev [of h a] by (cases zs; fastforce simp: nxt_def prv_def)+
  moreover have "nxt \<noteq> b" using b unfolding nxt_def by (cases zs) auto
  moreover have "dlist (set_next prv (Some b) (set_prev nxt (Some b) (h(b := h a, a := c)))) A (ys @ b # zs)"
    using h b np unfolding prv_def nxt_def
    by (cases ys rule: rev_cases; cases zs)
      (auto simp: dlist_def chain_append heap_simps frame_simps chain_fun_upd)
  ultimately show ?thesis by blast
qed

lemma amitree_swap_ok:
  assumes h: "amitree_holds t xs" and a: "a \<in> set xs" and b: "b \<notin> set xs"
  shows "\<exists>t'. amitree_swap t a b = Some t' \<and> amitree_holds t' (map (id(a := b)) xs) \<and>
    ky (tree t') b = ky (tree t) a"
proof -
  have ah: "amtree_holds (tree t) xs" and dl: "dlist (links t) Anchor (map LinkOf xs)"
    using h by (simp_all add: amitree_holds_def)
  from ah obtain T where T: "amtree_ok (tree t) T" "inorder T = xs" by (auto simp: amtree_holds_def)
  then have set: "set_tree T = set xs" by auto
  from amtree_swap_ok [OF T(1), of a b] a b
  have u: "amtree_holds (amtree_swap (tree t) a b) (map (id(a := b)) xs)"
    "ky (amtree_swap (tree t) a b) b = ky (tree t) a"
    unfolding amtree_holds_def set T(2) by blast+
  from a obtain ys zs where xs: "xs = ys @ a # zs" by (auto dest: split_list)
  have "a \<notin> set ys \<union> set zs" "a \<noteq> b" using avl.valid_distinct [OF ah] xs a b by auto
  then have m: "map (id(a := b)) xs = ys @ b # zs" by (auto simp: xs intro!: map_idI)
  from relink [of "links t" Anchor "map LinkOf ys" "LinkOf a" "map LinkOf zs" "LinkOf b" cleared_link] dl b
  obtain nxt prv where np: "lnext (links t (LinkOf a)) = Some nxt" "lprev (links t (LinkOf a)) = Some prv"
    "nxt \<noteq> LinkOf b"
    "dlist (set_next prv (Some (LinkOf b)) (set_prev nxt (Some (LinkOf b))
       ((links t)(LinkOf b := links t (LinkOf a), LinkOf a := cleared_link)))) Anchor
       (map LinkOf (ys @ b # zs))"
    unfolding xs by auto
  then show ?thesis using u m \<open>a \<noteq> b\<close>
    by (simp add: amitree_swap_def amitree_holds_def Let_def heap_simps)
qed

section \<open>Iteration\<close>

lemma amitree_count:
  assumes "amitree_holds t xs"
  shows "count (tree t) = of_nat (length xs)"
proof -
  from assms obtain T where "amtree_ok (tree t) T" "inorder T = xs"
    by (auto simp: amitree_holds_def amtree_holds_def)
  then show ?thesis by (auto simp: amtree_ok_def size_length_inorder)
qed

lemma amitree_is_empty_iff:
  assumes "amitree_holds t xs" and "length xs < 2 ^ 32"
  shows "amitree_is_empty t \<longleftrightarrow> xs = []"
proof -
  have "take_bit 32 (length xs) = length xs" using assms(2) by (rule take_bit_nat_eq_self)
  then have "unat (count (tree t)) = length xs"
    unfolding amitree_count [OF assms(1)] by (simp add: unsigned_of_nat)
  then show ?thesis using amitree_count [OF assms(1)] by (auto simp: amitree_is_empty_def)
qed

lemma dlist_neighbours:
  assumes "dlist h A ys" and "i < length ys"
  shows "lnext (h (ys ! i)) = Some (if Suc i < length ys then ys ! Suc i else A)"
    and "lprev (h (ys ! i)) = Some (if i = 0 then A else ys ! (i - 1))"
proof -
  have "ys = take i ys @ ys ! i # drop (Suc i) ys" using assms(2) by (simp add: id_take_nth_drop)
  with assms(1) have d: "dlist h (ys ! i) (drop (Suc i) ys @ A # take i ys)"
    by (metis dlist_rotate)
  show "lnext (h (ys ! i)) = Some (if Suc i < length ys then ys ! Suc i else A)"
    using dlist_next [OF d] assms(2) by (simp add: hd_append hd_drop_conv_nth)
  show "lprev (h (ys ! i)) = Some (if i = 0 then A else ys ! (i - 1))"
    using dlist_prev [OF d] assms(2) by (cases i) (auto simp: take_Suc_conv_app_nth)
qed

section \<open>Properties\<close>

text \<open>
  C4. \<open>amitree_insert\<close> and \<open>amitree_delete\<close> return on every valid tree and keep tree and list in
  step: the new node's link goes into the ordered list exactly where its key belongs, a duplicate
  changes nothing, a deleted node is out of both and its link is cleared.
\<close>

theorem amitree_update_correct:
  assumes "amitree_holds t xs" and "n \<notin> set xs" and "m \<in> set xs"
  shows "(case List.find (\<lambda>a. ky (tree t) a = ky (tree t) n) xs of
      Some a \<Rightarrow> amitree_insert t n = Some (t, Some a)
    | None \<Rightarrow> \<exists>t'. amitree_insert t n = Some (t', None) \<and>
        amitree_holds t' (insort_key (\<lambda>a. ky (tree t) a) n xs)) \<and>
    (\<exists>t'. amitree_delete t m = Some t' \<and> amitree_holds t' (remove1 m xs) \<and>
        links t' (LinkOf m) = cleared_link)"
  using iavl.insert_dup [OF assms(1)] iavl.insert_new [OF assms(1,2)] amitree_delete_ok [OF assms(1,3)]
  by (auto split: option.split)

text \<open>
  C32. Iteration: in a valid tree of fewer than \<open>2 ^ 32\<close> nodes \<^verbatim>\<open>amitree_smallest\<close> and
  \<^verbatim>\<open>amitree_largest\<close> are the two ends of the key order (\<open>NULL\<close> when it is empty), and
  \<^verbatim>\<open>amitree_larger\<close> and \<^verbatim>\<open>amitree_smaller\<close> step through it to the neighbour, \<open>NULL\<close> at the ends.
\<close>

theorem amitree_iteration:
  assumes "amitree_holds t xs" and "length xs < 2 ^ 32"
  shows "amitree_smallest t = Some (if xs = [] then None else Some (hd xs)) \<and>
    amitree_largest t = Some (if xs = [] then None else Some (last xs)) \<and>
    (\<forall>i < length xs.
       amitree_larger t (Some (xs ! i)) = Some (if Suc i < length xs then Some (xs ! Suc i) else None) \<and>
       amitree_smaller t (Some (xs ! i)) = Some (if i = 0 then None else Some (xs ! (i - 1))))"
proof -
  have d: "dlist (links t) Anchor (map LinkOf xs)" using assms(1) by (simp add: amitree_holds_def)
  note e = amitree_is_empty_iff [OF assms]
  have "amitree_smallest t = Some (if xs = [] then None else Some (hd xs))"
    using dlist_next [OF d] by (cases xs) (simp_all add: amitree_smallest_def e)
  moreover have "amitree_largest t = Some (if xs = [] then None else Some (last xs))"
    using dlist_prev [OF d] by (cases xs rule: rev_cases) (simp_all add: amitree_largest_def e)
  moreover have "amitree_larger t (Some (xs ! i)) = Some (if Suc i < length xs then Some (xs ! Suc i) else None)"
    "amitree_smaller t (Some (xs ! i)) = Some (if i = 0 then None else Some (xs ! (i - 1)))"
    if "i < length xs" for i
    using dlist_neighbours [OF d, of i] that by (auto simp: amitree_larger_def amitree_smaller_def)
  ultimately show ?thesis by blast
qed

text \<open>
  \<open>amitree_swap\<close> puts a node outside the tree in the place of one inside, in the tree and in
  the ordered list.
\<close>

theorem amitree_swap_correct:
  assumes "amitree_holds t xs" and "a \<in> set xs" and "b \<notin> set xs"
  shows "\<exists>t'. amitree_swap t a b = Some t' \<and> amitree_holds t' (map (id(a := b)) xs) \<and>
    ky (tree t') b = ky (tree t) a"
  by (rule amitree_swap_ok [OF assms])

text \<open>
  Nodes of different keys inserted one by one into an initialised tree are visited by the
  ordered list in the order of their keys.
\<close>

theorem amitree_sorts:
  assumes "distinct (map (\<lambda>a. ky (tree t) a) ns)"
  shows "\<exists>t'. insert_all amitree_insert (fst (amitree_init t)) ns = Some t' \<and>
    amlist_for_each_entry (links t') Anchor = Some (map LinkOf (sort_key (\<lambda>a. ky (tree t) a) ns))"
proof -
  have k: "(\<lambda>a. ky (tree (fst (amitree_init t))) a) = (\<lambda>a. ky (tree t) a)"
    by (simp add: amitree_init_def Let_def)
  from iavl.insert_all_sorts [OF amitree_init_holds [of t], of ns] assms show ?thesis
    unfolding k by (auto simp: amitree_holds_def dest: amlist_for_each_dlist)
qed

section \<open>The properties on a concrete tree\<close>

definition three_linked :: amitree where
  "three_linked = \<lparr>tree = three_nodes, links = (\<lambda>_. cleared_link)
     (Anchor := \<lparr>lnext = Some (LinkOf 1), lprev = Some (LinkOf 3)\<rparr>,
      LinkOf 1 := \<lparr>lnext = Some (LinkOf 2), lprev = Some Anchor\<rparr>,
      LinkOf 2 := \<lparr>lnext = Some (LinkOf 3), lprev = Some (LinkOf 1)\<rparr>,
      LinkOf 3 := \<lparr>lnext = Some Anchor, lprev = Some (LinkOf 2)\<rparr>)\<rparr>"

lemma three_linked_holds: "amitree_holds three_linked [1, 2, 3]"
  using three_nodes_holds by (simp add: amitree_holds_def three_linked_def dlist_def)

lemma three_linked_keys: "ky (tree three_linked) a = ky three_nodes a"
  by (simp add: three_linked_def)

theorem amitree_update_correct_witness:
  "(\<exists>t'. amitree_insert three_linked 4 = Some (t', None) \<and> amitree_holds t' [1, 2, 4, 3]) \<and>
   (\<exists>t'. amitree_delete three_linked 2 = Some t' \<and> amitree_holds t' [1, 3])"
  using amitree_update_correct [OF three_linked_holds, of 4 2]
  by (auto simp: three_linked_keys three_nodes_keys)

theorem amitree_iteration_witness:
  "amitree_smallest three_linked = Some (Some 1) \<and> amitree_larger three_linked (Some 3) = Some None"
  using amitree_iteration [OF three_linked_holds] by (auto simp: nth_Cons split: nat.splits)

theorem amitree_swap_correct_witness:
  "\<exists>t'. amitree_swap three_linked 2 4 = Some t' \<and> amitree_holds t' [1, 4, 3]"
  using amitree_swap_correct [OF three_linked_holds, of 2 4] by auto

theorem amitree_sorts_witness:
  "\<exists>t'. insert_all amitree_insert (fst (amitree_init three_linked)) [3, 1, 4, 2] = Some t' \<and>
    amlist_for_each_entry (links t') Anchor = Some [LinkOf 1, LinkOf 2, LinkOf 4, LinkOf 3]"
  using amitree_sorts [of three_linked "[3, 1, 4, 2]"]
  by (simp add: three_linked_keys three_nodes_keys)

end
