(* ===== verification/AmStats.thy ===== *)
theory AmStats
  imports Prelude
begin

text \<open>
  The running statistics of \<^verbatim>\<open>include/libam/libam_stats.h\<close>: minimum, maximum, sum, sum of squares,
  average and count in 64-bit counters, with the halving that protects the sums against
  overflow, and the formatting of \<^verbatim>\<open>src/libam_stats.c\<close>.
\<close>

section \<open>Model\<close>

record amstat_range =
  smax :: u64
  smin :: u64
  ssum :: u64
  ssq :: u64
  savg :: u64
  snum :: u64

abbreviation UINT64_MAX :: u64 where "UINT64_MAX \<equiv> - 1"

definition AMSTAT_MAX_SSQ_VAL :: u64 where "AMSTAT_MAX_SSQ_VAL = 0xFFFFFFFF"

definition amstat_init :: "amstat_range \<Rightarrow> amstat_range" where
  "amstat_init s = s\<lparr>smin := UINT64_MAX, smax := 0, ssum := 0, snum := 0, savg := 0, ssq := 0\<rparr>"

text \<open>\<^verbatim>\<open>u128 = a; u128 += (__uint128_t)b; ... = u128 / 2LLU;\<close>, cut to 64 bits by the assignment.\<close>

definition half_sum :: "u64 \<Rightarrow> u64 \<Rightarrow> u64" where
  "half_sum a b = ucast ((ucast a + ucast b :: 128 word) div 2)"

text \<open>
  The result is \<open>None\<close> when the last statement divides by a zero count.
\<close>

definition amstat_upd :: "amstat_range \<Rightarrow> u64 \<Rightarrow> amstat_range option" where
  "amstat_upd s val =
     (let s = (if smax s < val then s\<lparr>smax := val\<rparr> else s);
          s = (if smin s > val then s\<lparr>smin := val\<rparr> else s);
          (s, square) =
            (if ssq s = UINT64_MAX \<or> val > AMSTAT_MAX_SSQ_VAL then (s\<lparr>ssq := UINT64_MAX\<rparr>, 0)
             else (s, val * val));
          s = (if snum s = UINT64_MAX \<or> ssum s + val < ssum s \<or> ssq s + square < ssq s then
                 (let s = s\<lparr>ssum := half_sum (ssum s) val\<rparr>;
                      s = (if ssq s \<noteq> UINT64_MAX then s\<lparr>ssq := half_sum (ssq s) square\<rparr> else s)
                  in if snum s = UINT64_MAX then s\<lparr>snum := UINT64_MAX div 2 + 1\<rparr>
                     else s\<lparr>snum := (snum s + 1) div 2\<rparr>)
               else s\<lparr>ssum := ssum s + val, ssq := ssq s + square, snum := snum s + 1\<rparr>)
      in if snum s = 0 then None else Some (s\<lparr>savg := ssum s div snum s\<rparr>))"

text \<open>\<^verbatim>\<open>amstat_add\<close> writes to both of its arguments.\<close>

definition halve :: "amstat_range \<Rightarrow> amstat_range" where
  "halve s = s\<lparr>snum := snum s div 2, ssum := ssum s div 2, ssq := ssq s div 2\<rparr>"

definition amstat_add :: "amstat_range \<Rightarrow> amstat_range \<Rightarrow> amstat_range \<times> amstat_range" where
  "amstat_add to from =
     (let to = (if smax to < smax from then to\<lparr>smax := smax from\<rparr> else to);
          to = (if smin to > smin from then to\<lparr>smin := smin from\<rparr> else to);
          (to, from) =
            (if ssq to = UINT64_MAX \<or> ssq from = UINT64_MAX then (to\<lparr>ssq := UINT64_MAX\<rparr>, from)
             else if ssq to + ssq from < ssq to then (halve to, halve from)
             else (to, from));
          to = to\<lparr>ssq := ssq to + ssq from\<rparr>;
          to = to\<lparr>ssum := ssum to + ssum from\<rparr>;
          to = to\<lparr>snum := snum to + snum from\<rparr>;
          to = to\<lparr>savg := (if snum to = 0 then 0 else ssum to div snum to)\<rparr>
      in (to, from))"

text \<open>The text of the format \<^verbatim>\<open>"%15lu\t%15lu\t%15lu\t(%lu)"\<close>.\<close>

definition amstat_text :: "amstat_range \<Rightarrow> string" where
  "amstat_text s =
     pad_left 15 (dec (unat (if smin s = UINT64_MAX then 0 else smin s))) @ [CHR 0x09] @
     pad_left 15 (dec (unat (savg s))) @ [CHR 0x09] @
     pad_left 15 (dec (unat (smax s))) @ [CHR 0x09] @ ''('' @ dec (unat (snum s)) @ '')''"

text \<open>
  The index \<^verbatim>\<open>buf_len - 1\<close> of the last statement is outside the buffer when \<^verbatim>\<open>buf_len\<close> is zero.
\<close>

definition amstat_2str :: "amstat_range \<Rightarrow> string \<Rightarrow> u64 \<Rightarrow> string option" where
  "amstat_2str s buf buf_len =
     do { buf \<leftarrow> snprintf buf (unat buf_len) (amstat_text s);
          if unat (buf_len - 1) < length buf then Some (buf[unat (buf_len - 1) := NUL]) else None }"

lemma amstat_text_no_NUL: "NUL \<notin> set (amstat_text s)"
  by (auto simp: amstat_text_def pad_left_no_NUL dec_no_NUL) (auto simp: NUL_def)

section \<open>Feeding a sequence of values\<close>

fun amstat_upds :: "amstat_range \<Rightarrow> u64 list \<Rightarrow> amstat_range option" where
  "amstat_upds s [] = Some s"
| "amstat_upds s (v # vs) = do { s \<leftarrow> amstat_upd s v; amstat_upds s vs }"

lemma amstat_upds_append:
  "amstat_upds s (vs @ ws) = do { s \<leftarrow> amstat_upds s vs; amstat_upds s ws }"
  by (induction s vs rule: amstat_upds.induct) (auto split: bind_splits)

text \<open>The specification: the statistics of a sequence, in unbounded numbers.\<close>

definition sumN :: "u64 list \<Rightarrow> nat" where "sumN vs = sum_list (map unat vs)"

definition sqsN :: "u64 list \<Rightarrow> nat" where "sqsN vs = sum_list (map (\<lambda>v. unat v * unat v) vs)"

definition maxN :: "u64 list \<Rightarrow> nat" where "maxN vs = foldr max (map unat vs) 0"

definition minN :: "u64 list \<Rightarrow> nat" where "minN vs = foldr min (map unat vs) (2 ^ 64 - 1)"

text \<open>
  The counters hold exactly the statistics of \<open>vs\<close>; \<open>fits\<close> says that they can.
\<close>

definition exact :: "amstat_range \<Rightarrow> u64 list \<Rightarrow> bool" where
  "exact s vs \<longleftrightarrow> unat (snum s) = length vs \<and> unat (ssum s) = sumN vs \<and>
     unat (ssq s) = sqsN vs \<and> unat (smax s) = maxN vs \<and> unat (smin s) = minN vs \<and>
     unat (savg s) = (if vs = [] then 0 else sumN vs div length vs)"

definition fits :: "u64 list \<Rightarrow> bool" where
  "fits vs \<longleftrightarrow> length vs < 2 ^ 64 \<and> sumN vs < 2 ^ 64 \<and> sqsN vs < 2 ^ 64 - 1"

lemma stat_sums [simp]:
  "sumN [] = 0" "sumN (v # vs) = unat v + sumN vs" "sumN (vs @ ws) = sumN vs + sumN ws"
  "sqsN [] = 0" "sqsN (v # vs) = unat v * unat v + sqsN vs" "sqsN (vs @ ws) = sqsN vs + sqsN ws"
  by (simp_all add: sumN_def sqsN_def)

lemma foldr_max_append: "foldr max (xs @ ys) 0 = max (foldr max xs 0) (foldr max ys (0 :: nat))"
  by (induction xs) auto

lemma foldr_min_append:
  "foldr min (xs @ ys) t = min (foldr min xs t) (foldr min ys (t :: nat))"
proof -
  have le: "foldr min ys t \<le> t" for ys by (induction ys) auto
  show ?thesis by (induction xs) (use le in auto)
qed

lemma stat_bounds [simp]:
  "maxN [] = 0" "maxN (vs @ ws) = max (maxN vs) (maxN ws)" "maxN [v] = unat v"
  "minN [] = 2 ^ 64 - 1" "minN (vs @ ws) = min (minN vs) (minN ws)"
  by (simp_all only: maxN_def minN_def map_append foldr_max_append foldr_min_append) simp_all

lemma minN_single [simp]: "minN [v] = unat v"
  using unat_u64_less [of v] by (simp add: minN_def)

lemma not_max_iff: "(a :: u64) \<noteq> UINT64_MAX \<longleftrightarrow> unat a < 2 ^ 64 - 1"
proof -
  have "unat UINT64_MAX = 2 ^ 64 - 1" by (simp add: unsigned_minus_1_eq_mask mask_eq_exp_minus_1)
  with unat_u64_less [of a] show ?thesis
    unfolding word_unat_eq_iff by linarith
qed

lemma amstat_upd_exact:
  assumes e: "exact s vs" and f: "fits (vs @ [v])"
  shows "\<exists>s'. amstat_upd s v = Some s' \<and> exact s' (vs @ [v])"
proof -
  from f have b: "length vs + 1 < 2 ^ 64" "sumN vs + unat v < 2 ^ 64" "sqsN vs + unat v * unat v < 2 ^ 64 - 1"
    by (simp_all add: fits_def)
  have "unat v < 2 ^ 32"
  proof (rule ccontr)
    assume "\<not> unat v < 2 ^ 32"
    then have "(2 ^ 32) * (2 ^ 32) \<le> unat v * unat v" by (intro mult_mono) auto
    with b(3) show False by simp
  qed
  then have v: "\<not> v > AMSTAT_MAX_SSQ_VAL" by (simp add: AMSTAT_MAX_SSQ_VAL_def word_less_nat_alt)
  have sq: "unat (v * v) = unat v * unat v" using b(3) by (intro times_fits) simp
  note e' = e [unfolded exact_def]
  have n: "snum s \<noteq> UINT64_MAX" "ssq s \<noteq> UINT64_MAX"
    using e' b unfolding not_max_iff by auto
  have p: "unat (ssum s + v) = sumN vs + unat v" "\<not> ssum s + v < ssum s"
    "unat (ssq s + v * v) = sqsN vs + unat v * unat v" "\<not> ssq s + v * v < ssq s"
    "unat (snum s + 1) = Suc (length vs)"
    using e' b sq plus_fits [of "ssum s" v] plus_fits [of "ssq s" "v * v"] plus_fits [of "snum s" 1] by auto
  then have nz: "snum s + 1 \<noteq> 0" by (metis nat.distinct(1) unsigned_0)
  let ?s = "\<lparr>smax = max (smax s) v, smin = min (smin s) v, ssum = ssum s + v, ssq = ssq s + v * v,
    savg = (ssum s + v) div (snum s + 1), snum = snum s + 1, \<dots> = more s\<rparr>"
  have "amstat_upd s v = Some ?s"
    using n v p nz by (cases s) (auto simp: amstat_upd_def Let_def max_def min_def)
  moreover have "exact ?s (vs @ [v])"
    using e' p by (auto simp: exact_def unat_div max_def min_def word_le_nat_alt)
  ultimately show ?thesis by blast
qed

lemma amstat_upds_exact:
  assumes "exact s vs" and "fits (vs @ ws)"
  shows "\<exists>s'. amstat_upds s ws = Some s' \<and> exact s' (vs @ ws)"
  using assms
proof (induction ws arbitrary: s vs)
  case (Cons w ws)
  then have "fits (vs @ [w])" by (auto simp: fits_def)
  from amstat_upd_exact [OF Cons.prems(1) this] obtain s' where
    "amstat_upd s w = Some s'" "exact s' (vs @ [w])" by blast
  with Cons.IH [of s' "vs @ [w]"] Cons.prems(2) show ?case by auto
qed auto

lemma amstat_init_exact: "exact (amstat_init s) []"
  by (simp add: exact_def amstat_init_def unsigned_minus_1_eq_mask mask_eq_exp_minus_1)

section \<open>Counters that overflow\<close>

text \<open>A count of zero means that nothing has been added.\<close>

definition count_ok :: "amstat_range \<Rightarrow> bool" where
  "count_ok s \<longleftrightarrow> (snum s = 0 \<longrightarrow> ssum s = 0 \<and> ssq s = 0)"

lemma half_count_zero:
  assumes "(n :: u64) \<noteq> UINT64_MAX"
  shows "(n + 1) div 2 = 0 \<longleftrightarrow> n = 0"
proof -
  have "unat (n + 1) = Suc (unat n)"
    using assms plus_fits(1) [of n 1] by (simp add: not_max_iff)
  then have "unat ((n + 1) div 2) = Suc (unat n) div 2" by (simp add: unat_div)
  moreover have "Suc (unat n) div 2 = 0 \<longleftrightarrow> unat n = 0" by presburger
  ultimately show ?thesis by (simp add: word_unat_eq_iff)
qed

lemma count_wraps: "(n :: u64) \<noteq> UINT64_MAX \<Longrightarrow> n + 1 \<noteq> 0"
  by (metis add.right_neutral add_diff_cancel_right' diff_0)

lemma set_extremes:
  "(if smax s < v then s\<lparr>smax := v\<rparr> else s) = s\<lparr>smax := max (smax s) v\<rparr>"
  "(if smin s > v then s\<lparr>smin := v\<rparr> else s) = s\<lparr>smin := min (smin s) v\<rparr>"
  by (cases s; auto simp: max_def min_def)+

lemma amstat_upd_eq:
  "amstat_upd s v =
     (let skip = (ssq s = UINT64_MAX \<or> v > AMSTAT_MAX_SSQ_VAL);
          q = (if skip then UINT64_MAX else ssq s);
          sq = (if skip then 0 else v * v);
          over = (snum s = UINT64_MAX \<or> ssum s + v < ssum s \<or> q + sq < q);
          n = (if over then if snum s = UINT64_MAX then UINT64_MAX div 2 + 1 else (snum s + 1) div 2
               else snum s + 1);
          m = (if over then half_sum (ssum s) v else ssum s + v);
          q' = (if over then if q \<noteq> UINT64_MAX then half_sum q sq else q else q + sq)
      in if n = 0 then None
         else Some (s\<lparr>smax := max (smax s) v, smin := min (smin s) v, ssum := m, ssq := q',
                      snum := n, savg := m div n\<rparr>))"
  unfolding amstat_upd_def set_extremes by (cases s) (simp add: Let_def)

lemma amstat_upd_total:
  assumes "count_ok s"
  shows "\<exists>s'. amstat_upd s v = Some s' \<and> snum s' \<noteq> 0 \<and> savg s' = ssum s' div snum s' \<and>
    smax s' = max (smax s) v \<and> smin s' = min (smin s) v"
proof -
  have "unat (UINT64_MAX div 2) = (2 ^ 64 - 1) div 2"
    by (simp add: unat_div unsigned_minus_1_eq_mask mask_eq_exp_minus_1)
  then have "UINT64_MAX div 2 \<noteq> UINT64_MAX" unfolding not_max_iff by simp
  then have m: "UINT64_MAX div 2 + 1 \<noteq> (0 :: u64)" by (rule count_wraps)
  show ?thesis
  proof (cases "snum s = 0")
    case True
    with assms have "ssum s = 0" "ssq s = 0" by (simp_all add: count_ok_def)
    with True show ?thesis by (simp add: amstat_upd_eq Let_def)
  next
    case False
    with m count_wraps [of "snum s"] half_count_zero [of "snum s"] show ?thesis
      by (simp add: amstat_upd_eq Let_def)
  qed
qed

section \<open>Properties\<close>

text \<open>
  As long as count, sum and sum of squares of the values fit their counters, feeding the values
  one by one into an initialised statistic returns and leaves exactly their count, sum, sum of
  squares, maximum, minimum and (rounded down) average.
\<close>

theorem amstat_upds_correct:
  assumes "fits vs"
  shows "\<exists>s'. amstat_upds (amstat_init s) vs = Some s' \<and> exact s' vs"
  using amstat_upds_exact [OF amstat_init_exact [of s], of vs] assms by simp

lemma amstat_upds_total_aux:
  assumes "count_ok s" and "savg s = (if snum s = 0 then 0 else ssum s div snum s)"
  shows "\<exists>s'. amstat_upds s vs = Some s' \<and> count_ok s' \<and>
    savg s' = (if snum s' = 0 then 0 else ssum s' div snum s') \<and>
    smax s' = fold max vs (smax s) \<and> smin s' = fold min vs (smin s)"
  using assms
proof (induction vs arbitrary: s)
  case (Cons v vs)
  from amstat_upd_total [OF Cons.prems(1), of v] obtain s1 where
    s1: "amstat_upd s v = Some s1" "snum s1 \<noteq> 0" "savg s1 = ssum s1 div snum s1"
      "smax s1 = max (smax s) v" "smin s1 = min (smin s) v" by blast
  with Cons.IH [of s1] show ?case by (simp add: count_ok_def max.commute min.commute)
qed simp

text \<open>
  Any sequence of updates of an initialised statistic returns, whatever overflows on the way:
  the division is never by zero, the average is the quotient of the counters, and maximum and
  minimum are exact.
\<close>

theorem amstat_upds_total:
  "\<exists>s'. amstat_upds (amstat_init s) vs = Some s' \<and>
    savg s' = (if snum s' = 0 then 0 else ssum s' div snum s') \<and>
    smax s' = fold max vs 0 \<and> smin s' = fold min vs UINT64_MAX"
proof -
  have i: "count_ok (amstat_init s)" "smax (amstat_init s) = 0" "smin (amstat_init s) = UINT64_MAX"
    "savg (amstat_init s) = (if snum (amstat_init s) = 0 then 0 else ssum (amstat_init s) div snum (amstat_init s))"
    by (simp_all add: amstat_init_def count_ok_def)
  from amstat_upds_total_aux [OF i(1,4), of vs] show ?thesis unfolding i(2,3) by blast
qed

text \<open>
  Adding one statistic to another gives the statistic of both sequences together, as long as
  their totals fit, and does not change the one added.
\<close>

theorem amstat_add_correct:
  assumes "exact s vs" and "exact r ws" and "fits (vs @ ws)"
  shows "exact (fst (amstat_add s r)) (vs @ ws) \<and> snd (amstat_add s r) = r"
proof -
  from assms(3) have b: "length vs + length ws < 2 ^ 64" "sumN vs + sumN ws < 2 ^ 64"
    "sqsN vs + sqsN ws < 2 ^ 64 - 1" by (simp_all add: fits_def)
  note e = assms(1,2) [unfolded exact_def]
  have q: "ssq s \<noteq> UINT64_MAX" "ssq r \<noteq> UINT64_MAX" using e b unfolding not_max_iff by auto
  have p: "unat (snum s + snum r) = length vs + length ws" "unat (ssum s + ssum r) = sumN vs + sumN ws"
    "unat (ssq s + ssq r) = sqsN vs + sqsN ws" "\<not> ssq s + ssq r < ssq s"
    using e b plus_fits [of "snum s" "snum r"] plus_fits [of "ssum s" "ssum r"]
      plus_fits [of "ssq s" "ssq r"] by auto
  have z: "snum s + snum r = 0 \<longleftrightarrow> vs @ ws = []"
    using p(1) by (simp add: word_unat_eq_iff)
  have "amstat_add s r = (s\<lparr>smax := max (smax s) (smax r), smin := min (smin s) (smin r),
      ssq := ssq s + ssq r, ssum := ssum s + ssum r, snum := snum s + snum r,
      savg := (if snum s + snum r = 0 then 0 else (ssum s + ssum r) div (snum s + snum r))\<rparr>, r)"
    unfolding amstat_add_def set_extremes using p(4) q by (cases s) (simp add: Let_def)
  then show ?thesis
    using e p z by (auto simp: exact_def unat_div max_def min_def word_le_nat_alt)
qed

text \<open>
  The average can exceed the maximum: the halving on overflow rounds the count down. Three
  times the value \<open>0x7000000000000000\<close> gives a larger average.
\<close>

theorem amstat_average_above_maximum:
  "\<exists>s'. amstat_upds (amstat_init s) (replicate 3 0x7000000000000000) = Some s' \<and>
    smax s' = 0x7000000000000000 \<and> savg s' = 0xA800000000000000 \<and> smax s' < savg s'"
  by (simp add: amstat_init_def numeral_3_eq_3 amstat_upd_eq Let_def AMSTAT_MAX_SSQ_VAL_def half_sum_def)

text \<open>
  \<open>amstat_add\<close> loses the mark of an uncomputable sum of squares: the sum wraps around and the
  next reader takes it for a value.
\<close>

theorem amstat_add_loses_mark:
  assumes "ssq s = UINT64_MAX" and "ssq r \<noteq> 0"
  shows "ssq (fst (amstat_add s r)) = ssq r - 1 \<and> ssq (fst (amstat_add s r)) \<noteq> UINT64_MAX"
  using assms by (simp add: amstat_add_def set_extremes Let_def) 

text \<open>
  An update can divide by zero after \<open>amstat_add\<close>: two statistics of the single value
  \<open>2 ^ 32 - 1\<close>, added, have a count of zero, and the next update of that value traps.
\<close>

theorem amstat_add_then_upd_traps:
  "\<exists>a. amstat_upd (amstat_init s) 0xFFFFFFFF = Some a \<and> snum (fst (amstat_add a a)) = 0 \<and>
    amstat_upd (fst (amstat_add a a)) 0xFFFFFFFF = None"
  by (simp add: amstat_init_def amstat_upd_eq amstat_add_def Let_def AMSTAT_MAX_SSQ_VAL_def halve_def)

text \<open>
  \<open>amstat_2str\<close> leaves a terminated string in every buffer of the given positive length: the
  formatted statistic, cut to what the buffer holds.
\<close>

theorem amstat_2str_correct:
  assumes "0 < n" and "unat n \<le> length buf"
  shows "\<exists>buf'. amstat_2str s buf n = Some buf' \<and> length buf' = length buf \<and>
    cstring buf' = take (unat n - 1) (amstat_text s)"
proof -
  have n: "0 < unat n" using assms(1) by (simp add: word_less_nat_alt)
  let ?w = "take (unat n - 1) (amstat_text s)"
  let ?b = "?w @ NUL # drop (Suc (length ?w)) buf"
  have l: "length ?w \<le> unat n - 1" by simp
  then have "snprintf buf (unat n) (amstat_text s) = Some ?b"
    using n assms(2) by (auto simp: snprintf_def Let_def)
  moreover have m: "unat (n - 1) = unat n - 1"
    by (rule unat_minus_one) (use assms(1) in auto)
  moreover have "length ?b = length buf" using l n assms(2) by auto
  moreover have "NUL \<notin> set ?w" by (auto dest: in_set_takeD simp: amstat_text_no_NUL)
  from cstring_set_NUL [OF this l] have "cstring (?b[unat n - 1 := NUL]) = ?w" .
  ultimately show ?thesis
    using n assms(2) by (simp add: amstat_2str_def)
qed

section \<open>Concrete instances\<close>

lemma fits_345: "fits ([3, 4, 5] @ [3, 4, 5])" "fits [3, 4, 5]"
  by (simp_all add: fits_def)

theorem amstat_upds_correct_witness:
  "\<exists>s'. amstat_upds (amstat_init (undefined :: amstat_range)) [3, 4, 8] = Some s' \<and> savg s' = 5 \<and> ssq s' = 89"
proof -
  have "fits [3, 4, 8]" by (simp add: fits_def)
  from amstat_upds_correct [OF this, of undefined] show ?thesis
    by (auto simp: exact_def word_unat_eq_iff)
qed

theorem amstat_add_correct_witness:
  "\<exists>r. amstat_upds (amstat_init (undefined :: amstat_range)) [3, 4, 5] = Some r \<and>
    exact (fst (amstat_add r r)) ([3, 4, 5] @ [3, 4, 5])"
proof -
  from amstat_upds_exact [OF amstat_init_exact, of "[3, 4, 5]" undefined] fits_345(2) obtain r where
    r: "amstat_upds (amstat_init (undefined :: amstat_range)) [3, 4, 5] = Some r" "exact r [3, 4, 5]"
    unfolding append_Nil by blast
  with amstat_add_correct [OF r(2) r(2) fits_345(1)] show ?thesis by blast
qed

theorem amstat_add_loses_mark_witness:
  "ssq (fst (amstat_add \<lparr>smax = 0, smin = 0, ssum = 0, ssq = UINT64_MAX, savg = 0, snum = 1\<rparr>
     \<lparr>smax = 1, smin = 1, ssum = 1, ssq = 1, savg = 1, snum = 1\<rparr>)) = 0"
  using amstat_add_loses_mark [of "\<lparr>smax = 0, smin = 0, ssum = 0, ssq = UINT64_MAX, savg = 0, snum = 1\<rparr>"
     "\<lparr>smax = 1, smin = 1, ssum = 1, ssq = 1, savg = 1, snum = 1\<rparr>"] by simp

theorem amstat_2str_correct_witness:
  "\<exists>buf'. amstat_2str \<lparr>smax = 7, smin = 7, ssum = 7, ssq = 49, savg = 7, snum = 1\<rparr> (replicate 4 CHR ''x'') 4 =
     Some buf' \<and> length buf' = 4"
  using amstat_2str_correct [of 4 "replicate 4 CHR ''x''" "\<lparr>smax = 7, smin = 7, ssum = 7, ssq = 49, savg = 7, snum = 1\<rparr>"]
  by auto

end
