(* ===== verification/AmStrhash.thy ===== *)
theory AmStrhash
  imports AmHash AmList
begin

text \<open>
  The string hash table of \<^verbatim>\<open>src/libam_strhash.c\<close>: an array of buckets, each a list of entries, and
  a list of spare entries. Every function, with allocation failures, locks, callbacks and the
  memory of links, entries, strings and blocks. The invariant and the proofs are in the theories
  AmStrhashInv and AmStrhashMap.
\<close>

section \<open>State\<close>

text \<open>The links: the anchors of the spare list and of the buckets of an array, and the entries.\<close>

datatype hlink = FreeAnchor | BucketOf addr nat | EntLink addr

record amstrhash_entry =
  ekey :: "addr option"
  key_hash :: u64
  evalue :: "addr option"

text \<open>The callback \<^verbatim>\<open>on_delete\<close> is client code: the model keeps whether there is one, and its calls.\<close>

record amstrhash_attr =
  percent_threashold :: u64
  bucket_threashold :: u64
  attr_free_size :: u64
  on_delete :: bool

text \<open>
  The lock is free, held by \<open>n + 1\<close> readers, or held by a writer. POSIX leaves open what happens when a thread asks again for a
  lock that it has for writing: the call may report \<^verbatim>\<open>EDEADLK\<close> or never return; \<open>reports_deadlock\<close> says which.
\<close>

datatype rwlock = Unlocked | ReadLocked nat | WriteLocked

record amstrhash =
  handle :: addr
  flags :: u32
  attr :: amstrhash_attr
  free_size :: u64
  capacity :: u64
  hsize :: u64
  lock :: rwlock
  reports_deadlock :: bool
  buckets :: addr
  hlinks :: "hlink links"
  bsize :: "addr \<Rightarrow> nat \<Rightarrow> u64"
  ents :: "addr \<Rightarrow> amstrhash_entry"
  strs :: "addr \<rightharpoonup> u8 list"
  mem :: heap
  deleted :: "(addr option \<times> addr option) list"

definition FLAG_FIXED_SIZE :: u32 where "FLAG_FIXED_SIZE = 1"
definition FLAG_USE_LOCK :: u32 where "FLAG_USE_LOCK = 2"
definition FLAG_DUP_KEYS :: u32 where "FLAG_DUP_KEYS = 4"
definition FLAG_OVERWRITE :: u32 where "FLAG_OVERWRITE = 8"
definition FLAG_NO_FREE_CB :: u32 where "FLAG_NO_FREE_CB = 16"

definition has_flag :: "amstrhash \<Rightarrow> u32 \<Rightarrow> bool" where
  "has_flag s f \<longleftrightarrow> flags s AND f \<noteq> 0"

text \<open>Sizes on a 64-bit platform: \<^verbatim>\<open>sizeof\<close> of a bucket, an entry and the table.\<close>

definition BUCKET_BYTES :: u64 where "BUCKET_BYTES = 24"
definition ENTRY_BYTES :: u64 where "ENTRY_BYTES = 40"
definition HASH_BYTES :: u64 where "HASH_BYTES = 144"

section \<open>Memory accesses\<close>

text \<open>
  A read or write of an entry whose block is not live, or of a bucket outside the block of its
  array, is \<open>None\<close>.
\<close>

definition ent_get :: "amstrhash \<Rightarrow> addr \<Rightarrow> amstrhash_entry option" where
  "ent_get s a = (if live (mem s) a = None then None else Some (ents s a))"

definition ent_put :: "amstrhash \<Rightarrow> addr \<Rightarrow> amstrhash_entry \<Rightarrow> amstrhash option" where
  "ent_put s a e = (if live (mem s) a = None then None else Some (s\<lparr>ents := (ents s)(a := e)\<rparr>))"

definition bucket_in :: "amstrhash \<Rightarrow> addr \<times> nat \<Rightarrow> bool" where
  "bucket_in s bkt =
     (case live (mem s) (fst bkt) of
        None \<Rightarrow> False
      | Some sz \<Rightarrow> unat BUCKET_BYTES * (snd bkt + 1) \<le> unat sz)"

definition bsize_get :: "amstrhash \<Rightarrow> addr \<times> nat \<Rightarrow> u64 option" where
  "bsize_get s bkt = (if bucket_in s bkt then Some (bsize s (fst bkt) (snd bkt)) else None)"

definition bsize_put :: "amstrhash \<Rightarrow> addr \<times> nat \<Rightarrow> u64 \<Rightarrow> amstrhash option" where
  "bsize_put s bkt v =
     (if bucket_in s bkt
      then Some (s\<lparr>bsize := (bsize s)(fst bkt := (bsize s (fst bkt))(snd bkt := v))\<rparr>) else None)"

definition anchor :: "addr \<times> nat \<Rightarrow> hlink" where
  "anchor bkt = BucketOf (fst bkt) (snd bkt)"

text \<open>\<^verbatim>\<open>container_of(l, amstrhash_entry_t, link)\<close>.\<close>

fun entry_of :: "hlink \<Rightarrow> addr option" where
  "entry_of (EntLink a) = Some a"
| "entry_of _ = None"

definition list_del :: "amstrhash \<Rightarrow> addr \<Rightarrow> amstrhash option" where
  "list_del s a = do { h \<leftarrow> amlist_del (hlinks s) (EntLink a); Some (s\<lparr>hlinks := h\<rparr>) }"

definition list_add :: "amstrhash \<Rightarrow> hlink \<Rightarrow> addr \<Rightarrow> amstrhash option" where
  "list_add s l a = do { h \<leftarrow> amlist_add (hlinks s) l (EntLink a); Some (s\<lparr>hlinks := h\<rparr>) }"

definition list_first :: "amstrhash \<Rightarrow> hlink \<Rightarrow> addr option" where
  "list_first s l = do { x \<leftarrow> amlist_first (hlinks s) l; entry_of x }"

text \<open>Locks. The return codes of the calls are not looked at: after \<^verbatim>\<open>EDEADLK\<close> the function goes on.\<close>

definition wrlock :: "amstrhash \<Rightarrow> amstrhash option" where
  "wrlock s =
     (if lock s = Unlocked then Some (s\<lparr>lock := WriteLocked\<rparr>) else if reports_deadlock s then Some s else None)"

definition rdlock :: "amstrhash \<Rightarrow> amstrhash option" where
  "rdlock s =
     (case lock s of
        Unlocked \<Rightarrow> Some (s\<lparr>lock := ReadLocked 0\<rparr>)
      | ReadLocked n \<Rightarrow> Some (s\<lparr>lock := ReadLocked (n + 1)\<rparr>)
      | WriteLocked \<Rightarrow> if reports_deadlock s then Some s else None)"

definition unlock :: "amstrhash \<Rightarrow> amstrhash" where
  "unlock s = s\<lparr>lock := (case lock s of ReadLocked (Suc n) \<Rightarrow> ReadLocked n | _ \<Rightarrow> Unlocked)\<rparr>"

definition lock_if :: "bool \<Rightarrow> (amstrhash \<Rightarrow> amstrhash option) \<Rightarrow> amstrhash \<Rightarrow> amstrhash option" where
  "lock_if b f s = (if b \<and> has_flag s FLAG_USE_LOCK then f s else Some s)"

definition unlock_if :: "bool \<Rightarrow> amstrhash \<Rightarrow> amstrhash" where
  "unlock_if b s = (if b \<and> has_flag s FLAG_USE_LOCK then unlock s else s)"

text \<open>\<^verbatim>\<open>strcmp(p, q) == 0\<close> and \<^verbatim>\<open>strdup\<close>.\<close>

definition c_str :: "u8 list \<Rightarrow> u8 list" where
  "c_str bytes = takeWhile (\<lambda>c. c \<noteq> 0) bytes"

definition str_equal :: "amstrhash \<Rightarrow> addr option \<Rightarrow> addr option \<Rightarrow> bool option" where
  "str_equal s p q =
     do { p \<leftarrow> p; q \<leftarrow> q; x \<leftarrow> strs s p; y \<leftarrow> strs s q;
          if 0 \<in> set x \<and> 0 \<in> set y then Some (c_str x = c_str y) else None }"

definition strdup :: "allocator \<Rightarrow> amstrhash \<Rightarrow> addr \<Rightarrow> (addr option \<times> amstrhash) option" where
  "strdup alloc s p =
     do { x \<leftarrow> strs s p;
          if 0 \<notin> set x then None
          else (case malloc alloc (of_nat (length (c_str x) + 1)) (mem s) of
                  (None, h) \<Rightarrow> Some (None, s\<lparr>mem := h\<rparr>)
                | (Some q, h) \<Rightarrow> Some (Some q, s\<lparr>mem := h, strs := (strs s)(q \<mapsto> c_str x @ [0])\<rparr>)) }"

text \<open>\<^verbatim>\<open>free\<close> of a string and of an entry.\<close>

definition free_str :: "addr option \<Rightarrow> amstrhash \<Rightarrow> amstrhash option" where
  "free_str p s =
     do { h \<leftarrow> free_block p (mem s);
          Some (s\<lparr>mem := h, strs := (case p of None \<Rightarrow> strs s | Some a \<Rightarrow> (strs s)(a := None))\<rparr>) }"

definition free_ent :: "addr \<Rightarrow> amstrhash \<Rightarrow> amstrhash option" where
  "free_ent a s = do { h \<leftarrow> free_block (Some a) (mem s); Some (s\<lparr>mem := h\<rparr>) }"

section \<open>The table\<close>

definition amstrhash_bucket :: "amstrhash \<Rightarrow> u64 \<Rightarrow> (addr \<times> nat) option" where
  "amstrhash_bucket s hash_value =
     (if capacity s = 0 then None else Some (buckets s, unat (hash_value mod capacity s)))"

fun init_buckets_from :: "amstrhash \<Rightarrow> nat list \<Rightarrow> amstrhash option" where
  "init_buckets_from s [] = Some s"
| "init_buckets_from s (i # is) =
     do { s \<leftarrow> bsize_put (s\<lparr>hlinks := amlist_init (hlinks s) (BucketOf (buckets s) i)\<rparr>) (buckets s, i) 0;
          init_buckets_from s is }"

definition amstrhash_init_buckets :: "amstrhash \<Rightarrow> amstrhash option" where
  "amstrhash_init_buckets s = init_buckets_from s [0 ..< unat (capacity s)]"

definition DEFAULT_INITIAL_CAPACITY :: u64 where "DEFAULT_INITIAL_CAPACITY = 8"
definition DEFAULT_RESIZE_PERCENT :: u64 where "DEFAULT_RESIZE_PERCENT = 65"
definition DEFAULT_RESIZE_PER_BUCKET :: u64 where "DEFAULT_RESIZE_PER_BUCKET = 4"

definition effective_attr :: "amstrhash_attr option \<Rightarrow> amstrhash_attr" where
  "effective_attr a =
     (let a = (case a of
                 None \<Rightarrow> \<lparr>percent_threashold = 0, bucket_threashold = 0, attr_free_size = 0, on_delete = False\<rparr>
               | Some a \<Rightarrow> a);
          a = (if percent_threashold a \<le> 0 then a\<lparr>percent_threashold := DEFAULT_RESIZE_PERCENT\<rparr> else a)
      in if bucket_threashold a \<le> 1 then a\<lparr>bucket_threashold := DEFAULT_RESIZE_PER_BUCKET\<rparr> else a)"

text \<open>
  \<^verbatim>\<open>amstrhash_init\<close>: the result is \<open>Inl\<close> the memory as it is when \<^verbatim>\<open>NULL\<close> is returned, \<open>Inr\<close> the table
  otherwise. \<open>rc\<close> is the result of \<^verbatim>\<open>pthread_rwlock_init\<close>, \<open>dl\<close> whether its lock reports deadlocks, \<open>sm\<close> the strings the client has.
\<close>

definition amstrhash_init ::
    "allocator \<Rightarrow> int \<Rightarrow> bool \<Rightarrow> heap \<Rightarrow> (addr \<rightharpoonup> u8 list) \<Rightarrow> u64 \<Rightarrow> u32 \<Rightarrow> amstrhash_attr option \<Rightarrow>
     (heap + amstrhash) option" where
  "amstrhash_init alloc rc dl h sm inital_capacity fl at =
     (case malloc alloc HASH_BYTES h of
        (None, h) \<Rightarrow> Some (Inl h)
      | (Some hash, h) \<Rightarrow>
          (let cap = (if inital_capacity < DEFAULT_INITIAL_CAPACITY then DEFAULT_INITIAL_CAPACITY
                      else inital_capacity)
           in if rc \<noteq> 0 then map_option Inl (free_block (Some hash) h)
              else (case malloc alloc (cap * BUCKET_BYTES) h of
                      (None, h) \<Rightarrow> map_option Inl (free_block (Some hash) h)
                    | (Some b, h) \<Rightarrow>
                        do { s \<leftarrow> amstrhash_init_buckets
                               \<lparr>handle = hash, flags = fl, attr = effective_attr at, free_size = 0, capacity = cap,
                                hsize = 0, lock = Unlocked, reports_deadlock = dl, buckets = b,
                                hlinks = (\<lambda>_. \<lparr>lnext = None, lprev = None\<rparr>), bsize = (\<lambda>_ _. 0),
                                ents = (\<lambda>_. \<lparr>ekey = None, key_hash = 0, evalue = None\<rparr>),
                                strs = sm, mem = h, deleted = []\<rparr>;
                             Some (Inr (s\<lparr>hlinks := amlist_init (hlinks s) FreeAnchor\<rparr>)) })))"

section \<open>Entries\<close>

text \<open>The parts of \<^verbatim>\<open>amstrhash_ent_new\<close>: the key, the block, and linking the entry in.\<close>

definition ent_key :: "allocator \<Rightarrow> amstrhash \<Rightarrow> addr option \<Rightarrow> (bool \<times> addr option \<times> amstrhash) option" where
  "ent_key alloc s key =
     (case key of
        Some p \<Rightarrow>
          (if has_flag s FLAG_DUP_KEYS then
             do { (q, s) \<leftarrow> strdup alloc s p; Some (q \<noteq> None, q, s) }
           else Some (True, key, s))
      | None \<Rightarrow> Some (True, key, s))"

definition ent_obtain :: "allocator \<Rightarrow> amstrhash \<Rightarrow> (addr option \<times> amstrhash) option" where
  "ent_obtain alloc s =
     (if \<not> amlist_empty (hlinks s) FreeAnchor then
        do { c_assert (free_size s > 0);
             a \<leftarrow> list_first s FreeAnchor;
             s \<leftarrow> list_del s a;
             Some (Some a, s\<lparr>free_size := free_size s - 1\<rparr>) }
      else
        do { c_assert (free_size s = 0);
             let (p, h) = malloc alloc ENTRY_BYTES (mem s);
             Some (p, s\<lparr>mem := h\<rparr>) })"

definition ent_add :: "amstrhash \<Rightarrow> addr \<times> nat \<Rightarrow> addr \<Rightarrow> amstrhash_entry \<Rightarrow> (amrc \<times> amstrhash) option" where
  "ent_add s bkt a e =
     do { s \<leftarrow> ent_put s a e;
          s \<leftarrow> list_add s (anchor bkt) a;
          n \<leftarrow> bsize_get s bkt;
          s \<leftarrow> bsize_put s bkt (n + 1);
          Some (AMRC_SUCCESS, s\<lparr>hsize := hsize s + 1\<rparr>) }"

definition amstrhash_ent_new ::
    "allocator \<Rightarrow> amstrhash \<Rightarrow> addr \<times> nat \<Rightarrow> addr option \<Rightarrow> u64 \<Rightarrow> addr option \<Rightarrow>
     (amrc \<times> amstrhash) option" where
  "amstrhash_ent_new alloc s bkt key hash_value value =
     do { (ok, key, s) \<leftarrow> ent_key alloc s key;
          if \<not> ok then Some (AMRC_ERROR, s)
          else
            do { (ent, s) \<leftarrow> ent_obtain alloc s;
                 (case ent of
                    None \<Rightarrow>
                      do { s \<leftarrow> (if has_flag s FLAG_DUP_KEYS then free_str key s else Some s);
                           Some (AMRC_ERROR, s) }
                  | Some a \<Rightarrow>
                      ent_add s bkt a \<lparr>ekey = key, key_hash = hash_value, evalue = value\<rparr>) } }"

definition amstrhash_ent_remove :: "amstrhash \<Rightarrow> addr \<Rightarrow> bool \<Rightarrow> bool \<Rightarrow> amstrhash option" where
  "amstrhash_ent_remove s a use_cb use_lock =
     do { s \<leftarrow> lock_if use_lock wrlock s;
          e \<leftarrow> ent_get s a;
          let s = (if on_delete (attr s) \<and> use_cb then s\<lparr>deleted := deleted s @ [(ekey e, evalue e)]\<rparr> else s);
          s \<leftarrow> ent_put s a (e\<lparr>evalue := None\<rparr>);
          s \<leftarrow> (if has_flag s FLAG_DUP_KEYS then free_str (ekey e) s else Some s);
          s \<leftarrow> ent_put s a (e\<lparr>evalue := None, ekey := None\<rparr>);
          s \<leftarrow> list_del s a;
          let s = s\<lparr>hsize := hsize s - 1\<rparr>;
          bkt \<leftarrow> amstrhash_bucket s (key_hash e);
          n \<leftarrow> bsize_get s bkt;
          s \<leftarrow> bsize_put s bkt (n - 1);
          s \<leftarrow> (if free_size s \<ge> attr_free_size (attr s) then free_ent a s
                else do { s \<leftarrow> list_add s FreeAnchor a; Some (s\<lparr>free_size := free_size s + 1\<rparr>) });
          Some (unlock_if use_lock s) }"

section \<open>Growing\<close>

text \<open>The loop that empties one old bucket into the new ones.\<close>

partial_function (option) drain_bucket :: "amstrhash \<Rightarrow> addr \<times> nat \<Rightarrow> amstrhash option" where
  "drain_bucket s bkt =
     (if amlist_empty (hlinks s) (anchor bkt) then Some s
      else do { n \<leftarrow> bsize_get s bkt;
                c_assert (n > 0);
                a \<leftarrow> list_first s (anchor bkt);
                s \<leftarrow> list_del s a;
                s \<leftarrow> bsize_put s bkt (n - 1);
                e \<leftarrow> ent_get s a;
                new \<leftarrow> amstrhash_bucket s (key_hash e);
                s \<leftarrow> list_add s (anchor new) a;
                m \<leftarrow> bsize_get s new;
                s \<leftarrow> bsize_put s new (m + 1);
                drain_bucket s bkt })"

fun drain_buckets :: "amstrhash \<Rightarrow> addr \<Rightarrow> nat list \<Rightarrow> amstrhash option" where
  "drain_buckets s old [] = Some s"
| "drain_buckets s old (i # is) =
     do { s \<leftarrow> drain_bucket s (old, i);
          n \<leftarrow> bsize_get s (old, i);
          c_assert (n = 0);
          drain_buckets s old is }"

definition amstrhash_upsize :: "allocator \<Rightarrow> amstrhash \<Rightarrow> (amrc \<times> amstrhash) option" where
  "amstrhash_upsize alloc s =
     (let old_cap = capacity s; old_bkts = buckets s;
          cap = capacity s * 2;
          (p, h) = malloc alloc (cap * BUCKET_BYTES) (mem s)
      in case p of
           None \<Rightarrow> Some (AMRC_ERROR, s\<lparr>mem := h\<rparr>)
         | Some b \<Rightarrow>
             do { s \<leftarrow> amstrhash_init_buckets (s\<lparr>capacity := cap, buckets := b, mem := h\<rparr>);
                  s \<leftarrow> drain_buckets s old_bkts [0 ..< unat old_cap];
                  h \<leftarrow> free_block (Some old_bkts) (mem s);
                  Some (AMRC_SUCCESS, s\<lparr>mem := h\<rparr>) })"

section \<open>Lookup, insertion and removal\<close>

definition calc_hash :: "amstrhash \<Rightarrow> addr option \<Rightarrow> u64 option" where
  "calc_hash s key =
     (case key of
        None \<Rightarrow> Some (- 1)
      | Some p \<Rightarrow> do { x \<leftarrow> strs s p; (h, n) \<leftarrow> amshash x; Some h })"

text \<open>
  The test of the two search loops. The second comparison is on the key pointers, as in the code:
  an entry with the same hash and another pointer is taken to be found.
\<close>

definition ent_found :: "amstrhash \<Rightarrow> amstrhash_entry \<Rightarrow> u64 \<Rightarrow> addr option \<Rightarrow> bool option" where
  "ent_found s e hash_value key =
     (if key_hash e \<noteq> hash_value then Some False
      else if ekey e \<noteq> key then Some True
      else str_equal s (ekey e) key)"

partial_function (option) search_list ::
    "amstrhash \<Rightarrow> hlink \<Rightarrow> u64 \<Rightarrow> addr option \<Rightarrow> hlink \<Rightarrow> addr option option" where
  "search_list s head hash_value key pos =
     (if pos = head then Some None
      else do { a \<leftarrow> entry_of pos;
                e \<leftarrow> ent_get s a;
                hit \<leftarrow> ent_found s e hash_value key;
                if hit then Some (Some a)
                else do { nxt \<leftarrow> lnext (hlinks s pos); search_list s head hash_value key nxt } })"

definition search_bucket :: "amstrhash \<Rightarrow> addr \<times> nat \<Rightarrow> u64 \<Rightarrow> addr option \<Rightarrow> addr option option" where
  "search_bucket s bkt hash_value key =
     do { c_assert (bucket_in s bkt);
          first \<leftarrow> lnext (hlinks s (anchor bkt));
          search_list s (anchor bkt) hash_value key first }"

definition amstrhash_find_lock :: "amstrhash \<Rightarrow> addr option \<Rightarrow> bool \<Rightarrow> (addr option \<times> amstrhash) option" where
  "amstrhash_find_lock s key use_lock =
     do { hash_value \<leftarrow> calc_hash s key;
          s \<leftarrow> lock_if use_lock rdlock s;
          bkt \<leftarrow> amstrhash_bucket s hash_value;
          out \<leftarrow> search_bucket s bkt hash_value key;
          Some (out, unlock_if use_lock s) }"

definition amstrhash_find :: "amstrhash \<Rightarrow> addr option \<Rightarrow> (addr option \<times> amstrhash) option" where
  "amstrhash_find s key = amstrhash_find_lock s key True"

text \<open>
  The result is the return code and what is written to \<^verbatim>\<open>*old_key\<close>, \<open>None\<close> when nothing is;
  \<open>want_old\<close> says that \<^verbatim>\<open>old_key\<close> is not \<^verbatim>\<open>NULL\<close>.
\<close>

definition should_resize :: "amstrhash \<Rightarrow> u64 \<Rightarrow> bool" where
  "should_resize s n \<longleftrightarrow>
     hsize s + 1 \<ge> percent_threashold (attr s) * capacity s div 100 \<or>
     n + 1 \<ge> bucket_threashold (attr s)"

definition insert_found ::
    "amstrhash \<Rightarrow> addr option \<Rightarrow> addr option \<Rightarrow> bool \<Rightarrow> addr \<Rightarrow> (amrc \<times> addr option \<times> amstrhash) option" where
  "insert_found s key value want_old a =
     (if has_flag s FLAG_OVERWRITE then
        do { e \<leftarrow> ent_get s a;
             let s = (if on_delete (attr s) then s\<lparr>deleted := deleted s @ [(key, evalue e)]\<rparr> else s);
             s \<leftarrow> ent_put s a (e\<lparr>evalue := value\<rparr>);
             Some (AMRC_SUCCESS, None, s) }
      else Some (AMRC_ERROR, if want_old then Some a else None, s))"

definition insert_absent ::
    "allocator \<Rightarrow> amstrhash \<Rightarrow> addr \<times> nat \<Rightarrow> addr option \<Rightarrow> u64 \<Rightarrow> addr option \<Rightarrow>
     (amrc \<times> amstrhash) option" where
  "insert_absent alloc s bkt key hash_value value =
     (if has_flag s FLAG_FIXED_SIZE then amstrhash_ent_new alloc s bkt key hash_value value
      else
        do { n \<leftarrow> bsize_get s bkt;
             if should_resize s n then
               do { (rc, s) \<leftarrow> amstrhash_upsize alloc s;
                    if rc \<noteq> AMRC_SUCCESS then Some (rc, s)
                    else do { bkt \<leftarrow> amstrhash_bucket s hash_value;
                              amstrhash_ent_new alloc s bkt key hash_value value } }
             else amstrhash_ent_new alloc s bkt key hash_value value })"

definition amstrhash_insert ::
    "allocator \<Rightarrow> amstrhash \<Rightarrow> addr option \<Rightarrow> addr option \<Rightarrow> bool \<Rightarrow>
     (amrc \<times> addr option \<times> amstrhash) option" where
  "amstrhash_insert alloc s key value want_old =
     do { hash_value \<leftarrow> calc_hash s key;
          s \<leftarrow> lock_if True wrlock s;
          bkt \<leftarrow> amstrhash_bucket s hash_value;
          found \<leftarrow> search_bucket s bkt hash_value key;
          (rc, old, s) \<leftarrow>
            (case found of
               Some a \<Rightarrow> insert_found s key value want_old a
             | None \<Rightarrow> do { (rc, s) \<leftarrow> insert_absent alloc s bkt key hash_value value; Some (rc, None, s) });
          Some (rc, old, unlock_if True s) }"

definition amstrhash_remove :: "amstrhash \<Rightarrow> addr option \<Rightarrow> (amrc \<times> amstrhash) option" where
  "amstrhash_remove s ent =
     (case ent of
        None \<Rightarrow> Some (AMRC_ERROR, s)
      | Some a \<Rightarrow> do { s \<leftarrow> amstrhash_ent_remove s a True True; Some (AMRC_SUCCESS, s) })"

text \<open>The early return for a key that is not found comes before the unlock.\<close>

definition amstrhash_remove_key :: "amstrhash \<Rightarrow> addr option \<Rightarrow> (amrc \<times> amstrhash) option" where
  "amstrhash_remove_key s key =
     do { s \<leftarrow> lock_if True wrlock s;
          (ent, s) \<leftarrow> amstrhash_find_lock s key False;
          (case ent of
             None \<Rightarrow> Some (AMRC_ERROR, s)
           | Some a \<Rightarrow>
               do { s \<leftarrow> amstrhash_ent_remove s a True False;
                    Some (AMRC_SUCCESS, unlock_if True s) }) }"

section \<open>Destruction and access\<close>

partial_function (option) remove_entries :: "amstrhash \<Rightarrow> hlink \<Rightarrow> bool \<Rightarrow> amstrhash option" where
  "remove_entries s list use_cb =
     (if amlist_empty (hlinks s) list then Some s
      else do { a \<leftarrow> list_first s list;
                s \<leftarrow> amstrhash_ent_remove s a use_cb False;
                remove_entries s list use_cb })"

fun remove_buckets :: "amstrhash \<Rightarrow> bool \<Rightarrow> nat list \<Rightarrow> amstrhash option" where
  "remove_buckets s use_cb [] = Some s"
| "remove_buckets s use_cb (i # is) =
     do { c_assert (bucket_in s (buckets s, i));
          s \<leftarrow> remove_entries s (BucketOf (buckets s) i) use_cb;
          remove_buckets s use_cb is }"

partial_function (option) free_spares :: "amstrhash \<Rightarrow> amstrhash option" where
  "free_spares s =
     (if amlist_empty (hlinks s) FreeAnchor then Some s
      else do { a \<leftarrow> list_first s FreeAnchor;
                s \<leftarrow> list_del s a;
                s \<leftarrow> free_ent a (s\<lparr>free_size := free_size s - 1\<rparr>);
                free_spares s })"

definition amstrhash_term :: "amstrhash \<Rightarrow> amstrhash option" where
  "amstrhash_term s =
     do { s \<leftarrow> lock_if True wrlock s;
          s \<leftarrow> remove_buckets s (\<not> has_flag s FLAG_NO_FREE_CB) [0 ..< unat (capacity s)];
          s \<leftarrow> free_spares s;
          Some (unlock_if True s) }"

definition amstrhash_get_capacity :: "amstrhash \<Rightarrow> u64" where
  "amstrhash_get_capacity s = capacity s"

definition amstrhash_get_size :: "amstrhash \<Rightarrow> u64" where
  "amstrhash_get_size s = hsize s"

definition amstrhash_get_ent_key :: "amstrhash \<Rightarrow> addr \<Rightarrow> addr option option" where
  "amstrhash_get_ent_key s a = map_option ekey (ent_get s a)"

definition amstrhash_get_ent_value :: "amstrhash \<Rightarrow> addr \<Rightarrow> addr option option" where
  "amstrhash_get_ent_value s a = map_option evalue (ent_get s a)"

definition amstrhash_set_ent_value :: "amstrhash \<Rightarrow> addr \<Rightarrow> addr option \<Rightarrow> amstrhash option" where
  "amstrhash_set_ent_value s a value = do { e \<leftarrow> ent_get s a; ent_put s a (e\<lparr>evalue := value\<rparr>) }"

end
