(* ===== verification/AmStrhashInv.thy ===== *)
theory AmStrhashInv
  imports AmStrhash
begin

text \<open>
  The invariant of the hash table, and the proof that growing it keeps every entry.
\<close>

section \<open>Frames\<close>

lemma has_flag_simps [simp]:
  "has_flag (s\<lparr>hlinks := x1\<rparr>) f = has_flag s f" "has_flag (s\<lparr>bsize := x2\<rparr>) f = has_flag s f"
  "has_flag (s\<lparr>ents := x3\<rparr>) f = has_flag s f" "has_flag (s\<lparr>mem := x4\<rparr>) f = has_flag s f"
  "has_flag (s\<lparr>strs := x5\<rparr>) f = has_flag s f" "has_flag (s\<lparr>hsize := x6\<rparr>) f = has_flag s f"
  "has_flag (s\<lparr>free_size := x7\<rparr>) f = has_flag s f" "has_flag (s\<lparr>capacity := x8\<rparr>) f = has_flag s f"
  "has_flag (s\<lparr>buckets := x9\<rparr>) f = has_flag s f" "has_flag (s\<lparr>deleted := x10\<rparr>) f = has_flag s f"
  "has_flag (s\<lparr>lock := x11\<rparr>) f = has_flag s f"
  by (simp_all add: has_flag_def)

lemma bucket_in_simps [simp]:
  "bucket_in (s\<lparr>hlinks := x1\<rparr>) b = bucket_in s b" "bucket_in (s\<lparr>bsize := x2\<rparr>) b = bucket_in s b"
  "bucket_in (s\<lparr>ents := x3\<rparr>) b = bucket_in s b" "bucket_in (s\<lparr>hsize := x6\<rparr>) b = bucket_in s b"
  "bucket_in (s\<lparr>free_size := x7\<rparr>) b = bucket_in s b" "bucket_in (s\<lparr>strs := x8\<rparr>) b = bucket_in s b"
  "bucket_in (s\<lparr>capacity := x9\<rparr>) b = bucket_in s b" "bucket_in (s\<lparr>buckets := x10\<rparr>) b = bucket_in s b"
  "bucket_in (s\<lparr>deleted := x11\<rparr>) b = bucket_in s b"
  by (simp_all add: bucket_in_def)

section \<open>The invariant\<close>

text \<open>\<open>F\<close> gives the entries on every list; the links are those of the entries.\<close>

abbreviation links_of :: "(hlink \<Rightarrow> addr list) \<Rightarrow> hlink \<Rightarrow> hlink list" where
  "links_of F \<equiv> \<lambda>l. map EntLink (F l)"

definition bkts :: "addr \<Rightarrow> nat \<Rightarrow> hlink set" where
  "bkts b c = BucketOf b ` {..<c}"

text \<open>The array \<open>b\<close> has room for \<open>c\<close> buckets and counts the entries of each of them.\<close>

definition array_ok :: "amstrhash \<Rightarrow> (hlink \<Rightarrow> addr list) \<Rightarrow> addr \<Rightarrow> nat \<Rightarrow> bool" where
  "array_ok s F b c \<longleftrightarrow>
     (\<exists>sz. live (mem s) b = Some sz \<and> 24 * c \<le> unat sz) \<and>
     (\<forall>i < c. bsize s b i = of_nat (length (F (BucketOf b i))))"

definition slot :: "amstrhash \<Rightarrow> addr \<Rightarrow> nat" where
  "slot s a = unat (key_hash (ents s a) mod capacity s)"

text \<open>The entries of the table, bucket by bucket.\<close>

definition entries :: "amstrhash \<Rightarrow> (hlink \<Rightarrow> addr list) \<Rightarrow> addr list" where
  "entries s F = concat (map (\<lambda>i. F (BucketOf (buckets s) i)) [0 ..< unat (capacity s)])"

text \<open>An address of an entry block: live, within the address space, and no string is there.\<close>

definition ent_block :: "amstrhash \<Rightarrow> addr \<Rightarrow> bool" where
  "ent_block s a \<longleftrightarrow> live (mem s) a \<noteq> None \<and> strs s a = None \<and> 0 < a \<and> a < 2 ^ 64 \<and> a \<noteq> buckets s"

text \<open>
  With \<^verbatim>\<open>LIBAM_STRHASH_FLAG_DUP_KEYS\<close> an entry owns its key: a string in a live block that no other
  entry has, with the entry's hash.
\<close>

definition keys_owned :: "amstrhash \<Rightarrow> addr list \<Rightarrow> bool" where
  "keys_owned s es \<longleftrightarrow>
     (has_flag s FLAG_DUP_KEYS \<longrightarrow>
        (\<forall>a \<in> set es. \<forall>p. ekey (ents s a) = Some p \<longrightarrow> strs s p \<noteq> None) \<and>
        (\<forall>a \<in> set es. calc_hash s (ekey (ents s a)) = Some (key_hash (ents s a))) \<and>
        (\<forall>a \<in> set es. \<forall>a' \<in> set es. a \<noteq> a' \<longrightarrow> ekey (ents s a) = ekey (ents s a') \<longrightarrow> ekey (ents s a) = None))"

definition table_ok :: "amstrhash \<Rightarrow> (hlink \<Rightarrow> addr list) \<Rightarrow> bool" where
  "table_ok s F \<longleftrightarrow>
     capacity s \<noteq> 0 \<and> 24 * unat (capacity s) < 2 ^ 63 \<and>
     array_ok s F (buckets s) (unat (capacity s)) \<and>
     forest (hlinks s) (insert FreeAnchor (bkts (buckets s) (unat (capacity s)))) (links_of F) \<and>
     (\<forall>i < unat (capacity s). \<forall>a \<in> set (F (BucketOf (buckets s) i)). slot s a = i) \<and>
     hsize s = of_nat (length (entries s F)) \<and> free_size s = of_nat (length (F FreeAnchor)) \<and>
     (\<forall>a \<in> set (entries s F @ F FreeAnchor). ent_block s a) \<and>
     inj_on (\<lambda>a. key_hash (ents s a)) (set (entries s F)) \<and>
     keys_owned s (entries s F) \<and>
     strs s (buckets s) = None \<and> (\<forall>p. strs s p \<noteq> None \<longrightarrow> live (mem s) p \<noteq> None)"

section \<open>Lists of entries\<close>

lemma links_of_upd: "(links_of F)(l := map EntLink xs) = links_of (F(l := xs))"
  by auto

lemma links_of_cons: "(links_of F)(l := EntLink a # map EntLink (F l)) = links_of (F(l := a # F l))"
  by auto

lemma list_add_ok:
  assumes "forest (hlinks s) A (links_of F)" and "l \<in> A" and "EntLink a \<notin> A"
    and "\<forall>m \<in> A. a \<notin> set (F m)"
  shows "\<exists>h. list_add s l a = Some (s\<lparr>hlinks := h\<rparr>) \<and> forest h A (links_of (F(l := a # F l)))"
proof -
  from forest_add [OF assms(1-3)] assms(4) obtain h where
    "amlist_add (hlinks s) l (EntLink a) = Some h" "forest h A ((links_of F)(l := EntLink a # map EntLink (F l)))"
    by auto
  then show ?thesis unfolding links_of_cons by (intro exI [of _ h]) (simp add: list_add_def)
qed

lemma remove1_map_EntLink: "remove1 (EntLink a) (map EntLink xs) = map EntLink (remove1 a xs)"
  by (induction xs) auto

lemma list_del_ok:
  assumes "forest (hlinks s) A (links_of F)" and "l \<in> A" and "a \<in> set (F l)"
  shows "\<exists>h. list_del s a = Some (s\<lparr>hlinks := h\<rparr>) \<and> forest h A (links_of (F(l := remove1 a (F l))))"
proof -
  from forest_del [OF assms(1,2), of "EntLink a"] assms(3) obtain h where
    "amlist_del (hlinks s) (EntLink a) = Some h"
    "forest h A ((links_of F)(l := remove1 (EntLink a) (map EntLink (F l))))"
    by auto
  then show ?thesis unfolding remove1_map_EntLink links_of_upd
    by (intro exI [of _ h]) (simp add: list_del_def)
qed

lemma list_first_ok:
  assumes "forest (hlinks s) A (links_of F)" and "l \<in> A"
  shows "amlist_empty (hlinks s) l \<longleftrightarrow> F l = []"
    and "F l = a # as \<Longrightarrow> list_first s l = Some a"
  using forest_is_empty [OF assms] forest_first [OF assms, of "EntLink a" "map EntLink as"]
  by (auto simp: list_first_def)

lemma forest_entries_disjoint:
  assumes "forest h A (links_of F)" and "l \<in> A" and "m \<in> A" and "l \<noteq> m"
  shows "set (F l) \<inter> set (F m) = {}"
proof -
  have "set (map EntLink (F l)) \<inter> set (map EntLink (F m)) = {}"
    using assms unfolding forest_def by blast
  then show ?thesis by auto
qed

lemma forest_entries_distinct: "forest h A (links_of F) \<Longrightarrow> l \<in> A \<Longrightarrow> distinct (F l)"
  using forest_distinct [of h A "links_of F" l] by (simp add: distinct_map)

lemma bucket_size_get:
  assumes "array_ok s F b c" and "i < c"
  shows "bsize_get s (b, i) = Some (of_nat (length (F (BucketOf b i))))"
    and "bsize_put s (b, i) v = Some (s\<lparr>bsize := (bsize s)(b := (bsize s b)(i := v))\<rparr>)"
    and "bucket_in s (b, i)"
proof -
  from assms obtain sz where "live (mem s) b = Some sz" "24 * c \<le> unat sz"
    by (auto simp: array_ok_def)
  with assms(2) show "bucket_in s (b, i)" by (simp add: bucket_in_def BUCKET_BYTES_def)
  with assms show "bsize_get s (b, i) = Some (of_nat (length (F (BucketOf b i))))"
    "bsize_put s (b, i) v = Some (s\<lparr>bsize := (bsize s)(b := (bsize s b)(i := v))\<rparr>)"
    by (simp_all add: bsize_get_def bsize_put_def array_ok_def)
qed

lemma short_distinct:
  fixes xs :: "addr list"
  assumes "distinct xs" and "\<forall>a \<in> set xs. 0 < a \<and> a < 2 ^ 64"
  shows "length xs < 2 ^ 64"
proof -
  have "set xs \<subseteq> {1 ..< 2 ^ 64}" using assms(2) by auto
  then have "card (set xs) \<le> card {1 ..< (2 :: nat) ^ 64}" by (rule card_mono [rotated]) simp
  then show ?thesis using distinct_card [OF assms(1)] by simp
qed

lemma length_pos_word:
  fixes xs :: "addr list"
  assumes "distinct xs" and "\<forall>a \<in> set xs. 0 < a \<and> a < 2 ^ 64" and "xs \<noteq> []"
  shows "(of_nat (length xs) :: u64) > 0"
proof -
  have "take_bit 64 (length xs) = length xs"
    using short_distinct [OF assms(1,2)] by (rule take_bit_nat_eq_self)
  then have "unat (of_nat (length xs) :: u64) = length xs" by (simp add: unsigned_of_nat)
  with assms(3) show ?thesis by (simp add: word_less_nat_alt)
qed

section \<open>Growing\<close>

text \<open>What the loops over the buckets change: links and bucket sizes.\<close>

definition relinked :: "amstrhash \<Rightarrow> amstrhash \<Rightarrow> bool" where
  "relinked s s' \<longleftrightarrow> s' = s\<lparr>hlinks := hlinks s', bsize := bsize s'\<rparr>"

lemma relinked_refl [simp]: "relinked s s"
  by (simp add: relinked_def)

lemma relinked_trans: "relinked s t \<Longrightarrow> relinked t u \<Longrightarrow> relinked s u"
  by (cases s; cases t; cases u) (simp add: relinked_def)

lemma relinkedD:
  assumes "relinked s s'"
  shows "ents s' = ents s" "mem s' = mem s" "strs s' = strs s" "buckets s' = buckets s" "capacity s' = capacity s"
    "hsize s' = hsize s" "free_size s' = free_size s" "flags s' = flags s" "attr s' = attr s" "lock s' = lock s"
    "deleted s' = deleted s" "slot s' = slot s" "handle s' = handle s" "reports_deadlock s' = reports_deadlock s"
  using assms by (cases s; cases s'; auto simp: relinked_def slot_def fun_eq_iff)+

lemma init_buckets_from_ok:
  assumes "\<forall>i \<in> set is. bucket_in s (buckets s, i)" and "distinct is"
    and "forest (hlinks s) A (links_of F)" and "\<forall>i \<in> set is. BucketOf (buckets s) i \<notin> A"
  shows "\<exists>s' F'. init_buckets_from s is = Some s' \<and> relinked s s' \<and>
    forest (hlinks s') (A \<union> BucketOf (buckets s) ` set is) (links_of F') \<and>
    (\<forall>i \<in> set is. F' (BucketOf (buckets s) i) = [] \<and> bsize s' (buckets s) i = 0) \<and>
    (\<forall>l. l \<notin> BucketOf (buckets s) ` set is \<longrightarrow> F' l = F l) \<and>
    (\<forall>b i. b \<noteq> buckets s \<or> i \<notin> set is \<longrightarrow> bsize s' b i = bsize s b i)"
  using assms
proof (induction "is" arbitrary: s A F)
  case (Cons i "is")
  let ?b = "buckets s" and ?l = "BucketOf (buckets s) i"
  let ?s = "s\<lparr>hlinks := amlist_init (hlinks s) ?l, bsize := (bsize s)(?b := (bsize s ?b)(i := 0))\<rparr>"
  have "\<forall>m \<in> A. ?l \<notin> set (map EntLink (F m))" by auto
  from forest_init [OF Cons.prems(3) this]
  have f: "forest (hlinks ?s) (insert ?l A) (links_of (F(?l := [])))"
    using links_of_upd [of F ?l "[]"] by simp
  have step: "init_buckets_from s (i # is) = init_buckets_from ?s is"
    using Cons.prems(1) by (simp add: bsize_put_def)
  have "\<exists>s' F'. init_buckets_from ?s is = Some s' \<and> relinked ?s s' \<and>
    forest (hlinks s') (insert ?l A \<union> BucketOf (buckets ?s) ` set is) (links_of F') \<and>
    (\<forall>i \<in> set is. F' (BucketOf (buckets ?s) i) = [] \<and> bsize s' (buckets ?s) i = 0) \<and>
    (\<forall>l. l \<notin> BucketOf (buckets ?s) ` set is \<longrightarrow> F' l = (F(?l := [])) l) \<and>
    (\<forall>b i. b \<noteq> buckets ?s \<or> i \<notin> set is \<longrightarrow> bsize s' b i = bsize ?s b i)"
    by (rule Cons.IH [OF _ _ f]) (use Cons.prems in auto)
  then obtain s' F' where s': "init_buckets_from ?s is = Some s'" "relinked ?s s'"
    "forest (hlinks s') (insert ?l A \<union> BucketOf ?b ` set is) (links_of F')"
    "\<forall>i \<in> set is. F' (BucketOf ?b i) = [] \<and> bsize s' ?b i = 0"
    "\<forall>l. l \<notin> BucketOf ?b ` set is \<longrightarrow> F' l = (F(?l := [])) l"
    "\<forall>b i. b \<noteq> ?b \<or> i \<notin> set is \<longrightarrow> bsize s' b i = bsize ?s b i"
    by auto
  have "?l \<notin> BucketOf ?b ` set is" "i \<notin> set is" using Cons.prems(2) by auto
  with s'(5,6) have "F' ?l = []" "bsize s' ?b i = 0" by simp_all
  with s'(4) have new: "\<forall>j \<in> set (i # is). F' (BucketOf ?b j) = [] \<and> bsize s' ?b j = 0" by simp
  have "relinked s s'" using s'(2) by (cases s; cases s') (simp add: relinked_def)
  moreover have "forest (hlinks s') (A \<union> BucketOf ?b ` set (i # is)) (links_of F')"
    using s'(3) by simp
  moreover have "\<forall>l. l \<notin> BucketOf ?b ` set (i # is) \<longrightarrow> F' l = F l" using s'(5) by auto
  moreover have "\<forall>b j. b \<noteq> ?b \<or> j \<notin> set (i # is) \<longrightarrow> bsize s' b j = bsize s b j" using s'(6) by auto
  ultimately show ?case using s'(1) step new by auto
next
  case Nil
  then show ?case by (intro exI [of _ s] exI [of _ F]) simp
qed

text \<open>Emptying one old bucket: its entries go to the front of the new buckets they hash to.\<close>

lemma drain_bucket_ok:
  assumes "forest (hlinks s) A (links_of F)" and "BucketOf old i \<in> A" and "i < c"
    and "array_ok s F old c" and "array_ok s F (buckets s) (unat (capacity s))"
    and "bkts (buckets s) (unat (capacity s)) \<subseteq> A" and "capacity s \<noteq> 0" and "old \<noteq> buckets s"
    and "\<forall>a \<in> set (F (BucketOf old i)). ent_block s a"
  shows "\<exists>s' F'. drain_bucket s (old, i) = Some s' \<and> relinked s s' \<and>
    forest (hlinks s') A (links_of F') \<and> array_ok s' F' old c \<and>
    array_ok s' F' (buckets s) (unat (capacity s)) \<and> F' (BucketOf old i) = [] \<and>
    (\<forall>j < unat (capacity s). F' (BucketOf (buckets s) j) =
       rev (filter (\<lambda>a. slot s a = j) (F (BucketOf old i))) @ F (BucketOf (buckets s) j)) \<and>
    (\<forall>l. l \<noteq> BucketOf old i \<longrightarrow> l \<notin> bkts (buckets s) (unat (capacity s)) \<longrightarrow> F' l = F l)"
  using assms
proof (induction "F (BucketOf old i)" arbitrary: s F)
  case Nil
  then have "drain_bucket s (old, i) = Some s"
    using list_first_ok(1) [OF Nil.prems(1,2)]
    by (subst drain_bucket.simps) (simp add: anchor_def)
  with Nil show ?case by (intro exI [of _ s] exI [of _ F]) (simp flip: Nil.hyps)
next
  case (Cons a as)
  let ?l = "BucketOf old i" and ?b = "buckets s" and ?c = "unat (capacity s)"
  note l = Cons.hyps(2) [symmetric]
  let ?j = "slot s a"
  let ?m = "BucketOf ?b ?j"
  have j: "?j < ?c"
    using Cons.prems(7) unfolding slot_def by (simp add: unat_mod word_less_nat_alt unat_gt_0)
  have mA: "?m \<in> A" "?m \<noteq> ?l" using Cons.prems(6,8) j by (auto simp: bkts_def)
  have blk: "ent_block s a" using Cons.prems(9) l by simp
  note d = forest_entries_distinct [OF Cons.prems(1,2)]
  have pos: "(of_nat (length (F ?l)) :: u64) > 0"
    by (rule length_pos_word [OF d]) (use Cons.prems(9) l in \<open>auto simp: ent_block_def\<close>)
  from list_del_ok [OF Cons.prems(1,2), of a] l obtain h1 where
    h1: "list_del s a = Some (s\<lparr>hlinks := h1\<rparr>)" "forest h1 A (links_of (F(?l := as)))" by auto
  let ?s1 = "s\<lparr>hlinks := h1, bsize := (bsize s)(old := (bsize s old)(i := of_nat (length as)))\<rparr>"
  let ?F1 = "F(?l := as)"
  have out: "EntLink a \<notin> A" "\<forall>m \<in> A. a \<notin> set (?F1 m)"
  proof -
    have "set (links_of F ?l) \<inter> A = {}" using Cons.prems(1,2) unfolding forest_def by blast
    then show "EntLink a \<notin> A" using l by auto
    have "a \<notin> set (F m)" if "m \<in> A" "m \<noteq> ?l" for m
      using forest_entries_disjoint [OF Cons.prems(1,2) that(1)] that(2) l by auto
    then show "\<forall>m \<in> A. a \<notin> set (?F1 m)" using d l by auto
  qed
  have "forest (hlinks ?s1) A (links_of ?F1)" using h1(2) by simp
  from list_add_ok [OF this mA(1) out] obtain h2 where
    h2: "list_add ?s1 ?m a = Some (?s1\<lparr>hlinks := h2\<rparr>)" "forest h2 A (links_of (?F1(?m := a # ?F1 ?m)))"
    by blast
  let ?F2 = "?F1(?m := a # ?F1 ?m)"
  let ?s2 = "s\<lparr>hlinks := h2, bsize := ((bsize s)(old := (bsize s old)(i := of_nat (length as))))
    (?b := (bsize s ?b)(?j := of_nat (Suc (length (F ?m)))))\<rparr>"
  have r: "relinked s ?s2" by (cases s) (simp add: relinked_def)
  note rD = relinkedD [OF r]
  have step: "drain_bucket s (old, i) = drain_bucket ?s2 (old, i)"
  proof -
    have "\<not> amlist_empty (hlinks s) ?l" "list_first s ?l = Some a"
      using list_first_ok [OF Cons.prems(1,2)] l by auto
    moreover have "amstrhash_bucket ?s1 (key_hash (ents s a)) = Some (?b, ?j)"
      using Cons.prems(7) by (simp add: amstrhash_bucket_def slot_def)
    moreover have "bsize_get s (old, i) = Some (of_nat (length (F ?l)))"
      using bucket_size_get(1) [OF Cons.prems(4,3)] .
    moreover have "bucket_in s (old, i)" "bucket_in s (?b, ?j)"
      using bucket_size_get(3) [OF Cons.prems(4,3)] bucket_size_get(3) [OF Cons.prems(5) j] .
    moreover have "bsize s ?b ?j = of_nat (length (F ?m))"
      using Cons.prems(5) j by (simp add: array_ok_def)
    ultimately show ?thesis
      using pos h1(1) h2(1) l blk Cons.prems(8) mA(2)
      by (subst drain_bucket.simps)
        (auto simp: anchor_def bsize_put_def bsize_get_def ent_get_def ent_block_def add.commute)
  qed
  have ao: "array_ok ?s2 ?F2 old c" "array_ok ?s2 ?F2 ?b ?c"
    using Cons.prems(3,4,5,8) j by (auto simp: array_ok_def)
  have "\<exists>s' F'. drain_bucket ?s2 (old, i) = Some s' \<and> relinked ?s2 s' \<and>
    forest (hlinks s') A (links_of F') \<and> array_ok s' F' old c \<and>
    array_ok s' F' (buckets ?s2) (unat (capacity ?s2)) \<and> F' ?l = [] \<and>
    (\<forall>j < unat (capacity ?s2). F' (BucketOf (buckets ?s2) j) =
       rev (filter (\<lambda>a. slot ?s2 a = j) (?F2 ?l)) @ ?F2 (BucketOf (buckets ?s2) j)) \<and>
    (\<forall>l. l \<noteq> ?l \<longrightarrow> l \<notin> bkts (buckets ?s2) (unat (capacity ?s2)) \<longrightarrow> F' l = ?F2 l)"
  proof (rule Cons.hyps(1))
    show "as = ?F2 ?l" using mA(2) by auto
    show "forest (hlinks ?s2) A (links_of ?F2)" using h2(2) by simp
    show "array_ok ?s2 ?F2 old c" by (rule ao(1))
    show "array_ok ?s2 ?F2 (buckets ?s2) (unat (capacity ?s2))" using ao(2) by simp
    show "\<forall>a \<in> set (?F2 ?l). ent_block ?s2 a"
      using Cons.prems(9) l mA(2) by (auto simp: ent_block_def)
  qed (use Cons.prems in simp_all)
  then obtain s' F' where s': "drain_bucket ?s2 (old, i) = Some s'" "relinked ?s2 s'"
    "forest (hlinks s') A (links_of F')" "array_ok s' F' old c" "array_ok s' F' ?b ?c" "F' ?l = []"
    "\<forall>j < ?c. F' (BucketOf ?b j) = rev (filter (\<lambda>a. slot s a = j) (?F2 ?l)) @ ?F2 (BucketOf ?b j)"
    "\<forall>l. l \<noteq> ?l \<longrightarrow> l \<notin> bkts ?b ?c \<longrightarrow> F' l = ?F2 l"
    unfolding rD(4,5,12) by blast
  have "F' (BucketOf ?b k) = rev (filter (\<lambda>a. slot s a = k) (F ?l)) @ F (BucketOf ?b k)" if "k < ?c" for k
    using s'(7) that mA(2) Cons.prems(8) l by (cases "k = ?j") auto
  moreover have "F' l' = F l'" if "l' \<noteq> ?l" "l' \<notin> bkts ?b ?c" for l'
  proof -
    have "l' \<noteq> ?m" using that(2) j by (auto simp: bkts_def)
    then show ?thesis using s'(8) that by auto
  qed
  ultimately show ?case
    unfolding step using s'(1-6) relinked_trans [OF r s'(2)] by blast
qed

lemma drain_buckets_ok:
  assumes "forest (hlinks s) A (links_of F)" and "BucketOf old ` set is \<subseteq> A" and "set is \<subseteq> {..<c}" and "distinct is"
    and "array_ok s F old c" and "array_ok s F (buckets s) (unat (capacity s))"
    and "bkts (buckets s) (unat (capacity s)) \<subseteq> A" and "capacity s \<noteq> 0" and "old \<noteq> buckets s"
    and "\<forall>i \<in> set is. \<forall>a \<in> set (F (BucketOf old i)). ent_block s a"
  shows "\<exists>s' F'. drain_buckets s old is = Some s' \<and> relinked s s' \<and>
    forest (hlinks s') A (links_of F') \<and> array_ok s' F' (buckets s) (unat (capacity s)) \<and>
    (\<forall>j < unat (capacity s). F' (BucketOf (buckets s) j) =
       rev (filter (\<lambda>a. slot s a = j) (concat (map (\<lambda>i. F (BucketOf old i)) is))) @ F (BucketOf (buckets s) j)) \<and>
    (\<forall>l. l \<notin> BucketOf old ` set is \<longrightarrow> l \<notin> bkts (buckets s) (unat (capacity s)) \<longrightarrow> F' l = F l)"
  using assms
proof (induction "is" arbitrary: s F)
  case Nil
  then show ?case by (intro exI [of _ s] exI [of _ F]) simp
next
  case (Cons i "is")
  let ?b = "buckets s" and ?c = "unat (capacity s)"
  have "BucketOf old i \<in> A" "i < c" "\<forall>a \<in> set (F (BucketOf old i)). ent_block s a"
    using Cons.prems by auto
  from drain_bucket_ok [OF Cons.prems(1) this(1,2) Cons.prems(5-9) this(3)] obtain s1 F1 where
    s1: "drain_bucket s (old, i) = Some s1" "relinked s s1" "forest (hlinks s1) A (links_of F1)"
      "array_ok s1 F1 old c" "array_ok s1 F1 ?b ?c" "F1 (BucketOf old i) = []"
      "\<forall>j < ?c. F1 (BucketOf ?b j) = rev (filter (\<lambda>a. slot s a = j) (F (BucketOf old i))) @ F (BucketOf ?b j)"
      "\<forall>l. l \<noteq> BucketOf old i \<longrightarrow> l \<notin> bkts ?b ?c \<longrightarrow> F1 l = F l"
    by blast
  note r = relinkedD [OF s1(2)]
  have eb: "ent_block s1 = ent_block s" by (simp add: fun_eq_iff ent_block_def r)
  have same: "F1 (BucketOf old k) = F (BucketOf old k)" if "k \<in> set is" for k
  proof -
    have "BucketOf old k \<noteq> BucketOf old i" "BucketOf old k \<notin> bkts ?b ?c"
      using that Cons.prems(4,9) by (auto simp: bkts_def)
    then show ?thesis using s1(8) by blast
  qed
  then have cc: "map (\<lambda>i. F1 (BucketOf old i)) is = map (\<lambda>i. F (BucketOf old i)) is" by simp
  have "\<exists>s' F'. drain_buckets s1 old is = Some s' \<and> relinked s1 s' \<and>
    forest (hlinks s') A (links_of F') \<and> array_ok s' F' (buckets s1) (unat (capacity s1)) \<and>
    (\<forall>j < unat (capacity s1). F' (BucketOf (buckets s1) j) =
       rev (filter (\<lambda>a. slot s1 a = j) (concat (map (\<lambda>i. F1 (BucketOf old i)) is))) @ F1 (BucketOf (buckets s1) j)) \<and>
    (\<forall>l. l \<notin> BucketOf old ` set is \<longrightarrow> l \<notin> bkts (buckets s1) (unat (capacity s1)) \<longrightarrow> F' l = F1 l)"
  proof (rule Cons.IH)
    show "array_ok s1 F1 (buckets s1) (unat (capacity s1))" using s1(5) by (simp add: r)
    show "\<forall>i \<in> set is. \<forall>a \<in> set (F1 (BucketOf old i)). ent_block s1 a"
      using Cons.prems(10) same by (simp add: eb)
  qed (use Cons.prems s1 in \<open>auto simp: r\<close>)
  then obtain s' F' where s': "drain_buckets s1 old is = Some s'" "relinked s1 s'"
    "forest (hlinks s') A (links_of F')" "array_ok s' F' ?b ?c"
    "\<forall>j < ?c. F' (BucketOf ?b j) =
       rev (filter (\<lambda>a. slot s a = j) (concat (map (\<lambda>i. F (BucketOf old i)) is))) @ F1 (BucketOf ?b j)"
    "\<forall>l. l \<notin> BucketOf old ` set is \<longrightarrow> l \<notin> bkts ?b ?c \<longrightarrow> F' l = F1 l"
    unfolding r cc by blast
  have "bsize_get s1 (old, i) = Some 0"
    using bucket_size_get(1) [OF s1(4) \<open>i < c\<close>] s1(6) by simp
  then have "drain_buckets s old (i # is) = Some s'" using s1(1) s'(1) by simp
  moreover have "\<forall>j < ?c. F' (BucketOf ?b j) =
      rev (filter (\<lambda>a. slot s a = j) (concat (map (\<lambda>i. F (BucketOf old i)) (i # is)))) @ F (BucketOf ?b j)"
    using s'(5) s1(7) by simp
  moreover have "\<forall>l. l \<notin> BucketOf old ` set (i # is) \<longrightarrow> l \<notin> bkts ?b ?c \<longrightarrow> F' l = F l"
    using s'(6) s1(8) by auto
  ultimately show ?case using s'(3,4) relinked_trans [OF s1(2) s'(2)] by blast
qed

text \<open>What growing keeps: everything but the array, the links and the memory for them.\<close>

definition same_contents :: "amstrhash \<Rightarrow> (hlink \<Rightarrow> addr list) \<Rightarrow> amstrhash \<Rightarrow> (hlink \<Rightarrow> addr list) \<Rightarrow> bool" where
  "same_contents s F s' F' \<longleftrightarrow>
     set (entries s' F') = set (entries s F) \<and> F' FreeAnchor = F FreeAnchor \<and> ents s' = ents s \<and>
     strs s' = strs s \<and> flags s' = flags s \<and> attr s' = attr s \<and> lock s' = lock s \<and>
     deleted s' = deleted s \<and> hsize s' = hsize s \<and> handle s' = handle s \<and>
     refusals (mem s') = refusals (mem s) \<and> (live (mem s'))(buckets s' := None) = (live (mem s))(buckets s := None)"

lemma table_okD:
  assumes "table_ok s F"
  shows "capacity s \<noteq> 0" "24 * unat (capacity s) < 2 ^ 63" "array_ok s F (buckets s) (unat (capacity s))"
    "forest (hlinks s) (insert FreeAnchor (bkts (buckets s) (unat (capacity s)))) (links_of F)"
    "\<And>i a. i < unat (capacity s) \<Longrightarrow> a \<in> set (F (BucketOf (buckets s) i)) \<Longrightarrow> slot s a = i"
    "hsize s = of_nat (length (entries s F))" "free_size s = of_nat (length (F FreeAnchor))"
    "\<And>a. a \<in> set (entries s F) \<Longrightarrow> ent_block s a" "\<And>a. a \<in> set (F FreeAnchor) \<Longrightarrow> ent_block s a"
    "inj_on (\<lambda>a. key_hash (ents s a)) (set (entries s F))" "keys_owned s (entries s F)"
    "strs s (buckets s) = None" "\<And>p. strs s p \<noteq> None \<Longrightarrow> live (mem s) p \<noteq> None"
  using assms unfolding table_ok_def by auto

lemma set_entries: "set (entries s F) = (\<Union>i < unat (capacity s). set (F (BucketOf (buckets s) i)))"
  by (auto simp: entries_def)

lemma entries_distinct:
  assumes "forest h A (links_of F)" and "bkts (buckets s) (unat (capacity s)) \<subseteq> A"
  shows "distinct (entries s F)"
proof -
  have "distinct (concat (map (\<lambda>i. F (BucketOf (buckets s) i)) [0 ..< n]))" if "n \<le> unat (capacity s)" for n
    using that
  proof (induction n)
    case (Suc n)
    have A: "BucketOf (buckets s) i \<in> A" if "i \<le> n" for i
      using assms(2) that Suc.prems by (auto simp: bkts_def)
    have "distinct (F (BucketOf (buckets s) n))" by (rule forest_entries_distinct [OF assms(1) A]) simp
    moreover have "set (F (BucketOf (buckets s) i)) \<inter> set (F (BucketOf (buckets s) n)) = {}" if "i < n" for i
      using forest_entries_disjoint [OF assms(1) A A] that by simp
    ultimately show ?case using Suc by fastforce
  qed simp
  then show ?thesis unfolding entries_def by blast
qed

lemma calc_hash_cong: "strs s' = strs s \<Longrightarrow> calc_hash s' = calc_hash s"
  by (auto simp: calc_hash_def fun_eq_iff split: option.split)

lemma keys_owned_cong:
  assumes "strs s' = strs s" and "ents s' = ents s" and "flags s' = flags s" and "set es' = set es"
  shows "keys_owned s' es' = keys_owned s es"
  unfolding keys_owned_def calc_hash_cong [OF assms(1)] assms has_flag_def ..

lemma table_ok_mem:
  assumes "table_ok s F" and "live h = live (mem s)"
  shows "table_ok (s\<lparr>mem := h\<rparr>) F"
proof -
  have e: "entries (s\<lparr>mem := h\<rparr>) F = entries s F" "slot (s\<lparr>mem := h\<rparr>) = slot s"
    "ent_block (s\<lparr>mem := h\<rparr>) = ent_block s" "array_ok (s\<lparr>mem := h\<rparr>) F = array_ok s F"
    using assms(2) by (simp_all add: entries_def slot_def ent_block_def array_ok_def fun_eq_iff)
  have k: "keys_owned (s\<lparr>mem := h\<rparr>) (entries s F) = keys_owned s (entries s F)"
    by (rule keys_owned_cong) simp_all
  show ?thesis
    using assms(1) unfolding table_ok_def e k by (simp add: assms(2))
qed

lemma slot_less: "capacity s \<noteq> 0 \<Longrightarrow> slot s a < unat (capacity s)"
  unfolding slot_def by (simp add: unat_mod word_less_nat_alt unat_gt_0)

lemma double_capacity:
  assumes "24 * unat c < 2 ^ 63"
  shows "unat (c * 2 :: u64) = 2 * unat c" and "unat (c * 2 * BUCKET_BYTES) = 24 * unat (c * 2)"
proof -
  have "unat c * unat (2 :: u64) < 2 ^ 64" using assms by simp
  from times_fits [OF this] show u: "unat (c * 2) = 2 * unat c" by simp
  have "unat (c * 2) * unat BUCKET_BYTES < 2 ^ 64" using assms unfolding u BUCKET_BYTES_def by simp
  from times_fits [OF this] show "unat (c * 2 * BUCKET_BYTES) = 24 * unat (c * 2)"
    by (simp add: BUCKET_BYTES_def)
qed

lemma amstrhash_upsize_fails:
  assumes "table_ok s F" and "malloc alloc (capacity s * 2 * BUCKET_BYTES) (mem s) = (None, h)"
  shows "amstrhash_upsize alloc s = Some (AMRC_ERROR, s\<lparr>mem := h\<rparr>) \<and> table_ok (s\<lparr>mem := h\<rparr>) F"
  using table_ok_mem [OF assms(1) malloc_None [OF assms(2)]] assms(2)
  by (simp add: amstrhash_upsize_def Let_def)

lemma amstrhash_upsize_works:
  assumes ok: "table_ok s F" and al: "malloc_spec alloc"
    and m: "malloc alloc (capacity s * 2 * BUCKET_BYTES) (mem s) = (Some b', h)"
  shows "\<exists>s' F'. amstrhash_upsize alloc s = Some (AMRC_SUCCESS, s') \<and> table_ok s' F' \<and>
    same_contents s F s' F' \<and> capacity s' = capacity s * 2 \<and> buckets s' = b' \<and> live (mem s') (buckets s) = None"
proof -
  note t = table_okD [OF ok]
  note ma = malloc_Some [OF al m]
  let ?b = "buckets s" and ?c = "unat (capacity s)" and ?cap = "capacity s * 2"
  let ?c' = "unat ?cap" and ?A = "insert FreeAnchor (bkts (buckets s) (unat (capacity s)))"
  have c': "?c' = 2 * ?c" "unat (?cap * BUCKET_BYTES) = 24 * ?c'" using double_capacity [OF t(2)] by simp_all
  have c0: "?cap \<noteq> 0" using t(1) c'(1) by (metis mult_eq_0_iff unsigned_0 unat_eq_zero zero_neq_numeral)
  have lb: "live (mem s) ?b \<noteq> None" using t(3) by (auto simp: array_ok_def)
  then have bb: "b' \<noteq> ?b" using ma(1) by auto
  let ?sA = "s\<lparr>capacity := ?cap, buckets := b', mem := h\<rparr>"
  have inA: "bucket_in ?sA (b', i)" if "i < ?c'" for i
    using that c'(2) ma(2) by (simp add: bucket_in_def BUCKET_BYTES_def)
  have fA: "forest (hlinks ?sA) ?A (links_of F)" using t(4) by simp
  have "\<exists>s' F'. init_buckets_from ?sA [0 ..< ?c'] = Some s' \<and> relinked ?sA s' \<and>
    forest (hlinks s') (?A \<union> BucketOf (buckets ?sA) ` set [0 ..< ?c']) (links_of F') \<and>
    (\<forall>i \<in> set [0 ..< ?c']. F' (BucketOf (buckets ?sA) i) = [] \<and> bsize s' (buckets ?sA) i = 0) \<and>
    (\<forall>l. l \<notin> BucketOf (buckets ?sA) ` set [0 ..< ?c'] \<longrightarrow> F' l = F l) \<and>
    (\<forall>b i. b \<noteq> buckets ?sA \<or> i \<notin> set [0 ..< ?c'] \<longrightarrow> bsize s' b i = bsize ?sA b i)"
    by (rule init_buckets_from_ok [OF _ _ fA]) (use inA bb in \<open>auto simp: bkts_def\<close>)
  then obtain sB F1 where B: "amstrhash_init_buckets ?sA = Some sB" "relinked ?sA sB"
    "forest (hlinks sB) (?A \<union> bkts b' ?c') (links_of F1)"
    "\<forall>i < ?c'. F1 (BucketOf b' i) = [] \<and> bsize sB b' i = 0"
    "\<forall>l. l \<notin> bkts b' ?c' \<longrightarrow> F1 l = F l" "\<forall>b i. b \<noteq> b' \<longrightarrow> bsize sB b i = bsize s b i"
    by (auto simp: amstrhash_init_buckets_def bkts_def atLeast0LessThan)
  note rB = relinkedD [OF B(2), simplified]
  have old1: "F1 (BucketOf ?b i) = F (BucketOf ?b i)" for i
    using B(5) bb by (auto simp: bkts_def)
  have blk: "ent_block sB a" if "ent_block s a" for a
    using that ma(1,2) by (auto simp: ent_block_def rB)
  have "\<exists>s' F'. drain_buckets sB ?b [0 ..< ?c] = Some s' \<and> relinked sB s' \<and>
    forest (hlinks s') (?A \<union> bkts b' ?c') (links_of F') \<and> array_ok s' F' (buckets sB) (unat (capacity sB)) \<and>
    (\<forall>j < unat (capacity sB). F' (BucketOf (buckets sB) j) =
       rev (filter (\<lambda>a. slot sB a = j) (concat (map (\<lambda>i. F1 (BucketOf ?b i)) [0 ..< ?c]))) @ F1 (BucketOf (buckets sB) j)) \<and>
    (\<forall>l. l \<notin> BucketOf ?b ` set [0 ..< ?c] \<longrightarrow> l \<notin> bkts (buckets sB) (unat (capacity sB)) \<longrightarrow> F' l = F1 l)"
  proof (rule drain_buckets_ok [OF B(3), where c = ?c])
    show "array_ok sB F1 ?b ?c" using t(3) ma(1,2) lb bb B(6) by (auto simp: array_ok_def old1 rB)
    show "array_ok sB F1 (buckets sB) (unat (capacity sB))"
      using ma(2) c'(2) B(4) by (auto simp: array_ok_def rB)
    show "\<forall>i \<in> set [0 ..< ?c]. \<forall>a \<in> set (F1 (BucketOf ?b i)). ent_block sB a"
    proof (intro ballI)
      fix i a assume "i \<in> set [0 ..< ?c]" "a \<in> set (F1 (BucketOf ?b i))"
      then have "a \<in> set (entries s F)" by (auto simp: old1 set_entries)
      then show "ent_block sB a" by (intro blk t(8))
    qed
  qed (use bb c0 in \<open>auto simp: bkts_def rB\<close>)
  then obtain sC F2 where C: "drain_buckets sB ?b [0 ..< ?c] = Some sC" "relinked sB sC"
    "forest (hlinks sC) (?A \<union> bkts b' ?c') (links_of F2)" "array_ok sC F2 b' ?c'"
    "\<forall>j < ?c'. F2 (BucketOf b' j) = rev (filter (\<lambda>a. slot sB a = j) (entries s F))"
    "F2 FreeAnchor = F FreeAnchor"
    using B(4,5) unfolding rB old1 entries_def by (auto simp: bkts_def)
  note rC = relinkedD [OF C(2), unfolded rB]
  let ?h = "(mem sC)\<lparr>live := (live (mem sC))(?b := None)\<rparr>"
  let ?s' = "sC\<lparr>mem := ?h\<rparr>"
  have run: "amstrhash_upsize alloc s = Some (AMRC_SUCCESS, ?s')"
    using m B(1) C(1) lb ma(2) bb by (auto simp: amstrhash_upsize_def Let_def free_block_def rC)
  have sl: "slot sB a < ?c'" for a using slot_less [of sB a] c0 by (simp add: rB)
  have set': "set (entries ?s' F2) = set (entries s F)"
  proof -
    have "set (entries ?s' F2) = (\<Union>j < ?c'. set (rev (filter (\<lambda>a. slot sB a = j) (entries s F))))"
      using C(5) unfolding set_entries by (simp add: rC)
    then show ?thesis using sl by auto
  qed
  have "distinct (entries ?s' F2)"
    by (rule entries_distinct [OF C(3)]) (auto simp: rC)
  moreover have "distinct (entries s F)" by (rule entries_distinct [OF t(4)]) auto
  ultimately have len: "length (entries ?s' F2) = length (entries s F)"
    using set' distinct_card by metis
  have ld: "live ?h a = live (mem s) a" if "a \<noteq> ?b" "a \<noteq> b'" for a
    using that ma(2) by (simp add: rC)
  have eb: "ent_block ?s' a" if "ent_block s a" for a
  proof -
    have "a \<noteq> b'" using that ma(1) by (auto simp: ent_block_def)
    then show ?thesis using that ld [of a] by (auto simp: ent_block_def rC)
  qed
  have "table_ok ?s' F2" unfolding table_ok_def
  proof (intro conjI)
    show "24 * unat (capacity ?s') < 2 ^ 63" using ma(3) c'(2) by (simp add: rC)
    show "array_ok ?s' F2 (buckets ?s') (unat (capacity ?s'))"
      using C(4) bb by (auto simp: array_ok_def rC)
    show "forest (hlinks ?s') (insert FreeAnchor (bkts (buckets ?s') (unat (capacity ?s')))) (links_of F2)"
      using forest_subset [OF C(3)] by (auto simp: rC)
    show "\<forall>i < unat (capacity ?s'). \<forall>a \<in> set (F2 (BucketOf (buckets ?s') i)). slot ?s' a = i"
      using C(5) by (auto simp: rC slot_def rB)
    show "\<forall>a \<in> set (entries ?s' F2 @ F2 FreeAnchor). ent_block ?s' a"
      using t(8,9) eb by (auto simp: set' C(6))
    show "keys_owned ?s' (entries ?s' F2)"
      by (rule iffD2 [OF keys_owned_cong t(11)]) (use set' in \<open>simp_all add: rC\<close>)
    show "strs ?s' (buckets ?s') = None" using t(13) [of b'] ma(1) by (cases "strs s b'") (simp_all add: rC)
    show "\<forall>p. strs ?s' p \<noteq> None \<longrightarrow> live (mem ?s') p \<noteq> None"
    proof (intro allI impI)
      fix p assume "strs ?s' p \<noteq> None"
      then have p: "strs s p \<noteq> None" by (simp add: rC)
      then have "p \<noteq> ?b" "p \<noteq> b'" using t(12) t(13) [of p] ma(1) by auto
      then show "live (mem ?s') p \<noteq> None" using t(13) [OF p] ld [of p] by simp
    qed
    show "hsize ?s' = of_nat (length (entries ?s' F2))" unfolding len using t(6) by (simp add: rC)
    show "inj_on (\<lambda>a. key_hash (ents ?s' a)) (set (entries ?s' F2))"
      unfolding set' using t(10) by (simp add: rC)
  qed (use t(7) c0 in \<open>simp_all add: rC C(6)\<close>)
  moreover have "same_contents s F ?s' F2"
  proof -
    have "refusals h = refusals (mem s)" using malloc_refusals [OF m] by simp
    moreover have "(live ?h)(b' := None) = (live (mem s))(?b := None)" using ma(1,2) by (auto simp: rC fun_eq_iff)
    ultimately show ?thesis unfolding same_contents_def set' by (simp add: C(6) rC)
  qed
  ultimately show ?thesis using run by (intro exI [of _ ?s'] exI [of _ F2]) (simp add: rC)
qed

end
