(* ===== verification/AmStrhashMap.thy ===== *)
theory AmStrhashMap
  imports AmStrhashInv
begin

text \<open>
  The hash table as a map: lookup, insertion and removal on every table that satisfies the
  invariant.
\<close>

section \<open>Lookup\<close>

text \<open>The entry with a hash value, and the map from hash values to keys and values.\<close>

definition tbl :: "amstrhash \<Rightarrow> (hlink \<Rightarrow> addr list) \<Rightarrow> u64 \<Rightarrow> addr option" where
  "tbl s F hv = List.find (\<lambda>a. key_hash (ents s a) = hv) (entries s F)"

definition contents :: "amstrhash \<Rightarrow> (hlink \<Rightarrow> addr list) \<Rightarrow> u64 \<Rightarrow> (addr option \<times> addr option) option" where
  "contents s F hv = map_option (\<lambda>a. (ekey (ents s a), evalue (ents s a))) (tbl s F hv)"

lemma find_inj_iff:
  assumes "inj_on f (set xs)"
  shows "List.find (\<lambda>a. f a = k) xs = Some a \<longleftrightarrow> a \<in> set xs \<and> f a = k"
  using assms by (induction xs) (auto simp: inj_on_def)

lemma tbl_iff:
  "table_ok s F \<Longrightarrow> tbl s F hv = Some a \<longleftrightarrow> a \<in> set (entries s F) \<and> key_hash (ents s a) = hv"
  unfolding tbl_def by (rule find_inj_iff) (rule table_okD(10))

lemma tbl_None: "tbl s F hv = None \<longleftrightarrow> (\<forall>a \<in> set (entries s F). key_hash (ents s a) \<noteq> hv)"
  by (auto simp: tbl_def find_None_iff)

lemma tbl_eqI:
  assumes "table_ok s F" and "table_ok s' F'"
    and "\<And>a. a \<in> set (entries s F) \<and> key_hash (ents s a) = hv \<longleftrightarrow>
      a \<in> set (entries s' F') \<and> key_hash (ents s' a) = hv"
  shows "tbl s' F' hv = tbl s F hv"
proof (cases "tbl s F hv")
  case None
  then have "tbl s' F' hv = None" using assms(3) unfolding tbl_None by blast
  with None show ?thesis by simp
next
  case (Some a)
  then have "tbl s' F' hv = Some a" using tbl_iff [OF assms(1)] tbl_iff [OF assms(2)] assms(3) by blast
  with Some show ?thesis by simp
qed

lemma same_contents_map:
  assumes "table_ok s F" and "table_ok s' F'" and "same_contents s F s' F'"
  shows "contents s' F' = contents s F" and "tbl s' F' = tbl s F"
proof -
  have "tbl s' F' hv = tbl s F hv" for hv
    using assms(3) by (intro tbl_eqI [OF assms(1,2)]) (auto simp: same_contents_def)
  then show "tbl s' F' = tbl s F" "contents s' F' = contents s F"
    using assms(3) by (auto simp: fun_eq_iff contents_def same_contents_def)
qed

lemma bucket_of:
  assumes "table_ok s F"
  shows "amstrhash_bucket s hv = Some (buckets s, unat (hv mod capacity s))"
    and "unat (hv mod capacity s) < unat (capacity s)"
  using table_okD(1) [OF assms]
  by (simp_all add: amstrhash_bucket_def unat_mod word_less_nat_alt unat_gt_0)

lemma find_in_bucket:
  assumes "table_ok s F"
  shows "List.find (\<lambda>a. key_hash (ents s a) = hv) (F (BucketOf (buckets s) (unat (hv mod capacity s)))) = tbl s F hv"
    (is "List.find ?P ?B = _")
proof -
  note t = table_okD [OF assms]
  have sub: "set ?B \<subseteq> set (entries s F)"
    using bucket_of(2) [OF assms] by (auto simp: set_entries)
  have inj: "inj_on (\<lambda>a. key_hash (ents s a)) (set ?B)" using t(10) sub by (rule inj_on_subset)
  have "List.find ?P ?B = Some a \<longleftrightarrow> tbl s F hv = Some a" for a
  proof -
    have "a \<in> set ?B" if "a \<in> set (entries s F)" "key_hash (ents s a) = hv"
    proof -
      from that(1) obtain i where i: "i < unat (capacity s)" "a \<in> set (F (BucketOf (buckets s) i))"
        by (auto simp: set_entries)
      with t(5) that(2) show ?thesis by (auto simp: slot_def)
    qed
    then show ?thesis unfolding find_inj_iff [OF inj] tbl_iff [OF assms] using sub by blast
  qed
  then show ?thesis by (metis option.exhaust)
qed

lemma calc_hash_readable:
  assumes "calc_hash s (Some p) = Some hv"
  obtains x where "strs s p = Some x" "0 \<in> set x"
proof -
  from assms obtain x where x: "strs s p = Some x" "amshash x \<noteq> None"
    by (auto simp: calc_hash_def bind_eq_Some_conv)
  moreover have "0 \<in> set x"
    using x(2) by (cases "0 \<in> set x") (auto simp: amshash_def amshash_loop_none)
  ultimately show ?thesis using that by blast
qed

lemma ent_found_eq:
  assumes "calc_hash s key = Some hv" and "key = None \<longrightarrow> key_hash e \<noteq> hv"
  shows "ent_found s e hv key = Some (key_hash e = hv)"
proof (cases key)
  case (Some p)
  with assms(1) obtain x where "strs s p = Some x" "0 \<in> set x" by (auto elim: calc_hash_readable)
  with Some show ?thesis by (auto simp: ent_found_def str_equal_def)
qed (use assms(2) in \<open>simp add: ent_found_def\<close>)

lemma search_list_chain:
  assumes "chain (hlinks s) q (map EntLink as) head" and "head \<notin> EntLink ` set as"
    and "\<forall>a \<in> set as. live (mem s) a \<noteq> None" and "calc_hash s key = Some hv"
    and "key = None \<longrightarrow> (\<forall>a \<in> set as. key_hash (ents s a) \<noteq> hv)"
  shows "do { pos \<leftarrow> lnext (hlinks s q); search_list s head hv key pos } =
    Some (List.find (\<lambda>a. key_hash (ents s a) = hv) as)"
  using assms(1-3,5)
proof (induction as arbitrary: q)
  case Nil
  then show ?case by (simp add: search_list.simps)
next
  case (Cons a as)
  from Cons.prems have ih: "do { pos \<leftarrow> lnext (hlinks s (EntLink a)); search_list s head hv key pos } =
      Some (List.find (\<lambda>a. key_hash (ents s a) = hv) as)"
    by (intro Cons.IH) auto
  have "search_list s head hv key (EntLink a) = Some (List.find (\<lambda>a. key_hash (ents s a) = hv) (a # as))"
    using Cons.prems ih ent_found_eq [OF assms(4), of "ents s a"]
    by (subst search_list.simps) (auto simp: ent_get_def)
  with Cons.prems show ?case by simp
qed

lemma search_bucket_ok:
  assumes "table_ok s F" and "calc_hash s key = Some hv" and "key = None \<longrightarrow> tbl s F hv = None"
  shows "search_bucket s (buckets s, unat (hv mod capacity s)) hv key = Some (tbl s F hv)"
proof -
  note t = table_okD [OF assms(1)] and j = bucket_of(2) [OF assms(1), of hv]
  let ?l = "BucketOf (buckets s) (unat (hv mod capacity s))"
  have "dlist (hlinks s) ?l (links_of F ?l)"
    by (rule forest_dlist [OF t(4)]) (use j in \<open>auto simp: bkts_def\<close>)
  then have c: "chain (hlinks s) ?l (map EntLink (F ?l)) ?l" by (simp add: dlist_def)
  have "\<forall>a \<in> set (F ?l). live (mem s) a \<noteq> None"
    using t(8) j by (auto simp: set_entries ent_block_def)
  moreover have "key = None \<longrightarrow> (\<forall>a \<in> set (F ?l). key_hash (ents s a) \<noteq> hv)"
    using assms(3) j unfolding tbl_None by (auto simp: set_entries)
  ultimately show ?thesis
    using search_list_chain [OF c _ _ assms(2)] bucket_size_get(3) [OF t(3) j] find_in_bucket [OF assms(1)]
    by (auto simp: search_bucket_def anchor_def)
qed

section \<open>Locks\<close>

text \<open>The lock while an operation runs on an unlocked table.\<close>

definition held :: "bool \<Rightarrow> amstrhash \<Rightarrow> rwlock \<Rightarrow> rwlock" where
  "held b s l = (if b \<and> has_flag s FLAG_USE_LOCK then l else Unlocked)"

lemma lock_if_eq:
  assumes "lock s = Unlocked"
  shows "lock_if b wrlock s = Some (s\<lparr>lock := held b s WriteLocked\<rparr>)"
    and "lock_if b rdlock s = Some (s\<lparr>lock := held b s (ReadLocked 0)\<rparr>)"
  using assms by (cases s; simp add: lock_if_def wrlock_def rdlock_def held_def)+

lemma unlock_if_eq:
  assumes "lock s' = held b s l" and "flags s' = flags s" and "l = WriteLocked \<or> l = ReadLocked 0"
  shows "unlock_if b s' = s'\<lparr>lock := Unlocked\<rparr>"
  using assms by (cases s') (auto simp: unlock_if_def unlock_def held_def has_flag_def split: if_splits)

lemma table_ok_lock [simp]: "table_ok (s\<lparr>lock := l\<rparr>) F = table_ok s F"
proof -
  have e: "entries (s\<lparr>lock := l\<rparr>) F = entries s F" "slot (s\<lparr>lock := l\<rparr>) = slot s"
    "ent_block (s\<lparr>lock := l\<rparr>) = ent_block s" "array_ok (s\<lparr>lock := l\<rparr>) F = array_ok s F"
    by (simp_all add: entries_def slot_def ent_block_def array_ok_def fun_eq_iff)
  have k: "keys_owned (s\<lparr>lock := l\<rparr>) (entries s F) = keys_owned s (entries s F)"
    by (rule keys_owned_cong) simp_all
  show ?thesis unfolding table_ok_def e k by simp
qed

lemma contents_lock [simp]:
  "entries (s\<lparr>lock := l\<rparr>) F = entries s F" "tbl (s\<lparr>lock := l\<rparr>) F = tbl s F"
  "contents (s\<lparr>lock := l\<rparr>) F = contents s F" "calc_hash (s\<lparr>lock := l\<rparr>) = calc_hash s"
  using calc_hash_cong [of "s\<lparr>lock := l\<rparr>" s]
  by (simp_all add: entries_def tbl_def contents_def fun_eq_iff)

lemma amstrhash_find_ok:
  assumes "table_ok s F" and "lock s = Unlocked" and "calc_hash s key = Some hv"
    and "key = None \<longrightarrow> tbl s F hv = None"
  shows "amstrhash_find s key = Some (tbl s F hv, s)"
proof -
  let ?s = "s\<lparr>lock := held True s (ReadLocked 0)\<rparr>"
  have "table_ok ?s F" "calc_hash ?s key = Some hv" "key = None \<longrightarrow> tbl ?s F hv = None"
    using assms(1,3,4) by simp_all
  from search_bucket_ok [OF this] bucket_of(1) [OF \<open>table_ok ?s F\<close>, of hv]
  have "amstrhash_find s key = Some (tbl s F hv, unlock_if True ?s)"
    using assms(3) by (simp add: amstrhash_find_def amstrhash_find_lock_def lock_if_eq(2) [OF assms(2)])
  moreover have "unlock_if True ?s = ?s\<lparr>lock := Unlocked\<rparr>" by (rule unlock_if_eq [of _ _ s "ReadLocked 0"]) simp_all
  moreover have "?s\<lparr>lock := Unlocked\<rparr> = s" using assms(2) by (cases s) simp
  ultimately show ?thesis by simp
qed

section \<open>A new entry\<close>

text \<open>The key of a new entry: with owned keys, a string of its own with the right hash.\<close>

definition key_fresh :: "amstrhash \<Rightarrow> addr list \<Rightarrow> addr option \<Rightarrow> u64 \<Rightarrow> bool" where
  "key_fresh s es key hv \<longleftrightarrow>
     (has_flag s FLAG_DUP_KEYS \<longrightarrow>
        (\<forall>p. key = Some p \<longrightarrow> strs s p \<noteq> None) \<and> calc_hash s key = Some hv \<and>
        (key \<noteq> None \<longrightarrow> (\<forall>a \<in> set es. ekey (ents s a) \<noteq> key)))"

lemma concat_add:
  fixes F :: "hlink \<Rightarrow> addr list"
  assumes "j < n"
  shows "mset (concat (map (\<lambda>i. (F(BucketOf b j := a # F (BucketOf b j))) (BucketOf b i)) [0 ..< n])) =
    add_mset a (mset (concat (map (\<lambda>i. F (BucketOf b i)) [0 ..< n])))"
  using assms
proof (induction n)
  case (Suc n)
  show ?case
  proof (cases "j = n")
    case True
    have other: "map (\<lambda>i. if i = n then ys else G i) [0 ..< n] = map G [0 ..< n]" for ys and G :: "nat \<Rightarrow> addr list"
      by (rule map_cong) auto
    show ?thesis using True by (simp add: other)
  next
    case False
    with Suc show ?thesis by simp
  qed
qed simp

lemma entries_add:
  assumes "buckets s' = buckets s" and "capacity s' = capacity s" and "j < unat (capacity s)"
  shows "mset (entries s' (F(BucketOf (buckets s) j := a # F (BucketOf (buckets s) j)))) =
    add_mset a (mset (entries s F))"
  unfolding entries_def assms(1,2) by (rule concat_add [OF assms(3)])

lemma set_entries_add:
  assumes "buckets s' = buckets s" and "capacity s' = capacity s" and "j < unat (capacity s)"
  shows "set (entries s' (F(BucketOf (buckets s) j := a # F (BucketOf (buckets s) j)))) =
      insert a (set (entries s F))"
    and "length (entries s' (F(BucketOf (buckets s) j := a # F (BucketOf (buckets s) j)))) =
      Suc (length (entries s F))"
proof -
  note m = entries_add [OF assms, of F a]
  from arg_cong [OF m, of set_mset]
  show "set (entries s' (F(BucketOf (buckets s) j := a # F (BucketOf (buckets s) j)))) =
      insert a (set (entries s F))" by simp
  from arg_cong [OF m, of size]
  show "length (entries s' (F(BucketOf (buckets s) j := a # F (BucketOf (buckets s) j)))) =
      Suc (length (entries s F))" by simp
qed

lemma ent_add_ok:
  assumes ok: "table_ok s F" and a: "ent_block s a" "a \<notin> set (entries s F)" "a \<notin> set (F FreeAnchor)"
    and new: "tbl s F hv = None" and k: "key_fresh s (entries s F) key hv"
    and e_def: "e = \<lparr>ekey = key, key_hash = hv, evalue = v\<rparr>"
  shows "\<exists>s' F'. ent_add s (buckets s, unat (hv mod capacity s)) a e = Some (AMRC_SUCCESS, s') \<and>
    table_ok s' F' \<and> set (entries s' F') = insert a (set (entries s F)) \<and>
    s' = s\<lparr>ents := (ents s)(a := e), hlinks := hlinks s', bsize := bsize s', hsize := hsize s + 1\<rparr>"
proof -
  note t = table_okD [OF ok] and j = bucket_of(2) [OF ok, of hv]
  let ?b = "buckets s" and ?j = "unat (hv mod capacity s)"
  let ?l = "BucketOf ?b ?j" and ?A = "insert FreeAnchor (bkts (buckets s) (unat (capacity s)))"
  have lA: "?l \<in> ?A" using j by (auto simp: bkts_def)
  have aA: "EntLink a \<notin> ?A" by (auto simp: bkts_def)
  have aF: "\<forall>m \<in> ?A. a \<notin> set (F m)" using a(2,3) by (auto simp: bkts_def set_entries)
  let ?s1 = "s\<lparr>ents := (ents s)(a := e)\<rparr>"
  have "forest (hlinks ?s1) ?A (links_of F)" using t(4) by simp
  from list_add_ok [OF this lA aA aF] obtain h where
    h: "list_add ?s1 ?l a = Some (?s1\<lparr>hlinks := h\<rparr>)" "forest h ?A (links_of (F(?l := a # F ?l)))" by blast
  let ?F = "F(?l := a # F ?l)"
  let ?s = "s\<lparr>ents := (ents s)(a := e), hlinks := h,
    bsize := (bsize s)(?b := (bsize s ?b)(?j := of_nat (length (F ?l)) + 1)), hsize := hsize s + 1\<rparr>"
  have run: "ent_add s (?b, ?j) a e = Some (AMRC_SUCCESS, ?s)"
    using h(1) bucket_size_get [OF t(3) j] a(1)
    by (auto simp: ent_add_def ent_put_def anchor_def bsize_get_def bsize_put_def ent_block_def)
  have E: "set (entries ?s ?F) = insert a (set (entries s F))" "length (entries ?s ?F) = Suc (length (entries s F))"
    using set_entries_add [of ?s s ?j F a] j by simp_all
  have sl: "slot ?s x = slot s x" if "x \<noteq> a" for x using that by (simp add: slot_def)
  have sa: "slot ?s a = ?j" by (simp add: slot_def e_def)
  have "table_ok ?s ?F" unfolding table_ok_def
  proof (intro conjI)
    show "\<forall>i < unat (capacity ?s). \<forall>x \<in> set (?F (BucketOf (buckets ?s) i)). slot ?s x = i"
    proof (intro allI impI ballI)
      fix i x assume i: "i < unat (capacity ?s)" and x: "x \<in> set (?F (BucketOf (buckets ?s) i))"
      show "slot ?s x = i"
      proof (cases "x = a")
        case True
        then have "i = ?j" using x i aF by (auto simp: bkts_def split: if_splits)
        with True sa show ?thesis by simp
      next
        case False
        with x have "x \<in> set (F (BucketOf ?b i))" by (auto split: if_splits)
        with t(5) [of i x] i sl [OF False] show ?thesis by simp
      qed
    qed
    show "array_ok ?s ?F (buckets ?s) (unat (capacity ?s))"
      using t(3) by (auto simp: array_ok_def)
    show "forest (hlinks ?s) (insert FreeAnchor (bkts (buckets ?s) (unat (capacity ?s)))) (links_of ?F)"
      using h(2) by simp
    show "hsize ?s = of_nat (length (entries ?s ?F))" unfolding E(2) using t(6) by simp
    show "\<forall>x \<in> set (entries ?s ?F @ ?F FreeAnchor). ent_block ?s x"
      unfolding set_append E(1) using t(8,9) a(1) by (auto simp: ent_block_def)
    show "inj_on (\<lambda>x. key_hash (ents ?s x)) (set (entries ?s ?F))"
      unfolding E(1) using t(10) new a(2) by (auto simp: inj_on_def tbl_None e_def)
    show "keys_owned ?s (entries ?s ?F)"
      using t(11) k a(2) calc_hash_cong [of ?s s] unfolding keys_owned_def E(1) key_fresh_def has_flag_def
      by (auto simp: e_def)
  qed (use t in simp_all)
  moreover have "?s = s\<lparr>ents := (ents s)(a := e), hlinks := hlinks ?s, bsize := bsize ?s, hsize := hsize s + 1\<rparr>"
    by simp
  ultimately show ?thesis using run E(1) by blast
qed

section \<open>Memory\<close>

lemma table_ok_memory:
  assumes ok: "table_ok s F"
    and s'_def: "s' = s\<lparr>mem := h, strs := sm\<rparr>"
    and "\<And>a. ent_block s a \<Longrightarrow> a \<in> set (entries s F @ F FreeAnchor) \<Longrightarrow> ent_block s' a"
    and "live h (buckets s) = live (mem s) (buckets s)"
    and "keys_owned s' (entries s F)" and "sm (buckets s) = None"
    and "\<And>p. sm p \<noteq> None \<Longrightarrow> live h p \<noteq> None"
  shows "table_ok s' F" and "entries s' F = entries s F" and "tbl s' F = tbl s F" and "contents s' F = contents s F"
proof -
  note t = table_okD [OF ok]
  show e: "entries s' F = entries s F" by (simp add: s'_def entries_def)
  then show tb: "tbl s' F = tbl s F" by (simp add: tbl_def fun_eq_iff s'_def)
  then show "contents s' F = contents s F" by (simp add: contents_def fun_eq_iff s'_def)
  have "slot s' = slot s" by (simp add: s'_def slot_def fun_eq_iff)
  then show "table_ok s' F"
    unfolding table_ok_def e using t assms(3-7) by (auto simp: s'_def array_ok_def)
qed

lemma keys_owned_memory:
  assumes k: "keys_owned s es" and s': "ents s' = ents s" "flags s' = flags s"
    and p: "\<And>a p. has_flag s FLAG_DUP_KEYS \<Longrightarrow> a \<in> set es \<Longrightarrow> ekey (ents s a) = Some p \<Longrightarrow> strs s' p = strs s p"
  shows "keys_owned s' es"
proof -
  have h: "has_flag s' FLAG_DUP_KEYS = has_flag s FLAG_DUP_KEYS" using s'(2) by (simp add: has_flag_def)
  have c: "calc_hash s' (ekey (ents s a)) = calc_hash s (ekey (ents s a))"
    if "has_flag s FLAG_DUP_KEYS" "a \<in> set es" for a
    using p [OF that] by (simp add: calc_hash_def split: option.split)
  have n: "strs s' p \<noteq> None"
    if "has_flag s FLAG_DUP_KEYS" "a \<in> set es" "ekey (ents s a) = Some p" for a p
    using p [OF that] k that unfolding keys_owned_def by metis
  show ?thesis using k n c unfolding keys_owned_def h s'(1) by (simp cong: ball_cong)
qed

text \<open>A new block, for a string or an entry.\<close>

lemma table_ok_new_block:
  assumes ok: "table_ok s F" and q: "live (mem s) q = None" and h: "live h = (live (mem s))(q \<mapsto> n)"
    and sm: "sm = strs s \<or> (\<exists>x. sm = (strs s)(q \<mapsto> x))"
  shows "table_ok (s\<lparr>mem := h, strs := sm\<rparr>) F" and "entries (s\<lparr>mem := h, strs := sm\<rparr>) F = entries s F"
    and "tbl (s\<lparr>mem := h, strs := sm\<rparr>) F = tbl s F" and "contents (s\<lparr>mem := h, strs := sm\<rparr>) F = contents s F"
proof -
  note t = table_okD [OF ok]
  have sq: "strs s q = None" using t(13) q by blast
  have bq: "buckets s \<noteq> q" using t(3) q by (auto simp: array_ok_def)
  have sp: "sm p = strs s p" if "p \<noteq> q" for p using sm that by auto
  have 1: "ent_block (s\<lparr>mem := h, strs := sm\<rparr>) a" if "ent_block s a" for a
    using that q h sp by (auto simp: ent_block_def)
  have kq: "ekey (ents s a) \<noteq> Some q" if "a \<in> set (entries s F)" "has_flag s FLAG_DUP_KEYS" for a
    using t(11) that sq unfolding keys_owned_def by blast
  have 3: "keys_owned (s\<lparr>mem := h, strs := sm\<rparr>) (entries s F)"
  proof (rule keys_owned_memory [OF t(11)])
    fix a p assume "has_flag s FLAG_DUP_KEYS" "a \<in> set (entries s F)" "ekey (ents s a) = Some p"
    with kq [of a] sp [of p] show "strs (s\<lparr>mem := h, strs := sm\<rparr>) p = strs s p" by auto
  qed simp_all
  have 5: "live h p \<noteq> None" if "sm p \<noteq> None" for p using that t(13) [of p] h sp by (cases "p = q") auto
  show "table_ok (s\<lparr>mem := h, strs := sm\<rparr>) F" "entries (s\<lparr>mem := h, strs := sm\<rparr>) F = entries s F"
    "tbl (s\<lparr>mem := h, strs := sm\<rparr>) F = tbl s F" "contents (s\<lparr>mem := h, strs := sm\<rparr>) F = contents s F"
    using table_ok_memory [OF ok refl 1 _ 3 _ 5] h bq sp t(12) by auto
qed

text \<open>A string that is no entry's key, or a block of an entry outside the table, is freed.\<close>

lemma table_ok_free_block:
  assumes ok: "table_ok s F" and h: "live h = (live (mem s))(q := None)" and sm: "sm = (strs s)(q := None)"
    and k: "has_flag s FLAG_DUP_KEYS \<longrightarrow> (\<forall>a \<in> set (entries s F). ekey (ents s a) \<noteq> Some q)"
    and a: "q \<notin> set (entries s F @ F FreeAnchor)" "q \<noteq> buckets s"
  shows "table_ok (s\<lparr>mem := h, strs := sm\<rparr>) F" and "entries (s\<lparr>mem := h, strs := sm\<rparr>) F = entries s F"
    and "tbl (s\<lparr>mem := h, strs := sm\<rparr>) F = tbl s F" and "contents (s\<lparr>mem := h, strs := sm\<rparr>) F = contents s F"
proof -
  note t = table_okD [OF ok]
  have 1: "ent_block (s\<lparr>mem := h, strs := sm\<rparr>) x" if "ent_block s x" "x \<in> set (entries s F @ F FreeAnchor)" for x
    using that a h sm by (auto simp: ent_block_def)
  have 3: "keys_owned (s\<lparr>mem := h, strs := sm\<rparr>) (entries s F)"
  proof (rule keys_owned_memory [OF t(11)])
    fix x p assume "has_flag s FLAG_DUP_KEYS" "x \<in> set (entries s F)" "ekey (ents s x) = Some p"
    with k sm show "strs (s\<lparr>mem := h, strs := sm\<rparr>) p = strs s p" by auto
  qed simp_all
  have 5: "live h p \<noteq> None" if "sm p \<noteq> None" for p using that t(13) [of p] h sm by (cases "p = q") auto
  show "table_ok (s\<lparr>mem := h, strs := sm\<rparr>) F" "entries (s\<lparr>mem := h, strs := sm\<rparr>) F = entries s F"
    "tbl (s\<lparr>mem := h, strs := sm\<rparr>) F = tbl s F" "contents (s\<lparr>mem := h, strs := sm\<rparr>) F = contents s F"
    using table_ok_memory [OF ok refl 1 _ 3 _ 5] h a(2) sm t(12) by auto
qed

text \<open>The first spare entry is taken.\<close>

lemma take_spare:
  assumes ok: "table_ok s F" and f: "F FreeAnchor = a # as"
  shows "\<exists>h. list_first s FreeAnchor = Some a \<and> list_del s a = Some (s\<lparr>hlinks := h\<rparr>) \<and> free_size s > 0 \<and>
    \<not> amlist_empty (hlinks s) FreeAnchor \<and>
    table_ok (s\<lparr>hlinks := h, free_size := free_size s - 1\<rparr>) (F(FreeAnchor := as)) \<and>
    entries (s\<lparr>hlinks := h, free_size := free_size s - 1\<rparr>) (F(FreeAnchor := as)) = entries s F \<and>
    a \<notin> set as \<and> a \<notin> set (entries s F) \<and> ent_block s a"
proof -
  note t = table_okD [OF ok]
  let ?A = "insert FreeAnchor (bkts (buckets s) (unat (capacity s)))"
  have fA: "FreeAnchor \<in> ?A" by simp
  from list_del_ok [OF t(4) fA, of a] f obtain h where
    h: "list_del s a = Some (s\<lparr>hlinks := h\<rparr>)" "forest h ?A (links_of (F(FreeAnchor := as)))" by auto
  let ?s = "s\<lparr>hlinks := h, free_size := free_size s - 1\<rparr>" and ?F = "F(FreeAnchor := as)"
  have e: "entries ?s ?F = entries s F" by (simp add: entries_def)
  have d: "distinct (F FreeAnchor)" by (rule forest_entries_distinct [OF t(4) fA])
  have "set (F FreeAnchor) \<inter> set (F (BucketOf (buckets s) i)) = {}" if "i < unat (capacity s)" for i
    by (rule forest_entries_disjoint [OF t(4) fA]) (use that in \<open>auto simp: bkts_def\<close>)
  then have out: "a \<notin> set (entries s F)" using f by (auto simp: set_entries)
  have pos: "free_size s > 0"
    unfolding t(7) by (rule length_pos_word [OF d]) (use t(9) f in \<open>auto simp: ent_block_def\<close>)
  have "slot ?s = slot s" by (simp add: slot_def fun_eq_iff)
  moreover have "keys_owned ?s (entries s F)" by (rule iffD2 [OF keys_owned_cong t(11)]) simp_all
  ultimately have "table_ok ?s ?F"
    unfolding table_ok_def e using t h(2) f by (auto simp: array_ok_def ent_block_def)
  then show ?thesis
    using list_first_ok [OF t(4) fA] f h(1) pos e out d t(9) by auto
qed

section \<open>Allocating an entry\<close>

text \<open>The text of a key.\<close>

definition key_text :: "amstrhash \<Rightarrow> addr option \<Rightarrow> u8 list option" where
  "key_text s k = (case k of None \<Rightarrow> None | Some p \<Rightarrow> map_option c_str (strs s p))"

text \<open>What an insertion keeps: the settings, the lock, the calls of the callback, every string there was.\<close>

definition kept :: "amstrhash \<Rightarrow> amstrhash \<Rightarrow> bool" where
  "kept s s' \<longleftrightarrow>
     flags s' = flags s \<and> attr s' = attr s \<and> lock s' = lock s \<and> handle s' = handle s \<and>
     deleted s' = deleted s \<and> (\<forall>p x. strs s p = Some x \<longrightarrow> strs s' p = Some x)"

lemma kept_trans: "kept s t \<Longrightarrow> kept t u \<Longrightarrow> kept s u"
  by (simp add: kept_def)

lemma kept_flag: "kept s s' \<Longrightarrow> has_flag s' f = has_flag s f"
  by (simp add: kept_def has_flag_def)

lemma kept_calc_hash:
  assumes "kept s s'" and "calc_hash s k = Some hv"
  shows "calc_hash s' k = Some hv"
proof (cases k)
  case (Some p)
  with assms(2) obtain x where "strs s p = Some x" by (auto simp: calc_hash_def bind_eq_Some_conv)
  with assms Some show ?thesis by (simp add: kept_def calc_hash_def)
qed (use assms(2) in \<open>simp add: calc_hash_def\<close>)

lemma kept_key_text:
  assumes "kept s s'" and "calc_hash s k = Some hv"
  shows "key_text s' k = key_text s k"
proof (cases k)
  case (Some p)
  with assms(2) obtain x where "strs s p = Some x" by (auto simp: calc_hash_def bind_eq_Some_conv)
  with assms(1) Some show ?thesis by (simp add: kept_def key_text_def)
qed (simp add: key_text_def)

lemma c_str_copy [simp]: "c_str (c_str x @ [0]) = c_str x"
proof -
  have "takeWhile (\<lambda>c. c \<noteq> 0) (takeWhile (\<lambda>c. c \<noteq> 0) x) = takeWhile (\<lambda>c. c \<noteq> (0::u8)) x"
    by (subst takeWhile_eq_all_conv) (auto dest: set_takeWhileD)
  moreover have "\<forall>c \<in> set (takeWhile (\<lambda>c. c \<noteq> (0::u8)) x). c \<noteq> 0" by (auto dest: set_takeWhileD)
  ultimately show ?thesis
    unfolding c_str_def by (subst takeWhile_append2) auto
qed

lemma amshash_copy:
  assumes "0 \<in> set x"
  shows "amshash (c_str x @ [0]) = amshash x"
  using assms amshash_polynomial_aux [of x] amshash_polynomial_aux [of "c_str x @ [0]"] c_str_copy [of x]
  by (simp add: c_str_def)

lemma strdup_ok:
  assumes ok: "table_ok s F" and al: "malloc_spec alloc" and hv: "calc_hash s (Some p) = Some hv"
  shows "(\<exists>h. strdup alloc s p = Some (None, s\<lparr>mem := h\<rparr>) \<and> table_ok (s\<lparr>mem := h\<rparr>) F \<and> refused (mem s) h \<and> live h = live (mem s)) \<or>
    (\<exists>q h x. strs s p = Some x \<and> live (mem s) q = None \<and> live h q \<noteq> None \<and> refusals h = refusals (mem s) \<and> (live h)(q := None) = live (mem s) \<and>
       strdup alloc s p = Some (Some q, s\<lparr>mem := h, strs := (strs s)(q \<mapsto> c_str x @ [0])\<rparr>) \<and>
       table_ok (s\<lparr>mem := h, strs := (strs s)(q \<mapsto> c_str x @ [0])\<rparr>) F \<and>
       key_fresh (s\<lparr>mem := h, strs := (strs s)(q \<mapsto> c_str x @ [0])\<rparr>) (entries s F) (Some q) hv)"
proof -
  note t = table_okD [OF ok]
  from hv obtain x where x: "strs s p = Some x" "0 \<in> set x" by (rule calc_hash_readable)
  let ?n = "of_nat (length (c_str x) + 1) :: u64"
  obtain q h where m: "malloc alloc ?n (mem s) = (q, h)" by fastforce
  show ?thesis
  proof (cases q)
    case None
    have "strdup alloc s p = Some (None, s\<lparr>mem := h\<rparr>)" using x m None by (simp add: strdup_def)
    moreover have "table_ok (s\<lparr>mem := h\<rparr>) F"
      by (rule table_ok_mem [OF ok]) (rule malloc_None, use m None in blast)
    moreover have "refused (mem s) h" "live h = live (mem s)"
      using malloc_refusals [OF m] malloc_None [of alloc ?n "mem s" h] m None by (simp_all add: refused_def)
    ultimately show ?thesis by blast
  next
    case (Some q')
    note ma = malloc_Some [OF al m [unfolded Some]]
    let ?s = "s\<lparr>mem := h, strs := (strs s)(q' \<mapsto> c_str x @ [0])\<rparr>"
    have run: "strdup alloc s p = Some (Some q', ?s)" using x m Some by (simp add: strdup_def)
    have sq: "strs s q' = None" using t(13) ma(1) by blast
    have ok': "table_ok ?s F"
      using table_ok_new_block(1) [OF ok ma(1,2), of "(strs s)(q' \<mapsto> c_str x @ [0])"] by blast
    have "ekey (ents s a) \<noteq> Some q'" if "a \<in> set (entries s F)" "has_flag s FLAG_DUP_KEYS" for a
      using t(11) that sq unfolding keys_owned_def by blast
    moreover have "calc_hash ?s (Some q') = Some hv"
      using hv x amshash_copy [OF x(2)] by (simp add: calc_hash_def)
    ultimately have "key_fresh ?s (entries s F) (Some q') hv" by (simp add: key_fresh_def)
    moreover have "live h q' \<noteq> None" "(live h)(q' := None) = live (mem s)" "refusals h = refusals (mem s)"
      using ma(1,2) malloc_refusals [OF m] Some by auto
    ultimately show ?thesis using run ok' x(1) ma(1) by blast
  qed
qed

lemma key_fresh_borrowed: "\<not> has_flag s FLAG_DUP_KEYS \<Longrightarrow> key_fresh s es k hv"
  by (simp add: key_fresh_def)

text \<open>The key of an entry that is added: as given, or an own copy in a block of its own.\<close>

definition new_key :: "amstrhash \<Rightarrow> (hlink \<Rightarrow> addr list) \<Rightarrow> amstrhash \<Rightarrow> addr option \<Rightarrow> addr option \<Rightarrow> bool" where
  "new_key s F s' key k \<longleftrightarrow>
     key_text s' k = key_text s key \<and> (\<not> has_flag s FLAG_DUP_KEYS \<longrightarrow> k = key) \<and>
     (has_flag s FLAG_DUP_KEYS \<longrightarrow>
        (case k of
           None \<Rightarrow> key = None
         | Some q \<Rightarrow> strs s q = None \<and> live (mem s) q = None \<and> live (mem s') q \<noteq> None \<and> strs s' q \<noteq> None))"

text \<open>The memory but for the copy of a key.\<close>

definition but_key :: "amstrhash \<Rightarrow> addr option \<Rightarrow> (addr \<rightharpoonup> u64) \<Rightarrow> (addr \<rightharpoonup> u64)" where
  "but_key s k lv = (case k of None \<Rightarrow> lv | Some q \<Rightarrow> if has_flag s FLAG_DUP_KEYS then lv(q := None) else lv)"

lemma ent_key_ok:
  assumes ok: "table_ok s F" and al: "malloc_spec alloc" and hv: "calc_hash s key = Some hv"
  shows "\<exists>b k s1. ent_key alloc s key = Some (b, k, s1) \<and> s1 = s\<lparr>mem := mem s1, strs := strs s1\<rparr> \<and>
    table_ok s1 F \<and> kept s s1 \<and> entries s1 F = entries s F \<and> tbl s1 F = tbl s F \<and> contents s1 F = contents s F \<and>
    (b \<longrightarrow> key_fresh s1 (entries s F) k hv \<and> new_key s F s1 key k \<and> refusals (mem s1) = refusals (mem s) \<and> but_key s k (live (mem s1)) = live (mem s)) \<and>
    (\<not> b \<longrightarrow> refused (mem s) (mem s1) \<and> live (mem s1) = live (mem s))"
proof (cases "has_flag s FLAG_DUP_KEYS \<and> key \<noteq> None")
  case False
  have "ent_key alloc s key = Some (True, key, s)"
    using False by (auto simp: ent_key_def split: option.split)
  moreover have "key_fresh s (entries s F) key hv" using False hv by (auto simp: key_fresh_def)
  moreover have "new_key s F s key key" using False by (auto simp: new_key_def split: option.split)
  moreover have "but_key s key (live (mem s)) = live (mem s)" using False by (auto simp: but_key_def split: option.split)
  ultimately show ?thesis using ok by (intro exI [of _ True] exI [of _ key] exI [of _ s]) (simp add: kept_def)
next
  case True
  then obtain p where p: "key = Some p" and dup: "has_flag s FLAG_DUP_KEYS" by blast
  note t = table_okD [OF ok]
  from strdup_ok [OF ok al hv [unfolded p]] show ?thesis
  proof (elim disjE exE conjE)
    fix h assume h: "strdup alloc s p = Some (None, s\<lparr>mem := h\<rparr>)" "table_ok (s\<lparr>mem := h\<rparr>) F"
      "refused (mem s) h" "live h = live (mem s)"
    have "entries (s\<lparr>mem := h\<rparr>) F = entries s F" "tbl (s\<lparr>mem := h\<rparr>) F = tbl s F"
      "contents (s\<lparr>mem := h\<rparr>) F = contents s F"
      by (simp_all add: entries_def tbl_def contents_def fun_eq_iff)
    then show ?thesis using h dup p
      by (intro exI [of _ False] exI [of _ None] exI [of _ "s\<lparr>mem := h\<rparr>"]) (simp add: ent_key_def kept_def)
  next
    fix q x and h :: heap assume x: "strs s p = Some x" and q: "live (mem s) q = None" "live h q \<noteq> None"
      and h: "refusals h = refusals (mem s)" "(live h)(q := None) = live (mem s)"
    let ?s = "s\<lparr>mem := h, strs := (strs s)(q \<mapsto> c_str x @ [0])\<rparr>"
    assume r: "strdup alloc s p = Some (Some q, ?s)" "table_ok ?s F" "key_fresh ?s (entries s F) (Some q) hv"
    have sq: "strs s q = None" using t(13) q(1) by blast
    have "entries ?s F = entries s F" "tbl ?s F = tbl s F" "contents ?s F = contents s F"
      by (simp_all add: entries_def tbl_def contents_def fun_eq_iff)
    moreover have "kept s ?s" using sq by (auto simp: kept_def)
    moreover have "new_key s F ?s key (Some q)"
      using x q sq dup p by (simp add: new_key_def key_text_def)
    moreover have "but_key s (Some q) (live h) = live (mem s)" using h(2) dup by (simp add: but_key_def)
    ultimately show ?thesis using r dup p h(1)
      by (intro exI [of _ True] exI [of _ "Some q"] exI [of _ ?s]) (simp add: ent_key_def)
  qed
qed

lemma ent_obtain_ok:
  assumes ok: "table_ok s F" and al: "malloc_spec alloc"
  shows "\<exists>p s1 F1. ent_obtain alloc s = Some (p, s1) \<and> table_ok s1 F1 \<and> entries s1 F1 = entries s F \<and>
    s1 = s\<lparr>hlinks := hlinks s1, free_size := free_size s1, mem := mem s1\<rparr> \<and>
    (\<forall>a. live (mem s) a \<noteq> None \<longrightarrow> live (mem s1) a \<noteq> None) \<and>
    (case p of
       None \<Rightarrow> s1 = s\<lparr>mem := mem s1\<rparr> \<and> live (mem s1) = live (mem s) \<and> F1 = F \<and> refused (mem s) (mem s1)
     | Some a \<Rightarrow> refusals (mem s1) = refusals (mem s) \<and> ent_block s1 a \<and> a \<notin> set (entries s F) \<and> a \<notin> set (F1 FreeAnchor))"
proof (cases "F FreeAnchor")
  case (Cons a as)
  from take_spare [OF ok Cons] obtain h where h: "list_first s FreeAnchor = Some a"
    "list_del s a = Some (s\<lparr>hlinks := h\<rparr>)" "free_size s > 0" "\<not> amlist_empty (hlinks s) FreeAnchor"
    "table_ok (s\<lparr>hlinks := h, free_size := free_size s - 1\<rparr>) (F(FreeAnchor := as))"
    "entries (s\<lparr>hlinks := h, free_size := free_size s - 1\<rparr>) (F(FreeAnchor := as)) = entries s F"
    "a \<notin> set as" "a \<notin> set (entries s F)" "ent_block s a" by blast
  have "ent_obtain alloc s = Some (Some a, s\<lparr>hlinks := h, free_size := free_size s - 1\<rparr>)"
    using h(1-4) by (simp add: ent_obtain_def c_assert_def)
  then show ?thesis using h(5-9)
    by (intro exI [of _ "Some a"] exI [of _ "s\<lparr>hlinks := h, free_size := free_size s - 1\<rparr>"]
        exI [of _ "F(FreeAnchor := as)"]) (simp add: ent_block_def)
next
  case Nil
  note t = table_okD [OF ok]
  obtain p h where m: "malloc alloc ENTRY_BYTES (mem s) = (p, h)" by fastforce
  have "amlist_empty (hlinks s) FreeAnchor" "free_size s = 0"
    using list_first_ok(1) [OF t(4)] t(7) Nil by simp_all
  then have run: "ent_obtain alloc s = Some (p, s\<lparr>mem := h\<rparr>)" using m by (simp add: ent_obtain_def c_assert_def)
  have e: "entries (s\<lparr>mem := h\<rparr>) F = entries s F" by (simp add: entries_def)
  show ?thesis
  proof (cases p)
    case None
    with m have l: "live h = live (mem s)" by (auto intro: malloc_None)
    have "refused (mem s) h" using malloc_refusals [OF m] None by (simp add: refused_def)
    with run table_ok_mem [OF ok l] e None l show ?thesis
      by (intro exI [of _ None] exI [of _ "s\<lparr>mem := h\<rparr>"] exI [of _ F]) simp
  next
    case (Some a)
    note ma = malloc_Some [OF al m [unfolded Some]]
    have "table_ok (s\<lparr>mem := h\<rparr>) F"
      using table_ok_new_block(1) [OF ok ma(1,2), of "strs s"] by simp
    moreover have "strs s a = None" using t(13) ma(1) by blast
    moreover have "a \<noteq> buckets s" using t(3) ma(1) by (auto simp: array_ok_def)
    moreover have "a \<notin> set (entries s F)" using t(8) [of a] ma(1) by (auto simp: ent_block_def)
    moreover have "refusals h = refusals (mem s)" using malloc_refusals [OF m] Some by simp
    ultimately show ?thesis using run e ma Nil Some
      by (intro exI [of _ "Some a"] exI [of _ "s\<lparr>mem := h\<rparr>"] exI [of _ F]) (simp add: ent_block_def)
  qed
qed

lemma contents_add:
  assumes ok: "table_ok s F" "table_ok s' F'" and "set (entries s' F') = insert a (set (entries s F))"
    and "a \<notin> set (entries s F)" and "ents s' = (ents s)(a := e)" and "key_hash e = hv" and "tbl s F hv = None"
  shows "contents s' F' = (contents s F)(hv \<mapsto> (ekey e, evalue e))"
proof
  fix hv'
  show "contents s' F' hv' = ((contents s F)(hv \<mapsto> (ekey e, evalue e))) hv'"
  proof (cases "hv' = hv")
    case True
    have "tbl s' F' hv = Some a" using tbl_iff [OF ok(2)] assms(3,5,6) by simp
    with True assms(5) show ?thesis by (simp add: contents_def)
  next
    case False
    have "tbl s' F' hv' = tbl s F hv'"
      by (rule tbl_eqI [OF ok]) (use False assms(3-6) in auto)
    moreover have "ents s' x = ents s x" if "tbl s F hv' = Some x" for x
      using that tbl_iff [OF ok(1)] assms(4,5) by auto
    ultimately show ?thesis using False by (cases "tbl s F hv'") (simp_all add: contents_def)
  qed
qed

definition own_key :: "amstrhash \<Rightarrow> amstrhash \<Rightarrow> addr option \<Rightarrow> addr option \<Rightarrow> bool" where
  "own_key s s' key k \<longleftrightarrow>
     key_text s' k = key_text s key \<and> (\<not> has_flag s FLAG_DUP_KEYS \<longrightarrow> k = key) \<and>
     (has_flag s FLAG_DUP_KEYS \<longrightarrow>
        (case k of None \<Rightarrow> key = None | Some q \<Rightarrow> strs s q = None \<and> live (mem s') q \<noteq> None \<and> strs s' q \<noteq> None))"

lemma new_key_own: "new_key s F s' key k \<Longrightarrow> own_key s s' key k"
  by (auto simp: new_key_def own_key_def split: option.splits)

text \<open>What adding an entry does, when it works and when a block is refused.\<close>

definition added ::
    "amstrhash \<Rightarrow> (hlink \<Rightarrow> addr list) \<Rightarrow> addr option \<Rightarrow> u64 \<Rightarrow> addr option \<Rightarrow> amstrhash \<Rightarrow> (hlink \<Rightarrow> addr list) \<Rightarrow> bool"
  where "added s F key hv v s' F' \<longleftrightarrow>
     table_ok s' F' \<and> kept s s' \<and> hsize s' = hsize s + 1 \<and> refusals (mem s') = refusals (mem s) \<and>
     (\<exists>k. own_key s s' key k \<and> contents s' F' = (contents s F)(hv \<mapsto> (k, v)))"

text \<open>The blocks but for the array of buckets, which growing replaces.\<close>

definition other_blocks :: "amstrhash \<Rightarrow> (addr \<rightharpoonup> u64)" where
  "other_blocks s = (live (mem s))(buckets s := None)"

definition unchanged :: "amstrhash \<Rightarrow> (hlink \<Rightarrow> addr list) \<Rightarrow> amstrhash \<Rightarrow> (hlink \<Rightarrow> addr list) \<Rightarrow> bool" where
  "unchanged s F s' F' \<longleftrightarrow>
     table_ok s' F' \<and> kept s s' \<and> hsize s' = hsize s \<and> contents s' F' = contents s F \<and>
     refused (mem s) (mem s') \<and> other_blocks s' = other_blocks s"

lemma ent_new_refused:
  assumes ok: "table_ok s1 F" and s2: "s2 = s1\<lparr>mem := mem s2\<rparr>" "live (mem s2) = live (mem s1)"
    and k: "new_key s F s1 key k" and ks: "kept s s1" and t: "table_ok s F" and es: "entries s1 F = entries s F"
    and b: "buckets s1 = buckets s" and hs: "hsize s1 = hsize s" and cs: "contents s1 F = contents s F"
    and ents: "ents s1 = ents s" and rf: "refused (mem s) (mem s2)" and bk: "but_key s k (live (mem s1)) = live (mem s)"
  shows "\<exists>s'. (if has_flag s2 FLAG_DUP_KEYS then free_str k s2 else Some s2) = Some s' \<and> unchanged s F s' F"
proof -
  have ok2: "table_ok s2 F" using table_ok_mem [OF ok s2(2)] s2(1) by simp
  have e2: "entries s2 F = entries s F" using es by (subst s2(1)) (simp add: entries_def)
  have c2: "contents s2 F = contents s F"
    using cs by (subst s2(1)) (simp add: contents_def tbl_def entries_def fun_eq_iff)
  have k2: "kept s s2" using ks by (subst s2(1)) (simp add: kept_def)
  have h2: "hsize s2 = hsize s" using hs by (subst s2(1)) simp
  note T = table_okD [OF t]
  have b2: "buckets s2 = buckets s" using b by (subst s2(1)) simp
  have f2: "has_flag s2 f = has_flag s f" for f using kept_flag [OF k2] .
  show ?thesis
  proof (cases "has_flag s2 FLAG_DUP_KEYS \<and> k \<noteq> None")
    case False
    then have "(if has_flag s2 FLAG_DUP_KEYS then free_str k s2 else Some s2) = Some s2"
      by (cases k) (simp_all add: free_str_def free_block_def)
    moreover have "live (mem s2) = live (mem s)" using bk s2(2) False f2 by (auto simp: but_key_def split: option.splits)
    then have "unchanged s F s2 F" using ok2 c2 k2 h2 rf b2 by (simp add: unchanged_def other_blocks_def)
    ultimately show ?thesis by blast
  next
    case True
    then obtain q where q: "k = Some q" by blast
    have dup: "has_flag s FLAG_DUP_KEYS" using True kept_flag [OF k2] by simp
    with k q have sq: "strs s q = None" "live (mem s) q = None" "live (mem s1) q \<noteq> None"
      by (auto simp: new_key_def)
    let ?h = "(mem s2)\<lparr>live := (live (mem s2))(q := None)\<rparr>"
    let ?s = "s2\<lparr>mem := ?h, strs := (strs s2)(q := None)\<rparr>"
    have run: "free_str k s2 = Some ?s" using sq(3) q s2(2) by (simp add: free_str_def free_block_def)
    have ek: "ekey (ents s2 a) \<noteq> Some q" if "a \<in> set (entries s2 F)" for a
    proof -
      have "ekey (ents s a) \<noteq> Some q" using T(11) that sq(1) dup unfolding keys_owned_def e2 by blast
      moreover have "ents s2 = ents s" using ents by (subst s2(1)) simp
      ultimately show ?thesis by simp
    qed
    have out: "q \<notin> set (entries s2 F @ F FreeAnchor)"
      using T(8) [of q] T(9) [of q] sq(2) by (auto simp: e2 ent_block_def)
    have ob: "q \<noteq> buckets s2" using T(3) sq(2) b2 by (auto simp: array_ok_def)
    have "live ?h = (live (mem s2))(q := None)" by simp
    note f = table_ok_free_block [OF ok2 this refl _ out ob]
    have "table_ok ?s F" "contents ?s F = contents s F" using f(1,4) ek c2 by auto
    moreover have "kept s ?s" using k2 sq(1) by (auto simp: kept_def)
    moreover have "live ?h = live (mem s)" using bk s2(2) dup q by (simp add: but_key_def)
    then have "other_blocks ?s = other_blocks s" using b2 by (simp add: other_blocks_def)
    moreover have "refused (mem s) ?h" using rf by (simp add: refused_def)
    ultimately show ?thesis using run True h2 by (auto simp: unchanged_def)
  qed
qed

lemma ent_new_ok:
  assumes ok: "table_ok s F" and al: "malloc_spec alloc" and new: "tbl s F hv = None"
    and hv: "calc_hash s key = Some hv"
  shows "\<exists>rc s' F'. amstrhash_ent_new alloc s (buckets s, unat (hv mod capacity s)) key hv v = Some (rc, s') \<and>
    (rc = AMRC_SUCCESS \<and> added s F key hv v s' F' \<or>
     rc = AMRC_ERROR \<and> unchanged s F s' F')"
proof -
  let ?bkt = "(buckets s, unat (hv mod capacity s))"
  from ent_key_ok [OF ok al hv] obtain b k s1 where k: "ent_key alloc s key = Some (b, k, s1)"
    "s1 = s\<lparr>mem := mem s1, strs := strs s1\<rparr>" "table_ok s1 F" "kept s s1" "entries s1 F = entries s F"
    "tbl s1 F = tbl s F" "contents s1 F = contents s F"
    "b \<longrightarrow> key_fresh s1 (entries s F) k hv \<and> new_key s F s1 key k \<and> refusals (mem s1) = refusals (mem s) \<and> but_key s k (live (mem s1)) = live (mem s)"
    "\<not> b \<longrightarrow> refused (mem s) (mem s1) \<and> live (mem s1) = live (mem s)" by blast
  have s1: "buckets s1 = buckets s" "hsize s1 = hsize s" "ents s1 = ents s" "capacity s1 = capacity s"
    by (subst k(2), simp)+
  show ?thesis
  proof (cases b)
    case False
    then have "amstrhash_ent_new alloc s ?bkt key hv v = Some (AMRC_ERROR, s1)"
      using k(1) by (simp add: amstrhash_ent_new_def)
    moreover have "unchanged s F s1 F" using k(3,4,7,9) s1(1,2) False by (simp add: unchanged_def other_blocks_def)
    ultimately show ?thesis by blast
  next
    case True
    with k(8) have kf: "key_fresh s1 (entries s F) k hv" and nk: "new_key s F s1 key k"
      and m1: "refusals (mem s1) = refusals (mem s)" "but_key s k (live (mem s1)) = live (mem s)" by auto
    from ent_obtain_ok [OF k(3) al] obtain p s2 F1 where o: "ent_obtain alloc s1 = Some (p, s2)"
      "table_ok s2 F1" "entries s2 F1 = entries s1 F"
      "s2 = s1\<lparr>hlinks := hlinks s2, free_size := free_size s2, mem := mem s2\<rparr>"
      "\<forall>a. live (mem s1) a \<noteq> None \<longrightarrow> live (mem s2) a \<noteq> None"
      "case p of
         None \<Rightarrow> s2 = s1\<lparr>mem := mem s2\<rparr> \<and> live (mem s2) = live (mem s1) \<and> F1 = F \<and> refused (mem s1) (mem s2)
       | Some a \<Rightarrow> refusals (mem s2) = refusals (mem s1) \<and> ent_block s2 a \<and> a \<notin> set (entries s1 F) \<and> a \<notin> set (F1 FreeAnchor)" by blast
    have s2: "buckets s2 = buckets s" "hsize s2 = hsize s" "ents s2 = ents s" "capacity s2 = capacity s"
      "strs s2 = strs s1" "flags s2 = flags s1"
      by (subst o(4), simp add: s1)+
    show ?thesis
    proof (cases p)
      case None
      from o(6) None m1(1) have "refused (mem s) (mem s2)" by (simp add: refused_def)
      from ent_new_refused [OF k(3) _ _ nk k(4) ok k(5) s1(1,2) k(7) s1(3) this m1(2)] o(6) None obtain s' where
        "(if has_flag s2 FLAG_DUP_KEYS then free_str k s2 else Some s2) = Some s'" "unchanged s F s' F" by auto
      moreover from this(1) have "amstrhash_ent_new alloc s ?bkt key hv v = Some (AMRC_ERROR, s')"
        using k(1) True o(1) None by (simp add: amstrhash_ent_new_def split: if_splits)
      ultimately show ?thesis by blast
    next
      case (Some a)
      let ?e = "\<lparr>ekey = k, key_hash = hv, evalue = v\<rparr>"
      have E: "entries s2 F1 = entries s F" using o(3) k(5) by simp
      have "tbl s2 F1 hv = None" using new unfolding tbl_None E s2(3) .
      moreover have "key_fresh s2 (entries s2 F1) k hv"
        using kf calc_hash_cong [OF s2(5)] by (simp add: key_fresh_def E has_flag_def s2 s1)
      ultimately have "\<exists>s' F'. ent_add s2 (buckets s2, unat (hv mod capacity s2)) a ?e = Some (AMRC_SUCCESS, s') \<and>
          table_ok s' F' \<and> set (entries s' F') = insert a (set (entries s2 F1)) \<and>
          s' = s2\<lparr>ents := (ents s2)(a := ?e), hlinks := hlinks s', bsize := bsize s', hsize := hsize s2 + 1\<rparr>"
        using o(2,6) Some E k(5) by (intro ent_add_ok) auto
      then obtain s' F' where A: "ent_add s2 ?bkt a ?e = Some (AMRC_SUCCESS, s')" "table_ok s' F'"
        "set (entries s' F') = insert a (set (entries s F))"
        "s' = s2\<lparr>ents := (ents s2)(a := ?e), hlinks := hlinks s', bsize := bsize s', hsize := hsize s2 + 1\<rparr>"
        unfolding s2(1,4) E by blast
      have s': "ents s' = (ents s)(a := ?e)" "hsize s' = hsize s + 1" "strs s' = strs s1" "mem s' = mem s2"
        by (subst A(4), simp add: s2)+
      have run: "amstrhash_ent_new alloc s ?bkt key hv v = Some (AMRC_SUCCESS, s')"
        using k(1) True o(1) Some A(1) by (simp add: amstrhash_ent_new_def)
      have "a \<notin> set (entries s F)" using o(6) Some k(5) by simp
      from contents_add [OF ok A(2,3) this s'(1) _ new]
      have "contents s' F' = (contents s F)(hv \<mapsto> (k, v))" by simp
      moreover have "kept s s'"
      proof -
        have "attr s2 = attr s1" "lock s2 = lock s1" "handle s2 = handle s1" "deleted s2 = deleted s1"
          by (subst o(4), simp)+
        moreover have "flags s' = flags s2" "attr s' = attr s2" "lock s' = lock s2" "handle s' = handle s2"
          "deleted s' = deleted s2" by (subst A(4), simp)+
        ultimately show ?thesis using k(4) s2(6) by (simp add: kept_def s'(3))
      qed
      moreover have "new_key s F s' key k"
        using nk o(5) by (auto simp: new_key_def key_text_def s' split: option.splits)
      moreover have "refusals (mem s') = refusals (mem s)" using o(6) Some m1(1) s'(4) by simp
      ultimately have "added s F key hv v s' F'" using A(2) s'(2) new_key_own unfolding added_def by blast
      with run show ?thesis by blast
    qed
  qed
qed

end
