(* ===== verification/AmStrhashOps.thy ===== *)
theory AmStrhashOps
  imports AmStrhashMap
begin

text \<open>
  Insertion, removal, creation and destruction of the hash table, with the properties of its
  operations.
\<close>

section \<open>Insertion\<close>

lemma same_contents_kept: "same_contents s F s' F' \<Longrightarrow> kept s s'"
  by (simp add: same_contents_def kept_def)

lemma added_after_same:
  assumes a: "added s1 F1 key hv v s' F'" and c: "same_contents s F s1 F1" and ok: "table_ok s F" "table_ok s1 F1"
  shows "added s F key hv v s' F'"
proof -
  from c have f: "flags s1 = flags s" "strs s1 = strs s" and h: "hsize s1 = hsize s" "refusals (mem s1) = refusals (mem s)"
    by (auto simp: same_contents_def)
  have "own_key s1 s' key k = own_key s s' key k" for k
    unfolding own_key_def key_text_def has_flag_def f ..
  moreover have "contents s1 F1 = contents s F" by (rule same_contents_map [OF ok c])
  moreover have "kept s s1" by (rule same_contents_kept [OF c])
  ultimately show ?thesis
    using a kept_trans [of s s1 s'] by (simp add: added_def h)
qed

lemma unchanged_after_same:
  assumes a: "unchanged s1 F1 s' F'" and c: "same_contents s F s1 F1" and ok: "table_ok s F" "table_ok s1 F1"
  shows "unchanged s F s' F'"
proof -
  from c have "hsize s1 = hsize s" "refusals (mem s1) = refusals (mem s)" "other_blocks s1 = other_blocks s"
    by (simp_all add: same_contents_def other_blocks_def)
  moreover have "contents s1 F1 = contents s F" by (rule same_contents_map [OF ok c])
  moreover have "kept s s1" by (rule same_contents_kept [OF c])
  ultimately show ?thesis using a kept_trans [of s s1 s'] by (simp add: unchanged_def refused_def)
qed

lemma insert_absent_ok:
  assumes ok: "table_ok s F" and al: "malloc_spec alloc" and new: "tbl s F hv = None"
    and hv: "calc_hash s key = Some hv"
  shows "\<exists>rc s' F'. insert_absent alloc s (buckets s, unat (hv mod capacity s)) key hv v = Some (rc, s') \<and>
    (rc = AMRC_SUCCESS \<and> added s F key hv v s' F' \<or>
     rc = AMRC_ERROR \<and> unchanged s F s' F')"
proof -
  let ?bkt = "(buckets s, unat (hv mod capacity s))"
  note t = table_okD [OF ok] and j = bucket_of(2) [OF ok, of hv]
  have plain: "\<exists>rc s' F'. amstrhash_ent_new alloc s ?bkt key hv v = Some (rc, s') \<and>
    (rc = AMRC_SUCCESS \<and> added s F key hv v s' F' \<or>
     rc = AMRC_ERROR \<and> unchanged s F s' F')"
    by (rule ent_new_ok [OF ok al new hv])
  note get = bucket_size_get(1) [OF t(3) j]
  show ?thesis
  proof (cases "has_flag s FLAG_FIXED_SIZE \<or> \<not> should_resize s (of_nat (length (F (BucketOf (buckets s) (unat (hv mod capacity s))))))")
    case True
    then have "insert_absent alloc s ?bkt key hv v = amstrhash_ent_new alloc s ?bkt key hv v"
      using get by (auto simp: insert_absent_def)
    with plain show ?thesis by simp
  next
    case False
    then have run: "insert_absent alloc s ?bkt key hv v =
      do { (rc, s) \<leftarrow> amstrhash_upsize alloc s;
           if rc \<noteq> AMRC_SUCCESS then Some (rc, s)
           else do { bkt \<leftarrow> amstrhash_bucket s hv; amstrhash_ent_new alloc s bkt key hv v } }"
      using get by (simp add: insert_absent_def)
    obtain b h where m: "malloc alloc (capacity s * 2 * BUCKET_BYTES) (mem s) = (b, h)" by fastforce
    show ?thesis
    proof (cases b)
      case None
      from amstrhash_upsize_fails [OF ok m [unfolded None]]
      have u: "amstrhash_upsize alloc s = Some (AMRC_ERROR, s\<lparr>mem := h\<rparr>)" "table_ok (s\<lparr>mem := h\<rparr>) F" by auto
      have "contents (s\<lparr>mem := h\<rparr>) F = contents s F"
        by (simp add: contents_def tbl_def entries_def fun_eq_iff)
      then have "unchanged s F (s\<lparr>mem := h\<rparr>) F"
        using u(2) malloc_refusals [OF m] malloc_None [OF m [unfolded None]] None by (simp add: unchanged_def kept_def refused_def other_blocks_def)
      then show ?thesis using run u(1) by auto
    next
      case (Some b')
      from amstrhash_upsize_works [OF ok al m [unfolded Some]] obtain s1 F1 where
        u: "amstrhash_upsize alloc s = Some (AMRC_SUCCESS, s1)" "table_ok s1 F1" "same_contents s F s1 F1" by blast
      note k = same_contents_kept [OF u(3)]
      have "tbl s1 F1 hv = None" using same_contents_map(2) [OF ok u(2,3)] new by simp
      from ent_new_ok [OF u(2) al this kept_calc_hash [OF k hv], of v] obtain rc s' F' where
        e: "amstrhash_ent_new alloc s1 (buckets s1, unat (hv mod capacity s1)) key hv v = Some (rc, s')"
        "rc = AMRC_SUCCESS \<and> added s1 F1 key hv v s' F' \<or>
         rc = AMRC_ERROR \<and> unchanged s1 F1 s' F'" by blast
      have "insert_absent alloc s ?bkt key hv v = Some (rc, s')"
        using run u(1) e(1) bucket_of(1) [OF u(2), of hv] by simp
      then show ?thesis
        using e(2) added_after_same [OF _ u(3) ok u(2)] unchanged_after_same [OF _ u(3) ok u(2)] by fastforce
    qed
  qed
qed

text \<open>Releasing the lock of an unlocked table that was locked for the operation.\<close>

lemma kept_lock:
  "kept (s\<lparr>lock := l\<rparr>) s' \<Longrightarrow> lock s = Unlocked \<Longrightarrow> kept s (s'\<lparr>lock := Unlocked\<rparr>)"
  by (simp add: kept_def)

lemma own_key_lock [simp]: "own_key (s\<lparr>lock := l\<rparr>) (s'\<lparr>lock := l'\<rparr>) key k = own_key s s' key k"
  "own_key (s\<lparr>lock := l\<rparr>) s' key k = own_key s s' key k"
  "own_key s (s'\<lparr>lock := l'\<rparr>) key k = own_key s s' key k"
  by (simp_all add: own_key_def key_text_def cong: option.case_cong)

lemma added_lock:
  "added (s\<lparr>lock := l\<rparr>) F key hv v s' F' \<Longrightarrow> lock s = Unlocked \<Longrightarrow> added s F key hv v (s'\<lparr>lock := Unlocked\<rparr>) F'"
  by (auto simp: added_def intro: kept_lock)

lemma unchanged_lock:
  "unchanged (s\<lparr>lock := l\<rparr>) F s' F' \<Longrightarrow> lock s = Unlocked \<Longrightarrow> unchanged s F (s'\<lparr>lock := Unlocked\<rparr>) F'"
  by (auto simp: unchanged_def other_blocks_def intro: kept_lock)

text \<open>The entry that is there is given a new value, or is left as it is.\<close>

definition overwritten :: "amstrhash \<Rightarrow> addr option \<Rightarrow> addr option \<Rightarrow> addr \<Rightarrow> amstrhash" where
  "overwritten s key v a =
     s\<lparr>ents := (ents s)(a := (ents s a)\<lparr>evalue := v\<rparr>),
       deleted := deleted s @ (if on_delete (attr s) then [(key, evalue (ents s a))] else [])\<rparr>"

lemma table_ok_value:
  assumes ok: "table_ok s F" and s': "s' = s\<lparr>ents := (ents s)(a := (ents s a)\<lparr>evalue := v\<rparr>), deleted := d\<rparr>"
  shows "table_ok s' F" and "tbl s' F = tbl s F"
proof -
  note t = table_okD [OF ok]
  have e: "entries s' F = entries s F" "slot s' = slot s" "ent_block s' = ent_block s" "array_ok s' F = array_ok s F"
    by (simp_all add: s' entries_def slot_def ent_block_def array_ok_def fun_eq_iff)
  have h: "key_hash (ents s' x) = key_hash (ents s x)" "ekey (ents s' x) = ekey (ents s x)" for x
    by (simp_all add: s')
  have "keys_owned s' (entries s F) = keys_owned s (entries s F)"
    unfolding keys_owned_def h by (simp add: s' calc_hash_def has_flag_def cong: option.case_cong)
  then show "table_ok s' F" using ok unfolding table_ok_def e h by (simp add: s')
  show "tbl s' F = tbl s F" by (simp add: tbl_def e h fun_eq_iff)
qed

lemma overwritten_contents:
  assumes "table_ok s F" and "tbl s F hv = Some a"
  shows "contents (overwritten s key v a) F = (contents s F)(hv \<mapsto> (ekey (ents s a), v))"
proof
  fix hv'
  have t: "tbl (overwritten s key v a) F = tbl s F"
    by (rule table_ok_value(2) [OF assms(1)]) (simp add: overwritten_def)
  show "contents (overwritten s key v a) F hv' = ((contents s F)(hv \<mapsto> (ekey (ents s a), v))) hv'"
  proof (cases "tbl s F hv'")
    case (Some x)
    have k: "key_hash (ents s x) = hv'" "key_hash (ents s a) = hv"
      using Some assms(2) tbl_iff [OF assms(1)] by simp_all
    show ?thesis
    proof (cases "hv' = hv")
      case True
      with assms(2) have "tbl (overwritten s key v a) F hv' = Some a" by (simp add: t)
      with True show ?thesis by (simp add: contents_def overwritten_def)
    next
      case False
      with k have "x \<noteq> a" by auto
      moreover have "tbl (overwritten s key v a) F hv' = Some x" using Some by (simp add: t)
      ultimately show ?thesis using Some False by (simp add: contents_def overwritten_def)
    qed
  qed (use assms(2) in \<open>auto simp: contents_def t\<close>)
qed

lemma insert_found_ok:
  assumes ok: "table_ok s F" and a: "a \<in> set (entries s F)"
  shows "insert_found s key v want a =
    (if has_flag s FLAG_OVERWRITE then Some (AMRC_SUCCESS, None, overwritten s key v a)
     else Some (AMRC_ERROR, if want then Some a else None, s))"
proof -
  obtain n where "live (mem s) a = Some n" using table_okD(8) [OF ok a] by (auto simp: ent_block_def)
  then show ?thesis
    by (simp add: insert_found_def ent_get_def ent_put_def overwritten_def Let_def)
qed

lemma amstrhash_insert_ok:
  assumes ok: "table_ok s F" and al: "malloc_spec alloc" and un: "lock s = Unlocked"
    and hv: "calc_hash s key = Some hv" and nk: "key = None \<longrightarrow> tbl s F hv = None"
  shows "\<exists>rc old s' F'. amstrhash_insert alloc s key v want = Some (rc, old, s') \<and>
    (case tbl s F hv of
       None \<Rightarrow> old = None \<and>
         (rc = AMRC_SUCCESS \<and> added s F key hv v s' F' \<or>
          rc = AMRC_ERROR \<and> unchanged s F s' F')
     | Some a \<Rightarrow> F' = F \<and>
         (if has_flag s FLAG_OVERWRITE then rc = AMRC_SUCCESS \<and> old = None \<and> s' = overwritten s key v a
          else rc = AMRC_ERROR \<and> old = (if want then Some a else None) \<and> s' = s))"
proof -
  let ?s = "s\<lparr>lock := held True s WriteLocked\<rparr>"
  have ok': "table_ok ?s F" "calc_hash ?s key = Some hv" "key = None \<longrightarrow> tbl ?s F hv = None"
    using ok hv nk by simp_all
  have pre: "amstrhash_insert alloc s key v want =
    do { (rc, old, s) \<leftarrow>
           (case tbl s F hv of
              Some a \<Rightarrow> insert_found ?s key v want a
            | None \<Rightarrow> do { (rc, s) \<leftarrow> insert_absent alloc ?s (buckets ?s, unat (hv mod capacity ?s)) key hv v;
                            Some (rc, None, s) });
         Some (rc, old, unlock_if True s) }"
    using bucket_of(1) [OF ok'(1), of hv] search_bucket_ok [OF ok'] hv
    by (simp add: amstrhash_insert_def lock_if_eq(1) [OF un] cong: option.case_cong)
  show ?thesis
  proof (cases "tbl s F hv")
    case None
    then have "tbl ?s F hv = None" by simp
    from insert_absent_ok [OF ok'(1) al this ok'(2), of v] obtain rc s' F' where
      i: "insert_absent alloc ?s (buckets ?s, unat (hv mod capacity ?s)) key hv v = Some (rc, s')"
      "rc = AMRC_SUCCESS \<and> added ?s F key hv v s' F' \<or>
       rc = AMRC_ERROR \<and> unchanged ?s F s' F'" by blast
    have "kept ?s s'" using i(2) by (auto simp: added_def unchanged_def)
    then have "unlock_if True s' = s'\<lparr>lock := Unlocked\<rparr>"
      by (intro unlock_if_eq [of _ _ s WriteLocked]) (simp_all add: kept_def)
    then have "amstrhash_insert alloc s key v want = Some (rc, None, s'\<lparr>lock := Unlocked\<rparr>)"
      unfolding pre i(1) None by simp
    then show ?thesis
      using i(2) added_lock [OF _ un] unchanged_lock [OF _ un] None by fastforce
  next
    case (Some a)
    then have a: "a \<in> set (entries ?s F)" using tbl_iff [OF ok] by simp
    have sl: "s\<lparr>lock := Unlocked\<rparr> = s" using un by (cases s) simp
    have u: "unlock_if True ?s = s" "unlock_if True (overwritten ?s key v a) = overwritten s key v a"
      using un by (cases s; simp add: overwritten_def unlock_if_def held_def unlock_def has_flag_def)+
    show ?thesis
      unfolding pre using u Some by (cases "has_flag s FLAG_OVERWRITE") (auto simp: insert_found_ok [OF ok'(1) a])
  qed
qed

section \<open>Removal\<close>

lemma table_ok_deleted [simp]: "table_ok (s\<lparr>deleted := d\<rparr>) F = table_ok s F"
proof -
  have e: "entries (s\<lparr>deleted := d\<rparr>) F = entries s F" "slot (s\<lparr>deleted := d\<rparr>) = slot s"
    "ent_block (s\<lparr>deleted := d\<rparr>) = ent_block s" "array_ok (s\<lparr>deleted := d\<rparr>) F = array_ok s F"
    by (simp_all add: entries_def slot_def ent_block_def array_ok_def fun_eq_iff)
  have k: "keys_owned (s\<lparr>deleted := d\<rparr>) (entries s F) = keys_owned s (entries s F)"
    by (rule keys_owned_cong) simp_all
  show ?thesis unfolding table_ok_def e k by simp
qed

lemma concat_remove:
  fixes F :: "hlink \<Rightarrow> addr list"
  assumes "j < n" and "a \<in> set (F (BucketOf b j))"
  shows "add_mset a (mset (concat (map (\<lambda>i. (F(BucketOf b j := remove1 a (F (BucketOf b j)))) (BucketOf b i)) [0 ..< n]))) =
    mset (concat (map (\<lambda>i. F (BucketOf b i)) [0 ..< n]))"
  using assms
proof (induction n)
  case (Suc n)
  show ?case
  proof (cases "j = n")
    case True
    have other: "map (\<lambda>i. if i = n then ys else G i) [0 ..< n] = map G [0 ..< n]" for ys and G :: "nat \<Rightarrow> addr list"
      by (rule map_cong) auto
    show ?thesis using True Suc.prems(2) by (simp add: other)
  next
    case False
    with Suc show ?thesis by simp
  qed
qed simp

lemma entries_remove:
  assumes "buckets s' = buckets s" and "capacity s' = capacity s" and "j < unat (capacity s)"
    and "a \<in> set (F (BucketOf (buckets s) j))" and "distinct (entries s F)"
  shows "set (entries s' (F(BucketOf (buckets s) j := remove1 a (F (BucketOf (buckets s) j))))) =
      set (entries s F) - {a}"
    and "length (entries s F) =
      Suc (length (entries s' (F(BucketOf (buckets s) j := remove1 a (F (BucketOf (buckets s) j))))))"
proof -
  let ?xs = "entries s' (F(BucketOf (buckets s) j := remove1 a (F (BucketOf (buckets s) j))))"
  have m: "add_mset a (mset ?xs) = mset (entries s F)"
    unfolding entries_def assms(1,2) by (rule concat_remove [where F = F and b = "buckets s", OF assms(3,4)])
  from arg_cong [OF m, of size] show "length (entries s F) = Suc (length ?xs)" by simp
  have "mset (a # ?xs) = mset (entries s F)" using m by simp
  then have "distinct (a # ?xs)" using assms(5) mset_eq_imp_distinct_iff by blast
  moreover from arg_cong [OF m, of set_mset] have "insert a (set ?xs) = set (entries s F)" by simp
  ultimately show "set ?xs = set (entries s F) - {a}" by auto
qed

lemma of_nat_pred: "(of_nat (Suc n) :: u64) - 1 = of_nat n"
  by simp

lemma unlink_entry:
  assumes ok: "table_ok s F" and a: "a \<in> set (entries s F)"
  shows "\<exists>h. let l = BucketOf (buckets s) (slot s a); F1 = F(l := remove1 a (F l));
      s1 = s\<lparr>ents := (ents s)(a := e), hlinks := h,
        bsize := (bsize s)(buckets s := (bsize s (buckets s))(slot s a := bsize s (buckets s) (slot s a) - 1)),
        hsize := hsize s - 1\<rparr>
    in list_del s a = Some (s\<lparr>hlinks := h\<rparr>) \<and> table_ok s1 F1 \<and>
       set (entries s1 F1) = set (entries s F) - {a} \<and> F1 FreeAnchor = F FreeAnchor"
proof -
  note t = table_okD [OF ok]
  let ?b = "buckets s" and ?j = "slot s a"
  let ?l = "BucketOf ?b ?j" and ?A = "insert FreeAnchor (bkts (buckets s) (unat (capacity s)))"
  let ?F = "F(?l := remove1 a (F ?l))"
  from a obtain i where "i < unat (capacity s)" "a \<in> set (F (BucketOf ?b i))" by (auto simp: set_entries)
  with t(5) [of i a] have j: "?j < unat (capacity s)" and al: "a \<in> set (F ?l)" by auto
  have lA: "?l \<in> ?A" using j by (auto simp: bkts_def)
  from list_del_ok [OF t(4) lA al] obtain h where
    h: "list_del s a = Some (s\<lparr>hlinks := h\<rparr>)" "forest h ?A (links_of ?F)" by blast
  let ?s = "s\<lparr>ents := (ents s)(a := e), hlinks := h,
    bsize := (bsize s)(?b := (bsize s ?b)(?j := bsize s ?b ?j - 1)), hsize := hsize s - 1\<rparr>"
  have d: "distinct (entries s F)" by (rule entries_distinct [OF t(4)]) auto
  have E: "set (entries ?s ?F) = set (entries s F) - {a}" "length (entries s F) = Suc (length (entries ?s ?F))"
    using entries_remove [of ?s s ?j a F] j al d by simp_all
  have dl: "distinct (F ?l)" by (rule forest_entries_distinct [OF t(4) lA])
  have out: "a \<notin> set (F FreeAnchor)"
    using forest_entries_disjoint [OF t(4) lA, of FreeAnchor] al by auto
  have sub: "x \<in> set (F (BucketOf ?b k)) \<and> x \<noteq> a" if "x \<in> set (?F (BucketOf ?b k))" "k < unat (capacity s)" for x k
  proof (cases "k = ?j")
    case True
    with that dl show ?thesis by (auto simp: set_remove1_eq)
  next
    case False
    with that t(5) [of k a] show ?thesis by auto
  qed
  have sl: "slot ?s x = slot s x" if "x \<noteq> a" for x using that by (simp add: slot_def)
  have "table_ok ?s ?F" unfolding table_ok_def
  proof (intro conjI)
    show "\<forall>i < unat (capacity ?s). \<forall>x \<in> set (?F (BucketOf (buckets ?s) i)). slot ?s x = i"
    proof (intro allI impI ballI)
      fix i x assume i: "i < unat (capacity ?s)" and x: "x \<in> set (?F (BucketOf (buckets ?s) i))"
      with sub [of x i] have "x \<in> set (F (BucketOf ?b i))" "x \<noteq> a" by simp_all
      with t(5) [of i x] i sl show "slot ?s x = i" by simp
    qed
    have "bsize s ?b ?j = of_nat (length (F ?l))" using t(3) j by (simp add: array_ok_def)
    also have "length (F ?l) = Suc (length (remove1 a (F ?l)))"
      using al by (simp add: length_remove1) (metis Suc_pred length_pos_if_in_set)
    finally have "bsize s ?b ?j - 1 = of_nat (length (remove1 a (F ?l)))" by (simp only: of_nat_pred)
    then show "array_ok ?s ?F (buckets ?s) (unat (capacity ?s))"
      using t(3) by (auto simp: array_ok_def)
    show "forest (hlinks ?s) (insert FreeAnchor (bkts (buckets ?s) (unat (capacity ?s)))) (links_of ?F)"
      using h(2) by simp
    have "hsize s - 1 = of_nat (length (entries ?s ?F))"
      using of_nat_pred [of "length (entries ?s ?F)"] t(6) [unfolded E(2)] by argo
    then show "hsize ?s = of_nat (length (entries ?s ?F))" by simp
    show "\<forall>x \<in> set (entries ?s ?F @ ?F FreeAnchor). ent_block ?s x"
      unfolding set_append E(1) using t(8,9) by (auto simp: ent_block_def)
    show "inj_on (\<lambda>x. key_hash (ents ?s x)) (set (entries ?s ?F))"
      unfolding E(1) using t(10) by (auto simp: inj_on_def)
    show "keys_owned ?s (entries ?s ?F)"
      using t(11) calc_hash_cong [of ?s s] unfolding keys_owned_def E(1) has_flag_def by auto
  qed (use t in simp_all)
  then show ?thesis using h(1) E(1) by (intro exI [of _ h]) (simp add: Let_def)
qed

lemma put_spare:
  assumes ok: "table_ok s F" and a: "ent_block s a" "a \<notin> set (entries s F)" "a \<notin> set (F FreeAnchor)"
  shows "\<exists>h. list_add s FreeAnchor a = Some (s\<lparr>hlinks := h\<rparr>) \<and>
    table_ok (s\<lparr>hlinks := h, free_size := free_size s + 1\<rparr>) (F(FreeAnchor := a # F FreeAnchor)) \<and>
    entries (s\<lparr>hlinks := h, free_size := free_size s + 1\<rparr>) (F(FreeAnchor := a # F FreeAnchor)) = entries s F"
proof -
  note t = table_okD [OF ok]
  let ?A = "insert FreeAnchor (bkts (buckets s) (unat (capacity s)))"
  have fA: "FreeAnchor \<in> ?A" "EntLink a \<notin> ?A" by (auto simp: bkts_def)
  have aF: "\<forall>m \<in> ?A. a \<notin> set (F m)" using a(2,3) by (auto simp: bkts_def set_entries)
  from list_add_ok [OF t(4) fA aF] obtain h where
    h: "list_add s FreeAnchor a = Some (s\<lparr>hlinks := h\<rparr>)" "forest h ?A (links_of (F(FreeAnchor := a # F FreeAnchor)))"
    by blast
  let ?s = "s\<lparr>hlinks := h, free_size := free_size s + 1\<rparr>" and ?F = "F(FreeAnchor := a # F FreeAnchor)"
  have e: "entries ?s ?F = entries s F" by (simp add: entries_def)
  have "slot ?s = slot s" by (simp add: slot_def fun_eq_iff)
  moreover have "keys_owned ?s (entries s F)" by (rule iffD2 [OF keys_owned_cong t(11)]) simp_all
  ultimately have "table_ok ?s ?F"
    unfolding table_ok_def e using t h(2) a(1) by (auto simp: array_ok_def ent_block_def add.commute)
  then show ?thesis using h(1) e by blast
qed

text \<open>An owned key is freed with its entry.\<close>

definition freed_strs :: "amstrhash \<Rightarrow> addr \<Rightarrow> (addr \<rightharpoonup> u8 list)" where
  "freed_strs s a =
     (case ekey (ents s a) of
        Some q \<Rightarrow> if has_flag s FLAG_DUP_KEYS then (strs s)(q := None) else strs s
      | None \<Rightarrow> strs s)"

lemma list_delD: "list_del s a = Some (s\<lparr>hlinks := h\<rparr>) \<Longrightarrow> amlist_del (hlinks s) (EntLink a) = Some h"
  by (cases s) (auto simp: list_del_def bind_eq_Some_conv)

lemma free_key_ok:
  assumes ok: "table_ok s F" and a: "a \<in> set (entries s F)"
    and ok2: "table_ok s2 F2" and e2: "set (entries s2 F2) = set (entries s F) - {a}" "F2 FreeAnchor = F FreeAnchor"
    and s2: "mem s2 = mem s" "strs s2 = strs s" "flags s2 = flags s" "buckets s2 = buckets s"
    and ents: "\<And>x. x \<noteq> a \<Longrightarrow> ents s2 x = ents s x"
  shows "\<exists>m. (\<forall>t. mem t = mem s \<longrightarrow> strs t = strs s \<longrightarrow> flags t = flags s \<longrightarrow>
      (if has_flag t FLAG_DUP_KEYS then free_str (ekey (ents s a)) t else Some t) = Some (t\<lparr>mem := m, strs := freed_strs s a\<rparr>)) \<and>
    table_ok (s2\<lparr>mem := m, strs := freed_strs s a\<rparr>) F2 \<and> (\<forall>x. strs s x = None \<longrightarrow> live m x = live (mem s) x) \<and>
    (\<forall>x. live m x \<noteq> None \<longrightarrow> live (mem s) x \<noteq> None)"
proof (cases "has_flag s FLAG_DUP_KEYS \<and> ekey (ents s a) \<noteq> None")
  case False
  have "freed_strs s a = strs s" using False by (auto simp: freed_strs_def split: option.split)
  moreover have "s2\<lparr>mem := mem s, strs := strs s\<rparr> = s2" by (simp flip: s2(1,2))
  moreover have "(if has_flag t FLAG_DUP_KEYS then free_str (ekey (ents s a)) t else Some t) =
      Some (t\<lparr>mem := mem s, strs := strs s\<rparr>)" if "mem t = mem s" "strs t = strs s" "flags t = flags s" for t
  proof -
    have "t\<lparr>mem := mem s, strs := strs s\<rparr> = t" by (simp flip: that(1,2))
    moreover have "has_flag t FLAG_DUP_KEYS = has_flag s FLAG_DUP_KEYS" using that(3) by (simp add: has_flag_def)
    ultimately show ?thesis using False that(1,2) by (auto simp: free_str_def free_block_def)
  qed
  ultimately show ?thesis using ok2 by (intro exI [of _ "mem s"]) simp
next
  case True
  note t = table_okD [OF ok]
  from True obtain q where q: "ekey (ents s a) = Some q" and dup: "has_flag s FLAG_DUP_KEYS" by blast
  have sq: "strs s q \<noteq> None" using t(11) dup a q unfolding keys_owned_def by blast
  then obtain n where lq: "live (mem s) q = Some n" using t(13) by blast
  let ?m = "(mem s)\<lparr>live := (live (mem s))(q := None)\<rparr>"
  have fs: "freed_strs s a = (strs s)(q := None)" using q dup by (simp add: freed_strs_def)
  have l: "live ?m = (live (mem s2))(q := None)" by (simp add: s2)
  have st: "(strs s)(q := None) = (strs s2)(q := None)" by (simp add: s2)
  have k: "has_flag s2 FLAG_DUP_KEYS \<longrightarrow> (\<forall>x \<in> set (entries s2 F2). ekey (ents s2 x) \<noteq> Some q)"
  proof (intro impI ballI)
    fix x assume "x \<in> set (entries s2 F2)"
    then have x: "x \<in> set (entries s F)" "x \<noteq> a" by (simp_all add: e2)
    from t(11) dup have "ekey (ents s x) = ekey (ents s a) \<longrightarrow> ekey (ents s x) = None"
      using x a unfolding keys_owned_def by blast
    with q ents [OF x(2)] show "ekey (ents s2 x) \<noteq> Some q" by auto
  qed
  have o: "q \<notin> set (entries s2 F2 @ F2 FreeAnchor)"
    using t(8) [of q] t(9) [of q] sq by (auto simp: e2 ent_block_def)
  have ob: "q \<noteq> buckets s2" using t(12) sq by (auto simp: s2)
  note f = table_ok_free_block(1) [OF ok2 l st k o ob]
  have "free_str (Some q) t = Some (t\<lparr>mem := ?m, strs := (strs s)(q := None)\<rparr>)"
    if "mem t = mem s" "strs t = strs s" for t
    using lq that by (simp add: free_str_def free_block_def)
  moreover have "has_flag t FLAG_DUP_KEYS" if "flags t = flags s" for t
    using dup that by (simp add: has_flag_def)
  moreover have "\<forall>x. strs s x = None \<longrightarrow> live ?m x = live (mem s) x" using sq by auto
  ultimately show ?thesis using f q by (intro exI [of _ ?m]) (auto simp: fs)
qed

text \<open>Blocks: those of the table's entries are freed or kept as spare ones; what is no string stays.\<close>

definition shrunk :: "amstrhash \<Rightarrow> (hlink \<Rightarrow> addr list) \<Rightarrow> amstrhash \<Rightarrow> (hlink \<Rightarrow> addr list) \<Rightarrow> bool" where
  "shrunk s F s' F' \<longleftrightarrow>
     (\<forall>x. live (mem s') x \<noteq> None \<longrightarrow> live (mem s) x \<noteq> None \<and>
        (x \<in> set (entries s F @ F FreeAnchor) \<longrightarrow> x \<in> set (entries s' F' @ F' FreeAnchor))) \<and>
     (\<forall>x. strs s x = None \<longrightarrow> strs s' x = None \<and>
        (x \<notin> set (entries s F @ F FreeAnchor) \<longrightarrow>
           x \<notin> set (entries s' F' @ F' FreeAnchor) \<and> live (mem s') x = live (mem s) x))"

lemma shrunk_refl [simp]: "shrunk s F s F"
  by (simp add: shrunk_def)

lemma shrunk_trans: "shrunk s F t G \<Longrightarrow> shrunk t G u H \<Longrightarrow> shrunk s F u H"
proof -
  assume a: "shrunk s F t G" and b: "shrunk t G u H"
  have "live (mem s) x \<noteq> None \<and> (x \<in> set (entries s F @ F FreeAnchor) \<longrightarrow> x \<in> set (entries u H @ H FreeAnchor))"
    if "live (mem u) x \<noteq> None" for x
    using that a [unfolded shrunk_def, THEN conjunct1, rule_format, of x]
      b [unfolded shrunk_def, THEN conjunct1, rule_format, of x] by blast
  moreover have "strs u x = None \<and> (x \<notin> set (entries s F @ F FreeAnchor) \<longrightarrow>
      x \<notin> set (entries u H @ H FreeAnchor) \<and> live (mem u) x = live (mem s) x)" if "strs s x = None" for x
    using that a [unfolded shrunk_def, THEN conjunct2, rule_format, of x]
      b [unfolded shrunk_def, THEN conjunct2, rule_format, of x] by argo
  ultimately show ?thesis unfolding shrunk_def by blast
qed

lemma shrunk_one:
  assumes E: "set (entries s' F') = set (entries s F) - {a}" and a: "a \<in> set (entries s F)"
    and lm: "\<forall>x. strs s x = None \<longrightarrow> live m x = live (mem s) x"
      "\<forall>x. live m x \<noteq> None \<longrightarrow> live (mem s) x \<noteq> None"
    and sn: "\<And>x. strs s x = None \<Longrightarrow> strs s' x = None"
    and f: "F' FreeAnchor = F FreeAnchor \<and> live (mem s') = (live m)(a := None) \<or>
      F' FreeAnchor = a # F FreeAnchor \<and> live (mem s') = live m"
  shows "shrunk s F s' F'"
  using f
proof
  assume "F' FreeAnchor = F FreeAnchor \<and> live (mem s') = (live m)(a := None)"
  then have f: "F' FreeAnchor = F FreeAnchor" "live (mem s') = (live m)(a := None)" by simp_all
  have "live (mem s) x \<noteq> None \<and> (x \<in> set (entries s F @ F FreeAnchor) \<longrightarrow> x \<in> set (entries s' F' @ F' FreeAnchor))"
    if "live (mem s') x \<noteq> None" for x
    using that lm(2) [rule_format, of x] by (cases "x = a") (simp_all add: E f)
  moreover have "strs s' x = None \<and> (x \<notin> set (entries s F @ F FreeAnchor) \<longrightarrow>
      x \<notin> set (entries s' F' @ F' FreeAnchor) \<and> live (mem s') x = live (mem s) x)" if "strs s x = None" for x
    using sn [OF that] lm(1) [rule_format, OF that] a by (cases "x = a") (simp_all add: E f)
  ultimately show ?thesis unfolding shrunk_def by blast
next
  assume "F' FreeAnchor = a # F FreeAnchor \<and> live (mem s') = live m"
  then have f: "F' FreeAnchor = a # F FreeAnchor" "live (mem s') = live m" by simp_all
  have "live (mem s) x \<noteq> None \<and> (x \<in> set (entries s F @ F FreeAnchor) \<longrightarrow> x \<in> set (entries s' F' @ F' FreeAnchor))"
    if "live (mem s') x \<noteq> None" for x
    using that lm(2) [rule_format, of x] by (cases "x = a") (simp_all add: E f)
  moreover have "strs s' x = None \<and> (x \<notin> set (entries s F @ F FreeAnchor) \<longrightarrow>
      x \<notin> set (entries s' F' @ F' FreeAnchor) \<and> live (mem s') x = live (mem s) x)" if "strs s x = None" for x
    using sn [OF that] lm(1) [rule_format, OF that] a by (cases "x = a") (simp_all add: E f)
  ultimately show ?thesis unfolding shrunk_def by blast
qed

text \<open>What removing an entry does.\<close>

definition removed ::
    "amstrhash \<Rightarrow> (hlink \<Rightarrow> addr list) \<Rightarrow> addr \<Rightarrow> bool \<Rightarrow> amstrhash \<Rightarrow> (hlink \<Rightarrow> addr list) \<Rightarrow> bool" where
  "removed s F a use_cb s' F' \<longleftrightarrow>
     table_ok s' F' \<and> set (entries s' F') = set (entries s F) - {a} \<and>
     contents s' F' = (contents s F)(key_hash (ents s a) := None) \<and>
     hsize s' = hsize s - 1 \<and> capacity s' = capacity s \<and> buckets s' = buckets s \<and> flags s' = flags s \<and> attr s' = attr s \<and>
     lock s' = lock s \<and> handle s' = handle s \<and> strs s' = freed_strs s a \<and> shrunk s F s' F' \<and>
     (\<forall>x. x \<noteq> a \<longrightarrow> ents s' x = ents s x) \<and>
     (\<forall>l \<in> bkts (buckets s) (unat (capacity s)). F' l = remove1 a (F l)) \<and>
     deleted s' = deleted s @ (if on_delete (attr s) \<and> use_cb then [(ekey (ents s a), evalue (ents s a))] else [])"

lemma contents_remove:
  assumes ok: "table_ok s F" "table_ok s' F'" and "set (entries s' F') = set (entries s F) - {a}"
    and a: "a \<in> set (entries s F)" and ents: "\<And>x. x \<noteq> a \<Longrightarrow> ents s' x = ents s x"
  shows "contents s' F' = (contents s F)(key_hash (ents s a) := None)"
proof
  fix hv
  show "contents s' F' hv = ((contents s F)(key_hash (ents s a) := None)) hv"
  proof (cases "hv = key_hash (ents s a)")
    case True
    have "key_hash (ents s x) \<noteq> hv" if "x \<in> set (entries s F)" "x \<noteq> a" for x
      using table_okD(10) [OF ok(1)] that a True by (auto simp: inj_on_def)
    then have "tbl s' F' hv = None" unfolding tbl_None using assms(3) ents by auto
    with True show ?thesis by (simp add: contents_def)
  next
    case False
    have "x \<in> set (entries s' F') \<and> key_hash (ents s' x) = hv \<longleftrightarrow> x \<in> set (entries s F) \<and> key_hash (ents s x) = hv" for x
      using False assms(3) ents by (cases "x = a") auto
    then have t: "tbl s' F' hv = tbl s F hv" by (intro tbl_eqI [OF ok]) blast
    have "ents s' x = ents s x" if "tbl s F hv = Some x" for x
      using that tbl_iff [OF ok(1)] False by (intro ents) auto
    then show ?thesis using False t by (cases "tbl s F hv") (simp_all add: contents_def)
  qed
qed

lemma ent_remove_locks:
  "amstrhash_ent_remove s a cb lk =
     do { s \<leftarrow> lock_if lk wrlock s; s \<leftarrow> amstrhash_ent_remove s a cb False; Some (unlock_if lk s) }"
  by (simp add: amstrhash_ent_remove_def lock_if_def [of False] unlock_if_def [of False] Let_def bind_assoc)

lemma owned_key_string:
  assumes "table_ok s F" and "has_flag s FLAG_DUP_KEYS" and "x \<in> set (entries s F)" and "strs s q = None"
  shows "ekey (ents s x) \<noteq> Some q"
  using table_okD(11) [OF assms(1)] assms(2-4) unfolding keys_owned_def by blast

lemma ent_remove_ok:
  assumes ok: "table_ok s F" and a: "a \<in> set (entries s F)"
  shows "\<exists>s' F'. amstrhash_ent_remove s a cb False = Some s' \<and> removed s F a cb s' F'"
proof -
  note t = table_okD [OF ok]
  let ?e = "ents s a" and ?b = "buckets s" and ?j = "slot s a"
  let ?D = "deleted s @ (if on_delete (attr s) \<and> cb then [(ekey ?e, evalue ?e)] else [])"
  let ?e' = "?e\<lparr>evalue := None, ekey := None\<rparr>"
  let ?l = "BucketOf ?b ?j"
  let ?F1 = "F(?l := remove1 a (F ?l))"
  let ?S = "\<lambda>h. s\<lparr>ents := (ents s)(a := ?e'), hlinks := h,
    bsize := (bsize s)(?b := (bsize s ?b)(?j := bsize s ?b ?j - 1)), hsize := hsize s - 1\<rparr>"
  from unlink_entry [OF ok a, of ?e'] obtain h where
    h: "list_del s a = Some (s\<lparr>hlinks := h\<rparr>)" and ok1: "table_ok (?S h) ?F1" and
    E1: "set (entries (?S h) ?F1) = set (entries s F) - {a}" "?F1 FreeAnchor = F FreeAnchor"
    by (auto simp: Let_def)
  let ?s1 = "?S h"
  have "\<exists>m. (\<forall>t. mem t = mem s \<longrightarrow> strs t = strs s \<longrightarrow> flags t = flags s \<longrightarrow>
      (if has_flag t FLAG_DUP_KEYS then free_str (ekey ?e) t else Some t) = Some (t\<lparr>mem := m, strs := freed_strs s a\<rparr>)) \<and>
    table_ok (?s1\<lparr>mem := m, strs := freed_strs s a\<rparr>) ?F1 \<and> (\<forall>x. strs s x = None \<longrightarrow> live m x = live (mem s) x) \<and>
    (\<forall>x. live m x \<noteq> None \<longrightarrow> live (mem s) x \<noteq> None)"
    by (rule free_key_ok [OF ok a ok1 E1]) simp_all
  then obtain m where
    m: "\<forall>t. mem t = mem s \<longrightarrow> strs t = strs s \<longrightarrow> flags t = flags s \<longrightarrow>
      (if has_flag t FLAG_DUP_KEYS then free_str (ekey ?e) t else Some t) = Some (t\<lparr>mem := m, strs := freed_strs s a\<rparr>)" and
    ok2: "table_ok (?s1\<lparr>mem := m, strs := freed_strs s a\<rparr>) ?F1" and
    lm: "\<forall>x. strs s x = None \<longrightarrow> live m x = live (mem s) x" and
    lm': "\<forall>x. live m x \<noteq> None \<longrightarrow> live (mem s) x \<noteq> None"
    by blast
  let ?s2 = "?s1\<lparr>mem := m, strs := freed_strs s a, deleted := ?D\<rparr>"
  have blk: "ent_block s a" using t(8) a by blast
  then obtain n where la: "live (mem s) a = Some n" "strs s a = None" by (auto simp: ent_block_def)
  have lma: "live m a = Some n" "live m ?b = live (mem s) ?b" using lm la t(12) by simp_all
  have ok3: "table_ok ?s2 ?F1" using iffD2 [OF table_ok_deleted ok2] by simp
  have E2: "set (entries ?s2 ?F1) = set (entries s F) - {a}"
    using E1(1) by (simp add: entries_def)
  from a obtain i where "i < unat (capacity s)" "a \<in> set (F (BucketOf ?b i))" by (auto simp: set_entries)
  with t(5) [of i a] have j: "?j < unat (capacity s)" "a \<in> set (F ?l)" by auto
  let ?L = "\<lambda>t. if free_size t \<ge> attr_free_size (attr t) then free_ent a t
    else do { s \<leftarrow> list_add t FreeAnchor a; Some (s\<lparr>free_size := free_size s + 1\<rparr>) }"
  have run: "amstrhash_ent_remove s a cb False = ?L ?s2"
  proof -
    let ?sR = "s\<lparr>deleted := ?D, mem := m, strs := freed_strs s a, ents := (ents s)(a := ?e'), hlinks := h,
        hsize := hsize s - 1, bsize := (bsize s)(?b := (bsize s ?b)(?j := bsize s ?b ?j - 1))\<rparr>"
    let ?t0 = "if on_delete (attr s) \<and> cb then s\<lparr>deleted := deleted s @ [(ekey ?e, evalue ?e)]\<rparr> else s"
    have t0: "?t0 = s\<lparr>deleted := ?D\<rparr>" by (cases s) simp
    let ?t1 = "s\<lparr>deleted := ?D, ents := (ents s)(a := ?e\<lparr>evalue := None\<rparr>)\<rparr>"
    have f: "(if has_flag ?t1 FLAG_DUP_KEYS then free_str (ekey ?e) ?t1 else Some ?t1) =
        Some (?t1\<lparr>mem := m, strs := freed_strs s a\<rparr>)" by (rule m [rule_format]) simp_all
    have "amstrhash_ent_remove s a cb False =
      do { s \<leftarrow> (if has_flag ?t1 FLAG_DUP_KEYS then free_str (ekey ?e) ?t1 else Some ?t1);
           s \<leftarrow> ent_put s a ?e';
           s \<leftarrow> list_del s a;
           let s = s\<lparr>hsize := hsize s - 1\<rparr>;
           bkt \<leftarrow> amstrhash_bucket s (key_hash ?e);
           n \<leftarrow> bsize_get s bkt;
           s \<leftarrow> bsize_put s bkt (n - 1);
           (if free_size s \<ge> attr_free_size (attr s) then free_ent a s
                else do { s \<leftarrow> list_add s FreeAnchor a; Some (s\<lparr>free_size := free_size s + 1\<rparr>) }) }"
      unfolding amstrhash_ent_remove_def lock_if_def unlock_if_def
      using la t0 by (simp add: ent_get_def ent_put_def Let_def)
    also have "\<dots> = ?L ?sR"
    proof -
      obtain sz where "live (mem s) ?b = Some sz" "unat BUCKET_BYTES * (?j + 1) \<le> unat sz"
        using bucket_size_get(3) [OF t(3) j(1)] by (auto simp: bucket_in_def split: option.splits)
      then show ?thesis
        unfolding f using la lma list_delD [OF h] t(1)
        by (simp add: Let_def ent_put_def list_del_def amstrhash_bucket_def slot_def bsize_get_def bsize_put_def
            bucket_in_def del: if_split)
    qed
    also have "?sR = ?s2" by simp
    finally show ?thesis .
  qed
  have an: "a \<notin> set (entries ?s2 ?F1)" using E2 by simp
  have sn: "freed_strs s a x = None" if "strs s x = None" for x
    using that by (simp add: freed_strs_def split: option.split)
  have "a \<notin> set (F FreeAnchor)"
    using forest_entries_disjoint [OF t(4), of ?l FreeAnchor] j by (auto simp: bkts_def)
  then have af: "a \<notin> set (?F1 FreeAnchor)" by simp
  have rem: "\<forall>l \<in> bkts ?b (unat (capacity s)). ?F1 l = remove1 a (F l)"
  proof
    fix l assume "l \<in> bkts ?b (unat (capacity s))"
    then obtain i where i: "i < unat (capacity s)" "l = BucketOf ?b i" by (auto simp: bkts_def)
    show "?F1 l = remove1 a (F l)"
    proof (cases "i = ?j")
      case False
      with t(5) [of i a] i have "a \<notin> set (F l)" by auto
      with False i show ?thesis by (simp add: remove1_idem)
    qed (simp add: i)
  qed
  show ?thesis
  proof (cases "free_size s \<ge> attr_free_size (attr s)")
    case True
    let ?m = "m\<lparr>live := (live m)(a := None)\<rparr>"
    let ?s3 = "?s2\<lparr>mem := ?m\<rparr>"
    have r: "amstrhash_ent_remove s a cb False = Some ?s3"
      unfolding run using True lma by (simp add: free_ent_def free_block_def)
    have sa: "freed_strs s a a = None" using la by (simp add: freed_strs_def split: option.split)
    have l: "live ?m = (live (mem ?s2))(a := None)" by simp
    have st: "freed_strs s a = (strs ?s2)(a := None)" using sa by (simp add: fun_upd_idem)
    have "strs ?s2 a = None" using sa by simp
    from owned_key_string [OF ok3 _ _ this]
    have k: "has_flag ?s2 FLAG_DUP_KEYS \<longrightarrow> (\<forall>x \<in> set (entries ?s2 ?F1). ekey (ents ?s2 x) \<noteq> Some a)" by blast
    have o: "a \<notin> set (entries ?s2 ?F1 @ ?F1 FreeAnchor)" "a \<noteq> buckets ?s2"
      using an af blk by (simp_all add: ent_block_def)
    have eq: "?s2\<lparr>mem := ?m, strs := freed_strs s a\<rparr> = ?s3" by simp
    note fr = table_ok_free_block(1,2) [OF ok3 l st k o]
    have ok4: "table_ok ?s3 ?F1" and E3: "set (entries ?s3 ?F1) = set (entries s F) - {a}"
      using fr(1) unfolding eq using fr(2) unfolding eq by (simp_all only: E2)
    have "contents ?s3 ?F1 = (contents s F)(key_hash ?e := None)"
      by (rule contents_remove [OF ok ok4 E3 a]) simp
    moreover have "shrunk s F ?s3 ?F1"
      by (rule shrunk_one [OF E3 a lm lm']) (simp_all add: sn)
    ultimately have "removed s F a cb ?s3 ?F1" unfolding removed_def E3 using ok4 rem by simp
    with r show ?thesis by blast
  next
    case False
    have "ent_block ?s2 a" using blk lma la by (auto simp: ent_block_def freed_strs_def split: option.split)
    from put_spare [OF ok3 this an af] obtain h' where
      h': "list_add ?s2 FreeAnchor a = Some (?s2\<lparr>hlinks := h'\<rparr>)"
      "table_ok (?s2\<lparr>hlinks := h', free_size := free_size ?s2 + 1\<rparr>) (?F1(FreeAnchor := a # ?F1 FreeAnchor))"
      "entries (?s2\<lparr>hlinks := h', free_size := free_size ?s2 + 1\<rparr>) (?F1(FreeAnchor := a # ?F1 FreeAnchor)) = entries ?s2 ?F1"
      by blast
    let ?s3 = "?s2\<lparr>hlinks := h', free_size := free_size ?s2 + 1\<rparr>" and ?F3 = "?F1(FreeAnchor := a # ?F1 FreeAnchor)"
    have r: "amstrhash_ent_remove s a cb False = Some ?s3" unfolding run h'(1) using False by simp
    have E3: "set (entries ?s3 ?F3) = set (entries s F) - {a}" unfolding h'(3) by (rule E2)
    have "\<forall>l \<in> bkts ?b (unat (capacity s)). ?F3 l = remove1 a (F l)" using rem by (auto simp: bkts_def)
    moreover have "contents ?s3 ?F3 = (contents s F)(key_hash ?e := None)"
      by (rule contents_remove [OF ok h'(2) E3 a]) simp
    moreover have "shrunk s F ?s3 ?F3"
      by (rule shrunk_one [OF E3 a lm lm']) (simp_all add: sn)
    ultimately have "removed s F a cb ?s3 ?F3"
      unfolding removed_def E3 using h'(2) by simp
    with r show ?thesis by blast
  qed
qed

lemma removed_lock:
  assumes "removed (s\<lparr>lock := l\<rparr>) F a cb s' F'" and "lock s = Unlocked"
  shows "removed s F a cb (s'\<lparr>lock := Unlocked\<rparr>) F'"
proof -
  have "freed_strs (s\<lparr>lock := l\<rparr>) a = freed_strs s a"
    by (simp add: freed_strs_def split: option.split)
  moreover have "shrunk s F (s'\<lparr>lock := Unlocked\<rparr>) F' = shrunk (s\<lparr>lock := l\<rparr>) F s' F'"
    by (simp add: shrunk_def)
  ultimately show ?thesis using assms by (simp add: removed_def)
qed

lemma ent_remove_unlocks:
  assumes ok: "table_ok s F" and a: "a \<in> set (entries s F)" and un: "lock s = Unlocked"
  shows "\<exists>s' F'. do { s' \<leftarrow> amstrhash_ent_remove (s\<lparr>lock := held True s WriteLocked\<rparr>) a True False;
      Some (unlock_if True s') } = Some s' \<and> removed s F a True s' F'"
proof -
  let ?s = "s\<lparr>lock := held True s WriteLocked\<rparr>"
  have "table_ok ?s F" "a \<in> set (entries ?s F)" using ok a by simp_all
  from ent_remove_ok [OF this, of True] obtain s' F' where
    r: "amstrhash_ent_remove ?s a True False = Some s'" "removed ?s F a True s' F'" by blast
  have "unlock_if True s' = s'\<lparr>lock := Unlocked\<rparr>"
    using r(2) by (intro unlock_if_eq [of _ _ s WriteLocked]) (simp_all add: removed_def)
  then show ?thesis using r removed_lock [OF r(2) un] by auto
qed

lemma amstrhash_remove_ok:
  assumes "table_ok s F" and "a \<in> set (entries s F)" and "lock s = Unlocked"
  shows "\<exists>s' F'. amstrhash_remove s (Some a) = Some (AMRC_SUCCESS, s') \<and> removed s F a True s' F'"
  using ent_remove_unlocks [OF assms]
  by (fastforce simp: amstrhash_remove_def ent_remove_locks [of s a True True] lock_if_eq [OF assms(3)]
      bind_eq_Some_conv)

text \<open>Removal by key; when the key is not there the lock is still held at the end.\<close>

lemma amstrhash_remove_key_ok:
  assumes ok: "table_ok s F" and un: "lock s = Unlocked"
    and hv: "calc_hash s key = Some hv" and nk: "key = None \<longrightarrow> tbl s F hv = None"
  shows "case tbl s F hv of
      None \<Rightarrow> amstrhash_remove_key s key = Some (AMRC_ERROR, s\<lparr>lock := held True s WriteLocked\<rparr>)
    | Some a \<Rightarrow> \<exists>s' F'. amstrhash_remove_key s key = Some (AMRC_SUCCESS, s') \<and> removed s F a True s' F'"
proof -
  let ?s = "s\<lparr>lock := held True s WriteLocked\<rparr>"
  have ok': "table_ok ?s F" "calc_hash ?s key = Some hv" "key = None \<longrightarrow> tbl ?s F hv = None"
    using ok hv nk by simp_all
  have f: "amstrhash_find_lock ?s key False = Some (tbl s F hv, ?s)"
    using bucket_of(1) [OF ok'(1), of hv] search_bucket_ok [OF ok'] hv
    by (simp add: amstrhash_find_lock_def lock_if_def unlock_if_def)
  have pre: "amstrhash_remove_key s key =
      (case tbl s F hv of
         None \<Rightarrow> Some (AMRC_ERROR, ?s)
       | Some a \<Rightarrow> do { s \<leftarrow> amstrhash_ent_remove ?s a True False; Some (AMRC_SUCCESS, unlock_if True s) })"
    by (simp add: amstrhash_remove_key_def lock_if_eq(1) [OF un] f)
  show ?thesis
  proof (cases "tbl s F hv")
    case (Some a)
    then have "a \<in> set (entries s F)" using tbl_iff [OF ok] by simp
    from ent_remove_unlocks [OF ok this un] show ?thesis
      unfolding pre Some by (fastforce simp: bind_eq_Some_conv)
  qed (simp add: pre)
qed

section \<open>Creation\<close>

lemma amstrhash_init_fails:
  "malloc alloc HASH_BYTES h = (None, h') \<Longrightarrow> amstrhash_init alloc rc dl h sm cap fl at = Some (Inl h')"
  by (simp add: amstrhash_init_def)

abbreviation (input) effective_capacity :: "u64 \<Rightarrow> u64" where
  "effective_capacity cap \<equiv> (if cap < DEFAULT_INITIAL_CAPACITY then DEFAULT_INITIAL_CAPACITY else cap)"

lemma effective_capacity_pos: "effective_capacity cap \<noteq> 0"
  by (auto simp: DEFAULT_INITIAL_CAPACITY_def)

lemma amstrhash_init_ok:
  assumes al: "malloc_spec alloc" and cap: "24 * unat (effective_capacity cap) < 2 ^ 64"
    and m1: "malloc alloc HASH_BYTES h = (Some a, h1)"
    and m2: "malloc alloc (effective_capacity cap * BUCKET_BYTES) h1 = (Some b, h2)"
    and sm: "\<forall>p. sm p \<noteq> None \<longrightarrow> live h p \<noteq> None"
  shows "\<exists>s F. amstrhash_init alloc 0 dl h sm cap fl at = Some (Inr s) \<and> table_ok s F \<and> entries s F = [] \<and>
    contents s F = Map.empty \<and> hsize s = 0 \<and> lock s = Unlocked \<and> flags s = fl \<and> attr s = effective_attr at \<and>
    capacity s = effective_capacity cap \<and> strs s = sm \<and> deleted s = [] \<and> handle s = a \<and> mem s = h2 \<and> reports_deadlock s = dl \<and> F FreeAnchor = []"
proof -
  let ?c = "effective_capacity cap"
  note A = malloc_Some [OF al m1] and B = malloc_Some [OF al m2]
  let ?s0 = "\<lparr>handle = a, flags = fl, attr = effective_attr at, free_size = 0, capacity = ?c,
      hsize = 0, lock = Unlocked, reports_deadlock = dl, buckets = b, hlinks = (\<lambda>_. \<lparr>lnext = None, lprev = None\<rparr>), bsize = (\<lambda>_ _. 0),
      ents = (\<lambda>_. \<lparr>ekey = None, key_hash = 0, evalue = None\<rparr>), strs = sm, mem = h2, deleted = []\<rparr>"
  have sz: "unat (?c * BUCKET_BYTES) = 24 * unat ?c"
  proof -
    have "unat ?c * unat BUCKET_BYTES < 2 ^ 64" using cap by (simp add: BUCKET_BYTES_def)
    from times_fits [OF this] show ?thesis by (simp add: BUCKET_BYTES_def)
  qed
  have inb: "bucket_in ?s0 (b, i)" if "i < unat ?c" for i
    using that B(2) sz by (simp add: bucket_in_def BUCKET_BYTES_def)
  have f0: "forest (hlinks ?s0) {} (links_of (\<lambda>_. []))" by (simp add: forest_def)
  have "\<exists>s' F'. init_buckets_from ?s0 [0 ..< unat ?c] = Some s' \<and> relinked ?s0 s' \<and>
    forest (hlinks s') ({} \<union> BucketOf (buckets ?s0) ` set [0 ..< unat ?c]) (links_of F') \<and>
    (\<forall>i \<in> set [0 ..< unat ?c]. F' (BucketOf (buckets ?s0) i) = [] \<and> bsize s' (buckets ?s0) i = 0) \<and>
    (\<forall>l. l \<notin> BucketOf (buckets ?s0) ` set [0 ..< unat ?c] \<longrightarrow> F' l = (\<lambda>_. []) l) \<and>
    (\<forall>b i. b \<noteq> buckets ?s0 \<or> i \<notin> set [0 ..< unat ?c] \<longrightarrow> bsize s' b i = bsize ?s0 b i)"
    by (rule init_buckets_from_ok [OF _ _ f0]) (use inb in auto)
  then obtain s1 F1 where i: "amstrhash_init_buckets ?s0 = Some s1" "relinked ?s0 s1"
    "forest (hlinks s1) (bkts b (unat ?c)) (links_of F1)"
    "\<forall>i < unat ?c. F1 (BucketOf b i) = [] \<and> bsize s1 b i = 0"
    by (auto simp: amstrhash_init_buckets_def bkts_def atLeast0LessThan)
  note r = relinkedD [OF i(2), simplified]
  let ?s = "s1\<lparr>hlinks := amlist_init (hlinks s1) FreeAnchor\<rparr>" and ?F = "F1(FreeAnchor := [])"
  have "\<forall>m \<in> bkts b (unat ?c). FreeAnchor \<notin> set (links_of F1 m)" by auto
  from forest_init [OF i(3) this] have f: "forest (hlinks ?s) (insert FreeAnchor (bkts b (unat ?c))) (links_of ?F)"
    using links_of_upd [of F1 FreeAnchor "[]"] by simp
  have e: "entries ?s ?F = []" using i(4) by (auto simp: entries_def r)
  have "table_ok ?s ?F" unfolding table_ok_def e
  proof (intro conjI)
    show "24 * unat (capacity ?s) < 2 ^ 63" using B(3) sz by (simp add: r)
    show "array_ok ?s ?F (buckets ?s) (unat (capacity ?s))"
      using i(4) B(2) sz by (simp add: array_ok_def r)
    show "forest (hlinks ?s) (insert FreeAnchor (bkts (buckets ?s) (unat (capacity ?s)))) (links_of ?F)"
      using f by (simp add: r)
    have "live h b = None" using A(2) B(1) by (cases "a = b") auto
    then show "strs ?s (buckets ?s) = None" using sm [rule_format, of b] by (cases "sm b") (simp_all add: r)
    show "\<forall>p. strs ?s p \<noteq> None \<longrightarrow> live (mem ?s) p \<noteq> None"
      using sm A(2) B(2) by (simp add: r)
    show "capacity ?s \<noteq> 0" using effective_capacity_pos by (simp add: r)
  qed (use i(4) in \<open>auto simp: r keys_owned_def\<close>)
  moreover have "amstrhash_init alloc 0 dl h sm cap fl at = Some (Inr ?s)"
    using m1 m2 i(1) by (simp add: amstrhash_init_def Let_def)
  moreover have "contents ?s ?F = Map.empty" by (simp add: contents_def tbl_def e fun_eq_iff)
  ultimately show ?thesis using e by (intro exI [of _ ?s] exI [of _ ?F]) (simp add: r)
qed

section \<open>Destruction\<close>

text \<open>The callbacks for a list of entries.\<close>

definition callbacks :: "amstrhash \<Rightarrow> bool \<Rightarrow> addr list \<Rightarrow> (addr option \<times> addr option) list" where
  "callbacks s cb xs = (if on_delete (attr s) \<and> cb then map (\<lambda>a. (ekey (ents s a), evalue (ents s a))) xs else [])"

lemma remove_entries_ok:
  assumes "table_ok s F" and "i < unat (capacity s)"
  shows "\<exists>s' F'. remove_entries s (BucketOf (buckets s) i) cb = Some s' \<and> table_ok s' F' \<and> shrunk s F s' F' \<and>
    F' (BucketOf (buckets s) i) = [] \<and>
    (\<forall>j < unat (capacity s). j \<noteq> i \<longrightarrow> F' (BucketOf (buckets s) j) = F (BucketOf (buckets s) j)) \<and>
    capacity s' = capacity s \<and> buckets s' = buckets s \<and> attr s' = attr s \<and> flags s' = flags s \<and> lock s' = lock s \<and>
    handle s' = handle s \<and>
    (\<forall>x. x \<notin> set (F (BucketOf (buckets s) i)) \<longrightarrow> ents s' x = ents s x) \<and>
    deleted s' = deleted s @ callbacks s cb (F (BucketOf (buckets s) i))"
  using assms
proof (induction "F (BucketOf (buckets s) i)" arbitrary: s F)
  case Nil
  note t = table_okD [OF Nil.prems(1)]
  have "BucketOf (buckets s) i \<in> insert FreeAnchor (bkts (buckets s) (unat (capacity s)))"
    using Nil.prems(2) by (auto simp: bkts_def)
  from list_first_ok(1) [OF t(4) this] Nil.hyps
  have "remove_entries s (BucketOf (buckets s) i) cb = Some s" by (subst remove_entries.simps) simp
  then show ?case using Nil by (intro exI [of _ s] exI [of _ F]) (simp add: callbacks_def flip: Nil.hyps)
next
  case (Cons a as)
  note t = table_okD [OF Cons.prems(1)]
  note l = Cons.hyps(2) [symmetric]
  let ?b = "buckets s"
  let ?l = "BucketOf ?b i"
  have lA: "?l \<in> insert FreeAnchor (bkts ?b (unat (capacity s)))" using Cons.prems(2) by (auto simp: bkts_def)
  have a: "a \<in> set (entries s F)" using Cons.prems(2) l by (auto simp: set_entries intro: bexI [of _ i])
  from ent_remove_ok [OF Cons.prems(1) a, of cb] obtain s1 F1 where
    r: "amstrhash_ent_remove s a cb False = Some s1" and rm: "removed s F a cb s1 F1" by blast
  note R = rm [unfolded removed_def]
  have step: "remove_entries s ?l cb = remove_entries s1 ?l cb"
    using list_first_ok [OF t(4) lA] l r by (subst remove_entries.simps) simp
  have F1: "F1 (BucketOf ?b j) = remove1 a (F (BucketOf ?b j))" if "j < unat (capacity s)" for j
    using R that by (auto simp: bkts_def)
  have F1i: "F1 ?l = as" using F1 [OF Cons.prems(2)] l by simp
  have other: "F1 (BucketOf ?b j) = F (BucketOf ?b j)" if "j < unat (capacity s)" "j \<noteq> i" for j
  proof -
    have "a \<notin> set (F (BucketOf ?b j))"
      using t(5) [OF that(1), of a] t(5) [OF Cons.prems(2), of a] that(2) l by auto
    with F1 [OF that(1)] show ?thesis by (simp add: remove1_idem)
  qed
  have "\<exists>s' F'. remove_entries s1 (BucketOf (buckets s1) i) cb = Some s' \<and> table_ok s' F' \<and> shrunk s1 F1 s' F' \<and>
    F' (BucketOf (buckets s1) i) = [] \<and>
    (\<forall>j < unat (capacity s1). j \<noteq> i \<longrightarrow> F' (BucketOf (buckets s1) j) = F1 (BucketOf (buckets s1) j)) \<and>
    capacity s' = capacity s1 \<and> buckets s' = buckets s1 \<and> attr s' = attr s1 \<and> flags s' = flags s1 \<and> lock s' = lock s1 \<and>
    handle s' = handle s1 \<and>
    (\<forall>x. x \<notin> set (F1 (BucketOf (buckets s1) i)) \<longrightarrow> ents s' x = ents s1 x) \<and>
    deleted s' = deleted s1 @ callbacks s1 cb (F1 (BucketOf (buckets s1) i))"
    by (rule Cons.hyps(1)) (use R Cons.prems(2) F1i in simp_all)
  moreover have bc: "buckets s1 = ?b" "capacity s1 = capacity s" "attr s1 = attr s" "flags s1 = flags s" "lock s1 = lock s"
    "handle s1 = handle s" using R by simp_all
  ultimately obtain s' F' where s': "remove_entries s1 ?l cb = Some s'" "table_ok s' F'" "shrunk s1 F1 s' F'" "F' ?l = []"
    "\<forall>j < unat (capacity s). j \<noteq> i \<longrightarrow> F' (BucketOf ?b j) = F1 (BucketOf ?b j)"
    "capacity s' = capacity s" "buckets s' = ?b" "attr s' = attr s" "flags s' = flags s" "lock s' = lock s"
    "handle s' = handle s" "\<forall>x. x \<notin> set as \<longrightarrow> ents s' x = ents s1 x"
    "deleted s' = deleted s1 @ callbacks s1 cb as"
    by (auto simp: F1i)
  have d': "distinct (a # as)" using forest_entries_distinct [OF t(4) lA] l by simp
  have ne: "ents s1 x = ents s x" if "x \<noteq> a" for x using R that by blast
  have "ents s1 x = ents s x" if "x \<in> set as" for x by (rule ne) (use that d' in auto)
  then have "callbacks s1 cb as = callbacks s cb as" using bc(3) by (auto simp: callbacks_def)
  moreover have "deleted s1 = deleted s @ callbacks s cb [a]" using R by (simp add: callbacks_def)
  ultimately have d: "deleted s' = deleted s @ callbacks s cb (F ?l)" using s'(13) l by (simp add: callbacks_def)
  have "shrunk s F s' F'" by (rule shrunk_trans [of s F s1 F1]) (use R s'(3) in blast)+
  moreover have "\<forall>x. x \<notin> set (F ?l) \<longrightarrow> ents s' x = ents s x" using s'(12) ne l by simp
  moreover have "\<forall>j < unat (capacity s). j \<noteq> i \<longrightarrow> F' (BucketOf ?b j) = F (BucketOf ?b j)" using s'(5) other by simp
  ultimately show ?case using step s' d by (intro exI [of _ s'] exI [of _ F']) simp
qed

lemma remove_buckets_ok:
  assumes "table_ok s F" and "set is \<subseteq> {..<unat (capacity s)}" and "distinct is"
  shows "\<exists>s' F'. remove_buckets s cb is = Some s' \<and> table_ok s' F' \<and> shrunk s F s' F' \<and>
    (\<forall>i \<in> set is. F' (BucketOf (buckets s) i) = []) \<and>
    (\<forall>j < unat (capacity s). j \<notin> set is \<longrightarrow> F' (BucketOf (buckets s) j) = F (BucketOf (buckets s) j)) \<and>
    capacity s' = capacity s \<and> buckets s' = buckets s \<and> attr s' = attr s \<and> flags s' = flags s \<and> lock s' = lock s \<and>
    handle s' = handle s \<and>
    deleted s' = deleted s @ callbacks s cb (concat (map (\<lambda>i. F (BucketOf (buckets s) i)) is))"
  using assms
proof (induction "is" arbitrary: s F)
  case Nil
  then show ?case by (intro exI [of _ s] exI [of _ F]) (simp add: callbacks_def)
next
  case (Cons i "is")
  let ?b = "buckets s"
  have i: "i < unat (capacity s)" using Cons.prems(2) by simp
  note t = table_okD [OF Cons.prems(1)]
  from remove_entries_ok [OF Cons.prems(1) i, of cb] obtain s1 F1 where
    r: "remove_entries s (BucketOf ?b i) cb = Some s1" "table_ok s1 F1" "shrunk s F s1 F1" "F1 (BucketOf ?b i) = []"
    "\<forall>j < unat (capacity s). j \<noteq> i \<longrightarrow> F1 (BucketOf ?b j) = F (BucketOf ?b j)"
    and bc: "capacity s1 = capacity s" "buckets s1 = ?b" "attr s1 = attr s" "flags s1 = flags s" "lock s1 = lock s"
    "handle s1 = handle s"
    and e: "\<forall>x. x \<notin> set (F (BucketOf ?b i)) \<longrightarrow> ents s1 x = ents s x"
    and d: "deleted s1 = deleted s @ callbacks s cb (F (BucketOf ?b i))" by blast
  have step: "remove_buckets s cb (i # is) = remove_buckets s1 cb is"
    using r(1) bucket_size_get(3) [OF t(3) i] by (simp add: c_assert_def)
  have m: "map (\<lambda>i. F1 (BucketOf ?b i)) is = map (\<lambda>i. F (BucketOf ?b i)) is"
    using r(5) Cons.prems(2,3) by auto
  have "ents s1 x = ents s x" if "x \<in> set (F (BucketOf ?b j))" "j \<in> set is" for x j
  proof -
    have "j < unat (capacity s)" "j \<noteq> i" using that(2) Cons.prems(2,3) by auto
    with t(5) [of j x] t(5) [OF i, of x] that(1) have "x \<notin> set (F (BucketOf ?b i))" by auto
    with e show ?thesis by blast
  qed
  then have cb: "callbacks s1 cb (concat (map (\<lambda>i. F (BucketOf ?b i)) is)) =
      callbacks s cb (concat (map (\<lambda>i. F (BucketOf ?b i)) is))"
    using bc(3) by (auto simp: callbacks_def)
  have "\<exists>s' F'. remove_buckets s1 cb is = Some s' \<and> table_ok s' F' \<and> shrunk s1 F1 s' F' \<and>
    (\<forall>i \<in> set is. F' (BucketOf (buckets s1) i) = []) \<and>
    (\<forall>j < unat (capacity s1). j \<notin> set is \<longrightarrow> F' (BucketOf (buckets s1) j) = F1 (BucketOf (buckets s1) j)) \<and>
    capacity s' = capacity s1 \<and> buckets s' = buckets s1 \<and> attr s' = attr s1 \<and> flags s' = flags s1 \<and> lock s' = lock s1 \<and>
    handle s' = handle s1 \<and>
    deleted s' = deleted s1 @ callbacks s1 cb (concat (map (\<lambda>i. F1 (BucketOf (buckets s1) i)) is))"
    by (rule Cons.IH [OF r(2)]) (use Cons.prems bc in auto)
  then obtain s' F' where s': "remove_buckets s1 cb is = Some s'" "table_ok s' F'" "shrunk s1 F1 s' F'"
    "\<forall>i \<in> set is. F' (BucketOf ?b i) = []"
    "\<forall>j < unat (capacity s). j \<notin> set is \<longrightarrow> F' (BucketOf ?b j) = F1 (BucketOf ?b j)"
    "capacity s' = capacity s" "buckets s' = ?b" "attr s' = attr s" "flags s' = flags s" "lock s' = lock s"
    "handle s' = handle s"
    "deleted s' = deleted s1 @ callbacks s1 cb (concat (map (\<lambda>i. F (BucketOf ?b i)) is))"
    unfolding bc m by blast
  have "F' (BucketOf ?b i) = []" using s'(5) i Cons.prems(3) r(4) by simp
  with s'(4) have "\<forall>i \<in> set (i # is). F' (BucketOf ?b i) = []" by simp
  moreover have "\<forall>j < unat (capacity s). j \<notin> set (i # is) \<longrightarrow> F' (BucketOf ?b j) = F (BucketOf ?b j)"
    using s'(5) r(5) by simp
  moreover have "deleted s' = deleted s @ callbacks s cb (concat (map (\<lambda>i. F (BucketOf ?b i)) (i # is)))"
    using s'(12) d cb by (simp add: callbacks_def)
  moreover have "shrunk s F s' F'" by (rule shrunk_trans [OF r(3) s'(3)])
  ultimately show ?case using step s' by (intro exI [of _ s'] exI [of _ F']) simp
qed

lemma free_spares_ok:
  assumes "table_ok s F"
  shows "\<exists>s' F'. free_spares s = Some s' \<and> table_ok s' F' \<and> shrunk s F s' F' \<and> F' FreeAnchor = [] \<and>
    entries s' F' = entries s F \<and>
    s' = s\<lparr>hlinks := hlinks s', free_size := free_size s', mem := mem s'\<rparr>"
  using assms
proof (induction "F FreeAnchor" arbitrary: s F)
  case Nil
  note t = table_okD [OF Nil.prems]
  have "free_spares s = Some s"
    using list_first_ok(1) [OF t(4), of FreeAnchor] Nil.hyps by (subst free_spares.simps) simp
  then show ?case using Nil by (intro exI [of _ s] exI [of _ F]) simp
next
  case (Cons a as)
  note t = table_okD [OF Cons.prems]
  from take_spare [OF Cons.prems Cons.hyps(2) [symmetric]] obtain h where
    h: "list_first s FreeAnchor = Some a" "list_del s a = Some (s\<lparr>hlinks := h\<rparr>)" "\<not> amlist_empty (hlinks s) FreeAnchor"
    "table_ok (s\<lparr>hlinks := h, free_size := free_size s - 1\<rparr>) (F(FreeAnchor := as))"
    "entries (s\<lparr>hlinks := h, free_size := free_size s - 1\<rparr>) (F(FreeAnchor := as)) = entries s F"
    "a \<notin> set as" "a \<notin> set (entries s F)" "ent_block s a" by blast
  let ?s1 = "s\<lparr>hlinks := h, free_size := free_size s - 1\<rparr>" and ?F1 = "F(FreeAnchor := as)"
  let ?m = "(mem s)\<lparr>live := (live (mem s))(a := None)\<rparr>"
  let ?s2 = "?s1\<lparr>mem := ?m\<rparr>"
  obtain n where la: "live (mem s) a = Some n" "strs s a = None" "a \<noteq> buckets s"
    using h(8) by (auto simp: ent_block_def)
  have step: "free_spares s = free_spares ?s2"
    using h(1-3) la by (subst free_spares.simps) (simp add: free_ent_def free_block_def)
  have l: "live ?m = (live (mem ?s1))(a := None)" by simp
  have st: "strs s = (strs ?s1)(a := None)" using la(2) by (simp add: fun_upd_idem)
  have "strs ?s1 a = None" using la(2) by simp
  from owned_key_string [OF h(4) _ _ this]
  have k: "has_flag ?s1 FLAG_DUP_KEYS \<longrightarrow> (\<forall>x \<in> set (entries ?s1 ?F1). ekey (ents ?s1 x) \<noteq> Some a)" by blast
  have o: "a \<notin> set (entries ?s1 ?F1 @ ?F1 FreeAnchor)" using h(6,7) by (simp add: h(5))
  have ob: "a \<noteq> buckets ?s1" using la(3) by simp
  note fr = table_ok_free_block(1,2) [OF h(4) l st k o ob]
  have eq: "?s1\<lparr>mem := ?m, strs := strs s\<rparr> = ?s2" by (cases s) simp
  have ok2: "table_ok ?s2 ?F1" using fr(1) unfolding eq .
  have e2: "entries ?s2 ?F1 = entries s F" using fr(2) unfolding eq h(5) .
  have "\<exists>s' F'. free_spares ?s2 = Some s' \<and> table_ok s' F' \<and> shrunk ?s2 ?F1 s' F' \<and> F' FreeAnchor = [] \<and>
    entries s' F' = entries ?s2 ?F1 \<and>
    s' = ?s2\<lparr>hlinks := hlinks s', free_size := free_size s', mem := mem s'\<rparr>"
    by (rule Cons.hyps(1)) (simp_all add: ok2)
  then obtain s' F' where s': "free_spares ?s2 = Some s'" "table_ok s' F'" "shrunk ?s2 ?F1 s' F'" "F' FreeAnchor = []"
    "entries s' F' = entries s F" "s' = ?s2\<lparr>hlinks := hlinks s', free_size := free_size s', mem := mem s'\<rparr>"
    unfolding e2 by blast
  have "shrunk s F ?s2 ?F1"
    using Cons.hyps(2) [symmetric] unfolding shrunk_def e2 by simp
  then have "shrunk s F s' F'" using shrunk_trans s'(3) by blast
  moreover have "s' = s\<lparr>hlinks := hlinks s', free_size := free_size s', mem := mem s'\<rparr>"
    using s'(6) by simp
  ultimately show ?case using step s' by (intro exI [of _ s'] exI [of _ F']) simp
qed

lemma amstrhash_term_ok:
  assumes ok: "table_ok s F" and un: "lock s = Unlocked"
  shows "\<exists>s' F'. amstrhash_term s = Some s' \<and> table_ok s' F' \<and> shrunk s F s' F' \<and> entries s' F' = [] \<and>
    F' FreeAnchor = [] \<and> lock s' = Unlocked \<and> handle s' = handle s \<and> buckets s' = buckets s \<and>
    deleted s' = deleted s @ callbacks s (\<not> has_flag s FLAG_NO_FREE_CB) (entries s F)"
proof -
  let ?s = "s\<lparr>lock := held True s WriteLocked\<rparr>"
  let ?cb = "\<not> has_flag s FLAG_NO_FREE_CB"
  have "table_ok ?s F" "set [0 ..< unat (capacity ?s)] \<subseteq> {..<unat (capacity ?s)}" "distinct [0 ..< unat (capacity ?s)]"
    using ok by auto
  from remove_buckets_ok [OF this, of ?cb] obtain s1 F1 where
    r: "remove_buckets ?s ?cb [0 ..< unat (capacity s)] = Some s1" "table_ok s1 F1" "shrunk ?s F s1 F1"
    "\<forall>i \<in> set [0 ..< unat (capacity s)]. F1 (BucketOf (buckets s) i) = []"
    "capacity s1 = capacity s" "buckets s1 = buckets s" "flags s1 = flags s"
    "lock s1 = held True s WriteLocked" "handle s1 = handle s"
    "deleted s1 = deleted s @ callbacks ?s ?cb (entries s F)"
    by (auto simp: entries_def)
  from free_spares_ok [OF r(2)] obtain s2 F2 where
    f: "free_spares s1 = Some s2" "table_ok s2 F2" "shrunk s1 F1 s2 F2" "F2 FreeAnchor = []"
    "entries s2 F2 = entries s1 F1" "s2 = s1\<lparr>hlinks := hlinks s2, free_size := free_size s2, mem := mem s2\<rparr>" by blast
  have g: "lock s2 = lock s1" "flags s2 = flags s1" "handle s2 = handle s1" "buckets s2 = buckets s1"
    "deleted s2 = deleted s1" by (subst f(6), simp)+
  have u: "unlock_if True s2 = s2\<lparr>lock := Unlocked\<rparr>"
    by (rule unlock_if_eq [of _ _ s WriteLocked]) (simp_all add: g r)
  have "amstrhash_term s = Some (s2\<lparr>lock := Unlocked\<rparr>)"
    using r(1) f(1) u by (simp add: amstrhash_term_def lock_if_eq(1) [OF un])
  moreover have "entries s1 F1 = []" using r(4) by (simp add: entries_def r(5,6))
  moreover have "shrunk s F (s2\<lparr>lock := Unlocked\<rparr>) F2"
    using shrunk_trans [OF r(3) f(3)] by (simp add: shrunk_def)
  moreover have "callbacks ?s ?cb (entries s F) = callbacks s ?cb (entries s F)" by (simp add: callbacks_def)
  ultimately show ?thesis using f g r by (intro exI [of _ "s2\<lparr>lock := Unlocked\<rparr>"] exI [of _ F2]) simp
qed

end
