(* ===== verification/AmStrhashProps.thy ===== *)
theory AmStrhashProps
  imports AmStrhashOps
begin

text \<open>
  The properties of the hash table: what lookup, insertion, removal, growing and destruction do on
  every table that satisfies the invariant, and the behaviours that callers have to know of.
\<close>

section \<open>A table to try things on\<close>

text \<open>Four strings of the client: ''ab'', ''bA'', which has the same hash, ''ab'' again, and ''c''.\<close>

definition demo_strs :: "addr \<rightharpoonup> u8 list" where
  "demo_strs = [50 \<mapsto> [97, 98, 0], 51 \<mapsto> [98, 65, 0], 52 \<mapsto> [97, 98, 0], 53 \<mapsto> [99, 0]]"

definition demo_heap :: heap where
  "demo_heap = \<lparr>live = [50 \<mapsto> 3, 51 \<mapsto> 3, 52 \<mapsto> 3, 53 \<mapsto> 2], calls = 0, refusals = 0\<rparr>"

definition table_heap :: heap where
  "table_heap = \<lparr>live = [50 \<mapsto> 3, 51 \<mapsto> 3, 52 \<mapsto> 3, 53 \<mapsto> 2, 1 \<mapsto> 144, Suc 1 \<mapsto> 192], calls = 2, refusals = 0\<rparr>"

lemma demo_table:
  obtains s F where "amstrhash_init first_fit 0 True demo_heap demo_strs 8 fl at = Some (Inr s)" "table_ok s F"
    "entries s F = []" "contents s F = Map.empty" "hsize s = 0" "lock s = Unlocked" "flags s = fl"
    "attr s = effective_attr at" "capacity s = 8" "strs s = demo_strs" "mem s = table_heap" "F FreeAnchor = []"
proof -
  have "\<exists>s F. amstrhash_init first_fit 0 True demo_heap demo_strs 8 fl at = Some (Inr s) \<and> table_ok s F \<and> entries s F = [] \<and>
    contents s F = Map.empty \<and> hsize s = 0 \<and> lock s = Unlocked \<and> flags s = fl \<and> attr s = effective_attr at \<and>
    capacity s = effective_capacity 8 \<and> strs s = demo_strs \<and> deleted s = [] \<and> handle s = 1 \<and>
    mem s = table_heap \<and> reports_deadlock s = True \<and> F FreeAnchor = []"
  proof (rule amstrhash_init_ok [OF first_fit_spec])
    show "malloc first_fit HASH_BYTES demo_heap =
        (Some 1, \<lparr>live = [50 \<mapsto> 3, 51 \<mapsto> 3, 52 \<mapsto> 3, 53 \<mapsto> 2, 1 \<mapsto> 144], calls = 1, refusals = 0\<rparr>)"
      by (simp add: malloc_def demo_heap_def first_fit_def HASH_BYTES_def Let_def upt_conv_Cons)
    show "malloc first_fit (effective_capacity 8 * BUCKET_BYTES)
        \<lparr>live = [50 \<mapsto> 3, 51 \<mapsto> 3, 52 \<mapsto> 3, 53 \<mapsto> 2, 1 \<mapsto> 144], calls = 1, refusals = 0\<rparr> = (Some (Suc 1), table_heap)"
      by (simp add: malloc_def first_fit_def BUCKET_BYTES_def Let_def upt_conv_Cons DEFAULT_INITIAL_CAPACITY_def table_heap_def)
  qed (auto simp: DEFAULT_INITIAL_CAPACITY_def demo_strs_def demo_heap_def split: if_splits)
  then show ?thesis using that by (auto simp: DEFAULT_INITIAL_CAPACITY_def)
qed

lemma demo_hash:
  assumes "strs s = demo_strs"
  shows "calc_hash s (Some 50) = Some 5863208" "calc_hash s (Some 51) = Some 5863208"
    "calc_hash s (Some 52) = Some 5863208"
  using assms by (simp_all add: calc_hash_def demo_strs_def amshash_def)

text \<open>An insertion that needs one block, which it gets.\<close>

lemma fixed_insert_succeeds:
  assumes ok: "table_ok s F" and un: "lock s = Unlocked" and hv: "calc_hash s key = Some hv" and new: "tbl s F hv = None"
    and fl: "has_flag s FLAG_FIXED_SIZE" "\<not> has_flag s FLAG_DUP_KEYS" and sp: "F FreeAnchor = []"
    and m: "malloc alloc ENTRY_BYTES (mem s) = (Some a, h)" and r: "amstrhash_insert alloc s key v want = Some (rc, old, s')"
  shows "rc = AMRC_SUCCESS" and "mem s' = h" and "strs s' = strs s" and "capacity s' = capacity s"
proof -
  let ?s = "s\<lparr>lock := held True s WriteLocked\<rparr>"
  note t = table_okD [OF ok]
  have ok': "table_ok ?s F" "calc_hash ?s key = Some hv" "key = None \<longrightarrow> tbl ?s F hv = None" "tbl ?s F hv = None"
    using ok hv new by simp_all
  have e: "amlist_empty (hlinks s) FreeAnchor" using list_first_ok(1) [OF t(4)] sp by simp
  have f: "has_flag (s\<lparr>lock := l\<rparr>) x = has_flag s x" for l x by (simp add: has_flag_def)
  have k: "ent_key alloc ?s key = Some (True, key, ?s)" using fl(2) by (auto simp: ent_key_def f split: option.split)
  have n: "amstrhash_ent_new alloc ?s (buckets ?s, unat (hv mod capacity ?s)) key hv v =
      ent_add (?s\<lparr>mem := h\<rparr>) (buckets ?s, unat (hv mod capacity ?s)) a \<lparr>ekey = key, key_hash = hv, evalue = v\<rparr> \<or> free_size s \<noteq> 0"
    using k e m by (auto simp: amstrhash_ent_new_def ent_obtain_def c_assert_def)
  have "amstrhash_insert alloc s key v want =
    do { (rc, s) \<leftarrow> ent_add (?s\<lparr>mem := h\<rparr>) (buckets ?s, unat (hv mod capacity ?s)) a \<lparr>ekey = key, key_hash = hv, evalue = v\<rparr>;
         Some (rc, None, unlock_if True s) }"
    using bucket_of(1) [OF ok'(1), of hv] search_bucket_ok [OF ok'(1-3)] hv fl(1) n t(7) sp ok'(4)
    by (simp add: amstrhash_insert_def lock_if_eq(1) [OF un] insert_absent_def f bind_assoc case_prod_unfold)
  with r obtain u where u: "ent_add (?s\<lparr>mem := h\<rparr>) (buckets ?s, unat (hv mod capacity ?s)) a \<lparr>ekey = key, key_hash = hv, evalue = v\<rparr> = Some (rc, u)"
    "s' = unlock_if True u" by (auto simp: bind_eq_Some_conv)
  from u(1) have "rc = AMRC_SUCCESS" "mem u = h" "strs u = strs s" "capacity u = capacity s"
    by (auto simp: ent_add_def ent_put_def list_add_def bsize_get_def bsize_put_def bind_eq_Some_conv split: if_split_asm)
  then show "rc = AMRC_SUCCESS" "mem s' = h" "strs s' = strs s" "capacity s' = capacity s"
    by (simp_all add: u(2) unlock_if_def unlock_def)
qed

text \<open>The table with the value 7 for the key ''ab''.\<close>

lemma demo_inserted:
  obtains s F s' F' where "amstrhash_init first_fit 0 True demo_heap demo_strs 8 FLAG_FIXED_SIZE None = Some (Inr s)" "table_ok s F"
    "entries s F = []" "contents s F = Map.empty" "lock s = Unlocked" "strs s = demo_strs"
    "amstrhash_insert first_fit s (Some 50) (Some 7) False = Some (AMRC_SUCCESS, None, s')"
    "table_ok s' F'" "lock s' = Unlocked" "contents s' F' = [5863208 \<mapsto> (Some 50, Some 7)]" "strs s' = demo_strs"
    "live (mem s') = (live table_heap)(3 \<mapsto> 40)" "flags s = FLAG_FIXED_SIZE" "flags s' = FLAG_FIXED_SIZE" "capacity s' = 8"
proof -
  obtain s F where s: "amstrhash_init first_fit 0 True demo_heap demo_strs 8 FLAG_FIXED_SIZE None = Some (Inr s)" "table_ok s F"
    "entries s F = []" "contents s F = Map.empty" "hsize s = 0" "lock s = Unlocked" "flags s = FLAG_FIXED_SIZE"
    "strs s = demo_strs" "mem s = table_heap" "F FreeAnchor = []" "capacity s = 8"
    by (rule demo_table) blast
  have new: "tbl s F 5863208 = None" using s(3) by (simp add: tbl_def)
  have fl: "has_flag s FLAG_FIXED_SIZE" "\<not> has_flag s FLAG_DUP_KEYS"
    using s(7) by (simp_all add: has_flag_def FLAG_FIXED_SIZE_def FLAG_DUP_KEYS_def)
  have m: "malloc first_fit ENTRY_BYTES (mem s) = (Some 3, \<lparr>live = (live table_heap)(3 \<mapsto> 40), calls = 3, refusals = 0\<rparr>)"
    unfolding s(9) by (simp add: malloc_def first_fit_def ENTRY_BYTES_def Let_def upt_conv_Cons table_heap_def numeral_3_eq_3)
  have "Some 50 = None \<longrightarrow> tbl s F 5863208 = None" by simp
  from amstrhash_insert_ok [OF s(2) first_fit_spec s(6) demo_hash(1) [OF s(8)] this, of "Some 7" False] new obtain rc s' F' where
    i: "amstrhash_insert first_fit s (Some 50) (Some 7) False = Some (rc, None, s')"
      "rc = AMRC_SUCCESS \<longrightarrow> added s F (Some 50) 5863208 (Some 7) s' F'" by auto
  note r = fixed_insert_succeeds [OF s(2,6) demo_hash(1) [OF s(8)] new fl s(10) m i(1)]
  from i(2) r(1) have a: "table_ok s' F'" "lock s' = Unlocked" "flags s' = FLAG_FIXED_SIZE"
    "\<exists>k. own_key s s' (Some 50) k \<and> contents s' F' = [5863208 \<mapsto> (k, Some 7)]"
    using s(4,6,7) by (auto simp: added_def kept_def)
  from a(4) fl(2) have "contents s' F' = [5863208 \<mapsto> (Some 50, Some 7)]" by (auto simp: own_key_def)
  then show thesis using that [OF s(1-4,6,8)] i(1) r a(1-3) s(7,8,11) by simp
qed

section \<open>Properties\<close>

text \<open>
  C3. \<open>amstrhash_insert\<close> on a valid unlocked table returns, and the table is valid and unlocked afterwards, also after growing. If no entry
  has the hash of the key, the map from hashes to keys and values is extended with the key (or an own copy of its text) and the value; only when
  a call of \<^verbatim>\<open>malloc\<close> failed the call fails, and then contents and size are as before and no block is left over. If an entry
  has the text of the key, its value is replaced with \<^verbatim>\<open>LIBAM_STRHASH_FLAG_OVERWRITE\<close>, and the callback gets the old one; without the flag
  the call fails, says which entry it is and changes nothing.
\<close>

theorem amstrhash_insert_correct:
  assumes "table_ok s F" and "malloc_spec alloc" and "lock s = Unlocked"
    and "calc_hash s key = Some hv" and "key = None \<longrightarrow> tbl s F hv = None"
  shows "\<exists>rc old s' F'. amstrhash_insert alloc s key v want = Some (rc, old, s') \<and>
    table_ok s' F' \<and> lock s' = Unlocked \<and>
    (case tbl s F hv of
       None \<Rightarrow> old = None \<and> rc = (if refused (mem s) (mem s') then AMRC_ERROR else AMRC_SUCCESS) \<and>
         (if rc = AMRC_SUCCESS
          then hsize s' = hsize s + 1 \<and> (\<exists>k. own_key s s' key k \<and> contents s' F' = (contents s F)(hv \<mapsto> (k, v)))
          else hsize s' = hsize s \<and> contents s' F' = contents s F \<and> other_blocks s' = other_blocks s)
     | Some a \<Rightarrow> key_text s (ekey (ents s a)) = key_text s key \<longrightarrow>
         (if has_flag s FLAG_OVERWRITE
          then rc = AMRC_SUCCESS \<and> hsize s' = hsize s \<and>
            map_option snd \<circ> contents s' F' = (map_option snd \<circ> contents s F)(hv \<mapsto> v) \<and>
            map snd (deleted s') = map snd (deleted s) @ (if on_delete (attr s) then [evalue (ents s a)] else [])
          else rc = AMRC_ERROR \<and> old = (if want then Some a else None) \<and> s' = s))"
proof -
  from amstrhash_insert_ok [OF assms, of v want] obtain rc old s' F' where
    r: "amstrhash_insert alloc s key v want = Some (rc, old, s')" and
    c: "case tbl s F hv of
       None \<Rightarrow> old = None \<and>
         (rc = AMRC_SUCCESS \<and> added s F key hv v s' F' \<or> rc = AMRC_ERROR \<and> unchanged s F s' F')
     | Some a \<Rightarrow> F' = F \<and>
         (if has_flag s FLAG_OVERWRITE then rc = AMRC_SUCCESS \<and> old = None \<and> s' = overwritten s key v a
          else rc = AMRC_ERROR \<and> old = (if want then Some a else None) \<and> s' = s)" by blast
  show ?thesis
  proof (cases "tbl s F hv")
    case None
    with c assms(3) show ?thesis
      by (intro exI [of _ rc] exI [of _ old] exI [of _ s'] exI [of _ F'])
        (auto simp: r added_def unchanged_def kept_def refused_def)
  next
    case (Some a)
    have "table_ok (overwritten s key v a) F"
      by (rule table_ok_value(1) [OF assms(1)]) (simp add: overwritten_def)
    moreover have "lock (overwritten s key v a) = Unlocked" using assms(3) by (simp add: overwritten_def)
    moreover have "map_option snd \<circ> contents (overwritten s key v a) F = (map_option snd \<circ> contents s F)(hv \<mapsto> v)"
      unfolding overwritten_contents [OF assms(1) Some] by (simp add: fun_eq_iff)
    moreover have "map snd (deleted (overwritten s key v a)) = map snd (deleted s) @ (if on_delete (attr s) then [evalue (ents s a)] else [])"
      "hsize (overwritten s key v a) = hsize s" by (simp_all add: overwritten_def)
    ultimately show ?thesis
      using c Some assms(1,3)
      by (intro exI [of _ rc] exI [of _ old] exI [of _ s'] exI [of _ F]) (auto simp: r split: if_splits)
  qed
qed

theorem amstrhash_insert_correct_witness:
  "\<exists>s s' F'. amstrhash_init first_fit 0 True demo_heap demo_strs 8 FLAG_FIXED_SIZE None = Some (Inr s) \<and>
     amstrhash_insert first_fit s (Some 50) (Some 7) False = Some (AMRC_SUCCESS, None, s') \<and>
     contents s' F' = [5863208 \<mapsto> (Some 50, Some 7)]"
proof -
  obtain s F s' where s: "amstrhash_init first_fit 0 True demo_heap demo_strs 8 FLAG_FIXED_SIZE None = Some (Inr s)" "table_ok s F"
    "entries s F = []" "contents s F = Map.empty" "lock s = Unlocked" "strs s = demo_strs"
    "amstrhash_insert first_fit s (Some 50) (Some 7) False = Some (AMRC_SUCCESS, None, s')" "flags s = FLAG_FIXED_SIZE"
    by (rule demo_inserted) blast
  have "tbl s F 5863208 = None" using s(3) by (simp add: tbl_def)
  with amstrhash_insert_correct [OF s(2) first_fit_spec s(5) demo_hash(1) [OF s(6)], of "Some 7" False] s(4,7) obtain F' k where
    "own_key s s' (Some 50) k" "contents s' F' = [5863208 \<mapsto> (k, Some 7)]" by (auto split: if_splits)
  moreover from this(1) have "has_flag s FLAG_DUP_KEYS \<or> k = Some 50" by (auto simp: own_key_def)
  ultimately show ?thesis using s(1,7,8) by (auto simp: has_flag_def FLAG_DUP_KEYS_def FLAG_FIXED_SIZE_def)
qed

text \<open>
  \<open>amstrhash_find\<close> on a valid unlocked table finds, for every readable key, exactly the entry
  with the hash of the key, and leaves the table as it is.
\<close>

theorem amstrhash_find_correct:
  assumes "table_ok s F" and "lock s = Unlocked" and "calc_hash s (Some p) = Some hv"
  shows "\<exists>r. amstrhash_find s (Some p) = Some (r, s) \<and>
    (case r of
       None \<Rightarrow> contents s F hv = None \<and> (\<forall>a \<in> set (entries s F). key_hash (ents s a) \<noteq> hv)
     | Some a \<Rightarrow> a \<in> set (entries s F) \<and> key_hash (ents s a) = hv \<and>
         contents s F hv = Some (ekey (ents s a), evalue (ents s a)) \<and>
         amstrhash_get_ent_value s a = Some (evalue (ents s a)))"
proof -
  have "amstrhash_find s (Some p) = Some (tbl s F hv, s)" by (rule amstrhash_find_ok [OF assms]) simp
  moreover have "live (mem s) a \<noteq> None" if "a \<in> set (entries s F)" for a
    using table_okD(8) [OF assms(1) that] by (simp add: ent_block_def)
  ultimately show ?thesis
    using tbl_iff [OF assms(1), of hv] tbl_None [of s F hv]
    by (cases "tbl s F hv") (auto simp: contents_def amstrhash_get_ent_value_def ent_get_def)
qed

theorem amstrhash_find_correct_witness:
  "\<exists>s. amstrhash_init first_fit 0 True demo_heap demo_strs 8 0 None = Some (Inr s) \<and>
     amstrhash_find s (Some 50) = Some (None, s)"
proof -
  obtain s F where s: "amstrhash_init first_fit 0 True demo_heap demo_strs 8 0 None = Some (Inr s)" "table_ok s F"
    "entries s F = []" "lock s = Unlocked" "strs s = demo_strs"
    by (rule demo_table) blast
  from amstrhash_find_correct [OF s(2,4) demo_hash(1) [OF s(5)]] s(1,3) show ?thesis
    by (auto split: option.splits)
qed

text \<open>The hash is one of the text.\<close>

lemma calc_hash_text:
  assumes "calc_hash s (Some q) = Some hq" and "calc_hash s k = Some hv" and "key_text s (Some q) = key_text s k"
  shows "hq = hv"
proof -
  from assms(1) obtain x where x: "strs s q = Some x" "0 \<in> set x" by (rule calc_hash_readable)
  with assms(3) obtain p where p: "k = Some p" by (cases k) (auto simp: key_text_def)
  from assms(2) [unfolded p] obtain y where y: "strs s p = Some y" "0 \<in> set y" by (rule calc_hash_readable)
  have "c_str x = c_str y" using assms(3) x(1) y(1) p by (simp add: key_text_def)
  then have "amshash x = amshash y" using amshash_copy [OF x(2)] amshash_copy [OF y(2)] by metis
  then show ?thesis using assms(1,2) x(1) y(1) p by (simp add: calc_hash_def)
qed

text \<open>
  C22. Round trip: after a successful \<open>amstrhash_insert\<close> of a key and a value, when no other text in the table has the hash of the key, \<open>amstrhash_find\<close>
  of any pointer to the text of the key finds an entry with that text and the value. A text with another hash is found as before, or not found as before.
\<close>

theorem amstrhash_insert_then_find:
  assumes "table_ok s F" and "malloc_spec alloc" and "lock s = Unlocked"
    and "calc_hash s key = Some hv" and "key = None \<longrightarrow> tbl s F hv = None"
    and alone: "\<forall>a \<in> set (entries s F). key_hash (ents s a) = hv \<longrightarrow> key_text s (ekey (ents s a)) = key_text s key"
    and "amstrhash_insert alloc s key v want = Some (AMRC_SUCCESS, old, s')"
    and "calc_hash s (Some q) = Some hq"
  shows "\<exists>r r0. amstrhash_find s' (Some q) = Some (r, s') \<and> amstrhash_find s (Some q) = Some (r0, s) \<and>
    (if key_text s (Some q) = key_text s key
     then \<exists>a. r = Some a \<and> evalue (ents s' a) = v \<and> key_text s' (ekey (ents s' a)) = key_text s key
     else hq \<noteq> hv \<longrightarrow> map_option (\<lambda>a. evalue (ents s' a)) r = map_option (\<lambda>a. evalue (ents s a)) r0)"
proof -
  from amstrhash_insert_ok [OF assms(1-5), of v want] assms(7) obtain F' where
    c: "case tbl s F hv of
       None \<Rightarrow> added s F key hv v s' F'
     | Some a \<Rightarrow> F' = F \<and> s' = overwritten s key v a" by (cases "tbl s F hv") (auto split: if_splits)
  have "table_ok s' F' \<and> lock s' = Unlocked \<and> calc_hash s' (Some q) = Some hq \<and>
      (\<exists>k. contents s' F' = (contents s F)(hv \<mapsto> (k, v)) \<and> key_text s' k = key_text s key)"
  proof (cases "tbl s F hv")
    case None
    with c have "added s F key hv v s' F'" by simp
    then show ?thesis using kept_calc_hash [OF _ assms(8)] assms(3) by (auto simp: added_def kept_def own_key_def)
  next
    case (Some a)
    with c have s': "F' = F" "s' = overwritten s key v a" by simp_all
    have "table_ok s' F" by (rule table_ok_value(1) [OF assms(1)]) (simp add: s' overwritten_def)
    moreover have st: "strs s' = strs s" by (simp add: s' overwritten_def)
    then have "calc_hash s' = calc_hash s" by (rule calc_hash_cong)
    moreover have "key_text s' (ekey (ents s a)) = key_text s key"
      using alone Some tbl_iff [OF assms(1)] st by (auto simp: key_text_def cong: option.case_cong)
    ultimately show ?thesis
      using s' overwritten_contents [OF assms(1) Some] assms(3,8) by (auto simp: overwritten_def)
  qed
  then obtain k where t: "table_ok s' F'" "lock s' = Unlocked" "calc_hash s' (Some q) = Some hq" "key_text s' k = key_text s key"
    and k: "contents s' F' = (contents s F)(hv \<mapsto> (k, v))" by blast
  have f: "amstrhash_find s' (Some q) = Some (tbl s' F' hq, s')" "amstrhash_find s (Some q) = Some (tbl s F hq, s)"
    using amstrhash_find_ok [OF t(1-3)] amstrhash_find_ok [OF assms(1,3,8)] by simp_all
  have "\<exists>a. tbl s' F' hv = Some a \<and> ekey (ents s' a) = k \<and> evalue (ents s' a) = v"
    using fun_cong [OF k, of hv] by (auto simp: contents_def)
  moreover have "hq = hv" if "key_text s (Some q) = key_text s key" using calc_hash_text [OF assms(8,4) that] .
  moreover have "map_option (\<lambda>a. evalue (ents s' a)) (tbl s' F' hq) = map_option (\<lambda>a. evalue (ents s a)) (tbl s F hq)" if "hq \<noteq> hv"
    using arg_cong [OF fun_cong [OF k, of hq], of "map_option snd"] that by (simp add: contents_def option.map_comp comp_def)
  ultimately show ?thesis using f t(4) by auto
qed

theorem amstrhash_insert_then_find_witness:
  "\<exists>s s' a. amstrhash_init first_fit 0 True demo_heap demo_strs 8 FLAG_FIXED_SIZE None = Some (Inr s) \<and>
     amstrhash_insert first_fit s (Some 50) (Some 7) False = Some (AMRC_SUCCESS, None, s') \<and>
     amstrhash_find s' (Some 52) = Some (Some a, s') \<and> evalue (ents s' a) = Some 7"
proof -
  obtain s F s' where s: "amstrhash_init first_fit 0 True demo_heap demo_strs 8 FLAG_FIXED_SIZE None = Some (Inr s)" "table_ok s F"
    "entries s F = []" "lock s = Unlocked" "strs s = demo_strs"
    "amstrhash_insert first_fit s (Some 50) (Some 7) False = Some (AMRC_SUCCESS, None, s')"
    by (rule demo_inserted) blast
  have t: "key_text s (Some 52) = key_text s (Some 50)" by (simp add: key_text_def s(5) demo_strs_def)
  have "\<forall>a \<in> set (entries s F). key_hash (ents s a) = 5863208 \<longrightarrow> key_text s (ekey (ents s a)) = key_text s (Some 50)"
    using s(3) by simp
  from amstrhash_insert_then_find [OF s(2) first_fit_spec s(4) demo_hash(1) [OF s(5)] _ this s(6) demo_hash(3) [OF s(5)]] t s(1,6)
  show ?thesis by auto
qed



text \<open>
  Without the key the early return leaves the lock held: where the lock reports deadlocks, the next call goes on with it and releases it;
  where it does not, no later call returns.
\<close>

lemma amstrhash_remove_key_keeps_lock:
  assumes "table_ok s F" and "lock s = Unlocked" and "calc_hash s (Some p) = Some hv" and "tbl s F hv = None" and "has_flag s FLAG_USE_LOCK"
  shows "amstrhash_remove_key s (Some p) = Some (AMRC_ERROR, s\<lparr>lock := WriteLocked\<rparr>)"
    and "\<not> reports_deadlock s \<Longrightarrow> amstrhash_find (s\<lparr>lock := WriteLocked\<rparr>) key = None \<and>
      amstrhash_insert alloc (s\<lparr>lock := WriteLocked\<rparr>) key v want = None \<and> amstrhash_remove_key (s\<lparr>lock := WriteLocked\<rparr>) key = None"
    and "reports_deadlock s \<Longrightarrow> amstrhash_find (s\<lparr>lock := WriteLocked\<rparr>) (Some p) = Some (None, s)"
proof -
  let ?s = "s\<lparr>lock := WriteLocked\<rparr>"
  show "amstrhash_remove_key s (Some p) = Some (AMRC_ERROR, ?s)"
    using amstrhash_remove_key_ok [OF assms(1-3)] assms(4,5) by (simp add: held_def)
  have f: "has_flag ?s FLAG_USE_LOCK" using assms(5) by (simp add: has_flag_def)
  show "amstrhash_find ?s key = None \<and> amstrhash_insert alloc ?s key v want = None \<and> amstrhash_remove_key ?s key = None"
    if "\<not> reports_deadlock s"
  proof -
    have "lock_if True wrlock ?s = None" "lock_if True rdlock ?s = None" using f that by (simp_all add: lock_if_def wrlock_def rdlock_def)
    then show ?thesis
      by (auto simp: amstrhash_find_def amstrhash_find_lock_def amstrhash_insert_def amstrhash_remove_key_def bind_eq_None_conv)
  qed
  show "amstrhash_find ?s (Some p) = Some (None, s)" if "reports_deadlock s"
  proof -
    have l: "lock_if True rdlock ?s = Some ?s" using f that by (simp add: lock_if_def rdlock_def)
    have ok: "table_ok ?s F" "calc_hash ?s (Some p) = Some hv" "Some p = None \<longrightarrow> tbl ?s F hv = None" using assms(1,3) by simp_all
    have "unlock_if True ?s = s" using f assms(2) by (cases s) (simp add: unlock_if_def unlock_def)
    then show ?thesis using l bucket_of(1) [OF ok(1), of hv] search_bucket_ok [OF ok] assms(3,4)
      by (simp add: amstrhash_find_def amstrhash_find_lock_def)
  qed
qed

text \<open>
  C30. \<open>amstrhash_upsize\<close> loses no entry and invents none: unless \<^verbatim>\<open>malloc\<close> refuses the new array, the call succeeds, the capacity
  is doubled, the table is valid and maps every hash to the key and the value it had, and the old array is freed; when it is refused,
  nothing changes.
\<close>

theorem amstrhash_upsize_correct:
  assumes "table_ok s F" and "malloc_spec alloc"
  shows "\<exists>rc s' F'. amstrhash_upsize alloc s = Some (rc, s') \<and> table_ok s' F' \<and>
    contents s' F' = contents s F \<and> set (entries s' F') = set (entries s F) \<and> hsize s' = hsize s \<and> other_blocks s' = other_blocks s \<and>
    (case fst (malloc alloc (capacity s * 2 * BUCKET_BYTES) (mem s)) of
       None \<Rightarrow> rc = AMRC_ERROR \<and> capacity s' = capacity s \<and> live (mem s') = live (mem s)
     | Some b \<Rightarrow> rc = AMRC_SUCCESS \<and> unat (capacity s') = 2 * unat (capacity s) \<and> buckets s' = b \<and> live (mem s') (buckets s) = None)"
proof -
  obtain p h where m: "malloc alloc (capacity s * 2 * BUCKET_BYTES) (mem s) = (p, h)" by fastforce
  show ?thesis
  proof (cases p)
    case None
    have "contents (s\<lparr>mem := h\<rparr>) F = contents s F" "entries (s\<lparr>mem := h\<rparr>) F = entries s F"
      by (simp_all add: contents_def tbl_def entries_def fun_eq_iff)
    with amstrhash_upsize_fails [OF assms(1) m [unfolded None]] malloc_None [OF m [unfolded None]] m None
    show ?thesis by (intro exI [of _ AMRC_ERROR] exI [of _ "s\<lparr>mem := h\<rparr>"] exI [of _ F]) (simp add: other_blocks_def)
  next
    case (Some b)
    from amstrhash_upsize_works [OF assms m [unfolded Some]] obtain s' F' where
      u: "amstrhash_upsize alloc s = Some (AMRC_SUCCESS, s')" "table_ok s' F'" "same_contents s F s' F'"
      "capacity s' = capacity s * 2" "buckets s' = b" "live (mem s') (buckets s) = None" by blast
    have "unat (capacity s') = 2 * unat (capacity s)"
      using u(4) double_capacity(1) [OF table_okD(2) [OF assms(1)]] by simp
    with u same_contents_map(1) [OF assms(1) u(2,3)] m Some show ?thesis by (auto simp: same_contents_def other_blocks_def)
  qed
qed

theorem amstrhash_upsize_correct_witness:
  "\<exists>s s' s'' F'. amstrhash_init first_fit 0 True demo_heap demo_strs 8 FLAG_FIXED_SIZE None = Some (Inr s) \<and>
     amstrhash_insert first_fit s (Some 50) (Some 7) False = Some (AMRC_SUCCESS, None, s') \<and>
     amstrhash_upsize first_fit s' = Some (AMRC_SUCCESS, s'') \<and> contents s'' F' = [5863208 \<mapsto> (Some 50, Some 7)]"
proof -
  obtain s s' F' where s: "amstrhash_init first_fit 0 True demo_heap demo_strs 8 FLAG_FIXED_SIZE None = Some (Inr s)"
    "amstrhash_insert first_fit s (Some 50) (Some 7) False = Some (AMRC_SUCCESS, None, s')"
    "table_ok s' F'" "contents s' F' = [5863208 \<mapsto> (Some 50, Some 7)]" "live (mem s') = (live table_heap)(3 \<mapsto> 40)" "capacity s' = 8"
    by (rule demo_inserted) blast
  have "fst (malloc first_fit (8 * 2 * BUCKET_BYTES) (mem s')) = Some 4"
    using first_fit_at [of 4 "(live table_heap)(3 \<mapsto> 40)" "8 * 2 * BUCKET_BYTES"]
    by (auto simp: malloc_def BUCKET_BYTES_def s(5) table_heap_def upt_conv_Cons split: option.split)
  with amstrhash_upsize_correct [OF s(3) first_fit_spec] s(4,6) obtain s'' F'' where
    "amstrhash_upsize first_fit s' = Some (AMRC_SUCCESS, s'')" "contents s'' F'' = [5863208 \<mapsto> (Some 50, Some 7)]" by auto
  with s(1,2) show ?thesis by blast
qed

text \<open>
  C31. \<open>amstrhash_term\<close> returns on every valid unlocked table; every entry and every spare entry is
  freed, and the callback has been called once for every entry, in the order of the buckets, unless
  \<open>LIBAM_STRHASH_FLAG_NO_FREE_CB\<close> is set. The blocks of the bucket array and of the table itself are
  not freed.
\<close>

theorem amstrhash_term_correct:
  assumes "table_ok s F" and "lock s = Unlocked"
  shows "\<exists>s'. amstrhash_term s = Some s' \<and>
    (\<forall>a \<in> set (entries s F @ F FreeAnchor). live (mem s') a = None) \<and>
    deleted s' = deleted s @
      (if on_delete (attr s) \<and> \<not> has_flag s FLAG_NO_FREE_CB
       then map (\<lambda>a. (ekey (ents s a), evalue (ents s a))) (entries s F) else []) \<and>
    live (mem s') (buckets s) = live (mem s) (buckets s)"
proof -
  from amstrhash_term_ok [OF assms] obtain s' F' where r: "amstrhash_term s = Some s'" "shrunk s F s' F'"
    "entries s' F' = []" "F' FreeAnchor = []"
    "deleted s' = deleted s @ callbacks s (\<not> has_flag s FLAG_NO_FREE_CB) (entries s F)" by blast
  note t = table_okD [OF assms(1)]
  have "live (mem s') a = None" if "a \<in> set (entries s F @ F FreeAnchor)" for a
    using r(2) [unfolded shrunk_def, THEN conjunct1, rule_format, of a] that r(3,4) by fastforce
  moreover have "buckets s \<notin> set (entries s F @ F FreeAnchor)"
    using t(8,9) by (auto simp: ent_block_def)
  then have "live (mem s') (buckets s) = live (mem s) (buckets s)"
    using r(2) [unfolded shrunk_def, THEN conjunct2, rule_format, of "buckets s"] t(12) by blast
  ultimately show ?thesis using r(1,5) by (auto simp: callbacks_def)
qed

theorem amstrhash_term_correct_witness:
  "\<exists>s s'. amstrhash_init first_fit 0 True demo_heap demo_strs 8 0 None = Some (Inr s) \<and> amstrhash_term s = Some s' \<and>
     live (mem s') (buckets s) \<noteq> None"
proof -
  obtain s F where s: "amstrhash_init first_fit 0 True demo_heap demo_strs 8 0 None = Some (Inr s)" "table_ok s F"
    "lock s = Unlocked"
    by (rule demo_table) blast
  have "live (mem s) (buckets s) \<noteq> None" using table_okD(3) [OF s(2)] by (auto simp: array_ok_def)
  with amstrhash_term_correct [OF s(2,3)] s(1) show ?thesis by fastforce
qed

section \<open>Behaviours to know of\<close>

text \<open>
  Two texts with the same hash are one key: after ''ab'' is inserted, removing ''bA'' removes its
  entry.
\<close>

lemma amstrhash_colliding_keys:
  assumes "table_ok s F" and "lock s = Unlocked" and "calc_hash s (Some p) = Some hv" and "calc_hash s (Some q) = Some hv"
  shows "amstrhash_find s (Some p) = amstrhash_find s (Some q)"
  using amstrhash_find_ok [OF assms(1-3)] amstrhash_find_ok [OF assms(1,2,4)] by simp

lemma amstrhash_collision:
  "strs s = demo_strs \<Longrightarrow> calc_hash s (Some 50) = calc_hash s (Some 51) \<and> key_text s (Some 50) \<noteq> key_text s (Some 51)"
  using demo_hash [of s] by (simp add: key_text_def demo_strs_def c_str_def)

text \<open>A second insertion of the key \<^verbatim>\<open>NULL\<close> compares two null pointers with \<^verbatim>\<open>strcmp\<close>.\<close>

lemma amstrhash_null_key_crashes:
  assumes "table_ok s F" and "lock s = Unlocked" and a: "a \<in> set (entries s F)" "key_hash (ents s a) = - 1" "ekey (ents s a) = None"
    and first: "F (BucketOf (buckets s) (slot s a)) = a # as"
  shows "amstrhash_find s None = None"
proof -
  note t = table_okD [OF assms(1)]
  have j: "slot s a < unat (capacity s)" by (rule slot_less [OF t(1)])
  have la: "live (mem s) a \<noteq> None" using t(8) [OF a(1)] by (simp add: ent_block_def)
  have "dlist (hlinks s) (BucketOf (buckets s) (slot s a)) (links_of F (BucketOf (buckets s) (slot s a)))"
    by (rule forest_dlist [OF t(4)]) (use j in \<open>auto simp: bkts_def\<close>)
  then have "lnext (hlinks s (BucketOf (buckets s) (slot s a))) = Some (EntLink a)"
    by (simp add: dlist_def first)
  moreover have "search_list (s\<lparr>lock := l\<rparr>) (BucketOf (buckets s) (slot s a)) (- 1) None (EntLink a) = None" for l
    using la a by (subst search_list.simps) (simp add: ent_get_def ent_found_def str_equal_def)
  ultimately show ?thesis
    using a(2) t(1)
    by (simp add: amstrhash_find_def amstrhash_find_lock_def calc_hash_def lock_if_eq(2) [OF assms(2)]
        amstrhash_bucket_def search_bucket_def anchor_def slot_def c_assert_def bind_eq_None_conv)
qed

text \<open>A capacity for which the size of the array wraps around to 0 makes the initialisation write outside of it.\<close>

lemma init_buckets_outside:
  assumes "capacity s \<noteq> 0" and "\<not> bucket_in s (buckets s, 0)"
  shows "amstrhash_init_buckets s = None"
proof -
  have "0 < unat (capacity s)" using assms(1) by (simp add: unat_gt_0)
  then have "[0 ..< unat (capacity s)] = 0 # [1 ..< unat (capacity s)]" by (simp add: upt_conv_Cons)
  with assms(2) show ?thesis by (simp add: amstrhash_init_buckets_def bsize_put_def)
qed

lemma amstrhash_init_overflow:
  assumes "malloc alloc HASH_BYTES h = (Some a, h1)" and "malloc alloc 0 h1 = (Some b, h2)" and "malloc_spec alloc"
  shows "amstrhash_init alloc 0 dl h sm 2305843009213693952 fl at = None"
proof -
  have "live h2 b = Some 0" using malloc_Some(2) [OF assms(3,2)] by simp
  then have "\<not> bucket_in t (buckets t, 0)" if "mem t = h2" "buckets t = b" for t
    using that by (simp add: bucket_in_def BUCKET_BYTES_def)
  moreover have "2305843009213693952 * BUCKET_BYTES = 0" by (simp add: BUCKET_BYTES_def)
  ultimately show ?thesis
    using assms(1,2)
    by (simp add: amstrhash_init_def DEFAULT_INITIAL_CAPACITY_def init_buckets_outside Let_def)
qed

end
