(* ===== verification/AmAtomic.thy ===== *)
theory AmAtomic
  imports Prelude "HOL-Library.Multiset"
begin

text \<open>
  Atomic operations (\<^verbatim>\<open>include/libam/libam_atomic.h\<close>), the spin lock
  (\<^verbatim>\<open>include/libam/libam_spinlock.h\<close>), and what the proofs about threads share: transition systems
  with an invariant, systems that pass elements on, and sums over the threads.
\<close>

section \<open>Atomic operations\<close>

text \<open>
  An operation on a cell is one step: it maps the value of the cell to the value it returns and the
  new value.
\<close>

definition amsync_add :: "u64 \<Rightarrow> u64 \<Rightarrow> u64 \<times> u64" where "amsync_add cell val = (cell, cell + val)"
definition amsync_sub :: "u64 \<Rightarrow> u64 \<Rightarrow> u64 \<times> u64" where "amsync_sub cell val = (cell, cell - val)"
definition amsync_or :: "u64 \<Rightarrow> u64 \<Rightarrow> u64 \<times> u64" where "amsync_or cell val = (cell, cell OR val)"
definition amsync_and :: "u64 \<Rightarrow> u64 \<Rightarrow> u64 \<times> u64" where "amsync_and cell val = (cell, cell AND val)"
definition amsync_xor :: "u64 \<Rightarrow> u64 \<Rightarrow> u64 \<times> u64" where "amsync_xor cell val = (cell, cell XOR val)"
definition amsync_nand :: "u64 \<Rightarrow> u64 \<Rightarrow> u64 \<times> u64" where "amsync_nand cell val = (cell, NOT (cell AND val))"
definition amsync_inc :: "u64 \<Rightarrow> u64 \<times> u64" where "amsync_inc cell = amsync_add cell 1"
definition amsync_dec :: "u64 \<Rightarrow> u64 \<times> u64" where "amsync_dec cell = amsync_sub cell 1"

definition amsync_swap :: "'a \<Rightarrow> 'a \<Rightarrow> 'a \<Rightarrow> bool \<times> 'a" where
  "amsync_swap cell oldval newval = (if cell \<noteq> oldval then (False, cell) else (True, newval))"

section \<open>Spin lock\<close>

definition AMSPINLOCK_UNLOCKED :: u64 where "AMSPINLOCK_UNLOCKED = 0"

text \<open>One round of the loop of \<^verbatim>\<open>amspinlock_lock\<close>, which goes on until it is true, and \<^verbatim>\<open>amspinlock_unlock\<close>.\<close>

definition amspinlock_lock :: "u64 \<Rightarrow> u64 \<Rightarrow> bool \<times> u64" where
  "amspinlock_lock lck me = amsync_swap lck AMSPINLOCK_UNLOCKED me"

definition amspinlock_unlock :: "u64 \<Rightarrow> u64 \<Rightarrow> bool \<times> u64" where
  "amspinlock_unlock lck me = amsync_swap lck me AMSPINLOCK_UNLOCKED"

section \<open>Transition systems\<close>

locale invariant_system =
  fixes init :: "'s \<Rightarrow> bool" and step :: "'s \<Rightarrow> 's \<Rightarrow> bool" and inv :: "'s \<Rightarrow> bool"
  assumes init_inv: "init s \<Longrightarrow> inv s"
    and step_inv: "inv s \<Longrightarrow> step s s' \<Longrightarrow> inv s'"
begin

lemma steps_inv: "step\<^sup>*\<^sup>* s s' \<Longrightarrow> inv s \<Longrightarrow> inv s'"
  by (induction rule: rtranclp_induct) (blast intro: step_inv)+

lemma reachable_inv: "init s \<Longrightarrow> step\<^sup>*\<^sup>* s s' \<Longrightarrow> inv s'"
  using steps_inv init_inv by blast

end

text \<open>
  A system that takes elements and gives them back: \<open>given\<close> and \<open>taken\<close> count what went in and came
  out, \<open>inside\<close> what the structure and the running operations hold.
\<close>

locale passing_system = invariant_system init step inv
  for init :: "'s \<Rightarrow> bool" and step and inv +
  fixes given taken inside :: "'s \<Rightarrow> 'a multiset"
  assumes init_balance: "init s \<Longrightarrow> given s = taken s + inside s"
    and step_balance: "inv s \<Longrightarrow> step s s' \<Longrightarrow> given s = taken s + inside s \<Longrightarrow> given s' = taken s' + inside s'"
begin

lemma reachable_balance:
  assumes "init s" and "step\<^sup>*\<^sup>* s s'"
  shows "given s' = taken s' + inside s'"
  using assms(2)
proof (induction rule: rtranclp_induct)
  case base
  show ?case by (rule init_balance [OF assms(1)])
next
  case (step t u)
  then show ?case using step_balance [of t u] reachable_inv [OF assms(1)] by blast
qed

text \<open>Nothing is invented or delivered twice, and nothing is lost.\<close>

lemma reachable_taken: "init s \<Longrightarrow> step\<^sup>*\<^sup>* s s' \<Longrightarrow> taken s' \<subseteq># given s'"
  using reachable_balance by fastforce

end

section \<open>Sums over threads\<close>

lemma sum_list_update_cancel:
  fixes f :: "'a \<Rightarrow> 'b :: cancel_comm_monoid_add"
  assumes "i < length xs"
  shows "sum_list (map f (xs[i := y])) + f (xs ! i) = sum_list (map f xs) + f y"
  using assms
proof (induction xs arbitrary: i)
  case (Cons x xs)
  then show ?case by (cases i) (simp_all add: ac_simps)
qed simp

lemma sum_list_zero: "\<forall>x \<in> set xs. f x = (0 :: 'b :: comm_monoid_add) \<Longrightarrow> sum_list (map f xs) = 0"
  by (induction xs) simp_all

lemma sum_list_member_le:
  fixes f :: "'a \<Rightarrow> nat"
  assumes "x \<in> set xs"
  shows "f x \<le> sum_list (map f xs)"
  using assms by (induction xs) auto

lemma sum_list_pos_member:
  fixes f :: "'a \<Rightarrow> nat"
  assumes "0 < sum_list (map f xs)"
  obtains x where "x \<in> set xs" "0 < f x"
  using assms by (induction xs) auto

lemma sum_list_one:
  fixes f :: "'a \<Rightarrow> 'b :: comm_monoid_add"
  assumes "i < length xs"
  shows "\<exists>r. sum_list (map f xs) = f (xs ! i) + r"
  using assms
proof (induction xs arbitrary: i)
  case (Cons x xs)
  show ?case
  proof (cases i)
    case (Suc j)
    with Cons obtain r where "sum_list (map f xs) = f (xs ! j) + r" by fastforce
    with Suc show ?thesis by (intro exI [of _ "f x + r"]) (simp add: ac_simps)
  qed auto
qed simp

lemma sum_list_two:
  fixes f :: "'a \<Rightarrow> 'b :: comm_monoid_add"
  assumes "i < length xs" and "j < length xs" and "i \<noteq> j"
  shows "\<exists>r. sum_list (map f xs) = f (xs ! i) + f (xs ! j) + r"
  using assms
proof (induction xs arbitrary: i j)
  case (Cons x xs)
  show ?case
  proof (cases i; cases j)
    fix i' assume "i = Suc i'" "j = 0"
    with Cons.prems sum_list_one [of i' xs f] show ?thesis by (auto simp: ac_simps)
  next
    fix j' assume "i = 0" "j = Suc j'"
    with Cons.prems sum_list_one [of j' xs f] show ?thesis by (auto simp: ac_simps)
  next
    fix i' j' assume ij: "i = Suc i'" "j = Suc j'"
    with Cons.prems Cons.IH [of i' j'] obtain r where "sum_list (map f xs) = f (xs ! i') + f (xs ! j') + r" by auto
    with ij show ?thesis by (intro exI [of _ "f x + r"]) (simp add: ac_simps)
  qed (use Cons.prems in simp_all)
qed simp

lemma sum_upd:
  fixes g :: "'b \<Rightarrow> 'c :: comm_monoid_add"
  assumes "n < (c :: nat)"
  shows "(\<Sum>i<c. g ((f(n := x)) i)) + g (f n) = (\<Sum>i<c. g (f i)) + g x"
proof -
  have m: "n \<in> {..<c}" "finite {..<c}" using assms by simp_all
  have "(\<Sum>i \<in> {..<c} - {n}. g ((f(n := x)) i)) = (\<Sum>i \<in> {..<c} - {n}. g (f i))"
    by (rule sum.cong) auto
  then show ?thesis using sum.remove [OF m(2,1), of "\<lambda>i. g ((f(n := x)) i)"] sum.remove [OF m(2,1), of "\<lambda>i. g (f i)"]
    by (simp add: ac_simps)
qed

lemma set_update_elim: "x \<in> set (xs[i := y]) \<Longrightarrow> x = y \<or> x \<in> set xs"
  using set_update_subset_insert [of xs i y] by auto

section \<open>Cells and critical sections\<close>

definition full :: "'a option \<Rightarrow> nat" where
  "full x = (case x of None \<Rightarrow> 0 | Some _ \<Rightarrow> 1)"

definition content :: "'a option \<Rightarrow> 'a multiset" where
  "content x = (case x of None \<Rightarrow> {#} | Some d \<Rightarrow> {#d#})"

lemma full_simps [simp]: "full None = 0" "full (Some x) = 1" "content None = {#}" "content (Some x) = {#x#}"
  by (simp_all add: full_def content_def)

lemma count_taker: "1 \<le> x \<Longrightarrow> f = 1 \<Longrightarrow> f + x = y + (if b then 1 else 0) \<Longrightarrow> 0 < (y :: nat)"
  by (cases b) simp_all

text \<open>
  At most one of the threads is in the section, which \<open>f\<close> marks with 1, and the spin lock holds 1 exactly
  when one is.
\<close>

definition mutex :: "('a \<Rightarrow> nat) \<Rightarrow> 'a list \<Rightarrow> u64 \<Rightarrow> bool" where
  "mutex f xs lck \<longleftrightarrow> lck = of_nat (sum_list (map f xs)) \<and> sum_list (map f xs) \<le> 1"

lemma mutex_alone:
  assumes "mutex f xs l" and "i < length xs" "f (xs ! i) = 1" and "j < length xs" "j \<noteq> i"
  shows "f (xs ! j) = 0"
proof -
  obtain r where "sum_list (map f xs) = f (xs ! i) + f (xs ! j) + r"
    using sum_list_two [OF assms(2,4), of f] assms(5) by auto
  then show ?thesis using assms(1,3) by (simp add: mutex_def)
qed

lemma mutex_locked:
  assumes "mutex f xs l" and "i < length xs" "f (xs ! i) = 1"
  shows "l = 1" and "sum_list (map f xs) = 1"
proof -
  obtain r where "sum_list (map f xs) = f (xs ! i) + r"
    using sum_list_one [OF assms(2), of f] by auto
  moreover have "sum_list (map f xs) \<le> 1" using assms(1) by (simp add: mutex_def)
  ultimately show s: "sum_list (map f xs) = 1" using assms(3) by linarith
  show "l = 1" using assms(1) unfolding mutex_def s by simp
qed

lemma mutex_update:
  assumes m: "mutex f xs l" and i: "i < length xs"
    and c: "l' = l \<and> f p = f (xs ! i) \<or> l = 0 \<and> l' = 1 \<and> f p = 1 \<and> f (xs ! i) = 0 \<or> l' = 0 \<and> f p = 0 \<and> f (xs ! i) = 1"
  shows "mutex f (xs[i := p]) l'"
proof -
  have u: "sum_list (map f (xs[i := p])) + f (xs ! i) = sum_list (map f xs) + f p"
    by (rule sum_list_update_cancel [OF i])
  have S: "sum_list (map f xs) \<le> 1" "l = of_nat (sum_list (map f xs))" using m by (simp_all add: mutex_def)
  from c show ?thesis
  proof (elim disjE conjE)
    assume "l' = l" "f p = f (xs ! i)"
    with u S show ?thesis by (simp add: mutex_def)
  next
    assume a: "l = 0" "l' = 1" "f p = 1" "f (xs ! i) = 0"
    have "sum_list (map f xs) = 0"
      using S a(1) by (cases "sum_list (map f xs)") auto
    with u a have z: "sum_list (map f (xs[i := p])) = 1" by linarith
    show ?thesis unfolding mutex_def z using a(2) by simp
  next
    assume a: "l' = 0" "f p = 0" "f (xs ! i) = 1"
    with u mutex_locked(2) [OF m i] have z: "sum_list (map f (xs[i := p])) = 0" by linarith
    show ?thesis unfolding mutex_def z using a(1) by simp
  qed
qed

lemma mutex_idle: "\<forall>x \<in> set xs. f x = 0 \<Longrightarrow> mutex f xs 0"
proof -
  assume "\<forall>x \<in> set xs. f x = 0"
  then have z: "sum_list (map f xs) = 0" by (rule sum_list_zero)
  show ?thesis unfolding mutex_def z by simp
qed

lemma mutex_idleD: "mutex f xs l \<Longrightarrow> \<forall>x \<in> set xs. f x = 0 \<Longrightarrow> l = 0"
  by (drule sum_list_zero) (simp add: mutex_def)

end
