(* ===== verification/AmStack.thy ===== *)
theory AmStack
  imports AmAtomic
begin

text \<open>
  The bounded stack for any number of producers and consumers of \<^verbatim>\<open>src/libam_stack.c\<close>: an array of
  slots and a size that is moved by compare-and-swap, with spinning on the slot. Every access to
  shared memory is one step of a thread.
\<close>

section \<open>Model\<close>

text \<open>
  \<open>stk_bytes\<close> is the size of the block: an access outside of it is \<open>None\<close>. The offsets are those of
  \<^verbatim>\<open>amstack_t\<close>: 0 for the capacity, 8 for the size, 16 for the slots of 8 bytes.
\<close>

record amstack =
  stk_bytes :: u64
  stk_capacity :: u64
  stk_size :: u64
  slots :: "nat \<Rightarrow> addr option"

definition STACK_BYTES :: u64 where "STACK_BYTES = 16"
definition SLOT_BYTES :: u64 where "SLOT_BYTES = 8"

definition slot_in :: "amstack \<Rightarrow> u64 \<Rightarrow> bool" where
  "slot_in k n \<longleftrightarrow> unat STACK_BYTES + unat SLOT_BYTES * (unat n + 1) \<le> unat (stk_bytes k)"

text \<open>\<^verbatim>\<open>memset\<close> and the store to \<^verbatim>\<open>capacity\<close> are in the block or the result is \<open>None\<close>.\<close>

definition amstack_alloc :: "allocator \<Rightarrow> heap \<Rightarrow> u64 \<Rightarrow> ((addr \<times> amstack) option \<times> heap) option" where
  "amstack_alloc alloc h cap =
     (let sz = STACK_BYTES + SLOT_BYTES * cap
      in case malloc alloc sz h of
           (None, h) \<Rightarrow> Some (None, h)
         | (Some a, h) \<Rightarrow>
             do { c_assert (8 \<le> unat sz);
                  Some (Some (a, \<lparr>stk_bytes = sz, stk_capacity = cap, stk_size = 0, slots = (\<lambda>_. None)\<rparr>), h) })"

definition amstack_free :: "addr option \<Rightarrow> heap \<Rightarrow> (amrc \<times> heap) option" where
  "amstack_free stk h = do { h \<leftarrow> free_block stk h; Some (AMRC_SUCCESS, h) }"

text \<open>
  The point a thread has reached, with its local variables. A call of \<^verbatim>\<open>amstack_push\<close> or
  \<^verbatim>\<open>amstack_pop\<close> starts at \<open>push_call\<close> or \<open>pop_call\<close> and ends at \<open>PushRet\<close> or \<open>PopRet\<close>; the latter
  has what was stored to \<^verbatim>\<open>*data\<close>.
\<close>

datatype stack_pc =
    StackIdle
  | PushRead addr
  | PushSwap addr u64
  | PushSlot addr u64
  | PushRet amrc
  | PopRead
  | PopSwap u64
  | PopLoad u64
  | PopTake u64 addr
  | PopRet amrc "addr option"

definition push_call :: "addr option \<Rightarrow> stack_pc" where
  "push_call data = (case data of None \<Rightarrow> PushRet AMRC_ERROR | Some d \<Rightarrow> PushRead d)"

definition pop_call :: "bool \<Rightarrow> stack_pc" where
  "pop_call has_data = (if has_data then PopRead else PopRet AMRC_ERROR None)"

fun push_step :: "amstack \<Rightarrow> stack_pc \<Rightarrow> (amstack \<times> stack_pc) option" where
  "push_step k (PushRead d) =
     do { c_assert (16 \<le> unat (stk_bytes k));
          Some (k, if stk_size k \<ge> stk_capacity k then PushRet AMRC_ERROR else PushSwap d (stk_size k)) }"
| "push_step k (PushSwap d n) =
     do { c_assert (16 \<le> unat (stk_bytes k));
          let (ok, v) = amsync_swap (stk_size k) n (n + 1);
          Some (k\<lparr>stk_size := v\<rparr>, if ok then PushSlot d n else PushRead d) }"
| "push_step k (PushSlot d n) =
     do { c_assert (slot_in k n);
          let (ok, v) = amsync_swap (slots k (unat n)) None (Some d);
          Some (k\<lparr>slots := (slots k)(unat n := v)\<rparr>, if ok then PushRet AMRC_SUCCESS else PushSlot d n) }"
| "push_step k _ = None"

fun pop_step :: "amstack \<Rightarrow> stack_pc \<Rightarrow> (amstack \<times> stack_pc) option" where
  "pop_step k PopRead =
     do { c_assert (16 \<le> unat (stk_bytes k));
          Some (k, if stk_size k = 0 then PopRet AMRC_ERROR None else PopSwap (stk_size k)) }"
| "pop_step k (PopSwap n) =
     do { c_assert (16 \<le> unat (stk_bytes k));
          let (ok, v) = amsync_swap (stk_size k) n (n - 1);
          Some (k\<lparr>stk_size := v\<rparr>, if ok then PopLoad (n - 1) else PopRead) }"
| "pop_step k (PopLoad n) =
     do { c_assert (slot_in k n);
          Some (k, case slots k (unat n) of None \<Rightarrow> PopLoad n | Some p \<Rightarrow> PopTake n p) }"
| "pop_step k (PopTake n p) =
     do { c_assert (slot_in k n);
          let (ok, v) = amsync_swap (slots k (unat n)) (Some p) None;
          Some (k\<lparr>slots := (slots k)(unat n := v)\<rparr>, if ok then PopRet AMRC_SUCCESS (Some p) else PopLoad n) }"
| "pop_step k _ = None"

definition amstack_get_size :: "amstack \<Rightarrow> u64 option" where
  "amstack_get_size k = do { c_assert (16 \<le> unat (stk_bytes k)); Some (stk_size k) }"

text \<open>A run of one thread on its own, with a bound on the number of steps.\<close>

fun run_alone :: "(amstack \<Rightarrow> stack_pc \<Rightarrow> (amstack \<times> stack_pc) option) \<Rightarrow> nat \<Rightarrow> amstack \<Rightarrow> stack_pc \<Rightarrow>
    (amstack \<times> stack_pc) option" where
  "run_alone f 0 k p = Some (k, p)"
| "run_alone f (Suc n) k p =
     (case p of
        PushRet _ \<Rightarrow> Some (k, p)
      | PopRet _ _ \<Rightarrow> Some (k, p)
      | StackIdle \<Rightarrow> Some (k, p)
      | _ \<Rightarrow> do { (k, p) \<leftarrow> f k p; run_alone f n k p })"

text \<open>The whole system: the stack, the threads, and the elements that went in and came out.\<close>

record stack_sys =
  stk :: amstack
  threads :: "stack_pc list"
  given :: "addr multiset"
  taken :: "addr multiset"

text \<open>The element of a push that gets to a successful return.\<close>

fun offered :: "stack_pc \<Rightarrow> addr multiset" where
  "offered (PushRead d) = {#d#}"
| "offered (PushSwap d n) = {#d#}"
| "offered (PushSlot d n) = {#d#}"
| "offered _ = {#}"

fun committed :: "stack_pc \<Rightarrow> stack_pc \<Rightarrow> addr multiset" where
  "committed p (PushRet AMRC_SUCCESS) = offered p"
| "committed _ _ = {#}"

text \<open>What a successful pop stored to \<^verbatim>\<open>*data\<close> when it gets to its return.\<close>

fun delivered :: "stack_pc \<Rightarrow> stack_pc \<Rightarrow> addr multiset" where
  "delivered _ (PopRet AMRC_SUCCESS x) = content x"
| "delivered _ _ = {#}"

inductive stack_step :: "stack_sys \<Rightarrow> stack_sys \<Rightarrow> bool" where
  push: "i < length (threads s) \<Longrightarrow> threads s ! i = StackIdle \<Longrightarrow>
    stack_step s (s\<lparr>threads := (threads s)[i := push_call d]\<rparr>)"
| pop: "i < length (threads s) \<Longrightarrow> threads s ! i = StackIdle \<Longrightarrow>
    stack_step s (s\<lparr>threads := (threads s)[i := pop_call b]\<rparr>)"
| run: "i < length (threads s) \<Longrightarrow> push_step (stk s) (threads s ! i) = Some (k, p) \<or> pop_step (stk s) (threads s ! i) = Some (k, p) \<Longrightarrow>
    stack_step s (s\<lparr>stk := k, threads := (threads s)[i := p],
      given := given s + committed (threads s ! i) p, taken := taken s + delivered (threads s ! i) p\<rparr>)"
| finish: "i < length (threads s) \<Longrightarrow> (\<exists>r. threads s ! i = PushRet r) \<or> (\<exists>r x. threads s ! i = PopRet r x) \<Longrightarrow>
    stack_step s (s\<lparr>threads := (threads s)[i := StackIdle]\<rparr>)"

inductive_cases stack_stepE: "stack_step s s'"

definition stack_init :: "stack_sys \<Rightarrow> bool" where
  "stack_init s \<longleftrightarrow>
     (\<exists>alloc h cap a h'. amstack_alloc alloc h cap = Some (Some (a, stk s), h')) \<and>
     unat STACK_BYTES + unat SLOT_BYTES * unat (stk_capacity (stk s)) < 2 ^ 64 \<and>
     set (threads s) \<subseteq> {StackIdle} \<and> given s = {#} \<and> taken s = {#}"

section \<open>Invariant\<close>

fun pushing :: "nat \<Rightarrow> stack_pc \<Rightarrow> nat" where
  "pushing i (PushSlot d n) = (if unat n = i then 1 else 0)"
| "pushing i _ = 0"

fun popping :: "nat \<Rightarrow> stack_pc \<Rightarrow> nat" where
  "popping i (PopLoad n) = (if unat n = i then 1 else 0)"
| "popping i (PopTake n p) = (if unat n = i then 1 else 0)"
| "popping i _ = 0"

fun pc_ok :: "u64 \<Rightarrow> stack_pc \<Rightarrow> bool" where
  "pc_ok c (PushSwap d n) = (n < c)"
| "pc_ok c (PushSlot d n) = (n < c)"
| "pc_ok c (PopSwap n) = (0 < n \<and> n \<le> c)"
| "pc_ok c (PopLoad n) = (n < c)"
| "pc_ok c (PopTake n p) = (n < c)"
| "pc_ok c _ = True"

definition held_in_slots :: "amstack \<Rightarrow> addr multiset" where
  "held_in_slots k = (\<Sum>i < unat (stk_capacity k). content (slots k i))"

definition inside :: "stack_sys \<Rightarrow> addr multiset" where
  "inside s = held_in_slots (stk s)"

text \<open>
  The count of slot \<open>i\<close>: an element that is in it or about to be put there, against a consumer that
  will take it or the stack's size covering it.
\<close>

definition stack_inv :: "stack_sys \<Rightarrow> bool" where
  "stack_inv s \<longleftrightarrow>
     unat STACK_BYTES + unat SLOT_BYTES * unat (stk_capacity (stk s)) \<le> unat (stk_bytes (stk s)) \<and>
     stk_size (stk s) \<le> stk_capacity (stk s) \<and>
     (\<forall>p \<in> set (threads s). pc_ok (stk_capacity (stk s)) p) \<and>
     (\<forall>i < unat (stk_capacity (stk s)).
        full (slots (stk s) i) + sum_list (map (pushing i) (threads s)) =
        sum_list (map (popping i) (threads s)) + (if i < unat (stk_size (stk s)) then 1 else 0))"

lemma stack_inv_run:
  assumes inv: "stack_inv s" and i: "i < length (threads s)"
    and k: "stk_capacity k = stk_capacity (stk s)" "stk_bytes k = stk_bytes (stk s)" "stk_size k \<le> stk_capacity k"
    and p: "pc_ok (stk_capacity k) p"
    and eq: "\<And>j. j < unat (stk_capacity k) \<Longrightarrow>
      full (slots k j) + pushing j p + popping j (threads s ! i) + (if j < unat (stk_size (stk s)) then 1 else 0) =
      full (slots (stk s) j) + pushing j (threads s ! i) + popping j p + (if j < unat (stk_size k) then 1 else 0)"
    and s': "stk s' = k" "threads s' = (threads s)[i := p]"
  shows "stack_inv s'"
proof -
  have "pc_ok (stk_capacity k) q" if "q \<in> set (threads s')" for q
    using set_update_elim [OF that [unfolded s'(2)]] p inv k(1) by (auto simp: stack_inv_def)
  moreover have "full (slots k j) + sum_list (map (pushing j) (threads s')) =
      sum_list (map (popping j) (threads s')) + (if j < unat (stk_size k) then 1 else 0)"
    if j: "j < unat (stk_capacity k)" for j
  proof -
    have "full (slots (stk s) j) + sum_list (map (pushing j) (threads s)) =
        sum_list (map (popping j) (threads s)) + (if j < unat (stk_size (stk s)) then 1 else 0)"
      using inv j by (auto simp: stack_inv_def k)
    with eq [OF j] sum_list_update_cancel [OF i, of "pushing j" p] sum_list_update_cancel [OF i, of "popping j" p]
    show ?thesis unfolding s' by linarith
  qed
  ultimately show ?thesis using inv k by (simp add: stack_inv_def s'(1))
qed

lemma slot_in_inv: "stack_inv s \<Longrightarrow> n < stk_capacity (stk s) \<Longrightarrow> slot_in (stk s) n"
  by (auto simp: stack_inv_def slot_in_def SLOT_BYTES_def word_less_nat_alt)

lemma stack_bytes: "stack_inv s \<Longrightarrow> 16 \<le> unat (stk_bytes (stk s))"
  by (simp add: stack_inv_def STACK_BYTES_def)

lemma stack_pc_inv: "stack_inv s \<Longrightarrow> i < length (threads s) \<Longrightarrow> pc_ok (stk_capacity (stk s)) (threads s ! i)"
  by (simp add: stack_inv_def)

lemma slot_count:
  "stack_inv s \<Longrightarrow> i < unat (stk_capacity (stk s)) \<Longrightarrow>
   full (slots (stk s) i) + sum_list (map (pushing i) (threads s)) =
     sum_list (map (popping i) (threads s)) + (if i < unat (stk_size (stk s)) then 1 else 0)"
  by (simp add: stack_inv_def)

text \<open>The threads that wait for a slot to be emptied or filled.\<close>

fun stack_waits :: "amstack \<Rightarrow> stack_pc \<Rightarrow> bool" where
  "stack_waits k (PushSlot d n) \<longleftrightarrow> slots k (unat n) \<noteq> None"
| "stack_waits k (PopLoad n) \<longleftrightarrow> slots k (unat n) = None"
| "stack_waits k p \<longleftrightarrow> False"

lemma waiting_moves:
  "0 < popping i q \<Longrightarrow> slots k i \<noteq> None \<Longrightarrow> q \<noteq> StackIdle \<and> \<not> stack_waits k q"
  "0 < pushing i q \<Longrightarrow> slots k i = None \<Longrightarrow> q \<noteq> StackIdle \<and> \<not> stack_waits k q"
  by (cases q; simp split: if_splits)+

text \<open>A step of a thread, with what the invariant gives about its point.\<close>

lemma push_step_inv:
  assumes inv: "stack_inv s" and i: "i < length (threads s)" and r: "push_step (stk s) (threads s ! i) = Some (k, p)"
    and s': "stk s' = k" "threads s' = (threads s)[i := p]"
  shows "stack_inv s'"
proof -
  note pc = stack_pc_inv [OF inv i]
  have c: "stk_size (stk s) \<le> stk_capacity (stk s)" using inv by (simp add: stack_inv_def)
  show ?thesis
  proof (cases "threads s ! i")
    case (PushRead d)
    have "k = stk s" "p = PushRet AMRC_ERROR \<or> p = PushSwap d (stk_size (stk s)) \<and> stk_size (stk s) < stk_capacity (stk s)"
      using r PushRead by (auto simp: bind_eq_Some_conv split: if_splits)
    then show ?thesis using PushRead c by (intro stack_inv_run [OF inv i _ _ _ _ _ s']) auto
  next
    case (PushSwap d n)
    have n: "n < stk_capacity (stk s)" using pc PushSwap by simp
    show ?thesis
    proof (cases "stk_size (stk s) = n")
      case True
      then have k: "k = (stk s)\<lparr>stk_size := n + 1\<rparr>" "p = PushSlot d n"
        using r PushSwap by (auto simp: bind_eq_Some_conv amsync_swap_def)
      have u: "unat (n + 1) = Suc (unat n)" using n by (rule unat_plus_one_less)
      have "n + 1 \<le> stk_capacity (stk s)" using n u by (simp add: word_less_nat_alt word_le_nat_alt)
      then show ?thesis using k n u True PushSwap by (intro stack_inv_run [OF inv i _ _ _ _ _ s']) auto
    next
      case False
      then have "k = stk s" "p = PushRead d"
        using r PushSwap by (auto simp: bind_eq_Some_conv amsync_swap_def)
      then show ?thesis using PushSwap c by (intro stack_inv_run [OF inv i _ _ _ _ _ s']) auto
    qed
  next
    case (PushSlot d n)
    have n: "n < stk_capacity (stk s)" using pc PushSlot by simp
    show ?thesis
    proof (cases "slots (stk s) (unat n)")
      case None
      then have "k = (stk s)\<lparr>slots := (slots (stk s))(unat n := Some d)\<rparr>" "p = PushRet AMRC_SUCCESS"
        using r PushSlot by (auto simp: bind_eq_Some_conv amsync_swap_def)
      then show ?thesis using PushSlot c None by (intro stack_inv_run [OF inv i _ _ _ _ _ s']) auto
    next
      case (Some e)
      then have "(slots (stk s))(unat n := Some e) = slots (stk s)" by (simp add: fun_upd_idem)
      with Some have "k = stk s" "p = PushSlot d n"
        using r PushSlot by (auto simp: bind_eq_Some_conv amsync_swap_def)
      then show ?thesis using PushSlot c n by (intro stack_inv_run [OF inv i _ _ _ _ _ s']) auto
    qed
  qed (use r in simp_all)
qed

lemma pop_step_inv:
  assumes inv: "stack_inv s" and i: "i < length (threads s)" and r: "pop_step (stk s) (threads s ! i) = Some (k, p)"
    and s': "stk s' = k" "threads s' = (threads s)[i := p]"
  shows "stack_inv s'"
proof -
  note pc = stack_pc_inv [OF inv i]
  have c: "stk_size (stk s) \<le> stk_capacity (stk s)" using inv by (simp add: stack_inv_def)
  show ?thesis
  proof (cases "threads s ! i")
    case PopRead
    have "k = stk s" "p = PopRet AMRC_ERROR None \<or> p = PopSwap (stk_size (stk s)) \<and> 0 < stk_size (stk s)"
      using r PopRead by (auto simp: bind_eq_Some_conv word_gt_0 split: if_splits)
    then show ?thesis using PopRead c by (intro stack_inv_run [OF inv i _ _ _ _ _ s']) auto
  next
    case (PopSwap n)
    have n: "0 < n" "n \<le> stk_capacity (stk s)" using pc PopSwap by simp_all
    show ?thesis
    proof (cases "stk_size (stk s) = n")
      case True
      then have k: "k = (stk s)\<lparr>stk_size := n - 1\<rparr>" "p = PopLoad (n - 1)"
        using r PopSwap by (auto simp: bind_eq_Some_conv amsync_swap_def)
      have u: "Suc (unat (n - 1)) = unat n" using n(1) by (simp add: unat_minus_one word_less_nat_alt unat_gt_0)
      have "n - 1 < stk_capacity (stk s)" using n u by (simp add: word_less_nat_alt word_le_nat_alt)
      then show ?thesis using k u True PopSwap by (intro stack_inv_run [OF inv i _ _ _ _ _ s']) auto
    next
      case False
      then have "k = stk s" "p = PopRead"
        using r PopSwap by (auto simp: bind_eq_Some_conv amsync_swap_def)
      then show ?thesis using PopSwap c by (intro stack_inv_run [OF inv i _ _ _ _ _ s']) auto
    qed
  next
    case (PopLoad n)
    have "k = stk s" "p = PopLoad n \<or> (\<exists>q. p = PopTake n q)"
      using r PopLoad by (auto simp: bind_eq_Some_conv split: option.splits)
    then show ?thesis using PopLoad c pc by (intro stack_inv_run [OF inv i _ _ _ _ _ s']) auto
  next
    case (PopTake n q)
    have n: "n < stk_capacity (stk s)" using pc PopTake by simp
    show ?thesis
    proof (cases "slots (stk s) (unat n) = Some q")
      case True
      then have "k = (stk s)\<lparr>slots := (slots (stk s))(unat n := None)\<rparr>" "p = PopRet AMRC_SUCCESS (Some q)"
        using r PopTake by (auto simp: bind_eq_Some_conv amsync_swap_def)
      then show ?thesis using PopTake c True by (intro stack_inv_run [OF inv i _ _ _ _ _ s']) auto
    next
      case False
      have "(slots (stk s))(unat n := slots (stk s) (unat n)) = slots (stk s)" by (rule fun_upd_triv)
      with False have "k = stk s" "p = PopLoad n"
        using r PopTake by (auto simp: bind_eq_Some_conv amsync_swap_def)
      then show ?thesis using PopTake c n by (intro stack_inv_run [OF inv i _ _ _ _ _ s']) auto
    qed
  qed (use r in simp_all)
qed

lemma stack_init_inv:
  assumes "stack_init s"
  shows "stack_inv s" "held_in_slots (stk s) = {#}"
proof -
  from assms obtain alloc h cap a h' where
    al: "amstack_alloc alloc h cap = Some (Some (a, stk s), h')" and
    u: "unat STACK_BYTES + unat SLOT_BYTES * unat (stk_capacity (stk s)) < 2 ^ 64" and
    t: "set (threads s) \<subseteq> {StackIdle}" by (auto simp: stack_init_def)
  from al have k: "stk s = \<lparr>stk_bytes = STACK_BYTES + SLOT_BYTES * cap, stk_capacity = cap, stk_size = 0, slots = (\<lambda>_. None)\<rparr>"
    by (auto simp: amstack_alloc_def Let_def bind_eq_Some_conv split: prod.splits option.splits)
  have m: "unat (SLOT_BYTES * cap) = unat SLOT_BYTES * unat cap"
    using u k by (intro times_fits) simp
  have "unat (STACK_BYTES + SLOT_BYTES * cap) = unat STACK_BYTES + unat SLOT_BYTES * unat cap"
    using plus_fits(1) [of STACK_BYTES "SLOT_BYTES * cap"] u m k by simp
  moreover have z: "sum_list (map (pushing j) (threads s)) = 0" "sum_list (map (popping j) (threads s)) = 0" for j
    using t by (auto intro: sum_list_zero)
  ultimately show "stack_inv s" using t k by (auto simp: stack_inv_def z)
  show "held_in_slots (stk s) = {#}" using k by (simp add: held_in_slots_def)
qed

lemma stack_step_inv:
  assumes "stack_inv s" and "stack_step s s'"
  shows "stack_inv s'"
  using assms(2)
proof (cases rule: stack_step.cases)
  case (push i d)
  then show ?thesis using assms(1)
    by (intro stack_inv_run [OF assms(1), of i "stk s" "push_call d"])
      (auto simp: push_call_def stack_inv_def split: option.splits)
next
  case (pop i b)
  then show ?thesis using assms(1)
    by (intro stack_inv_run [OF assms(1), of i "stk s" "pop_call b"]) (auto simp: pop_call_def stack_inv_def)
next
  case (run i k p)
  then show ?thesis
    using push_step_inv [OF assms(1), of i k p s'] pop_step_inv [OF assms(1), of i k p s'] by auto
next
  case (finish i)
  then show ?thesis using assms(1)
    by (intro stack_inv_run [OF assms(1), of i "stk s" StackIdle]) (auto simp: stack_inv_def)
qed

section \<open>Elements\<close>

lemma held_in_slots_upd:
  assumes "unat n < unat (stk_capacity k)"
  shows "held_in_slots (k\<lparr>slots := (slots k)(unat n := x)\<rparr>) + content (slots k (unat n)) = held_in_slots k + content x"
  using sum_upd [OF assms, of content "slots k" x] by (simp add: held_in_slots_def)

lemma stack_step_elements:
  assumes inv: "stack_inv s" and i: "i < length (threads s)"
    and r: "push_step (stk s) (threads s ! i) = Some (k, p) \<or> pop_step (stk s) (threads s ! i) = Some (k, p)"
  shows "held_in_slots k + delivered (threads s ! i) p = held_in_slots (stk s) + committed (threads s ! i) p"
proof -
  note pc = stack_pc_inv [OF inv i]
  have h: "held_in_slots ((stk s)\<lparr>stk_size := v\<rparr>) = held_in_slots (stk s)" for v by (simp add: held_in_slots_def)
  show ?thesis
  proof (cases "threads s ! i")
    case (PushSlot d n)
    then have "unat n < unat (stk_capacity (stk s))" using pc by (simp add: word_less_nat_alt)
    note u = held_in_slots_upd [OF this, of "Some d"]
    show ?thesis
    proof (cases "slots (stk s) (unat n)")
      case None
      with u r PushSlot show ?thesis by (auto simp: bind_eq_Some_conv amsync_swap_def)
    next
      case (Some a)
      then have "(slots (stk s))(unat n := Some a) = slots (stk s)" by (simp add: fun_upd_idem)
      with Some r PushSlot have "k = stk s" "p = PushSlot d n" by (auto simp: bind_eq_Some_conv amsync_swap_def)
      then show ?thesis by (simp add: PushSlot)
    qed
  next
    case (PopLoad n)
    with r have "k = stk s" "p = PopLoad n \<or> (\<exists>q. p = PopTake n q)"
      by (auto simp: bind_eq_Some_conv split: option.splits)
    then show ?thesis by (auto simp: PopLoad)
  next
    case (PopTake n q)
    then have u: "unat n < unat (stk_capacity (stk s))" using pc by (simp add: word_less_nat_alt)
    show ?thesis
    proof (cases "slots (stk s) (unat n) = Some q")
      case True
      with held_in_slots_upd [OF u, of None] r PopTake show ?thesis
        by (auto simp: bind_eq_Some_conv amsync_swap_def)
    next
      case False
      have "(slots (stk s))(unat n := slots (stk s) (unat n)) = slots (stk s)" by (rule fun_upd_triv)
      with False r PopTake show ?thesis by (auto simp: bind_eq_Some_conv amsync_swap_def)
    qed
  qed (use r h in \<open>auto simp: bind_eq_Some_conv amsync_swap_def split: if_splits option.splits\<close>)
qed

lemma stack_step_balance:
  assumes "stack_inv s" and "stack_step s s'" and bal: "given s = taken s + inside s"
  shows "given s' = taken s' + inside s'"
  using assms(2)
proof (cases rule: stack_step.cases)
  case (push i d)
  with bal show ?thesis by (simp add: inside_def)
next
  case (pop i b)
  with bal show ?thesis by (simp add: inside_def)
next
  case (finish i)
  with bal show ?thesis by (simp add: inside_def)
next
  case (run i k p)
  from stack_step_elements [OF assms(1) run(2,3)] bal run(1) show ?thesis
    by (simp add: inside_def add.assoc) (metis add.assoc add.commute)
qed

interpretation lfs: passing_system stack_init stack_step stack_inv given taken inside
proof unfold_locales
  show "given s = taken s + inside s" if "stack_init s" for s
    using stack_init_inv(2) [OF that] that by (simp add: inside_def stack_init_def)
qed (fact stack_init_inv(1) stack_step_inv stack_step_balance)+

section \<open>Properties\<close>

text \<open>
  C5. For any number of threads that push and pop at the same time: the elements that the pops returned are
  among those pushed, each at most as often as it was pushed; the slots hold exactly the elements whose push succeeded
  and that no pop has returned; and whenever no call is running, the filled slots are those below the size.
\<close>

theorem amstack_conserves_elements:
  assumes "stack_init s" and "stack_step\<^sup>*\<^sup>* s t"
  shows "taken t \<subseteq># given t \<and>
    (set (threads t) \<subseteq> {StackIdle} \<longrightarrow>
       (\<forall>i < unat (stk_capacity (stk t)). (slots (stk t) i \<noteq> None) = (i < unat (stk_size (stk t))))) \<and>
    given t = taken t + held_in_slots (stk t)"
proof -
  have "slots (stk t) i \<noteq> None \<longleftrightarrow> i < unat (stk_size (stk t))"
    if q: "set (threads t) \<subseteq> {StackIdle}" and i: "i < unat (stk_capacity (stk t))" for i
  proof -
    have z: "sum_list (map (pushing i) (threads t)) = 0" "sum_list (map (popping i) (threads t)) = 0"
      using q by (auto intro: sum_list_zero)
    from slot_count [OF lfs.reachable_inv [OF assms] i]
    have "full (slots (stk t) i) = (if i < unat (stk_size (stk t)) then 1 else 0)" unfolding z by simp
    then show ?thesis by (cases "slots (stk t) i") (auto split: if_splits)
  qed
  moreover have "inside t = held_in_slots (stk t)" by (simp add: inside_def)
  ultimately show ?thesis
    using lfs.reachable_balance [OF assms] lfs.reachable_taken [OF assms] by auto
qed

lemma stack_step_possible:
  assumes inv: "stack_inv t" and p: "p \<in> set (threads t)" "p \<noteq> StackIdle"
  shows "(\<exists>r. p = PushRet r) \<or> (\<exists>r x. p = PopRet r x) \<or>
    (\<exists>k q. (push_step (stk t) p = Some (k, q) \<or> pop_step (stk t) p = Some (k, q)) \<and> (stack_waits (stk t) p \<or> q \<noteq> p))"
proof -
  have "pc_ok (stk_capacity (stk t)) p" using inv p(1) by (simp add: stack_inv_def)
  moreover have "slot_in (stk t) n" if "n < stk_capacity (stk t)" for n by (rule slot_in_inv [OF inv that])
  ultimately show ?thesis using p(2) stack_bytes [OF inv]
    by (cases p) (auto simp: amsync_swap_def case_prod_beta split: option.splits)
qed

text \<open>A thread that waits, waits for another that does not.\<close>

lemma stack_waits_for_another:
  assumes inv: "stack_inv t" and p: "p \<in> set (threads t)" "stack_waits (stk t) p"
  shows "\<exists>q \<in> set (threads t). q \<noteq> StackIdle \<and> \<not> stack_waits (stk t) q"
proof -
  have pc: "pc_ok (stk_capacity (stk t)) p" using inv p(1) by (simp add: stack_inv_def)
  consider (push) d n where "p = PushSlot d n" "slots (stk t) (unat n) \<noteq> None" | (pop) n where "p = PopLoad n" "slots (stk t) (unat n) = None"
    using p(2) by (cases p) auto
  then show ?thesis
  proof cases
    case push
    have n: "unat n < unat (stk_capacity (stk t))" using pc push(1) by (simp add: word_less_nat_alt)
    have "1 \<le> sum_list (map (pushing (unat n)) (threads t))"
      using sum_list_member_le [OF p(1), of "pushing (unat n)"] push(1) by simp
    moreover have "full (slots (stk t) (unat n)) = 1" using push(2) by auto
    ultimately have "0 < sum_list (map (popping (unat n)) (threads t))"
      using slot_count [OF inv n] by (intro count_taker)
    then obtain q where q: "q \<in> set (threads t)" "0 < popping (unat n) q" by (rule sum_list_pos_member)
    from waiting_moves(1) [OF q(2) push(2)] show ?thesis by (rule bexI [OF _ q(1)])
  next
    case pop
    have n: "unat n < unat (stk_capacity (stk t))" using pc pop(1) by (simp add: word_less_nat_alt)
    have "1 \<le> sum_list (map (popping (unat n)) (threads t))"
      using sum_list_member_le [OF p(1), of "popping (unat n)"] pop(1) by simp
    then have "0 < sum_list (map (pushing (unat n)) (threads t))"
      using slot_count [OF inv n] pop(2) by simp
    then obtain q where q: "q \<in> set (threads t)" "0 < pushing (unat n) q" by (rule sum_list_pos_member)
    from waiting_moves(2) [OF q(2) pop(2)] show ?thesis by (rule bexI [OF _ q(1)])
  qed
qed

text \<open>
  C33. No access leaves the block, and the stack never gets stuck: in every reachable state the size is
  at most the capacity, every running call has a next step, and unless no call is running some call
  gets to another point in its next step, also when others spin on a slot.
\<close>

theorem amstack_never_stuck:
  assumes "stack_init s" and "stack_step\<^sup>*\<^sup>* s t"
  shows "stk_size (stk t) \<le> stk_capacity (stk t) \<and>
    (\<forall>p \<in> set (threads t). p = StackIdle \<or> (\<exists>r. p = PushRet r) \<or> (\<exists>r x. p = PopRet r x) \<or>
       push_step (stk t) p \<noteq> None \<or> pop_step (stk t) p \<noteq> None) \<and>
    ((\<exists>p \<in> set (threads t). p \<noteq> StackIdle) \<longrightarrow>
       (\<exists>p \<in> set (threads t). (\<exists>r. p = PushRet r) \<or> (\<exists>r x. p = PopRet r x) \<or>
          (\<exists>k q. (push_step (stk t) p = Some (k, q) \<or> pop_step (stk t) p = Some (k, q)) \<and> q \<noteq> p)))"
proof (intro conjI ballI impI)
  have inv: "stack_inv t" by (rule lfs.reachable_inv [OF assms])
  show "stk_size (stk t) \<le> stk_capacity (stk t)" using inv by (simp add: stack_inv_def)
  show "p = StackIdle \<or> (\<exists>r. p = PushRet r) \<or> (\<exists>r x. p = PopRet r x) \<or> push_step (stk t) p \<noteq> None \<or> pop_step (stk t) p \<noteq> None"
    if "p \<in> set (threads t)" for p using stack_step_possible [OF inv that] by blast
  assume "\<exists>p \<in> set (threads t). p \<noteq> StackIdle"
  then obtain p where p: "p \<in> set (threads t)" "p \<noteq> StackIdle" "\<not> stack_waits (stk t) p" using stack_waits_for_another [OF inv] by blast
  from stack_step_possible [OF inv p(1,2)] p(3)
  show "\<exists>p \<in> set (threads t). (\<exists>r. p = PushRet r) \<or> (\<exists>r x. p = PopRet r x) \<or>
      (\<exists>k q. (push_step (stk t) p = Some (k, q) \<or> pop_step (stk t) p = Some (k, q)) \<and> q \<noteq> p)" by (intro bexI [OF _ p(1)]) blast
qed

section \<open>Examples and single threads\<close>

text \<open>A stack of two slots with two threads, and what it is after one of them has pushed an element.\<close>

definition demo_stack :: "u64 \<Rightarrow> (nat \<Rightarrow> addr option) \<Rightarrow> amstack" where
  "demo_stack n f = \<lparr>stk_bytes = 32, stk_capacity = 2, stk_size = n, slots = f\<rparr>"

definition demo_sys :: "u64 \<Rightarrow> (nat \<Rightarrow> addr option) \<Rightarrow> stack_pc \<Rightarrow> addr multiset \<Rightarrow> stack_sys" where
  "demo_sys n f p g = \<lparr>stk = demo_stack n f, threads = [p, StackIdle], given = g, taken = {#}\<rparr>"

lemma demo_stack_init: "stack_init (demo_sys 0 (\<lambda>_. None) StackIdle {#})"
proof -
  have "amstack_alloc first_fit \<lparr>live = Map.empty, calls = 0, refusals = 0\<rparr> 2 =
      Some (Some (1, demo_stack 0 (\<lambda>_. None)), \<lparr>live = [1 \<mapsto> 32], calls = 1, refusals = 0\<rparr>)"
    by (simp add: amstack_alloc_def malloc_def first_fit_def Let_def STACK_BYTES_def SLOT_BYTES_def demo_stack_def upt_conv_Cons)
  then show ?thesis
    unfolding stack_init_def demo_sys_def stack_sys.simps
    by (intro conjI exI) (assumption | simp add: STACK_BYTES_def SLOT_BYTES_def demo_stack_def)+
qed

lemma demo_push:
  "stack_step\<^sup>*\<^sup>* (demo_sys 0 (\<lambda>_. None) StackIdle {#}) (demo_sys 1 ((\<lambda>_. None)(0 := Some 9)) StackIdle {#9#})"
proof -
  let ?s = "demo_sys 0 (\<lambda>_. None)"
  have 1: "stack_step (?s StackIdle {#}) (?s (PushRead 9) {#})"
    using stack_step.push [of 0 "?s StackIdle {#}" "Some 9"] by (simp add: demo_sys_def push_call_def)
  have 2: "stack_step (?s (PushRead 9) {#}) (?s (PushSwap 9 0) {#})"
    using stack_step.run [of 0 "?s (PushRead 9) {#}" "demo_stack 0 (\<lambda>_. None)" "PushSwap 9 0"]
    by (simp add: demo_sys_def demo_stack_def)
  have 3: "stack_step (?s (PushSwap 9 0) {#}) (demo_sys 1 (\<lambda>_. None) (PushSlot 9 0) {#})"
    using stack_step.run [of 0 "?s (PushSwap 9 0) {#}" "demo_stack 1 (\<lambda>_. None)" "PushSlot 9 0"]
    by (simp add: demo_sys_def demo_stack_def amsync_swap_def)
  have 4: "stack_step (demo_sys 1 (\<lambda>_. None) (PushSlot 9 0) {#})
      (demo_sys 1 ((\<lambda>_. None)(0 := Some 9)) (PushRet AMRC_SUCCESS) {#9#})"
    using stack_step.run [of 0 "demo_sys 1 (\<lambda>_. None) (PushSlot 9 0) {#}" "demo_stack 1 ((\<lambda>_. None)(0 := Some 9))"
        "PushRet AMRC_SUCCESS"]
    by (simp add: demo_sys_def demo_stack_def amsync_swap_def slot_in_def STACK_BYTES_def SLOT_BYTES_def)
  have 5: "stack_step (demo_sys 1 ((\<lambda>_. None)(0 := Some 9)) (PushRet AMRC_SUCCESS) {#9#})
      (demo_sys 1 ((\<lambda>_. None)(0 := Some 9)) StackIdle {#9#})"
    using stack_step.finish [of 0 "demo_sys 1 ((\<lambda>_. None)(0 := Some 9)) (PushRet AMRC_SUCCESS) {#9#}"]
    by (simp add: demo_sys_def)
  show ?thesis
    using 1 2 3 4 5 by (meson converse_rtranclp_into_rtranclp rtranclp.rtrancl_refl)
qed

theorem amstack_conserves_elements_witness:
  "{#9#} = {#} + held_in_slots (demo_stack 1 ((\<lambda>_. None)(0 := Some 9)))"
  using amstack_conserves_elements [OF demo_stack_init demo_push] by (simp add: demo_sys_def)

text \<open>A second push that has its slot, while the other thread is idle: its next step ends the call.\<close>

lemma demo_second_push:
  "stack_step\<^sup>*\<^sup>* (demo_sys 0 (\<lambda>_. None) StackIdle {#}) (demo_sys 2 ((\<lambda>_. None)(0 := Some 9)) (PushSlot 7 1) {#9#})"
proof -
  let ?s = "demo_sys 1 ((\<lambda>_. None)(0 := Some 9))"
  have 1: "stack_step (?s StackIdle {#9#}) (?s (PushRead 7) {#9#})"
    using stack_step.push [of 0 "?s StackIdle {#9#}" "Some 7"] by (simp add: demo_sys_def push_call_def)
  have 2: "stack_step (?s (PushRead 7) {#9#}) (?s (PushSwap 7 1) {#9#})"
    using stack_step.run [of 0 "?s (PushRead 7) {#9#}" "demo_stack 1 ((\<lambda>_. None)(0 := Some 9))" "PushSwap 7 1"]
    by (simp add: demo_sys_def demo_stack_def word_le_nat_alt)
  have 3: "stack_step (?s (PushSwap 7 1) {#9#}) (demo_sys 2 ((\<lambda>_. None)(0 := Some 9)) (PushSlot 7 1) {#9#})"
    using stack_step.run [of 0 "?s (PushSwap 7 1) {#9#}" "demo_stack 2 ((\<lambda>_. None)(0 := Some 9))" "PushSlot 7 1"]
    by (simp add: demo_sys_def demo_stack_def amsync_swap_def)
  show ?thesis using demo_push 1 2 3 by (meson rtranclp.rtrancl_into_rtrancl)
qed

theorem amstack_never_stuck_witness:
  "\<exists>k q. (push_step (demo_stack 2 ((\<lambda>_. None)(0 := Some 9))) (PushSlot 7 1) = Some (k, q) \<or>
       pop_step (demo_stack 2 ((\<lambda>_. None)(0 := Some 9))) (PushSlot 7 1) = Some (k, q)) \<and> q \<noteq> PushSlot 7 1"
proof -
  have "(\<exists>p \<in> {PushSlot 7 1, StackIdle}. p \<noteq> StackIdle)" by simp
  with amstack_never_stuck [OF demo_stack_init demo_second_push] show ?thesis
    by (simp add: demo_sys_def)
qed

text \<open>The elements of a stack that no call is running on, the last one on top.\<close>

definition stack_list :: "amstack \<Rightarrow> addr list \<Rightarrow> bool" where
  "stack_list k xs \<longleftrightarrow>
     unat STACK_BYTES + unat SLOT_BYTES * unat (stk_capacity k) \<le> unat (stk_bytes k) \<and>
     unat (stk_size k) = length xs \<and> length xs \<le> unat (stk_capacity k) \<and>
     (\<forall>i < unat (stk_capacity k). slots k i = (if i < length xs then Some (xs ! i) else None))"

lemma stack_list_slot: "stack_list k xs \<Longrightarrow> unat n < unat (stk_capacity k) \<Longrightarrow> slot_in k n"
  by (auto simp: stack_list_def slot_in_def SLOT_BYTES_def)

lemma push_alone:
  assumes k: "stack_list k xs"
  shows "\<exists>k'. run_alone push_step 4 k (push_call (Some d)) =
      Some (k', PushRet (if length xs < unat (stk_capacity k) then AMRC_SUCCESS else AMRC_ERROR)) \<and>
    stack_list k' (if length xs < unat (stk_capacity k) then xs @ [d] else xs) \<and> stk_capacity k' = stk_capacity k"
proof (cases "length xs < unat (stk_capacity k)")
  case True
  have b: "16 \<le> unat (stk_bytes k)" using k by (simp add: stack_list_def STACK_BYTES_def)
  have u: "unat (stk_size k) = length xs" using k by (simp add: stack_list_def)
  have lt: "stk_size k < stk_capacity k" using True u by (simp add: word_less_nat_alt)
  have s: "slot_in k (stk_size k)" using stack_list_slot [OF k, of "stk_size k"] True u by simp
  have n: "slots k (length xs) = None" using k True by (simp add: stack_list_def)
  let ?k = "k\<lparr>stk_size := stk_size k + 1, slots := (slots k)(length xs := Some d)\<rparr>"
  have "run_alone push_step 4 k (push_call (Some d)) = Some (?k, PushRet AMRC_SUCCESS)"
    using b lt s n u by (simp add: eval_nat_numeral push_call_def amsync_swap_def slot_in_def not_le)
  moreover have "unat (stk_size k + 1) = Suc (length xs)" using unat_plus_one_less [OF lt] u by simp
  then have "stack_list ?k (xs @ [d])" using k True by (auto simp: stack_list_def nth_append)
  ultimately show ?thesis using True by (intro exI [of _ ?k]) simp
next
  case False
  have b: "16 \<le> unat (stk_bytes k)" using k by (simp add: stack_list_def STACK_BYTES_def)
  have "stk_capacity k \<le> stk_size k" using k False by (simp add: stack_list_def word_le_nat_alt)
  with b have "run_alone push_step 4 k (push_call (Some d)) = Some (k, PushRet AMRC_ERROR)"
    by (simp add: eval_nat_numeral push_call_def)
  with False k show ?thesis by simp
qed

lemma pop_alone:
  assumes k: "stack_list k xs"
  shows "\<exists>k'. run_alone pop_step 5 k (pop_call True) =
      Some (k', if xs = [] then PopRet AMRC_ERROR None else PopRet AMRC_SUCCESS (Some (last xs))) \<and>
    stack_list k' (butlast xs) \<and> stk_capacity k' = stk_capacity k"
proof (cases "xs = []")
  case False
  have b: "16 \<le> unat (stk_bytes k)" using k by (simp add: stack_list_def STACK_BYTES_def)
  have u: "unat (stk_size k) = length xs" and c: "length xs \<le> unat (stk_capacity k)" using k by (simp_all add: stack_list_def)
  have z: "stk_size k \<noteq> 0" using u False by auto
  then have v: "unat (stk_size k - 1) = length xs - 1" using u by (simp add: unat_minus_one)
  have lt: "length xs - 1 < length xs" using False by simp
  have s: "slot_in k (stk_size k - 1)" using stack_list_slot [OF k, of "stk_size k - 1"] v c lt by simp
  have "length xs - 1 < unat (stk_capacity k)" using lt c by linarith
  then have n: "slots k (length xs - 1) = Some (last xs)" using k lt False by (simp add: stack_list_def last_conv_nth)
  let ?k = "k\<lparr>stk_size := stk_size k - 1, slots := (slots k)(length xs - 1 := None)\<rparr>"
  have "run_alone pop_step 5 k (pop_call True) = Some (?k, PopRet AMRC_SUCCESS (Some (last xs)))"
    using b z s n v by (simp add: eval_nat_numeral pop_call_def amsync_swap_def slot_in_def)
  moreover have "stack_list ?k (butlast xs)"
    using k v lt c by (auto simp: stack_list_def nth_butlast)
  ultimately show ?thesis using False by (intro exI [of _ ?k]) simp
next
  case True
  have b: "16 \<le> unat (stk_bytes k)" using k by (simp add: stack_list_def STACK_BYTES_def)
  have "stk_size k = 0" using k True by (simp add: stack_list_def unat_eq_zero)
  with b have "run_alone pop_step 5 k (pop_call True) = Some (k, PopRet AMRC_ERROR None)"
    by (simp add: eval_nat_numeral pop_call_def)
  with True k show ?thesis by simp
qed

text \<open>
  For a single thread \<open>amstack_push\<close> and \<open>amstack_pop\<close> are push and pop of a stack that holds at
  most as many elements as its capacity: a push on a full stack and a pop of an empty one fail and
  change nothing, and a pop returns the element pushed last.
\<close>

theorem amstack_lifo:
  assumes "stack_list k xs"
  shows "(\<exists>k' p. run_alone push_step 4 k (push_call (Some d)) = Some (k', p) \<and>
      (if length xs < unat (stk_capacity k)
       then p = PushRet AMRC_SUCCESS \<and> stack_list k' (xs @ [d]) \<and>
         (\<exists>k''. run_alone pop_step 5 k' (pop_call True) = Some (k'', PopRet AMRC_SUCCESS (Some d)) \<and> stack_list k'' xs)
       else p = PushRet AMRC_ERROR \<and> stack_list k' xs)) \<and>
    (xs = [] \<longrightarrow> (\<exists>k'. run_alone pop_step 5 k (pop_call True) = Some (k', PopRet AMRC_ERROR None) \<and> stack_list k' []))"
proof -
  from push_alone [OF assms, of d] obtain k' where p: "run_alone push_step 4 k (push_call (Some d)) =
      Some (k', PushRet (if length xs < unat (stk_capacity k) then AMRC_SUCCESS else AMRC_ERROR))"
    "stack_list k' (if length xs < unat (stk_capacity k) then xs @ [d] else xs)" by blast
  then show ?thesis
    using pop_alone [OF p(2)] pop_alone [OF assms] by (cases "length xs < unat (stk_capacity k)") auto
qed

theorem amstack_lifo_witness:
  "\<exists>k' k''. run_alone push_step 4 (demo_stack 0 (\<lambda>_. None)) (push_call (Some 7)) = Some (k', PushRet AMRC_SUCCESS) \<and>
     run_alone pop_step 5 k' (pop_call True) = Some (k'', PopRet AMRC_SUCCESS (Some 7)) \<and> stack_list k'' []"
proof -
  have "stack_list (demo_stack 0 (\<lambda>_. None)) []"
    by (simp add: stack_list_def demo_stack_def STACK_BYTES_def SLOT_BYTES_def)
  from amstack_lifo [OF this, of 7] show ?thesis by (auto simp: demo_stack_def)
qed

end
