(* ===== verification/AmLstack.thy ===== *)
theory AmLstack
  imports AmAtomic
begin

text \<open>
  The linked stack of \<^verbatim>\<open>src/libam_lstack.c\<close>: producers swap the head, consumers do so under a spin
  lock. Every access to shared memory is one step of a thread; what a node's \<^verbatim>\<open>next\<close> holds while the
  node is in nobody's hands is kept as well, so that a reuse of nodes that are still in use would show.
\<close>

section \<open>Model\<close>

record amlstack =
  lst_size :: u64
  consumer_lock :: u64
  head :: "addr option"
  nexts :: "addr \<Rightarrow> addr option"

text \<open>\<^verbatim>\<open>amlstack_init\<close> and \<^verbatim>\<open>amlstack_term\<close> leave the lock as it is.\<close>

definition amlstack_init :: "amlstack \<Rightarrow> amlstack" where
  "amlstack_init k = k\<lparr>lst_size := 0, head := None\<rparr>"

text \<open>The point a thread has reached, with its local variables \<^verbatim>\<open>node\<close>, \<^verbatim>\<open>head\<close> and \<^verbatim>\<open>next\<close>.\<close>

datatype lstack_pc =
    LIdle
  | LPushRead addr
  | LPushLink addr "addr option"
  | LPushSwap addr "addr option"
  | LPushCount
  | LPushRet
  | LPopLock
  | LPopRead
  | LPopNext addr
  | LPopSwap addr "addr option"
  | LPopClear addr
  | LPopCount addr
  | LPopUnlock "addr option"
  | LPopRet "addr option"

text \<open>\<^verbatim>\<open>assert(stk != NULL && node != NULL)\<close>.\<close>

definition lpush_call :: "addr option \<Rightarrow> lstack_pc option" where
  "lpush_call node = do { node \<leftarrow> node; Some (LPushRead node) }"

fun lpush_step :: "amlstack \<Rightarrow> lstack_pc \<Rightarrow> (amlstack \<times> lstack_pc) option" where
  "lpush_step k (LPushRead n) = Some (k, LPushLink n (head k))"
| "lpush_step k (LPushLink n h) = Some (k\<lparr>nexts := (nexts k)(n := h)\<rparr>, LPushSwap n h)"
| "lpush_step k (LPushSwap n h) =
     (let (ok, v) = amsync_swap (head k) h (Some n)
      in Some (k\<lparr>head := v\<rparr>, if ok then LPushCount else LPushRead n))"
| "lpush_step k LPushCount = Some (k\<lparr>lst_size := snd (amsync_inc (lst_size k))\<rparr>, LPushRet)"
| "lpush_step k _ = None"

text \<open>A failed unlock calls \<^verbatim>\<open>abort\<close>.\<close>

fun lpop_step :: "amlstack \<Rightarrow> lstack_pc \<Rightarrow> (amlstack \<times> lstack_pc) option" where
  "lpop_step k LPopLock =
     (let (ok, v) = amspinlock_lock (consumer_lock k) 1
      in Some (k\<lparr>consumer_lock := v\<rparr>, if ok then LPopRead else LPopLock))"
| "lpop_step k LPopRead = Some (k, case head k of None \<Rightarrow> LPopUnlock None | Some h \<Rightarrow> LPopNext h)"
| "lpop_step k (LPopNext h) = Some (k, LPopSwap h (nexts k h))"
| "lpop_step k (LPopSwap h n) =
     (let (ok, v) = amsync_swap (head k) (Some h) n
      in Some (k\<lparr>head := v\<rparr>, if ok then LPopClear h else LPopRead))"
| "lpop_step k (LPopClear h) = Some (k\<lparr>nexts := (nexts k)(h := None)\<rparr>, LPopCount h)"
| "lpop_step k (LPopCount h) = Some (k\<lparr>lst_size := snd (amsync_dec (lst_size k))\<rparr>, LPopUnlock (Some h))"
| "lpop_step k (LPopUnlock r) =
     (let (ok, v) = amspinlock_unlock (consumer_lock k) 1
      in if ok then Some (k\<lparr>consumer_lock := v\<rparr>, LPopRet r) else None)"
| "lpop_step k _ = None"

definition lstep :: "amlstack \<Rightarrow> lstack_pc \<Rightarrow> (amlstack \<times> lstack_pc) option" where
  "lstep k p = (case lpush_step k p of None \<Rightarrow> lpop_step k p | r \<Rightarrow> r)"

text \<open>
  The system. A client pushes a node that is in no one else's hands: it is not in the stack, and no
  running call has it (the warning of \<^verbatim>\<open>amlstack_push\<close>). \<open>given\<close> and \<open>taken\<close> are the nodes whose push
  and pop took effect.
\<close>

fun nodes_of :: "lstack_pc \<Rightarrow> addr multiset" where
  "nodes_of (LPushRead n) = {#n#}"
| "nodes_of (LPushLink n h) = {#n#}"
| "nodes_of (LPushSwap n h) = {#n#}"
| "nodes_of (LPopClear h) = {#h#}"
| "nodes_of (LPopCount h) = {#h#}"
| "nodes_of (LPopUnlock (Some h)) = {#h#}"
| "nodes_of (LPopRet (Some h)) = {#h#}"
| "nodes_of _ = {#}"

fun linked :: "(addr \<Rightarrow> addr option) \<Rightarrow> addr option \<Rightarrow> addr list \<Rightarrow> bool" where
  "linked nx p [] \<longleftrightarrow> p = None"
| "linked nx p (x # xs) \<longleftrightarrow> p = Some x \<and> linked nx (nx x) xs"

record lstack_sys =
  lst :: amlstack
  lthreads :: "lstack_pc list"
  lgiven :: "addr multiset"
  ltaken :: "addr multiset"
  lreturned :: "addr multiset"

fun lcommitted :: "lstack_pc \<Rightarrow> lstack_pc \<Rightarrow> addr multiset" where
  "lcommitted (LPushSwap n h) LPushCount = {#n#}"
| "lcommitted _ _ = {#}"

fun ldelivered :: "lstack_pc \<Rightarrow> lstack_pc \<Rightarrow> addr multiset" where
  "ldelivered (LPopSwap h n) (LPopClear _) = {#h#}"
| "ldelivered _ _ = {#}"

text \<open>What the caller of a finished call gets; and the nodes that running calls have popped.\<close>

fun returned :: "lstack_pc \<Rightarrow> addr multiset" where
  "returned (LPopRet r) = content r"
| "returned _ = {#}"

fun popped :: "lstack_pc \<Rightarrow> addr multiset" where
  "popped (LPopClear h) = {#h#}"
| "popped (LPopCount h) = {#h#}"
| "popped (LPopUnlock r) = content r"
| "popped (LPopRet r) = content r"
| "popped _ = {#}"

definition held :: "lstack_sys \<Rightarrow> addr multiset" where
  "held s = sum_list (map nodes_of (lthreads s))"

inductive lstack_step :: "lstack_sys \<Rightarrow> lstack_sys \<Rightarrow> bool" where
  push: "i < length (lthreads s) \<Longrightarrow> lthreads s ! i = LIdle \<Longrightarrow> lpush_call (Some n) = Some p \<Longrightarrow>
    n \<notin># held s \<Longrightarrow> (\<And>xs. linked (nexts (lst s)) (head (lst s)) xs \<Longrightarrow> n \<notin> set xs) \<Longrightarrow>
    lstack_step s (s\<lparr>lthreads := (lthreads s)[i := p]\<rparr>)"
| pop: "i < length (lthreads s) \<Longrightarrow> lthreads s ! i = LIdle \<Longrightarrow>
    lstack_step s (s\<lparr>lthreads := (lthreads s)[i := LPopLock]\<rparr>)"
| run: "i < length (lthreads s) \<Longrightarrow> lstep (lst s) (lthreads s ! i) = Some (k, p) \<Longrightarrow>
    lstack_step s (s\<lparr>lst := k, lthreads := (lthreads s)[i := p],
      lgiven := lgiven s + lcommitted (lthreads s ! i) p, ltaken := ltaken s + ldelivered (lthreads s ! i) p\<rparr>)"
| finish: "i < length (lthreads s) \<Longrightarrow> lthreads s ! i = LPushRet \<or> (\<exists>r. lthreads s ! i = LPopRet r) \<Longrightarrow>
    lstack_step s (s\<lparr>lthreads := (lthreads s)[i := LIdle], lreturned := lreturned s + returned (lthreads s ! i)\<rparr>)"

definition lstack_init :: "lstack_sys \<Rightarrow> bool" where
  "lstack_init s \<longleftrightarrow> (\<exists>k. lst s = amlstack_init k) \<and> consumer_lock (lst s) = AMSPINLOCK_UNLOCKED \<and>
     set (lthreads s) \<subseteq> {LIdle} \<and> lgiven s = {#} \<and> ltaken s = {#} \<and> lreturned s = {#}"

section \<open>Invariant\<close>

lemma linked_unique: "linked nx p xs \<Longrightarrow> linked nx p ys \<Longrightarrow> xs = ys"
proof (induction xs arbitrary: p ys)
  case Nil
  then show ?case by (cases ys) auto
next
  case (Cons x xs)
  then show ?case by (cases ys) auto
qed

lemma linked_upd: "n \<notin> set xs \<Longrightarrow> linked (nx(n := v)) p xs = linked nx p xs"
  by (induction xs arbitrary: p) auto

lemma linked_in: "linked nx p xs \<Longrightarrow> p = Some h \<Longrightarrow> \<exists>ys. xs = h # ys \<and> linked nx (nx h) ys"
  by (cases xs) auto

fun in_section :: "lstack_pc \<Rightarrow> nat" where
  "in_section LPopRead = 1"
| "in_section (LPopNext h) = 1"
| "in_section (LPopSwap h n) = 1"
| "in_section (LPopClear h) = 1"
| "in_section (LPopCount h) = 1"
| "in_section (LPopUnlock r) = 1"
| "in_section _ = 0"

text \<open>The counter lags behind by the pushes and pops that took effect and were not counted yet.\<close>

fun lag :: "lstack_pc \<Rightarrow> u64" where
  "lag LPushCount = 1"
| "lag (LPopClear h) = - 1"
| "lag (LPopCount h) = - 1"
| "lag _ = 0"

fun lpc_ok :: "amlstack \<Rightarrow> addr list \<Rightarrow> lstack_pc \<Rightarrow> bool" where
  "lpc_ok k xs (LPushSwap n h) = (nexts k n = h)"
| "lpc_ok k xs (LPopNext h) = (h \<in> set xs)"
| "lpc_ok k xs (LPopSwap h n) = (h \<in> set xs \<and> nexts k h = n)"
| "lpc_ok k xs _ = True"

definition lstack_ok :: "lstack_sys \<Rightarrow> addr list \<Rightarrow> bool" where
  "lstack_ok s xs \<longleftrightarrow>
     linked (nexts (lst s)) (head (lst s)) xs \<and>
     (\<forall>n. count (held s + mset xs) n \<le> 1) \<and>
     (\<forall>p \<in> set (lthreads s). lpc_ok (lst s) xs p) \<and>
     mutex in_section (lthreads s) (consumer_lock (lst s)) \<and>
     lst_size (lst s) + sum_list (map lag (lthreads s)) = of_nat (length xs)"

definition lstack_inv :: "lstack_sys \<Rightarrow> bool" where
  "lstack_inv s \<longleftrightarrow> (\<exists>xs. lstack_ok s xs)"

section \<open>Threads do not interfere\<close>

lemma held_apart:
  assumes ok: "lstack_ok s xs" and i: "i < length (lthreads s)" and n: "n \<in># nodes_of (lthreads s ! i)"
  shows "n \<notin> set xs" and "j < length (lthreads s) \<Longrightarrow> j \<noteq> i \<Longrightarrow> n \<notin># nodes_of (lthreads s ! j)"
proof -
  have c: "count (held s + mset xs) n \<le> 1" using ok by (simp add: lstack_ok_def)
  obtain r where r: "held s = nodes_of (lthreads s ! i) + r"
    using sum_list_one [OF i, of nodes_of] by (auto simp: held_def)
  have n1: "0 < count (nodes_of (lthreads s ! i)) n" using n by simp
  have "count (nodes_of (lthreads s ! i)) n + count r n + count (mset xs) n \<le> 1" using c by (simp add: r)
  then have "count (mset xs) n = 0" using n1 by linarith
  then show "n \<notin> set xs" by (metis count_mset_0_iff)
  show "n \<notin># nodes_of (lthreads s ! j)" if j: "j < length (lthreads s)" "j \<noteq> i"
  proof -
    obtain r' where "held s = nodes_of (lthreads s ! i) + nodes_of (lthreads s ! j) + r'"
      using sum_list_two [OF i j(1), of nodes_of] j(2) by (auto simp: held_def)
    then have "count (nodes_of (lthreads s ! i)) n + count (nodes_of (lthreads s ! j)) n \<le> 1" using c by simp
    then have "count (nodes_of (lthreads s ! j)) n = 0" using n1 by linarith
    then show ?thesis by (simp add: not_in_iff)
  qed
qed

lemma alone_in_section:
  "lstack_ok s xs \<Longrightarrow> i < length (lthreads s) \<Longrightarrow> in_section (lthreads s ! i) = 1 \<Longrightarrow>
   j < length (lthreads s) \<Longrightarrow> j \<noteq> i \<Longrightarrow> in_section (lthreads s ! j) = 0"
  by (rule mutex_alone [of in_section "lthreads s" "consumer_lock (lst s)"]) (simp_all add: lstack_ok_def)

lemma section_locked:
  "lstack_ok s xs \<Longrightarrow> i < length (lthreads s) \<Longrightarrow> in_section (lthreads s ! i) = 1 \<Longrightarrow> consumer_lock (lst s) = 1"
  by (rule mutex_locked(1) [of in_section "lthreads s"]) (simp_all add: lstack_ok_def)

text \<open>A step of thread \<open>i\<close>, and what has to be shown about it.\<close>

lemma lstack_run:
  assumes ok: "lstack_ok s xs" and i: "i < length (lthreads s)"
    and l: "linked (nexts k) (head k) xs'"
    and n: "mset xs' + nodes_of p \<subseteq># mset xs + nodes_of (lthreads s ! i)"
    and q: "\<And>j. j < length (lthreads s) \<Longrightarrow> j \<noteq> i \<Longrightarrow> lpc_ok k xs' (lthreads s ! j)"
    and p: "lpc_ok k xs' p"
    and c: "consumer_lock k = consumer_lock (lst s) \<and> in_section p = in_section (lthreads s ! i) \<or>
      consumer_lock (lst s) = 0 \<and> consumer_lock k = 1 \<and> in_section p = 1 \<and> in_section (lthreads s ! i) = 0 \<or>
      consumer_lock k = 0 \<and> in_section p = 0 \<and> in_section (lthreads s ! i) = 1"
    and z: "lst_size k + lag p + of_nat (length xs) = lst_size (lst s) + lag (lthreads s ! i) + of_nat (length xs')"
    and s': "lst s' = k" "lthreads s' = (lthreads s)[i := p]"
  shows "lstack_ok s' xs'"
  unfolding lstack_ok_def s'(1)
proof (intro conjI allI ballI)
  note o = ok [unfolded lstack_ok_def]
  show "linked (nexts k) (head k) xs'" by (rule l)
  show "count (held s' + mset xs') a \<le> 1" for a
  proof -
    have "held s' + nodes_of (lthreads s ! i) = held s + nodes_of p"
      unfolding held_def s'(2) by (rule sum_list_update_cancel [OF i])
    then have "held s' + mset xs' + nodes_of (lthreads s ! i) = held s + (mset xs' + nodes_of p)" by (simp add: ac_simps)
    also have "\<dots> \<subseteq># held s + (mset xs + nodes_of (lthreads s ! i))" using n by simp
    finally have "held s' + mset xs' \<subseteq># held s + mset xs" by (simp add: ac_simps)
    then have "count (held s' + mset xs') a \<le> count (held s + mset xs) a" by (simp add: subseteq_mset_def)
    also have "\<dots> \<le> 1" using o by blast
    finally show ?thesis .
  qed
  show "lpc_ok k xs' r" if "r \<in> set (lthreads s')" for r
  proof -
    from that obtain j where j: "j < length (lthreads s)" "r = (lthreads s)[i := p] ! j"
      by (auto simp: s'(2) in_set_conv_nth)
    then show ?thesis using q [of j] p by (cases "j = i") auto
  qed
  show "mutex in_section (lthreads s') (consumer_lock k)"
    unfolding s'(2) by (rule mutex_update [OF _ i c]) (use o in blast)
  have "sum_list (map lag (lthreads s')) + lag (lthreads s ! i) = sum_list (map lag (lthreads s)) + lag p"
    unfolding s'(2) by (rule sum_list_update_cancel [OF i])
  then have "sum_list (map lag (lthreads s')) = sum_list (map lag (lthreads s)) + lag p - lag (lthreads s ! i)"
    by (simp add: eq_diff_eq)
  moreover have "lst_size k = lst_size (lst s) + lag (lthreads s ! i) + of_nat (length xs') - lag p - of_nat (length xs)"
    using z by (simp add: eq_diff_eq ac_simps)
  moreover have "of_nat (length xs) = lst_size (lst s) + sum_list (map lag (lthreads s))" using o by simp
  ultimately show "lst_size k + sum_list (map lag (lthreads s')) = of_nat (length xs')" by simp
qed

text \<open>What a step does to the list of nodes: nothing, or push the thread's node, or pop the top.\<close>

lemma lstep_ok:
  assumes ok: "lstack_ok s xs" and i: "i < length (lthreads s)" and r: "lstep (lst s) (lthreads s ! i) = Some (k, p)"
    and s': "lst s' = k" "lthreads s' = (lthreads s)[i := p]"
  shows "\<exists>xs'. lstack_ok s' xs' \<and>
    (xs' = xs \<and> lcommitted (lthreads s ! i) p = {#} \<and> ldelivered (lthreads s ! i) p = {#} \<or>
     (\<exists>n. xs' = n # xs \<and> lcommitted (lthreads s ! i) p = {#n#} \<and> ldelivered (lthreads s ! i) p = {#}) \<or>
     (\<exists>n. xs = n # xs' \<and> lcommitted (lthreads s ! i) p = {#} \<and> ldelivered (lthreads s ! i) p = {#n#}))"
proof -
  note o = ok [unfolded lstack_ok_def]
  have l: "linked (nexts (lst s)) (head (lst s)) xs" using o by blast
  have q: "lpc_ok (lst s) xs (lthreads s ! j)" if "j < length (lthreads s)" for j using o that by simp
  note apart = held_apart [OF ok i]
  note run = lstack_run [OF ok i _ _ _ _ _ _ s']
  show ?thesis
  proof (cases "lthreads s ! i")
    case (LPushRead n)
    with r have "k = lst s" "p = LPushLink n (head (lst s))" by (auto simp: lstep_def)
    with LPushRead l q run [of xs] show ?thesis by fastforce
  next
    case (LPushLink n h)
    with r have k: "k = (lst s)\<lparr>nexts := (nexts (lst s))(n := h)\<rparr>" "p = LPushSwap n h" by (auto simp: lstep_def)
    have n: "n \<notin> set xs" "\<And>j. j < length (lthreads s) \<Longrightarrow> j \<noteq> i \<Longrightarrow> n \<notin># nodes_of (lthreads s ! j)"
      using apart [of n] LPushLink by simp_all
    have "lpc_ok k xs (lthreads s ! j)" if "j < length (lthreads s)" "j \<noteq> i" for j
      using q [OF that(1)] n(2) [OF that] n(1) k(1) by (cases "lthreads s ! j") auto
    moreover have "linked (nexts k) (head k) xs" using l n(1) by (simp add: k linked_upd)
    ultimately have "lstack_ok s' xs" using LPushLink by (intro run) (simp_all add: k)
    with k LPushLink show ?thesis by auto
  next
    case (LPushSwap n h)
    show ?thesis
    proof (cases "head (lst s) = h")
      case True
      with r LPushSwap have k: "k = (lst s)\<lparr>head := Some n\<rparr>" "p = LPushCount"
        by (auto simp: lstep_def amsync_swap_def)
      have "nexts (lst s) n = h" using q [OF i] LPushSwap by simp
      then have l': "linked (nexts k) (head k) (n # xs)" using l True by (simp add: k)
      have "lpc_ok k (n # xs) (lthreads s ! j)" if "j < length (lthreads s)" "j \<noteq> i" for j
        using q [OF that(1)] k(1) by (cases "lthreads s ! j") auto
      then have "lstack_ok s' (n # xs)" using LPushSwap l' by (intro run) (simp_all add: k)
      with k LPushSwap show ?thesis by auto
    next
      case False
      with r LPushSwap have "k = lst s" "p = LPushRead n" by (auto simp: lstep_def amsync_swap_def)
      with LPushSwap l q run [of xs] show ?thesis by fastforce
    qed
  next
    case LPushCount
    with r have k: "k = (lst s)\<lparr>lst_size := lst_size (lst s) + 1\<rparr>" "p = LPushRet"
      by (auto simp: lstep_def amsync_inc_def amsync_add_def)
    have "lpc_ok k xs (lthreads s ! j)" if "j < length (lthreads s)" for j
      using q [OF that(1)] k(1) by (cases "lthreads s ! j") auto
    then have "lstack_ok s' xs" using LPushCount l by (intro run) (simp_all add: k)
    with k LPushCount show ?thesis by auto
  next
    case LPopLock
    show ?thesis
    proof (cases "consumer_lock (lst s) = 0")
      case True
      with r LPopLock have k: "k = (lst s)\<lparr>consumer_lock := 1\<rparr>" "p = LPopRead"
        by (auto simp: lstep_def amspinlock_lock_def amsync_swap_def AMSPINLOCK_UNLOCKED_def)
      have "lpc_ok k xs (lthreads s ! j)" if "j < length (lthreads s)" for j
        using q [OF that(1)] k(1) by (cases "lthreads s ! j") auto
      then have "lstack_ok s' xs" using LPopLock l True by (intro run) (simp_all add: k)
      with k LPopLock show ?thesis by auto
    next
      case False
      with r LPopLock have "k = lst s" "p = LPopLock"
        by (auto simp: lstep_def amspinlock_lock_def amsync_swap_def AMSPINLOCK_UNLOCKED_def)
      with LPopLock l q run [of xs] show ?thesis by fastforce
    qed
  next
    case LPopRead
    with r have k: "k = lst s" "p = (case head (lst s) of None \<Rightarrow> LPopUnlock None | Some h \<Rightarrow> LPopNext h)"
      by (auto simp: lstep_def)
    have "h \<in> set xs" if "head (lst s) = Some h" for h using linked_in [OF l that] by auto
    then have "lstack_ok s' xs" using LPopRead l q by (intro run) (auto simp: k split: option.split)
    with k LPopRead show ?thesis by (auto split: option.split)
  next
    case (LPopNext h)
    with r have k: "k = lst s" "p = LPopSwap h (nexts (lst s) h)" by (auto simp: lstep_def)
    have "lstack_ok s' xs" using LPopNext l q [OF i] q by (intro run) (simp_all add: k)
    with k LPopNext show ?thesis by auto
  next
    case (LPopSwap h n)
    have h: "h \<in> set xs" "nexts (lst s) h = n" using q [OF i] LPopSwap by simp_all
    show ?thesis
    proof (cases "head (lst s) = Some h")
      case True
      with r LPopSwap have k: "k = (lst s)\<lparr>head := n\<rparr>" "p = LPopClear h"
        by (auto simp: lstep_def amsync_swap_def)
      from linked_in [OF l True] obtain ys where ys: "xs = h # ys" "linked (nexts (lst s)) n ys" using h(2) by blast
      have "lpc_ok k ys (lthreads s ! j)" if "j < length (lthreads s)" "j \<noteq> i" for j
        using q [OF that(1)] alone_in_section [OF ok i _ that] LPopSwap k(1) by (cases "lthreads s ! j") auto
      then have "lstack_ok s' ys" using LPopSwap ys by (intro run) (simp_all add: k)
      with k LPopSwap ys(1) show ?thesis by auto
    next
      case False
      with r LPopSwap have "k = lst s" "p = LPopRead" by (auto simp: lstep_def amsync_swap_def)
      with LPopSwap l q run [of xs] show ?thesis by fastforce
    qed
  next
    case (LPopClear h)
    with r have k: "k = (lst s)\<lparr>nexts := (nexts (lst s))(h := None)\<rparr>" "p = LPopCount h" by (auto simp: lstep_def)
    have n: "h \<notin> set xs" "\<And>j. j < length (lthreads s) \<Longrightarrow> j \<noteq> i \<Longrightarrow> h \<notin># nodes_of (lthreads s ! j)"
      using apart [of h] LPopClear by simp_all
    have "lpc_ok k xs (lthreads s ! j)" if "j < length (lthreads s)" "j \<noteq> i" for j
      using q [OF that(1)] n(2) [OF that] n(1) k(1) by (cases "lthreads s ! j") auto
    moreover have "linked (nexts k) (head k) xs" using l n(1) by (simp add: k linked_upd)
    ultimately have "lstack_ok s' xs" using LPopClear by (intro run) (simp_all add: k)
    with k LPopClear show ?thesis by auto
  next
    case (LPopCount h)
    with r have k: "k = (lst s)\<lparr>lst_size := lst_size (lst s) - 1\<rparr>" "p = LPopUnlock (Some h)"
      by (auto simp: lstep_def amsync_dec_def amsync_sub_def)
    have "lpc_ok k xs (lthreads s ! j)" if "j < length (lthreads s)" for j
      using q [OF that(1)] k(1) by (cases "lthreads s ! j") auto
    then have "lstack_ok s' xs" using LPopCount l by (intro run) (simp_all add: k)
    with k LPopCount show ?thesis by auto
  next
    case (LPopUnlock x)
    have "consumer_lock (lst s) = 1" using section_locked [OF ok i] LPopUnlock by simp
    with r LPopUnlock have k: "k = (lst s)\<lparr>consumer_lock := 0\<rparr>" "p = LPopRet x"
      by (auto simp: lstep_def amspinlock_unlock_def amsync_swap_def AMSPINLOCK_UNLOCKED_def)
    have "lpc_ok k xs (lthreads s ! j)" if "j < length (lthreads s)" for j
      using q [OF that(1)] k(1) by (cases "lthreads s ! j") auto
    then have "lstack_ok s' xs" using LPopUnlock l by (intro run) (simp_all add: k, cases x, simp_all)
    with k LPopUnlock show ?thesis by auto
  qed (use r in \<open>simp_all add: lstep_def\<close>)
qed

text \<open>A step of the whole system.\<close>

definition balanced :: "lstack_sys \<Rightarrow> addr list \<Rightarrow> bool" where
  "balanced s xs \<longleftrightarrow> lstack_ok s xs \<and> lgiven s = ltaken s + mset xs"

definition all_returned :: "lstack_sys \<Rightarrow> bool" where
  "all_returned s \<longleftrightarrow> ltaken s = lreturned s + sum_list (map popped (lthreads s))"

lemma lstep_popped: "lstep k p = Some (k', q) \<Longrightarrow> popped q = popped p + ldelivered p q"
  by (cases p) (auto simp: lstep_def amsync_swap_def amspinlock_unlock_def amspinlock_lock_def split: if_splits option.splits)

lemma all_returned_step:
  assumes "all_returned s" and "lstack_step s s'"
  shows "all_returned s'"
  using assms(2)
proof (cases rule: lstack_step.cases)
  case (push i n p)
  then have "popped p = {#}" by (auto simp: lpush_call_def)
  then show ?thesis using push(1-3) assms(1) sum_list_update_cancel [of i "lthreads s" popped p]
    by (simp add: all_returned_def)
next
  case (pop i)
  then show ?thesis using assms(1) sum_list_update_cancel [of i "lthreads s" popped LPopLock] by (simp add: all_returned_def)
next
  case (run i k p)
  from sum_list_update_cancel [OF run(2), of popped p]
  have "sum_list (map popped ((lthreads s)[i := p])) = sum_list (map popped (lthreads s)) + ldelivered (lthreads s ! i) p"
    unfolding lstep_popped [OF run(3)] by (simp add: ac_simps)
  then show ?thesis using assms(1) run(1) by (simp add: all_returned_def ac_simps)
next
  case (finish i)
  then have "popped (lthreads s ! i) = returned (lthreads s ! i)" by auto
  then show ?thesis using assms(1) finish(1) sum_list_update_cancel [OF finish(2), of popped LIdle]
    by (simp add: all_returned_def ac_simps)
qed

lemma lstack_step_ok:
  assumes b: "balanced s xs" and st: "lstack_step s s'"
  shows "\<exists>xs'. balanced s' xs' \<and>
    (xs' = xs \<and> lgiven s' = lgiven s \<and> ltaken s' = ltaken s \<or>
     (\<exists>n. xs' = n # xs \<and> lgiven s' = lgiven s + {#n#} \<and> ltaken s' = ltaken s) \<or>
     (\<exists>n. xs = n # xs' \<and> lgiven s' = lgiven s \<and> ltaken s' = ltaken s + {#n#}))"
proof -
  have ok: "lstack_ok s xs" and g: "lgiven s = ltaken s + mset xs" using b by (simp_all add: balanced_def)
  note o = ok [unfolded lstack_ok_def]
  have l: "linked (nexts (lst s)) (head (lst s)) xs" using o by blast
  have q: "lpc_ok (lst s) xs (lthreads s ! j)" if "j < length (lthreads s)" for j using o that by simp
  show ?thesis
    using st
  proof (cases rule: lstack_step.cases)
    case (push i n p)
    then have p: "p = LPushRead n" by (simp add: lpush_call_def)
    have n: "n \<notin># held s" "n \<notin> set xs" using push l by auto
    have "lstack_ok s' xs" unfolding lstack_ok_def
    proof (intro conjI allI ballI)
      have h: "held s' = held s + {#n#}"
        using sum_list_update_cancel [OF push(2), of nodes_of p] push(1,3) p by (simp add: held_def)
      show "count (held s' + mset xs) a \<le> 1" for a
      proof (cases "a = n")
        case True
        have "count (mset xs) n = 0" using n(2) by (simp add: count_mset_0_iff)
        then show ?thesis using n(1) True by (simp add: h not_in_iff)
      next
        case False
        then show ?thesis using o by (simp add: h)
      qed
      show "lpc_ok (lst s') xs r" if "r \<in> set (lthreads s')" for r
        using that o push(1) p by (auto dest!: set_update_elim)
      have "mutex in_section ((lthreads s)[i := p]) (consumer_lock (lst s))"
        by (rule mutex_update [OF _ push(2)]) (use o push(3) p in auto)
      then show "mutex in_section (lthreads s') (consumer_lock (lst s'))" using push(1) by simp
      show "lst_size (lst s') + sum_list (map lag (lthreads s')) = of_nat (length xs)"
        using sum_list_update_cancel [OF push(2), of lag p] push(1,3) p o by simp
    qed (use l push(1) in simp)
    then show ?thesis using g push(1) by (auto simp: balanced_def)
  next
    case (pop i)
    then have "lstack_ok s' xs" using l q by (intro lstack_run [OF ok, of i "lst s" xs LPopLock]) simp_all
    then show ?thesis using g pop(1) by (auto simp: balanced_def)
  next
    case (run i k p)
    from lstep_ok [OF ok run(2,3), of s'] run(1) obtain xs' where
      "lstack_ok s' xs'"
      "xs' = xs \<and> lcommitted (lthreads s ! i) p = {#} \<and> ldelivered (lthreads s ! i) p = {#} \<or>
       (\<exists>n. xs' = n # xs \<and> lcommitted (lthreads s ! i) p = {#n#} \<and> ldelivered (lthreads s ! i) p = {#}) \<or>
       (\<exists>n. xs = n # xs' \<and> lcommitted (lthreads s ! i) p = {#} \<and> ldelivered (lthreads s ! i) p = {#n#})" by auto
    then show ?thesis using g run(1) by (intro exI [of _ xs']) (auto simp: balanced_def)
  next
    case (finish i)
    then have "lstack_ok s' xs" using l q
      by (intro lstack_run [OF ok, of i "lst s" xs LIdle]) auto
    then show ?thesis using g finish(1) by (auto simp: balanced_def)
  qed
qed

definition lstack_balanced :: "lstack_sys \<Rightarrow> bool" where
  "lstack_balanced s \<longleftrightarrow> all_returned s \<and> (\<exists>xs. balanced s xs)"

interpretation lls: invariant_system lstack_init lstack_step lstack_balanced
proof
  show "lstack_balanced s" if "lstack_init s" for s
  proof -
    from that obtain k where k: "lst s = amlstack_init k" "consumer_lock (lst s) = 0" "set (lthreads s) \<subseteq> {LIdle}"
      "lgiven s = {#}" "ltaken s = {#}" "lreturned s = {#}" by (auto simp: lstack_init_def AMSPINLOCK_UNLOCKED_def)
    have z: "sum_list (map lag (lthreads s)) = 0" "sum_list (map nodes_of (lthreads s)) = {#}" "sum_list (map popped (lthreads s)) = {#}"
      using k(3) by (auto intro!: sum_list_zero)
    have "mutex in_section (lthreads s) 0" using k(3) by (intro mutex_idle) auto
    then have "balanced s []"
      unfolding balanced_def lstack_ok_def held_def z using k by (auto simp: amlstack_init_def)
    moreover have "all_returned s" unfolding all_returned_def z using k(5,6) by simp
    ultimately show ?thesis by (auto simp: lstack_balanced_def)
  qed
  show "lstack_balanced s'" if "lstack_balanced s" "lstack_step s s'" for s s'
    using that lstack_step_ok all_returned_step unfolding lstack_balanced_def by blast
qed

section \<open>Properties\<close>

text \<open>
  C6. For any number of producers and consumers the linked stack is a stack: in every reachable state
  the nodes linked from the head are distinct and are those pushed and not yet popped, and every step
  leaves them, or puts the node of one call on top, or takes the top node. The counter is their number, but for the calls that
  have pushed or popped and did not count yet (\<open>lag\<close>); and what was popped is what calls have returned and what running calls will return.
\<close>

theorem amlstack_is_a_stack:
  assumes "lstack_init s" and "lstack_step\<^sup>*\<^sup>* s t"
  shows "\<exists>xs. linked (nexts (lst t)) (head (lst t)) xs \<and> distinct xs \<and> lgiven t = ltaken t + mset xs \<and>
    lst_size (lst t) + sum_list (map lag (lthreads t)) = of_nat (length xs) \<and>
    ltaken t = lreturned t + sum_list (map popped (lthreads t)) \<and>
    (\<forall>u. lstack_step t u \<longrightarrow>
       (\<exists>ys. linked (nexts (lst u)) (head (lst u)) ys \<and>
          (ys = xs \<and> lgiven u = lgiven t \<and> ltaken u = ltaken t \<or>
           (\<exists>n. ys = n # xs \<and> lgiven u = lgiven t + {#n#} \<and> ltaken u = ltaken t) \<or>
           (\<exists>n. xs = n # ys \<and> lgiven u = lgiven t \<and> ltaken u = ltaken t + {#n#}))))"
proof -
  from lls.reachable_inv [OF assms] obtain xs where b: "balanced t xs" and ret: "all_returned t" by (auto simp: lstack_balanced_def)
  then have o: "lstack_ok t xs" "lgiven t = ltaken t + mset xs" by (simp_all add: balanced_def)
  have "count (mset xs) a \<le> 1" for a
  proof -
    have "count (held t + mset xs) a \<le> 1" using o(1) by (simp add: lstack_ok_def)
    then show ?thesis by simp
  qed
  then have "count (mset xs) a = (if a \<in> set xs then 1 else 0)" for a
    by (metis count_mset_0_iff le_neq_implies_less less_one)
  then have "distinct xs" by (simp add: distinct_count_atmost_1)
  moreover have "\<exists>ys. linked (nexts (lst u)) (head (lst u)) ys \<and>
          (ys = xs \<and> lgiven u = lgiven t \<and> ltaken u = ltaken t \<or>
           (\<exists>n. ys = n # xs \<and> lgiven u = lgiven t + {#n#} \<and> ltaken u = ltaken t) \<or>
           (\<exists>n. xs = n # ys \<and> lgiven u = lgiven t \<and> ltaken u = ltaken t + {#n#}))" if "lstack_step t u" for u
    using lstack_step_ok [OF b that] unfolding balanced_def lstack_ok_def by blast
  ultimately show ?thesis using o ret unfolding lstack_ok_def all_returned_def by blast
qed

text \<open>A run: the first of two threads pushes node 5.\<close>

definition demo_lsys :: "u64 \<Rightarrow> addr option \<Rightarrow> lstack_pc \<Rightarrow> addr multiset \<Rightarrow> lstack_sys" where
  "demo_lsys n h p g =
     \<lparr>lst = \<lparr>lst_size = n, consumer_lock = 0, head = h, nexts = (\<lambda>_. None)\<rparr>, lthreads = [p, LIdle], lgiven = g, ltaken = {#}, lreturned = {#}\<rparr>"

lemma demo_lsys_init: "lstack_init (demo_lsys 0 None LIdle {#})"
  unfolding lstack_init_def
  by (intro conjI exI [of _ "\<lparr>lst_size = 0, consumer_lock = 0, head = None, nexts = (\<lambda>_. None)\<rparr>"])
    (simp_all add: demo_lsys_def amlstack_init_def AMSPINLOCK_UNLOCKED_def)

lemma demo_lpush: "lstack_step\<^sup>*\<^sup>* (demo_lsys 0 None LIdle {#}) (demo_lsys 1 (Some 5) LPushRet {#5#})"
proof -
  have 1: "lstack_step (demo_lsys 0 None LIdle {#}) (demo_lsys 0 None (LPushRead 5) {#})"
    using lstack_step.push [of 0 "demo_lsys 0 None LIdle {#}" 5 "LPushRead 5"]
    by (simp add: demo_lsys_def lpush_call_def held_def linked.simps(2)) (metis linked_in empty_iff list.set(1) linked.elims(2) option.distinct(1))
  have 2: "lstack_step (demo_lsys 0 None (LPushRead 5) {#}) (demo_lsys 0 None (LPushLink 5 None) {#})"
    using lstack_step.run [of 0 "demo_lsys 0 None (LPushRead 5) {#}" "lst (demo_lsys 0 None LIdle {#})" "LPushLink 5 None"]
    by (simp add: demo_lsys_def lstep_def)
  have 3: "lstack_step (demo_lsys 0 None (LPushLink 5 None) {#}) (demo_lsys 0 None (LPushSwap 5 None) {#})"
    using lstack_step.run [of 0 "demo_lsys 0 None (LPushLink 5 None) {#}" "lst (demo_lsys 0 None LIdle {#})" "LPushSwap 5 None"]
    by (simp add: demo_lsys_def lstep_def fun_upd_idem)
  have 4: "lstack_step (demo_lsys 0 None (LPushSwap 5 None) {#}) (demo_lsys 0 (Some 5) LPushCount {#5#})"
    using lstack_step.run [of 0 "demo_lsys 0 None (LPushSwap 5 None) {#}" "lst (demo_lsys 0 (Some 5) LIdle {#})" LPushCount]
    by (simp add: demo_lsys_def lstep_def amsync_swap_def)
  have 5: "lstack_step (demo_lsys 0 (Some 5) LPushCount {#5#}) (demo_lsys 1 (Some 5) LPushRet {#5#})"
    using lstack_step.run [of 0 "demo_lsys 0 (Some 5) LPushCount {#5#}" "lst (demo_lsys 1 (Some 5) LIdle {#})" LPushRet]
    by (simp add: demo_lsys_def lstep_def amsync_inc_def amsync_add_def)
  show ?thesis
    using 1 2 3 4 5 by (meson converse_rtranclp_into_rtranclp rtranclp.rtrancl_refl)
qed

theorem amlstack_is_a_stack_witness:
  "\<exists>xs. linked (\<lambda>_. None) (Some 5) xs \<and> distinct xs \<and> mset xs = {#5#}"
  using amlstack_is_a_stack [OF demo_lsys_init demo_lpush] by (auto simp: demo_lsys_def)

text \<open>
  Consumers exclude each other, the unlock never fails (so \<^verbatim>\<open>abort\<close> is not reached), every running
  call has a next step, and when no call is running the counter is the number of nodes in the stack and
  the lock is free.
\<close>

theorem amlstack_consumers_exclude:
  assumes "lstack_init s" and "lstack_step\<^sup>*\<^sup>* s t"
  shows "(\<forall>i < length (lthreads t). \<forall>j < length (lthreads t).
       in_section (lthreads t ! i) = 1 \<and> in_section (lthreads t ! j) = 1 \<longrightarrow> i = j) \<and>
    (\<forall>p \<in> set (lthreads t). p = LIdle \<or> p = LPushRet \<or> (\<exists>r. p = LPopRet r) \<or> lstep (lst t) p \<noteq> None) \<and>
    (set (lthreads t) \<subseteq> {LIdle} \<longrightarrow> consumer_lock (lst t) = AMSPINLOCK_UNLOCKED \<and>
       (\<exists>xs. linked (nexts (lst t)) (head (lst t)) xs \<and> lst_size (lst t) = of_nat (length xs)))"
proof (intro conjI allI ballI impI)
  from lls.reachable_inv [OF assms] obtain xs where ok: "lstack_ok t xs"
    by (auto simp: lstack_balanced_def balanced_def)
  note o = ok [unfolded lstack_ok_def]
  show "i = j" if "i < length (lthreads t)" "j < length (lthreads t)"
    "in_section (lthreads t ! i) = 1 \<and> in_section (lthreads t ! j) = 1" for i j
    using alone_in_section [OF ok that(1) _ that(2)] that(3) by fastforce
  show "p = LIdle \<or> p = LPushRet \<or> (\<exists>r. p = LPopRet r) \<or> lstep (lst t) p \<noteq> None" if p: "p \<in> set (lthreads t)" for p
  proof (cases p)
    case (LPopUnlock r)
    from p obtain i where "i < length (lthreads t)" "lthreads t ! i = p" by (auto simp: in_set_conv_nth)
    with section_locked [OF ok, of i] LPopUnlock show ?thesis
      by (simp add: lstep_def amspinlock_unlock_def amsync_swap_def)
  qed (simp_all add: lstep_def case_prod_beta)
  assume q: "set (lthreads t) \<subseteq> {LIdle}"
  have z: "sum_list (map lag (lthreads t)) = 0" using q by (auto intro!: sum_list_zero)
  have "consumer_lock (lst t) = 0" by (rule mutex_idleD [of in_section "lthreads t"]) (use o q in auto)
  then show "consumer_lock (lst t) = AMSPINLOCK_UNLOCKED" by (simp add: AMSPINLOCK_UNLOCKED_def)
  show "\<exists>xs. linked (nexts (lst t)) (head (lst t)) xs \<and> lst_size (lst t) = of_nat (length xs)"
    using o unfolding z by auto
qed

lemma demo_lpush_done: "lstack_step\<^sup>*\<^sup>* (demo_lsys 0 None LIdle {#}) (demo_lsys 1 (Some 5) LIdle {#5#})"
  using demo_lpush lstack_step.finish [of 0 "demo_lsys 1 (Some 5) LPushRet {#5#}"]
  by (simp add: demo_lsys_def)

theorem amlstack_consumers_exclude_witness:
  "\<exists>xs. linked (\<lambda>_. None) (Some 5) xs \<and> (1 :: u64) = of_nat (length xs)"
  using amlstack_consumers_exclude [OF demo_lsys_init demo_lpush_done] by (simp add: demo_lsys_def)

text \<open>
  \<open>amlstack_init\<close> does not set the lock: on memory that is not zero there, no consumer gets past it.
\<close>

lemma amlstack_init_leaves_lock:
  assumes "consumer_lock k \<noteq> 0"
  shows "lpop_step (amlstack_init k) LPopLock = Some (amlstack_init k, LPopLock)"
  using assms
  by (simp add: amlstack_init_def amspinlock_lock_def amsync_swap_def AMSPINLOCK_UNLOCKED_def)

end
