(* ===== verification/AmCqueue.thy ===== *)
theory AmCqueue
  imports AmAtomic
begin

text \<open>
  The circular queue of \<^verbatim>\<open>src/libam_cqueue.c\<close>: producers move the tail by compare-and-swap, consumers
  the head under a spin lock, and both then wait for their cell. Every access to shared memory is one
  step of a thread.
\<close>

section \<open>Model\<close>

text \<open>
  \<open>cq_bytes\<close> is the size of the block; the offsets are those of \<^verbatim>\<open>amcqueue_t\<close>: 0 for the lock, 8 for the
  capacity, 16 for the head, 24 for the tail, 32 for the cells of 8 bytes.
\<close>

record amcqueue =
  cq_bytes :: u64
  read_lock :: u64
  cq_capacity :: u64
  cq_head :: u64
  cq_tail :: u64
  cells :: "nat \<Rightarrow> addr option"

definition QUEUE_BYTES :: u64 where "QUEUE_BYTES = 32"
definition CELL_BYTES :: u64 where "CELL_BYTES = 8"

definition cell_in :: "amcqueue \<Rightarrow> u64 \<Rightarrow> bool" where
  "cell_in k n \<longleftrightarrow> unat QUEUE_BYTES + unat CELL_BYTES * (unat n + 1) \<le> unat (cq_bytes k)"

definition amcqueue_alloc :: "allocator \<Rightarrow> heap \<Rightarrow> u64 \<Rightarrow> ((addr \<times> amcqueue) option \<times> heap) option" where
  "amcqueue_alloc alloc h cap =
     (let cap = cap + 1;
          sz = QUEUE_BYTES + CELL_BYTES * cap
      in case malloc alloc sz h of
           (None, h) \<Rightarrow> Some (None, h)
         | (Some a, h) \<Rightarrow>
             do { c_assert (16 \<le> unat sz);
                  Some (Some (a, \<lparr>cq_bytes = sz, read_lock = AMSPINLOCK_UNLOCKED, cq_capacity = cap,
                    cq_head = 0, cq_tail = 0, cells = (\<lambda>_. None)\<rparr>), h) })"

definition amcqueue_free :: "addr option \<Rightarrow> heap \<Rightarrow> (amrc \<times> heap) option" where
  "amcqueue_free cq h = do { h \<leftarrow> free_block cq h; Some (AMRC_SUCCESS, h) }"

datatype queue_pc =
    QIdle
  | EnqRead addr
  | EnqSwap addr u64 u64
  | EnqCell addr u64
  | EnqRet amrc
  | DeqLock
  | DeqRead
  | DeqCheck u64 u64
  | DeqSwap u64 u64
  | DeqUnlockEmpty
  | DeqUnlock u64
  | DeqLoad u64
  | DeqTake u64 addr
  | DeqRet amrc "addr option"

definition enq_call :: "addr option \<Rightarrow> queue_pc" where
  "enq_call data = (case data of None \<Rightarrow> EnqRet AMRC_ERROR | Some d \<Rightarrow> EnqRead d)"

text \<open>The remainder traps when the capacity is 0.\<close>

definition next_index :: "amcqueue \<Rightarrow> u64 \<Rightarrow> u64 option" where
  "next_index k i = (if cq_capacity k = 0 then None else Some ((i + 1) mod cq_capacity k))"

fun enq_step :: "amcqueue \<Rightarrow> queue_pc \<Rightarrow> (amcqueue \<times> queue_pc) option" where
  "enq_step k (EnqRead d) =
     do { c_assert (32 \<le> unat (cq_bytes k));
          new_tail \<leftarrow> next_index k (cq_tail k);
          Some (k, EnqSwap d (cq_tail k) new_tail) }"
| "enq_step k (EnqSwap d t new_tail) =
     do { c_assert (32 \<le> unat (cq_bytes k));
          let (ok, v) = amsync_swap (cq_tail k) t new_tail;
          Some (k\<lparr>cq_tail := v\<rparr>, if ok then EnqCell d t else EnqRead d) }"
| "enq_step k (EnqCell d t) =
     do { c_assert (cell_in k t);
          let (ok, v) = amsync_swap (cells k (unat t)) None (Some d);
          Some (k\<lparr>cells := (cells k)(unat t := v)\<rparr>, if ok then EnqRet AMRC_SUCCESS else EnqCell d t) }"
| "enq_step k _ = None"

fun deq_step :: "amcqueue \<Rightarrow> queue_pc \<Rightarrow> (amcqueue \<times> queue_pc) option" where
  "deq_step k DeqLock =
     do { c_assert (32 \<le> unat (cq_bytes k));
          let (ok, v) = amspinlock_lock (read_lock k) 1;
          Some (k\<lparr>read_lock := v\<rparr>, if ok then DeqRead else DeqLock) }"
| "deq_step k DeqRead =
     do { c_assert (32 \<le> unat (cq_bytes k));
          new_head \<leftarrow> next_index k (cq_head k);
          Some (k, DeqCheck (cq_head k) new_head) }"
| "deq_step k (DeqCheck h new_head) =
     do { c_assert (32 \<le> unat (cq_bytes k));
          Some (k, if h = cq_tail k then DeqUnlockEmpty else DeqSwap h new_head) }"
| "deq_step k (DeqSwap h new_head) =
     do { c_assert (32 \<le> unat (cq_bytes k));
          let (ok, v) = amsync_swap (cq_head k) h new_head;
          Some (k\<lparr>cq_head := v\<rparr>, if ok then DeqUnlock h else DeqRead) }"
| "deq_step k DeqUnlockEmpty =
     do { c_assert (32 \<le> unat (cq_bytes k));
          Some (k\<lparr>read_lock := snd (amspinlock_unlock (read_lock k) 1)\<rparr>, DeqRet AMRC_ERROR None) }"
| "deq_step k (DeqUnlock h) =
     do { c_assert (32 \<le> unat (cq_bytes k));
          Some (k\<lparr>read_lock := snd (amspinlock_unlock (read_lock k) 1)\<rparr>, DeqLoad h) }"
| "deq_step k (DeqLoad h) =
     do { c_assert (cell_in k h);
          Some (k, case cells k (unat h) of None \<Rightarrow> DeqLoad h | Some p \<Rightarrow> DeqTake h p) }"
| "deq_step k (DeqTake h p) =
     do { c_assert (cell_in k h);
          let (ok, v) = amsync_swap (cells k (unat h)) (Some p) None;
          Some (k\<lparr>cells := (cells k)(unat h := v)\<rparr>, if ok then DeqRet AMRC_SUCCESS (Some p) else DeqLoad h) }"
| "deq_step k _ = None"

definition qstep :: "amcqueue \<Rightarrow> queue_pc \<Rightarrow> (amcqueue \<times> queue_pc) option" where
  "qstep k p = (case enq_step k p of None \<Rightarrow> deq_step k p | r \<Rightarrow> r)"

text \<open>The system; \<open>tails\<close> and \<open>heads\<close> count how often tail and head were moved.\<close>

record queue_sys =
  cq :: amcqueue
  qthreads :: "queue_pc list"
  tails :: nat
  heads :: nat
  qgiven :: "addr multiset"
  qtaken :: "addr multiset"

text \<open>The element of an \<^verbatim>\<open>amcqueue_enq\<close> that gets to a successful return.\<close>

fun qoffered :: "queue_pc \<Rightarrow> addr multiset" where
  "qoffered (EnqRead d) = {#d#}"
| "qoffered (EnqSwap d t nt) = {#d#}"
| "qoffered (EnqCell d t) = {#d#}"
| "qoffered _ = {#}"

fun qcommitted :: "queue_pc \<Rightarrow> queue_pc \<Rightarrow> addr multiset" where
  "qcommitted p (EnqRet AMRC_SUCCESS) = qoffered p"
| "qcommitted _ _ = {#}"

text \<open>What a successful call stored to \<^verbatim>\<open>*data\<close> when it gets to its return.\<close>

fun qdelivered :: "queue_pc \<Rightarrow> queue_pc \<Rightarrow> addr multiset" where
  "qdelivered _ (DeqRet AMRC_SUCCESS x) = content x"
| "qdelivered _ _ = {#}"

fun tail_moved :: "queue_pc \<Rightarrow> queue_pc \<Rightarrow> nat" where
  "tail_moved (EnqSwap d t nt) (EnqCell _ _) = 1"
| "tail_moved _ _ = 0"

fun head_moved :: "queue_pc \<Rightarrow> queue_pc \<Rightarrow> nat" where
  "head_moved (DeqSwap h nh) (DeqUnlock _) = 1"
| "head_moved _ _ = 0"

inductive queue_step :: "queue_sys \<Rightarrow> queue_sys \<Rightarrow> bool" where
  enq: "i < length (qthreads s) \<Longrightarrow> qthreads s ! i = QIdle \<Longrightarrow>
    queue_step s (s\<lparr>qthreads := (qthreads s)[i := enq_call d]\<rparr>)"
| deq: "i < length (qthreads s) \<Longrightarrow> qthreads s ! i = QIdle \<Longrightarrow>
    queue_step s (s\<lparr>qthreads := (qthreads s)[i := DeqLock]\<rparr>)"
| run: "i < length (qthreads s) \<Longrightarrow> qstep (cq s) (qthreads s ! i) = Some (k, p) \<Longrightarrow>
    queue_step s (s\<lparr>cq := k, qthreads := (qthreads s)[i := p],
      tails := tails s + tail_moved (qthreads s ! i) p, heads := heads s + head_moved (qthreads s ! i) p,
      qgiven := qgiven s + qcommitted (qthreads s ! i) p, qtaken := qtaken s + qdelivered (qthreads s ! i) p\<rparr>)"
| finish: "i < length (qthreads s) \<Longrightarrow> (\<exists>r. qthreads s ! i = EnqRet r) \<or> (\<exists>r x. qthreads s ! i = DeqRet r x) \<Longrightarrow>
    queue_step s (s\<lparr>qthreads := (qthreads s)[i := QIdle]\<rparr>)"

definition queue_init :: "queue_sys \<Rightarrow> bool" where
  "queue_init s \<longleftrightarrow>
     (\<exists>alloc h cap a h'. amcqueue_alloc alloc h cap = Some (Some (a, cq s), h') \<and>
        unat QUEUE_BYTES + unat CELL_BYTES * (unat cap + 1) < 2 ^ 64) \<and>
     set (qthreads s) \<subseteq> {QIdle} \<and> tails s = 0 \<and> heads s = 0 \<and> qgiven s = {#} \<and> qtaken s = {#}"

section \<open>Invariant\<close>

fun storing :: "nat \<Rightarrow> queue_pc \<Rightarrow> nat" where
  "storing i (EnqCell d t) = (if unat t = i then 1 else 0)"
| "storing i _ = 0"

fun fetching :: "nat \<Rightarrow> queue_pc \<Rightarrow> nat" where
  "fetching i (DeqUnlock h) = (if unat h = i then 1 else 0)"
| "fetching i (DeqLoad h) = (if unat h = i then 1 else 0)"
| "fetching i (DeqTake h p) = (if unat h = i then 1 else 0)"
| "fetching i _ = 0"

fun in_read :: "queue_pc \<Rightarrow> nat" where
  "in_read DeqRead = 1"
| "in_read (DeqCheck h nh) = 1"
| "in_read (DeqSwap h nh) = 1"
| "in_read DeqUnlockEmpty = 1"
| "in_read (DeqUnlock h) = 1"
| "in_read _ = 0"

text \<open>The tickets between \<open>h\<close> and \<open>t\<close> that fall on cell \<open>n\<close> of \<open>c\<close>.\<close>

definition tickets :: "nat \<Rightarrow> nat \<Rightarrow> nat \<Rightarrow> nat \<Rightarrow> nat" where
  "tickets c h t n = length (filter (\<lambda>i. i mod c = n) [h ..< t])"

definition follows :: "nat \<Rightarrow> u64 \<Rightarrow> u64 \<Rightarrow> bool" where
  "follows c i j \<longleftrightarrow> unat i < c \<and> unat j = Suc (unat i) mod c"

fun qpc_ok :: "nat \<Rightarrow> u64 \<Rightarrow> bool \<Rightarrow> queue_pc \<Rightarrow> bool" where
  "qpc_ok c hx b (EnqSwap d t nt) = follows c t nt"
| "qpc_ok c hx b (EnqCell d t) = (unat t < c)"
| "qpc_ok c hx b (DeqCheck h nh) = (h = hx \<and> follows c h nh)"
| "qpc_ok c hx b (DeqSwap h nh) = (h = hx \<and> follows c h nh \<and> b)"
| "qpc_ok c hx b (DeqUnlock h) = (unat h < c)"
| "qpc_ok c hx b (DeqLoad h) = (unat h < c)"
| "qpc_ok c hx b (DeqTake h p) = (unat h < c)"
| "qpc_ok c hx b _ = True"

definition queue_inv :: "queue_sys \<Rightarrow> bool" where
  "queue_inv s \<longleftrightarrow>
     (let k = cq s; c = unat (cq_capacity k)
      in 0 < c \<and> unat QUEUE_BYTES + unat CELL_BYTES * c \<le> unat (cq_bytes k) \<and>
         heads s \<le> tails s \<and> unat (cq_head k) = heads s mod c \<and> unat (cq_tail k) = tails s mod c \<and>
         (\<forall>p \<in> set (qthreads s). qpc_ok c (cq_head k) (heads s < tails s) p) \<and>
         mutex in_read (qthreads s) (read_lock k) \<and>
         (\<forall>n < c. full (cells k n) + sum_list (map (storing n) (qthreads s)) =
            sum_list (map (fetching n) (qthreads s)) + tickets c (heads s) (tails s) n))"

definition queued :: "amcqueue \<Rightarrow> addr multiset" where
  "queued k = (\<Sum>n < unat (cq_capacity k). content (cells k n))"

definition qinside :: "queue_sys \<Rightarrow> addr multiset" where
  "qinside s = queued (cq s)"

lemma tickets_tail: "h \<le> t \<Longrightarrow> tickets c h (Suc t) n = tickets c h t n + (if t mod c = n then 1 else 0)"
  by (simp add: tickets_def)

lemma tickets_head: "h < t \<Longrightarrow> tickets c h t n = (if h mod c = n then 1 else 0) + tickets c (Suc h) t n"
  by (simp add: tickets_def upt_conv_Cons)

lemma queue_invD:
  assumes "queue_inv s"
  shows "0 < unat (cq_capacity (cq s))" "unat QUEUE_BYTES + unat CELL_BYTES * unat (cq_capacity (cq s)) \<le> unat (cq_bytes (cq s))"
    "heads s \<le> tails s" "unat (cq_head (cq s)) = heads s mod unat (cq_capacity (cq s))"
    "unat (cq_tail (cq s)) = tails s mod unat (cq_capacity (cq s))"
    "\<And>p. p \<in> set (qthreads s) \<Longrightarrow> qpc_ok (unat (cq_capacity (cq s))) (cq_head (cq s)) (heads s < tails s) p"
    "mutex in_read (qthreads s) (read_lock (cq s))"
    "\<And>n. n < unat (cq_capacity (cq s)) \<Longrightarrow> full (cells (cq s) n) + sum_list (map (storing n) (qthreads s)) =
        sum_list (map (fetching n) (qthreads s)) + tickets (unat (cq_capacity (cq s))) (heads s) (tails s) n"
  using assms by (simp_all add: queue_inv_def Let_def)

lemma queue_run:
  assumes inv: "queue_inv s" and i: "i < length (qthreads s)"
    and k: "cq_capacity k = cq_capacity (cq s)" "cq_bytes k = cq_bytes (cq s)" "heads s' \<le> tails s'"
      "unat (cq_head k) = heads s' mod unat (cq_capacity k)" "unat (cq_tail k) = tails s' mod unat (cq_capacity k)"
    and q: "\<And>j. j < length (qthreads s) \<Longrightarrow> j \<noteq> i \<Longrightarrow>
      qpc_ok (unat (cq_capacity k)) (cq_head k) (heads s' < tails s') (qthreads s ! j)"
    and p: "qpc_ok (unat (cq_capacity k)) (cq_head k) (heads s' < tails s') p"
    and c: "read_lock k = read_lock (cq s) \<and> in_read p = in_read (qthreads s ! i) \<or>
      read_lock (cq s) = 0 \<and> read_lock k = 1 \<and> in_read p = 1 \<and> in_read (qthreads s ! i) = 0 \<or>
      read_lock k = 0 \<and> in_read p = 0 \<and> in_read (qthreads s ! i) = 1"
    and eq: "\<And>n. n < unat (cq_capacity k) \<Longrightarrow>
      full (cells k n) + storing n p + fetching n (qthreads s ! i) + tickets (unat (cq_capacity k)) (heads s) (tails s) n =
      full (cells (cq s) n) + storing n (qthreads s ! i) + fetching n p + tickets (unat (cq_capacity k)) (heads s') (tails s') n"
    and s': "cq s' = k" "qthreads s' = (qthreads s)[i := p]"
  shows "queue_inv s'"
  unfolding queue_inv_def Let_def s'(1)
proof (intro conjI allI ballI impI)
  note v = queue_invD [OF inv]
  show "qpc_ok (unat (cq_capacity k)) (cq_head k) (heads s' < tails s') r" if "r \<in> set (qthreads s')" for r
  proof -
    from that obtain j where j: "j < length (qthreads s)" "r = (qthreads s)[i := p] ! j"
      by (auto simp: s'(2) in_set_conv_nth)
    then show ?thesis using q [of j] p by (cases "j = i") auto
  qed
  show "mutex in_read (qthreads s') (read_lock k)"
    unfolding s'(2) by (rule mutex_update [OF v(7) i c])
  show "full (cells k n) + sum_list (map (storing n) (qthreads s')) =
      sum_list (map (fetching n) (qthreads s')) + tickets (unat (cq_capacity k)) (heads s') (tails s') n"
    if n: "n < unat (cq_capacity k)" for n
  proof -
    have "n < unat (cq_capacity (cq s))" using n k(1) by simp
    from v(8) [OF this] eq [OF n] sum_list_update_cancel [OF i, of "storing n" p] sum_list_update_cancel [OF i, of "fetching n" p]
    show ?thesis unfolding s' k(1) by linarith
  qed
  show "0 < unat (cq_capacity k)" using v(1) k(1) by simp
  show "unat QUEUE_BYTES + unat CELL_BYTES * unat (cq_capacity k) \<le> unat (cq_bytes k)" using v(2) k(1,2) by simp
qed (use k in simp_all)

lemma next_index_ok:
  assumes "queue_inv s" and "unat i < unat (cq_capacity (cq s))"
  shows "\<exists>j. next_index (cq s) i = Some j \<and> follows (unat (cq_capacity (cq s))) i j"
proof -
  have "i < cq_capacity (cq s)" using assms(2) by (simp add: word_less_nat_alt)
  then have "unat (i + 1) = Suc (unat i)" by (rule unat_plus_one_less)
  moreover have "cq_capacity (cq s) \<noteq> 0" using assms(2) by auto
  ultimately show ?thesis using assms(2) by (simp add: next_index_def follows_def unat_mod)
qed

lemma ends_inside:
  assumes "queue_inv s"
  shows "unat (cq_head (cq s)) < unat (cq_capacity (cq s))" and "unat (cq_tail (cq s)) < unat (cq_capacity (cq s))"
  using queue_invD(1,4,5) [OF assms] by simp_all

lemma follows_next: "follows c i j \<Longrightarrow> unat i = h mod c \<Longrightarrow> unat j = Suc h mod c"
  by (simp add: follows_def mod_Suc_eq)

lemma in_section_head: "in_read p = 0 \<Longrightarrow> qpc_ok c h b p \<Longrightarrow> qpc_ok c h' b' p"
  by (cases p) simp_all

lemma qpc_ok_later: "qpc_ok c h b p \<Longrightarrow> (b \<longrightarrow> b') \<Longrightarrow> qpc_ok c h b' p"
  by (cases p) simp_all

lemma cell_in_inv: "queue_inv s \<Longrightarrow> unat n < unat (cq_capacity (cq s)) \<Longrightarrow> cell_in (cq s) n"
  using queue_invD(2) [of s] by (auto simp: cell_in_def CELL_BYTES_def)

lemma queue_bytes: "queue_inv s \<Longrightarrow> 32 \<le> unat (cq_bytes (cq s))"
  using queue_invD(2) [of s] by (simp add: QUEUE_BYTES_def)

lemma qstep_inv:
  assumes inv: "queue_inv s" and i: "i < length (qthreads s)" and r: "qstep (cq s) (qthreads s ! i) = Some (k, p)"
    and s': "cq s' = k" "qthreads s' = (qthreads s)[i := p]"
    "tails s' = tails s + tail_moved (qthreads s ! i) p" "heads s' = heads s + head_moved (qthreads s ! i) p"
  shows "queue_inv s'"
proof -
  note v = queue_invD [OF inv] and run = queue_run [OF inv i _ _ _ _ _ _ _ _ _ s'(1,2)]
  let ?c = "unat (cq_capacity (cq s))"
  have b: "32 \<le> unat (cq_bytes (cq s))" by (rule queue_bytes [OF inv])
  have pc: "qpc_ok ?c (cq_head (cq s)) (heads s < tails s) (qthreads s ! i)" using v(6) i by simp
  have q: "qpc_ok ?c (cq_head (cq s)) (heads s < tails s) (qthreads s ! j)" if "j < length (qthreads s)" for j
    using v(6) that by simp
  have un: "read_lock (cq s) = 1" if "in_read (qthreads s ! i) = 1" by (rule mutex_locked(1) [OF v(7) i that])
  have unl: "snd (amspinlock_unlock (1 :: u64) 1) = 0"
    by (simp add: amspinlock_unlock_def amsync_swap_def AMSPINLOCK_UNLOCKED_def)
  have idle: "queue_inv s'" if "k = cq s" "in_read p = in_read (qthreads s ! i)"
    "qpc_ok ?c (cq_head (cq s)) (heads s < tails s) p" "tail_moved (qthreads s ! i) p = 0" "head_moved (qthreads s ! i) p = 0"
    "\<And>n. storing n p + fetching n (qthreads s ! i) = storing n (qthreads s ! i) + fetching n p"
    using that v q s'(3,4) by (intro run) auto
  show ?thesis
  proof (cases "qthreads s ! i")
    case (EnqRead d)
    from next_index_ok [OF inv ends_inside(2) [OF inv]] obtain j where
      "next_index (cq s) (cq_tail (cq s)) = Some j" "follows ?c (cq_tail (cq s)) j" by blast
    with r b EnqRead show ?thesis by (intro idle) (auto simp: qstep_def)
  next
    case (EnqSwap d t nt)
    show ?thesis
    proof (cases "cq_tail (cq s) = t")
      case True
      with r b EnqSwap have k: "k = (cq s)\<lparr>cq_tail := nt\<rparr>" "p = EnqCell d t" by (auto simp: qstep_def amsync_swap_def)
      have H: "heads s' = heads s" "tails s' = Suc (tails s)" using s'(3,4) k EnqSwap by simp_all
      have t: "unat t = tails s mod ?c" using v(5) True by simp
      have f: "follows ?c t nt" using pc EnqSwap by simp
      show ?thesis
      proof (rule run)
        show "qpc_ok (unat (cq_capacity k)) (cq_head k) (heads s' < tails s') (qthreads s ! j)"
          if "j < length (qthreads s)" "j \<noteq> i" for j
          using qpc_ok_later [OF q [OF that(1)]] H v(3) by (simp add: k)
        show "full (cells k n) + storing n p + fetching n (qthreads s ! i) + tickets (unat (cq_capacity k)) (heads s) (tails s) n =
            full (cells (cq s) n) + storing n (qthreads s ! i) + fetching n p + tickets (unat (cq_capacity k)) (heads s') (tails s') n"
          for n unfolding H using tickets_tail [OF v(3)] t by (simp add: k EnqSwap)
      qed (use v H f follows_next [OF f t] t EnqSwap in \<open>simp_all add: k\<close>)
    next
      case False
      with r b EnqSwap show ?thesis by (intro idle) (auto simp: qstep_def amsync_swap_def)
    qed
  next
    case (EnqCell d t)
    have t: "unat t < ?c" using pc EnqCell by simp
    note c = cell_in_inv [OF inv t]
    show ?thesis
    proof (cases "cells (cq s) (unat t)")
      case None
      with r c EnqCell have k: "k = (cq s)\<lparr>cells := (cells (cq s))(unat t := Some d)\<rparr>" "p = EnqRet AMRC_SUCCESS"
        by (auto simp: qstep_def amsync_swap_def)
      have H: "heads s' = heads s" "tails s' = tails s" using s'(3,4) k EnqCell by simp_all
      show ?thesis by (rule run) (use v q H EnqCell None in \<open>auto simp: k\<close>)
    next
      case (Some e)
      then have "(cells (cq s))(unat t := Some e) = cells (cq s)" by (simp add: fun_upd_idem)
      with Some r c EnqCell have "k = cq s" "p = EnqCell d t" by (auto simp: qstep_def amsync_swap_def)
      then show ?thesis by (intro idle) (simp_all add: EnqCell t)
    qed
  next
    case DeqLock
    show ?thesis
    proof (cases "read_lock (cq s) = 0")
      case True
      with r b DeqLock have k: "k = (cq s)\<lparr>read_lock := 1\<rparr>" "p = DeqRead"
        by (auto simp: qstep_def amspinlock_lock_def amsync_swap_def AMSPINLOCK_UNLOCKED_def)
      have H: "heads s' = heads s" "tails s' = tails s" using s'(3,4) k DeqLock by simp_all
      show ?thesis by (rule run) (use v q H DeqLock True in \<open>auto simp: k\<close>)
    next
      case False
      with r b DeqLock show ?thesis
        by (intro idle) (auto simp: qstep_def amspinlock_lock_def amsync_swap_def AMSPINLOCK_UNLOCKED_def)
    qed
  next
    case DeqRead
    from next_index_ok [OF inv ends_inside(1) [OF inv]] obtain j where
      "next_index (cq s) (cq_head (cq s)) = Some j" "follows ?c (cq_head (cq s)) j" by blast
    with r b DeqRead show ?thesis by (intro idle) (auto simp: qstep_def)
  next
    case (DeqCheck h nh)
    have h: "h = cq_head (cq s)" "follows ?c h nh" using pc by (auto simp: DeqCheck)
    have "heads s < tails s" if "h \<noteq> cq_tail (cq s)"
    proof -
      have "heads s \<noteq> tails s" using that h(1) v(4,5) by (metis word_unat_eq_iff)
      then show ?thesis using v(3) by simp
    qed
    moreover from r b DeqCheck have "k = cq s" "p = (if h = cq_tail (cq s) then DeqUnlockEmpty else DeqSwap h nh)"
      by (auto simp: qstep_def)
    ultimately show ?thesis using h by (intro idle) (simp_all add: DeqCheck)
  next
    case (DeqSwap h nh)
    have h: "h = cq_head (cq s)" "follows ?c h nh" "heads s < tails s" using pc by (auto simp: DeqSwap)
    with r b DeqSwap have k: "k = (cq s)\<lparr>cq_head := nh\<rparr>" "p = DeqUnlock h" by (auto simp: qstep_def amsync_swap_def)
    have H: "heads s' = Suc (heads s)" "tails s' = tails s" using s'(3,4) k DeqSwap by simp_all
    have u: "unat h = heads s mod ?c" using v(4) h(1) by simp
    show ?thesis
    proof (rule run)
      show "qpc_ok (unat (cq_capacity k)) (cq_head k) (heads s' < tails s') (qthreads s ! j)"
        if "j < length (qthreads s)" "j \<noteq> i" for j
        using in_section_head [OF mutex_alone [OF v(7) i _ that] q [OF that(1)]] DeqSwap by (simp add: k)
      show "full (cells k n) + storing n p + fetching n (qthreads s ! i) + tickets (unat (cq_capacity k)) (heads s) (tails s) n =
          full (cells (cq s) n) + storing n (qthreads s ! i) + fetching n p + tickets (unat (cq_capacity k)) (heads s') (tails s') n"
        for n unfolding H using tickets_head [OF h(3)] u by (simp add: k DeqSwap)
    qed (use v H h(3) follows_next [OF h(2) u] u DeqSwap in \<open>simp_all add: k\<close>)
  next
    case DeqUnlockEmpty
    with r b un unl have k: "k = (cq s)\<lparr>read_lock := 0\<rparr>" "p = DeqRet AMRC_ERROR None" by (auto simp: qstep_def)
    have H: "heads s' = heads s" "tails s' = tails s" using s'(3,4) k DeqUnlockEmpty by simp_all
    show ?thesis by (rule run) (use v q H DeqUnlockEmpty in \<open>auto simp: k\<close>)
  next
    case (DeqUnlock h)
    with r b un unl have k: "k = (cq s)\<lparr>read_lock := 0\<rparr>" "p = DeqLoad h" by (auto simp: qstep_def)
    have H: "heads s' = heads s" "tails s' = tails s" using s'(3,4) k DeqUnlock by simp_all
    show ?thesis by (rule run) (use v q pc H DeqUnlock in \<open>auto simp: k\<close>)
  next
    case (DeqLoad h)
    have "unat h < ?c" using pc DeqLoad by simp
    with cell_in_inv [OF inv this] r DeqLoad
    have "k = cq s" "p = (case cells (cq s) (unat h) of None \<Rightarrow> DeqLoad h | Some x \<Rightarrow> DeqTake h x)" "unat h < ?c"
      by (auto simp: qstep_def)
    then show ?thesis by (intro idle) (simp_all add: DeqLoad split: option.split)
  next
    case (DeqTake h x)
    have t: "unat h < ?c" using pc DeqTake by simp
    note c = cell_in_inv [OF inv t]
    show ?thesis
    proof (cases "cells (cq s) (unat h) = Some x")
      case True
      with r c DeqTake have k: "k = (cq s)\<lparr>cells := (cells (cq s))(unat h := None)\<rparr>" "p = DeqRet AMRC_SUCCESS (Some x)"
        by (auto simp: qstep_def amsync_swap_def)
      have H: "heads s' = heads s" "tails s' = tails s" using s'(3,4) k DeqTake by simp_all
      show ?thesis by (rule run) (use v q H DeqTake True in \<open>auto simp: k\<close>)
    next
      case False
      have "(cells (cq s))(unat h := cells (cq s) (unat h)) = cells (cq s)" by (rule fun_upd_triv)
      with False r c DeqTake have "k = cq s" "p = DeqLoad h" by (auto simp: qstep_def amsync_swap_def)
      then show ?thesis by (intro idle) (simp_all add: DeqTake t)
    qed
  qed (use r in \<open>simp_all add: qstep_def\<close>)
qed

lemma queue_init_inv:
  assumes "queue_init s"
  shows "queue_inv s" "queued (cq s) = {#}"
proof -
  from assms obtain alloc h cap a h' where
    al: "amcqueue_alloc alloc h cap = Some (Some (a, cq s), h')" and
    u: "unat QUEUE_BYTES + unat CELL_BYTES * (unat cap + 1) < 2 ^ 64" and
    t: "set (qthreads s) \<subseteq> {QIdle}" "tails s = 0" "heads s = 0" by (auto simp: queue_init_def)
  from al have k: "cq s = \<lparr>cq_bytes = QUEUE_BYTES + CELL_BYTES * (cap + 1), read_lock = 0, cq_capacity = cap + 1,
      cq_head = 0, cq_tail = 0, cells = (\<lambda>_. None)\<rparr>"
    by (auto simp: amcqueue_alloc_def Let_def bind_eq_Some_conv AMSPINLOCK_UNLOCKED_def split: prod.splits option.splits)
  have c: "unat (cap + 1) = unat cap + 1"
    using plus_fits(1) [of cap 1] u by (simp add: CELL_BYTES_def)
  have m: "unat (CELL_BYTES * (cap + 1)) = unat CELL_BYTES * (unat cap + 1)"
    using u c times_fits [of CELL_BYTES "cap + 1"] by simp
  have "unat (QUEUE_BYTES + CELL_BYTES * (cap + 1)) = unat QUEUE_BYTES + unat CELL_BYTES * (unat cap + 1)"
    using plus_fits(1) [of QUEUE_BYTES "CELL_BYTES * (cap + 1)"] u m by simp
  moreover have z: "sum_list (map (storing j) (qthreads s)) = 0" "sum_list (map (fetching j) (qthreads s)) = 0" for j
    using t(1) by (auto intro: sum_list_zero)
  moreover have "mutex in_read (qthreads s) 0" by (rule mutex_idle) (use t(1) in auto)
  moreover have "qpc_ok n h b p" if "p \<in> set (qthreads s)" for n h b p using t(1) that by auto
  moreover have "unat CELL_BYTES * (unat cap + 1) + unat QUEUE_BYTES = unat QUEUE_BYTES + unat CELL_BYTES * unat (cap + 1)"
    using c by simp
  ultimately show "queue_inv s" using t(2,3) c by (simp add: queue_inv_def Let_def z k tickets_def)
  show "queued (cq s) = {#}" using k by (simp add: queued_def)
qed

lemma queue_jump:
  assumes inv: "queue_inv s" and i: "i < length (qthreads s)" and s': "s' = s\<lparr>qthreads := (qthreads s)[i := p]\<rparr>"
    and p: "\<forall>c h b. qpc_ok c h b p" "in_read p = in_read (qthreads s ! i)"
      "\<forall>n. storing n p + fetching n (qthreads s ! i) = storing n (qthreads s ! i) + fetching n p"
  shows "queue_inv s'"
  using queue_invD [OF inv] p by (intro queue_run [OF inv i, of "cq s" s' p]) (auto simp: s')

lemma queue_step_inv:
  assumes "queue_inv s" and "queue_step s s'"
  shows "queue_inv s'"
  using assms(2)
proof (cases rule: queue_step.cases)
  case (enq i d)
  then show ?thesis
    by (intro queue_jump [OF assms(1) enq(2,1)]) (auto simp: enq_call_def split: option.splits)
next
  case (deq i)
  then show ?thesis by (intro queue_jump [OF assms(1) deq(2,1)]) auto
next
  case (run i k p)
  show ?thesis by (rule qstep_inv [OF assms(1) run(2,3)]) (simp_all add: run(1))
next
  case (finish i)
  then show ?thesis by (intro queue_jump [OF assms(1) finish(2,1)]) auto
qed

section \<open>Elements\<close>

lemma queued_upd:
  assumes "unat n < unat (cq_capacity k)"
  shows "queued (k\<lparr>cells := (cells k)(unat n := x)\<rparr>) + content (cells k (unat n)) = queued k + content x"
  using sum_upd [OF assms, of content "cells k" x] by (simp add: queued_def)

lemma qstep_elements:
  assumes inv: "queue_inv s" and i: "i < length (qthreads s)" and r: "qstep (cq s) (qthreads s ! i) = Some (k, p)"
  shows "queued k + qdelivered (qthreads s ! i) p = queued (cq s) + qcommitted (qthreads s ! i) p"
proof -
  have pc: "qpc_ok (unat (cq_capacity (cq s))) (cq_head (cq s)) (heads s < tails s) (qthreads s ! i)"
    using queue_invD(6) [OF inv] i by simp
  have h: "queued ((cq s)\<lparr>cq_head := v\<rparr>) = queued (cq s)" "queued ((cq s)\<lparr>cq_tail := v\<rparr>) = queued (cq s)"
    "queued ((cq s)\<lparr>read_lock := v\<rparr>) = queued (cq s)" for v by (simp_all add: queued_def)
  show ?thesis
  proof (cases "qthreads s ! i")
    case (EnqCell d n)
    then have u: "unat n < unat (cq_capacity (cq s))" using pc by simp
    show ?thesis
    proof (cases "cells (cq s) (unat n)")
      case None
      with queued_upd [OF u, of "Some d"] r EnqCell show ?thesis
        by (auto simp: qstep_def bind_eq_Some_conv amsync_swap_def split: option.splits)
    next
      case (Some a)
      then have "(cells (cq s))(unat n := Some a) = cells (cq s)" by (simp add: fun_upd_idem)
      with Some r EnqCell have "k = cq s" "p = EnqCell d n"
        by (auto simp: qstep_def bind_eq_Some_conv amsync_swap_def split: option.splits)
      then show ?thesis by (simp add: EnqCell)
    qed
  next
    case (DeqLoad n)
    with r have "k = cq s" "p = DeqLoad n \<or> (\<exists>q. p = DeqTake n q)"
      by (auto simp: qstep_def bind_eq_Some_conv split: option.splits)
    then show ?thesis by (auto simp: DeqLoad)
  next
    case (DeqTake n q)
    then have u: "unat n < unat (cq_capacity (cq s))" using pc by simp
    show ?thesis
    proof (cases "cells (cq s) (unat n) = Some q")
      case True
      with queued_upd [OF u, of None] r DeqTake show ?thesis
        by (auto simp: qstep_def bind_eq_Some_conv amsync_swap_def split: option.splits)
    next
      case False
      have "(cells (cq s))(unat n := cells (cq s) (unat n)) = cells (cq s)" by (rule fun_upd_triv)
      with False r DeqTake have "k = cq s" "p = DeqLoad n"
        by (auto simp: qstep_def bind_eq_Some_conv amsync_swap_def split: option.splits)
      then show ?thesis by (simp add: DeqTake)
    qed
  qed (use r h in \<open>auto simp: qstep_def bind_eq_Some_conv amsync_swap_def amspinlock_lock_def Let_def split: if_splits option.splits prod.splits\<close>)
qed

lemma queue_step_balance:
  assumes "queue_inv s" and "queue_step s s'" and bal: "qgiven s = qtaken s + qinside s"
  shows "qgiven s' = qtaken s' + qinside s'"
  using assms(2)
proof (cases rule: queue_step.cases)
  case (enq i d)
  with bal show ?thesis by (simp add: qinside_def)
next
  case (deq i)
  with bal show ?thesis by (simp add: qinside_def)
next
  case (finish i)
  with bal show ?thesis by (simp add: qinside_def)
next
  case (run i k p)
  from qstep_elements [OF assms(1) run(2,3)] bal run(1) show ?thesis
    by (simp add: qinside_def add.assoc) (metis add.assoc add.commute)
qed

interpretation lcq: passing_system queue_init queue_step queue_inv qgiven qtaken qinside
proof unfold_locales
  show "qgiven s = qtaken s + qinside s" if "queue_init s" for s
    using queue_init_inv(2) [OF that] that by (simp add: qinside_def queue_init_def)
qed (fact queue_init_inv(1) queue_step_inv queue_step_balance)+

section \<open>Properties\<close>

text \<open>
  C7. For any number of producers and consumers at the same time: the elements that calls of \<^verbatim>\<open>amcqueue_deq\<close> returned
  are among those enqueued, each at most as often as it was enqueued; the cells hold exactly the elements whose
  \<^verbatim>\<open>amcqueue_enq\<close> succeeded and that were not returned; and whenever no call is running, the lock is free
  and the filled cells are those of the tickets between the head and the tail.
\<close>

theorem amcqueue_conserves_elements:
  assumes "queue_init s" and "queue_step\<^sup>*\<^sup>* s t"
  shows "qtaken t \<subseteq># qgiven t \<and>
    (set (qthreads t) \<subseteq> {QIdle} \<longrightarrow>
       read_lock (cq t) = AMSPINLOCK_UNLOCKED \<and>
       (\<forall>n < unat (cq_capacity (cq t)).
          (cells (cq t) n \<noteq> None) = (\<exists>j \<in> {heads t ..< tails t}. j mod unat (cq_capacity (cq t)) = n))) \<and>
    qgiven t = qtaken t + queued (cq t)"
proof -
  have inv: "queue_inv t" by (rule lcq.reachable_inv [OF assms])
  have "cells (cq t) n \<noteq> None \<longleftrightarrow> (\<exists>j \<in> {heads t ..< tails t}. j mod unat (cq_capacity (cq t)) = n)"
    if q: "set (qthreads t) \<subseteq> {QIdle}" and n: "n < unat (cq_capacity (cq t))" for n
  proof -
    have z: "sum_list (map (storing n) (qthreads t)) = 0" "sum_list (map (fetching n) (qthreads t)) = 0"
      using q by (auto intro: sum_list_zero)
    from queue_invD(8) [OF inv n]
    have "full (cells (cq t) n) = tickets (unat (cq_capacity (cq t))) (heads t) (tails t) n" unfolding z by simp
    then have "cells (cq t) n \<noteq> None \<longleftrightarrow> filter (\<lambda>i. i mod unat (cq_capacity (cq t)) = n) [heads t ..< tails t] \<noteq> []"
      by (cases "cells (cq t) n") (auto simp: tickets_def simp flip: length_greater_0_conv)
    also have "\<dots> \<longleftrightarrow> (\<exists>j \<in> {heads t ..< tails t}. j mod unat (cq_capacity (cq t)) = n)"
      by (auto simp: filter_empty_conv)
    finally show ?thesis .
  qed
  moreover have "read_lock (cq t) = AMSPINLOCK_UNLOCKED" if q: "set (qthreads t) \<subseteq> {QIdle}"
    unfolding AMSPINLOCK_UNLOCKED_def by (rule mutex_idleD [OF queue_invD(7) [OF inv]]) (use q in auto)
  moreover have "qinside t = queued (cq t)" by (simp add: qinside_def)
  ultimately show ?thesis
    using lcq.reachable_balance [OF assms] lcq.reachable_taken [OF assms] by auto
qed

text \<open>When a call can go on: it is done, or its cell is in the state it waits for, or it has the lock.\<close>

fun waits :: "amcqueue \<Rightarrow> queue_pc \<Rightarrow> bool" where
  "waits k (EnqCell d n) = (cells k (unat n) \<noteq> None)"
| "waits k (DeqLoad n) = (cells k (unat n) = None)"
| "waits k DeqLock = (read_lock k \<noteq> 0)"
| "waits k _ = False"

definition queue_done :: "queue_pc \<Rightarrow> bool" where
  "queue_done p \<longleftrightarrow> (\<exists>r. p = EnqRet r) \<or> (\<exists>r x. p = DeqRet r x)"

lemma qstep_safe:
  assumes inv: "queue_inv s" and p: "qpc_ok (unat (cq_capacity (cq s))) (cq_head (cq s)) b p" "p \<noteq> QIdle"
  shows "queue_done p \<or> (\<exists>k q. qstep (cq s) p = Some (k, q) \<and> (waits (cq s) p \<or> q \<noteq> p))"
proof -
  have n: "cq_capacity (cq s) \<noteq> 0" using queue_invD(1) [OF inv] by auto
  show ?thesis using p n queue_bytes [OF inv] cell_in_inv [OF inv]
    by (cases p) (auto simp: queue_done_def qstep_def next_index_def amsync_swap_def amspinlock_lock_def AMSPINLOCK_UNLOCKED_def
        split: option.splits)
qed

lemma mod_eq_diff_zero: "i mod c = j mod c \<Longrightarrow> (i - j) mod c = (0 :: nat)"
  by (cases "j \<le> i") (simp_all add: mod_eq_dvd_iff_nat)

lemma tickets_mod:
  assumes "t \<le> h + c" and "0 < c"
  shows "tickets c h t n \<le> 1"
proof -
  let ?A = "{i \<in> {h ..< t}. i mod c = n}"
  have a: "tickets c h t n = card ?A"
    by (simp add: tickets_def distinct_length_filter Int_def conj_commute)
  have "i = j" if "i \<in> ?A" "j \<in> ?A" for i j
  proof -
    have "(j - i) mod c = 0" "(i - j) mod c = 0" using that by (auto intro: mod_eq_diff_zero)
    moreover have "j - i < c" "i - j < c" using that assms by auto
    ultimately have "j - i = 0" "i - j = 0" by simp_all
    then show ?thesis by simp
  qed
  then have "card ?A \<le> 1" by (auto simp: card_le_Suc0_iff_eq)
  with a show ?thesis by simp
qed

text \<open>A thread that waits for a cell or for the lock waits for another that does not wait.\<close>

lemma waits_for_another:
  assumes inv: "queue_inv t" and room: "tails t \<le> heads t + unat (cq_capacity (cq t))" and p: "p \<in> set (qthreads t)" "waits (cq t) p"
  shows "\<exists>q \<in> set (qthreads t). q \<noteq> QIdle \<and> \<not> waits (cq t) q"
proof -
  note v = queue_invD [OF inv]
  consider (enq) d n where "p = EnqCell d n" "cells (cq t) (unat n) \<noteq> None" | (deq) n where "p = DeqLoad n" "cells (cq t) (unat n) = None"
    | (lock) "p = DeqLock" "read_lock (cq t) \<noteq> 0" using p(2) by (cases p) auto
  then show ?thesis
  proof cases
    case enq
    have n: "unat n < unat (cq_capacity (cq t))" using v(6) [OF p(1)] enq(1) by simp
    have "1 \<le> sum_list (map (storing (unat n)) (qthreads t))"
      using sum_list_member_le [OF p(1), of "storing (unat n)"] enq(1) by simp
    moreover have "full (cells (cq t) (unat n)) = 1" using enq(2) by auto
    ultimately have "0 < sum_list (map (fetching (unat n)) (qthreads t))"
      using v(8) [OF n] tickets_mod [OF room v(1), of "unat n"] by linarith
    then obtain q where q: "q \<in> set (qthreads t)" "0 < fetching (unat n) q" by (rule sum_list_pos_member)
    have "q \<noteq> QIdle" "\<not> waits (cq t) q" using q(2) enq(2) by (cases q; simp split: if_splits)+
    then show ?thesis using q(1) by blast
  next
    case deq
    have n: "unat n < unat (cq_capacity (cq t))" using v(6) [OF p(1)] deq(1) by simp
    have "1 \<le> sum_list (map (fetching (unat n)) (qthreads t))"
      using sum_list_member_le [OF p(1), of "fetching (unat n)"] deq(1) by simp
    moreover have "full (cells (cq t) (unat n)) = 0" using deq(2) by simp
    ultimately have "0 < sum_list (map (storing (unat n)) (qthreads t))" using v(8) [OF n] by linarith
    then obtain q where q: "q \<in> set (qthreads t)" "0 < storing (unat n) q" by (rule sum_list_pos_member)
    have "q \<noteq> QIdle" "\<not> waits (cq t) q" using q(2) deq(2) by (cases q; simp split: if_splits)+
    then show ?thesis using q(1) by blast
  next
    case lock
    have "0 < sum_list (map in_read (qthreads t))"
      using v(7) lock(2) by (cases "sum_list (map in_read (qthreads t))") (auto simp: mutex_def)
    then obtain q where q: "q \<in> set (qthreads t)" "0 < in_read q" by (rule sum_list_pos_member)
    have "q \<noteq> QIdle" "\<not> waits (cq t) q" using q(2) by (cases q; simp)+
    then show ?thesis using q(1) by blast
  qed
qed

text \<open>
  C37. No access leaves the block and no remainder is by 0: every running call has a next step. While
  the queue has been given at most as many elements as it has cells (that is, tail tickets less head
  tickets), a call is at its end or gets to another point in its next step, unless no call is running.
\<close>

theorem amcqueue_never_stuck:
  assumes "queue_init s" and "queue_step\<^sup>*\<^sup>* s t"
  shows "(\<forall>p \<in> set (qthreads t). p = QIdle \<or> queue_done p \<or> qstep (cq t) p \<noteq> None) \<and>
    (tails t \<le> heads t + unat (cq_capacity (cq t)) \<longrightarrow> (\<exists>p \<in> set (qthreads t). p \<noteq> QIdle) \<longrightarrow>
       (\<exists>p \<in> set (qthreads t). queue_done p \<or> (\<exists>k q. qstep (cq t) p = Some (k, q) \<and> q \<noteq> p)))"
proof (intro conjI ballI impI)
  have inv: "queue_inv t" by (rule lcq.reachable_inv [OF assms])
  note safe = qstep_safe [OF inv queue_invD(6) [OF inv]]
  show "p = QIdle \<or> queue_done p \<or> qstep (cq t) p \<noteq> None" if "p \<in> set (qthreads t)" for p
    using safe [OF that] by auto
  assume room: "tails t \<le> heads t + unat (cq_capacity (cq t))" and busy: "\<exists>p \<in> set (qthreads t). p \<noteq> QIdle"
  then obtain p where p: "p \<in> set (qthreads t)" "p \<noteq> QIdle" "\<not> waits (cq t) p" using waits_for_another [OF inv room] by blast
  then show "\<exists>p \<in> set (qthreads t). queue_done p \<or> (\<exists>k q. qstep (cq t) p = Some (k, q) \<and> q \<noteq> p)"
    using safe [OF p(1,2)] p(3) by (intro bexI [OF _ p(1)]) blast
qed

section \<open>A single thread\<close>

text \<open>A run of one thread on its own, with a bound on the number of steps, and the two calls so run.\<close>

fun qrun_alone :: "nat \<Rightarrow> amcqueue \<Rightarrow> queue_pc \<Rightarrow> (amcqueue \<times> queue_pc) option" where
  "qrun_alone 0 k p = Some (k, p)"
| "qrun_alone (Suc n) k p =
     (case p of
        EnqRet _ \<Rightarrow> Some (k, p)
      | DeqRet _ _ \<Rightarrow> Some (k, p)
      | _ \<Rightarrow> do { (k, p) \<leftarrow> qstep k p; qrun_alone n k p })"

lemma qrun_alone_numeral:
  "qrun_alone (numeral n) k p =
     (case p of
        EnqRet _ \<Rightarrow> Some (k, p)
      | DeqRet _ _ \<Rightarrow> Some (k, p)
      | _ \<Rightarrow> do { (k, p) \<leftarrow> qstep k p; qrun_alone (pred_numeral n) k p })"
  by (simp add: numeral_eq_Suc)

definition amcqueue_enq :: "addr \<Rightarrow> amcqueue \<Rightarrow> amcqueue option" where
  "amcqueue_enq d k =
     (case qrun_alone 4 k (enq_call (Some d)) of Some (k, EnqRet AMRC_SUCCESS) \<Rightarrow> Some k | _ \<Rightarrow> None)"

definition amcqueue_deq :: "amcqueue \<Rightarrow> (amcqueue \<times> addr option) option" where
  "amcqueue_deq k =
     (case qrun_alone 8 k DeqLock of
        Some (k, DeqRet AMRC_SUCCESS x) \<Rightarrow> Some (k, x)
      | Some (k, DeqRet AMRC_ERROR _) \<Rightarrow> Some (k, None)
      | _ \<Rightarrow> None)"

text \<open>Filling a queue and emptying it, for any implementation of a queue.\<close>

fun fill :: "('a \<Rightarrow> 'q \<Rightarrow> 'q option) \<Rightarrow> 'a list \<Rightarrow> 'q \<Rightarrow> 'q option" where
  "fill enq [] q = Some q"
| "fill enq (x # xs) q = do { q \<leftarrow> enq x q; fill enq xs q }"

fun drain :: "('q \<Rightarrow> ('q \<times> 'a option) option) \<Rightarrow> nat \<Rightarrow> 'q \<Rightarrow> ('q \<times> 'a list) option" where
  "drain deq 0 q = Some (q, [])"
| "drain deq (Suc n) q =
     do { (q, x) \<leftarrow> deq q;
          case x of
            None \<Rightarrow> Some (q, [])
          | Some x \<Rightarrow> do { (q, xs) \<leftarrow> drain deq n q; Some (q, x # xs) } }"

locale fifo =
  fixes rep :: "nat \<Rightarrow> 'q \<Rightarrow> 'a list \<Rightarrow> bool"
    and enq :: "'a \<Rightarrow> 'q \<Rightarrow> 'q option"
    and deq :: "'q \<Rightarrow> ('q \<times> 'a option) option"
  assumes enq_law: "rep c q xs \<Longrightarrow> Suc (length xs) \<le> c \<Longrightarrow> \<exists>q'. enq x q = Some q' \<and> rep c q' (xs @ [x])"
    and deq_law: "rep c q (x # xs) \<Longrightarrow> \<exists>q'. deq q = Some (q', Some x) \<and> rep c q' xs"
    and deq_empty: "rep c q [] \<Longrightarrow> \<exists>q'. deq q = Some (q', None) \<and> rep c q' []"
begin

lemma fill_rep: "rep c q xs \<Longrightarrow> length xs + length ys \<le> c \<Longrightarrow> \<exists>q'. fill enq ys q = Some q' \<and> rep c q' (xs @ ys)"
proof (induction ys arbitrary: q xs)
  case (Cons y ys)
  then obtain q' where "enq y q = Some q'" "rep c q' (xs @ [y])" using enq_law [of c q xs y] by auto
  with Cons.IH [of q' "xs @ [y]"] Cons.prems(2) show ?case by auto
qed simp

lemma drain_rep: "rep c q xs \<Longrightarrow> length xs < n \<Longrightarrow> \<exists>q'. drain deq n q = Some (q', xs) \<and> rep c q' []"
proof (induction n arbitrary: q xs)
  case (Suc n)
  show ?case
  proof (cases xs)
    case Nil
    with Suc.prems deq_empty [of c q] show ?thesis by fastforce
  next
    case (Cons x ys)
    with Suc.prems obtain q' where q': "deq q = Some (q', Some x)" "rep c q' ys" using deq_law [of c q x ys] by auto
    with Suc.IH [of q' ys] Suc.prems Cons show ?thesis by fastforce
  qed
qed simp

lemma fill_drain:
  assumes "rep c q []" and "length ys \<le> c"
  shows "\<exists>q' q''. fill enq ys q = Some q' \<and> drain deq (Suc (length ys)) q' = Some (q'', ys) \<and> rep c q'' []"
proof -
  from fill_rep [OF assms(1), of ys] assms(2) obtain q' where "fill enq ys q = Some q'" "rep c q' ys" by auto
  with drain_rep [of c q' ys "Suc (length ys)"] show ?thesis by auto
qed

end

text \<open>The elements of a queue that no call is running on, the oldest first; \<open>c\<close> is the capacity asked for.\<close>

definition queue_list :: "nat \<Rightarrow> amcqueue \<Rightarrow> addr list \<Rightarrow> bool" where
  "queue_list c k xs \<longleftrightarrow>
     unat (cq_capacity k) = Suc c \<and> unat QUEUE_BYTES + unat CELL_BYTES * Suc c \<le> unat (cq_bytes k) \<and>
     read_lock k = 0 \<and> unat (cq_head k) < Suc c \<and> length xs \<le> c \<and>
     unat (cq_tail k) = (unat (cq_head k) + length xs) mod Suc c \<and>
     (\<forall>j < Suc c. cells k ((unat (cq_head k) + j) mod Suc c) = (if j < length xs then Some (xs ! j) else None))"

lemma next_index_alone:
  assumes "unat (cq_capacity k) = Suc c" and "unat i < Suc c"
  shows "\<exists>j. next_index k i = Some j \<and> unat j = Suc (unat i) mod Suc c"
proof -
  have "i < cq_capacity k" using assms by (simp add: word_less_nat_alt)
  then have "unat (i + 1) = Suc (unat i)" by (rule unat_plus_one_less)
  moreover have "cq_capacity k \<noteq> 0" using assms by auto
  ultimately show ?thesis using assms(1) by (simp add: next_index_def unat_mod)
qed

lemma next_index_locked [simp]: "next_index (k\<lparr>read_lock := l\<rparr>) i = next_index k i"
  by (simp add: next_index_def)

lemma queue_list_facts:
  assumes "queue_list c k xs"
  shows "32 \<le> unat (cq_bytes k)" and "unat n < Suc c \<Longrightarrow> cell_in k n" and "unat (cq_tail k) < Suc c"
    and "cq_head k = cq_tail k \<longleftrightarrow> xs = []"
proof -
  note k = assms [unfolded queue_list_def]
  show "32 \<le> unat (cq_bytes k)" using k by (simp add: QUEUE_BYTES_def)
  show "unat n < Suc c \<Longrightarrow> cell_in k n" using k by (simp add: cell_in_def CELL_BYTES_def)
  show "unat (cq_tail k) < Suc c" using k by simp
  have "unat (cq_head k) = (unat (cq_head k) + length xs) mod Suc c \<longleftrightarrow> xs = []"
  proof (cases "unat (cq_head k) + length xs < Suc c")
    case False
    have "(unat (cq_head k) + length xs) mod Suc c = unat (cq_head k) + length xs - Suc c"
      using False k le_mod_geq [of "Suc c" "unat (cq_head k) + length xs"]
        mod_less [of "unat (cq_head k) + length xs - Suc c" "Suc c"] by linarith
    then have "(unat (cq_head k) + length xs) mod Suc c \<noteq> unat (cq_head k)" "xs \<noteq> []" using k False by auto
    then show ?thesis by simp
  qed auto
  with k show "cq_head k = cq_tail k \<longleftrightarrow> xs = []" by (simp add: word_unat_eq_iff)
qed

lemma mod_shift_inj: "j < m \<Longrightarrow> l < m \<Longrightarrow> (h + j) mod m = (h + l) mod (m :: nat) \<longleftrightarrow> j = l"
proof
  assume a: "j < m" "l < m" "(h + j) mod m = (h + l) mod m"
  from mod_eq_diff_zero [OF a(3)] mod_eq_diff_zero [OF a(3) [symmetric]] a(1,2) show "j = l" by simp
qed simp

lemma enq_alone:
  assumes k: "queue_list c k xs" and r: "Suc (length xs) \<le> c"
  shows "\<exists>k'. amcqueue_enq d k = Some k' \<and> queue_list c k' (xs @ [d])"
proof -
  note q = k [unfolded queue_list_def] and f = queue_list_facts [OF k]
  have c: "unat (cq_capacity k) = Suc c" using q by simp
  from next_index_alone [OF c f(3)] obtain t where
    t: "next_index k (cq_tail k) = Some t" "unat t = Suc (unat (cq_tail k)) mod Suc c" by blast
  let ?n = "unat (cq_tail k)" and ?h = "unat (cq_head k)"
  have n: "?n = (?h + length xs) mod Suc c" using q by simp
  have empty: "cells k ?n = None" using q r by (simp add: n)
  have i: "cell_in k (cq_tail k)" by (rule f(2) [OF f(3)])
  let ?k = "k\<lparr>cq_tail := t, cells := (cells k)(?n := Some d)\<rparr>"
  have "amcqueue_enq d k = Some ?k"
    using f(1) t(1) empty i
    by (simp add: amcqueue_enq_def enq_call_def qrun_alone_numeral qstep_def amsync_swap_def cell_in_def)
  moreover have "queue_list c ?k (xs @ [d])"
    unfolding queue_list_def
  proof (intro conjI allI impI)
    show "cells ?k ((unat (cq_head ?k) + j) mod Suc c) = (if j < length (xs @ [d]) then Some ((xs @ [d]) ! j) else None)"
      if "j < Suc c" for j
    proof -
      have "(?h + j) mod Suc c = ?n \<longleftrightarrow> j = length xs" unfolding n by (rule mod_shift_inj) (use that r in auto)
      then show ?thesis using q that by (auto simp: nth_append)
    qed
    show "unat (cq_tail ?k) = (unat (cq_head ?k) + length (xs @ [d])) mod Suc c"
      using t(2) by (simp add: n mod_Suc_eq)
  qed (use q r in simp_all)
  ultimately show ?thesis by blast
qed

lemma deq_alone:
  assumes k: "queue_list c k (x # xs)"
  shows "\<exists>k'. amcqueue_deq k = Some (k', Some x) \<and> queue_list c k' xs"
proof -
  note q = k [unfolded queue_list_def] and f = queue_list_facts [OF k]
  have c: "unat (cq_capacity k) = Suc c" and h: "unat (cq_head k) < Suc c" using q by simp_all
  from next_index_alone [OF c h] obtain t where
    t: "next_index k (cq_head k) = Some t" "unat t = Suc (unat (cq_head k)) mod Suc c" by blast
  let ?h = "unat (cq_head k)"
  have full: "cells k ?h = Some x" using q [THEN conjunct2, THEN conjunct2, THEN conjunct2, THEN conjunct2,
      THEN conjunct2, THEN conjunct2, rule_format, of 0] h by simp
  have i: "cell_in k (cq_head k)" by (rule f(2) [OF h])
  have ne: "cq_head k \<noteq> cq_tail k" using f(4) by simp
  let ?k = "k\<lparr>cq_head := t, cells := (cells k)(?h := None)\<rparr>"
  have lock: "read_lock k = 0" using q by simp
  then have l: "k\<lparr>cq_head := t, read_lock := 0, cells := (cells k)(?h := None)\<rparr> = ?k" by simp
  have "amcqueue_deq k = Some (?k, Some x)"
    using f(1) t(1) full i ne lock
    by (simp add: amcqueue_deq_def qrun_alone_numeral qstep_def amsync_swap_def cell_in_def amspinlock_lock_def
        amspinlock_unlock_def AMSPINLOCK_UNLOCKED_def l)
  moreover have "queue_list c ?k xs"
    unfolding queue_list_def
  proof (intro conjI allI impI)
    show "cells ?k ((unat (cq_head ?k) + j) mod Suc c) = (if j < length xs then Some (xs ! j) else None)"
      if "j < Suc c" for j
    proof -
      have u: "(unat t + j) mod Suc c = (?h + Suc j) mod Suc c" by (simp add: t(2) mod_add_left_eq)
      show ?thesis
      proof (cases "j = c")
        case True
        then have "(?h + Suc j) mod Suc c = ?h" using mod_add_self2 [of ?h "Suc c"] h by (simp only: mod_less)
        with True u q show ?thesis by simp
      next
        case False
        then have "Suc j < Suc c" using that by simp
        moreover from this have "(?h + Suc j) mod Suc c \<noteq> ?h"
          using mod_shift_inj [of "Suc j" "Suc c" 0 ?h] h by simp
        ultimately show ?thesis
          using u q [THEN conjunct2, THEN conjunct2, THEN conjunct2, THEN conjunct2, THEN conjunct2, THEN conjunct2,
              rule_format, of "Suc j"] by simp
      qed
    qed
    show "unat (cq_tail ?k) = (unat (cq_head ?k) + length xs) mod Suc c"
      using t(2) q by (simp add: mod_add_left_eq)
  qed (use q t(2) in simp_all)
  ultimately show ?thesis by blast
qed

lemma deq_alone_empty:
  assumes k: "queue_list c k []"
  shows "amcqueue_deq k = Some (k, None)"
proof -
  note q = k [unfolded queue_list_def] and f = queue_list_facts [OF k]
  have c: "unat (cq_capacity k) = Suc c" and h: "unat (cq_head k) < Suc c" using q by simp_all
  from next_index_alone [OF c h] obtain t where "next_index k (cq_head k) = Some t" by blast
  moreover have lock: "read_lock k = 0" using q by simp
  moreover from lock have "k\<lparr>read_lock := 0\<rparr> = k" by simp
  ultimately show ?thesis
    using f(1,4) by (simp add: amcqueue_deq_def qrun_alone_numeral qstep_def amsync_swap_def amspinlock_lock_def
        amspinlock_unlock_def AMSPINLOCK_UNLOCKED_def)
qed

interpretation cqf: fifo queue_list amcqueue_enq amcqueue_deq
  by unfold_locales (simp_all add: enq_alone deq_alone deq_alone_empty)

text \<open>
  C38. For a single thread the queue is first in, first out, for as many elements as the capacity asked
  for: what is enqueued into an empty queue, wherever its head stands in the circle, is dequeued in the
  same order, and a further call of \<open>amcqueue_deq\<close> finds the queue empty.
\<close>

theorem amcqueue_fifo:
  assumes "queue_list c k []" and "length xs \<le> c"
  shows "\<exists>k' k''. fill amcqueue_enq xs k = Some k' \<and>
    drain amcqueue_deq (Suc (length xs)) k' = Some (k'', xs) \<and>
    amcqueue_deq k'' = Some (k'', None) \<and> queue_list c k'' []"
  using cqf.fill_drain [OF assms] deq_alone_empty by blast

text \<open>A queue for two elements with one thread, at a given point of the circle.\<close>

definition demo_queue :: "u64 \<Rightarrow> u64 \<Rightarrow> (nat \<Rightarrow> addr option) \<Rightarrow> amcqueue" where
  "demo_queue h t f = \<lparr>cq_bytes = 56, read_lock = 0, cq_capacity = 3, cq_head = h, cq_tail = t, cells = f\<rparr>"

theorem amcqueue_fifo_witness:
  "\<exists>k' k''. fill amcqueue_enq [7, 8] (demo_queue 2 2 (\<lambda>_. None)) = Some k' \<and>
     drain amcqueue_deq 3 k' = Some (k'', [7, 8]) \<and> amcqueue_deq k'' = Some (k'', None)"
proof -
  have "queue_list 2 (demo_queue 2 2 (\<lambda>_. None)) []"
    by (simp add: queue_list_def demo_queue_def QUEUE_BYTES_def CELL_BYTES_def)
  from amcqueue_fifo [OF this, of "[7, 8]"] show ?thesis by (simp add: numeral_3_eq_3) blast
qed

definition demo_qsys :: "u64 \<Rightarrow> (nat \<Rightarrow> addr option) \<Rightarrow> queue_pc \<Rightarrow> nat \<Rightarrow> addr multiset \<Rightarrow> queue_sys" where
  "demo_qsys t f p n g = \<lparr>cq = demo_queue 0 t f, qthreads = [p], tails = n, heads = 0, qgiven = g, qtaken = {#}\<rparr>"

lemma demo_queue_init: "queue_init (demo_qsys 0 (\<lambda>_. None) QIdle 0 {#})"
proof -
  have "amcqueue_alloc first_fit \<lparr>live = Map.empty, calls = 0, refusals = 0\<rparr> 2 =
      Some (Some (1, demo_queue 0 0 (\<lambda>_. None)), \<lparr>live = [1 \<mapsto> 56], calls = 1, refusals = 0\<rparr>)"
    by (simp add: amcqueue_alloc_def malloc_def first_fit_def Let_def QUEUE_BYTES_def CELL_BYTES_def demo_queue_def
        AMSPINLOCK_UNLOCKED_def upt_conv_Cons)
  moreover have "unat QUEUE_BYTES + unat CELL_BYTES * (unat (2 :: u64) + 1) < 2 ^ 64"
    by (simp add: QUEUE_BYTES_def CELL_BYTES_def)
  ultimately show ?thesis unfolding queue_init_def demo_qsys_def queue_sys.simps
    by (intro conjI exI) (assumption | simp)+
qed

lemma demo_enq: "queue_step\<^sup>*\<^sup>* (demo_qsys 0 (\<lambda>_. None) QIdle 0 {#}) (demo_qsys 1 (\<lambda>_. None) (EnqCell 9 0) 1 {#})"
proof -
  let ?s = "\<lambda>p. demo_qsys 0 (\<lambda>_. None) p 0 {#}"
  have "queue_step (?s QIdle) (?s (EnqRead 9))"
    using queue_step.enq [of 0 "?s QIdle" "Some 9"] by (simp add: demo_qsys_def enq_call_def)
  moreover have "queue_step (?s (EnqRead 9)) (?s (EnqSwap 9 0 1))"
    using queue_step.run [of 0 "?s (EnqRead 9)" "demo_queue 0 0 (\<lambda>_. None)" "EnqSwap 9 0 1"]
    by (simp add: demo_qsys_def demo_queue_def qstep_def next_index_def)
  moreover have "queue_step (?s (EnqSwap 9 0 1)) (demo_qsys 1 (\<lambda>_. None) (EnqCell 9 0) 1 {#})"
    using queue_step.run [of 0 "?s (EnqSwap 9 0 1)" "demo_queue 0 1 (\<lambda>_. None)" "EnqCell 9 0"]
    by (simp add: demo_qsys_def demo_queue_def amsync_swap_def qstep_def)
  ultimately show ?thesis by (meson converse_rtranclp_into_rtranclp rtranclp.rtrancl_refl)
qed

lemma demo_enq_done:
  "queue_step\<^sup>*\<^sup>* (demo_qsys 0 (\<lambda>_. None) QIdle 0 {#}) (demo_qsys 1 ((\<lambda>_. None)(0 := Some 9)) QIdle 1 {#9#})"
proof -
  let ?s = "\<lambda>p. demo_qsys 1 ((\<lambda>_. None)(0 := Some 9)) p 1 {#9#}"
  have "queue_step (demo_qsys 1 (\<lambda>_. None) (EnqCell 9 0) 1 {#}) (?s (EnqRet AMRC_SUCCESS))"
    using queue_step.run [of 0 "demo_qsys 1 (\<lambda>_. None) (EnqCell 9 0) 1 {#}" "demo_queue 0 1 ((\<lambda>_. None)(0 := Some 9))"
        "EnqRet AMRC_SUCCESS"]
    by (simp add: demo_qsys_def demo_queue_def amsync_swap_def qstep_def cell_in_def QUEUE_BYTES_def CELL_BYTES_def)
  moreover have "queue_step (?s (EnqRet AMRC_SUCCESS)) (?s QIdle)"
    using queue_step.finish [of 0 "?s (EnqRet AMRC_SUCCESS)"] by (simp add: demo_qsys_def)
  ultimately show ?thesis using demo_enq by (meson rtranclp.rtrancl_into_rtrancl)
qed

theorem amcqueue_conserves_elements_witness:
  "{#9#} = {#} + queued (demo_queue 0 1 ((\<lambda>_. None)(0 := Some 9)))"
  using amcqueue_conserves_elements [OF demo_queue_init demo_enq_done] by (simp add: demo_qsys_def)

theorem amcqueue_never_stuck_witness:
  "queue_done (EnqCell 9 0) \<or> (\<exists>k q. qstep (demo_queue 0 1 (\<lambda>_. None)) (EnqCell 9 0) = Some (k, q) \<and> q \<noteq> EnqCell 9 0)"
  using amcqueue_never_stuck [OF demo_queue_init demo_enq] by (simp add: demo_qsys_def demo_queue_def)

text \<open>
  With one element more than it has room for, the tail meets the head, and a consumer finds the full
  queue empty.
\<close>

lemma overfull_looks_empty:
  "amcqueue_deq (demo_queue 0 0 (\<lambda>_. Some 9)) = Some (demo_queue 0 0 (\<lambda>_. Some 9), None)"
  by (simp add: amcqueue_deq_def demo_queue_def qrun_alone_numeral qstep_def amspinlock_lock_def amspinlock_unlock_def
      amsync_swap_def AMSPINLOCK_UNLOCKED_def next_index_def)

text \<open>The largest capacity wraps: the queue has no cell, and the first call divides by 0.\<close>

lemma amcqueue_alloc_wraps:
  "\<exists>k h. amcqueue_alloc first_fit \<lparr>live = Map.empty, calls = 0, refusals = 0\<rparr> 0xFFFFFFFFFFFFFFFF = Some (Some (1, k), h) \<and>
     amcqueue_enq 7 k = None"
  by (simp add: amcqueue_alloc_def malloc_def first_fit_def Let_def QUEUE_BYTES_def CELL_BYTES_def upt_conv_Cons
      amcqueue_enq_def enq_call_def qrun_alone_numeral qstep_def next_index_def)

end
