(* ===== verification/AmPool.thy ===== *)
theory AmPool
  imports AmAtomic AmHash AmList AmStats
begin

text \<open>
  The memory pools of \<^verbatim>\<open>src/libam_pool.c\<close>: buckets of chunks of one size with lists of used and free
  chunks, guard bytes, and the tree of pools. The build is the debug build, with assertions. Every
  function; the invariant and the proofs are in AmPoolInv and AmPoolTree.
\<close>

section \<open>State\<close>

text \<open>
  The links. A pool has the buckets 0 to 31, the array \<^verbatim>\<open>steps\<close>, and 32, \<^verbatim>\<open>oversized\<close>.
\<close>

datatype plink =
    RootPools
  | ChildrenOf addr
  | SiblingOf addr
  | UsedOf addr nat
  | FreeOf addr nat
  | ChunkOf addr

record ampool_chunk =
  chunk_name :: "addr option"
  chunk_size :: u32
  chunk_magic :: u32

record ampool_bucket =
  bucket_mutex :: bool
  element_size :: u64
  used_size :: u64
  used_size_range :: amstat_range
  total_size :: u64
  total_size_range :: amstat_range
  used_element_count :: u64
  used_element_count_range :: amstat_range
  total_element_count :: u64
  total_element_count_range :: amstat_range

record ampool_internal =
  pl_buckets :: "nat \<Rightarrow> ampool_bucket"
  pl_size :: u64
  pl_element_count :: u64
  pl_parent :: "addr option"
  pl_flags :: u32
  pl_name :: "addr option"

text \<open>
  The memory: the globals, the links, the pools and chunks with the data of a chunk by offset, and the
  blocks of the allocator.
\<close>

record ampool_state =
  globals_magic :: u32
  hierarchy_mutex :: bool
  plinks :: "plink links"
  pools :: "addr \<Rightarrow> ampool_internal"
  chunks :: "addr \<Rightarrow> ampool_chunk"
  cdata :: "addr \<Rightarrow> nat \<Rightarrow> u8"
  pmem :: heap

definition AMPOOL_ALIGN :: u32 where "AMPOOL_ALIGN = 16"
definition AMPOOL_ALIGN_MASK :: u32 where "AMPOOL_ALIGN_MASK = AMPOOL_ALIGN - 1"
definition AMPOOL_STEP_COUNT :: nat where "AMPOOL_STEP_COUNT = 32"
definition AMPOOL_MAX_STEPPED :: u32 where "AMPOOL_MAX_STEPPED = AMPOOL_ALIGN * of_nat AMPOOL_STEP_COUNT"
definition AMPOOL_MAX_VALIDATE_HALF :: u32 where "AMPOOL_MAX_VALIDATE_HALF = 32"
definition AMPOOL_MAX_MEMSET :: u32 where "AMPOOL_MAX_MEMSET = 1024"
definition AMPOOL_VALIDATE_ON_FREE :: u32 where "AMPOOL_VALIDATE_ON_FREE = 1"

text \<open>\<^verbatim>\<open>sizeof\<close> of a chunk's header and of a pool on a 64-bit platform.\<close>

definition CHUNK_BYTES :: nat where "CHUNK_BYTES = 32"
definition POOL_BYTES :: u64 where "POOL_BYTES = 10144"

section \<open>Memory accesses\<close>

text \<open>An access to a block that is not live, or outside of it, is \<open>None\<close>.\<close>

definition pool_get :: "ampool_state \<Rightarrow> addr \<Rightarrow> ampool_internal option" where
  "pool_get s p = (if live (pmem s) p = None then None else Some (pools s p))"

definition pool_put :: "ampool_state \<Rightarrow> addr \<Rightarrow> ampool_internal \<Rightarrow> ampool_state" where
  "pool_put s p v = s\<lparr>pools := (pools s)(p := v)\<rparr>"

definition bucket_get :: "ampool_state \<Rightarrow> addr \<times> nat \<Rightarrow> ampool_bucket option" where
  "bucket_get s b = do { pl \<leftarrow> pool_get s (fst b); Some (pl_buckets pl (snd b)) }"

definition bucket_put :: "ampool_state \<Rightarrow> addr \<times> nat \<Rightarrow> ampool_bucket \<Rightarrow> ampool_state" where
  "bucket_put s b v =
     pool_put s (fst b) ((pools s (fst b))\<lparr>pl_buckets := (pl_buckets (pools s (fst b)))(snd b := v)\<rparr>)"

definition chunk_get :: "ampool_state \<Rightarrow> addr \<Rightarrow> ampool_chunk option" where
  "chunk_get s c = (if live (pmem s) c = None then None else Some (chunks s c))"

definition chunk_put :: "ampool_state \<Rightarrow> addr \<Rightarrow> ampool_chunk \<Rightarrow> ampool_state" where
  "chunk_put s c v = s\<lparr>chunks := (chunks s)(c := v)\<rparr>"

definition byte_in :: "ampool_state \<Rightarrow> addr \<Rightarrow> nat \<Rightarrow> bool" where
  "byte_in s c k = (case live (pmem s) c of None \<Rightarrow> False | Some sz \<Rightarrow> CHUNK_BYTES + k < unat sz)"

definition byte_get :: "ampool_state \<Rightarrow> addr \<Rightarrow> nat \<Rightarrow> u8 option" where
  "byte_get s c k = (if byte_in s c k then Some (cdata s c k) else None)"

definition byte_put :: "ampool_state \<Rightarrow> addr \<Rightarrow> nat \<Rightarrow> u8 \<Rightarrow> ampool_state option" where
  "byte_put s c k v =
     (if byte_in s c k then Some (s\<lparr>cdata := (cdata s)(c := (cdata s c)(k := v))\<rparr>) else None)"

text \<open>\<^verbatim>\<open>memset(ptr, v, n)\<close> and \<^verbatim>\<open>memcpy\<close> between the data of two chunks, from an offset on.\<close>

fun bytes_fill :: "ampool_state \<Rightarrow> addr \<Rightarrow> nat \<Rightarrow> nat \<Rightarrow> u8 \<Rightarrow> ampool_state option" where
  "bytes_fill s c k 0 v = Some s"
| "bytes_fill s c k (Suc n) v = do { s \<leftarrow> byte_put s c k v; bytes_fill s c (Suc k) n v }"

fun bytes_copy :: "ampool_state \<Rightarrow> addr \<Rightarrow> addr \<Rightarrow> nat \<Rightarrow> nat \<Rightarrow> ampool_state option" where
  "bytes_copy s to from k 0 = Some s"
| "bytes_copy s to from k (Suc n) =
     do { v \<leftarrow> byte_get s from k; s \<leftarrow> byte_put s to k v; bytes_copy s to from (Suc k) n }"

text \<open>A lock that is held is waited for without end.\<close>

definition bucket_lock :: "ampool_state \<Rightarrow> addr \<times> nat \<Rightarrow> ampool_state option" where
  "bucket_lock s b =
     do { bk \<leftarrow> bucket_get s b; c_assert (\<not> bucket_mutex bk); Some (bucket_put s b (bk\<lparr>bucket_mutex := True\<rparr>)) }"

definition bucket_unlock :: "ampool_state \<Rightarrow> addr \<times> nat \<Rightarrow> ampool_state option" where
  "bucket_unlock s b = do { bk \<leftarrow> bucket_get s b; Some (bucket_put s b (bk\<lparr>bucket_mutex := False\<rparr>)) }"

definition hierarchy_lock :: "ampool_state \<Rightarrow> ampool_state option" where
  "hierarchy_lock s = (if hierarchy_mutex s then None else Some (s\<lparr>hierarchy_mutex := True\<rparr>))"

definition hierarchy_unlock :: "ampool_state \<Rightarrow> ampool_state" where
  "hierarchy_unlock s = s\<lparr>hierarchy_mutex := False\<rparr>"

text \<open>\<^verbatim>\<open>container_of\<close> a link.\<close>

fun chunk_of :: "plink \<Rightarrow> addr option" where
  "chunk_of (ChunkOf c) = Some c"
| "chunk_of _ = None"

fun pool_of :: "plink \<Rightarrow> addr option" where
  "pool_of (SiblingOf p) = Some p"
| "pool_of _ = None"

definition plist_add :: "ampool_state \<Rightarrow> plink \<Rightarrow> plink \<Rightarrow> ampool_state option" where
  "plist_add s l e = do { h \<leftarrow> amlist_add (plinks s) l e; Some (s\<lparr>plinks := h\<rparr>) }"

definition plist_del :: "ampool_state \<Rightarrow> plink \<Rightarrow> ampool_state option" where
  "plist_del s e = do { h \<leftarrow> amlist_del (plinks s) e; Some (s\<lparr>plinks := h\<rparr>) }"

section \<open>Guard bytes\<close>

definition align_size :: "u32 \<Rightarrow> u32" where
  "align_size sz = (sz + AMPOOL_ALIGN - 1) AND NOT AMPOOL_ALIGN_MASK"

text \<open>
  The bytes of the magic number in memory order (the platform is little-endian), by the address of the
  byte that is checked.
\<close>

definition chunk_magic_ptr :: "ampool_state \<Rightarrow> addr \<Rightarrow> nat \<Rightarrow> bool \<Rightarrow> u8" where
  "chunk_magic_ptr s c k data_magic =
     (let ret = ucast (drop_bit (8 * ((c + CHUNK_BYTES + k) mod 4)) (globals_magic s))
      in if data_magic then ret AND 0x0F else ret)"

definition chunk_magic_get_values :: "ampool_state \<Rightarrow> addr \<Rightarrow> nat \<Rightarrow> bool \<Rightarrow> bool \<Rightarrow> u8 \<times> u8" where
  "chunk_magic_get_values s c k is_data to_allocated =
     (let expected = chunk_magic_ptr s c k is_data;
          desired = NOT expected
      in if to_allocated then (NOT expected, NOT desired) else (expected, desired))"

fun chunk_magic_test_len :: "ampool_state \<Rightarrow> addr \<Rightarrow> nat \<Rightarrow> nat \<Rightarrow> bool \<Rightarrow> bool \<Rightarrow> unit option" where
  "chunk_magic_test_len s c k 0 is_data to_allocated = Some ()"
| "chunk_magic_test_len s c k (Suc remaining) is_data to_allocated =
     do { let (expected, _) = chunk_magic_get_values s c k is_data to_allocated;
          v \<leftarrow> byte_get s c k;
          c_assert (v = expected \<or> is_data \<and> \<not> to_allocated);
          chunk_magic_test_len s c (Suc k) remaining is_data to_allocated }"

fun chunk_magic_set_len :: "ampool_state \<Rightarrow> addr \<Rightarrow> nat \<Rightarrow> nat \<Rightarrow> bool \<Rightarrow> bool \<Rightarrow> ampool_state option" where
  "chunk_magic_set_len s c k 0 is_data to_allocated = Some s"
| "chunk_magic_set_len s c k (Suc remaining) is_data to_allocated =
     do { let (_, desired) = chunk_magic_get_values s c k is_data to_allocated;
          s \<leftarrow> (if \<not> is_data \<or> \<not> to_allocated then byte_put s c k desired else Some s);
          chunk_magic_set_len s c (Suc k) remaining is_data to_allocated }"

definition validate_len :: "u32 \<Rightarrow> u32" where
  "validate_len sz = min AMPOOL_MAX_VALIDATE_HALF ((sz + 1) div 2)"

definition chunk_magic_test :: "ampool_state \<Rightarrow> addr \<Rightarrow> u32 \<Rightarrow> bool \<Rightarrow> bool \<Rightarrow> bool \<Rightarrow> unit option" where
  "chunk_magic_test s c allocation_size to_allocated validate_data validate_overflow =
     do { chunk \<leftarrow> chunk_get s c;
          c_assert (chunk_magic chunk = globals_magic s \<or> to_allocated);
          c_assert (chunk_magic chunk = NOT (globals_magic s) \<or> \<not> to_allocated);
          let len = validate_len (chunk_size chunk);
          (if validate_data then
             do { chunk_magic_test_len s c 0 (unat len) True to_allocated;
                  chunk_magic_test_len s c (unat (chunk_size chunk - len)) (unat len) True to_allocated }
           else Some ());
          (if validate_overflow then
             chunk_magic_test_len s c (unat (chunk_size chunk)) (unat (allocation_size - chunk_size chunk)) False to_allocated
           else Some ()) }"

definition chunk_magic_set :: "ampool_state \<Rightarrow> addr \<Rightarrow> u32 \<Rightarrow> bool \<Rightarrow> bool \<Rightarrow> bool \<Rightarrow> ampool_state option" where
  "chunk_magic_set s c allocation_size to_allocated set_data set_overflow =
     do { chunk \<leftarrow> chunk_get s c;
          let s = chunk_put s c (chunk\<lparr>chunk_magic := (if to_allocated then globals_magic s else NOT (globals_magic s))\<rparr>);
          let len = validate_len (chunk_size chunk);
          s \<leftarrow> (if set_data \<and> \<not> to_allocated then
                  do { s \<leftarrow> chunk_magic_set_len s c 0 (unat len) True to_allocated;
                       chunk_magic_set_len s c (unat (chunk_size chunk - len)) (unat len) True to_allocated }
                else Some s);
          (if set_overflow then
             chunk_magic_set_len s c (unat (chunk_size chunk)) (unat (allocation_size - chunk_size chunk)) False to_allocated
           else Some s) }"

section \<open>Buckets\<close>

text \<open>\<open>init_ok\<close> is the result of \<^verbatim>\<open>pthread_mutex_init\<close>. Statistics not named keep the zeros of the pool's memory.\<close>

definition bucket_init :: "ampool_state \<Rightarrow> addr \<times> nat \<Rightarrow> u32 \<Rightarrow> bool \<Rightarrow> (amrc \<times> ampool_state) option" where
  "bucket_init s b sz init_ok =
     do { bk \<leftarrow> bucket_get s b;
          if \<not> init_ok then Some (AMRC_ERROR, s)
          else
            (let h = amlist_init (plinks s) (UsedOf (fst b) (snd b));
                 h = amlist_init h (FreeOf (fst b) (snd b))
             in Some (AMRC_SUCCESS, bucket_put (s\<lparr>plinks := h\<rparr>) b
                  (bk\<lparr>bucket_mutex := False, element_size := ucast sz,
                      used_size_range := amstat_init (used_size_range bk),
                      total_size_range := amstat_init (total_size_range bk),
                      used_element_count_range := amstat_init (used_element_count_range bk),
                      total_element_count_range := amstat_init (total_element_count_range bk)\<rparr>))) }"

text \<open>The size of the data of a chunk: that of the bucket, or for the oversized one the aligned size.\<close>

definition malloc_size :: "ampool_bucket \<Rightarrow> u32 \<Rightarrow> u32" where
  "malloc_size bk sz =
     (let size_malloc = ucast (element_size bk) in if size_malloc = 0 then align_size sz else size_malloc)"

definition size_assertions :: "ampool_bucket \<Rightarrow> u32 \<Rightarrow> u32 \<Rightarrow> bool" where
  "size_assertions bk size_malloc sz \<longleftrightarrow>
     size_malloc \<ge> sz \<and> size_malloc - AMPOOL_ALIGN < sz \<and>
     (element_size bk = 0 \<or> sz \<le> AMPOOL_MAX_STEPPED) \<and> (element_size bk > 0 \<or> sz > AMPOOL_MAX_STEPPED)"

text \<open>The loop of \<^verbatim>\<open>bucket_term_list\<close> over the chunks of a list.\<close>

partial_function (option) bucket_term_list ::
    "ampool_state \<Rightarrow> addr \<times> nat \<Rightarrow> plink \<Rightarrow> bool \<Rightarrow> bool \<Rightarrow> ampool_state option" where
  "bucket_term_list s b lst validate is_used =
     (if amlist_empty (plinks s) lst then Some s
      else do { l \<leftarrow> amlist_first (plinks s) lst; c \<leftarrow> chunk_of l;
                s \<leftarrow> plist_del s (ChunkOf c);
                bk \<leftarrow> bucket_get s b;
                chunk \<leftarrow> chunk_get s c;
                chunk_magic_test s c (malloc_size bk (chunk_size chunk)) (\<not> is_used) validate validate;
                let bk = bk\<lparr>total_size := total_size bk - ucast (chunk_size chunk),
                            total_element_count := total_element_count bk - 1\<rparr>;
                let bk = (if is_used then bk\<lparr>used_size := used_size bk - ucast (chunk_size chunk),
                                             used_element_count := used_element_count bk - 1\<rparr> else bk);
                h \<leftarrow> free_block (Some c) (pmem s);
                bucket_term_list ((bucket_put s b bk)\<lparr>pmem := h\<rparr>) b lst validate is_used })"

definition bucket_term :: "ampool_state \<Rightarrow> addr \<times> nat \<Rightarrow> bool \<Rightarrow> ampool_state option" where
  "bucket_term s b validate =
     do { s \<leftarrow> bucket_lock s b;
          s \<leftarrow> bucket_term_list s b (UsedOf (fst b) (snd b)) validate True;
          s \<leftarrow> bucket_term_list s b (FreeOf (fst b) (snd b)) validate False;
          bucket_unlock s b }"

text \<open>The statistics of a bucket: a new chunk, a chunk taken into use, a chunk given back.\<close>

definition count_new :: "ampool_bucket \<Rightarrow> u32 \<Rightarrow> ampool_bucket option" where
  "count_new bk sz =
     do { let n = total_element_count bk + 1;
          rn \<leftarrow> amstat_upd (total_element_count_range bk) n;
          let z = total_size bk + ucast sz;
          rz \<leftarrow> amstat_upd (total_size_range bk) z;
          Some (bk\<lparr>total_element_count := n, total_element_count_range := rn, total_size := z, total_size_range := rz\<rparr>) }"

definition count_used :: "ampool_bucket \<Rightarrow> u64 \<Rightarrow> u64 \<Rightarrow> ampool_bucket option" where
  "count_used bk n z =
     do { rn \<leftarrow> amstat_upd (used_element_count_range bk) n;
          rz \<leftarrow> amstat_upd (used_size_range bk) z;
          Some (bk\<lparr>used_element_count := n, used_element_count_range := rn, used_size := z, used_size_range := rz\<rparr>) }"

text \<open>Taking a chunk: a new one, or the first of the free list.\<close>

definition bucket_take :: "allocator \<Rightarrow> ampool_state \<Rightarrow> addr \<times> nat \<Rightarrow> u32 \<Rightarrow> u32 \<Rightarrow> bool \<Rightarrow>
    (addr option \<times> ampool_state) option" where
  "bucket_take alloc s b size_malloc sub_size validate =
     (if amlist_empty (plinks s) (FreeOf (fst b) (snd b)) then
        (case malloc alloc (of_nat CHUNK_BYTES + ucast size_malloc) (pmem s) of
           (None, h) \<Rightarrow> Some (None, s\<lparr>pmem := h\<rparr>)
         | (Some c, h) \<Rightarrow>
             do { bk \<leftarrow> bucket_get s b; bk \<leftarrow> count_new bk sub_size;
                  Some (Some c, bucket_put (s\<lparr>pmem := h\<rparr>) b bk) })
      else
        do { l \<leftarrow> amlist_first (plinks s) (FreeOf (fst b) (snd b)); c \<leftarrow> chunk_of l;
             s \<leftarrow> plist_del s (ChunkOf c);
             chunk_magic_test s c size_malloc True validate validate;
             Some (Some c, s) })"

definition bucket_alloc :: "allocator \<Rightarrow> ampool_state \<Rightarrow> addr \<times> nat \<Rightarrow> u32 \<Rightarrow> addr option \<Rightarrow> bool \<Rightarrow>
    (addr option \<times> ampool_state) option" where
  "bucket_alloc alloc s b sub_size name validate =
     do { bk \<leftarrow> bucket_get s b;
          let size_malloc = malloc_size bk sub_size;
          c_assert (size_assertions bk size_malloc sub_size);
          s \<leftarrow> bucket_lock s b;
          (r, s) \<leftarrow> bucket_take alloc s b size_malloc sub_size validate;
          case r of
            None \<Rightarrow> do { s \<leftarrow> bucket_unlock s b; Some (None, s) }
          | Some c \<Rightarrow>
              do { s \<leftarrow> plist_add s (UsedOf (fst b) (snd b)) (ChunkOf c);
                   bk \<leftarrow> bucket_get s b;
                   bk \<leftarrow> count_used bk (used_element_count bk + 1) (used_size bk + ucast sub_size);
                   s \<leftarrow> bucket_unlock (bucket_put s b bk) b;
                   chunk \<leftarrow> chunk_get s c;
                   let s = chunk_put s c (chunk\<lparr>chunk_name := name, chunk_size := sub_size\<rparr>);
                   s \<leftarrow> chunk_magic_set s c size_malloc True validate validate;
                   s \<leftarrow> bytes_fill s c 0 (unat (min sub_size AMPOOL_MAX_MEMSET)) 0;
                   Some (Some c, s) } }"

definition bucket_free :: "ampool_state \<Rightarrow> addr \<times> nat \<Rightarrow> addr \<Rightarrow> bool \<Rightarrow> ampool_state option" where
  "bucket_free s b ptr validate =
     do { c_assert (CHUNK_BYTES \<le> ptr);
          let c = ptr - CHUNK_BYTES;
          chunk \<leftarrow> chunk_get s c;
          bk \<leftarrow> bucket_get s b;
          let size_malloc = malloc_size bk (chunk_size chunk);
          c_assert (size_assertions bk size_malloc (chunk_size chunk));
          chunk_magic_test s c size_malloc False validate validate;
          s \<leftarrow> bucket_lock s b;
          bk \<leftarrow> bucket_get s b;
          bk \<leftarrow> count_used bk (used_element_count bk - 1) (used_size bk - ucast (chunk_size chunk));
          s \<leftarrow> plist_del (bucket_put s b bk) (ChunkOf c);
          s \<leftarrow> (if element_size bk > 0 then plist_add s (FreeOf (fst b) (snd b)) (ChunkOf c) else Some s);
          s \<leftarrow> bucket_unlock s b;
          (if element_size bk > 0 then chunk_magic_set s c size_malloc False validate validate
           else do { h \<leftarrow> free_block (Some c) (pmem s); Some (s\<lparr>pmem := h\<rparr>) }) }"

text \<open>For the size 0 the index is outside of the array.\<close>

definition ampool_get_bucket :: "addr \<Rightarrow> u32 \<Rightarrow> (addr \<times> nat) option" where
  "ampool_get_bucket p sz =
     do { c_assert (sz AND AMPOOL_ALIGN_MASK = 0);
          if sz \<le> AMPOOL_MAX_STEPPED then
            (let i = unat (drop_bit 4 sz - 1) in if i < AMPOOL_STEP_COUNT then Some (p, i) else None)
          else Some (p, AMPOOL_STEP_COUNT) }"

section \<open>Operations of a pool\<close>

definition validates :: "ampool_internal \<Rightarrow> bool" where
  "validates pl \<longleftrightarrow> pl_flags pl AND AMPOOL_VALIDATE_ON_FREE \<noteq> 0"

definition ampool_op_alloc :: "allocator \<Rightarrow> ampool_state \<Rightarrow> addr \<Rightarrow> u32 \<Rightarrow> addr option \<Rightarrow>
    (addr option \<times> ampool_state) option" where
  "ampool_op_alloc alloc s p sz name =
     (if sz = 0 then Some (None, s)
      else
        do { b \<leftarrow> ampool_get_bucket p (align_size sz);
             pl \<leftarrow> pool_get s p;
             (r, s) \<leftarrow> bucket_alloc alloc s b sz name (validates pl);
             case r of
               None \<Rightarrow> Some (None, s)
             | Some c \<Rightarrow>
                 do { pl \<leftarrow> pool_get s p;
                      Some (Some (c + CHUNK_BYTES),
                        pool_put s p (pl\<lparr>pl_size := snd (amsync_add (pl_size pl) (ucast sz)),
                          pl_element_count := snd (amsync_inc (pl_element_count pl))\<rparr>)) } })"

definition ampool_op_free :: "ampool_state \<Rightarrow> addr \<Rightarrow> addr \<Rightarrow> u32 \<Rightarrow> ampool_state option" where
  "ampool_op_free s p ptr sz =
     do { b \<leftarrow> ampool_get_bucket p (align_size sz);
          pl \<leftarrow> pool_get s p;
          s \<leftarrow> bucket_free s b ptr (validates pl);
          pl \<leftarrow> pool_get s p;
          Some (pool_put s p (pl\<lparr>pl_size := snd (amsync_sub (pl_size pl) (ucast sz)),
            pl_element_count := snd (amsync_dec (pl_element_count pl))\<rparr>)) }"

definition ampool_op_realloc :: "allocator \<Rightarrow> ampool_state \<Rightarrow> addr \<Rightarrow> addr \<Rightarrow> u32 \<Rightarrow> u32 \<Rightarrow> addr option \<Rightarrow>
    (addr option \<times> ampool_state) option" where
  "ampool_op_realloc alloc s p ptr old_size new_size name =
     do { let m = min old_size new_size;
          (newptr, s) \<leftarrow> ampool_op_alloc alloc s p new_size name;
          s \<leftarrow> (case newptr of
                  None \<Rightarrow> Some s
                | Some q \<Rightarrow>
                    do { s \<leftarrow> bytes_copy s (q - CHUNK_BYTES) (ptr - CHUNK_BYTES) 0 (unat m);
                         bytes_fill s (q - CHUNK_BYTES) (unat m) (unat (new_size - m)) 0 });
          s \<leftarrow> ampool_op_free s p ptr old_size;
          Some (newptr, s) }"

definition ampool_op_get_size :: "ampool_state \<Rightarrow> addr \<Rightarrow> u64 option" where
  "ampool_op_get_size s p = do { pl \<leftarrow> pool_get s p; Some (pl_size pl) }"

section \<open>The tree of pools\<close>

text \<open>
  \<^verbatim>\<open>_ampool_pool_free\<close>: what it does before and after the loop over the sub-pools, which calls it for
  the first child until there is none. The first part returns the sums of the debug build.
\<close>

fun term_buckets :: "ampool_state \<Rightarrow> addr \<Rightarrow> bool \<Rightarrow> nat list \<Rightarrow> u64 \<Rightarrow> u64 \<Rightarrow> (u64 \<times> u64 \<times> ampool_state) option" where
  "term_buckets s p validate [] deleted_size deleted_count = Some (deleted_size, deleted_count, s)"
| "term_buckets s p validate (i # is) deleted_size deleted_count =
     do { bk \<leftarrow> bucket_get s (p, i);
          s \<leftarrow> bucket_term s (p, i) validate;
          term_buckets s p validate is (deleted_size + used_size bk) (deleted_count + used_element_count bk) }"

definition pool_unlink :: "ampool_state \<Rightarrow> addr \<Rightarrow> (u64 \<times> u64 \<times> ampool_state) option" where
  "pool_unlink s p =
     do { s \<leftarrow> plist_del s (SiblingOf p);
          pl \<leftarrow> pool_get s p;
          term_buckets s p (validates pl) ([0 ..< AMPOOL_STEP_COUNT] @ [AMPOOL_STEP_COUNT]) 0 0 }"

definition pool_release :: "ampool_state \<Rightarrow> addr \<Rightarrow> u64 \<Rightarrow> u64 \<Rightarrow> ampool_state option" where
  "pool_release s p deleted_size deleted_count =
     do { pl \<leftarrow> pool_get s p;
          c_assert (deleted_size = pl_size pl);
          c_assert (deleted_count = pl_element_count pl);
          h \<leftarrow> free_block (Some p) (pmem s);
          Some (s\<lparr>pmem := h\<rparr>) }"

partial_function (option) free_pools :: "ampool_state \<Rightarrow> plink \<Rightarrow> ampool_state option" where
  "free_pools s lst =
     (if amlist_empty (plinks s) lst then Some s
      else do { l \<leftarrow> amlist_first (plinks s) lst; p \<leftarrow> pool_of l;
                (z, n, s) \<leftarrow> pool_unlink s p;
                s \<leftarrow> free_pools s (ChildrenOf p);
                s \<leftarrow> pool_release s p z n;
                free_pools s lst })"

definition ampool_pool_free_rec :: "ampool_state \<Rightarrow> addr \<Rightarrow> ampool_state option" where
  "ampool_pool_free_rec s p =
     do { (z, n, s) \<leftarrow> pool_unlink s p; s \<leftarrow> free_pools s (ChildrenOf p); pool_release s p z n }"

definition ampool_op_pool_free :: "ampool_state \<Rightarrow> addr \<Rightarrow> ampool_state option" where
  "ampool_op_pool_free s p =
     do { s \<leftarrow> hierarchy_lock s; s \<leftarrow> ampool_pool_free_rec s p; Some (hierarchy_unlock s) }"

definition ampool_internal_term :: "ampool_state \<Rightarrow> ampool_state option" where
  "ampool_internal_term s =
     do { s \<leftarrow> hierarchy_lock s; s \<leftarrow> free_pools s RootPools; Some (hierarchy_unlock s) }"

text \<open>\<^verbatim>\<open>memset(pool, 0, sizeof(*pool))\<close>; the functions in \<^verbatim>\<open>ops\<close> are always those above.\<close>

definition zero_range :: amstat_range where
  "zero_range = \<lparr>smax = 0, smin = 0, ssum = 0, ssq = 0, savg = 0, snum = 0\<rparr>"

definition zero_bucket :: ampool_bucket where
  "zero_bucket = \<lparr>bucket_mutex = False, element_size = 0, used_size = 0, used_size_range = zero_range,
     total_size = 0, total_size_range = zero_range, used_element_count = 0, used_element_count_range = zero_range,
     total_element_count = 0, total_element_count_range = zero_range\<rparr>"

fun init_buckets :: "ampool_state \<Rightarrow> addr \<Rightarrow> nat list \<Rightarrow> (nat \<Rightarrow> bool) \<Rightarrow> ampool_state option" where
  "init_buckets s p [] init_ok = Some s"
| "init_buckets s p (i # is) init_ok =
     do { (rc, s) \<leftarrow> bucket_init s (p, i) (of_nat (i + 1) * AMPOOL_ALIGN) (init_ok i);
          c_assert (rc = AMRC_SUCCESS);
          init_buckets s p is init_ok }"

definition ampool_pool_alloc_flags_named :: "allocator \<Rightarrow> (nat \<Rightarrow> bool) \<Rightarrow> ampool_state \<Rightarrow> addr option \<Rightarrow> u32 \<Rightarrow>
    addr option \<Rightarrow> (addr option \<times> ampool_state) option" where
  "ampool_pool_alloc_flags_named alloc init_ok s parent flags name =
     (case malloc alloc POOL_BYTES (pmem s) of
        (None, h) \<Rightarrow> Some (None, s\<lparr>pmem := h\<rparr>)
      | (Some p, h) \<Rightarrow>
          do { let s = s\<lparr>pmem := h, plinks := amlist_init (plinks s) (ChildrenOf p)\<rparr>;
               let s = pool_put s p \<lparr>pl_buckets = (\<lambda>_. zero_bucket), pl_size = 0, pl_element_count = 0,
                 pl_parent = parent, pl_flags = flags, pl_name = name\<rparr>;
               s \<leftarrow> init_buckets s p [0 ..< AMPOOL_STEP_COUNT] init_ok;
               (rc, s) \<leftarrow> bucket_init s (p, AMPOOL_STEP_COUNT) 0 (init_ok AMPOOL_STEP_COUNT);
               c_assert (rc = AMRC_SUCCESS);
               s \<leftarrow> hierarchy_lock s;
               s \<leftarrow> plist_add s (case parent of None \<Rightarrow> RootPools | Some q \<Rightarrow> ChildrenOf q) (SiblingOf p);
               Some (Some p, hierarchy_unlock s) })"

text \<open>\<open>date\<close> is the text of \<^verbatim>\<open>__DATE__\<close>, \<open>now\<close> the result of \<^verbatim>\<open>amtime_now\<close>.\<close>

definition ampool_init :: "ampool_state \<Rightarrow> u8 list \<Rightarrow> u64 \<Rightarrow> bool \<Rightarrow> ampool_state option" where
  "ampool_init s date now init_ok =
     do { (fold_me, _) \<leftarrow> amshash date;
          let s = s\<lparr>plinks := amlist_init (plinks s) RootPools\<rparr>;
          c_assert init_ok;
          let fold_me = fold_me XOR drop_bit 32 fold_me;
          let fold_me = fold_me XOR drop_bit 16 fold_me;
          Some (s\<lparr>hierarchy_mutex := False,
            globals_magic := ucast (push_bit 16 (fold_me AND 0xFFFF) OR (now AND 0xFFFF))\<rparr>) }"

section \<open>Diagnostics\<close>

record ampool_diag_info =
  diag_pool :: addr
  diag_pool_name :: "addr option"
  diag_parent :: "addr option"
  diag_parent_name :: "addr option"
  diag_size :: u64
  diag_elements :: u64

record ampool_elem_info =
  elem_pool :: addr
  elem_pool_name :: "addr option"
  elem_ptr :: addr
  elem_name :: "addr option"
  elem_size :: u32

text \<open>
  The callback is a parameter: it maps what it is told and the user's data to its result and the new user data.
  The second argument of \<open>diag_walk\<close> are the pools of the loop over the children of a pool; the
  recursive call goes into the children of the first.
\<close>

partial_function (option) diag_walk :: "(ampool_diag_info \<Rightarrow> 'u \<Rightarrow> amrc \<times> 'u) \<Rightarrow> ampool_state \<Rightarrow>
    plink list \<Rightarrow> addr option \<Rightarrow> 'u \<Rightarrow> (amrc \<times> 'u) option" where
  "diag_walk callback s ls parent u =
     (case ls of
        [] \<Rightarrow> Some (AMRC_SUCCESS, u)
      | l # ls \<Rightarrow>
          do { p \<leftarrow> pool_of l;
               pl \<leftarrow> pool_get s p;
               parent_name \<leftarrow> (case parent of None \<Rightarrow> Some None | Some q \<Rightarrow> do { pq \<leftarrow> pool_get s q; Some (pl_name pq) });
               let (rc, u) = callback \<lparr>diag_pool = p, diag_pool_name = pl_name pl, diag_parent = parent,
                 diag_parent_name = parent_name, diag_size = pl_size pl, diag_elements = pl_element_count pl\<rparr> u;
               if rc \<noteq> AMRC_SUCCESS then Some (AMRC_ERROR, u)
               else
                 do { cs \<leftarrow> amlist_for_each_entry (plinks s) (ChildrenOf p);
                      (rc, u) \<leftarrow> diag_walk callback s cs (Some p) u;
                      if rc \<noteq> AMRC_SUCCESS then Some (AMRC_ERROR, u)
                      else diag_walk callback s ls parent u } })"

definition ampool_diag :: "(ampool_diag_info \<Rightarrow> 'u \<Rightarrow> amrc \<times> 'u) option \<Rightarrow> ampool_state \<Rightarrow> 'u \<Rightarrow>
    ('u \<times> ampool_state) option" where
  "ampool_diag callback s u =
     (case callback of
        None \<Rightarrow> Some (u, s)
      | Some callback \<Rightarrow>
          do { s \<leftarrow> hierarchy_lock s;
               ls \<leftarrow> amlist_for_each_entry (plinks s) RootPools;
               (_, u) \<leftarrow> diag_walk callback s ls None u;
               Some (u, hierarchy_unlock s) })"

fun elem_walk :: "(ampool_elem_info \<Rightarrow> 'u \<Rightarrow> amrc \<times> 'u) \<Rightarrow> ampool_state \<Rightarrow> addr \<Rightarrow> plink list \<Rightarrow> 'u \<Rightarrow>
    (amrc \<times> 'u) option" where
  "elem_walk callback s p [] u = Some (AMRC_SUCCESS, u)"
| "elem_walk callback s p (l # ls) u =
     do { c \<leftarrow> chunk_of l;
          chunk \<leftarrow> chunk_get s c;
          let (rc, u) = callback \<lparr>elem_pool = p, elem_pool_name = pl_name (pools s p), elem_ptr = c + CHUNK_BYTES,
            elem_name = chunk_name chunk, elem_size = chunk_size chunk\<rparr> u;
          if rc \<noteq> AMRC_SUCCESS then Some (rc, u) else elem_walk callback s p ls u }"

definition bucket_elem_diag :: "(ampool_elem_info \<Rightarrow> 'u \<Rightarrow> amrc \<times> 'u) \<Rightarrow> ampool_state \<Rightarrow> addr \<times> nat \<Rightarrow> 'u \<Rightarrow>
    (amrc \<times> 'u \<times> ampool_state) option" where
  "bucket_elem_diag callback s b u =
     do { s \<leftarrow> bucket_lock s b;
          ls \<leftarrow> amlist_for_each_entry (plinks s) (UsedOf (fst b) (snd b));
          (rc, u) \<leftarrow> elem_walk callback s (fst b) ls u;
          s \<leftarrow> bucket_unlock s b;
          Some (rc, u, s) }"

fun elem_diag_buckets :: "(ampool_elem_info \<Rightarrow> 'u \<Rightarrow> amrc \<times> 'u) \<Rightarrow> ampool_state \<Rightarrow> addr \<Rightarrow> nat list \<Rightarrow> 'u \<Rightarrow>
    ('u \<times> ampool_state) option" where
  "elem_diag_buckets callback s p [] u = Some (u, s)"
| "elem_diag_buckets callback s p (i # is) u =
     do { (rc, u, s) \<leftarrow> bucket_elem_diag callback s (p, i) u;
          if rc \<noteq> AMRC_SUCCESS then Some (u, s) else elem_diag_buckets callback s p is u }"

text \<open>
  \<^verbatim>\<open>ampool_elem_diag\<close>; the structure \<^verbatim>\<open>pool_stats\<close> has no members. The test for NULL is made on the pool computed from
  \<^verbatim>\<open>ops\<close>, which is not its first member, so that it never holds: for \<^verbatim>\<open>ops\<close> NULL memory outside of any object is read.
\<close>

definition ampool_elem_diag :: "(ampool_elem_info \<Rightarrow> 'u \<Rightarrow> amrc \<times> 'u) option \<Rightarrow> ampool_state \<Rightarrow> addr option \<Rightarrow> 'u \<Rightarrow>
    ('u \<times> ampool_state) option" where
  "ampool_elem_diag callback s pool u =
     (case callback of
        None \<Rightarrow> Some (u, s)
      | Some callback \<Rightarrow>
          do { p \<leftarrow> pool; pool_get s p; elem_diag_buckets callback s p ([0 ..< AMPOOL_STEP_COUNT] @ [AMPOOL_STEP_COUNT]) u })"

lemma elem_diag_without_pool: "ampool_elem_diag (Some callback) s None u = None"
  by (simp add: ampool_elem_diag_def)

end
