(* ===== verification/AmPoolInv.thy ===== *)
theory AmPoolInv
  imports AmPool
begin

text \<open>
  The invariant of the pools, and that allocation, release and reallocation keep it and act as an
  allocator: guard bytes, chunks, buckets, pools.
\<close>

section \<open>Sizes\<close>

text \<open>Alignment, in numbers.\<close>

definition aligned :: "nat \<Rightarrow> nat" where
  "aligned n = 16 * ((n + 15) div 16)"

lemma aligned_bounds: "n \<le> aligned n" "aligned n < n + 16" "0 < n \<Longrightarrow> 16 \<le> aligned n"
  by (simp_all add: aligned_def)

lemma and_not_15: "(x :: u32) AND NOT 15 = 16 * (x div 16)"
proof -
  have "x AND NOT 15 = push_bit 4 (drop_bit 4 x)"
  proof (rule bit_word_eqI)
    fix n assume "n < LENGTH(32)"
    have m: "(15 :: u32) = mask 4" by (simp add: mask_eq_exp_minus_1)
    show "bit (x AND NOT 15) n = bit (push_bit 4 (drop_bit 4 x)) n"
      unfolding m by (auto simp: bit_simps)
  qed
  then show ?thesis by (simp add: push_bit_eq_mult drop_bit_eq_div ac_simps)
qed

lemma and_minus_16: "(x :: u32) AND - 16 = 16 * (x div 16)"
  using and_not_15 [of x] by simp

lemma unat_align:
  assumes "unat sz \<le> 2 ^ 32 - 16"
  shows "unat (align_size sz) = aligned (unat sz)"
proof -
  have u: "unat (sz + 15) = unat sz + 15" using assms by (simp add: unat_word_ariths)
  have a: "align_size sz = 16 * ((sz + 15) div 16)"
    by (simp add: align_size_def AMPOOL_ALIGN_def AMPOOL_ALIGN_MASK_def and_minus_16 add.commute)
  have "16 * ((unat sz + 15) div 16) < 2 ^ 32" using assms aligned_bounds(2) [of "unat sz"] by (simp add: aligned_def)
  then show ?thesis
    unfolding a by (simp add: unat_word_ariths u unat_div aligned_def)
qed

text \<open>The bucket for a size: 0 to 31 by the aligned size, 32 for more than 512 bytes.\<close>

definition bucket_no :: "nat \<Rightarrow> nat" where
  "bucket_no n = (if n \<le> 512 then (n - 1) div 16 else 32)"

definition step_size :: "nat \<Rightarrow> u64" where
  "step_size i = (if i < 32 then of_nat (16 * (i + 1)) else 0)"

text \<open>The bytes of data a chunk of the bucket \<open>i\<close> has for \<open>n\<close> bytes asked for.\<close>

definition room :: "nat \<Rightarrow> nat \<Rightarrow> nat" where
  "room i n = (if i < 32 then 16 * (i + 1) else aligned n)"

lemma bucket_no_le: "bucket_no n \<le> 32"
  using div_le_mono [of "n - 1" 512 16] by (simp add: bucket_no_def)

lemma room_bounds:
  assumes "0 < n"
  shows "n \<le> room (bucket_no n) n" and "room (bucket_no n) n < n + 16"
proof -
  have e: "16 * ((n - 1) div 16) + (n - 1) mod 16 = n - 1" "(n - 1) mod 16 < 16" by simp_all
  have q: "(n - 1) div 16 < 32" if "n \<le> 512" using that assms by (simp add: div_less_iff_less_mult)
  have "n \<le> room (bucket_no n) n \<and> room (bucket_no n) n < n + 16"
  proof (cases "n \<le> 512")
    case True
    then have "room (bucket_no n) n = 16 * ((n - 1) div 16) + 16" using q by (simp add: room_def bucket_no_def)
    then show ?thesis using e assms by linarith
  next
    case False
    then show ?thesis using aligned_bounds [of n] by (simp add: room_def bucket_no_def)
  qed
  then show "n \<le> room (bucket_no n) n" "room (bucket_no n) n < n + 16" by simp_all
qed

lemma align_no_wrap:
  assumes "unat sz \<le> 2 ^ 32 - 16"
  shows "align_size sz AND AMPOOL_ALIGN_MASK = 0"
proof -
  have "align_size sz AND 15 = 0"
    by (rule bit_word_eqI) (simp add: align_size_def AMPOOL_ALIGN_MASK_def AMPOOL_ALIGN_def bit_simps)
  then show ?thesis by (simp add: AMPOOL_ALIGN_MASK_def AMPOOL_ALIGN_def)
qed

lemma get_bucket_ok:
  assumes "0 < sz" and "unat sz \<le> 2 ^ 32 - 16"
  shows "ampool_get_bucket p (align_size sz) = Some (p, bucket_no (unat sz))"
proof -
  let ?a = "align_size sz" and ?n = "unat sz"
  have n: "0 < ?n" using assms(1) by (simp add: word_less_nat_alt)
  note u = unat_align [OF assms(2)]
  have le: "?a \<le> AMPOOL_MAX_STEPPED \<longleftrightarrow> ?n \<le> 512"
  proof -
    have "aligned ?n \<le> 512 \<longleftrightarrow> ?n \<le> 512"
      using aligned_bounds(1) [of ?n] div_le_mono [of "?n + 15" 527 16] by (auto simp: aligned_def)
    then show ?thesis by (simp add: word_le_nat_alt u AMPOOL_MAX_STEPPED_def AMPOOL_ALIGN_def AMPOOL_STEP_COUNT_def)
  qed
  have d: "unat (drop_bit 4 ?a) = (?n + 15) div 16" by (simp add: drop_bit_eq_div unat_div u aligned_def)
  moreover have "0 < (?n + 15) div 16" using n by simp
  ultimately have "drop_bit 4 ?a \<noteq> 0" by auto
  then have i: "unat (drop_bit 4 ?a - 1) = (?n - 1) div 16"
    using d n by (simp add: unat_minus_one)
  show ?thesis
  proof (cases "?n \<le> 512")
    case True
    then have "(?n - 1) div 16 < 32" using n by (simp add: div_less_iff_less_mult)
    with True le i align_no_wrap [OF assms(2)] show ?thesis
      by (simp add: ampool_get_bucket_def Let_def AMPOOL_STEP_COUNT_def bucket_no_def)
  next
    case False
    with le align_no_wrap [OF assms(2)] show ?thesis
      by (simp add: ampool_get_bucket_def AMPOOL_STEP_COUNT_def bucket_no_def)
  qed
qed

text \<open>Sizes above \<^verbatim>\<open>2^32 - 16\<close> wrap around to 0, and the bucket is outside of the array.\<close>

lemma get_bucket_wraps:
  assumes "2 ^ 32 - 16 < unat sz"
  shows "ampool_get_bucket p (align_size sz) = None"
proof -
  have "unat sz < 2 ^ 32" using unsigned_less [where 'b = 32 and 'a = nat and w = sz] by simp
  with assms have "unat (sz + 15) = unat sz + 15 - 2 ^ 32" by (simp add: unat_word_ariths mod_if)
  then have "unat (sz + 15) < 16" using \<open>unat sz < 2 ^ 32\<close> by linarith
  then have "(sz + 15) div 16 = 0" by (simp add: word_unat_eq_iff unat_div)
  then have "align_size sz = 0"
    by (simp add: align_size_def AMPOOL_ALIGN_def AMPOOL_ALIGN_MASK_def and_minus_16 add.commute)
  moreover have "unat (- 1 :: u32) = 2 ^ 32 - 1" by (simp add: unsigned_minus_1_eq_mask mask_eq_exp_minus_1)
  ultimately show ?thesis by (simp add: ampool_get_bucket_def AMPOOL_STEP_COUNT_def Let_def)
qed

section \<open>Guard bytes\<close>

text \<open>What the loops over bytes do, in one step: \<open>f\<close> are the bytes of the chunk afterwards.\<close>

definition with_bytes :: "ampool_state \<Rightarrow> addr \<Rightarrow> (nat \<Rightarrow> u8) \<Rightarrow> ampool_state" where
  "with_bytes s c f = s\<lparr>cdata := (cdata s)(c := f)\<rparr>"

lemma with_bytes_simps [simp]:
  "globals_magic (with_bytes s c f) = globals_magic s" "hierarchy_mutex (with_bytes s c f) = hierarchy_mutex s"
  "plinks (with_bytes s c f) = plinks s" "pools (with_bytes s c f) = pools s" "chunks (with_bytes s c f) = chunks s"
  "cdata (with_bytes s c f) = (cdata s)(c := f)" "pmem (with_bytes s c f) = pmem s"
  "byte_in (with_bytes s c f) = byte_in s" "chunk_magic_ptr (with_bytes s c f) = chunk_magic_ptr s"
  "with_bytes (with_bytes s c f) c g = with_bytes s c g" "with_bytes s c (cdata s c) = s"
  by (simp_all add: with_bytes_def byte_in_def chunk_magic_ptr_def fun_eq_iff)

definition range_in :: "ampool_state \<Rightarrow> addr \<Rightarrow> nat \<Rightarrow> nat \<Rightarrow> bool" where
  "range_in s c k n \<longleftrightarrow> (\<forall>j. k \<le> j \<and> j < k + n \<longrightarrow> byte_in s c j)"

lemma range_in_Suc: "range_in s c k (Suc n) \<longleftrightarrow> byte_in s c k \<and> range_in s c (Suc k) n"
  unfolding range_in_def by (metis Suc_le_eq add_Suc add_Suc_right le_eq_less_or_eq less_add_Suc1 order_refl)

lemma range_in_with_bytes [simp]: "range_in (with_bytes s c f) = range_in s"
  by (simp add: range_in_def fun_eq_iff)

lemma byte_put_ok: "byte_in s c k \<Longrightarrow> byte_put s c k v = Some (with_bytes s c ((cdata s c)(k := v)))"
  by (simp add: byte_put_def with_bytes_def)

lemma if_empty_range [simp]: "(\<lambda>j. if k \<le> j \<and> j < k then g j else f j) = (f :: nat \<Rightarrow> 'b)"
  by (rule ext) auto

lemma bytes_fill_ok:
  "range_in s c k n \<Longrightarrow>
   bytes_fill s c k n v = Some (with_bytes s c (\<lambda>j. if k \<le> j \<and> j < k + n then v else cdata s c j))"
proof (induction n arbitrary: s k)
  case (Suc n)
  let ?s = "with_bytes s c ((cdata s c)(k := v))"
  have "bytes_fill s c k (Suc n) v =
      Some (with_bytes s c (\<lambda>j. if Suc k \<le> j \<and> j < Suc k + n then v else ((cdata s c)(k := v)) j))"
    using Suc.IH [of ?s "Suc k"] Suc.prems by (simp add: range_in_Suc byte_put_ok cong: if_cong)
  also have "(\<lambda>j. if Suc k \<le> j \<and> j < Suc k + n then v else ((cdata s c)(k := v)) j) =
      (\<lambda>j. if k \<le> j \<and> j < k + Suc n then v else cdata s c j)"
    by (rule ext) auto
  finally show ?case .
qed simp

lemma bytes_copy_ok:
  "range_in s to k n \<Longrightarrow> range_in s from k n \<Longrightarrow> to \<noteq> from \<Longrightarrow>
   bytes_copy s to from k n = Some (with_bytes s to (\<lambda>j. if k \<le> j \<and> j < k + n then cdata s from j else cdata s to j))"
proof (induction n arbitrary: s k)
  case (Suc n)
  let ?s = "with_bytes s to ((cdata s to)(k := cdata s from k))"
  have "bytes_copy s to from k (Suc n) =
      Some (with_bytes s to (\<lambda>j. if Suc k \<le> j \<and> j < Suc k + n then cdata s from j else ((cdata s to)(k := cdata s from k)) j))"
    using Suc.IH [of ?s "Suc k"] Suc.prems by (simp add: range_in_Suc byte_put_ok byte_get_def cong: if_cong)
  also have "(\<lambda>j. if Suc k \<le> j \<and> j < Suc k + n then cdata s from j else ((cdata s to)(k := cdata s from k)) j) =
      (\<lambda>j. if k \<le> j \<and> j < k + Suc n then cdata s from j else cdata s to j)"
    by (rule ext) auto
  finally show ?case .
qed simp

text \<open>The value expected, and the value stored, by the flag \<open>a\<close> for \<^verbatim>\<open>to_allocated\<close>.\<close>

definition expect :: "ampool_state \<Rightarrow> addr \<Rightarrow> nat \<Rightarrow> bool \<Rightarrow> bool \<Rightarrow> u8" where
  "expect s c k d a = (if a then NOT (chunk_magic_ptr s c k d) else chunk_magic_ptr s c k d)"

lemma magic_values: "chunk_magic_get_values s c k d a = (expect s c k d a, expect s c k d (\<not> a))"
  by (simp add: chunk_magic_get_values_def expect_def Let_def)

lemma expect_with_bytes [simp]: "expect (with_bytes s c f) = expect s"
  by (simp add: expect_def fun_eq_iff)

definition matches :: "ampool_state \<Rightarrow> addr \<Rightarrow> nat \<Rightarrow> nat \<Rightarrow> bool \<Rightarrow> bool \<Rightarrow> bool" where
  "matches s c k n d a \<longleftrightarrow> (\<forall>j. k \<le> j \<and> j < k + n \<longrightarrow> cdata s c j = expect s c j d a \<or> d \<and> \<not> a)"

lemma matches_Suc: "matches s c k (Suc n) d a \<longleftrightarrow> (cdata s c k = expect s c k d a \<or> d \<and> \<not> a) \<and> matches s c (Suc k) n d a"
  unfolding matches_def by (metis Suc_le_eq add_Suc add_Suc_right le_eq_less_or_eq less_add_Suc1 order_refl)

lemma test_len_ok:
  "range_in s c k n \<Longrightarrow> chunk_magic_test_len s c k n d a = (if matches s c k n d a then Some () else None)"
proof (induction n arbitrary: k)
  case 0
  show ?case by (simp add: matches_def)
next
  case (Suc n)
  then show ?case by (auto simp: range_in_Suc matches_Suc magic_values byte_get_def c_assert_def)
qed

lemma set_len_ok:
  assumes "range_in s c k n" and "\<not> d \<or> \<not> a"
  shows "chunk_magic_set_len s c k n d a =
    Some (with_bytes s c (\<lambda>j. if k \<le> j \<and> j < k + n then expect s c j d (\<not> a) else cdata s c j))"
  using assms
proof (induction n arbitrary: s k)
  case (Suc n)
  let ?v = "expect s c k d (\<not> a)"
  let ?s = "with_bytes s c ((cdata s c)(k := ?v))"
  have "chunk_magic_set_len s c k (Suc n) d a =
      Some (with_bytes s c (\<lambda>j. if Suc k \<le> j \<and> j < Suc k + n then expect s c j d (\<not> a) else ((cdata s c)(k := ?v)) j))"
    using Suc.IH [of ?s "Suc k"] Suc.prems by (simp add: range_in_Suc byte_put_ok magic_values cong: if_cong)
  also have "(\<lambda>j. if Suc k \<le> j \<and> j < Suc k + n then expect s c j d (\<not> a) else ((cdata s c)(k := ?v)) j) =
      (\<lambda>j. if k \<le> j \<and> j < k + Suc n then expect s c j d (\<not> a) else cdata s c j)"
    by (rule ext) auto
  finally show ?case .
qed simp

section \<open>Chunks\<close>

text \<open>
  A chunk with room for \<open>a\<close> bytes, and the bytes at its ends that are checked when it is free: at each
  end half of its size, at most 32 of them.
\<close>

definition chunk_ok :: "ampool_state \<Rightarrow> nat \<Rightarrow> addr \<Rightarrow> bool" where
  "chunk_ok s a c \<longleftrightarrow>
     map_option unat (live (pmem s) c) = Some (CHUNK_BYTES + a) \<and> a \<le> 2 ^ 32 - 16 \<and>
     0 < unat (chunk_size (chunks s c)) \<and> unat (chunk_size (chunks s c)) \<le> a"

definition ends :: "nat \<Rightarrow> nat set" where
  "ends n = {k. k < n \<and> (k < min 32 ((n + 1) div 2) \<or> n - min 32 ((n + 1) div 2) \<le> k)}"

text \<open>The guard bytes after the data, and for a free chunk also the data.\<close>

definition guarded :: "ampool_state \<Rightarrow> nat \<Rightarrow> addr \<Rightarrow> bool \<Rightarrow> bool" where
  "guarded s a c free \<longleftrightarrow>
     (\<forall>k. unat (chunk_size (chunks s c)) \<le> k \<and> k < a \<longrightarrow> cdata s c k = expect s c k False free) \<and>
     (free \<longrightarrow> (\<forall>k \<in> ends (unat (chunk_size (chunks s c))). cdata s c k = expect s c k True True))"

definition marked :: "ampool_state \<Rightarrow> bool \<Rightarrow> nat \<Rightarrow> bool \<Rightarrow> addr \<Rightarrow> bool" where
  "marked s v a free c \<longleftrightarrow>
     chunk_ok s a c \<and>
     chunk_magic (chunks s c) = (if free then NOT (globals_magic s) else globals_magic s) \<and>
     (v \<longrightarrow> guarded s a c free)"

lemma byte_in_chunk: "chunk_ok s a c \<Longrightarrow> k < a \<Longrightarrow> byte_in s c k"
  by (auto simp: chunk_ok_def byte_in_def split: option.splits)

lemma chunk_range_in: "chunk_ok s a c \<Longrightarrow> k + n \<le> a \<Longrightarrow> range_in s c k n"
  by (simp add: range_in_def byte_in_chunk)

lemma validate_len_eq:
  assumes "0 < unat sz" and "unat sz \<le> 2 ^ 32 - 16"
  shows "unat (validate_len sz) = min 32 ((unat sz + 1) div 2)"
    and "unat (sz - validate_len sz) = unat sz - min 32 ((unat sz + 1) div 2)"
proof -
  have "unat (sz + 1) = unat sz + 1" using assms(2) by (simp add: unat_word_ariths)
  then have "unat ((sz + 1) div 2) = (unat sz + 1) div 2" by (simp add: unat_div)
  then show l: "unat (validate_len sz) = min 32 ((unat sz + 1) div 2)"
    by (simp add: validate_len_def AMPOOL_MAX_VALIDATE_HALF_def min_def word_le_nat_alt)
  have "unat (validate_len sz) \<le> unat sz" unfolding l using assms(1) by simp
  then show "unat (sz - validate_len sz) = unat sz - min 32 ((unat sz + 1) div 2)"
    unfolding l [symmetric] by (simp add: unat_sub word_le_nat_alt)
qed

lemma ends_halves:
  assumes "0 < n"
  shows "k \<in> ends n \<longleftrightarrow> k < min 32 ((n + 1) div 2) \<or>
    n - min 32 ((n + 1) div 2) \<le> k \<and> k < n - min 32 ((n + 1) div 2) + min 32 ((n + 1) div 2)"
  using assms by (auto simp: ends_def)

text \<open>The test of a chunk passes exactly if it is marked for the state it leaves.\<close>

lemma magic_test_eq:
  assumes ok: "chunk_ok s a c" and al: "unat al = a"
  shows "chunk_magic_test s c al free v v = (if marked s v a free c then Some () else None)"
proof -
  let ?n = "unat (chunk_size (chunks s c))" and ?l = "min 32 ((unat (chunk_size (chunks s c)) + 1) div 2)"
  have n: "0 < ?n" "?n \<le> 2 ^ 32 - 16" "?n \<le> a" using ok by (auto simp: chunk_ok_def)
  have le: "?l \<le> ?n" using n(1) by simp
  have u: "unat (al - chunk_size (chunks s c)) = a - ?n" using n(3) al by (simp add: unat_sub word_le_nat_alt)
  have live: "live (pmem s) c \<noteq> None" using ok by (auto simp: chunk_ok_def)
  have r: "range_in s c 0 ?l" "range_in s c (?n - ?l) ?l" "range_in s c ?n (a - ?n)"
    using le n(3) by (intro chunk_range_in [OF ok]; simp)+
  have "(\<forall>k \<in> ends ?n. Q k) \<longleftrightarrow> (\<forall>j. 0 \<le> j \<and> j < 0 + ?l \<longrightarrow> Q j) \<and> (\<forall>j. ?n - ?l \<le> j \<and> j < ?n - ?l + ?l \<longrightarrow> Q j)" for Q
    using ends_halves [OF n(1)] by (metis add_0 zero_le)
  then have e: "matches s c 0 ?l True free \<and> matches s c (?n - ?l) ?l True free \<longleftrightarrow>
      (free \<longrightarrow> (\<forall>k \<in> ends ?n. cdata s c k = expect s c k True True))"
    unfolding matches_def by (cases free) auto
  have "chunk_magic_test_len s c 0 (unat (validate_len (chunk_size (chunks s c)))) True free \<bind>
      (\<lambda>_. chunk_magic_test_len s c (unat (chunk_size (chunks s c) - validate_len (chunk_size (chunks s c))))
        (unat (validate_len (chunk_size (chunks s c)))) True free) =
      (if free \<longrightarrow> (\<forall>k \<in> ends ?n. cdata s c k = expect s c k True True) then Some () else None)"
    unfolding validate_len_eq [OF n(1,2)] test_len_ok [OF r(1)] test_len_ok [OF r(2)] e [symmetric]
    by (cases "matches s c 0 ?l True free") simp_all
  moreover have "chunk_magic_test_len s c ?n (unat (al - chunk_size (chunks s c))) False free =
      (if \<forall>k. ?n \<le> k \<and> k < a \<longrightarrow> cdata s c k = expect s c k False free then Some () else None)"
    unfolding u test_len_ok [OF r(3)] matches_def using n(3) by simp
  ultimately show ?thesis
    using live ok by (cases v; cases free) (auto simp: chunk_magic_test_def chunk_get_def marked_def guarded_def Let_def c_assert_def)
qed

lemma chunk_put_simps [simp]:
  "globals_magic (chunk_put s c x) = globals_magic s" "hierarchy_mutex (chunk_put s c x) = hierarchy_mutex s"
  "plinks (chunk_put s c x) = plinks s" "pools (chunk_put s c x) = pools s" "chunks (chunk_put s c x) = (chunks s)(c := x)"
  "cdata (chunk_put s c x) = cdata s" "pmem (chunk_put s c x) = pmem s"
  "byte_in (chunk_put s c x) = byte_in s" "expect (chunk_put s c x) = expect s" "range_in (chunk_put s c x) = range_in s"
  "chunk_put (chunk_put s c x) c y = chunk_put s c y"
  by (simp_all add: chunk_put_def byte_in_def expect_def chunk_magic_ptr_def range_in_def fun_eq_iff)

definition magic_of :: "ampool_state \<Rightarrow> bool \<Rightarrow> u32" where
  "magic_of s free = (if free then NOT (globals_magic s) else globals_magic s)"

text \<open>Setting the magic numbers marks the chunk; the data of a chunk that is taken into use stays.\<close>

lemma magic_set_ok:
  assumes ok: "chunk_ok s a c" and al: "unat al = a"
  shows "\<exists>f. let s' = with_bytes (chunk_put s c ((chunks s c)\<lparr>chunk_magic := magic_of s free\<rparr>)) c f in
      chunk_magic_set s c al (\<not> free) v v = Some s' \<and> marked s' v a free c"
proof -
  let ?n = "unat (chunk_size (chunks s c))" and ?l = "min 32 ((unat (chunk_size (chunks s c)) + 1) div 2)"
  have n: "0 < ?n" "?n \<le> 2 ^ 32 - 16" "?n \<le> a" using ok by (auto simp: chunk_ok_def)
  have le: "?l \<le> ?n" using n(1) by simp
  have u: "unat (al - chunk_size (chunks s c)) = a - ?n" using n(3) al by (simp add: unat_sub word_le_nat_alt)
  have live: "live (pmem s) c \<noteq> None" using ok by (auto simp: chunk_ok_def)
  have r: "range_in s c 0 ?l" "range_in s c (?n - ?l) ?l" "range_in s c ?n (a - ?n)"
    using le n(3) by (intro chunk_range_in [OF ok]; simp)+
  let ?s = "chunk_put s c ((chunks s c)\<lparr>chunk_magic := magic_of s free\<rparr>)"
  define g where "g = (if free then (\<lambda>j. if j \<in> ends ?n then expect s c j True True else cdata s c j) else cdata s c)"
  define f where "f = (if v then (\<lambda>j. if ?n \<le> j \<and> j < a then expect s c j False free else g j) else cdata s c)"
  have g: "(if free then
       do { t \<leftarrow> chunk_magic_set_len ?s c 0 (unat (validate_len (chunk_size (chunks s c)))) True (\<not> free);
            chunk_magic_set_len t c (unat (chunk_size (chunks s c) - validate_len (chunk_size (chunks s c))))
              (unat (validate_len (chunk_size (chunks s c)))) True (\<not> free) }
       else Some ?s) = Some (with_bytes ?s c g)"
  proof (cases free)
    case True
    have "(\<lambda>j. if ?n - ?l \<le> j \<and> j < ?n - ?l + ?l then expect s c j True True
        else if 0 \<le> j \<and> j < 0 + ?l then expect s c j True True else cdata s c j) = g"
      unfolding g_def using True ends_halves [OF n(1)] by (auto simp: fun_eq_iff)
    then show ?thesis using True r
      by (simp add: validate_len_eq [OF n(1,2)] set_len_ok cong: if_cong)
  next
    case False
    then have "with_bytes ?s c g = ?s" by (simp add: g_def with_bytes_def chunk_put_def)
    with False show ?thesis by simp
  qed
  have h: "chunk_magic_set_len (with_bytes ?s c g) c ?n (unat (al - chunk_size (chunks s c))) False (\<not> free) =
      Some (with_bytes ?s c f)" if v
    unfolding u using r(3) n(3) that by (simp add: set_len_ok f_def cong: if_cong)
  have "chunk_magic_set s c al (\<not> free) v v =
      do { t \<leftarrow> (if v \<and> free then
             do { t \<leftarrow> chunk_magic_set_len ?s c 0 (unat (validate_len (chunk_size (chunks s c)))) True (\<not> free);
                  chunk_magic_set_len t c (unat (chunk_size (chunks s c) - validate_len (chunk_size (chunks s c))))
                    (unat (validate_len (chunk_size (chunks s c)))) True (\<not> free) }
             else Some ?s);
           (if v then chunk_magic_set_len t c ?n (unat (al - chunk_size (chunks s c))) False (\<not> free) else Some t) }"
    using live by (auto simp: chunk_magic_set_def chunk_get_def Let_def magic_of_def)
  also have "\<dots> = Some (with_bytes ?s c f)"
  proof (cases v)
    case True
    then have "v \<and> free \<longleftrightarrow> free" by simp
    then show ?thesis unfolding g \<open>v \<and> free \<longleftrightarrow> free\<close> using h [OF True] True by (simp only: bind.bind_lunit if_True)
  next
    case False
    then have "with_bytes ?s c f = ?s" by (simp add: f_def with_bytes_def chunk_put_def)
    with False show ?thesis by simp
  qed
  finally have "chunk_magic_set s c al (\<not> free) v v = Some (with_bytes ?s c f)" .
  moreover have "marked (with_bytes ?s c f) v a free c"
    using ok n(3) by (auto simp: marked_def chunk_ok_def magic_of_def guarded_def f_def g_def ends_def)
  ultimately show ?thesis by (intro exI [of _ f]) (simp add: Let_def)
qed

text \<open>What is said of a chunk depends on its memory only.\<close>

definition same_chunk :: "ampool_state \<Rightarrow> ampool_state \<Rightarrow> addr \<Rightarrow> bool" where
  "same_chunk s s' c \<longleftrightarrow> chunks s' c = chunks s c \<and> cdata s' c = cdata s c \<and> live (pmem s') c = live (pmem s) c \<and>
     globals_magic s' = globals_magic s"

lemma marked_same:
  assumes "same_chunk s s' c"
  shows "marked s' v a free c = marked s v a free c" and "chunk_ok s' a c = chunk_ok s a c"
  using assms by (simp_all add: same_chunk_def marked_def chunk_ok_def guarded_def expect_def chunk_magic_ptr_def)

section \<open>Buckets and pools\<close>

text \<open>
  \<open>F\<close> gives the chunks on the lists of the buckets, and the pools on the lists of the tree. \<open>data_size\<close>
  is the room a chunk has in its bucket.
\<close>

fun plinks_of :: "(plink \<Rightarrow> addr list) \<Rightarrow> plink \<Rightarrow> plink list" where
  "plinks_of F RootPools = map SiblingOf (F RootPools)"
| "plinks_of F (ChildrenOf p) = map SiblingOf (F (ChildrenOf p))"
| "plinks_of F (UsedOf p i) = map ChunkOf (F (UsedOf p i))"
| "plinks_of F (FreeOf p i) = map ChunkOf (F (FreeOf p i))"
| "plinks_of F _ = []"

definition anchors :: "addr set \<Rightarrow> plink set" where
  "anchors P = insert RootPools (\<Union>p \<in> P. insert (ChildrenOf p) (UsedOf p ` {..<33} \<union> FreeOf p ` {..<33}))"

definition data_size :: "ampool_state \<Rightarrow> nat \<Rightarrow> addr \<Rightarrow> nat" where
  "data_size s i c = room i (unat (chunk_size (chunks s c)))"

definition bucket_stats_ok :: "ampool_bucket \<Rightarrow> bool" where
  "bucket_stats_ok bk \<longleftrightarrow>
     count_ok (used_size_range bk) \<and> count_ok (total_size_range bk) \<and>
     count_ok (used_element_count_range bk) \<and> count_ok (total_element_count_range bk)"

definition bytes_of :: "ampool_state \<Rightarrow> addr list \<Rightarrow> u64" where
  "bytes_of s cs = sum_list (map (\<lambda>c. ucast (chunk_size (chunks s c))) cs)"

definition bucket_ok :: "ampool_state \<Rightarrow> (plink \<Rightarrow> addr list) \<Rightarrow> addr \<Rightarrow> nat \<Rightarrow> bool" where
  "bucket_ok s F p i \<longleftrightarrow>
     (let bk = pl_buckets (pools s p) i; v = validates (pools s p); U = F (UsedOf p i); R = F (FreeOf p i)
      in \<not> bucket_mutex bk \<and> element_size bk = step_size i \<and> bucket_stats_ok bk \<and>
         used_element_count bk = of_nat (length U) \<and> used_size bk = bytes_of s U \<and>
         (i < 32 \<longrightarrow> total_element_count bk = of_nat (length U + length R)) \<and>
         (\<forall>c \<in> set U. marked s v (data_size s i c) False c \<and> i = bucket_no (unat (chunk_size (chunks s c)))) \<and>
         (\<forall>c \<in> set R. marked s v (data_size s i c) True c) \<and> (i = 32 \<longrightarrow> R = []))"

definition pool_ok :: "ampool_state \<Rightarrow> (plink \<Rightarrow> addr list) \<Rightarrow> addr \<Rightarrow> bool" where
  "pool_ok s F p \<longleftrightarrow>
     live (pmem s) p = Some POOL_BYTES \<and> (\<forall>i < 33. bucket_ok s F p i) \<and>
     pl_size (pools s p) = (\<Sum>i < 33. used_size (pl_buckets (pools s p) i)) \<and>
     pl_element_count (pools s p) = (\<Sum>i < 33. used_element_count (pl_buckets (pools s p) i))"

definition chunks_in :: "addr set \<Rightarrow> (plink \<Rightarrow> addr list) \<Rightarrow> addr set" where
  "chunks_in P F = (\<Union>p \<in> P. \<Union>i < 33. set (F (UsedOf p i)) \<union> set (F (FreeOf p i)))"

definition pools_ok :: "ampool_state \<Rightarrow> addr set \<Rightarrow> (plink \<Rightarrow> addr list) \<Rightarrow> bool" where
  "pools_ok s P F \<longleftrightarrow>
     \<not> hierarchy_mutex s \<and> forest (plinks s) (anchors P) (plinks_of F) \<and> (\<forall>p \<in> P. pool_ok s F p) \<and>
     chunks_in P F \<inter> P = {}"

section \<open>Lists and buckets\<close>

lemma not_in_chunks:
  assumes "c \<notin> chunks_in P F" and "p \<in> P" and "i < 33"
  shows "c \<notin> set (F (UsedOf p i))" and "c \<notin> set (F (FreeOf p i))"
  using assms unfolding chunks_in_def by blast+

lemma plinks_of_upd:
  "plinks_of (F(UsedOf p i := xs)) = (plinks_of F)(UsedOf p i := map ChunkOf xs)"
  "plinks_of (F(FreeOf p i := xs)) = (plinks_of F)(FreeOf p i := map ChunkOf xs)"
  by (rule ext, rename_tac l, case_tac l, auto)+

lemma anchors_simps:
  "UsedOf p i \<in> anchors P \<longleftrightarrow> p \<in> P \<and> i < 33" "FreeOf p i \<in> anchors P \<longleftrightarrow> p \<in> P \<and> i < 33"
  "ChunkOf c \<notin> anchors P" "SiblingOf p \<notin> anchors P" "ChildrenOf p \<in> anchors P \<longleftrightarrow> p \<in> P" "RootPools \<in> anchors P"
  by (auto simp: anchors_def)

lemma not_on_lists: "c \<notin> chunks_in P F \<Longrightarrow> \<forall>l \<in> anchors P. ChunkOf c \<notin> set (plinks_of F l)"
proof
  fix l assume "c \<notin> chunks_in P F" "l \<in> anchors P"
  then show "ChunkOf c \<notin> set (plinks_of F l)" by (cases l) (auto simp: chunks_in_def anchors_simps)
qed

lemma map_remove1_ChunkOf: "remove1 (ChunkOf c) (map ChunkOf xs) = map ChunkOf (remove1 c xs)"
  by (induction xs) auto

lemma plist_add_ok:
  assumes "forest (plinks s) (anchors P) (plinks_of F)" and "p \<in> P" "i < 33" and "c \<notin> chunks_in P F"
    and l: "l = UsedOf p i \<or> l = FreeOf p i"
  shows "\<exists>h. plist_add s l (ChunkOf c) = Some (s\<lparr>plinks := h\<rparr>) \<and> forest h (anchors P) (plinks_of (F(l := c # F l)))"
proof -
  have "l \<in> anchors P" using l assms(2,3) by (auto simp: anchors_simps)
  from forest_add [OF assms(1) this anchors_simps(3) not_on_lists [OF assms(4)]] l show ?thesis
    by (auto simp: plist_add_def plinks_of_upd)
qed

lemma plist_del_ok:
  assumes "forest (plinks s) (anchors P) (plinks_of F)" and "p \<in> P" "i < 33" and "c \<in> set (F l)"
    and l: "l = UsedOf p i \<or> l = FreeOf p i"
  shows "\<exists>h. plist_del s (ChunkOf c) = Some (s\<lparr>plinks := h\<rparr>) \<and> forest h (anchors P) (plinks_of (F(l := remove1 c (F l))))"
proof -
  have "l \<in> anchors P" "ChunkOf c \<in> set (plinks_of F l)" using l assms(2-4) by (auto simp: anchors_simps)
  from forest_del [OF assms(1) this] l show ?thesis
    by (auto simp: plist_del_def plinks_of_upd map_remove1_ChunkOf)
qed

lemma plist_first_ok:
  assumes "forest (plinks s) (anchors P) (plinks_of F)" and "p \<in> P" "i < 33" and l: "l = UsedOf p i \<or> l = FreeOf p i"
  shows "amlist_empty (plinks s) l \<longleftrightarrow> F l = []" and "F l = c # cs \<Longrightarrow> amlist_first (plinks s) l = Some (ChunkOf c)"
    and "distinct (F l)"
proof -
  have a: "l \<in> anchors P" using l assms(2,3) by (auto simp: anchors_simps)
  show "amlist_empty (plinks s) l \<longleftrightarrow> F l = []" using forest_is_empty [OF assms(1) a] l by auto
  show "F l = c # cs \<Longrightarrow> amlist_first (plinks s) l = Some (ChunkOf c)"
    using forest_first [OF assms(1) a, of "ChunkOf c" "map ChunkOf cs"] l by auto
  show "distinct (F l)" using forest_distinct [OF assms(1) a] l by (auto simp: distinct_map)
qed

text \<open>No chunk is on two lists.\<close>

lemma lists_disjoint:
  assumes "forest h (anchors P) (plinks_of F)" and "p \<in> P" "i < 33" "q \<in> P" "j < 33"
  shows "set (F (UsedOf p i)) \<inter> set (F (FreeOf q j)) = {}"
    and "(p, i) \<noteq> (q, j) \<Longrightarrow> set (F (UsedOf p i)) \<inter> set (F (UsedOf q j)) = {}"
    and "(p, i) \<noteq> (q, j) \<Longrightarrow> set (F (FreeOf p i)) \<inter> set (F (FreeOf q j)) = {}"
proof -
  have d: "set (plinks_of F a) \<inter> set (plinks_of F b) = {}" if "a \<in> anchors P" "b \<in> anchors P" "a \<noteq> b" for a b
    using assms(1) that unfolding forest_def by blast
  show "set (F (UsedOf p i)) \<inter> set (F (FreeOf q j)) = {}"
    using d [of "UsedOf p i" "FreeOf q j"] assms(2-5) by (auto simp: anchors_simps)
  show "set (F (UsedOf p i)) \<inter> set (F (UsedOf q j)) = {}" if "(p, i) \<noteq> (q, j)"
    using d [of "UsedOf p i" "UsedOf q j"] assms(2-5) that by (auto simp: anchors_simps)
  show "set (F (FreeOf p i)) \<inter> set (F (FreeOf q j)) = {}" if "(p, i) \<noteq> (q, j)"
    using d [of "FreeOf p i" "FreeOf q j"] assms(2-5) that by (auto simp: anchors_simps)
qed

lemma pool_put_simps [simp]:
  "globals_magic (pool_put s p x) = globals_magic s" "hierarchy_mutex (pool_put s p x) = hierarchy_mutex s"
  "plinks (pool_put s p x) = plinks s" "pools (pool_put s p x) = (pools s)(p := x)" "chunks (pool_put s p x) = chunks s"
  "cdata (pool_put s p x) = cdata s" "pmem (pool_put s p x) = pmem s"
  by (simp_all add: pool_put_def)

lemma bucket_put_simps [simp]:
  "globals_magic (bucket_put s b x) = globals_magic s" "hierarchy_mutex (bucket_put s b x) = hierarchy_mutex s"
  "plinks (bucket_put s b x) = plinks s" "chunks (bucket_put s b x) = chunks s"
  "cdata (bucket_put s b x) = cdata s" "pmem (bucket_put s b x) = pmem s"
  "pools (bucket_put s (p, i) x) = (pools s)(p := (pools s p)\<lparr>pl_buckets := (pl_buckets (pools s p))(i := x)\<rparr>)"
  by (simp_all add: bucket_put_def)

lemma bucket_get_eq: "bucket_get s (p, i) = (if live (pmem s) p = None then None else Some (pl_buckets (pools s p) i))"
  by (simp add: bucket_get_def pool_get_def)

lemma validates_buckets [simp]: "validates (pl\<lparr>pl_buckets := f\<rparr>) = validates pl"
  by (simp add: validates_def)

text \<open>What the operations of a bucket change: the bucket, one chunk, and the counters of the pool.\<close>

definition changed :: "ampool_state \<Rightarrow> ampool_state \<Rightarrow> addr \<Rightarrow> nat \<Rightarrow> addr \<Rightarrow> bool" where
  "changed s s' p i c \<longleftrightarrow>
     globals_magic s' = globals_magic s \<and> hierarchy_mutex s' = hierarchy_mutex s \<and>
     (\<forall>q. q \<noteq> p \<longrightarrow> pools s' q = pools s q) \<and> validates (pools s' p) = validates (pools s p) \<and>
     (\<forall>j. j \<noteq> i \<longrightarrow> pl_buckets (pools s' p) j = pl_buckets (pools s p) j) \<and>
     (\<forall>d. d \<noteq> c \<longrightarrow> same_chunk s s' d)"

lemma bucket_ok_frame:
  assumes "bucket_ok s F q j" and ch: "changed s s' p i c" and "(q, j) \<noteq> (p, i)"
    and F: "F' (UsedOf q j) = F (UsedOf q j)" "F' (FreeOf q j) = F (FreeOf q j)"
    and c: "c \<notin> set (F (UsedOf q j)) \<union> set (F (FreeOf q j))"
  shows "bucket_ok s' F' q j"
proof -
  have b: "pl_buckets (pools s' q) j = pl_buckets (pools s q) j" "validates (pools s' q) = validates (pools s q)"
    using ch assms(3) by (cases "q = p"; simp add: changed_def)+
  have m: "marked s' v a free d = marked s v a free d" "chunks s' d = chunks s d" "data_size s' j d = data_size s j d"
    if "d \<in> set (F (UsedOf q j)) \<union> set (F (FreeOf q j))" for d v a free
  proof -
    have "same_chunk s s' d" using ch c that by (auto simp: changed_def)
    then show "marked s' v a free d = marked s v a free d" "chunks s' d = chunks s d" "data_size s' j d = data_size s j d"
      using marked_same [of s s' d] by (simp_all add: same_chunk_def data_size_def)
  qed
  have "bytes_of s' (F (UsedOf q j)) = bytes_of s (F (UsedOf q j))"
    using m(2) by (auto simp: bytes_of_def intro!: arg_cong [where f = sum_list] map_cong)
  then show ?thesis using assms(1) m by (simp add: bucket_ok_def Let_def b F)
qed

lemma pools_okD:
  assumes "pools_ok s P F" and "p \<in> P"
  shows "\<not> hierarchy_mutex s" "forest (plinks s) (anchors P) (plinks_of F)" "live (pmem s) p = Some POOL_BYTES"
    "i < 33 \<Longrightarrow> bucket_ok s F p i"
    "pl_size (pools s p) = (\<Sum>i < 33. used_size (pl_buckets (pools s p) i))"
    "pl_element_count (pools s p) = (\<Sum>i < 33. used_element_count (pl_buckets (pools s p) i))"
    "chunks_in P F \<inter> P = {}"
  using assms by (simp_all add: pools_ok_def pool_ok_def)

lemma pools_ok_step:
  assumes ok: "pools_ok s P F" and p: "p \<in> P" "i < 33" and ch: "changed s s' p i c" and c: "c \<notin> P"
    and fr: "forest (plinks s') (anchors P) (plinks_of F')"
    and F: "\<forall>l. l \<noteq> UsedOf p i \<and> l \<noteq> FreeOf p i \<longrightarrow> F' l = F l"
    and own: "\<forall>q \<in> P. \<forall>j < 33. (q, j) \<noteq> (p, i) \<longrightarrow> c \<notin> set (F (UsedOf q j)) \<union> set (F (FreeOf q j))"
    and sub: "set (F' (UsedOf p i)) \<union> set (F' (FreeOf p i)) \<subseteq> insert c (set (F (UsedOf p i)) \<union> set (F (FreeOf p i)))"
    and bk: "bucket_ok s' F' p i"
    and n: "pl_size (pools s' p) + used_size (pl_buckets (pools s p) i) = pl_size (pools s p) + used_size (pl_buckets (pools s' p) i)"
      "pl_element_count (pools s' p) + used_element_count (pl_buckets (pools s p) i) =
       pl_element_count (pools s p) + used_element_count (pl_buckets (pools s' p) i)"
  shows "pools_ok s' P F'"
proof -
  have b: "bucket_ok s' F' q j" if q: "q \<in> P" "j < 33" for q j
  proof (cases "(q, j) = (p, i)")
    case False
    then show ?thesis using bucket_ok_frame [OF pools_okD(4) [OF ok q] ch False, of F'] F own q by auto
  qed (use bk in simp)
  have l: "live (pmem s') q = Some POOL_BYTES" if "q \<in> P" for q
    using pools_okD(3) [OF ok that] ch c that by (auto simp: changed_def same_chunk_def)
  have bu: "pl_buckets (pools s' p) = (pl_buckets (pools s p))(i := pl_buckets (pools s' p) i)"
    using ch by (auto simp: changed_def fun_eq_iff)
  have sums: "pl_size (pools s' q) = (\<Sum>i < 33. used_size (pl_buckets (pools s' q) i)) \<and>
      pl_element_count (pools s' q) = (\<Sum>i < 33. used_element_count (pl_buckets (pools s' q) i))" if "q \<in> P" for q
  proof (cases "q = p")
    case True
    have "(\<Sum>j < 33. used_size (pl_buckets (pools s' p) j)) + used_size (pl_buckets (pools s p) i) =
        pl_size (pools s' p) + used_size (pl_buckets (pools s p) i)"
      using sum_upd [OF p(2), of used_size "pl_buckets (pools s p)" "pl_buckets (pools s' p) i"] bu n(1)
      by (simp add: pools_okD(5) [OF ok p(1)])
    moreover have "(\<Sum>j < 33. used_element_count (pl_buckets (pools s' p) j)) + used_element_count (pl_buckets (pools s p) i) =
        pl_element_count (pools s' p) + used_element_count (pl_buckets (pools s p) i)"
      using sum_upd [OF p(2), of used_element_count "pl_buckets (pools s p)" "pl_buckets (pools s' p) i"] bu n(2)
      by (simp add: pools_okD(6) [OF ok p(1)])
    ultimately show ?thesis unfolding True add_right_cancel by simp
  next
    case False
    then have "pools s' q = pools s q" using ch by (simp add: changed_def)
    then show ?thesis using pools_okD(5,6) [OF ok that] by simp
  qed
  have "set (F' (UsedOf q j)) \<union> set (F' (FreeOf q j)) \<subseteq> insert c (set (F (UsedOf q j)) \<union> set (F (FreeOf q j)))" for q j
    using sub F by (cases "(q, j) = (p, i)") auto
  then have "chunks_in P F' \<subseteq> insert c (chunks_in P F)" unfolding chunks_in_def by blast
  then have d: "chunks_in P F' \<inter> P = {}" using pools_okD(7) [OF ok p(1)] c by blast
  have "hierarchy_mutex s' = hierarchy_mutex s" using ch by (simp add: changed_def)
  then show ?thesis using ok b l sums d fr by (simp add: pools_ok_def pool_ok_def)
qed

lemma step_size_word:
  assumes "i < 32"
  shows "unat (ucast (step_size i) :: u32) = 16 * (i + 1)" and "0 < step_size i"
proof -
  have b: "16 * (i + 1) \<le> 512" using assms by simp
  have u: "unat (step_size i) = 16 * (i + 1)"
    using assms b unat_of_nat_fits [of "16 * (i + 1)"] by (simp add: step_size_def)
  show "unat (ucast (step_size i) :: u32) = 16 * (i + 1)"
    using u b by (simp add: unsigned_ucast_eq take_bit_nat_eq_self)
  show "0 < step_size i" using u by (simp add: word_less_nat_alt)
qed

lemma malloc_size_ok:
  assumes "element_size bk = step_size i" and "i < 32 \<or> unat sz \<le> 2 ^ 32 - 16"
  shows "unat (malloc_size bk sz) = room i (unat sz)"
proof (cases "i < 32")
  case True
  have "(ucast (step_size i) :: u32) \<noteq> 0" using step_size_word(1) [OF True] by auto
  then show ?thesis using step_size_word(1) [OF True] assms(1) True by (simp add: malloc_size_def room_def)
next
  case False
  then show ?thesis using assms by (simp add: malloc_size_def room_def step_size_def unat_align)
qed

lemma size_assertions_ok:
  assumes e: "element_size bk = step_size i" and i: "i = bucket_no (unat sz)" and sz: "0 < unat sz" "unat sz \<le> 2 ^ 32 - 16"
  shows "size_assertions bk (malloc_size bk sz) sz"
proof -
  have r: "unat (malloc_size bk sz) = room i (unat sz)" by (rule malloc_size_ok [OF e]) (use sz in simp)
  have b: "unat sz \<le> room i (unat sz)" "room i (unat sz) < unat sz + 16" using room_bounds [OF sz(1)] i by simp_all
  have "16 \<le> room i (unat sz)" using aligned_bounds(3) [OF sz(1)] by (simp add: room_def)
  then have "unat (malloc_size bk sz - AMPOOL_ALIGN) = room i (unat sz) - 16"
    using r by (simp add: unat_sub word_le_nat_alt AMPOOL_ALIGN_def)
  then have "malloc_size bk sz - AMPOOL_ALIGN < sz" using b sz(1) by (simp add: word_less_nat_alt)
  moreover have "sz \<le> AMPOOL_MAX_STEPPED \<longleftrightarrow> i < 32" "sz > AMPOOL_MAX_STEPPED \<longleftrightarrow> \<not> i < 32"
    using i by (auto simp: word_less_nat_alt word_le_nat_alt AMPOOL_MAX_STEPPED_def AMPOOL_ALIGN_def AMPOOL_STEP_COUNT_def bucket_no_def)
  moreover have "element_size bk > 0 \<longleftrightarrow> i < 32" "element_size bk = 0 \<longleftrightarrow> \<not> i < 32"
    using step_size_word(2) [of i] e by (auto simp: step_size_def)
  moreover have "sz \<le> malloc_size bk sz" using r b by (simp add: word_le_nat_alt)
  ultimately show ?thesis by (simp add: size_assertions_def)
qed

lemma count_new_ok:
  assumes "bucket_stats_ok bk"
  shows "\<exists>rn rz. count_new bk sz = Some (bk\<lparr>total_element_count := total_element_count bk + 1, total_element_count_range := rn,
      total_size := total_size bk + ucast sz, total_size_range := rz\<rparr>) \<and> count_ok rn \<and> count_ok rz"
proof -
  from assms amstat_upd_total obtain rn rz where
    "amstat_upd (total_element_count_range bk) (total_element_count bk + 1) = Some rn" "snum rn \<noteq> 0"
    "amstat_upd (total_size_range bk) (total_size bk + ucast sz) = Some rz" "snum rz \<noteq> 0"
    unfolding bucket_stats_ok_def by metis
  then show ?thesis by (intro exI [of _ rn] exI [of _ rz]) (simp add: count_new_def Let_def count_ok_def)
qed

lemma count_used_ok:
  assumes "bucket_stats_ok bk"
  shows "\<exists>rn rz. count_used bk n z = Some (bk\<lparr>used_element_count := n, used_element_count_range := rn,
      used_size := z, used_size_range := rz\<rparr>) \<and> count_ok rn \<and> count_ok rz"
proof -
  from assms amstat_upd_total obtain rn rz where
    "amstat_upd (used_element_count_range bk) n = Some rn" "snum rn \<noteq> 0"
    "amstat_upd (used_size_range bk) z = Some rz" "snum rz \<noteq> 0"
    unfolding bucket_stats_ok_def by metis
  then show ?thesis by (intro exI [of _ rn] exI [of _ rz]) (simp add: count_used_def count_ok_def)
qed

lemma bucket_okD:
  assumes "bucket_ok s F p i"
  shows "\<not> bucket_mutex (pl_buckets (pools s p) i)" "element_size (pl_buckets (pools s p) i) = step_size i"
    "bucket_stats_ok (pl_buckets (pools s p) i)"
    "used_element_count (pl_buckets (pools s p) i) = of_nat (length (F (UsedOf p i)))"
    "used_size (pl_buckets (pools s p) i) = bytes_of s (F (UsedOf p i))"
    "i < 32 \<Longrightarrow> total_element_count (pl_buckets (pools s p) i) = of_nat (length (F (UsedOf p i)) + length (F (FreeOf p i)))"
    "c \<in> set (F (UsedOf p i)) \<Longrightarrow> marked s (validates (pools s p)) (data_size s i c) False c"
    "c \<in> set (F (UsedOf p i)) \<Longrightarrow> i = bucket_no (unat (chunk_size (chunks s c)))"
    "c \<in> set (F (FreeOf p i)) \<Longrightarrow> marked s (validates (pools s p)) (data_size s i c) True c"
    "i = 32 \<Longrightarrow> F (FreeOf p i) = []"
  using assms by (simp_all add: bucket_ok_def Let_def)

lemma chunk_live: "pools_ok s P F \<Longrightarrow> c \<in> chunks_in P F \<Longrightarrow> live (pmem s) c \<noteq> None"
proof -
  assume ok: "pools_ok s P F" and c: "c \<in> chunks_in P F"
  then obtain q j where q: "q \<in> P" "j < 33" "c \<in> set (F (UsedOf q j)) \<union> set (F (FreeOf q j))"
    unfolding chunks_in_def by blast
  from bucket_okD(7,9) [OF pools_okD(4) [OF ok q(1,2)], of c] q(3) show ?thesis
    by (auto simp: marked_def chunk_ok_def)
qed

text \<open>Taking a chunk off the free list or from \<^verbatim>\<open>malloc\<close>, under the lock.\<close>

lemma bucket_take_ok:
  assumes ok: "pools_ok s P F" and p: "p \<in> P" "i < 33" and al: "malloc_spec alloc"
    and sz: "unat sz \<le> 2 ^ 32 - 16"
  defines "bk \<equiv> pl_buckets (pools s p) i" and "F' \<equiv> F(FreeOf p i := tl (F (FreeOf p i)))"
  shows "\<exists>r s'. bucket_take alloc (bucket_put s (p, i) (bk\<lparr>bucket_mutex := True\<rparr>)) (p, i) (malloc_size bk sz) sz (validates (pools s p)) =
      Some (r, s') \<and>
    (case r of
       None \<Rightarrow> F (FreeOf p i) = [] \<and> (\<exists>m. s' = (bucket_put s (p, i) (bk\<lparr>bucket_mutex := True\<rparr>))\<lparr>pmem := m\<rparr> \<and> live m = live (pmem s))
     | Some c \<Rightarrow> (\<exists>bk' h m. s' = (bucket_put s (p, i) bk')\<lparr>plinks := h, pmem := m\<rparr> \<and>
         bucket_mutex bk' \<and> element_size bk' = step_size i \<and> bucket_stats_ok bk' \<and>
         used_element_count bk' = used_element_count bk \<and> used_size bk' = used_size bk \<and>
         (i < 32 \<longrightarrow> total_element_count bk' = of_nat (Suc (length (F' (UsedOf p i)) + length (F' (FreeOf p i))))) \<and>
         forest h (anchors P) (plinks_of F') \<and> c \<notin> chunks_in P F' \<and> c \<notin> P \<and>
         (F (FreeOf p i) = [] \<and> live (pmem s) c = None \<or> F (FreeOf p i) = c # tl (F (FreeOf p i))) \<and>
         map_option unat (live m c) = Some (CHUNK_BYTES + room i (unat sz)) \<and> (\<forall>d. d \<noteq> c \<longrightarrow> live m d = live (pmem s) d)))"
proof -
  note b = bucket_okD [OF pools_okD(4) [OF ok p], folded bk_def]
  note fr = pools_okD(2) [OF ok p(1)]
  have e: "element_size bk = step_size i" by (rule b(2))
  have r: "unat (malloc_size bk sz) = room i (unat sz)" by (rule malloc_size_ok [OF e]) (use sz in simp)
  have live: "live (pmem s) p = Some POOL_BYTES" by (rule pools_okD(3) [OF ok p(1)])
  have st: "bucket_stats_ok (bk\<lparr>bucket_mutex := True\<rparr>)" using b(3) by (simp add: bucket_stats_ok_def)
  let ?s = "bucket_put s (p, i) (bk\<lparr>bucket_mutex := True\<rparr>)"
  show ?thesis
  proof (cases "F (FreeOf p i)")
    case Nil
    have e0: "amlist_empty (plinks ?s) (FreeOf p i)" using plist_first_ok(1) [OF fr p] Nil by simp
    have F': "F' = F" using Nil by (auto simp: F'_def)
    show ?thesis
    proof (cases "malloc alloc (of_nat CHUNK_BYTES + ucast (malloc_size bk sz)) (pmem s)")
      case (Pair x m)
      show ?thesis
      proof (cases x)
        case None
        with Pair malloc_None [of alloc _ "pmem s" m] e0 Nil show ?thesis
          by (intro exI [of _ None] exI) (auto simp: bucket_take_def)
      next
        case (Some c)
        note ml = malloc_Some [OF al Pair [unfolded Some]]
        have "unat (of_nat CHUNK_BYTES + ucast (malloc_size bk sz) :: u64) = CHUNK_BYTES + room i (unat sz)"
        proof -
          have "room i (unat sz) < 2 ^ 32" using r unsigned_less [where 'b = 32 and 'a = nat and w = "malloc_size bk sz"] by simp
          moreover from this have "unat (ucast (malloc_size bk sz) :: u64) = room i (unat sz)"
            using r by (simp add: unsigned_ucast_eq take_bit_nat_eq_self)
          ultimately show ?thesis using plus_fits(1) [of "of_nat CHUNK_BYTES" "ucast (malloc_size bk sz)"]
            by (simp add: CHUNK_BYTES_def)
        qed
        with ml(2) have lc: "map_option unat (live m c) = Some (CHUNK_BYTES + room i (unat sz))" by simp
        from count_new_ok [OF st, of sz] obtain rn rz where
          cn: "count_new (bk\<lparr>bucket_mutex := True\<rparr>) sz = Some (bk\<lparr>bucket_mutex := True, total_element_count := total_element_count bk + 1,
             total_element_count_range := rn, total_size := total_size bk + ucast sz, total_size_range := rz\<rparr>)"
          "count_ok rn" "count_ok rz" by auto
        let ?bk = "bk\<lparr>bucket_mutex := True, total_element_count := total_element_count bk + 1,
             total_element_count_range := rn, total_size := total_size bk + ucast sz, total_size_range := rz\<rparr>"
        have pc: "p \<noteq> c" using ml(1) live by auto
        have "bucket_take alloc ?s (p, i) (malloc_size bk sz) sz (validates (pools s p)) =
            Some (Some c, (bucket_put s (p, i) ?bk)\<lparr>plinks := plinks s, pmem := m\<rparr>)"
          using e0 Pair Some cn(1) live ml(2) pc
          by (simp add: bucket_take_def bucket_get_eq)
        moreover have "c \<notin> chunks_in P F" using chunk_live [OF ok, of c] ml(1) by auto
        moreover have "c \<notin> P" using pools_okD(3) [OF ok, of c] ml(1) by auto
        moreover have "bucket_stats_ok ?bk" using b(3) cn(2,3) by (simp add: bucket_stats_ok_def)
        ultimately show ?thesis
          using e b(6) fr lc ml(1,2) Nil
          by (intro exI [of _ "Some c"] exI [of _ "(bucket_put s (p, i) ?bk)\<lparr>plinks := plinks s, pmem := m\<rparr>"] conjI)
            (simp_all add: F', intro exI [of _ ?bk] exI [of _ "plinks s"] exI [of _ m], simp)
      qed
    qed
  next
    case (Cons c cs)
    have e0: "\<not> amlist_empty (plinks ?s) (FreeOf p i)" "amlist_first (plinks ?s) (FreeOf p i) = Some (ChunkOf c)"
      using plist_first_ok(1,2) [OF fr p] Cons by auto
    have i: "i < 32" using b(10) Cons p(2) by (cases "i = 32") auto
    have F': "F(FreeOf p i := remove1 c (F (FreeOf p i))) = F'" by (simp add: F'_def Cons)
    have c: "c \<in> set (F (FreeOf p i))" using Cons by simp
    have fr': "forest (plinks ?s) (anchors P) (plinks_of F)" using fr by simp
    from plist_del_ok [OF fr' p c] obtain h where
      h: "plist_del ?s (ChunkOf c) = Some (?s\<lparr>plinks := h\<rparr>)" "forest h (anchors P) (plinks_of F')"
      unfolding F' by auto
    have m: "marked s (validates (pools s p)) (data_size s i c) True c" by (rule b(9) [OF c, folded bk_def])
    have d: "data_size s i c = room i (unat sz)" using i by (simp add: data_size_def room_def)
    have sc: "same_chunk s (?s\<lparr>plinks := h\<rparr>) c" by (simp add: same_chunk_def)
    have mk: "chunk_ok (?s\<lparr>plinks := h\<rparr>) (room i (unat sz)) c" "marked (?s\<lparr>plinks := h\<rparr>) (validates (pools s p)) (room i (unat sz)) True c"
      unfolding marked_same [OF sc] using m unfolding d by (auto simp: marked_def)
    have t: "chunk_magic_test (?s\<lparr>plinks := h\<rparr>) c (malloc_size bk sz) True (validates (pools s p)) (validates (pools s p)) = Some ()"
      using magic_test_eq [OF mk(1) r, of True "validates (pools s p)"] mk(2) by simp
    have "c \<notin> chunks_in P F'"
    proof
      assume "c \<in> chunks_in P F'"
      then obtain q j where q: "q \<in> P" "j < 33" "c \<in> set (F' (UsedOf q j)) \<union> set (F' (FreeOf q j))"
        unfolding chunks_in_def by blast
      have "c \<notin> set (F (UsedOf q j))" using lists_disjoint(1) [OF fr q(1,2) p] c by auto
      moreover have "(q, j) \<noteq> (p, i) \<Longrightarrow> c \<notin> set (F (FreeOf q j))" using lists_disjoint(3) [OF fr q(1,2) p] c by auto
      moreover have "c \<notin> set cs" using plist_first_ok(3) [OF fr p, of "FreeOf p i"] Cons by simp
      ultimately show False using q(3) Cons by (cases "(q, j) = (p, i)") (auto simp: F'_def)
    qed
    moreover have "c \<notin> P" using pools_okD(7) [OF ok p(1)] p c unfolding chunks_in_def by blast
    moreover have "map_option unat (live (pmem s) c) = Some (CHUNK_BYTES + room i (unat sz))"
      using m d by (simp add: marked_def chunk_ok_def)
    moreover have "bucket_take alloc ?s (p, i) (malloc_size bk sz) sz (validates (pools s p)) =
        Some (Some c, (bucket_put s (p, i) (bk\<lparr>bucket_mutex := True\<rparr>))\<lparr>plinks := h, pmem := pmem s\<rparr>)"
      using e0 h(1) t by (simp add: bucket_take_def)
    ultimately show ?thesis
      using h(2) e st b(6) [OF i] i Cons
      by (intro exI [of _ "Some c"] exI [of _ "(bucket_put s (p, i) (bk\<lparr>bucket_mutex := True\<rparr>))\<lparr>plinks := h, pmem := pmem s\<rparr>"] conjI)
        (simp_all add: F'_def, intro exI [of _ "bk\<lparr>bucket_mutex := True\<rparr>"] exI [of _ h] exI [of _ "pmem s"], simp)
  qed
qed

section \<open>Allocation\<close>

text \<open>The chunk \<open>c\<close> went from the front of the free list, or from \<^verbatim>\<open>malloc\<close>, into use.\<close>

definition into_use :: "addr \<Rightarrow> nat \<Rightarrow> addr \<Rightarrow> (plink \<Rightarrow> addr list) \<Rightarrow> plink \<Rightarrow> addr list" where
  "into_use p i c F = F(FreeOf p i := tl (F (FreeOf p i)), UsedOf p i := c # F (UsedOf p i))"

definition allocated :: "ampool_state \<Rightarrow> ampool_state \<Rightarrow> addr set \<Rightarrow> (plink \<Rightarrow> addr list) \<Rightarrow> addr \<Rightarrow> nat \<Rightarrow> addr \<Rightarrow> u32 \<Rightarrow> bool" where
  "allocated s s' P F p i c sz \<longleftrightarrow>
     changed s s' p i c \<and> c \<notin> P \<and> c \<notin> chunks_in P (F(FreeOf p i := tl (F (FreeOf p i)))) \<and>
     (F (FreeOf p i) = [] \<and> live (pmem s) c = None \<or> F (FreeOf p i) = c # tl (F (FreeOf p i))) \<and>
     forest (plinks s') (anchors P) (plinks_of (into_use p i c F)) \<and> bucket_ok s' (into_use p i c F) p i \<and>
     used_size (pl_buckets (pools s' p) i) = used_size (pl_buckets (pools s p) i) + ucast sz \<and>
     used_element_count (pl_buckets (pools s' p) i) = used_element_count (pl_buckets (pools s p) i) + 1 \<and>
     chunk_size (chunks s' c) = sz \<and> (\<forall>k < min (unat sz) 1024. cdata s' c k = 0)"

lemma bytes_of_cong: "\<forall>c \<in> set cs. chunks s' c = chunks s c \<Longrightarrow> bytes_of s' cs = bytes_of s cs"
  by (auto simp: bytes_of_def intro!: arg_cong [where f = sum_list] map_cong)

lemma bucket_alloc_ok:
  assumes ok: "pools_ok s P F" and p: "p \<in> P" and al: "malloc_spec alloc"
    and sz: "0 < unat sz" "unat sz \<le> 2 ^ 32 - 16"
  defines "i \<equiv> bucket_no (unat sz)"
  shows "\<exists>r s'. bucket_alloc alloc s (p, i) sz name (validates (pools s p)) = Some (r, s') \<and>
    (case r of
       None \<Rightarrow> F (FreeOf p i) = [] \<and> (\<exists>m. s' = s\<lparr>pmem := m\<rparr> \<and> live m = live (pmem s))
     | Some c \<Rightarrow> allocated s s' P F p i c sz \<and> chunk_name (chunks s' c) = name \<and>
         pl_size (pools s' p) = pl_size (pools s p) \<and> pl_element_count (pools s' p) = pl_element_count (pools s p))"
proof -
  define bk where "bk = pl_buckets (pools s p) i"
  let ?v = "validates (pools s p)" and ?a = "room i (unat sz)"
  have i: "i < 33" using bucket_no_le [of "unat sz"] by (simp add: i_def)
  note b = bucket_okD [OF pools_okD(4) [OF ok p i], folded bk_def]
  have r: "unat (malloc_size bk sz) = ?a" by (rule malloc_size_ok [OF b(2)]) (use sz in simp)
  have as: "size_assertions bk (malloc_size bk sz) sz" by (rule size_assertions_ok [OF b(2) i_def [THEN meta_eq_to_obj_eq] sz])
  have live: "live (pmem s) p = Some POOL_BYTES" by (rule pools_okD(3) [OF ok p])
  have same: "bk\<lparr>bucket_mutex := False\<rparr> = bk" using b(1) by simp
  let ?s = "bucket_put s (p, i) (bk\<lparr>bucket_mutex := True\<rparr>)"
  have lock: "bucket_lock s (p, i) = Some ?s" using b(1) live by (simp add: bucket_lock_def bucket_get_eq bk_def)
  from bucket_take_ok [OF ok p i al sz(2), folded bk_def] obtain r s2 where
    take: "bucket_take alloc ?s (p, i) (malloc_size bk sz) sz ?v = Some (r, s2)" and
    t: "case r of
       None \<Rightarrow> F (FreeOf p i) = [] \<and> (\<exists>m. s2 = ?s\<lparr>pmem := m\<rparr> \<and> live m = live (pmem s))
     | Some c \<Rightarrow> (\<exists>bk' h m. s2 = (bucket_put s (p, i) bk')\<lparr>plinks := h, pmem := m\<rparr> \<and>
         bucket_mutex bk' \<and> element_size bk' = step_size i \<and> bucket_stats_ok bk' \<and>
         used_element_count bk' = used_element_count bk \<and> used_size bk' = used_size bk \<and>
         (i < 32 \<longrightarrow> total_element_count bk' = of_nat (Suc (length ((F(FreeOf p i := tl (F (FreeOf p i)))) (UsedOf p i)) +
            length ((F(FreeOf p i := tl (F (FreeOf p i)))) (FreeOf p i))))) \<and>
         forest h (anchors P) (plinks_of (F(FreeOf p i := tl (F (FreeOf p i))))) \<and>
         c \<notin> chunks_in P (F(FreeOf p i := tl (F (FreeOf p i)))) \<and> c \<notin> P \<and>
         (F (FreeOf p i) = [] \<and> live (pmem s) c = None \<or> F (FreeOf p i) = c # tl (F (FreeOf p i))) \<and>
         map_option unat (live m c) = Some (CHUNK_BYTES + ?a) \<and> (\<forall>d. d \<noteq> c \<longrightarrow> live m d = live (pmem s) d))"
    by blast
  have get: "bucket_get s (p, i) = Some bk" using live by (simp add: bucket_get_eq bk_def)
  show ?thesis
  proof (cases r)
    case None
    with t obtain m where m: "s2 = ?s\<lparr>pmem := m\<rparr>" "live m = live (pmem s)" "F (FreeOf p i) = []" by auto
    have "bucket_unlock s2 (p, i) = Some (s\<lparr>pmem := m\<rparr>)"
      using live same m by (simp add: bucket_unlock_def bucket_get_eq) (simp add: bucket_put_def pool_put_def bk_def)
    then have "bucket_alloc alloc s (p, i) sz name ?v = Some (None, s\<lparr>pmem := m\<rparr>)"
      using get as lock take None by (simp add: bucket_alloc_def Let_def)
    with m show ?thesis by (intro exI [of _ None] exI [of _ "s\<lparr>pmem := m\<rparr>"]) auto
  next
    case (Some c)
    let ?G = "F(FreeOf p i := tl (F (FreeOf p i)))"
    from t Some obtain bk' h m where s2: "s2 = (bucket_put s (p, i) bk')\<lparr>plinks := h, pmem := m\<rparr>" and
      b': "bucket_mutex bk'" "element_size bk' = step_size i" "bucket_stats_ok bk'"
        "used_element_count bk' = used_element_count bk" "used_size bk' = used_size bk"
        "i < 32 \<longrightarrow> total_element_count bk' = of_nat (Suc (length (?G (UsedOf p i)) + length (?G (FreeOf p i))))" and
      h: "forest h (anchors P) (plinks_of ?G)" and c: "c \<notin> chunks_in P ?G" "c \<notin> P"
        "F (FreeOf p i) = [] \<and> live (pmem s) c = None \<or> F (FreeOf p i) = c # tl (F (FreeOf p i))" and
      m: "map_option unat (live m c) = Some (CHUNK_BYTES + ?a)" "\<forall>d. d \<noteq> c \<longrightarrow> live m d = live (pmem s) d" by auto
    have pc: "p \<noteq> c" using c(2) p by auto
    have lm: "live m p = Some POOL_BYTES" using m(2) live pc by simp
    have "forest (plinks s2) (anchors P) (plinks_of ?G)" using h s2 by simp
    from plist_add_ok [OF this p i c(1), of "UsedOf p i"] obtain h2 where
      h2: "plist_add s2 (UsedOf p i) (ChunkOf c) = Some (s2\<lparr>plinks := h2\<rparr>)"
        "forest h2 (anchors P) (plinks_of (into_use p i c F))" by (auto simp: into_use_def)
    from count_used_ok [OF b'(3), of "used_element_count bk' + 1" "used_size bk' + ucast sz"] obtain rn rz where
      cu: "count_used bk' (used_element_count bk' + 1) (used_size bk' + ucast sz) =
        Some (bk'\<lparr>used_element_count := used_element_count bk' + 1, used_element_count_range := rn,
          used_size := used_size bk' + ucast sz, used_size_range := rz\<rparr>)" "count_ok rn" "count_ok rz" by blast
    define bk2 where "bk2 = bk'\<lparr>used_element_count := used_element_count bk' + 1,
      used_element_count_range := rn, used_size := used_size bk' + ucast sz, used_size_range := rz, bucket_mutex := False\<rparr>"
    define s3 where "s3 = bucket_put (s\<lparr>pmem := m, plinks := h2\<rparr>) (p, i) bk2"
    have un: "bucket_unlock (bucket_put (s2\<lparr>plinks := h2\<rparr>) (p, i)
        (bk'\<lparr>used_element_count := used_element_count bk' + 1, used_element_count_range := rn,
          used_size := used_size bk' + ucast sz, used_size_range := rz\<rparr>)) (p, i) = Some s3"
      using lm by (simp add: bucket_unlock_def bucket_get_eq s2) (simp add: s3_def bk2_def bucket_put_def pool_put_def)
    have g2: "bucket_get (s2\<lparr>plinks := h2\<rparr>) (p, i) = Some bk'" using lm by (simp add: bucket_get_eq s2)
    have lc: "chunk_get s3 c = Some (chunks s c)" using m(1) by (auto simp: chunk_get_def s3_def)
    define s4 where "s4 = chunk_put s3 c ((chunks s c)\<lparr>chunk_name := name, chunk_size := sz\<rparr>)"
    have sa: "unat sz \<le> ?a" using room_bounds(1) [OF sz(1)] by (simp add: i_def)
    have a: "?a \<le> 2 ^ 32 - 16"
    proof (cases "i < 32")
      case False
      have "aligned (unat sz) \<le> 2 ^ 32 - 16" using sz(2) by (simp add: aligned_def)
      with False show ?thesis by (simp add: room_def)
    qed (simp add: room_def)
    have co: "chunk_ok s4 ?a c" using m(1) sz sa a by (simp add: chunk_ok_def s4_def s3_def)
    from magic_set_ok [OF co r, of False ?v] obtain f where
      f: "chunk_magic_set s4 c (malloc_size bk sz) True ?v ?v =
        Some (with_bytes (chunk_put s4 c ((chunks s4 c)\<lparr>chunk_magic := magic_of s4 False\<rparr>)) c f)"
      "marked (with_bytes (chunk_put s4 c ((chunks s4 c)\<lparr>chunk_magic := magic_of s4 False\<rparr>)) c f) ?v ?a False c"
      by (auto simp: Let_def)
    define s5 where "s5 = with_bytes (chunk_put s4 c ((chunks s4 c)\<lparr>chunk_magic := magic_of s4 False\<rparr>)) c f"
    have co5: "chunk_ok s5 ?a c" using f(2) unfolding marked_def s5_def by blast
    have mn: "unat (min sz AMPOOL_MAX_MEMSET) = min (unat sz) 1024"
      by (simp add: min_def word_le_nat_alt AMPOOL_MAX_MEMSET_def)
    define s6 where "s6 = with_bytes s5 c (\<lambda>j. if j < min (unat sz) 1024 then 0 else cdata s5 c j)"
    have fill: "bytes_fill s5 c 0 (unat (min sz AMPOOL_MAX_MEMSET)) 0 = Some s6"
      unfolding mn using bytes_fill_ok [OF chunk_range_in [OF co5, of 0 "min (unat sz) 1024"], of 0] sa by (simp add: s6_def)
    have run: "bucket_alloc alloc s (p, i) sz name ?v = Some (Some c, s6)"
      using get as lock take Some h2(1) g2 cu(1) un lc f(1) fill
      by (simp add: bucket_alloc_def Let_def s4_def [symmetric] s5_def [symmetric])
    have m5: "marked s5 ?v ?a False c" "chunk_size (chunks s5 c) = sz"
      using f(2) by (simp_all only: s5_def) (simp add: s4_def)
    have mk: "marked s6 ?v ?a False c"
      using m5 sa by (auto simp: s6_def marked_def chunk_ok_def guarded_def)
    have ch: "changed s s6 p i c"
      using m(2) by (auto simp: changed_def s6_def s5_def s4_def s3_def same_chunk_def)
    have cs: "chunk_size (chunks s6 c) = sz" by (simp add: s6_def s5_def s4_def)
    have pb: "pl_buckets (pools s6 p) i = bk2" "validates (pools s6 p) = ?v"
      by (simp_all add: s6_def s5_def s4_def s3_def)
    have nU: "c \<notin> set (F (UsedOf p i))" "c \<notin> set (tl (F (FreeOf p i)))"
      using not_in_chunks [OF c(1) p i] by simp_all
    have sc: "same_chunk s s6 d" if "d \<noteq> c" for d using ch that by (simp add: changed_def)
    have ds: "data_size s6 i d = data_size s i d" "chunks s6 d = chunks s d" "marked s6 v' a' fr d = marked s v' a' fr d"
      if "d \<noteq> c" for d v' a' fr
      using sc [OF that] marked_same [OF sc [OF that]] by (simp_all add: data_size_def same_chunk_def)
    have bsame: "bytes_of s6 (F (UsedOf p i)) = bytes_of s (F (UsedOf p i))"
      by (rule bytes_of_cong) (use ds(2) nU in metis)
    have tls: "set (tl (F (FreeOf p i))) \<subseteq> set (F (FreeOf p i))" by (cases "F (FreeOf p i)") auto
    have "bucket_ok s6 (into_use p i c F) p i"
      unfolding bucket_ok_def Let_def pb
    proof (intro conjI ballI impI)
      show "marked s6 ?v (data_size s6 i d) False d" if "d \<in> set (into_use p i c F (UsedOf p i))" for d
        using that mk b(7) [of d, folded bk_def] nU ds [of d] cs by (cases "d = c") (auto simp: into_use_def data_size_def)
      show "i = bucket_no (unat (chunk_size (chunks s6 d)))" if "d \<in> set (into_use p i c F (UsedOf p i))" for d
        using that b(8) [of d] nU ds [of d] cs by (cases "d = c") (auto simp: into_use_def i_def)
      show "marked s6 ?v (data_size s6 i d) True d" if "d \<in> set (into_use p i c F (FreeOf p i))" for d
        using that b(9) [of d, folded bk_def] nU ds [of d] tls by (cases "d = c") (auto simp: into_use_def)
      show "used_element_count bk2 = of_nat (length (into_use p i c F (UsedOf p i)))"
        using b(4) b'(4) by (simp add: bk2_def into_use_def)
      show "used_size bk2 = bytes_of s6 (into_use p i c F (UsedOf p i))"
        using b(5) b'(5) bsame cs by (simp add: bk2_def into_use_def bytes_of_def)
      show "total_element_count bk2 = of_nat (length (into_use p i c F (UsedOf p i)) + length (into_use p i c F (FreeOf p i)))"
        if "i < 32" using b'(6) that by (simp add: bk2_def into_use_def)
    qed (use b' b(10) cu in \<open>auto simp: bk2_def bucket_stats_ok_def into_use_def\<close>)
    moreover have "\<forall>k < min (unat sz) 1024. cdata s6 c k = 0" by (simp add: s6_def)
    moreover have "forest (plinks s6) (anchors P) (plinks_of (into_use p i c F))"
      using h2(2) by (simp add: s6_def s5_def s4_def s3_def)
    moreover have "used_size bk2 = used_size bk + ucast sz" "used_element_count bk2 = used_element_count bk + 1"
      using b' by (simp_all add: bk2_def)
    ultimately have "allocated s s6 P F p i c sz"
      using ch c cs pb(1) by (simp add: allocated_def bk_def)
    moreover have "chunk_name (chunks s6 c) = name" "pl_size (pools s6 p) = pl_size (pools s p)"
      "pl_element_count (pools s6 p) = pl_element_count (pools s p)"
      by (simp_all add: s6_def s5_def s4_def s3_def)
    ultimately show ?thesis using run by (intro exI [of _ "Some c"] exI [of _ s6]) simp
  qed
qed

lemma bucket_ok_counters:
  "bucket_ok (pool_put s p ((pools s p)\<lparr>pl_size := n, pl_element_count := m\<rparr>)) F p i = bucket_ok s F p i"
proof -
  let ?t = "pool_put s p ((pools s p)\<lparr>pl_size := n, pl_element_count := m\<rparr>)"
  have "same_chunk s ?t c" for c by (simp add: same_chunk_def)
  then have "marked ?t v a free c = marked s v a free c" for v a free c by (rule marked_same)
  moreover have "data_size ?t i c = data_size s i c" for c by (simp add: data_size_def)
  moreover have "bytes_of ?t cs = bytes_of s cs" for cs by (simp add: bytes_of_def)
  moreover have "validates ((pools s p)\<lparr>pl_size := n, pl_element_count := m\<rparr>) = validates (pools s p)"
    by (simp add: validates_def)
  ultimately show ?thesis by (simp add: bucket_ok_def Let_def)
qed

lemma changed_counters:
  "changed s t p i c \<Longrightarrow> changed s (pool_put t p ((pools t p)\<lparr>pl_size := n, pl_element_count := m\<rparr>)) p i c"
  by (auto simp: changed_def same_chunk_def validates_def)

text \<open>The data a client can reach in a pool: the bytes behind each pointer it holds.\<close>

definition view :: "ampool_state \<Rightarrow> (plink \<Rightarrow> addr list) \<Rightarrow> addr \<Rightarrow> addr \<rightharpoonup> u8 list" where
  "view s F p ptr =
     (if CHUNK_BYTES \<le> ptr \<and> (\<exists>i < 33. ptr - CHUNK_BYTES \<in> set (F (UsedOf p i)))
      then Some (map (cdata s (ptr - CHUNK_BYTES)) [0 ..< unat (chunk_size (chunks s (ptr - CHUNK_BYTES)))]) else None)"

lemma view_chunk:
  "view s F p (c + CHUNK_BYTES) =
     (if \<exists>i < 33. c \<in> set (F (UsedOf p i)) then Some (map (cdata s c) [0 ..< unat (chunk_size (chunks s c))]) else None)"
  by (simp add: view_def)

lemma view_eqI:
  assumes "\<And>c. view s F p (c + CHUNK_BYTES) = v (c + CHUNK_BYTES)" and "\<And>ptr. ptr < CHUNK_BYTES \<Longrightarrow> v ptr = None"
  shows "view s F p = v"
proof
  fix ptr
  show "view s F p ptr = v ptr"
  proof (cases "CHUNK_BYTES \<le> ptr")
    case True
    then show ?thesis using assms(1) [of "ptr - CHUNK_BYTES"] by simp
  next
    case False
    then show ?thesis using assms(2) [of ptr] by (simp add: view_def)
  qed
qed

lemma view_small: "ptr < CHUNK_BYTES \<Longrightarrow> view s F p ptr = None"
  by (simp add: view_def)

lemma view_frame:
  assumes ch: "changed s s' p i c" and F: "\<And>j. j < 33 \<Longrightarrow> F' (UsedOf q j) = F (UsedOf q j)"
    and c: "\<And>j. j < 33 \<Longrightarrow> c \<notin> set (F (UsedOf q j))"
  shows "view s' F' q = view s F q"
proof (rule view_eqI)
  fix d
  show "view s' F' q (d + CHUNK_BYTES) = view s F q (d + CHUNK_BYTES)"
  proof (cases "\<exists>j < 33. d \<in> set (F (UsedOf q j))")
    case True
    with c have "d \<noteq> c" by auto
    then have "same_chunk s s' d" using ch by (simp add: changed_def)
    then show ?thesis using True F by (auto simp: view_chunk same_chunk_def)
  next
    case False
    then show ?thesis using F by (simp add: view_chunk)
  qed
qed (rule view_small)

text \<open>
  \<open>ampool_op_alloc\<close> as an allocator: a failure changes nothing, a success gives a pointer that was not
  in use, with data of the size asked for that begins with zeros, and changes no other data.
\<close>

definition alloc_post :: "ampool_state \<Rightarrow> ampool_state \<Rightarrow> addr set \<Rightarrow> (plink \<Rightarrow> addr list) \<Rightarrow> addr \<Rightarrow> u32 \<Rightarrow> addr option \<Rightarrow> bool" where
  "alloc_post s s' P F p sz r \<longleftrightarrow>
     (case r of
        None \<Rightarrow> (sz = 0 \<or> F (FreeOf p (bucket_no (unat sz))) = []) \<and> pools_ok s' P F \<and> pools s' = pools s \<and>
          chunks s' = chunks s \<and> (\<forall>q \<in> P. view s' F q = view s F q)
      | Some ptr \<Rightarrow>
          (\<exists>i < 33. \<exists>c bs. ptr = c + CHUNK_BYTES \<and> i = bucket_no (unat sz) \<and> pools_ok s' P (into_use p i c F) \<and>
             (F (FreeOf p i) = [] \<or> F (FreeOf p i) = c # tl (F (FreeOf p i))) \<and>
             (\<forall>q \<in> P. view s F q ptr = None) \<and> length bs = unat sz \<and> (\<forall>k < min (unat sz) 1024. bs ! k = 0) \<and>
             view s' (into_use p i c F) p = (view s F p)(ptr \<mapsto> bs) \<and>
             (\<forall>q \<in> P. q \<noteq> p \<longrightarrow> view s' (into_use p i c F) q = view s F q) \<and>
             pl_size (pools s' p) = pl_size (pools s p) + ucast sz \<and>
             pl_element_count (pools s' p) = pl_element_count (pools s p) + 1))"

lemma pools_ok_mem:
  assumes "pools_ok s P F" and "live m = live (pmem s)"
  shows "pools_ok (s\<lparr>pmem := m\<rparr>) P F" and "view (s\<lparr>pmem := m\<rparr>) F q = view s F q"
proof -
  have c: "same_chunk s (s\<lparr>pmem := m\<rparr>) c" for c using assms(2) by (simp add: same_chunk_def)
  have "marked (s\<lparr>pmem := m\<rparr>) v a free c = marked s v a free c" for v a free c by (rule marked_same [OF c])
  then have "bucket_ok (s\<lparr>pmem := m\<rparr>) F p i = bucket_ok s F p i" for p i
    by (simp add: bucket_ok_def data_size_def bytes_of_def)
  then show "pools_ok (s\<lparr>pmem := m\<rparr>) P F" using assms by (simp add: pools_ok_def pool_ok_def)
  show "view (s\<lparr>pmem := m\<rparr>) F q = view s F q" by (simp add: view_def fun_eq_iff)
qed

lemma into_use_other:
  "l \<noteq> UsedOf p i \<Longrightarrow> l \<noteq> FreeOf p i \<Longrightarrow> into_use p i c F l = F l"
  "into_use p i c F (UsedOf p i) = c # F (UsedOf p i)" "into_use p i c F (FreeOf p i) = tl (F (FreeOf p i))"
  by (simp_all add: into_use_def)

lemma ampool_op_alloc_ok:
  assumes ok: "pools_ok s P F" and p: "p \<in> P" and al: "malloc_spec alloc" and sz: "unat sz \<le> 2 ^ 32 - 16"
  shows "\<exists>r s'. ampool_op_alloc alloc s p sz name = Some (r, s') \<and> alloc_post s s' P F p sz r"
proof (cases "sz = 0")
  case True
  with ok show ?thesis by (intro exI [of _ None] exI [of _ s]) (simp add: ampool_op_alloc_def alloc_post_def)
next
  case False
  then have n: "0 < unat sz" "0 < sz" by (simp_all add: unat_gt_0 word_gt_0)
  let ?i = "bucket_no (unat sz)"
  have i: "?i < 33" using bucket_no_le [of "unat sz"] by simp
  note gb = get_bucket_ok [OF n(2) sz, of p]
  have live: "live (pmem s) p = Some POOL_BYTES" by (rule pools_okD(3) [OF ok p])
  from bucket_alloc_ok [OF ok p al n(1) sz, of name] obtain r s' where
    run: "bucket_alloc alloc s (p, ?i) sz name (validates (pools s p)) = Some (r, s')" and
    post: "case r of
       None \<Rightarrow> F (FreeOf p ?i) = [] \<and> (\<exists>m. s' = s\<lparr>pmem := m\<rparr> \<and> live m = live (pmem s))
     | Some c \<Rightarrow> allocated s s' P F p ?i c sz \<and> chunk_name (chunks s' c) = name \<and>
         pl_size (pools s' p) = pl_size (pools s p) \<and> pl_element_count (pools s' p) = pl_element_count (pools s p)"
    by blast
  show ?thesis
  proof (cases r)
    case None
    with post obtain m where m: "s' = s\<lparr>pmem := m\<rparr>" "live m = live (pmem s)" "F (FreeOf p ?i) = []" by auto
    have "ampool_op_alloc alloc s p sz name = Some (None, s')"
      using False gb live run None by (simp add: ampool_op_alloc_def pool_get_def)
    then show ?thesis using pools_ok_mem [OF ok m(2)] m(1,3)
      by (intro exI [of _ None] exI [of _ s']) (simp add: alloc_post_def)
  next
    case (Some c)
    with post have a: "allocated s s' P F p ?i c sz" "pl_size (pools s' p) = pl_size (pools s p)"
      "pl_element_count (pools s' p) = pl_element_count (pools s p)" by auto
    note a' = a(1) [unfolded allocated_def]
    have c: "changed s s' p ?i c" "c \<notin> P" using a' by auto
    have pc: "p \<noteq> c" using c(2) p by auto
    have lp: "live (pmem s') p = Some POOL_BYTES" using c(1) pc live by (simp add: changed_def same_chunk_def)
    let ?t = "pool_put s' p ((pools s' p)\<lparr>pl_size := pl_size (pools s' p) + ucast sz, pl_element_count := pl_element_count (pools s' p) + 1\<rparr>)"
    let ?F = "into_use p ?i c F"
    have op: "ampool_op_alloc alloc s p sz name = Some (Some (c + CHUNK_BYTES), ?t)"
      using False gb live run Some lp
      by (simp add: ampool_op_alloc_def pool_get_def amsync_add_def amsync_inc_def)
    have ch: "changed s ?t p ?i c" by (rule changed_counters [OF c(1)])
    have nin: "c \<notin> chunks_in P (F(FreeOf p ?i := tl (F (FreeOf p ?i))))" using a' by auto
    have nU: "c \<notin> set (F (UsedOf q j))" if "q \<in> P" "j < 33" for q j
      using not_in_chunks(1) [OF nin that] by simp
    have nR: "c \<notin> set (F (FreeOf q j))" if "q \<in> P" "j < 33" "(q, j) \<noteq> (p, ?i)" for q j
      using not_in_chunks(2) [OF nin that(1,2)] that(3) by (auto split: if_splits)
    have ok': "pools_ok ?t P ?F"
    proof (rule pools_ok_step [OF ok p i ch c(2)])
      show "forest (plinks ?t) (anchors P) (plinks_of ?F)" using a' by simp
      show "bucket_ok ?t ?F p ?i" unfolding bucket_ok_counters using a' by simp
      show "\<forall>q \<in> P. \<forall>j < 33. (q, j) \<noteq> (p, ?i) \<longrightarrow> c \<notin> set (F (UsedOf q j)) \<union> set (F (FreeOf q j))"
        using nU nR by auto
      show "set (?F (UsedOf p ?i)) \<union> set (?F (FreeOf p ?i)) \<subseteq> insert c (set (F (UsedOf p ?i)) \<union> set (F (FreeOf p ?i)))"
        by (cases "F (FreeOf p ?i)") (auto simp: into_use_other)
      show "pl_size (pools ?t p) + used_size (pl_buckets (pools s p) ?i) = pl_size (pools s p) + used_size (pl_buckets (pools ?t p) ?i)"
        "pl_element_count (pools ?t p) + used_element_count (pl_buckets (pools s p) ?i) =
         pl_element_count (pools s p) + used_element_count (pl_buckets (pools ?t p) ?i)"
        using a' a(2,3) by simp_all
    qed (simp add: into_use_other)
    have vn: "view s F q (c + CHUNK_BYTES) = None" if "q \<in> P" for q
      using nU [OF that] by (auto simp: view_chunk)
    let ?bs = "map (cdata s' c) [0 ..< unat sz]"
    have vp: "view ?t ?F p = (view s F p)(c + CHUNK_BYTES \<mapsto> ?bs)"
    proof (rule view_eqI)
      fix d
      show "view ?t ?F p (d + CHUNK_BYTES) = ((view s F p)(c + CHUNK_BYTES \<mapsto> ?bs)) (d + CHUNK_BYTES)"
      proof (cases "d = c")
        case True
        have "c \<in> set (?F (UsedOf p ?i))" by (simp add: into_use_other)
        then show ?thesis using True i a' by (auto simp: view_chunk)
      next
        case False
        have "d \<in> set (?F (UsedOf p j)) \<longleftrightarrow> d \<in> set (F (UsedOf p j))" for j
          using False by (cases "j = ?i") (simp_all add: into_use_def)
        moreover have "same_chunk s ?t d" using ch False by (simp add: changed_def)
        ultimately show ?thesis using False by (simp add: view_chunk same_chunk_def)
      qed
    qed (simp add: view_small CHUNK_BYTES_def)
    have vq: "view ?t ?F q = view s F q" if "q \<in> P" "q \<noteq> p" for q
      by (rule view_frame [OF ch]) (use that nU in \<open>auto simp: into_use_def\<close>)
    have "\<forall>k < min (unat sz) 1024. ?bs ! k = 0" using a' by simp
    then have "alloc_post s ?t P F p sz (Some (c + CHUNK_BYTES))"
      unfolding alloc_post_def option.case
      by (intro exI [of _ ?i] conjI exI [of _ c] exI [of _ ?bs]) (use i ok' vn vp vq a(2,3) a' in auto)
    with op show ?thesis by blast
  qed
qed

end
