(* ===== verification/AmPoolOps.thy ===== *)
theory AmPoolOps
  imports AmPoolInv
begin

text \<open>
  Release and reallocation of memory of a pool, and what the guard bytes detect.
\<close>

section \<open>Release\<close>

definition out_of_use :: "addr \<Rightarrow> nat \<Rightarrow> addr \<Rightarrow> (plink \<Rightarrow> addr list) \<Rightarrow> plink \<Rightarrow> addr list" where
  "out_of_use p i c F =
     (if i < 32 then F(UsedOf p i := remove1 c (F (UsedOf p i)), FreeOf p i := c # F (FreeOf p i))
      else F(UsedOf p i := remove1 c (F (UsedOf p i))))"

lemma out_of_use_simps:
  "out_of_use p i c F (UsedOf p i) = remove1 c (F (UsedOf p i))"
  "out_of_use p i c F (FreeOf p i) = (if i < 32 then c # F (FreeOf p i) else F (FreeOf p i))"
  "l \<noteq> UsedOf p i \<Longrightarrow> l \<noteq> FreeOf p i \<Longrightarrow> out_of_use p i c F l = F l"
  by (simp_all add: out_of_use_def)

lemma bytes_of_remove1:
  "c \<in> set cs \<Longrightarrow> bytes_of s (remove1 c cs) = bytes_of s cs - ucast (chunk_size (chunks s c))"
  using sum_list_map_remove1 [of c cs "\<lambda>c. ucast (chunk_size (chunks s c)) :: u64"] by (simp add: bytes_of_def)

lemma of_nat_remove1: "c \<in> set cs \<Longrightarrow> (of_nat (length (remove1 c cs)) :: u64) = of_nat (length cs) - 1"
proof -
  assume "c \<in> set cs"
  then have "length cs = Suc (length (remove1 c cs))"
    using length_remove1 [of c cs] length_pos_if_in_set [of c cs] by simp
  then show ?thesis by simp
qed

text \<open>Where a chunk in use is, and where it is not.\<close>

lemma used_only_here:
  assumes ok: "pools_ok s P F" and p: "p \<in> P" "i < 33" and c: "c \<in> set (F (UsedOf p i))"
  shows "c \<notin> P" and "q \<in> P \<Longrightarrow> j < 33 \<Longrightarrow> c \<notin> set (F (FreeOf q j))"
    and "q \<in> P \<Longrightarrow> j < 33 \<Longrightarrow> (q, j) \<noteq> (p, i) \<Longrightarrow> c \<notin> set (F (UsedOf q j))"
    and "distinct (F (UsedOf p i))" and "c \<notin> chunks_in P (F(UsedOf p i := remove1 c (F (UsedOf p i))))"
proof -
  note fr = pools_okD(2) [OF ok p(1)]
  show "c \<notin> P" using pools_okD(7) [OF ok p(1)] p c unfolding chunks_in_def by blast
  show nR: "c \<notin> set (F (FreeOf q j))" if "q \<in> P" "j < 33" for q j using lists_disjoint(1) [OF fr p that] c by auto
  show nU: "c \<notin> set (F (UsedOf q j))" if "q \<in> P" "j < 33" "(q, j) \<noteq> (p, i)" for q j
    using lists_disjoint(2) [OF fr p that(1,2)] c that(3) by auto
  show d: "distinct (F (UsedOf p i))" using plist_first_ok(3) [OF fr p, of "UsedOf p i"] by simp
  show "c \<notin> chunks_in P (F(UsedOf p i := remove1 c (F (UsedOf p i))))"
  proof
    assume "c \<in> chunks_in P (F(UsedOf p i := remove1 c (F (UsedOf p i))))"
    then obtain q j where "q \<in> P" "j < 33"
      "c \<in> set ((F(UsedOf p i := remove1 c (F (UsedOf p i)))) (UsedOf q j)) \<union> set (F (FreeOf q j))"
      unfolding chunks_in_def by auto
    then show False using nR nU d by (cases "(q, j) = (p, i)") auto
  qed
qed

definition released :: "ampool_state \<Rightarrow> ampool_state \<Rightarrow> addr set \<Rightarrow> (plink \<Rightarrow> addr list) \<Rightarrow> addr \<Rightarrow> nat \<Rightarrow> addr \<Rightarrow> bool" where
  "released s s' P F p i c \<longleftrightarrow>
     changed s s' p i c \<and> forest (plinks s') (anchors P) (plinks_of (out_of_use p i c F)) \<and>
     bucket_ok s' (out_of_use p i c F) p i \<and>
     used_size (pl_buckets (pools s' p) i) = used_size (pl_buckets (pools s p) i) - ucast (chunk_size (chunks s c)) \<and>
     used_element_count (pl_buckets (pools s' p) i) = used_element_count (pl_buckets (pools s p) i) - 1 \<and>
     pl_size (pools s' p) = pl_size (pools s p) \<and> pl_element_count (pools s' p) = pl_element_count (pools s p) \<and>
     (i = 32 \<longrightarrow> live (pmem s') c = None)"

lemma chunk_sizes:
  assumes "bucket_ok s F p i" and "c \<in> set (F (UsedOf p i))"
  shows "0 < unat (chunk_size (chunks s c))" "unat (chunk_size (chunks s c)) \<le> 2 ^ 32 - 16" "live (pmem s) c \<noteq> None"
    "chunk_ok s (data_size s i c) c"
  using bucket_okD(7) [OF assms] by (auto simp: marked_def chunk_ok_def)

text \<open>The part under the lock.\<close>

lemma bucket_unlink:
  assumes ok: "pools_ok s P F" and p: "p \<in> P" "i < 33" and c: "c \<in> set (F (UsedOf p i))"
  defines "bk \<equiv> pl_buckets (pools s p) i" and "z \<equiv> chunk_size (chunks s c)"
  shows "\<exists>s1 bk1 s2 s3 s4 bk2 h. bucket_lock s (p, i) = Some s1 \<and> bucket_get s1 (p, i) = Some (bk\<lparr>bucket_mutex := True\<rparr>) \<and>
    count_used (bk\<lparr>bucket_mutex := True\<rparr>) (used_element_count bk - 1) (used_size bk - ucast z) = Some bk1 \<and>
    element_size bk1 = step_size i \<and>
    plist_del (bucket_put s1 (p, i) bk1) (ChunkOf c) = Some s2 \<and>
    (if i < 32 then plist_add s2 (FreeOf p i) (ChunkOf c) else Some s2) = Some s3 \<and>
    bucket_unlock s3 (p, i) = Some s4 \<and> s4 = bucket_put (s\<lparr>plinks := h\<rparr>) (p, i) bk2 \<and>
    forest h (anchors P) (plinks_of (out_of_use p i c F)) \<and>
    \<not> bucket_mutex bk2 \<and> element_size bk2 = step_size i \<and> bucket_stats_ok bk2 \<and>
    used_element_count bk2 = used_element_count bk - 1 \<and> used_size bk2 = used_size bk - ucast z \<and>
    total_element_count bk2 = total_element_count bk"
proof -
  note b = bucket_okD [OF pools_okD(4) [OF ok p], folded bk_def]
  have live: "live (pmem s) p = Some POOL_BYTES" by (rule pools_okD(3) [OF ok p(1)])
  have st: "bucket_stats_ok (bk\<lparr>bucket_mutex := True\<rparr>)" using b(3) by (simp add: bucket_stats_ok_def)
  let ?s1 = "bucket_put s (p, i) (bk\<lparr>bucket_mutex := True\<rparr>)"
  from count_used_ok [OF st, of "used_element_count bk - 1" "used_size bk - ucast z"] obtain rn rz where
    cu: "count_used (bk\<lparr>bucket_mutex := True\<rparr>) (used_element_count bk - 1) (used_size bk - ucast z) =
      Some (bk\<lparr>bucket_mutex := True, used_element_count := used_element_count bk - 1, used_element_count_range := rn,
        used_size := used_size bk - ucast z, used_size_range := rz\<rparr>)" "count_ok rn" "count_ok rz" by auto
  let ?bk1 = "bk\<lparr>bucket_mutex := True, used_element_count := used_element_count bk - 1, used_element_count_range := rn,
        used_size := used_size bk - ucast z, used_size_range := rz\<rparr>"
  let ?bk2 = "?bk1\<lparr>bucket_mutex := False\<rparr>"
  have fr: "forest (plinks (bucket_put ?s1 (p, i) ?bk1)) (anchors P) (plinks_of F)"
    using pools_okD(2) [OF ok p(1)] by simp
  from plist_del_ok [OF fr p c] obtain h where
    h: "plist_del (bucket_put ?s1 (p, i) ?bk1) (ChunkOf c) = Some ((bucket_put ?s1 (p, i) ?bk1)\<lparr>plinks := h\<rparr>)"
      "forest h (anchors P) (plinks_of (F(UsedOf p i := remove1 c (F (UsedOf p i)))))" by auto
  let ?s2 = "(bucket_put ?s1 (p, i) ?bk1)\<lparr>plinks := h\<rparr>"
  have "\<exists>h2. (if i < 32 then plist_add ?s2 (FreeOf p i) (ChunkOf c) else Some ?s2) = Some (?s2\<lparr>plinks := h2\<rparr>) \<and>
      forest h2 (anchors P) (plinks_of (out_of_use p i c F))"
  proof (cases "i < 32")
    case True
    from plist_add_ok [of ?s2 P "F(UsedOf p i := remove1 c (F (UsedOf p i)))" p i c "FreeOf p i"] h(2) p
      used_only_here(5) [OF ok p c] True show ?thesis by (auto simp: out_of_use_def)
  next
    case False
    with h(2) show ?thesis by (intro exI [of _ h]) (simp add: out_of_use_def)
  qed
  then obtain h2 where h2: "(if i < 32 then plist_add ?s2 (FreeOf p i) (ChunkOf c) else Some ?s2) = Some (?s2\<lparr>plinks := h2\<rparr>)"
    "forest h2 (anchors P) (plinks_of (out_of_use p i c F))" by blast
  have "bucket_lock s (p, i) = Some ?s1" "bucket_get ?s1 (p, i) = Some (bk\<lparr>bucket_mutex := True\<rparr>)"
    using b(1) live by (simp_all add: bucket_lock_def bucket_get_eq bk_def)
  moreover have "bucket_unlock (?s2\<lparr>plinks := h2\<rparr>) (p, i) = Some (bucket_put (s\<lparr>plinks := h2\<rparr>) (p, i) ?bk2)"
    using live by (simp add: bucket_unlock_def bucket_get_eq)
  moreover have "bucket_stats_ok ?bk2" using b(3) cu(2,3) by (simp add: bucket_stats_ok_def)
  moreover have "element_size ?bk1 = step_size i" using b(2) by simp
  ultimately show ?thesis using cu(1) h(1) h2 b(2)
    by (intro exI [of _ ?s1] exI [of _ ?bk1] exI [of _ ?s2] exI [of _ "?s2\<lparr>plinks := h2\<rparr>"]
        exI [of _ "bucket_put (s\<lparr>plinks := h2\<rparr>) (p, i) ?bk2"] exI [of _ ?bk2] exI [of _ h2]) simp
qed

text \<open>The new invariant of the bucket, once the chunk is marked free or its block is freed.\<close>

lemma released_bucket:
  assumes ok: "pools_ok s P F" and p: "p \<in> P" "i < 33" and c: "c \<in> set (F (UsedOf p i))"
    and ch: "changed s t p i c" and bk: "pl_buckets (pools t p) i = bk2" "validates (pools t p) = validates (pools s p)"
    and b2: "\<not> bucket_mutex bk2" "element_size bk2 = step_size i" "bucket_stats_ok bk2"
      "used_element_count bk2 = used_element_count (pl_buckets (pools s p) i) - 1"
      "used_size bk2 = used_size (pl_buckets (pools s p) i) - ucast (chunk_size (chunks s c))"
      "total_element_count bk2 = total_element_count (pl_buckets (pools s p) i)"
    and m: "i < 32 \<Longrightarrow> marked t (validates (pools s p)) (data_size t i c) True c"
  shows "bucket_ok t (out_of_use p i c F) p i"
proof -
  note b = bucket_okD [OF pools_okD(4) [OF ok p]] and here = used_only_here [OF ok p c]
  let ?G = "out_of_use p i c F"
  have same: "data_size t i d = data_size s i d" "chunks t d = chunks s d" "marked t v' a' fr d = marked s v' a' fr d"
    if "d \<noteq> c" for d v' a' fr
  proof -
    have sc: "same_chunk s t d" using ch that by (simp add: changed_def)
    show "data_size t i d = data_size s i d" "chunks t d = chunks s d" "marked t v' a' fr d = marked s v' a' fr d"
      using sc marked_same [OF sc] by (simp_all add: data_size_def same_chunk_def)
  qed
  have U: "d \<in> set (F (UsedOf p i)) \<and> d \<noteq> c" if "d \<in> set (?G (UsedOf p i))" for d
    using that here(4) by (simp add: out_of_use_simps)
  have bytes: "bytes_of t (?G (UsedOf p i)) = bytes_of s (remove1 c (F (UsedOf p i)))"
    unfolding out_of_use_simps by (rule bytes_of_cong) (use same(2) here(4) in auto)
  show ?thesis
    unfolding bucket_ok_def Let_def bk
  proof (intro conjI ballI impI)
    show "marked t (validates (pools s p)) (data_size t i d) False d" "i = bucket_no (unat (chunk_size (chunks t d)))"
      if "d \<in> set (?G (UsedOf p i))" for d
      using U [OF that] b(7,8) [of d] same [of d] by auto
    show "marked t (validates (pools s p)) (data_size t i d) True d" if d: "d \<in> set (?G (FreeOf p i))" for d
    proof (cases "d = c")
      case True
      then have "i < 32" using d here(2) [OF p] by (cases "i < 32") (simp_all add: out_of_use_simps)
      with m True show ?thesis by simp
    next
      case False
      then have "d \<in> set (F (FreeOf p i))" using d by (simp add: out_of_use_simps split: if_splits)
      then show ?thesis using b(9) [of d] same [OF False] by auto
    qed
    show "used_element_count bk2 = of_nat (length (?G (UsedOf p i)))"
      using b2(4) b(4) of_nat_remove1 [OF c] by (simp add: out_of_use_simps)
    show "used_size bk2 = bytes_of t (?G (UsedOf p i))"
      using b2(5) b(5) bytes bytes_of_remove1 [OF c, of s] by simp
    show "total_element_count bk2 = of_nat (length (?G (UsedOf p i)) + length (?G (FreeOf p i)))" if "i < 32"
      using b2(6) b(6) [OF that] of_nat_remove1 [OF c] that by (simp add: out_of_use_simps)
    show "?G (FreeOf p i) = []" if "i = 32" using b(10) that by (simp add: out_of_use_simps)
  qed (use b2 in simp_all)
qed

lemma bucket_free_ok:
  assumes ok: "pools_ok s P F" and p: "p \<in> P" "i < 33" and c: "c \<in> set (F (UsedOf p i))"
  shows "\<exists>s'. bucket_free s (p, i) (c + CHUNK_BYTES) (validates (pools s p)) = Some s' \<and> released s s' P F p i c"
proof -
  define bk where "bk = pl_buckets (pools s p) i"
  define z where "z = chunk_size (chunks s c)"
  let ?v = "validates (pools s p)"
  note bo = pools_okD(4) [OF ok p]
  note b = bucket_okD [OF bo, folded bk_def] and here = used_only_here [OF ok p c]
  have live: "live (pmem s) p = Some POOL_BYTES" by (rule pools_okD(3) [OF ok p(1)])
  note cz = chunk_sizes [OF bo c]
  have i: "i = bucket_no (unat z)" using b(8) [OF c] by (simp add: z_def)
  have zz: "0 < unat z" "unat z \<le> 2 ^ 32 - 16" using cz by (simp_all add: z_def)
  have r: "unat (malloc_size bk z) = data_size s i c"
    unfolding data_size_def z_def [symmetric] by (rule malloc_size_ok [OF b(2)]) (use zz in simp)
  have as: "size_assertions bk (malloc_size bk z) z" by (rule size_assertions_ok [OF b(2) i zz])
  have get: "bucket_get s (p, i) = Some bk" using live by (simp add: bucket_get_eq bk_def)
  have gc: "chunk_get s c = Some (chunks s c)" using cz(3) by (auto simp: chunk_get_def)
  have test: "chunk_magic_test s c (malloc_size bk z) False ?v ?v = Some ()"
    using magic_test_eq [OF cz(4) r, of False ?v] b(7) [OF c, folded bk_def] by simp
  from bucket_unlink [OF ok p c, folded bk_def z_def] obtain s1 bk1 s2 s3 s4 bk2 h where
    un: "bucket_lock s (p, i) = Some s1" "bucket_get s1 (p, i) = Some (bk\<lparr>bucket_mutex := True\<rparr>)"
      "count_used (bk\<lparr>bucket_mutex := True\<rparr>) (used_element_count bk - 1) (used_size bk - ucast z) = Some bk1"
      "element_size bk1 = step_size i" "plist_del (bucket_put s1 (p, i) bk1) (ChunkOf c) = Some s2"
      "(if i < 32 then plist_add s2 (FreeOf p i) (ChunkOf c) else Some s2) = Some s3"
      "bucket_unlock s3 (p, i) = Some s4"
    and s4: "s4 = bucket_put (s\<lparr>plinks := h\<rparr>) (p, i) bk2" "forest h (anchors P) (plinks_of (out_of_use p i c F))"
    and b2: "\<not> bucket_mutex bk2" "element_size bk2 = step_size i" "bucket_stats_ok bk2"
      "used_element_count bk2 = used_element_count bk - 1" "used_size bk2 = used_size bk - ucast z"
      "total_element_count bk2 = total_element_count bk" by blast
  have es: "element_size bk1 > 0 \<longleftrightarrow> i < 32" using un(4) step_size_word(2) [of i] by (auto simp: step_size_def)
  have run: "bucket_free s (p, i) (c + CHUNK_BYTES) ?v =
      (if i < 32 then chunk_magic_set s4 c (malloc_size bk z) False ?v ?v
       else do { h \<leftarrow> free_block (Some c) (pmem s4); Some (s4\<lparr>pmem := h\<rparr>) })"
    using un gc get as test es by (cases "i < 32") (simp_all add: bucket_free_def Let_def z_def [symmetric])
  have pc: "p \<noteq> c" using here(1) p(1) by auto
  have fin: "released s t P F p i c"
    if "changed s t p i c" "plinks t = h" "pl_buckets (pools t p) i = bk2" "validates (pools t p) = ?v"
      "pl_size (pools t p) = pl_size (pools s p)" "pl_element_count (pools t p) = pl_element_count (pools s p)"
      "i < 32 \<Longrightarrow> marked t ?v (data_size t i c) True c" "i = 32 \<longrightarrow> live (pmem t) c = None" for t
    unfolding released_def that(3)
    using that(1,2,5,6,8) s4(2) b2(4,5) released_bucket [OF ok p c that(1,3,4) b2(1-3) b2(4-6) [unfolded bk_def z_def] that(7)]
    by (simp add: bk_def z_def)
  show ?thesis
  proof (cases "i < 32")
    case True
    have sc: "same_chunk s s4 c" by (simp add: s4 same_chunk_def)
    have co: "chunk_ok s4 (data_size s i c) c" using cz(4) marked_same(2) [OF sc] by simp
    from magic_set_ok [OF co r, of True ?v] obtain f where
      f: "chunk_magic_set s4 c (malloc_size bk z) False ?v ?v =
        Some (with_bytes (chunk_put s4 c ((chunks s4 c)\<lparr>chunk_magic := magic_of s4 True\<rparr>)) c f)"
      "marked (with_bytes (chunk_put s4 c ((chunks s4 c)\<lparr>chunk_magic := magic_of s4 True\<rparr>)) c f) ?v (data_size s i c) True c"
      by (auto simp: Let_def)
    let ?t = "with_bytes (chunk_put s4 c ((chunks s4 c)\<lparr>chunk_magic := magic_of s4 True\<rparr>)) c f"
    have ds: "data_size ?t i c = data_size s i c" by (simp add: data_size_def s4)
    have "changed s ?t p i c" by (auto simp: changed_def same_chunk_def s4)
    then have "released s ?t P F p i c"
      by (rule fin) (use f(2) True ds in \<open>simp_all add: s4\<close>)
    with run f(1) True show ?thesis by auto
  next
    case False
    then have i32: "i = 32" using p(2) by simp
    let ?m = "(pmem s)\<lparr>live := (live (pmem s))(c := None)\<rparr>"
    let ?t = "s4\<lparr>pmem := ?m\<rparr>"
    have "free_block (Some c) (pmem s4) = Some ?m" using cz(3) by (simp add: free_block_def s4)
    then have "bucket_free s (p, i) (c + CHUNK_BYTES) ?v = Some ?t" using run False by simp
    moreover have "changed s ?t p i c" by (auto simp: changed_def same_chunk_def s4)
    then have "released s ?t P F p i c" by (rule fin) (use False in \<open>simp_all add: s4\<close>)
    ultimately show ?thesis by blast
  qed
qed

text \<open>\<open>ampool_op_free\<close> with the size that was asked for takes the pointer out of use and changes no other data.\<close>

definition free_post :: "ampool_state \<Rightarrow> ampool_state \<Rightarrow> addr set \<Rightarrow> (plink \<Rightarrow> addr list) \<Rightarrow> addr \<Rightarrow> nat \<Rightarrow> addr \<Rightarrow> bool" where
  "free_post s s' P F p i c \<longleftrightarrow>
     pools_ok s' P (out_of_use p i c F) \<and>
     view s' (out_of_use p i c F) p = (view s F p)(c + CHUNK_BYTES := None) \<and>
     (\<forall>q \<in> P. q \<noteq> p \<longrightarrow> view s' (out_of_use p i c F) q = view s F q) \<and>
     pl_size (pools s' p) = pl_size (pools s p) - ucast (chunk_size (chunks s c)) \<and>
     pl_element_count (pools s' p) = pl_element_count (pools s p) - 1 \<and>
     (i = 32 \<longrightarrow> live (pmem s') c = None)"

lemma ampool_op_free_ok:
  assumes ok: "pools_ok s P F" and p: "p \<in> P" "i < 33" and c: "c \<in> set (F (UsedOf p i))"
  shows "\<exists>s'. ampool_op_free s p (c + CHUNK_BYTES) (chunk_size (chunks s c)) = Some s' \<and> free_post s s' P F p i c"
proof -
  define z where "z = chunk_size (chunks s c)"
  note bo = pools_okD(4) [OF ok p]
  note cz = chunk_sizes [OF bo c] and here = used_only_here [OF ok p c]
  have i: "i = bucket_no (unat z)" using bucket_okD(8) [OF bo c] by (simp add: z_def)
  have z: "0 < z" "unat z \<le> 2 ^ 32 - 16" using cz by (simp_all add: z_def word_less_nat_alt)
  have gb: "ampool_get_bucket p (align_size z) = Some (p, i)" using get_bucket_ok [OF z] i by simp
  have live: "live (pmem s) p = Some POOL_BYTES" by (rule pools_okD(3) [OF ok p(1)])
  from bucket_free_ok [OF ok p c] obtain s' where
    run: "bucket_free s (p, i) (c + CHUNK_BYTES) (validates (pools s p)) = Some s'" and rel: "released s s' P F p i c" by blast
  note r = rel [unfolded released_def]
  have ch: "changed s s' p i c" using r by simp
  have pc: "p \<noteq> c" using here(1) p(1) by auto
  have lp: "live (pmem s') p = Some POOL_BYTES" using ch pc live by (simp add: changed_def same_chunk_def)
  let ?t = "pool_put s' p ((pools s' p)\<lparr>pl_size := pl_size (pools s' p) - ucast z, pl_element_count := pl_element_count (pools s' p) - 1\<rparr>)"
  let ?G = "out_of_use p i c F"
  have op: "ampool_op_free s p (c + CHUNK_BYTES) z = Some ?t"
    using gb live run lp by (simp add: ampool_op_free_def pool_get_def amsync_sub_def amsync_dec_def)
  have cht: "changed s ?t p i c" by (rule changed_counters [OF ch])
  have ok': "pools_ok ?t P ?G"
  proof (rule pools_ok_step [OF ok p cht here(1)])
    show "forest (plinks ?t) (anchors P) (plinks_of ?G)" using r by simp
    show "bucket_ok ?t ?G p i" unfolding bucket_ok_counters using r by simp
    show "\<forall>q \<in> P. \<forall>j < 33. (q, j) \<noteq> (p, i) \<longrightarrow> c \<notin> set (F (UsedOf q j)) \<union> set (F (FreeOf q j))"
      using here(2,3) by auto
    show "set (?G (UsedOf p i)) \<union> set (?G (FreeOf p i)) \<subseteq> insert c (set (F (UsedOf p i)) \<union> set (F (FreeOf p i)))"
      using set_remove1_subset [of c "F (UsedOf p i)"] by (auto simp: out_of_use_simps)
    show "pl_size (pools ?t p) + used_size (pl_buckets (pools s p) i) = pl_size (pools s p) + used_size (pl_buckets (pools ?t p) i)"
      "pl_element_count (pools ?t p) + used_element_count (pl_buckets (pools s p) i) =
       pl_element_count (pools s p) + used_element_count (pl_buckets (pools ?t p) i)"
      using r by (simp_all add: z_def)
  qed (simp add: out_of_use_simps)
  have vp: "view ?t ?G p = (view s F p)(c + CHUNK_BYTES := None)"
  proof (rule view_eqI)
    fix d
    show "view ?t ?G p (d + CHUNK_BYTES) = ((view s F p)(c + CHUNK_BYTES := None)) (d + CHUNK_BYTES)"
    proof (cases "d = c")
      case True
      have "c \<notin> set (?G (UsedOf p j))" if "j < 33" for j
        using here(3) [OF p(1) that] here(4) by (cases "j = i") (simp_all add: out_of_use_def)
      then show ?thesis using True by (auto simp: view_chunk)
    next
      case False
      have "d \<in> set (?G (UsedOf p j)) \<longleftrightarrow> d \<in> set (F (UsedOf p j))" for j
        using False by (cases "j = i") (simp_all add: out_of_use_def)
      moreover have "same_chunk s ?t d" using cht False by (simp add: changed_def)
      ultimately show ?thesis using False by (simp add: view_chunk same_chunk_def)
    qed
  qed (simp add: view_small CHUNK_BYTES_def)
  have vq: "view ?t ?G q = view s F q" if "q \<in> P" "q \<noteq> p" for q
    by (rule view_frame [OF cht]) (use that here(3) in \<open>auto simp: out_of_use_def\<close>)
  have "free_post s ?t P F p i c"
    unfolding free_post_def using ok' vp vq r by (simp add: z_def)
  with op show ?thesis by (auto simp: z_def)
qed

end
