(* ===== verification/AmPoolTree.thy ===== *)
theory AmPoolTree
  imports AmPoolOps
begin

text \<open>
  The tree of pools: releasing a pool returns, and frees its blocks and those of all its sub-pools and
  nothing else.
\<close>

section \<open>Emptying the lists of a bucket\<close>

lemma plist_take_first:
  assumes fr: "forest (plinks s) A (plinks_of F)" and l: "l \<in> A" "l = UsedOf p i \<or> l = FreeOf p i" and F: "F l = c # cs"
  shows "\<not> amlist_empty (plinks s) l" "amlist_first (plinks s) l = Some (ChunkOf c)"
    and "\<exists>h. plist_del s (ChunkOf c) = Some (s\<lparr>plinks := h\<rparr>) \<and> forest h A (plinks_of (F(l := cs)))"
proof -
  have L: "plinks_of F l = ChunkOf c # map ChunkOf cs" using l(2) F by auto
  show "\<not> amlist_empty (plinks s) l" using forest_is_empty [OF fr l(1)] L by simp
  show "amlist_first (plinks s) l = Some (ChunkOf c)" by (rule forest_first [OF fr l(1) L])
  have "(plinks_of F)(l := remove1 (ChunkOf c) (plinks_of F l)) = plinks_of (F(l := cs))"
    using l(2) L by (auto simp: plinks_of_upd)
  with forest_del [OF fr l(1), of "ChunkOf c"] L
  show "\<exists>h. plist_del s (ChunkOf c) = Some (s\<lparr>plinks := h\<rparr>) \<and> forest h A (plinks_of (F(l := cs)))"
    by (auto simp: plist_del_def)
qed

text \<open>The blocks that are left when those in \<open>X\<close> are freed.\<close>

definition without :: "addr set \<Rightarrow> (addr \<rightharpoonup> u64) \<Rightarrow> addr \<rightharpoonup> u64" where
  "without X lv = (\<lambda>a. if a \<in> X then None else lv a)"

lemma without_simps [simp]:
  "without {} lv = lv" "without X (without Y lv) = without (X \<union> Y) lv" "without X lv a = (if a \<in> X then None else lv a)"
  by (auto simp: without_def)

lemma without_one: "lv(a := None) = without {a} lv"
  by (auto simp: without_def)

lemma term_list_ok:
  assumes "forest (plinks s) A (plinks_of F)" and "l \<in> A" and l: "l = UsedOf p i \<or> l = FreeOf p i"
    and "\<forall>c \<in> set (F l). marked s v (data_size s i c) free c"
    and "element_size (pl_buckets (pools s p) i) = step_size i" and "live (pmem s) p \<noteq> None" and "p \<notin> set (F l)"
  shows "\<exists>h m bk. bucket_term_list s (p, i) l v (\<not> free) = Some ((bucket_put s (p, i) bk)\<lparr>plinks := h, pmem := m\<rparr>) \<and>
    forest h A (plinks_of (F(l := []))) \<and> live m = without (set (F l)) (live (pmem s)) \<and>
    element_size bk = step_size i \<and> bucket_mutex bk = bucket_mutex (pl_buckets (pools s p) i)"
  using assms(1,2,4-)
proof (induction "F l" arbitrary: s F)
  case Nil
  have L: "plinks_of F l = []" using l Nil.hyps by auto
  have e: "amlist_empty (plinks s) l" using forest_is_empty [OF Nil.prems(1,2)] L by simp
  have "F(l := []) = F" using Nil.hyps by auto
  moreover have "(bucket_put s (p, i) (pl_buckets (pools s p) i))\<lparr>plinks := plinks s, pmem := pmem s\<rparr> = s"
    by (simp add: bucket_put_def pool_put_def)
  moreover have "bucket_term_list s (p, i) l v (\<not> free) = Some s"
    using e by (subst bucket_term_list.simps) simp
  ultimately show ?case using Nil.prems Nil.hyps
    by (intro exI [of _ "plinks s"] exI [of _ "pmem s"] exI [of _ "pl_buckets (pools s p) i"]) simp
next
  case (Cons c cs)
  note F = Cons.hyps(2) [symmetric]
  note tk = plist_take_first [OF Cons.prems(1,2) l F]
  from tk(3) obtain h where h: "plist_del s (ChunkOf c) = Some (s\<lparr>plinks := h\<rparr>)" "forest h A (plinks_of (F(l := cs)))" by blast
  let ?bk = "pl_buckets (pools s p) i" and ?z = "chunk_size (chunks s c)"
  have m: "marked s v (data_size s i c) free c" using Cons.prems(3) F by simp
  then have co: "chunk_ok s (data_size s i c) c" by (simp add: marked_def)
  then have z: "unat ?z \<le> 2 ^ 32 - 16" "live (pmem s) c \<noteq> None" by (auto simp: chunk_ok_def)
  have r: "unat (malloc_size ?bk ?z) = data_size s i c"
    unfolding data_size_def by (rule malloc_size_ok [OF Cons.prems(4)]) (use z in simp)
  let ?s1 = "s\<lparr>plinks := h\<rparr>"
  have sc: "same_chunk s ?s1 c" by (simp add: same_chunk_def)
  have t: "chunk_magic_test ?s1 c (malloc_size ?bk ?z) free v v = Some ()"
    using magic_test_eq [of ?s1, OF _ r, of c free v] marked_same [OF sc] m co by simp
  have pc: "p \<noteq> c" using Cons.prems(6) F by auto
  define bk1 where "bk1 = (let bk = ?bk\<lparr>total_size := total_size ?bk - ucast ?z, total_element_count := total_element_count ?bk - 1\<rparr>
    in if \<not> free then bk\<lparr>used_size := used_size bk - ucast ?z, used_element_count := used_element_count bk - 1\<rparr> else bk)"
  have b1: "element_size bk1 = step_size i" "bucket_mutex bk1 = bucket_mutex ?bk"
    using Cons.prems(4) by (simp_all add: bk1_def Let_def)
  let ?m1 = "(pmem s)\<lparr>live := (live (pmem s))(c := None)\<rparr>"
  let ?s2 = "(bucket_put ?s1 (p, i) bk1)\<lparr>pmem := ?m1\<rparr>"
  have step: "bucket_term_list s (p, i) l v (\<not> free) = bucket_term_list ?s2 (p, i) l v (\<not> free)"
    using tk(1,2) h(1) t z(2) Cons.prems(5)
    by (subst bucket_term_list.simps) (auto simp: bucket_get_eq chunk_get_def free_block_def bk1_def Let_def)
  have dist: "c \<notin> set cs"
    using forest_distinct [OF Cons.prems(1,2)] l F by auto
  have mk: "marked ?s2 v (data_size ?s2 i d) free d" if "d \<in> set cs" for d
  proof -
    have "d \<noteq> c" using that dist by auto
    then have "same_chunk s ?s2 d" by (simp add: same_chunk_def)
    moreover have "marked s v (data_size s i d) free d" using Cons.prems(3) F that by simp
    ultimately show ?thesis using marked_same(1) [of s ?s2 d] by (simp add: data_size_def)
  qed
  from Cons.hyps(1) [of "F(l := cs)" ?s2] h(2) Cons.prems(2,5,6) mk b1 pc F obtain h' m' bk where
    ih: "bucket_term_list ?s2 (p, i) l v (\<not> free) = Some ((bucket_put ?s2 (p, i) bk)\<lparr>plinks := h', pmem := m'\<rparr>)"
      "forest h' A (plinks_of (F(l := [])))" "live m' = without (set cs) ((live (pmem s))(c := None))"
      "element_size bk = step_size i" "bucket_mutex bk = bucket_mutex ?bk" by auto
  have "(bucket_put ?s2 (p, i) bk)\<lparr>plinks := h', pmem := m'\<rparr> = (bucket_put s (p, i) bk)\<lparr>plinks := h', pmem := m'\<rparr>"
    by (simp add: bucket_put_def pool_put_def)
  with ih step show ?case
    by (intro exI [of _ h'] exI [of _ m'] exI [of _ bk]) (simp add: F without_one)
qed

text \<open>A bucket, from its invariant.\<close>

definition bucket_chunks :: "(plink \<Rightarrow> addr list) \<Rightarrow> addr \<Rightarrow> nat \<Rightarrow> addr set" where
  "bucket_chunks F p i = set (F (UsedOf p i)) \<union> set (F (FreeOf p i))"

definition emptied :: "addr \<Rightarrow> nat \<Rightarrow> (plink \<Rightarrow> addr list) \<Rightarrow> plink \<Rightarrow> addr list" where
  "emptied p i F = F(UsedOf p i := [], FreeOf p i := [])"

lemma bucket_term_ok:
  assumes ok: "bucket_ok s F p i" and fr: "forest (plinks s) A (plinks_of F)" and A: "UsedOf p i \<in> A" "FreeOf p i \<in> A"
    and p: "live (pmem s) p \<noteq> None" "p \<notin> bucket_chunks F p i"
  shows "\<exists>h m bk. bucket_term s (p, i) (validates (pools s p)) = Some ((bucket_put s (p, i) bk)\<lparr>plinks := h, pmem := m\<rparr>) \<and>
    forest h A (plinks_of (emptied p i F)) \<and> live m = without (bucket_chunks F p i) (live (pmem s))"
proof -
  note b = bucket_okD [OF ok]
  let ?bk = "pl_buckets (pools s p) i" and ?v = "validates (pools s p)"
  let ?s1 = "bucket_put s (p, i) (?bk\<lparr>bucket_mutex := True\<rparr>)"
  have lock: "bucket_lock s (p, i) = Some ?s1" using b(1) p(1) by (auto simp: bucket_lock_def bucket_get_eq)
  have "same_chunk s ?s1 c" for c by (simp add: same_chunk_def)
  note ms = marked_same(1) [OF this]
  have ds: "data_size ?s1 i c = data_size s i c" for c by (simp add: data_size_def)
  have "\<exists>h m bk. bucket_term_list ?s1 (p, i) (UsedOf p i) ?v (\<not> False) =
      Some ((bucket_put ?s1 (p, i) bk)\<lparr>plinks := h, pmem := m\<rparr>) \<and>
    forest h A (plinks_of (F(UsedOf p i := []))) \<and> live m = without (set (F (UsedOf p i))) (live (pmem ?s1)) \<and>
    element_size bk = step_size i \<and> bucket_mutex bk = bucket_mutex (pl_buckets (pools ?s1 p) i)"
    by (rule term_list_ok) (use fr A b(2,7) p in \<open>auto simp: ms ds bucket_chunks_def\<close>)
  then obtain h m bk where
    u: "bucket_term_list ?s1 (p, i) (UsedOf p i) ?v True = Some ((bucket_put ?s1 (p, i) bk)\<lparr>plinks := h, pmem := m\<rparr>)"
      "forest h A (plinks_of (F(UsedOf p i := [])))" "live m = without (set (F (UsedOf p i))) (live (pmem s))"
      "element_size bk = step_size i" by auto
  let ?s2 = "(bucket_put ?s1 (p, i) bk)\<lparr>plinks := h, pmem := m\<rparr>"
  have disj: "set (F (UsedOf p i)) \<inter> set (F (FreeOf p i)) = {}"
  proof -
    have "set (plinks_of F (UsedOf p i)) \<inter> set (plinks_of F (FreeOf p i)) = {}" using fr A unfolding forest_def by blast
    then show ?thesis by auto
  qed
  have mk: "marked ?s2 ?v (data_size ?s2 i c) True c" if "c \<in> set (F (FreeOf p i))" for c
  proof -
    have "c \<notin> set (F (UsedOf p i))" using disj that by auto
    then have "same_chunk s ?s2 c" using u(3) by (simp add: same_chunk_def)
    then show ?thesis using marked_same(1) [of s ?s2 c] b(9) [OF that] by (simp add: data_size_def)
  qed
  have pU: "p \<notin> set (F (UsedOf p i))" "p \<notin> set (F (FreeOf p i))" using p(2) by (simp_all add: bucket_chunks_def)
  have "\<exists>h m bk. bucket_term_list ?s2 (p, i) (FreeOf p i) ?v (\<not> True) =
      Some ((bucket_put ?s2 (p, i) bk)\<lparr>plinks := h, pmem := m\<rparr>) \<and>
    forest h A (plinks_of ((F(UsedOf p i := []))(FreeOf p i := []))) \<and>
    live m = without (set ((F(UsedOf p i := [])) (FreeOf p i))) (live (pmem ?s2)) \<and>
    element_size bk = step_size i \<and> bucket_mutex bk = bucket_mutex (pl_buckets (pools ?s2 p) i)"
    by (rule term_list_ok) (use u A mk p pU in auto)
  then obtain h' m' bk' where
    w: "bucket_term_list ?s2 (p, i) (FreeOf p i) ?v False = Some ((bucket_put ?s2 (p, i) bk')\<lparr>plinks := h', pmem := m'\<rparr>)"
      "forest h' A (plinks_of (emptied p i F))" "live m' = without (set (F (FreeOf p i))) (live m)"
    by (auto simp: emptied_def)
  have lp: "live m' p \<noteq> None" using w(3) u(3) p(1) pU by simp
  have "bucket_unlock ((bucket_put ?s2 (p, i) bk')\<lparr>plinks := h', pmem := m'\<rparr>) (p, i) =
      Some ((bucket_put s (p, i) (bk'\<lparr>bucket_mutex := False\<rparr>))\<lparr>plinks := h', pmem := m'\<rparr>)"
    using lp by (simp add: bucket_unlock_def bucket_get_eq)
  with lock u(1) w(1) have "bucket_term s (p, i) ?v =
      Some ((bucket_put s (p, i) (bk'\<lparr>bucket_mutex := False\<rparr>))\<lparr>plinks := h', pmem := m'\<rparr>)"
    by (simp add: bucket_term_def)
  with w(2,3) u(3) show ?thesis
    by (intro exI [of _ h'] exI [of _ m'] exI [of _ "bk'\<lparr>bucket_mutex := False\<rparr>"]) (simp add: bucket_chunks_def Un_commute)
qed

section \<open>All buckets of a pool\<close>

lemma bucket_ok_cong:
  assumes "bucket_ok s F q j"
    and "pl_buckets (pools s' q) j = pl_buckets (pools s q) j" "validates (pools s' q) = validates (pools s q)"
    and F: "F' (UsedOf q j) = F (UsedOf q j)" "F' (FreeOf q j) = F (FreeOf q j)"
    and c: "\<forall>d \<in> bucket_chunks F q j. same_chunk s s' d"
  shows "bucket_ok s' F' q j"
proof -
  have m: "marked s' v a free d = marked s v a free d" "chunks s' d = chunks s d" "data_size s' j d = data_size s j d"
    if "d \<in> set (F (UsedOf q j)) \<union> set (F (FreeOf q j))" for d v a free
  proof -
    have "same_chunk s s' d" using c that by (simp add: bucket_chunks_def)
    then show "marked s' v a free d = marked s v a free d" "chunks s' d = chunks s d" "data_size s' j d = data_size s j d"
      using marked_same [of s s' d] by (simp_all add: same_chunk_def data_size_def)
  qed
  have "bytes_of s' (F (UsedOf q j)) = bytes_of s (F (UsedOf q j))" by (rule bytes_of_cong) (use m(2) in blast)
  then show ?thesis using assms(1) m by (simp add: bucket_ok_def Let_def assms(2,3) F)
qed

text \<open>The anchors of a pool, and its chunks.\<close>

definition pool_anchors :: "addr \<Rightarrow> plink set" where
  "pool_anchors p = insert (ChildrenOf p) (UsedOf p ` {..<33} \<union> FreeOf p ` {..<33})"

definition pool_chunks :: "(plink \<Rightarrow> addr list) \<Rightarrow> addr \<Rightarrow> addr set" where
  "pool_chunks F p = (\<Union>i < 33. bucket_chunks F p i)"

lemma bucket_disjoint:
  assumes "forest h A (plinks_of F)" and "pool_anchors p \<subseteq> A" "pool_anchors q \<subseteq> A" and "i < 33" "j < 33"
    and "(p, i) \<noteq> (q, j)"
  shows "bucket_chunks F p i \<inter> bucket_chunks F q j = {}"
proof -
  have A: "UsedOf p i \<in> A" "FreeOf p i \<in> A" "UsedOf q j \<in> A" "FreeOf q j \<in> A"
    using assms(2-5) by (auto simp: pool_anchors_def)
  have d: "set (plinks_of F a) \<inter> set (plinks_of F b) = {}" if "a \<in> A" "b \<in> A" "a \<noteq> b" for a b
    using assms(1) that unfolding forest_def by blast
  show ?thesis
    using d [of "UsedOf p i" "UsedOf q j"] d [of "UsedOf p i" "FreeOf q j"] d [of "FreeOf p i" "UsedOf q j"]
      d [of "FreeOf p i" "FreeOf q j"] A assms(6)
    by (auto simp: bucket_chunks_def)
qed

text \<open>What releasing changes: links, blocks, and the buckets of pools that are released.\<close>

definition cleared :: "ampool_state \<Rightarrow> ampool_state \<Rightarrow> addr set \<Rightarrow> addr set \<Rightarrow> bool" where
  "cleared s s' ps X \<longleftrightarrow>
     globals_magic s' = globals_magic s \<and> hierarchy_mutex s' = hierarchy_mutex s \<and> chunks s' = chunks s \<and> cdata s' = cdata s \<and>
     (\<forall>q. q \<notin> ps \<longrightarrow> pools s' q = pools s q) \<and> live (pmem s') = without X (live (pmem s))"

lemma cleared_same: "cleared s s' ps X \<Longrightarrow> d \<notin> X \<Longrightarrow> same_chunk s s' d"
  by (simp add: cleared_def same_chunk_def)

lemma cleared_trans: "cleared s t ps X \<Longrightarrow> cleared t u qs Y \<Longrightarrow> cleared s u (ps \<union> qs) (X \<union> Y)"
  by (auto simp: cleared_def Un_commute)

definition empty_lists :: "addr \<Rightarrow> nat set \<Rightarrow> (plink \<Rightarrow> addr list) \<Rightarrow> plink \<Rightarrow> addr list" where
  "empty_lists p I F = (\<lambda>l. if l \<in> UsedOf p ` I \<union> FreeOf p ` I then [] else F l)"

lemma term_buckets_ok:
  assumes "distinct is" and "set is \<subseteq> {..<33}" and "\<forall>i \<in> set is. bucket_ok s F p i"
    and "forest (plinks s) A (plinks_of F)" and "pool_anchors p \<subseteq> A"
    and "live (pmem s) p \<noteq> None" and "p \<notin> pool_chunks F p" and "validates (pools s p) = v"
  shows "\<exists>s'. term_buckets s p v is z n = Some (z + sum_list (map (\<lambda>i. used_size (pl_buckets (pools s p) i)) is),
      n + sum_list (map (\<lambda>i. used_element_count (pl_buckets (pools s p) i)) is), s') \<and>
    cleared s s' {p} (\<Union>i \<in> set is. bucket_chunks F p i) \<and> forest (plinks s') A (plinks_of (empty_lists p (set is) F)) \<and>
    pl_size (pools s' p) = pl_size (pools s p) \<and> pl_element_count (pools s' p) = pl_element_count (pools s p)"
  using assms
proof (induction "is" arbitrary: s F z n)
  case Nil
  have "empty_lists p {} F = F" by (simp add: empty_lists_def)
  with Nil show ?case by (simp add: cleared_def)
next
  case (Cons i "is")
  have i: "i < 33" "i \<notin> set is" "distinct is" "set is \<subseteq> {..<33}" using Cons.prems(1,2) by auto
  have A: "UsedOf p i \<in> A" "FreeOf p i \<in> A" using Cons.prems(5) i(1) by (auto simp: pool_anchors_def)
  have pi: "p \<notin> bucket_chunks F p i" using Cons.prems(7) i(1) by (auto simp: pool_chunks_def)
  have bo: "bucket_ok s F p i" using Cons.prems(3) by simp
  from bucket_term_ok [OF bo Cons.prems(4) A Cons.prems(6) pi] obtain h m bk where
    t: "bucket_term s (p, i) v = Some ((bucket_put s (p, i) bk)\<lparr>plinks := h, pmem := m\<rparr>)"
      "forest h A (plinks_of (emptied p i F))" "live m = without (bucket_chunks F p i) (live (pmem s))"
    unfolding Cons.prems(8) by blast
  let ?s = "(bucket_put s (p, i) bk)\<lparr>plinks := h, pmem := m\<rparr>"
  have cl: "cleared s ?s {p} (bucket_chunks F p i)" using t(3) by (simp add: cleared_def)
  have ok: "bucket_ok ?s (emptied p i F) p j" if "j \<in> set is" for j
  proof (rule bucket_ok_cong)
    show "bucket_ok s F p j" using Cons.prems(3) that by simp
    have "j \<noteq> i" "j < 33" using that i by auto
    then show "pl_buckets (pools ?s p) j = pl_buckets (pools s p) j" "emptied p i F (UsedOf p j) = F (UsedOf p j)"
      "emptied p i F (FreeOf p j) = F (FreeOf p j)" by (simp_all add: emptied_def)
    have "bucket_chunks F p i \<inter> bucket_chunks F p j = {}"
      using bucket_disjoint [OF Cons.prems(4,5,5) i(1) \<open>j < 33\<close>] \<open>j \<noteq> i\<close> by simp
    then show "\<forall>d \<in> bucket_chunks F p j. same_chunk s ?s d" using cleared_same [OF cl] by blast
  qed simp
  have bc: "bucket_chunks (emptied p i F) p j = (if j = i then {} else bucket_chunks F p j)" for j
    by (simp add: bucket_chunks_def emptied_def)
  have "\<exists>s'. term_buckets ?s p v is (z + used_size (pl_buckets (pools s p) i)) (n + used_element_count (pl_buckets (pools s p) i)) =
      Some (z + used_size (pl_buckets (pools s p) i) + sum_list (map (\<lambda>i. used_size (pl_buckets (pools ?s p) i)) is),
        n + used_element_count (pl_buckets (pools s p) i) + sum_list (map (\<lambda>i. used_element_count (pl_buckets (pools ?s p) i)) is), s') \<and>
    cleared ?s s' {p} (\<Union>j \<in> set is. bucket_chunks (emptied p i F) p j) \<and>
    forest (plinks s') A (plinks_of (empty_lists p (set is) (emptied p i F))) \<and>
    pl_size (pools s' p) = pl_size (pools ?s p) \<and> pl_element_count (pools s' p) = pl_element_count (pools ?s p)"
  proof (rule Cons.IH [OF i(3,4)])
    show "forest (plinks ?s) A (plinks_of (emptied p i F))" using t(2) by simp
    show "live (pmem ?s) p \<noteq> None" using t(3) pi Cons.prems(6) by simp
    show "p \<notin> pool_chunks (emptied p i F) p" using Cons.prems(7) by (auto simp: pool_chunks_def bc split: if_splits)
  qed (use ok Cons.prems(5,8) in simp_all)
  then obtain s' where s': "term_buckets ?s p v is (z + used_size (pl_buckets (pools s p) i)) (n + used_element_count (pl_buckets (pools s p) i)) =
      Some (z + used_size (pl_buckets (pools s p) i) + sum_list (map (\<lambda>i. used_size (pl_buckets (pools ?s p) i)) is),
        n + used_element_count (pl_buckets (pools s p) i) + sum_list (map (\<lambda>i. used_element_count (pl_buckets (pools ?s p) i)) is), s')"
    "cleared ?s s' {p} (\<Union>j \<in> set is. bucket_chunks (emptied p i F) p j)"
    "forest (plinks s') A (plinks_of (empty_lists p (set is) (emptied p i F)))"
    "pl_size (pools s' p) = pl_size (pools ?s p)" "pl_element_count (pools s' p) = pl_element_count (pools ?s p)" by blast
  have "map (\<lambda>i. used_size (pl_buckets (pools ?s p) i)) is = map (\<lambda>i. used_size (pl_buckets (pools s p) i)) is"
    "map (\<lambda>i. used_element_count (pl_buckets (pools ?s p) i)) is = map (\<lambda>i. used_element_count (pl_buckets (pools s p) i)) is"
    using i(2) by auto
  note mp = this
  have "(\<Union>j \<in> set is. bucket_chunks (emptied p i F) p j) = (\<Union>j \<in> set is. bucket_chunks F p j)" using i(2) by (auto simp: bc)
  with cleared_trans [OF cl s'(2)] have c: "cleared s s' {p} (\<Union>j \<in> set (i # is). bucket_chunks F p j)" by simp
  have "empty_lists p (set is) (emptied p i F) = empty_lists p (set (i # is)) F"
    by (auto simp: empty_lists_def emptied_def fun_eq_iff)
  with s'(3) have f: "forest (plinks s') A (plinks_of (empty_lists p (set (i # is)) F))" by simp
  have g: "bucket_get s (p, i) = Some (pl_buckets (pools s p) i)" using Cons.prems(6) by (simp add: bucket_get_eq)
  have "term_buckets s p v (i # is) z n = Some (z + sum_list (map (\<lambda>i. used_size (pl_buckets (pools s p) i)) (i # is)),
      n + sum_list (map (\<lambda>i. used_element_count (pl_buckets (pools s p) i)) (i # is)), s')"
    using g t(1) s'(1) unfolding mp by (simp add: add.assoc)
  with c f s'(4,5) show ?case by (intro exI [of _ s']) simp
qed

section \<open>The tree\<close>

datatype ptree = PNode (proot: addr) "ptree list"

fun pnodes :: "ptree \<Rightarrow> addr list" where
  "pnodes (PNode p ts) = p # concat (map pnodes ts)"

fun hangs :: "(plink \<Rightarrow> addr list) \<Rightarrow> ptree \<Rightarrow> bool" where
  "hangs F (PNode p ts) \<longleftrightarrow> F (ChildrenOf p) = map proot ts \<and> (\<forall>t \<in> set ts. hangs F t)"

definition gone :: "(plink \<Rightarrow> addr list) \<Rightarrow> addr set \<Rightarrow> addr set" where
  "gone F ps = ps \<union> (\<Union>p \<in> ps. pool_chunks F p)"

definition tree_anchors :: "addr set \<Rightarrow> plink set" where
  "tree_anchors ps = (\<Union>p \<in> ps. pool_anchors p)"

lemma tree_anchors_Un: "tree_anchors (X \<union> Y) = tree_anchors X \<union> tree_anchors Y" "tree_anchors {} = {}"
  by (auto simp: tree_anchors_def)

lemma gone_Un: "gone F (X \<union> Y) = gone F X \<union> gone F Y"
  by (auto simp: gone_def)

text \<open>The pools \<open>ps\<close> can be released.\<close>

definition ready :: "ampool_state \<Rightarrow> plink set \<Rightarrow> (plink \<Rightarrow> addr list) \<Rightarrow> addr list \<Rightarrow> bool" where
  "ready s A F ps \<longleftrightarrow>
     distinct ps \<and> forest (plinks s) A (plinks_of F) \<and> tree_anchors (set ps) \<subseteq> A \<and>
     (\<forall>p \<in> set ps. pool_ok s F p \<and> pool_chunks F p \<inter> set ps = {})"

text \<open>What was done: the pools \<open>ps\<close> are released, and the list \<open>l\<close> is now \<open>rest\<close>.\<close>

definition released_tree :: "ampool_state \<Rightarrow> ampool_state \<Rightarrow> plink set \<Rightarrow> (plink \<Rightarrow> addr list) \<Rightarrow> (plink \<Rightarrow> addr list) \<Rightarrow>
    addr set \<Rightarrow> plink \<Rightarrow> addr list \<Rightarrow> bool" where
  "released_tree s s' A F F' ps l rest \<longleftrightarrow>
     cleared s s' ps (gone F ps) \<and> forest (plinks s') A (plinks_of F') \<and> F' l = rest \<and>
     (\<forall>k. k \<noteq> l \<and> k \<notin> tree_anchors ps \<longrightarrow> F' k = F k)"

lemma pool_chunks_cong: "\<forall>i < 33. F' (UsedOf p i) = F (UsedOf p i) \<and> F' (FreeOf p i) = F (FreeOf p i) \<Longrightarrow> pool_chunks F' p = pool_chunks F p"
  by (auto simp: pool_chunks_def bucket_chunks_def)

lemma pool_ok_cong:
  assumes ok: "pool_ok s F p" and "pools s' p = pools s p" and "same_chunk s s' p"
    and F: "\<forall>i < 33. F' (UsedOf p i) = F (UsedOf p i) \<and> F' (FreeOf p i) = F (FreeOf p i)"
    and c: "\<forall>d \<in> pool_chunks F p. same_chunk s s' d"
  shows "pool_ok s' F' p"
proof -
  have "bucket_ok s' F' p i" if "i < 33" for i
    by (rule bucket_ok_cong [of s F]) (use ok assms(2) F c that in \<open>auto simp: pool_ok_def pool_chunks_def\<close>)
  then show ?thesis using ok assms(2,3) by (simp add: pool_ok_def same_chunk_def)
qed

lemma pool_chunks_disjoint:
  assumes fr: "forest h A (plinks_of F)" and "pool_anchors p \<subseteq> A" "pool_anchors q \<subseteq> A" and "p \<noteq> q"
  shows "pool_chunks F p \<inter> pool_chunks F q = {}"
  using bucket_disjoint [OF fr assms(2,3)] assms(4) unfolding pool_chunks_def by fastforce

text \<open>Other pools stay ready.\<close>

lemma ready_frame:
  assumes r: "ready s A F (ps @ qs)" and rel: "released_tree s s' A F F' (set ps) l rest" and l: "l = RootPools \<or> (\<exists>q. l = ChildrenOf q)"
  shows "ready s' A F' qs"
  unfolding ready_def
proof (intro conjI ballI)
  note R = r [unfolded ready_def] and L = rel [unfolded released_tree_def]
  show "distinct qs" "tree_anchors (set qs) \<subseteq> A" using R by (auto simp: tree_anchors_def)
  show "forest (plinks s') A (plinks_of F')" using L by simp
  fix q assume q: "q \<in> set qs"
  have qn: "q \<notin> set ps" using R q by auto
  have keep: "F' k = F k" if "k \<in> pool_anchors q - {ChildrenOf q}" for k
  proof -
    have "k \<notin> tree_anchors (set ps)" using that qn by (auto simp: tree_anchors_def pool_anchors_def)
    moreover have "k \<noteq> l" using that l by (auto simp: pool_anchors_def)
    ultimately show ?thesis using L by blast
  qed
  have F: "\<forall>i < 33. F' (UsedOf q i) = F (UsedOf q i) \<and> F' (FreeOf q i) = F (FreeOf q i)"
    using keep by (auto simp: pool_anchors_def)
  have A: "pool_anchors p \<subseteq> A" if "p \<in> set ps \<union> set qs" for p using R that by (auto simp: tree_anchors_def)
  have g: "q \<notin> gone F (set ps)" using R q qn by (auto simp: gone_def)
  have d: "d \<notin> gone F (set ps)" if "d \<in> pool_chunks F q" for d
  proof
    assume "d \<in> gone F (set ps)"
    moreover have "d \<notin> set ps" using R q that by auto
    ultimately obtain p where p: "p \<in> set ps" "d \<in> pool_chunks F p" by (auto simp: gone_def)
    then have "p \<noteq> q" using qn by auto
    then show False using pool_chunks_disjoint [of "plinks s" A F p q] R A p q that by auto
  qed
  have cl: "cleared s s' (set ps) (gone F (set ps))" using L by simp
  show "pool_ok s' F' q"
    by (rule pool_ok_cong [of s F])
      (use R q qn cl F g d cleared_same [OF cl] in \<open>auto simp: cleared_def\<close>)
  show "pool_chunks F' q \<inter> set qs = {}" using R q pool_chunks_cong [OF F] by auto
qed

lemma ready_appendD: "ready s A F (ps @ qs) \<Longrightarrow> ready s A F ps"
  by (auto simp: ready_def tree_anchors_def)

lemma remove1_map_SiblingOf: "remove1 (SiblingOf p) (map SiblingOf xs) = map SiblingOf (remove1 p xs)"
  by (induction xs) auto

lemma hangs_cong:
  "\<forall>p \<in> set (pnodes t). F' (ChildrenOf p) = F (ChildrenOf p) \<Longrightarrow> hangs F' t = hangs F t"
proof (induction t)
  case (PNode p ts)
  have "hangs F' t = hangs F t" if "t \<in> set ts" for t
    by (rule PNode.IH [OF that]) (use PNode.prems that in auto)
  then show ?case using PNode.prems by simp
qed

lemma sum_buckets: "sum_list (map f ([0 ..< 32] @ [32])) = (\<Sum>i < 33. f i)" for f :: "nat \<Rightarrow> u64"
proof -
  have "(\<Sum>i < 33. f i) = sum_list (map f [0 ..< 33])"
    by (simp add: interv_sum_list_conv_sum_set_nat atLeast0LessThan)
  moreover have "[0 ..< 33] = [0 ..< 32] @ [32 :: nat]" by (simp add: upt_rec)
  ultimately show ?thesis by metis
qed

text \<open>The first part, for the first pool of a list.\<close>

lemma pool_unlink_ok:
  assumes r: "ready s A F [p]" and l: "l \<in> A" "l = RootPools \<or> (\<exists>q. l = ChildrenOf q)" and F: "p \<in> set (F l)" "rest = remove1 p (F l)"
  shows "\<exists>s' F'. pool_unlink s p = Some (pl_size (pools s p), pl_element_count (pools s p), s') \<and>
    cleared s s' {p} (pool_chunks F p) \<and> forest (plinks s') A (plinks_of F') \<and> F' l = rest \<and>
    (\<forall>k. k \<noteq> l \<and> k \<notin> pool_anchors p - {ChildrenOf p} \<longrightarrow> F' k = F k) \<and>
    pl_size (pools s' p) = pl_size (pools s p) \<and> pl_element_count (pools s' p) = pl_element_count (pools s p)"
proof -
  note R = r [unfolded ready_def, simplified]
  have fr: "forest (plinks s) A (plinks_of F)" and A: "pool_anchors p \<subseteq> A" using R by (auto simp: tree_anchors_def)
  have pk: "pool_ok s F p" "p \<notin> pool_chunks F p" using R by auto
  have live: "live (pmem s) p = Some POOL_BYTES" using pk(1) by (simp add: pool_ok_def)
  have L: "plinks_of F l = map SiblingOf (F l)" using l(2) by auto
  have "remove1 (SiblingOf p) (plinks_of F l) = map SiblingOf rest"
    unfolding L F(2) by (rule remove1_map_SiblingOf)
  moreover have "(plinks_of F)(l := map SiblingOf rest) = plinks_of (F(l := rest))"
  proof
    fix k show "((plinks_of F)(l := map SiblingOf rest)) k = plinks_of (F(l := rest)) k" using l(2) by (cases k) auto
  qed
  ultimately obtain h where
    h: "plist_del s (SiblingOf p) = Some (s\<lparr>plinks := h\<rparr>)" "forest h A (plinks_of (F(l := rest)))"
    using forest_del [OF fr l(1), of "SiblingOf p"] L F(1) by (auto simp: plist_del_def)
  let ?s = "s\<lparr>plinks := h\<rparr>" and ?F = "F(l := rest)"
  have ch: "?F (UsedOf p i) = F (UsedOf p i)" "?F (FreeOf p i) = F (FreeOf p i)" for i using l(2) by auto
  have ok: "bucket_ok ?s ?F p i" if "i < 33" for i
    by (rule bucket_ok_cong [of s F]) (use pk(1) that ch in \<open>auto simp: pool_ok_def same_chunk_def\<close>)
  have pc: "pool_chunks ?F p = pool_chunks F p" by (rule pool_chunks_cong) (use ch in simp)
  let ?is = "[0 ..< 32] @ [32 :: nat]"
  have "\<exists>s'. term_buckets ?s p (validates (pools s p)) ?is 0 0 = Some (0 + sum_list (map (\<lambda>i. used_size (pl_buckets (pools ?s p) i)) ?is),
      0 + sum_list (map (\<lambda>i. used_element_count (pl_buckets (pools ?s p) i)) ?is), s') \<and>
    cleared ?s s' {p} (\<Union>i \<in> set ?is. bucket_chunks ?F p i) \<and> forest (plinks s') A (plinks_of (empty_lists p (set ?is) ?F)) \<and>
    pl_size (pools s' p) = pl_size (pools ?s p) \<and> pl_element_count (pools s' p) = pl_element_count (pools ?s p)"
    by (rule term_buckets_ok) (use ok h(2) A live pk(2) pc in auto)
  then obtain s' where t: "term_buckets ?s p (validates (pools s p)) ?is 0 0 =
      Some (0 + sum_list (map (\<lambda>i. used_size (pl_buckets (pools ?s p) i)) ?is),
        0 + sum_list (map (\<lambda>i. used_element_count (pl_buckets (pools ?s p) i)) ?is), s')"
    "cleared ?s s' {p} (\<Union>i \<in> set ?is. bucket_chunks ?F p i)" "forest (plinks s') A (plinks_of (empty_lists p (set ?is) ?F))"
    "pl_size (pools s' p) = pl_size (pools ?s p)" "pl_element_count (pools s' p) = pl_element_count (pools ?s p)" by blast
  have sums: "sum_list (map (\<lambda>i. used_size (pl_buckets (pools ?s p) i)) ?is) = pl_size (pools s p)"
    "sum_list (map (\<lambda>i. used_element_count (pl_buckets (pools ?s p) i)) ?is) = pl_element_count (pools s p)"
    unfolding sum_buckets using pk(1) by (simp_all add: pool_ok_def)
  have "set ?is = {..<33}" by auto
  then have "(\<Union>i \<in> set ?is. bucket_chunks ?F p i) = pool_chunks F p" unfolding pc [symmetric] by (simp add: pool_chunks_def)
  with t(2) have c: "cleared s s' {p} (pool_chunks F p)" by (simp add: cleared_def)
  have run: "pool_unlink s p = Some (pl_size (pools s p), pl_element_count (pools s p), s')"
    using h(1) live t(1) unfolding sums by (simp add: pool_unlink_def pool_get_def AMPOOL_STEP_COUNT_def)
  have "empty_lists p (set ?is) ?F l = rest" using l(2) by (auto simp: empty_lists_def)
  moreover have "\<forall>k. k \<noteq> l \<and> k \<notin> pool_anchors p - {ChildrenOf p} \<longrightarrow> empty_lists p (set ?is) ?F k = F k"
    by (auto simp: empty_lists_def pool_anchors_def)
  ultimately show ?thesis using run c t(3-5) by (intro exI [of _ s'] exI [of _ "empty_lists p (set ?is) ?F"]) simp
qed

text \<open>A list of trees, when each of its trees can be released.\<close>

definition can_release :: "ptree \<Rightarrow> bool" where
  "can_release t \<longleftrightarrow>
     (\<forall>s A F l rest. ready s A F (pnodes t) \<longrightarrow> hangs F t \<longrightarrow> l \<in> A \<longrightarrow> l = RootPools \<or> (\<exists>q. l = ChildrenOf q) \<longrightarrow>
        l \<notin> tree_anchors (set (pnodes t)) \<longrightarrow> proot t \<in> set (F l) \<longrightarrow> rest = remove1 (proot t) (F l) \<longrightarrow>
        (\<exists>s' F'. ampool_pool_free_rec s (proot t) = Some s' \<and> released_tree s s' A F F' (set (pnodes t)) l rest))"

lemma free_pools_step:
  assumes fr: "forest (plinks s) A (plinks_of F)" and l: "l \<in> A" "l = RootPools \<or> (\<exists>q. l = ChildrenOf q)"
  shows "F l = [] \<Longrightarrow> free_pools s l = Some s"
    and "F l = p # rest \<Longrightarrow> free_pools s l = do { s \<leftarrow> ampool_pool_free_rec s p; free_pools s l }"
proof -
  assume "F l = []"
  then have "plinks_of F l = []" using l(2) by auto
  with forest_is_empty [OF fr l(1)] show "free_pools s l = Some s" by (subst free_pools.simps) simp
next
  assume "F l = p # rest"
  then have L: "plinks_of F l = SiblingOf p # map SiblingOf rest" using l(2) by auto
  with forest_is_empty [OF fr l(1)] forest_first [OF fr l(1) L]
  show "free_pools s l = do { s \<leftarrow> ampool_pool_free_rec s p; free_pools s l }"
    by (subst free_pools.simps) (cases "pool_unlink s p"; auto simp: ampool_pool_free_rec_def)
qed

lemma free_pools_ok:
  assumes "\<forall>t \<in> set ts. can_release t" and "ready s A F (concat (map pnodes ts))" and "\<forall>t \<in> set ts. hangs F t"
    and "l \<in> A" "l = RootPools \<or> (\<exists>q. l = ChildrenOf q)" and "l \<notin> tree_anchors (set (concat (map pnodes ts)))"
    and "F l = map proot ts"
  shows "\<exists>s' F'. free_pools s l = Some s' \<and> released_tree s s' A F F' (set (concat (map pnodes ts))) l []"
  using assms
proof (induction ts arbitrary: s F)
  case Nil
  have "free_pools s l = Some s" by (rule free_pools_step(1) [of s A F]) (use Nil.prems in \<open>auto simp: ready_def\<close>)
  moreover have "released_tree s s A F F {} l []"
    using Nil.prems by (simp add: released_tree_def ready_def cleared_def gone_def)
  ultimately show ?case by auto
next
  case (Cons t ts)
  let ?N = "set (pnodes t)" and ?M = "set (concat (map pnodes ts))"
  have rd: "ready s A F (pnodes t @ concat (map pnodes ts))" using Cons.prems(2) by simp
  have lt: "l \<notin> tree_anchors ?N" "l \<notin> tree_anchors ?M" using Cons.prems(6) by (auto simp: tree_anchors_def)
  have cr: "can_release t" and hg: "hangs F t" and Fl: "proot t \<in> set (F l)" "map proot ts = remove1 (proot t) (F l)"
    using Cons.prems(1,3,7) by simp_all
  from cr [unfolded can_release_def, rule_format, OF ready_appendD [OF rd] hg Cons.prems(4,5) lt(1) Fl] obtain s1 F1 where
    s1: "ampool_pool_free_rec s (proot t) = Some s1" "released_tree s s1 A F F1 ?N l (map proot ts)" by blast
  have rd1: "ready s1 A F1 (concat (map pnodes ts))" by (rule ready_frame [OF rd s1(2) Cons.prems(5)])
  have dj: "?N \<inter> ?M = {}" using rd by (auto simp: ready_def)
  have keep: "F1 k = F k" if "k \<in> tree_anchors ?M" for k
  proof -
    have "k \<notin> tree_anchors ?N" using that dj by (fastforce simp: tree_anchors_def pool_anchors_def)
    moreover have "k \<noteq> l" using that lt(2) by auto
    ultimately show ?thesis using s1(2) by (simp add: released_tree_def)
  qed
  have hg: "hangs F1 u" if "u \<in> set ts" for u
  proof -
    have "\<forall>p \<in> set (pnodes u). F1 (ChildrenOf p) = F (ChildrenOf p)"
      using keep that by (auto simp: tree_anchors_def pool_anchors_def)
    then have "hangs F1 u = hangs F u" by (rule hangs_cong)
    then show ?thesis using Cons.prems(3) that by simp
  qed
  have "F1 l = map proot ts" using s1(2) by (simp add: released_tree_def)
  with Cons.IH [of s1 F1] Cons.prems(1,4,5) rd1 hg lt(2) obtain s2 F2 where
    s2: "free_pools s1 l = Some s2" "released_tree s1 s2 A F1 F2 ?M l []" by auto
  have pcs: "pool_chunks F1 p = pool_chunks F p" if "p \<in> ?M" for p
  proof (rule pool_chunks_cong, intro allI impI conjI)
    fix i :: nat assume "i < 33"
    with that have "UsedOf p i \<in> tree_anchors ?M" "FreeOf p i \<in> tree_anchors ?M"
      unfolding tree_anchors_def pool_anchors_def by blast+
    then show "F1 (UsedOf p i) = F (UsedOf p i)" "F1 (FreeOf p i) = F (FreeOf p i)" using keep by blast+
  qed
  have gM: "gone F1 ?M = gone F ?M" using pcs by (simp add: gone_def)
  have "cleared s s2 (?N \<union> ?M) (gone F ?N \<union> gone F1 ?M)"
    using cleared_trans s1(2) s2(2) unfolding released_tree_def by blast
  then have c: "cleared s s2 (?N \<union> ?M) (gone F (?N \<union> ?M))" unfolding gM gone_Un .
  have "released_tree s s2 A F F2 (?N \<union> ?M) l []"
    using c s1(2) s2(2) by (auto simp: released_tree_def tree_anchors_Un)
  moreover have "free_pools s l = Some s2"
    using free_pools_step(2) [of s A F l "proot t" "map proot ts"] Cons.prems(2,4,5,7) s1(1) s2(1) by (simp add: ready_def)
  ultimately show ?case by auto
qed

lemma can_release_all: "can_release t"
proof (induction t)
  case (PNode p ts)
  show ?case
    unfolding can_release_def
  proof (intro allI impI)
    fix s A F l rest
    let ?M = "set (concat (map pnodes ts))"
    assume r: "ready s A F (pnodes (PNode p ts))" and hg: "hangs F (PNode p ts)" and l: "l \<in> A" "l = RootPools \<or> (\<exists>q. l = ChildrenOf q)"
      and ln: "l \<notin> tree_anchors (set (pnodes (PNode p ts)))" and F: "proot (PNode p ts) \<in> set (F l)" "rest = remove1 (proot (PNode p ts)) (F l)"
    have r': "ready s A F ([p] @ concat (map pnodes ts))" using r by simp
    note rp = ready_appendD [OF r']
    have F': "p \<in> set (F l)" "rest = remove1 p (F l)" using F by simp_all
    from pool_unlink_ok [OF rp l F'] obtain s1 F1 where
      s1: "pool_unlink s p = Some (pl_size (pools s p), pl_element_count (pools s p), s1)"
        "cleared s s1 {p} (pool_chunks F p)" "forest (plinks s1) A (plinks_of F1)" "F1 l = rest"
        "\<forall>k. k \<noteq> l \<and> k \<notin> pool_anchors p - {ChildrenOf p} \<longrightarrow> F1 k = F k"
        "pl_size (pools s1 p) = pl_size (pools s p)" "pl_element_count (pools s1 p) = pl_element_count (pools s p)" by blast
    have pM: "p \<notin> ?M" using r by (simp add: ready_def)
    have lM: "l \<notin> tree_anchors ?M" "l \<notin> pool_anchors p" using ln by (auto simp: tree_anchors_def)
    have keep: "F1 k = F k" if "k \<in> insert (ChildrenOf p) (tree_anchors ?M)" for k
    proof -
      have "k \<notin> pool_anchors p - {ChildrenOf p}" using that pM by (fastforce simp: tree_anchors_def pool_anchors_def)
      moreover have "k \<noteq> l" using that lM by (auto simp: pool_anchors_def)
      ultimately show ?thesis using s1(5) by blast
    qed
    have live: "live (pmem s) p = Some POOL_BYTES" "p \<notin> pool_chunks F p" using rp by (auto simp: ready_def pool_ok_def)
    have lists: "\<forall>i < 33. F1 (UsedOf q i) = F (UsedOf q i) \<and> F1 (FreeOf q i) = F (FreeOf q i)" if "q \<in> ?M" for q
    proof (intro allI impI conjI)
      fix i :: nat assume "i < 33"
      with that have "UsedOf q i \<in> tree_anchors ?M" "FreeOf q i \<in> tree_anchors ?M"
        unfolding tree_anchors_def pool_anchors_def by blast+
      then show "F1 (UsedOf q i) = F (UsedOf q i)" "F1 (FreeOf q i) = F (FreeOf q i)" using keep by blast+
    qed
    have pcs: "pool_chunks F1 q = pool_chunks F q" if "q \<in> ?M" for q
      by (rule pool_chunks_cong [OF lists [OF that]])
    have gM: "gone F1 ?M = gone F ?M" using pcs by (simp add: gone_def)
    have r1: "ready s1 A F1 (concat (map pnodes ts))"
      unfolding ready_def
    proof (intro conjI ballI)
      show "distinct (concat (map pnodes ts))" "tree_anchors ?M \<subseteq> A" using r' by (auto simp: ready_def tree_anchors_def)
      show "forest (plinks s1) A (plinks_of F1)" by (rule s1(3))
      fix q assume q: "q \<in> ?M"
      have "tree_anchors (set ([p] @ concat (map pnodes ts))) \<subseteq> A" using r' by (simp add: ready_def)
      moreover have "pool_anchors p \<subseteq> tree_anchors (set ([p] @ concat (map pnodes ts)))"
        "pool_anchors q \<subseteq> tree_anchors (set ([p] @ concat (map pnodes ts)))"
        using q unfolding tree_anchors_def by (intro UN_upper; simp)+
      ultimately have A: "pool_anchors p \<subseteq> A" "pool_anchors q \<subseteq> A" by blast+
      have dis: "pool_chunks F p \<inter> pool_chunks F q = {}"
        by (rule pool_chunks_disjoint [of "plinks s" A]) (use r' A q pM in \<open>auto simp: ready_def\<close>)
      have "q \<notin> pool_chunks F p" using r' q unfolding ready_def by auto
      then have sq: "same_chunk s s1 q" by (rule cleared_same [OF s1(2)])
      have sd: "\<forall>d \<in> pool_chunks F q. same_chunk s s1 d" using dis cleared_same [OF s1(2)] by blast
      have "q \<noteq> p" using q pM by blast
      then have pq: "pools s1 q = pools s q" using s1(2) by (simp add: cleared_def)
      have "q \<in> set ([p] @ concat (map pnodes ts))" using q by simp
      then have qr: "pool_ok s F q" "pool_chunks F q \<inter> set ([p] @ concat (map pnodes ts)) = {}"
        using r' unfolding ready_def by blast+
      show "pool_ok s1 F1 q" by (intro qr(1) pool_ok_cong [OF _ pq sq lists [OF q] sd])
      have "?M \<subseteq> set ([p] @ concat (map pnodes ts))" by auto
      then show "pool_chunks F1 q \<inter> ?M = {}" unfolding pcs [OF q] using qr(2) by blast
    qed
    have hg1: "hangs F1 t" if "t \<in> set ts" for t
    proof -
      have "\<forall>q \<in> set (pnodes t). F1 (ChildrenOf q) = F (ChildrenOf q)"
        using keep that by (auto simp: tree_anchors_def pool_anchors_def)
      then have "hangs F1 t = hangs F t" by (rule hangs_cong)
      then show ?thesis using hg that by simp
    qed
    have cA: "ChildrenOf p \<in> A" using rp by (auto simp: ready_def tree_anchors_def pool_anchors_def)
    have cn: "ChildrenOf p \<notin> tree_anchors ?M" using pM by (auto simp: tree_anchors_def pool_anchors_def)
    have "F1 (ChildrenOf p) = map proot ts" using keep hg by simp
    with free_pools_ok [of ts s1 A F1 "ChildrenOf p"] PNode.IH r1 hg1 cA cn obtain s2 F2 where
      s2: "free_pools s1 (ChildrenOf p) = Some s2" "released_tree s1 s2 A F1 F2 ?M (ChildrenOf p) []" by auto
    note c2 = s2(2) [unfolded released_tree_def gM, THEN conjunct1]
    have pg: "p \<notin> gone F ?M" using r' pM unfolding ready_def gone_def by auto
    have l2: "live (pmem s2) p = Some POOL_BYTES" "pools s2 p = pools s1 p"
      using c2 s1(2) live pg pM by (auto simp: cleared_def)
    let ?m = "(pmem s2)\<lparr>live := (live (pmem s2))(p := None)\<rparr>"
    let ?s3 = "s2\<lparr>pmem := ?m\<rparr>"
    have rel: "pool_release s2 p (pl_size (pools s p)) (pl_element_count (pools s p)) = Some ?s3"
      using l2 s1(6,7) by (simp add: pool_release_def pool_get_def free_block_def)
    have c3: "cleared s2 ?s3 {} {p}" by (simp add: cleared_def without_one)
    have "{p} \<union> (?M \<union> {}) = set (pnodes (PNode p ts))"
      "pool_chunks F p \<union> (gone F ?M \<union> {p}) = gone F (set (pnodes (PNode p ts)))" by (auto simp: gone_def)
    then have c: "cleared s ?s3 (set (pnodes (PNode p ts))) (gone F (set (pnodes (PNode p ts))))"
      using cleared_trans [OF s1(2) cleared_trans [OF c2 c3]] by metis
    have "F2 l = rest" using s2(2) s1(4) lM by (auto simp: released_tree_def pool_anchors_def)
    moreover have "F2 k = F k" if "k \<noteq> l" "k \<notin> tree_anchors (set (pnodes (PNode p ts)))" for k
    proof -
      have "k \<notin> pool_anchors p" "k \<notin> tree_anchors ?M" using that(2) by (auto simp: tree_anchors_def)
      then show ?thesis using s2(2) s1(5) that(1) unfolding released_tree_def pool_anchors_def by auto
    qed
    ultimately have "released_tree s ?s3 A F F2 (set (pnodes (PNode p ts))) l rest"
      using c s2(2) by (simp add: released_tree_def)
    moreover have "ampool_pool_free_rec s (proot (PNode p ts)) = Some ?s3"
      using s1(1) s2(1) rel by (simp add: ampool_pool_free_rec_def)
    ultimately show "\<exists>s' F'. ampool_pool_free_rec s (proot (PNode p ts)) = Some s' \<and>
        released_tree s s' A F F' (set (pnodes (PNode p ts))) l rest" by blast
  qed
qed

end
