(* ===== verification/AmPoolProps.thy ===== *)
theory AmPoolProps
  imports AmPoolTree
begin

text \<open>
  The properties of the pools: creation, allocation, release, reallocation, guard bytes, and the release
  of a tree of pools.
\<close>

section \<open>Writes of the client\<close>

text \<open>A client writes to the data of a chunk it holds: nothing else changes.\<close>

lemma client_write:
  assumes ok: "pools_ok s P F" and p: "p \<in> P" "i < 33" and c: "c \<in> set (F (UsedOf p i))"
    and g: "\<forall>k. unat (chunk_size (chunks s c)) \<le> k \<longrightarrow> g k = cdata s c k"
  shows "pools_ok (with_bytes s c g) P F"
    and "view (with_bytes s c g) F p = (view s F p)(c + CHUNK_BYTES \<mapsto> map g [0 ..< unat (chunk_size (chunks s c))])"
    and "q \<in> P \<Longrightarrow> q \<noteq> p \<Longrightarrow> view (with_bytes s c g) F q = view s F q"
proof -
  let ?t = "with_bytes s c g"
  note here = used_only_here [OF ok p c] and bo = pools_okD(4) [OF ok p]
  have ch: "changed s ?t p i c" by (simp add: changed_def same_chunk_def)
  have mk: "marked ?t v a False d = marked s v a False d" for v a d
  proof (cases "d = c")
    case True
    then show ?thesis using g by (auto simp: marked_def chunk_ok_def guarded_def)
  next
    case False
    then show ?thesis by (intro marked_same) (simp add: same_chunk_def)
  qed
  have mf: "marked ?t v a True d = marked s v a True d" if "d \<in> set (F (FreeOf p i))" for v a d
    using that here(2) [OF p] by (intro marked_same) (auto simp: same_chunk_def)
  have ds: "data_size ?t i d = data_size s i d" for d by (simp add: data_size_def)
  have "bytes_of ?t cs = bytes_of s cs" for cs by (simp add: bytes_of_def)
  then have "bucket_ok ?t F p i" using bo mf by (simp add: bucket_ok_def Let_def mk ds)
  then show "pools_ok ?t P F"
    by (intro pools_ok_step [OF ok p ch here(1)]) (use pools_okD(2) [OF ok p(1)] here(2,3) in auto)
  show "view ?t F p = (view s F p)(c + CHUNK_BYTES \<mapsto> map g [0 ..< unat (chunk_size (chunks s c))])"
  proof (rule view_eqI)
    fix d
    show "view ?t F p (d + CHUNK_BYTES) =
        ((view s F p)(c + CHUNK_BYTES \<mapsto> map g [0 ..< unat (chunk_size (chunks s c))])) (d + CHUNK_BYTES)"
      using p c by (cases "d = c") (auto simp: view_chunk)
  qed (simp add: view_small CHUNK_BYTES_def)
  show "view ?t F q = view s F q" if "q \<in> P" "q \<noteq> p"
    by (rule view_frame [OF ch]) (use here(3) that in auto)
qed

text \<open>A pointer in use stays in use, in its bucket, when another chunk is taken into use.\<close>

lemma into_use_used: "d \<in> set (F (UsedOf p j)) \<Longrightarrow> d \<in> set (into_use p i c F (UsedOf p j))"
  by (cases "i = j") (simp_all add: into_use_def)

section \<open>A pool with one chunk in use, for the examples\<close>

definition demo_bucket :: "nat \<Rightarrow> ampool_bucket" where
  "demo_bucket i = zero_bucket\<lparr>element_size := step_size i\<rparr>"

definition demo_pool :: ampool_state where
  "demo_pool =
     \<lparr>globals_magic = 0, hierarchy_mutex = False,
      plinks = (\<lambda>l. \<lparr>lnext = Some l, lprev = Some l\<rparr>)(
        RootPools := \<lparr>lnext = Some (SiblingOf 1), lprev = Some (SiblingOf 1)\<rparr>,
        SiblingOf 1 := \<lparr>lnext = Some RootPools, lprev = Some RootPools\<rparr>,
        UsedOf 1 1 := \<lparr>lnext = Some (ChunkOf 2), lprev = Some (ChunkOf 2)\<rparr>,
        ChunkOf 2 := \<lparr>lnext = Some (UsedOf 1 1), lprev = Some (UsedOf 1 1)\<rparr>),
      pools = (\<lambda>_. \<lparr>pl_buckets = demo_bucket(1 := (demo_bucket 1)\<lparr>used_size := 24, used_element_count := 1, total_size := 24,
          total_element_count := 1\<rparr>), pl_size = 24, pl_element_count = 1, pl_parent = None, pl_flags = 1, pl_name = None\<rparr>),
      chunks = (\<lambda>_. \<lparr>chunk_name = None, chunk_size = 24, chunk_magic = 0\<rparr>), cdata = (\<lambda>_ _. 0),
      pmem = \<lparr>live = [1 \<mapsto> POOL_BYTES, 2 \<mapsto> 64], calls = 2, refusals = 0\<rparr>\<rparr>"

definition demo_lists :: "plink \<Rightarrow> addr list" where
  "demo_lists = (\<lambda>_. [])(RootPools := [1], UsedOf 1 1 := [2])"

lemma demo_room: "bucket_no 24 = 1" "room 1 24 = 32"
  by (simp_all add: bucket_no_def room_def)

lemma demo_marked: "marked demo_pool v 32 False 2"
proof -
  have "chunk_ok demo_pool 32 2" by (simp add: chunk_ok_def demo_pool_def CHUNK_BYTES_def)
  then show ?thesis by (simp add: marked_def guarded_def demo_pool_def expect_def chunk_magic_ptr_def)
qed

lemma demo_bucket_ok: "i < 33 \<Longrightarrow> bucket_ok demo_pool demo_lists 1 i"
proof -
  assume i: "i < 33"
  have z: "count_ok zero_range" by (simp add: count_ok_def zero_range_def)
  have s: "chunk_size (chunks demo_pool c) = 24" for c by (simp add: demo_pool_def)
  have b: "pl_buckets (pools demo_pool q) = demo_bucket(1 := (demo_bucket 1)\<lparr>used_size := 24, used_element_count := 1,
      total_size := 24, total_element_count := 1\<rparr>)" for q by (simp add: demo_pool_def)
  show ?thesis
  proof (cases "i = 1")
    case True
    have "data_size demo_pool 1 2 = 32" unfolding data_size_def s using demo_room(2) by simp
    then show ?thesis using True z demo_marked
      by (simp add: bucket_ok_def Let_def b demo_bucket_def zero_bucket_def bucket_stats_ok_def demo_lists_def bytes_of_def s demo_room)
  next
    case False
    then show ?thesis using z
      by (simp add: bucket_ok_def Let_def b demo_bucket_def zero_bucket_def bucket_stats_ok_def demo_lists_def bytes_of_def)
  qed
qed

lemma sum_33: "(\<Sum>i < 33. (f :: nat \<Rightarrow> u64) i) = sum_list (map f [0 ..< 33])"
  by (simp add: interv_sum_list_conv_sum_set_nat atLeast0LessThan)

lemma demo_pools_ok: "pools_ok demo_pool {1} demo_lists"
proof -
  have A: "anchors {1} = {RootPools, ChildrenOf 1} \<union> (UsedOf 1 ` {..<33} \<union> FreeOf 1 ` {..<33})" by (auto simp: anchors_def)
  have L: "plinks_of demo_lists l = (if l = RootPools then [SiblingOf 1] else if l = UsedOf 1 1 then [ChunkOf 2] else [])" for l
    by (cases l) (simp_all add: demo_lists_def)
  have "dlist (plinks demo_pool) l (plinks_of demo_lists l)" if "l \<in> anchors {1}" for l
    unfolding L using that by (auto simp: dlist_def demo_pool_def anchors_simps)
  then have "forest (plinks demo_pool) (anchors {1}) (plinks_of demo_lists)"
    unfolding forest_def by (auto simp: L anchors_simps)
  moreover have "pool_ok demo_pool demo_lists 1"
    using demo_bucket_ok unfolding pool_ok_def sum_33
    by (simp add: demo_pool_def demo_bucket_def zero_bucket_def upt_rec [of _ 33])
  moreover have "chunks_in {1} demo_lists \<inter> {1} = {}" by (auto simp: chunks_in_def demo_lists_def split: if_splits)
  moreover have "\<not> hierarchy_mutex demo_pool" by (simp add: demo_pool_def)
  ultimately show ?thesis by (simp add: pools_ok_def)
qed

lemma demo_used: "2 \<in> set (demo_lists (UsedOf 1 1))" "chunk_size (chunks demo_pool 2) = 24"
  by (simp_all add: demo_lists_def demo_pool_def)

section \<open>Allocation and release\<close>

text \<open>
  C16. \<open>ampool_op_alloc\<close> with a size up to \<^verbatim>\<open>2^32 - 16\<close> returns, with no assertion failing, and keeps the
  invariant of all pools, whatever \<^verbatim>\<open>malloc\<close> does: NULL (then no data and no counter changes, and the size is 0
  or there was no free chunk to reuse), or a pointer that was not in use in any pool, to as many bytes as
  asked for, the first 1024 of them 0, where the data behind all other pointers of all pools is as before and
  size and count of the pool have grown by the element.
\<close>

theorem ampool_alloc_correct:
  assumes "pools_ok s P F" and "p \<in> P" and "malloc_spec alloc" and "unat sz \<le> 2 ^ 32 - 16"
  shows "\<exists>r s'. ampool_op_alloc alloc s p sz name = Some (r, s') \<and>
    (case r of
       None \<Rightarrow> (sz = 0 \<or> F (FreeOf p (bucket_no (unat sz))) = []) \<and> pools_ok s' P F \<and> pools s' = pools s \<and>
         (\<forall>q \<in> P. view s' F q = view s F q)
     | Some ptr \<Rightarrow>
         (\<exists>F' bs. pools_ok s' P F' \<and> (\<forall>q \<in> P. view s F q ptr = None) \<and>
            length bs = unat sz \<and> (\<forall>k < min (unat sz) 1024. bs ! k = 0) \<and>
            view s' F' p = (view s F p)(ptr \<mapsto> bs) \<and> (\<forall>q \<in> P. q \<noteq> p \<longrightarrow> view s' F' q = view s F q) \<and>
            ampool_op_get_size s' p = map_option (\<lambda>n. n + ucast sz) (ampool_op_get_size s p) \<and>
            pl_element_count (pools s' p) = pl_element_count (pools s p) + 1))"
proof -
  from ampool_op_alloc_ok [OF assms] obtain r s' where
    run: "ampool_op_alloc alloc s p sz name = Some (r, s')" and post: "alloc_post s s' P F p sz r" by blast
  have l: "live (pmem s) p = Some POOL_BYTES" by (rule pools_okD(3) [OF assms(1,2)])
  show ?thesis
  proof (cases r)
    case None
    with run post show ?thesis by (intro exI [of _ r] exI [of _ s']) (simp add: alloc_post_def)
  next
    case (Some ptr)
    with post obtain i c bs where *: "pools_ok s' P (into_use p i c F)" "\<forall>q \<in> P. view s F q ptr = None" "length bs = unat sz"
      "\<forall>k < min (unat sz) 1024. bs ! k = 0" "view s' (into_use p i c F) p = (view s F p)(ptr \<mapsto> bs)"
      "\<forall>q \<in> P. q \<noteq> p \<longrightarrow> view s' (into_use p i c F) q = view s F q" "pl_size (pools s' p) = pl_size (pools s p) + ucast sz"
      "pl_element_count (pools s' p) = pl_element_count (pools s p) + 1" by (auto simp: alloc_post_def)
    have "live (pmem s') p = Some POOL_BYTES" by (rule pools_okD(3) [OF *(1) assms(2)])
    then have "ampool_op_get_size s' p = map_option (\<lambda>n. n + ucast sz) (ampool_op_get_size s p)"
      using l *(7) by (simp add: ampool_op_get_size_def pool_get_def)
    with run Some * show ?thesis by (intro exI [of _ r] exI [of _ s']) auto
  qed
qed

theorem ampool_alloc_correct_witness:
  "\<exists>r s'. ampool_op_alloc first_fit demo_pool 1 100 None = Some (r, s') \<and>
     (case r of None \<Rightarrow> pools s' = pools demo_pool
      | Some ptr \<Rightarrow> (\<exists>F' bs. view s' F' 1 = (view demo_pool demo_lists 1)(ptr \<mapsto> bs) \<and> length bs = 100 \<and>
          ampool_op_get_size s' 1 = Some 124))"
proof -
  have g: "ampool_op_get_size demo_pool 1 = Some 24" by (simp add: ampool_op_get_size_def pool_get_def demo_pool_def)
  have u: "unat (100 :: u32) \<le> 2 ^ 32 - 16" by simp
  from ampool_alloc_correct [OF demo_pools_ok insertI1 first_fit_spec u, of None] obtain r s' where
    "ampool_op_alloc first_fit demo_pool 1 100 None = Some (r, s')" and
    "case r of None \<Rightarrow> pools s' = pools demo_pool
     | Some ptr \<Rightarrow> (\<exists>F' bs. view s' F' 1 = (view demo_pool demo_lists 1)(ptr \<mapsto> bs) \<and> length bs = unat (100 :: u32) \<and>
        ampool_op_get_size s' 1 = map_option (\<lambda>n. n + ucast (100 :: u32)) (Some 24))"
    unfolding g by (force split: option.splits)
  then show ?thesis by (intro exI [of _ r] exI [of _ s']) (simp split: option.splits)
qed

text \<open>
  C17. \<open>ampool_op_free\<close> of a pointer in use, with the size that was asked for, returns with no assertion
  failing, keeps the invariant, takes the pointer out of use, leaves all other data of all pools as it was,
  and shrinks size and count. A chunk of at most 512 bytes is then what the next allocation from its
  bucket returns, also when \<^verbatim>\<open>malloc\<close> fails; a larger one is given back to \<^verbatim>\<open>malloc\<close>.
\<close>

theorem ampool_free_correct:
  assumes "pools_ok s P F" and "p \<in> P" and "i < 33" and "c \<in> set (F (UsedOf p i))" and "malloc_spec alloc"
  shows "\<exists>s' F'. ampool_op_free s p (c + CHUNK_BYTES) (chunk_size (chunks s c)) = Some s' \<and> pools_ok s' P F' \<and>
    view s' F' p = (view s F p)(c + CHUNK_BYTES := None) \<and> (\<forall>q \<in> P. q \<noteq> p \<longrightarrow> view s' F' q = view s F q) \<and>
    pl_size (pools s' p) = pl_size (pools s p) - ucast (chunk_size (chunks s c)) \<and>
    pl_element_count (pools s' p) = pl_element_count (pools s p) - 1 \<and>
    (if i < 32
     then \<forall>sz. 0 < sz \<longrightarrow> bucket_no (unat sz) = i \<longrightarrow>
            (\<exists>s''. ampool_op_alloc alloc s' p sz name = Some (Some (c + CHUNK_BYTES), s''))
     else live (pmem s') c = None)"
proof -
  from ampool_op_free_ok [OF assms(1-4)] obtain s' where
    run: "ampool_op_free s p (c + CHUNK_BYTES) (chunk_size (chunks s c)) = Some s'" and post: "free_post s s' P F p i c" by blast
  let ?F = "out_of_use p i c F"
  have ok: "pools_ok s' P ?F" using post by (simp add: free_post_def)
  have again: "\<exists>s''. ampool_op_alloc alloc s' p sz name = Some (Some (c + CHUNK_BYTES), s'')"
    if i: "i < 32" "0 < sz" "bucket_no (unat sz) = i" for sz
  proof -
    have "unat sz \<le> 512" using i(1,3) by (simp add: bucket_no_def split: if_splits)
    then have "unat sz \<le> 2 ^ 32 - 16" by simp
    from ampool_op_alloc_ok [OF ok assms(2,5) this, of name] obtain r s'' where
      a: "ampool_op_alloc alloc s' p sz name = Some (r, s'')" "alloc_post s' s'' P ?F p sz r" by blast
    have R: "?F (FreeOf p i) = c # F (FreeOf p i)" using i(1) by (simp add: out_of_use_simps)
    show ?thesis
    proof (cases r)
      case None
      then show ?thesis using a(2) i R by (simp add: alloc_post_def)
    next
      case (Some ptr)
      then obtain d where "ptr = d + CHUNK_BYTES" "?F (FreeOf p i) = [] \<or> ?F (FreeOf p i) = d # tl (?F (FreeOf p i))"
        using a(2) i(3) by (auto simp: alloc_post_def)
      then show ?thesis using R a(1) Some by simp
    qed
  qed
  have e: "\<not> i < 32 \<Longrightarrow> i = 32" using assms(3) by simp
  show ?thesis using run post again e by (intro exI [of _ s'] exI [of _ ?F]) (auto simp: free_post_def)
qed

theorem ampool_free_correct_witness:
  "\<exists>s'. ampool_op_free demo_pool 1 34 24 = Some s' \<and> pl_size (pools s' 1) = 0 \<and>
     (\<exists>s''. ampool_op_alloc first_fit s' 1 17 None = Some (Some 34, s''))"
proof -
  have "(0 :: u32) < 17" "bucket_no (unat (17 :: u32)) = 1" by (simp_all add: bucket_no_def)
  moreover have "pl_size (pools demo_pool 1) = 24" "ucast (24 :: u32) = (24 :: u64)" by (simp_all add: demo_pool_def)
  ultimately show ?thesis
    using ampool_free_correct [OF demo_pools_ok insertI1 _ demo_used(1) first_fit_spec, of None] demo_used(2)
    by (fastforce simp: CHUNK_BYTES_def)
qed

section \<open>Reallocation\<close>

lemma used_chunk:
  assumes "pools_ok s P F" and "p \<in> P" "i < 33" and "c \<in> set (F (UsedOf p i))"
  shows "view s F p (c + CHUNK_BYTES) = Some (map (cdata s c) [0 ..< unat (chunk_size (chunks s c))])"
    and "chunk_ok s (data_size s i c) c" and "marked s (validates (pools s p)) (data_size s i c) False c"
  using bucket_okD(7) [OF pools_okD(4) [OF assms(1-3)] assms(4)] assms(3,4) by (auto simp: view_chunk marked_def)

lemma chunk_range: "chunk_ok s a c \<Longrightarrow> k + n \<le> unat (chunk_size (chunks s c)) \<Longrightarrow> range_in s c k n"
  by (rule chunk_range_in [of s a], assumption) (auto simp: chunk_ok_def)

text \<open>The contents of a chunk after \<^verbatim>\<open>realloc\<close>: the old bytes as far as there is room, then zeroes.\<close>

definition resized :: "u8 list \<Rightarrow> nat \<Rightarrow> u8 list" where
  "resized bs n = take n bs @ replicate (n - length bs) 0"

lemma resized_map:
  "map (\<lambda>j. if m \<le> j \<and> j < n then 0 else if j < m then f j else g j) [0 ..< n] = resized (map f [0 ..< k]) n"
  if "m = min k n"
  using that by (intro nth_equalityI) (auto simp: resized_def nth_append)

text \<open>Copying the old data to the new chunk and clearing the rest.\<close>

lemma realloc_copy:
  assumes ok: "pools_ok s P F" and p: "p \<in> P" "i < 33" "j < 33" and c: "c \<in> set (F (UsedOf p i))" and d: "d \<in> set (F (UsedOf p j))"
    and cd: "c \<noteq> d" and sz: "old = chunk_size (chunks s c)" "new = chunk_size (chunks s d)"
  shows "\<exists>t. do { s \<leftarrow> bytes_copy s d c 0 (unat (min old new)); bytes_fill s d (unat (min old new)) (unat (new - min old new)) 0 } = Some t \<and>
    pools_ok t P F \<and> chunks t = chunks s \<and> pools t = pools s \<and>
    view t F p = (view s F p)(d + CHUNK_BYTES \<mapsto> resized (map (cdata s c) [0 ..< unat old]) (unat new)) \<and>
    (\<forall>q \<in> P. q \<noteq> p \<longrightarrow> view t F q = view s F q)"
proof -
  let ?m = "min (unat old) (unat new)"
  let ?f = "\<lambda>k. if k < ?m then cdata s c k else cdata s d k"
  let ?g = "\<lambda>k. if ?m \<le> k \<and> k < unat new then 0 else ?f k"
  note oc = used_chunk(2) [OF ok p(1,2) c] and od = used_chunk(2) [OF ok p(1,3) d]
  have m: "unat (min old new) = ?m" "unat (new - min old new) = unat new - ?m"
    by (auto simp: min_def word_le_nat_alt unat_sub)
  have "bytes_copy s d c 0 ?m = Some (with_bytes s d ?f)"
    using bytes_copy_ok [OF chunk_range [OF od, of 0 ?m] chunk_range [OF oc, of 0 ?m]] cd sz by simp
  moreover have "range_in s d ?m (unat new - ?m)" by (rule chunk_range [OF od]) (simp add: sz)
  then have "bytes_fill (with_bytes s d ?f) d ?m (unat new - ?m) 0 = Some (with_bytes s d ?g)"
    by (subst bytes_fill_ok) (simp_all cong: if_cong)
  ultimately have run: "do { s \<leftarrow> bytes_copy s d c 0 (unat (min old new)); bytes_fill s d (unat (min old new)) (unat (new - min old new)) 0 } =
      Some (with_bytes s d ?g)" by (simp add: m)
  have g: "\<forall>k. unat (chunk_size (chunks s d)) \<le> k \<longrightarrow> ?g k = cdata s d k" using sz by auto
  note w = client_write [OF ok p(1,3) d g]
  have "map ?g [0 ..< unat (chunk_size (chunks s d))] = resized (map (cdata s c) [0 ..< unat old]) (unat new)"
    using resized_map [of ?m "unat old" "unat new"] sz by simp
  with run w show ?thesis by (intro exI [of _ "with_bytes s d ?g"]) simp
qed

text \<open>A chunk is moved: without room it is released; with room its bytes are copied into the new one, and it is released.\<close>

lemma realloc_refused:
  assumes ok: "pools_ok s P F" and p: "p \<in> P" "i < 33" and c: "c \<in> set (F (UsedOf p i))" and bs: "view s F p (c + CHUNK_BYTES) = Some bs"
    and run: "ampool_op_alloc alloc s p new name = Some (None, s1)" and post: "alloc_post s s1 P F p new (None)"
  shows "\<exists>s'. ampool_op_realloc alloc s p (c + CHUNK_BYTES) (chunk_size (chunks s c)) new name = Some (None, s') \<and>
    pools_ok s' P (out_of_use p i c F) \<and> (\<forall>q \<in> P. q \<noteq> p \<longrightarrow> view s' (out_of_use p i c F) q = view s F q) \<and>
    view s' (out_of_use p i c F) p = (view s F p)(c + CHUNK_BYTES := None)"
proof -
  from post have s1: "pools_ok s1 P F" "chunks s1 = chunks s" "\<forall>q \<in> P. view s1 F q = view s F q" by (simp_all add: alloc_post_def)
  from ampool_op_free_ok [OF s1(1) p c] obtain s' where
    "ampool_op_free s1 p (c + CHUNK_BYTES) (chunk_size (chunks s c)) = Some s'" and "free_post s1 s' P F p i c"
    unfolding s1(2) by blast
  with run s1 p(1) show ?thesis by (intro exI [of _ s']) (simp add: ampool_op_realloc_def free_post_def)
qed

lemma realloc_moved:
  assumes ok: "pools_ok s P F" and p: "p \<in> P" "i < 33" and c: "c \<in> set (F (UsedOf p i))" and bs: "view s F p (c + CHUNK_BYTES) = Some bs"
    and run: "ampool_op_alloc alloc s p new name = Some (Some ptr, s1)" and post: "alloc_post s s1 P F p new (Some ptr)"
  shows "\<exists>s' F'. ampool_op_realloc alloc s p (c + CHUNK_BYTES) (chunk_size (chunks s c)) new name = Some (Some ptr, s') \<and>
    pools_ok s' P F' \<and> (\<forall>q \<in> P. q \<noteq> p \<longrightarrow> view s' F' q = view s F q) \<and> ptr \<noteq> c + CHUNK_BYTES \<and> (\<forall>q \<in> P. view s F q ptr = None) \<and>
    view s' F' p = (view s F p)(c + CHUNK_BYTES := None, ptr \<mapsto> resized bs (unat new))"
proof -
  let ?old = "chunk_size (chunks s c)"
  have bs': "bs = map (cdata s c) [0 ..< unat ?old]" using used_chunk(1) [OF ok p c] bs by simp
  from post obtain j d ds where ptr: "ptr = d + CHUNK_BYTES" and j: "j < 33" and s1: "pools_ok s1 P (into_use p j d F)" and
    new: "\<forall>q \<in> P. view s F q ptr = None" and ds: "length ds = unat new" and v1: "view s1 (into_use p j d F) p = (view s F p)(ptr \<mapsto> ds)"
    and w1: "\<forall>q \<in> P. q \<noteq> p \<longrightarrow> view s1 (into_use p j d F) q = view s F q" by (auto simp: alloc_post_def)
  let ?F = "into_use p j d F"
  have cF: "c \<in> set (?F (UsedOf p i))" using c by (rule into_use_used)
  have dF: "d \<in> set (?F (UsedOf p j))" by (simp add: into_use_other)
  have cd: "c \<noteq> d" using p bs new ptr by auto
  have c1: "map (cdata s1 c) [0 ..< unat (chunk_size (chunks s1 c))] = bs"
    using used_chunk(1) [OF s1 p cF] bs v1 cd ptr by simp
  then have "unat (chunk_size (chunks s1 c)) = unat ?old" using bs' by (metis length_map length_upt diff_zero)
  then have z1: "?old = chunk_size (chunks s1 c)" by (simp add: word_unat_eq_iff)
  have "map (cdata s1 d) [0 ..< unat (chunk_size (chunks s1 d))] = ds"
    using used_chunk(1) [OF s1 p(1) j dF] v1 ptr by simp
  then have "unat (chunk_size (chunks s1 d)) = unat new" using ds by (metis length_map length_upt diff_zero)
  then have z2: "new = chunk_size (chunks s1 d)" by (simp add: word_unat_eq_iff)
  from realloc_copy [OF s1 p j cF dF cd z1 z2] obtain t where
    t: "do { s \<leftarrow> bytes_copy s1 d c 0 (unat (min ?old new)); bytes_fill s d (unat (min ?old new)) (unat (new - min ?old new)) 0 } = Some t"
      "pools_ok t P ?F" "chunks t = chunks s1" "view t ?F p = (view s1 ?F p)(ptr \<mapsto> resized bs (unat new))"
      "\<forall>q \<in> P. q \<noteq> p \<longrightarrow> view t ?F q = view s1 ?F q"
    using c1 z1 ptr by auto
  from ampool_op_free_ok [OF t(2) p cF] obtain s' where
    f: "ampool_op_free t p (c + CHUNK_BYTES) ?old = Some s'" and fp: "free_post t s' P ?F p i c" unfolding t(3) z1 by blast
  have "ampool_op_realloc alloc s p (c + CHUNK_BYTES) ?old new name = Some (Some ptr, s')"
    using run t(1) f ptr by (auto simp: ampool_op_realloc_def Let_def Option.bind_eq_Some_conv)
  moreover have "view s' (out_of_use p i c ?F) p = (view s F p)(c + CHUNK_BYTES := None, ptr \<mapsto> resized bs (unat new))"
    using fp t(4) v1 cd ptr by (simp add: free_post_def fun_upd_twist)
  moreover have "\<forall>q \<in> P. q \<noteq> p \<longrightarrow> view s' (out_of_use p i c ?F) q = view s F q"
    using fp t(5) w1 by (simp add: free_post_def)
  moreover have "pools_ok s' P (out_of_use p i c ?F)" using fp by (simp add: free_post_def)
  ultimately show ?thesis using new cd ptr by (intro exI [of _ s'] exI [of _ "out_of_use p i c ?F"]) simp
qed

text \<open>
  C34. \<open>ampool_op_realloc\<close> of a pointer in use returns with no assertion failing, keeps the invariant of all
  pools and leaves all other data of all pools as it was. The old pointer is released in any case: when
  no chunk can be had for the new size (or it is 0) the result is NULL and the old data is gone; otherwise
  it is a pointer that was not in use, to the old bytes cut to the new size or continued with zeroes.
\<close>

theorem ampool_realloc_correct:
  assumes "pools_ok s P F" and "p \<in> P" and "i < 33" and "c \<in> set (F (UsedOf p i))" and "malloc_spec alloc"
    and "unat new \<le> 2 ^ 32 - 16" and "view s F p (c + CHUNK_BYTES) = Some bs"
  shows "\<exists>r s' F'. ampool_op_realloc alloc s p (c + CHUNK_BYTES) (chunk_size (chunks s c)) new name = Some (r, s') \<and>
    pools_ok s' P F' \<and> (\<forall>q \<in> P. q \<noteq> p \<longrightarrow> view s' F' q = view s F q) \<and>
    view s' F' p (c + CHUNK_BYTES) = None \<and>
    (case r of
       None \<Rightarrow> view s' F' p = (view s F p)(c + CHUNK_BYTES := None)
     | Some ptr \<Rightarrow> (\<forall>q \<in> P. view s F q ptr = None) \<and>
         view s' F' p = (view s F p)(c + CHUNK_BYTES := None, ptr \<mapsto> resized bs (unat new)))"
proof -
  from ampool_op_alloc_ok [OF assms(1,2,5,6)] obtain r s1 where
    run: "ampool_op_alloc alloc s p new name = Some (r, s1)" and post: "alloc_post s s1 P F p new r" by blast
  show ?thesis
  proof (cases r)
    case None
    from realloc_refused [OF assms(1-4,7) run [unfolded None] post [unfolded None]] obtain s' where
      "ampool_op_realloc alloc s p (c + CHUNK_BYTES) (chunk_size (chunks s c)) new name = Some (None, s')" "pools_ok s' P (out_of_use p i c F)"
      "\<forall>q \<in> P. q \<noteq> p \<longrightarrow> view s' (out_of_use p i c F) q = view s F q"
      "view s' (out_of_use p i c F) p = (view s F p)(c + CHUNK_BYTES := None)" by blast
    then show ?thesis by (intro exI [of _ None] exI [of _ s'] exI [of _ "out_of_use p i c F"]) simp
  next
    case (Some ptr)
    from realloc_moved [OF assms(1-4,7) run [unfolded Some] post [unfolded Some]] obtain s' F' where
      "ampool_op_realloc alloc s p (c + CHUNK_BYTES) (chunk_size (chunks s c)) new name = Some (Some ptr, s')" "pools_ok s' P F'"
      "\<forall>q \<in> P. q \<noteq> p \<longrightarrow> view s' F' q = view s F q" "ptr \<noteq> c + CHUNK_BYTES" "\<forall>q \<in> P. view s F q ptr = None"
      "view s' F' p = (view s F p)(c + CHUNK_BYTES := None, ptr \<mapsto> resized bs (unat new))" by blast
    then show ?thesis by (intro exI [of _ "Some ptr"] exI [of _ s'] exI [of _ F']) simp
  qed
qed

theorem ampool_realloc_correct_witness:
  "\<exists>r s' F'. ampool_op_realloc first_fit demo_pool 1 34 24 30 None = Some (r, s') \<and>
    (case r of None \<Rightarrow> view s' F' 1 = (view demo_pool demo_lists 1)(34 := None)
     | Some ptr \<Rightarrow> view s' F' 1 = (view demo_pool demo_lists 1)(34 := None, ptr \<mapsto> replicate 30 0))"
proof -
  have v: "view demo_pool demo_lists 1 (2 + CHUNK_BYTES) = Some (replicate 24 0)"
    using used_chunk(1) [OF demo_pools_ok insertI1 _ demo_used(1)] demo_used(2)
    by (simp add: demo_pool_def map_replicate_trivial)
  have u: "unat (30 :: u32) \<le> 2 ^ 32 - 16" "resized (replicate 24 0) (unat (30 :: u32)) = replicate 30 0"
    by (simp_all add: resized_def flip: replicate_add)
  have e: "2 + CHUNK_BYTES = 34" by (simp add: CHUNK_BYTES_def)
  obtain r s' F' where "ampool_op_realloc first_fit demo_pool 1 34 24 30 None = Some (r, s')" and
    "case r of None \<Rightarrow> view s' F' 1 = (view demo_pool demo_lists 1)(34 := None)
     | Some ptr \<Rightarrow> view s' F' 1 = (view demo_pool demo_lists 1)(34 := None, ptr \<mapsto> replicate 30 0)"
    using ampool_realloc_correct [OF demo_pools_ok insertI1 _ demo_used(1) first_fit_spec u(1) v, of None]
    unfolding demo_used(2) u(2) e by (force split: option.splits)
  then show ?thesis by blast
qed

section \<open>Overruns\<close>

text \<open>
  C35. An overrun is found: when the pool validates, a chunk was in order, and since then the client has
  changed a byte behind its data (within the block it was given), \<open>ampool_op_free\<close> does not return: an assertion fails.
\<close>

theorem ampool_overrun_detected:
  assumes "pools_ok s P F" and "p \<in> P" and "i < 33" and "c \<in> set (F (UsedOf p i))" and "validates (pools s p)"
    and "unat (chunk_size (chunks s c)) \<le> k" and "k < data_size s i c" and "v \<noteq> cdata s c k"
  shows "ampool_op_free (with_bytes s c ((cdata s c)(k := v))) p (c + CHUNK_BYTES) (chunk_size (chunks s c)) = None"
proof -
  let ?t = "with_bytes s c ((cdata s c)(k := v))" and ?z = "chunk_size (chunks s c)"
  note ok = assms(1) and p = assms(2,3) and c = assms(4)
  note bo = pools_okD(4) [OF ok p] and uc = used_chunk(2,3) [OF ok p c]
  note cz = chunk_sizes [OF bo c]
  have i: "i = bucket_no (unat ?z)" by (rule bucket_okD(8) [OF bo c])
  have gb: "ampool_get_bucket p (align_size ?z) = Some (p, i)" using get_bucket_ok [of ?z] cz i by (simp add: word_less_nat_alt)
  have ok_t: "chunk_ok ?t (data_size s i c) c" using uc(1) by (simp add: chunk_ok_def)
  have "\<not> guarded ?t (data_size s i c) c False"
    using uc(2) assms(5-8) by (auto simp: marked_def guarded_def intro!: exI [of _ k])
  then have bad: "\<not> marked ?t True (data_size s i c) False c" by (simp add: marked_def)
  let ?bk = "pl_buckets (pools s p) i"
  have r: "unat (malloc_size ?bk ?z) = data_size s i c"
    unfolding data_size_def by (rule malloc_size_ok [OF bucket_okD(2) [OF bo]]) (use cz in simp)
  have "chunk_magic_test ?t c (malloc_size ?bk ?z) False True True = None"
    using magic_test_eq [OF ok_t r, of False True] bad by simp
  moreover have "live (pmem s) p = Some POOL_BYTES" by (rule pools_okD(3) [OF ok p(1)])
  ultimately have "bucket_free ?t (p, i) (c + CHUNK_BYTES) True = None"
    using cz(3) by (simp add: bucket_free_def bucket_get_eq chunk_get_def Let_def)
  with gb assms(5) show ?thesis by (simp add: ampool_op_free_def pool_get_def bind_eq_None_conv)
qed

theorem ampool_overrun_detected_witness:
  "ampool_op_free (with_bytes demo_pool 2 ((cdata demo_pool 2)(24 := 1))) 1 34 24 = None"
proof -
  have "validates (pools demo_pool 1)" by (simp add: demo_pool_def validates_def AMPOOL_VALIDATE_ON_FREE_def)
  moreover have "data_size demo_pool 1 2 = 32" unfolding data_size_def demo_used(2) using demo_room(2) by simp
  moreover have "(1 :: u8) \<noteq> cdata demo_pool 2 24" by (simp add: demo_pool_def)
  ultimately show ?thesis
    using ampool_overrun_detected [OF demo_pools_ok insertI1 _ demo_used(1), of 24 1] demo_used(2) by (simp add: CHUNK_BYTES_def)
qed

section \<open>Releasing a tree of pools\<close>

lemma pool_ok_mutex: "pool_ok (s\<lparr>hierarchy_mutex := b\<rparr>) F p = pool_ok s F p"
proof -
  have "pool_ok s F p \<Longrightarrow> pool_ok (s\<lparr>hierarchy_mutex := b\<rparr>) F p" for s b
    by (erule pool_ok_cong) (simp_all add: same_chunk_def)
  from this [of s b] this [of "s\<lparr>hierarchy_mutex := b\<rparr>" "hierarchy_mutex s"] show ?thesis by auto
qed

lemma pools_ok_ready:
  assumes "pools_ok s P F" and "set ps \<subseteq> P" and "distinct ps"
  shows "ready (s\<lparr>hierarchy_mutex := b\<rparr>) (anchors P) F ps"
proof -
  have "pool_chunks F p \<subseteq> chunks_in P F" if "p \<in> P" for p
    using that by (auto simp: chunks_in_def pool_chunks_def bucket_chunks_def)
  then have "pool_chunks F p \<inter> set ps = {}" if "p \<in> set ps" for p
    using assms(1,2) that unfolding pools_ok_def by blast
  moreover have "pool_anchors p \<subseteq> anchors P" if "p \<in> P" for p using that by (auto simp: pool_anchors_def anchors_def)
  ultimately show ?thesis
    using assms unfolding ready_def pools_ok_def by (auto simp: pool_ok_mutex tree_anchors_def)
qed

text \<open>
  C18. \<open>ampool_op_pool_free\<close> of a pool on the list \<open>l\<close> (that of the root pools, or of the children of
  its parent) returns, with no assertion failing, whatever the depth of the tree of pools below it. It gives back to
  \<^verbatim>\<open>malloc\<close> the blocks of exactly the pools of the tree and of their chunks, used or free; the remaining pools
  keep the invariant and their data, and the released pool is no longer on \<open>l\<close>.
\<close>

theorem ampool_pool_free_correct:
  assumes "pools_ok s P F" and "hangs F t" and "set (pnodes t) \<subseteq> P" and "distinct (pnodes t)"
    and "l = RootPools \<or> (\<exists>q \<in> P - set (pnodes t). l = ChildrenOf q)" and "proot t \<in> set (F l)"
  shows "\<exists>s' F'. ampool_op_pool_free s (proot t) = Some s' \<and> pools_ok s' (P - set (pnodes t)) F' \<and>
    live (pmem s') = without (gone F (set (pnodes t))) (live (pmem s)) \<and> F' l = remove1 (proot t) (F l) \<and>
    (\<forall>q \<in> P - set (pnodes t). view s' F' q = view s F q)"
proof -
  let ?s = "s\<lparr>hierarchy_mutex := True\<rparr>" and ?A = "anchors P" and ?N = "set (pnodes t)"
  note ok = assms(1)
  have l: "l \<in> ?A" "l = RootPools \<or> (\<exists>q. l = ChildrenOf q)" "l \<notin> tree_anchors ?N"
    using assms(5) by (auto simp: anchors_simps tree_anchors_def pool_anchors_def)
  from can_release_all [of t, unfolded can_release_def, rule_format, OF pools_ok_ready [OF ok assms(3,4)] assms(2) l assms(6) refl]
  obtain s1 F1 where run: "ampool_pool_free_rec ?s (proot t) = Some s1"
    and rel: "released_tree ?s s1 ?A F F1 ?N l (remove1 (proot t) (F l))" by blast
  note r = rel [unfolded released_tree_def cleared_def]
  let ?t = "s1\<lparr>hierarchy_mutex := False\<rparr>"
  have F1: "F1 (UsedOf q i) = F (UsedOf q i)" "F1 (FreeOf q i) = F (FreeOf q i)" if "q \<in> P - ?N" for q i
    using r that l(2) by (auto simp: tree_anchors_def pool_anchors_def)
  have "pool_ok ?t F1 q" if q: "q \<in> P - ?N" for q
  proof -
    have "ready ?s ?A F (pnodes t @ [q])" by (rule pools_ok_ready [OF ok]) (use q assms(3,4) in auto)
    from ready_frame [OF this rel l(2)] show ?thesis by (simp add: ready_def pool_ok_mutex)
  qed
  moreover have "forest (plinks ?t) (anchors (P - ?N)) (plinks_of F1)"
    by (rule forest_subset [of _ ?A]) (use r in \<open>auto simp: anchors_def\<close>)
  moreover have "chunks_in (P - ?N) F1 \<subseteq> chunks_in P F" using F1 by (auto simp: chunks_in_def)
  then have "chunks_in (P - ?N) F1 \<inter> (P - ?N) = {}" using ok by (auto simp: pools_ok_def)
  ultimately have "pools_ok ?t (P - ?N) F1" by (simp add: pools_ok_def)
  moreover have "ampool_op_pool_free s (proot t) = Some ?t"
    using run ok by (simp add: ampool_op_pool_free_def hierarchy_lock_def hierarchy_unlock_def pools_ok_def)
  moreover have "\<forall>q \<in> P - ?N. view ?t F1 q = view s F q" using r F1 by (auto simp: view_def fun_eq_iff)
  ultimately show ?thesis using r by (intro exI [of _ ?t] exI [of _ F1]) simp
qed

theorem ampool_pool_free_correct_witness:
  "\<exists>s' F'. ampool_op_pool_free demo_pool 1 = Some s' \<and> live (pmem s') = (\<lambda>_. None) \<and> F' RootPools = []"
proof -
  have h: "hangs demo_lists (PNode 1 [])" by (simp add: demo_lists_def)
  have "pool_chunks demo_lists 1 = {2}"
    by (auto simp: pool_chunks_def bucket_chunks_def demo_lists_def intro!: bexI [of _ 1] split: if_splits)
  then have g: "gone demo_lists {1} = {1, 2}" by (auto simp: gone_def)
  have "without {1, 2} (live (pmem demo_pool)) = (\<lambda>_. None)" by (auto simp: without_def demo_pool_def)
  moreover have "demo_lists RootPools = [1]" by (simp add: demo_lists_def)
  ultimately show ?thesis
    using ampool_pool_free_correct [OF demo_pools_ok h, of RootPools] g by auto
qed

end
