(* ===== verification/AmPoolCreate.thy ===== *)
theory AmPoolCreate
  imports AmPoolTree
begin

text \<open>
  The creation of pools: \<^verbatim>\<open>ampool_init\<close> establishes the invariant for no pools at all, and every new pool extends it.
\<close>

section \<open>The buckets of a new pool\<close>

definition new_bucket :: "nat \<Rightarrow> ampool_bucket \<Rightarrow> bool" where
  "new_bucket i bk \<longleftrightarrow>
     \<not> bucket_mutex bk \<and> element_size bk = step_size i \<and> bucket_stats_ok bk \<and>
     used_element_count bk = 0 \<and> used_size bk = 0 \<and> total_element_count bk = 0"

text \<open>The lists of the new pool.\<close>

definition no_chunks :: "addr \<Rightarrow> (plink \<Rightarrow> addr list) \<Rightarrow> plink \<Rightarrow> addr list" where
  "no_chunks p F = (\<lambda>l. if l \<in> insert (ChildrenOf p) (range (UsedOf p) \<union> range (FreeOf p)) then [] else F l)"

lemma no_chunks_simps [simp]:
  "no_chunks p F (ChildrenOf p) = []" "no_chunks p F (UsedOf p i) = []" "no_chunks p F (FreeOf p i) = []"
  "no_chunks p F RootPools = F RootPools"
  "q \<noteq> p \<Longrightarrow> no_chunks p F (ChildrenOf q) = F (ChildrenOf q)"
  "q \<noteq> p \<Longrightarrow> no_chunks p F (UsedOf q i) = F (UsedOf q i)" "q \<noteq> p \<Longrightarrow> no_chunks p F (FreeOf q i) = F (FreeOf q i)"
  by (auto simp: no_chunks_def)

lemma new_bucket_ok: "F (UsedOf p i) = [] \<Longrightarrow> F (FreeOf p i) = [] \<Longrightarrow> new_bucket i (pl_buckets (pools s p) i) \<Longrightarrow> bucket_ok s F p i"
  by (simp add: bucket_ok_def new_bucket_def Let_def bytes_of_def)

lemma not_linked: "UsedOf p i \<notin> set (plinks_of F l)" "FreeOf p i \<notin> set (plinks_of F l)" "ChildrenOf p \<notin> set (plinks_of F l)"
  by (cases l; auto)+

lemma forest_init_empty:
  assumes "forest h A (plinks_of F)" and "\<And>l. a \<notin> set (plinks_of F l)" and "plinks_of F a = []"
  shows "forest (amlist_init h a) (insert a A) (plinks_of F)"
proof -
  have "(plinks_of F)(a := []) = plinks_of F" using assms(3) by auto
  with forest_init [OF assms(1), of a] assms(2) show ?thesis by simp
qed

lemma count_ok_init: "count_ok (amstat_init r)"
  by (simp add: amstat_init_def count_ok_def)

lemma init_bucket:
  assumes "live (pmem s) p = Some z" and "forest (plinks s) A (plinks_of F)" and "F (UsedOf p i) = []" "F (FreeOf p i) = []"
    and "pl_buckets (pools s p) i = zero_bucket" and "ucast sz = step_size i"
  shows "\<exists>h bk. bucket_init s (p, i) sz True = Some (AMRC_SUCCESS, bucket_put (s\<lparr>plinks := h\<rparr>) (p, i) bk) \<and> new_bucket i bk \<and>
    forest h (A \<union> {UsedOf p i, FreeOf p i}) (plinks_of F)"
proof -
  let ?h = "amlist_init (amlist_init (plinks s) (UsedOf p i)) (FreeOf p i)"
  have "forest ?h (insert (FreeOf p i) (insert (UsedOf p i) A)) (plinks_of F)"
    by (intro forest_init_empty assms(2)) (simp_all add: not_linked assms(3,4))
  moreover have "insert (FreeOf p i) (insert (UsedOf p i) A) = A \<union> {UsedOf p i, FreeOf p i}" by auto
  ultimately show ?thesis using assms(1,5,6)
    by (auto simp: bucket_init_def bucket_get_eq Let_def new_bucket_def bucket_stats_ok_def count_ok_init zero_bucket_def
        intro!: exI [of _ ?h])
qed

lemma step_size_mult: "i < 32 \<Longrightarrow> ucast (of_nat (i + 1) * AMPOOL_ALIGN) = step_size i"
proof -
  assume i: "i < 32"
  then have n: "16 * (i + 1) < 2 ^ 32" by simp
  have e: "of_nat (i + 1) * AMPOOL_ALIGN = (of_nat (16 * (i + 1)) :: u32)" by (simp add: AMPOOL_ALIGN_def)
  have "unat (of_nat (16 * (i + 1)) :: u32) = 16 * (i + 1)"
    by (simp only: unsigned_of_nat) (use n in \<open>simp add: take_bit_nat_eq_self\<close>)
  moreover have "unat (of_nat (16 * (i + 1)) :: u64) = 16 * (i + 1)" by (rule unat_of_nat_fits) (use n in simp)
  ultimately have "unat (ucast (of_nat (16 * (i + 1)) :: u32) :: u64) = unat (of_nat (16 * (i + 1)) :: u64)"
    using n by (simp only: unsigned_ucast_eq) (simp add: take_bit_nat_eq_self)
  with i show ?thesis unfolding e by (simp only: word_unat_eq_iff step_size_def if_True)
qed

text \<open>The loop over the buckets with a step.\<close>

lemma init_buckets_ok:
  assumes "distinct is" and "set is \<subseteq> {..<32}" and "\<forall>i \<in> set is. pl_buckets (pools s p) i = zero_bucket"
    and "live (pmem s) p = Some z" and "forest (plinks s) A (plinks_of F)" and "\<forall>i. F (UsedOf p i) = [] \<and> F (FreeOf p i) = []"
    and "\<forall>i. init_ok i"
  shows "\<exists>h B. init_buckets s p is init_ok = Some (pool_put (s\<lparr>plinks := h\<rparr>) p ((pools s p)\<lparr>pl_buckets := B\<rparr>)) \<and>
    (\<forall>i \<in> set is. new_bucket i (B i)) \<and> (\<forall>i. i \<notin> set is \<longrightarrow> B i = pl_buckets (pools s p) i) \<and>
    forest h (A \<union> (UsedOf p ` set is \<union> FreeOf p ` set is)) (plinks_of F)"
  using assms(1-5)
proof (induction "is" arbitrary: s A)
  case Nil
  then show ?case by (intro exI [of _ "plinks s"] exI [of _ "pl_buckets (pools s p)"]) (simp add: pool_put_def)
next
  case (Cons i "is")
  from Cons.prems(2) have i: "i < 32" by simp
  from init_bucket [OF Cons.prems(4,5) _ _ _ step_size_mult [OF i]] assms(6) Cons.prems(3) obtain h bk where
    b: "bucket_init s (p, i) (of_nat (i + 1) * AMPOOL_ALIGN) True = Some (AMRC_SUCCESS, bucket_put (s\<lparr>plinks := h\<rparr>) (p, i) bk)"
      "new_bucket i bk" "forest h (A \<union> {UsedOf p i, FreeOf p i}) (plinks_of F)" by auto
  let ?s = "bucket_put (s\<lparr>plinks := h\<rparr>) (p, i) bk"
  have "\<forall>j \<in> set is. pl_buckets (pools ?s p) j = zero_bucket" using Cons.prems(1,3) by auto
  with Cons.IH [of ?s "A \<union> {UsedOf p i, FreeOf p i}"] Cons.prems b(3) obtain h' B where
    c: "init_buckets ?s p is init_ok = Some (pool_put (?s\<lparr>plinks := h'\<rparr>) p ((pools ?s p)\<lparr>pl_buckets := B\<rparr>))"
      "\<forall>i \<in> set is. new_bucket i (B i)" "\<forall>i. i \<notin> set is \<longrightarrow> B i = pl_buckets (pools ?s p) i"
      "forest h' (A \<union> {UsedOf p i, FreeOf p i} \<union> (UsedOf p ` set is \<union> FreeOf p ` set is)) (plinks_of F)" by auto
  have e: "pool_put (?s\<lparr>plinks := h'\<rparr>) p ((pools ?s p)\<lparr>pl_buckets := B\<rparr>) = pool_put (s\<lparr>plinks := h'\<rparr>) p ((pools s p)\<lparr>pl_buckets := B\<rparr>)"
    by (simp add: pool_put_def bucket_put_def)
  have "init_buckets s p (i # is) init_ok = Some (pool_put (s\<lparr>plinks := h'\<rparr>) p ((pools s p)\<lparr>pl_buckets := B\<rparr>))"
    using b(1) c(1) assms(7) [rule_format, of i] unfolding e by simp
  moreover have "A \<union> {UsedOf p i, FreeOf p i} \<union> (UsedOf p ` set is \<union> FreeOf p ` set is) =
      A \<union> (UsedOf p ` set (i # is) \<union> FreeOf p ` set (i # is))" by auto
  moreover have "\<forall>j \<in> set (i # is). new_bucket j (B j)" "\<forall>j. j \<notin> set (i # is) \<longrightarrow> B j = pl_buckets (pools s p) j"
    using b(2) c(2,3) Cons.prems(1) by auto
  ultimately show ?case using c(4) by (intro exI [of _ h'] exI [of _ B] conjI) (simp_all only:)
qed

section \<open>A new pool\<close>

text \<open>Every pool on a list of pools is one of \<open>P\<close>.\<close>

definition tree_ok :: "addr set \<Rightarrow> (plink \<Rightarrow> addr list) \<Rightarrow> bool" where
  "tree_ok P F \<longleftrightarrow> set (F RootPools) \<subseteq> P \<and> (\<forall>q \<in> P. set (F (ChildrenOf q)) \<subseteq> P)"

lemma pools_ok_init:
  assumes "ampool_init s date now True = Some s'"
  shows "pools_ok s' {} (\<lambda>_. [])" and "tree_ok {} (\<lambda>_. [])"
proof -
  have a: "anchors {} = {RootPools}" by (auto simp: anchors_def)
  have "plinks s' = amlist_init (plinks s) RootPools" "\<not> hierarchy_mutex s'"
    using assms by (auto simp: ampool_init_def Let_def Option.bind_eq_Some_conv)
  then show "pools_ok s' {} (\<lambda>_. [])"
    using dlist_init [of "plinks s" RootPools] by (simp add: pools_ok_def a forest_def chunks_in_def)
  show "tree_ok {} (\<lambda>_. [])" by (simp add: tree_ok_def)
qed

lemma anchors_insert: "anchors (insert p P) = insert (ChildrenOf p) (anchors P) \<union> (UsedOf p ` {..<33} \<union> FreeOf p ` {..<33})"
  by (auto simp: anchors_def)

text \<open>The part before the pool is added to a list.\<close>

definition list_of :: "addr option \<Rightarrow> plink" where
  "list_of parent = (case parent of None \<Rightarrow> RootPools | Some q \<Rightarrow> ChildrenOf q)"

lemma new_pool_ok:
  assumes fr: "forest (plinks s) (anchors P) (plinks_of F)" and ok: "\<forall>i. init_ok i" and p: "live (pmem s) p = Some POOL_BYTES"
    and "\<not> hierarchy_mutex s" and l: "list_of parent \<in> anchors P" "\<forall>l \<in> anchors P. SiblingOf p \<notin> set (plinks_of F l)" "p \<notin> P"
    and pl: "pl = \<lparr>pl_buckets = (\<lambda>_. zero_bucket), pl_size = 0, pl_element_count = 0, pl_parent = parent, pl_flags = flags, pl_name = name\<rparr>"
  shows "\<exists>h B. do { let s = s\<lparr>plinks := amlist_init (plinks s) (ChildrenOf p)\<rparr>;
       let s = pool_put s p pl;
       s \<leftarrow> init_buckets s p [0 ..< AMPOOL_STEP_COUNT] init_ok;
       (rc, s) \<leftarrow> bucket_init s (p, AMPOOL_STEP_COUNT) 0 (init_ok AMPOOL_STEP_COUNT);
       c_assert (rc = AMRC_SUCCESS);
       s \<leftarrow> hierarchy_lock s;
       s \<leftarrow> plist_add s (list_of parent) (SiblingOf p);
       Some (Some p, hierarchy_unlock s) } = Some (Some p, pool_put (s\<lparr>plinks := h\<rparr>) p (pl\<lparr>pl_buckets := B\<rparr>)) \<and>
    (\<forall>i < 33. new_bucket i (B i)) \<and>
    forest h (anchors (insert p P)) (plinks_of ((no_chunks p F)(list_of parent := p # F (list_of parent))))"
proof -
  let ?F = "no_chunks p F"
  let ?s1 = "pool_put (s\<lparr>plinks := amlist_init (plinks s) (ChildrenOf p)\<rparr>) p pl"
  have old: "plinks_of ?F l = plinks_of F l" if "l \<in> anchors P" for l
    using that l(3) by (cases l) (auto simp: anchors_simps no_chunks_def)
  have "forest (plinks ?s1) (insert (ChildrenOf p) (anchors P)) (plinks_of ?F)"
    unfolding pool_put_simps using forest_init_empty [OF forest_cong [OF fr old] not_linked(3)] by simp
  from init_buckets_ok [OF _ _ _ _ this, of "[0 ..< AMPOOL_STEP_COUNT]" p POOL_BYTES init_ok] p ok pl obtain h B where
    b: "init_buckets ?s1 p [0 ..< AMPOOL_STEP_COUNT] init_ok = Some (pool_put (?s1\<lparr>plinks := h\<rparr>) p (pl\<lparr>pl_buckets := B\<rparr>))"
      "\<forall>i < 32. new_bucket i (B i)" "\<forall>i \<ge> 32. B i = zero_bucket"
      "forest h (insert (ChildrenOf p) (anchors P) \<union> (UsedOf p ` {..<32} \<union> FreeOf p ` {..<32})) (plinks_of ?F)"
    by (auto simp: AMPOOL_STEP_COUNT_def atLeast0LessThan lessThan_atLeast0 [symmetric])
  let ?s2 = "pool_put (?s1\<lparr>plinks := h\<rparr>) p (pl\<lparr>pl_buckets := B\<rparr>)"
  from init_bucket [of ?s2 p POOL_BYTES "insert (ChildrenOf p) (anchors P) \<union> (UsedOf p ` {..<32} \<union> FreeOf p ` {..<32})" ?F 32 0] p b(3,4) obtain h2 bk where
    c: "bucket_init ?s2 (p, 32) 0 True = Some (AMRC_SUCCESS, bucket_put (?s2\<lparr>plinks := h2\<rparr>) (p, 32) bk)" "new_bucket 32 bk"
      "forest h2 (insert (ChildrenOf p) (anchors P) \<union> (UsedOf p ` {..<32} \<union> FreeOf p ` {..<32}) \<union> {UsedOf p 32, FreeOf p 32}) (plinks_of ?F)"
    by (auto simp: step_size_def)
  have "{..<33 :: nat} = insert 32 {..<32}" by auto
  then have A: "insert (ChildrenOf p) (anchors P) \<union> (UsedOf p ` {..<32} \<union> FreeOf p ` {..<32}) \<union> {UsedOf p 32, FreeOf p 32} = anchors (insert p P)"
    by (auto simp: anchors_insert)
  let ?s3 = "bucket_put (?s2\<lparr>plinks := h2\<rparr>) (p, 32) bk"
  have "SiblingOf p \<notin> set (plinks_of ?F l)" if "l \<in> anchors (insert p P)" for l
    using that l(2) old unfolding anchors_insert by auto
  then obtain h3 where d: "amlist_add h2 (list_of parent) (SiblingOf p) = Some h3"
      "forest h3 (anchors (insert p P)) ((plinks_of ?F)(list_of parent := SiblingOf p # plinks_of ?F (list_of parent)))"
    using forest_add [OF c(3) [unfolded A], of "list_of parent" "SiblingOf p"] l(1) by (auto simp: anchors_insert anchors_simps)
  have e: "(plinks_of ?F)(list_of parent := SiblingOf p # plinks_of ?F (list_of parent)) =
      plinks_of (?F(list_of parent := p # F (list_of parent)))"
  proof
    fix l
    show "((plinks_of ?F)(list_of parent := SiblingOf p # plinks_of ?F (list_of parent))) l =
        plinks_of (?F(list_of parent := p # F (list_of parent))) l"
      using l(1,3) by (cases l) (auto simp: list_of_def anchors_simps no_chunks_def split: option.splits)
  qed
  have "hierarchy_unlock (?s3\<lparr>hierarchy_mutex := True, plinks := h3\<rparr>) =
      pool_put (s\<lparr>plinks := h3\<rparr>) p (pl\<lparr>pl_buckets := B(32 := bk)\<rparr>)"
    using assms(4) by (simp add: hierarchy_unlock_def pool_put_def bucket_put_def)
  then show ?thesis using b c d e assms(4) ok
    by (intro exI [of _ h3] exI [of _ "B(32 := bk)"])
      (auto simp: AMPOOL_STEP_COUNT_def hierarchy_lock_def plist_add_def Let_def less_Suc_eq)
qed

lemma ampool_create_ok:
  assumes ok: "pools_ok s P F" "tree_ok P F" and al: "malloc_spec alloc" and ini: "\<forall>i. init_ok i"
    and par: "list_of parent \<in> anchors P" and m: "malloc alloc POOL_BYTES (pmem s) = (Some p, m)"
  shows "\<exists>s'. ampool_pool_alloc_flags_named alloc init_ok s parent flags name = Some (Some p, s') \<and> p \<notin> P \<and>
    pools_ok s' (insert p P) ((no_chunks p F)(list_of parent := p # F (list_of parent))) \<and>
    tree_ok (insert p P) ((no_chunks p F)(list_of parent := p # F (list_of parent))) \<and>
    pl_size (pools s' p) = 0 \<and> cdata s' = cdata s \<and> chunks s' = chunks s"
proof -
  let ?t = "s\<lparr>pmem := m\<rparr>" and ?F = "(no_chunks p F)(list_of parent := p # F (list_of parent))"
  note mo = malloc_Some [OF al m]
  have fr: "forest (plinks ?t) (anchors P) (plinks_of F)" and mx: "\<not> hierarchy_mutex ?t" using ok by (simp_all add: pools_ok_def)
  have dead: "live (pmem s) p = None" by (rule mo(1))
  have pP: "p \<notin> P" using ok dead by (auto simp: pools_ok_def pool_ok_def)
  have pc: "p \<notin> chunks_in P F" using chunk_live [OF ok(1), of p] dead by auto
  have sib: "\<forall>l \<in> anchors P. SiblingOf p \<notin> set (plinks_of F l)"
    using ok(2) pP by (auto simp: anchors_def tree_ok_def)
  define pl where "pl = \<lparr>pl_buckets = (\<lambda>_. zero_bucket), pl_size = 0, pl_element_count = 0, pl_parent = parent, pl_flags = flags, pl_name = name\<rparr>"
  from new_pool_ok [OF fr ini _ mx par sib pP pl_def] mo(2) obtain h B where
    run: "ampool_pool_alloc_flags_named alloc init_ok s parent flags name = Some (Some p, pool_put (?t\<lparr>plinks := h\<rparr>) p (pl\<lparr>pl_buckets := B\<rparr>))"
    and B: "\<forall>i < 33. new_bucket i (B i)" and fr': "forest h (anchors (insert p P)) (plinks_of ?F)"
    using m unfolding ampool_pool_alloc_flags_named_def pl_def [symmetric] list_of_def by auto
  let ?s = "pool_put (?t\<lparr>plinks := h\<rparr>) p (pl\<lparr>pl_buckets := B\<rparr>)"
  have lists: "?F (UsedOf q i) = no_chunks p F (UsedOf q i)" "?F (FreeOf q i) = no_chunks p F (FreeOf q i)" for q i
    by (auto simp: list_of_def split: option.splits)
  have "pool_ok ?s ?F q" if q: "q \<in> P" for q
  proof (rule pool_ok_cong)
    show "pool_ok s F q" using ok(1) q by (simp add: pools_ok_def)
    have "q \<noteq> p" using q pP by auto
    then show "pools ?s q = pools s q" "same_chunk s ?s q" using mo(2) by (simp_all add: same_chunk_def)
    show "\<forall>i < 33. ?F (UsedOf q i) = F (UsedOf q i) \<and> ?F (FreeOf q i) = F (FreeOf q i)" unfolding lists using \<open>q \<noteq> p\<close> by simp
    have "p \<notin> pool_chunks F q" using pc q by (auto simp: chunks_in_def pool_chunks_def bucket_chunks_def)
    then show "\<forall>d \<in> pool_chunks F q. same_chunk s ?s d" using mo(2) by (auto simp: same_chunk_def)
  qed
  moreover have "bucket_ok ?s ?F p i" if "i < 33" for i
    by (rule new_bucket_ok) (use B that lists in simp_all)
  then have "pool_ok ?s ?F p"
    using mo(2) B by (simp add: pool_ok_def pl_def new_bucket_def)
  moreover have "chunks_in (insert p P) ?F \<subseteq> chunks_in P F"
  proof
    fix c assume "c \<in> chunks_in (insert p P) ?F"
    then obtain q i where q: "q \<in> insert p P" "i < 33" "c \<in> set (no_chunks p F (UsedOf q i)) \<union> set (no_chunks p F (FreeOf q i))"
      unfolding chunks_in_def lists by blast
    moreover from q(3) have "q \<noteq> p" by auto
    ultimately show "c \<in> chunks_in P F" unfolding chunks_in_def by auto
  qed
  then have "chunks_in (insert p P) ?F \<inter> insert p P = {}" using pc ok(1) by (auto simp: pools_ok_def)
  ultimately have "pools_ok ?s (insert p P) ?F" using fr' mx by (simp add: pools_ok_def)
  moreover have "tree_ok (insert p P) ?F"
    using ok(2) pP par by (auto simp: tree_ok_def list_of_def no_chunks_def anchors_simps split: option.splits if_splits)
  ultimately show ?thesis using run pP by (intro exI [of _ ?s]) (simp add: pl_def)
qed

text \<open>
  C36. \<open>ampool_pool_alloc_flags_named\<close> returns with no assertion failing, provided the bucket mutexes can be initialised, and keeps the
  invariant: without memory the result is NULL and nothing changes; otherwise it is a pool that is not one of the
  others, is the first on the list of its parent (or of the root pools), holds no data, has the size 0
  and no children, and the other pools and their data are unchanged.
\<close>

theorem ampool_create_correct:
  assumes "pools_ok s P F" and "tree_ok P F" and "malloc_spec alloc" and "\<forall>i. init_ok i"
    and "parent = None \<or> (\<exists>q \<in> P. parent = Some q)"
  shows "\<exists>r s'. ampool_pool_alloc_flags_named alloc init_ok s parent flags name = Some (r, s') \<and>
    (case r of
       None \<Rightarrow> pools_ok s' P F \<and> pools s' = pools s \<and> (\<forall>q \<in> P. view s' F q = view s F q)
     | Some p \<Rightarrow> p \<notin> P \<and>
         (\<exists>F'. pools_ok s' (insert p P) F' \<and> tree_ok (insert p P) F' \<and> F' (list_of parent) = p # F (list_of parent) \<and>
           hangs F' (PNode p []) \<and> view s' F' p = Map.empty \<and> (\<forall>q \<in> P. view s' F' q = view s F q) \<and>
           ampool_op_get_size s' p = Some 0))"
proof (cases "malloc alloc POOL_BYTES (pmem s)")
  case (Pair r m)
  show ?thesis
  proof (cases r)
    case None
    with Pair have "malloc alloc POOL_BYTES (pmem s) = (None, m)" by simp
    then show ?thesis using pools_ok_mem [OF assms(1) malloc_None]
      by (intro exI [of _ None] exI [of _ "s\<lparr>pmem := m\<rparr>"]) (simp add: ampool_pool_alloc_flags_named_def)
  next
    case (Some p)
    let ?F = "(no_chunks p F)(list_of parent := p # F (list_of parent))"
    have par: "list_of parent \<in> anchors P" using assms(5) by (auto simp: list_of_def anchors_simps)
    from ampool_create_ok [OF assms(1-4) par, of p m flags name] Pair Some obtain s' where
      run: "ampool_pool_alloc_flags_named alloc init_ok s parent flags name = Some (Some p, s')" and
      s': "p \<notin> P" "pools_ok s' (insert p P) ?F" "tree_ok (insert p P) ?F" "pl_size (pools s' p) = 0" "cdata s' = cdata s" "chunks s' = chunks s"
      by auto
    have lists: "?F (UsedOf q i) = no_chunks p F (UsedOf q i)" for q i by (auto simp: list_of_def split: option.splits)
    have "list_of parent \<noteq> ChildrenOf p" using par s'(1) by (auto simp: anchors_simps)
    then have "hangs ?F (PNode p [])" by simp
    moreover have "view s' ?F p = Map.empty" by (simp add: view_def lists fun_eq_iff del: fun_upd_apply)
    moreover have "view s' ?F q = view s F q" if "q \<in> P" for q
    proof -
      have "q \<noteq> p" using that s'(1) by auto
      then show ?thesis by (simp add: view_def lists fun_eq_iff s'(5,6) del: fun_upd_apply)
    qed
    moreover have "ampool_op_get_size s' p = Some 0"
      using pools_okD(3) [OF s'(2) insertI1] s'(4) by (simp add: ampool_op_get_size_def pool_get_def)
    ultimately show ?thesis using run s'(1-3)
      by (intro exI [of _ "Some p"] exI [of _ s']) (auto intro!: exI [of _ ?F])
  qed
qed

theorem ampool_create_correct_witness:
  "\<forall>s. \<exists>s0 r s'. ampool_init s [65, 0] 7 True = Some s0 \<and>
    ampool_pool_alloc_flags_named first_fit (\<lambda>_. True) s0 None 1 None = Some (r, s') \<and>
    (case r of None \<Rightarrow> pools s' = pools s0 | Some p \<Rightarrow> ampool_op_get_size s' p = Some 0)"
proof -
  have "\<exists>s0. ampool_init s [65, 0] 7 True = Some s0" for s by (simp add: ampool_init_def amshash_def Let_def)
  moreover have "\<exists>r s'. ampool_pool_alloc_flags_named first_fit (\<lambda>_. True) s0 None 1 None = Some (r, s') \<and>
    (case r of None \<Rightarrow> pools s' = pools s0 | Some p \<Rightarrow> ampool_op_get_size s' p = Some 0)"
    if i: "ampool_init s [65, 0] 7 True = Some s0" for s s0
  proof -
    have ini: "\<forall>i :: nat. (\<lambda>_. True) i" and par: "None = None \<or> (\<exists>q \<in> {}. None = Some (q :: addr))" by simp_all
    from ampool_create_correct [OF pools_ok_init [OF i] first_fit_spec ini par, of 1 None] obtain r s' where
      "ampool_pool_alloc_flags_named first_fit (\<lambda>_. True) s0 None 1 None = Some (r, s')" and
      "case r of None \<Rightarrow> pools s' = pools s0 | Some p \<Rightarrow> ampool_op_get_size s' p = Some 0"
      by (elim exE conjE, rename_tac r s', case_tac r) auto
    then show ?thesis by blast
  qed
  ultimately show ?thesis by blast
qed

end
