(* ===== verification/AmOpts.thy ===== *)
theory AmOpts
  imports AmList
begin

text \<open>
  The option parser of \<^verbatim>\<open>libam_opts.c\<close>: registration of options, reading of the command line, help and values.

  A C string is the list of its characters before the terminator. The client's structure is a map from offsets
  to members, which do not overlap. The debug messages are compiled out; what the code writes with \<^verbatim>\<open>printf\<close> is
  appended to \<open>out\<close>. \<^verbatim>\<open>char\<close> is signed: a character from 128 up is a negative index into \<^verbatim>\<open>is_problem\<close>, which is
  outside of the array.
\<close>

section \<open>Data\<close>

text \<open>\<open>AMOPT_OTHER\<close> stands for the numbers an \<^verbatim>\<open>enum\<close> can hold that are not among its constants.\<close>

datatype amopt_type = AMOPT_FLAG | AMOPT_UINT64 | AMOPT_UDOUBLE | AMOPT_STRING | AMOPT_CUSTOM | AMOPT_OTHER nat

text \<open>
  A member of the structure. A \<^verbatim>\<open>double\<close> is kept as the decimal number it was read from, \<open>Decimal m k\<close> is
  \<open>m / 10 ^ k\<close>: the rounding of \<^verbatim>\<open>sscanf\<close> is not modelled.
\<close>

datatype 'c member = Byte u8 | Number u64 | Decimal nat nat | Pointer "addr option" | Other 'c

type_synonym 'c members = "u64 \<Rightarrow> 'c member"

text \<open>Callbacks: they get the structure and the offset of the member and may change the structure.\<close>

type_synonym 'c val_cb = "'c members \<Rightarrow> u64 option \<Rightarrow> amrc \<times> 'c members"
type_synonym 'c prase_cb = "'c members \<Rightarrow> u64 \<Rightarrow> string \<Rightarrow> amrc \<times> 'c members"

datatype 'c prase_fn = Prase_flag | Prase_uint64 | Prase_udouble | Prase_string | Prase_custom "'c prase_cb"

record 'c amopt_option =
  form_short :: char
  form_long :: "string option"
  help_string :: "string option"
  opt_type :: amopt_type
  default_value :: "string option"
  offset :: u64
  validate :: "'c val_cb option"
  parse :: "'c prase_fn option"
  print_custom :: "'c val_cb option"
  is_set :: bool

datatype olink = OptList | OptLink addr

text \<open>
  \<^verbatim>\<open>amopt_t\<close> with the memory of links and of option descriptors, the memory \<^verbatim>\<open>strdup\<close> uses, the output,
  and the static variables of the file.
\<close>

record 'c amopt =
  olinks :: "olink links"
  options :: "addr \<Rightarrow> 'c amopt_option"
  struct :: "'c members"
  final_val :: "'c val_cb option"
  omem :: heap
  otext :: "addr \<Rightarrow> string"
  out :: string
  initialized :: bool
  is_problem :: "bool list"

definition say :: "string \<Rightarrow> 'c amopt \<Rightarrow> 'c amopt" where
  "say s t = t\<lparr>out := out t @ s\<rparr>"

definition NL :: string where "NL = [CHR 0x0A]"

definition option_put :: "'c amopt \<Rightarrow> addr \<Rightarrow> 'c amopt_option \<Rightarrow> 'c amopt" where
  "option_put t a opn = t\<lparr>options := (options t)(a := opn)\<rparr>"

definition member_put :: "'c amopt \<Rightarrow> u64 \<Rightarrow> 'c member \<Rightarrow> 'c amopt" where
  "member_put t d v = t\<lparr>struct := (struct t)(d := v)\<rparr>"

section \<open>Characters\<close>

text \<open>\<^verbatim>\<open>isprint\<close>, \<^verbatim>\<open>isspace\<close> and \<^verbatim>\<open>isdigit\<close> in the C locale; \<open>code c\<close> is \<open>c\<close> as an unsigned number.\<close>

definition code :: "char \<Rightarrow> nat" where "code c = of_char c"

definition isprint :: "nat \<Rightarrow> bool" where "isprint n \<longleftrightarrow> 32 \<le> n \<and> n \<le> 126"
definition isspace :: "char \<Rightarrow> bool" where "isspace c \<longleftrightarrow> code c = 32 \<or> 9 \<le> code c \<and> code c \<le> 13"
definition isdigit :: "char \<Rightarrow> bool" where "isdigit c \<longleftrightarrow> 48 \<le> code c \<and> code c \<le> 57"

definition problem_table :: "bool list" where
  "problem_table =
     (let t = replicate 255 False;
          t = fold (\<lambda>i t. t[i := \<not> isprint i]) [1 ..< 255] t
      in t[10 := True, 34 := True, 39 := True, 61 := True])"

definition amopts_init :: "'c amopt \<Rightarrow> 'c members option \<Rightarrow> 'c val_cb option \<Rightarrow> 'c amopt option" where
  "amopts_init t str final_validate =
     do { let t = (if initialized t then t else t\<lparr>initialized := True, is_problem := problem_table\<rparr>);
          c_assert (str \<noteq> None);
          Some (t\<lparr>olinks := amlist_init (olinks t) OptList, final_val := final_validate, struct := the str\<rparr>) }"

definition amopts_validate_char :: "'c amopt \<Rightarrow> char \<Rightarrow> bool \<Rightarrow> amrc option" where
  "amopts_validate_char t c is_space_ok =
     (if c = NUL then Some AMRC_SUCCESS
      else
        do { c_assert (code c < 128);
             Some (if is_problem t ! code c then AMRC_ERROR
                   else if \<not> is_space_ok \<and> isspace c then AMRC_ERROR
                   else AMRC_SUCCESS) })"

fun validate_printable_from :: "'c amopt \<Rightarrow> string \<Rightarrow> bool \<Rightarrow> amrc option" where
  "validate_printable_from t [] is_space_ok = Some AMRC_SUCCESS"
| "validate_printable_from t (c # str) is_space_ok =
     do { rc \<leftarrow> amopts_validate_char t c is_space_ok;
          if rc \<noteq> AMRC_SUCCESS then Some AMRC_ERROR else validate_printable_from t str is_space_ok }"

definition amopts_validate_printable :: "'c amopt \<Rightarrow> string option \<Rightarrow> bool \<Rightarrow> amrc option" where
  "amopts_validate_printable t str is_space_ok =
     (case str of None \<Rightarrow> Some AMRC_SUCCESS | Some str \<Rightarrow> validate_printable_from t str is_space_ok)"

fun validate_numeric_from :: "string \<Rightarrow> bool \<Rightarrow> bool \<Rightarrow> amrc" where
  "validate_numeric_from [] is_dot_ok got_digit = (if got_digit then AMRC_SUCCESS else AMRC_ERROR)"
| "validate_numeric_from (c # str) is_dot_ok got_digit =
     (if is_dot_ok \<and> c = CHR ''.'' then validate_numeric_from str False got_digit
      else if \<not> isdigit c then AMRC_ERROR
      else validate_numeric_from str is_dot_ok True)"

definition amopts_validate_numeric :: "string \<Rightarrow> bool \<Rightarrow> bool \<Rightarrow> amrc" where
  "amopts_validate_numeric str is_negative_okay is_dot_ok =
     (case str of
        c # rest \<Rightarrow> if is_negative_okay \<and> c = CHR ''-'' then validate_numeric_from rest is_dot_ok False
                   else validate_numeric_from str is_dot_ok False
      | [] \<Rightarrow> validate_numeric_from str is_dot_ok False)"

text \<open>An option without a long form is not refused here: \<^verbatim>\<open>strlen\<close> of NULL follows.\<close>

definition amopts_validate :: "'c amopt \<Rightarrow> 'c amopt_option \<Rightarrow> amrc option" where
  "amopts_validate t opn =
     do { rc \<leftarrow> amopts_validate_char t (form_short opn) False;
          if rc \<noteq> AMRC_SUCCESS then Some AMRC_ERROR else
          do { rc \<leftarrow> amopts_validate_printable t (form_long opn) False;
          if rc \<noteq> AMRC_SUCCESS then Some AMRC_ERROR else
          do { long \<leftarrow> form_long opn;
          if length long \<ge> 20 then Some AMRC_ERROR else
          do { rc \<leftarrow> amopts_validate_printable t (help_string opn) True;
          if rc \<noteq> AMRC_SUCCESS then Some AMRC_ERROR else
          case opt_type opn of AMOPT_OTHER n \<Rightarrow> Some AMRC_ERROR | _ \<Rightarrow>
          do { rc \<leftarrow> amopts_validate_printable t (default_value opn) True;
               Some (if rc \<noteq> AMRC_SUCCESS then AMRC_ERROR
                     else if opt_type opn = AMOPT_CUSTOM \<and> parse opn = None then AMRC_ERROR
                     else if opt_type opn \<noteq> AMOPT_CUSTOM \<and> parse opn \<noteq> None then AMRC_ERROR
                     else if opt_type opn = AMOPT_FLAG \<and> validate opn \<noteq> None then AMRC_ERROR
                     else AMRC_SUCCESS) } } } } }"

section \<open>Values\<close>

text \<open>
  The number a string of digits stands for. \<^verbatim>\<open>sscanf\<close> is only called on strings that hold digits, and for
  \<^verbatim>\<open>%lf\<close> at most one dot; \<^verbatim>\<open>%lu\<close> gives the largest number when the value does not fit.
\<close>

definition digits_value :: "string \<Rightarrow> nat" where
  "digits_value s = foldl (\<lambda>n c. 10 * n + (code c - 48)) 0 s"

definition sscanf_lu :: "string \<Rightarrow> u64 option" where
  "sscanf_lu s =
     (let ds = takeWhile isdigit s
      in if ds = [] then None else Some (of_nat (min (digits_value ds) (2 ^ 64 - 1))))"

definition sscanf_lf :: "string \<Rightarrow> (nat \<times> nat) option" where
  "sscanf_lf s =
     (let ds = takeWhile isdigit s;
          fs = (case dropWhile isdigit s of c # r \<Rightarrow> if c = CHR ''.'' then takeWhile isdigit r else [] | [] \<Rightarrow> [])
      in if ds = [] \<and> fs = [] then None else Some (digits_value (ds @ fs), length fs))"

definition quoted :: "string \<Rightarrow> string" where
  "quoted s = [CHR 0x27] @ s @ [CHR 0x27]"

definition amopt_prase_flag :: "'c amopt \<Rightarrow> u64 \<Rightarrow> amrc \<times> 'c amopt" where
  "amopt_prase_flag t d = (AMRC_SUCCESS, member_put t d (Byte 1))"

definition amopt_prase_uint64 :: "'c amopt \<Rightarrow> u64 \<Rightarrow> string \<Rightarrow> amrc \<times> 'c amopt" where
  "amopt_prase_uint64 t d input =
     (if amopts_validate_numeric input False False \<noteq> AMRC_SUCCESS then
        (AMRC_ERROR, say (''ERROR: Error parsing input '' @ quoted input @ '', was expecting positive number'' @ NL) t)
      else
        (case sscanf_lu input of
           None \<Rightarrow> (AMRC_ERROR, say (''ERROR: Unable to read input '' @ quoted input @ NL) t)
         | Some n \<Rightarrow> (AMRC_SUCCESS, member_put t d (Number n))))"

definition amopt_prase_udouble :: "'c amopt \<Rightarrow> u64 \<Rightarrow> string \<Rightarrow> amrc \<times> 'c amopt" where
  "amopt_prase_udouble t d input =
     (if amopts_validate_numeric input False True \<noteq> AMRC_SUCCESS then
        (AMRC_ERROR, say (''ERROR: Error parsing input '' @ quoted input @ '', was expecting positive number'' @ NL) t)
      else
        (case sscanf_lf input of
           None \<Rightarrow> (AMRC_ERROR, say (''ERROR: Unable to read input '' @ quoted input @ NL) t)
         | Some (m, k) \<Rightarrow> (AMRC_SUCCESS, member_put t d (Decimal m k))))"

definition amopt_prase_string :: "allocator \<Rightarrow> 'c amopt \<Rightarrow> u64 \<Rightarrow> string \<Rightarrow> amrc \<times> 'c amopt" where
  "amopt_prase_string alloc t d input =
     (case malloc alloc (of_nat (length input + 1)) (omem t) of
        (None, h) \<Rightarrow> (AMRC_ERROR, say (''ERROR: Failed to duplicate '' @ quoted input @ NL) (t\<lparr>omem := h\<rparr>))
      | (Some p, h) \<Rightarrow> (AMRC_SUCCESS, member_put (t\<lparr>omem := h, otext := (otext t)(p := input)\<rparr>) d (Pointer (Some p))))"

text \<open>The call through the pointer \<^verbatim>\<open>opn->parse\<close>; the first argument of the callbacks is the structure.\<close>

fun call_prase :: "allocator \<Rightarrow> 'c amopt \<Rightarrow> 'c prase_fn \<Rightarrow> u64 \<Rightarrow> string \<Rightarrow> amrc \<times> 'c amopt" where
  "call_prase alloc t Prase_flag d input = amopt_prase_flag t d"
| "call_prase alloc t Prase_uint64 d input = amopt_prase_uint64 t d input"
| "call_prase alloc t Prase_udouble d input = amopt_prase_udouble t d input"
| "call_prase alloc t Prase_string d input = amopt_prase_string alloc t d input"
| "call_prase alloc t (Prase_custom f) d input =
     (let (rc, str) = f (struct t) d input in (rc, t\<lparr>struct := str\<rparr>))"

definition call_val :: "'c amopt \<Rightarrow> 'c val_cb \<Rightarrow> u64 option \<Rightarrow> amrc \<times> 'c amopt" where
  "call_val t f d = (let (rc, str) = f (struct t) d in (rc, t\<lparr>struct := str\<rparr>))"

section \<open>Registration\<close>

fun standard_parse :: "amopt_type \<Rightarrow> 'c prase_fn option \<Rightarrow> 'c prase_fn option" where
  "standard_parse AMOPT_FLAG f = Some Prase_flag"
| "standard_parse AMOPT_UINT64 f = Some Prase_uint64"
| "standard_parse AMOPT_UDOUBLE f = Some Prase_udouble"
| "standard_parse AMOPT_STRING f = Some Prase_string"
| "standard_parse _ f = f"

definition long_of :: "'c amopt_option \<Rightarrow> string" where
  "long_of opn = the (form_long opn)"

text \<open>The initial value of the member.\<close>

definition register_default :: "allocator \<Rightarrow> 'c amopt \<Rightarrow> addr \<Rightarrow> (amrc \<times> 'c amopt) option" where
  "register_default alloc t a =
     (let opn = options t a
      in if opt_type opn = AMOPT_FLAG then
           Some (AMRC_SUCCESS,
             option_put (member_put t (offset opn) (Byte (if default_value opn = None then 0 else 1))) a (opn\<lparr>is_set := True\<rparr>))
         else
           (case default_value opn of
              None \<Rightarrow> Some (AMRC_SUCCESS, t)
            | Some dflt \<Rightarrow>
                do { f \<leftarrow> parse opn;
                     let (rc, t) = call_prase alloc t f (offset opn) dflt;
                     if rc \<noteq> AMRC_SUCCESS then
                       Some (AMRC_ERROR, say (''ERROR: Option '' @ long_of opn @ '' failed to parse default value'' @ NL) t)
                     else Some (AMRC_SUCCESS, option_put t a ((options t a)\<lparr>is_set := True\<rparr>)) }))"

definition amopts_register_option :: "allocator \<Rightarrow> 'c amopt \<Rightarrow> addr \<Rightarrow> (amrc \<times> 'c amopt) option" where
  "amopts_register_option alloc t a =
     do { rc \<leftarrow> amopts_validate t (options t a);
          if rc \<noteq> AMRC_SUCCESS then Some (AMRC_ERROR, t)
          else
            do { let opn = (options t a)\<lparr>parse := standard_parse (opt_type (options t a)) (parse (options t a))\<rparr>;
                 (rc, t) \<leftarrow> register_default alloc (option_put t a (opn\<lparr>is_set := False\<rparr>)) a;
                 if rc \<noteq> AMRC_SUCCESS then Some (AMRC_ERROR, t)
                 else
                   do { h \<leftarrow> amlist_add_tail (olinks t) OptList (OptLink a);
                        Some (AMRC_SUCCESS, t\<lparr>olinks := h\<rparr>) } } }"

section \<open>Reading the command line\<close>

fun option_of :: "olink \<Rightarrow> addr option" where
  "option_of (OptLink a) = Some a"
| "option_of OptList = None"

text \<open>\<^verbatim>\<open>amlist_for_each_entry\<close> over the options.\<close>

definition opt_list :: "'c amopt \<Rightarrow> addr list option" where
  "opt_list t = do { ls \<leftarrow> amlist_for_each_entry (olinks t) OptList; those (map option_of ls) }"

fun search_long_from :: "'c amopt \<Rightarrow> string \<Rightarrow> addr list \<Rightarrow> addr option option" where
  "search_long_from t name [] = Some None"
| "search_long_from t name (a # as) =
     do { long \<leftarrow> form_long (options t a);
          if name = long then Some (Some a) else search_long_from t name as }"

definition amopts_search_long :: "'c amopt \<Rightarrow> string \<Rightarrow> addr option option" where
  "amopts_search_long t name = do { as \<leftarrow> opt_list t; search_long_from t name as }"

definition amopts_search_short :: "'c amopt \<Rightarrow> string \<Rightarrow> addr option option" where
  "amopts_search_short t name =
     (case name of
        [c] \<Rightarrow> do { as \<leftarrow> opt_list t; Some (List.find (\<lambda>a. c = form_short (options t a)) as) }
      | _ \<Rightarrow> Some None)"

definition amopts_read_value :: "allocator \<Rightarrow> 'c amopt \<Rightarrow> addr \<Rightarrow> string \<Rightarrow> (amrc \<times> 'c amopt) option" where
  "amopts_read_value alloc t a input =
     do { f \<leftarrow> parse (options t a);
          let (rc, t) = call_prase alloc t f (offset (options t a)) input;
          if rc \<noteq> AMRC_SUCCESS then
            Some (AMRC_ERROR, say (''ERROR: Failed to parse input '' @ quoted input @ '' to option '' @ long_of (options t a) @ NL) t)
          else
            do { let (rc, t) = (case validate (options t a) of
                                  None \<Rightarrow> (AMRC_SUCCESS, t)
                                | Some g \<Rightarrow> call_val t g (Some (offset (options t a))));
                 if rc \<noteq> AMRC_SUCCESS then Some (AMRC_ERROR, t)
                 else Some (AMRC_SUCCESS, option_put t a ((options t a)\<lparr>is_set := True\<rparr>)) } }"

definition find_option :: "'c amopt \<Rightarrow> string \<Rightarrow> addr option option" where
  "find_option t arg =
     (case arg of
        c # rest \<Rightarrow>
          if c = CHR ''-'' then
            (case rest of
               d # name \<Rightarrow> if d = CHR ''-'' then amopts_search_long t name else amopts_search_short t rest
             | [] \<Rightarrow> amopts_search_short t rest)
          else Some None
      | [] \<Rightarrow> Some None)"

text \<open>The loop over the arguments, which takes one or two of them.\<close>

fun read_args :: "allocator \<Rightarrow> 'c amopt \<Rightarrow> string list \<Rightarrow> (amrc \<times> 'c amopt) option" where
  "read_args alloc t [] = Some (AMRC_SUCCESS, t)"
| "read_args alloc t (arg # args) =
     do { opn \<leftarrow> find_option t arg;
          case opn of
            None \<Rightarrow> Some (AMRC_ERROR, say (''ERROR: Unrecognized option '' @ quoted arg @ NL) t)
          | Some a \<Rightarrow>
              if opt_type (options t a) = AMOPT_FLAG then read_args alloc (member_put t (offset (options t a)) (Byte 1)) args
              else
                (case args of
                   [] \<Rightarrow> Some (AMRC_ERROR, say (''ERROR: Must provide input to argument '' @ long_of (options t a) @ NL) t)
                 | v # args \<Rightarrow>
                     do { (rc, t) \<leftarrow> amopts_read_value alloc t a v;
                          if rc \<noteq> AMRC_SUCCESS then Some (AMRC_ERROR, t) else read_args alloc t args }) }"

definition amopts_read :: "allocator \<Rightarrow> 'c amopt \<Rightarrow> string list \<Rightarrow> (amrc \<times> 'c amopt) option" where
  "amopts_read alloc t argv =
     do { (rc, t) \<leftarrow> read_args alloc t argv;
          if rc \<noteq> AMRC_SUCCESS then Some (AMRC_ERROR, t)
          else
            do { as \<leftarrow> opt_list t;
                 case List.find (\<lambda>a. \<not> is_set (options t a)) as of
                   Some a \<Rightarrow> Some (AMRC_ERROR, say (''ERROR: No default exists for option '' @ long_of (options t a) @
                     '', must specify a value'' @ NL) t)
                 | None \<Rightarrow>
                     Some (case final_val t of None \<Rightarrow> (AMRC_SUCCESS, t) | Some g \<Rightarrow> call_val t g None) } }"

section \<open>Printing\<close>

definition pad_right :: "nat \<Rightarrow> string \<Rightarrow> string" where
  "pad_right w s = s @ replicate (w - length s) CHR '' ''"

definition max_help :: nat where "max_help = 112 - 30"

function help_lines :: "nat \<Rightarrow> string \<Rightarrow> string" where
  "help_lines len help =
     (if len = 0 then NL
      else if len \<le> max_help then take len help @ NL
      else take max_help help @ NL @ replicate 27 CHR '' '' @ help_lines (len - max_help) (drop max_help help))"

  by pat_completeness auto

termination by (relation "measure fst") (simp_all add: max_help_def)

declare help_lines.simps [simp del]

definition amopts_print_opt :: "'c amopt_option \<Rightarrow> (bool \<times> string) option" where
  "amopts_print_opt opn =
     do { let is_mandatory = (default_value opn = None \<and> opt_type opn \<noteq> AMOPT_FLAG);
          long \<leftarrow> form_long opn;
          help \<leftarrow> help_string opn;
          Some (is_mandatory,
            (if is_mandatory then ''*'' else '' '') @
            (if form_short opn \<noteq> NUL then ''-'' @ [form_short opn] @ '' '' else ''   '') @
            ''--'' @ pad_right 20 long @ '' '' @
            help_lines (min (length help) 256) help) }"

fun print_opts :: "'c amopt \<Rightarrow> addr list \<Rightarrow> bool \<Rightarrow> (bool \<times> 'c amopt) option" where
  "print_opts t [] mandatories = Some (mandatories, t)"
| "print_opts t (a # as) mandatories =
     do { (m, s) \<leftarrow> amopts_print_opt (options t a); print_opts (say s t) as (m \<or> mandatories) }"

definition amopts_print_help :: "'c amopt \<Rightarrow> 'c amopt option" where
  "amopts_print_help t =
     do { as \<leftarrow> opt_list t;
          (mandatories, t) \<leftarrow> print_opts t as False;
          let t = say NL t;
          let t = (if mandatories then say ('' Options marked with '' @ quoted ''*'' @ '' are mandatory.'' @ NL) t else t);
          Some (say ('' Specify value --[option] [value]. Flags require no value.'' @ NL @ NL) t) }"

text \<open>\<open>lf\<close> is the conversion \<^verbatim>\<open>%lf\<close> of the platform.\<close>

definition print_value :: "(nat \<Rightarrow> nat \<Rightarrow> string) \<Rightarrow> 'c amopt \<Rightarrow> addr \<Rightarrow> 'c amopt option" where
  "print_value lf t a =
     (let opn = options t a; v = struct t (offset opn)
      in case opt_type opn of
           AMOPT_FLAG \<Rightarrow> (case v of Byte b \<Rightarrow> Some (say (dec (unat b) @ NL) t) | _ \<Rightarrow> None)
         | AMOPT_UINT64 \<Rightarrow> (case v of Number n \<Rightarrow> Some (say (dec (unat n) @ NL) t) | _ \<Rightarrow> None)
         | AMOPT_UDOUBLE \<Rightarrow> (case v of Decimal m k \<Rightarrow> Some (say (lf m k @ NL) t) | _ \<Rightarrow> None)
         | AMOPT_STRING \<Rightarrow> (case v of Pointer (Some p) \<Rightarrow> Some (say (quoted (otext t p) @ NL) t) | _ \<Rightarrow> None)
         | AMOPT_CUSTOM \<Rightarrow>
             Some (case print_custom opn of
                     Some g \<Rightarrow> snd (call_val t g (Some (offset opn)))
                   | None \<Rightarrow> say (''Custom attribute with no print function'' @ NL) t)
         | AMOPT_OTHER n \<Rightarrow> Some t)"

fun print_values :: "(nat \<Rightarrow> nat \<Rightarrow> string) \<Rightarrow> 'c amopt \<Rightarrow> addr list \<Rightarrow> 'c amopt option" where
  "print_values lf t [] = Some t"
| "print_values lf t (a # as) =
     do { long \<leftarrow> form_long (options t a);
          t \<leftarrow> print_value lf (say (''  '' @ pad_right 20 long @ '' '') t) a;
          print_values lf t as }"

definition amopts_print_values :: "(nat \<Rightarrow> nat \<Rightarrow> string) \<Rightarrow> 'c amopt \<Rightarrow> 'c amopt option" where
  "amopts_print_values lf t =
     do { as \<leftarrow> opt_list t; print_values lf (say (''Printing command-line options'' @ NL) t) as }"

end
