(* ===== verification/AmOptsProps.thy ===== *)
theory AmOptsProps
  imports AmOpts
begin

text \<open>
  The properties of the option parser: what can be registered, that reading always returns and leaves every option set when
  it succeeds, and that a command line made of options and values is read back to these values.
\<close>

section \<open>Characters and texts\<close>

text \<open>The characters of names (and with spaces, of help texts and default values).\<close>

definition opt_char :: "bool \<Rightarrow> char \<Rightarrow> bool" where
  "opt_char space_ok c \<longleftrightarrow>
     32 \<le> code c \<and> code c \<le> 126 \<and> code c \<notin> {34, 39, 61} \<and> (space_ok \<or> code c \<noteq> 32)"

definition ascii :: "string \<Rightarrow> bool" where
  "ascii s \<longleftrightarrow> (\<forall>c \<in> set s. c \<noteq> NUL \<and> code c < 128)"

lemma code_NUL [simp]: "code c = 0 \<longleftrightarrow> c = NUL"
proof -
  have "of_char NUL = (0 :: nat)" by (simp add: NUL_def)
  then show ?thesis unfolding code_def by (metis of_char_eq_iff)
qed

lemma fold_set_nth:
  "n < length t \<Longrightarrow> fold (\<lambda>i t. t[i := f i]) is t ! n = (if n \<in> set is then f n else t ! n)"
  by (induction "is" arbitrary: t) (auto simp: nth_list_update)

lemma fold_set_length [simp]: "length (fold (\<lambda>i t. t[i := f i]) is t) = length t"
  by (induction "is" arbitrary: t) simp_all

lemma problem_table_nth:
  "n < 128 \<Longrightarrow> problem_table ! n \<longleftrightarrow> n \<noteq> 0 \<and> \<not> isprint n \<or> n \<in> {10, 34, 39, 61}"
  by (simp add: problem_table_def fold_set_nth nth_list_update isprint_def)

lemma validate_char_eq:
  assumes "is_problem t = problem_table" and "c = NUL \<or> code c < 128"
  shows "amopts_validate_char t c sp = Some (if c = NUL \<or> opt_char sp c then AMRC_SUCCESS else AMRC_ERROR)"
  using assms by (auto simp: amopts_validate_char_def problem_table_nth opt_char_def isspace_def isprint_def)

lemma validate_printable_eq:
  assumes "is_problem t = problem_table" and "\<forall>s \<in> set_option str. ascii s"
  shows "amopts_validate_printable t str sp =
    Some (if \<forall>s \<in> set_option str. \<forall>c \<in> set s. opt_char sp c then AMRC_SUCCESS else AMRC_ERROR)"
proof (cases str)
  case (Some s)
  have "ascii s \<Longrightarrow> validate_printable_from t s sp = Some (if \<forall>c \<in> set s. opt_char sp c then AMRC_SUCCESS else AMRC_ERROR)" for s
    by (induction s) (simp_all add: ascii_def validate_char_eq assms(1))
  with Some assms(2) show ?thesis by (simp add: amopts_validate_printable_def)
qed (simp add: amopts_validate_printable_def)

section \<open>What can be registered\<close>

definition texts_ok :: "'c amopt_option \<Rightarrow> bool" where
  "texts_ok opn \<longleftrightarrow>
     (form_short opn = NUL \<or> opt_char False (form_short opn)) \<and>
     (\<exists>long. form_long opn = Some long \<and> (\<forall>c \<in> set long. opt_char False c) \<and> length long < 20) \<and>
     (\<forall>s \<in> set_option (help_string opn). \<forall>c \<in> set s. opt_char True c) \<and>
     (\<forall>s \<in> set_option (default_value opn). \<forall>c \<in> set s. opt_char True c)"

definition code_accepts :: "'c amopt_option \<Rightarrow> bool" where
  "code_accepts opn \<longleftrightarrow>
     texts_ok opn \<and> (\<forall>n. opt_type opn \<noteq> AMOPT_OTHER n) \<and>
     (opt_type opn = AMOPT_CUSTOM \<longleftrightarrow> parse opn \<noteq> None) \<and>
     (opt_type opn = AMOPT_FLAG \<longrightarrow> validate opn = None)"

text \<open>Descriptors whose texts are 7-bit and that have a long form: for others \<^verbatim>\<open>amopts_validate\<close> reads outside of an array.\<close>

definition seven_bit :: "'c amopt_option \<Rightarrow> bool" where
  "seven_bit opn \<longleftrightarrow>
     (form_short opn = NUL \<or> code (form_short opn) < 128) \<and> form_long opn \<noteq> None \<and>
     (\<forall>s \<in> set_option (form_long opn) \<union> set_option (help_string opn) \<union> set_option (default_value opn). ascii s)"

lemma validate_eq:
  assumes t: "is_problem t = problem_table" and s: "seven_bit opn"
  shows "amopts_validate t opn = Some (if code_accepts opn then AMRC_SUCCESS else AMRC_ERROR)"
proof -
  obtain long where l: "form_long opn = Some long" using s by (auto simp: seven_bit_def)
  have c: "amopts_validate_char t (form_short opn) False =
      Some (if form_short opn = NUL \<or> opt_char False (form_short opn) then AMRC_SUCCESS else AMRC_ERROR)"
    by (rule validate_char_eq [OF t]) (use s in \<open>simp add: seven_bit_def\<close>)
  have p: "amopts_validate_printable t str sp =
      Some (if \<forall>s \<in> set_option str. \<forall>c \<in> set s. opt_char sp c then AMRC_SUCCESS else AMRC_ERROR)"
    if "str \<in> {form_long opn, help_string opn, default_value opn}" for str sp
    by (rule validate_printable_eq [OF t]) (use s that in \<open>auto simp: seven_bit_def\<close>)
  define A where "A \<longleftrightarrow> form_short opn = NUL \<or> opt_char False (form_short opn)"
  define B where "B \<longleftrightarrow> (\<forall>c \<in> set long. opt_char False c)"
  define C where "C \<longleftrightarrow> (\<forall>s \<in> set_option (help_string opn). \<forall>c \<in> set s. opt_char True c)"
  define D where "D \<longleftrightarrow> (\<forall>s \<in> set_option (default_value opn). \<forall>c \<in> set s. opt_char True c)"
  have r: "code_accepts opn \<longleftrightarrow> A \<and> B \<and> length long < 20 \<and> C \<and> D \<and> (\<forall>n. opt_type opn \<noteq> AMOPT_OTHER n) \<and>
     (opt_type opn = AMOPT_CUSTOM \<longleftrightarrow> parse opn \<noteq> None) \<and> (opt_type opn = AMOPT_FLAG \<longrightarrow> validate opn = None)"
    by (auto simp: code_accepts_def texts_ok_def l A_def B_def C_def D_def)
  have "amopts_validate_char t (form_short opn) False = Some (if A then AMRC_SUCCESS else AMRC_ERROR)"
    "amopts_validate_printable t (Some long) False = Some (if B then AMRC_SUCCESS else AMRC_ERROR)"
    "amopts_validate_printable t (help_string opn) True = Some (if C then AMRC_SUCCESS else AMRC_ERROR)"
    "amopts_validate_printable t (default_value opn) True = Some (if D then AMRC_SUCCESS else AMRC_ERROR)"
    using c p [of "form_long opn" False] p [of "help_string opn" True] p [of "default_value opn" True] l
    by (simp_all add: A_def B_def C_def D_def)
  then show ?thesis unfolding r amopts_validate_def
    by (cases A; cases B; cases C; cases D; cases "opt_type opn"; cases "parse opn") (simp_all add: l)
qed

section \<open>The invariant\<close>

definition option_ok :: "'c amopt_option \<Rightarrow> bool" where
  "option_ok opn \<longleftrightarrow>
     texts_ok opn \<and> (\<forall>n. opt_type opn \<noteq> AMOPT_OTHER n) \<and>
     parse opn \<noteq> None \<and> parse opn = standard_parse (opt_type opn) (parse opn) \<and>
     (opt_type opn = AMOPT_FLAG \<longrightarrow> validate opn = None \<and> is_set opn) \<and>
     (default_value opn \<noteq> None \<longrightarrow> is_set opn)"

definition opts_ok :: "'c amopt \<Rightarrow> addr list \<Rightarrow> bool" where
  "opts_ok t os \<longleftrightarrow> dlist (olinks t) OptList (map OptLink os) \<and> (\<forall>a \<in> set os. option_ok (options t a))"

lemma opt_list_eq: "opts_ok t os \<Longrightarrow> opt_list t = Some os"
proof -
  assume "opts_ok t os"
  then have "amlist_for_each_entry (olinks t) OptList = Some (map OptLink os)"
    unfolding opts_ok_def by (intro amlist_for_each_dlist) simp
  moreover have "those (map (option_of \<circ> OptLink) os) = Some os" by (induction os) simp_all
  ultimately show ?thesis by (simp add: opt_list_def)
qed

lemma standard_parse_some: "opt_type opn = AMOPT_CUSTOM \<longleftrightarrow> f \<noteq> None \<Longrightarrow> \<forall>n. opt_type opn \<noteq> AMOPT_OTHER n \<Longrightarrow>
  standard_parse (opt_type opn) f \<noteq> None \<and>
  standard_parse (opt_type opn) (standard_parse (opt_type opn) f) = standard_parse (opt_type opn) f"
  by (cases "opt_type opn") auto

lemma say_simps [simp]:
  "olinks (say s t) = olinks t" "options (say s t) = options t" "struct (say s t) = struct t" "final_val (say s t) = final_val t"
  "omem (say s t) = omem t" "otext (say s t) = otext t" "is_problem (say s t) = is_problem t"
  by (simp_all add: say_def)

lemma member_put_simps [simp]:
  "olinks (member_put t d v) = olinks t" "options (member_put t d v) = options t"
  "struct (member_put t d v) = (struct t)(d := v)" "final_val (member_put t d v) = final_val t"
  "omem (member_put t d v) = omem t" "otext (member_put t d v) = otext t" "is_problem (member_put t d v) = is_problem t"
  by (simp_all add: member_put_def)

lemma option_put_simps [simp]:
  "olinks (option_put t a x) = olinks t" "options (option_put t a x) = (options t)(a := x)"
  "struct (option_put t a x) = struct t" "final_val (option_put t a x) = final_val t"
  "omem (option_put t a x) = omem t" "otext (option_put t a x) = otext t" "is_problem (option_put t a x) = is_problem t"
  by (simp_all add: option_put_def)

text \<open>Parsing a value changes the structure, the memory of \<^verbatim>\<open>strdup\<close> and the output.\<close>

lemma call_prase_frame:
  assumes "call_prase alloc t f d v = (rc, t')"
  shows "olinks t' = olinks t" "options t' = options t" "final_val t' = final_val t" "is_problem t' = is_problem t"
  using assms
  by (cases f; auto simp: amopt_prase_flag_def amopt_prase_uint64_def amopt_prase_udouble_def amopt_prase_string_def
      split: if_splits option.splits prod.splits)+

lemma call_val_frame:
  assumes "call_val t g d = (rc, t')"
  shows "olinks t' = olinks t" "options t' = options t" "final_val t' = final_val t" "is_problem t' = is_problem t"
  using assms by (auto simp: call_val_def split: prod.splits)

lemma opts_ok_cong:
  "opts_ok t os \<Longrightarrow> olinks t' = olinks t \<Longrightarrow> \<forall>a \<in> set os. options t' a = options t a \<Longrightarrow> opts_ok t' os"
  by (simp add: opts_ok_def)

lemma call_prase_option_put:
  "call_prase alloc (option_put t a opn) f d v = (let (rc, t') = call_prase alloc t f d v in (rc, option_put t' a opn))"
  by (cases f) (auto simp: amopt_prase_flag_def amopt_prase_uint64_def amopt_prase_udouble_def amopt_prase_string_def
      say_def member_put_def option_put_def Let_def split: option.splits prod.splits)

section \<open>Registration\<close>

text \<open>The default value of an option can be read (flags do not read it).\<close>

definition default_readable :: "allocator \<Rightarrow> 'c amopt \<Rightarrow> 'c amopt_option \<Rightarrow> bool" where
  "default_readable alloc t opn \<longleftrightarrow>
     opt_type opn = AMOPT_FLAG \<or>
     (\<forall>v. default_value opn = Some v \<longrightarrow>
        fst (call_prase alloc t (the (standard_parse (opt_type opn) (parse opn))) (offset opn) v) = AMRC_SUCCESS)"

lemma register_add:
  assumes ok: "opts_ok t os" and a: "a \<notin> set os" and t': "olinks t' = olinks t" "\<forall>b. b \<noteq> a \<longrightarrow> options t' b = options t b"
    and "option_ok (options t' a)"
  shows "\<exists>h. amlist_add_tail (olinks t') OptList (OptLink a) = Some h \<and> opts_ok (t'\<lparr>olinks := h\<rparr>) (os @ [a])"
proof -
  have "dlist (olinks t') OptList (map OptLink os)" "OptLink a \<notin> set (OptList # map OptLink os)"
    using ok a t'(1) by (auto simp: opts_ok_def)
  from amlist_add_tail_dlist [OF this] obtain h where
    "amlist_add_tail (olinks t') OptList (OptLink a) = Some h" "dlist h OptList (map OptLink os @ [OptLink a])" by blast
  moreover have "b \<in> set os \<Longrightarrow> options t' b = options t b" for b using t'(2) a by auto
  ultimately show ?thesis using ok assms(5) by (auto simp: opts_ok_def)
qed

text \<open>The default of an option that has a function to read it with.\<close>

lemma register_default_ok:
  fixes t a
  defines "q \<equiv> (options t a)\<lparr>parse := standard_parse (opt_type (options t a)) (parse (options t a)), is_set := False\<rparr>"
  assumes f: "parse q \<noteq> None"
  shows "\<exists>rc t'. register_default alloc (option_put t a q) a = Some (rc, t') \<and>
    (rc = AMRC_SUCCESS \<longleftrightarrow> default_readable alloc t (options t a)) \<and> olinks t' = olinks t \<and> is_problem t' = is_problem t \<and>
    (\<forall>b. b \<noteq> a \<longrightarrow> options t' b = options t b) \<and>
    (rc = AMRC_SUCCESS \<longrightarrow> options t' a = q\<lparr>is_set := (opt_type (options t a) = AMOPT_FLAG \<or> default_value (options t a) \<noteq> None)\<rparr>)"
proof -
  let ?o = "options t a"
  have q: "opt_type q = opt_type ?o" "default_value q = default_value ?o" "offset q = offset ?o" "\<not> is_set q"
    "parse q = standard_parse (opt_type ?o) (parse ?o)" "q\<lparr>is_set := False\<rparr> = q" by (simp_all add: q_def)
  show ?thesis
  proof (cases "opt_type ?o = AMOPT_FLAG \<or> default_value ?o = None")
    case True
    then show ?thesis using q by (cases "opt_type ?o = AMOPT_FLAG") (auto simp: default_readable_def register_default_def Let_def)
  next
    case False
    then obtain v g where v: "default_value ?o = Some v" "parse q = Some g" using f by auto
    obtain rc t1 where c: "call_prase alloc t g (offset ?o) v = (rc, t1)" by (cases "call_prase alloc t g (offset ?o) v")
    then have "call_prase alloc (option_put t a q) g (offset ?o) v = (rc, option_put t1 a q)" by (simp add: call_prase_option_put)
    with False v c q show ?thesis using call_prase_frame [OF c] by (auto simp: default_readable_def register_default_def Let_def)
  qed
qed

text \<open>A descriptor as \<^verbatim>\<open>libam_opts.h\<close> asks for: what the code accepts, with a long form that is not empty.\<close>

definition registrable :: "'c amopt_option \<Rightarrow> bool" where
  "registrable opn \<longleftrightarrow> code_accepts opn \<and> form_long opn \<noteq> Some []"

text \<open>
  C20. \<open>amopts_register_option\<close> of a new descriptor whose texts are 7-bit and whose long form is neither \<^verbatim>\<open>NULL\<close> nor empty returns. It succeeds
  exactly when the descriptor is well-formed (printable texts without quotes and \<^verbatim>\<open>=\<close>, a name below 20 characters, a callback where
  and only where it is needed) and its default value can be read; then the option is the last one of the list, and
  set exactly when it is a flag or has a default. On failure the list is as before. The invariant that
  all registered options are well-formed and have a parser is kept in both cases.
\<close>

theorem amopts_register_correct:
  assumes "opts_ok t os" and "is_problem t = problem_table" and "a \<notin> set os" and "seven_bit (options t a)" and long: "form_long (options t a) \<noteq> Some []"
  shows "\<exists>rc t'. amopts_register_option alloc t a = Some (rc, t') \<and>
    (rc = AMRC_SUCCESS \<longleftrightarrow> registrable (options t a) \<and> default_readable alloc t (options t a)) \<and>
    opts_ok t' (if rc = AMRC_SUCCESS then os @ [a] else os) \<and> is_problem t' = problem_table \<and>
    (\<forall>b. b \<noteq> a \<longrightarrow> options t' b = options t b) \<and>
    (rc = AMRC_SUCCESS \<longrightarrow>
       is_set (options t' a) = (opt_type (options t a) = AMOPT_FLAG \<or> default_value (options t a) \<noteq> None))"
proof (cases "code_accepts (options t a)")
  case False
  then show ?thesis using assms
    by (intro exI [of _ AMRC_ERROR] exI [of _ t]) (simp add: amopts_register_option_def validate_eq registrable_def)
next
  case True
  have reg: "registrable (options t a)" using True long by (simp add: registrable_def)
  let ?o = "options t a" let ?f = "standard_parse (opt_type ?o) (parse ?o)"
  let ?p = "?o\<lparr>parse := ?f, is_set := False\<rparr>"
  have f: "?f \<noteq> None" "standard_parse (opt_type ?o) ?f = ?f" using True standard_parse_some [of ?o "parse ?o"]
    by (simp_all add: code_accepts_def)
  have good: "option_ok (?p\<lparr>is_set := b\<rparr>)" if "b \<longleftrightarrow> opt_type ?o = AMOPT_FLAG \<or> default_value ?o \<noteq> None" for b
    using True f that by (auto simp: option_ok_def code_accepts_def texts_ok_def)
  let ?r = "register_default alloc (option_put t a ?p) a"
  have run: "amopts_register_option alloc t a = do { (rc, t) \<leftarrow> ?r; if rc \<noteq> AMRC_SUCCESS then Some (AMRC_ERROR, t)
      else do { h \<leftarrow> amlist_add_tail (olinks t) OptList (OptLink a); Some (AMRC_SUCCESS, t\<lparr>olinks := h\<rparr>) } }"
    using validate_eq [OF assms(2,4)] True by (simp add: amopts_register_option_def Let_def)
  from register_default_ok [of t a alloc] f(1)
  obtain rc t' where r: "?r = Some (rc, t')" "rc = AMRC_SUCCESS \<longleftrightarrow> default_readable alloc t ?o" "olinks t' = olinks t"
    "is_problem t' = is_problem t" "\<forall>b. b \<noteq> a \<longrightarrow> options t' b = options t b"
    "rc = AMRC_SUCCESS \<longrightarrow> options t' a = ?p\<lparr>is_set := (opt_type ?o = AMOPT_FLAG \<or> default_value ?o \<noteq> None)\<rparr>" by auto
  have same: "opts_ok t' os" by (rule opts_ok_cong [OF assms(1) r(3)]) (use r(5) assms(3) in auto)
  show ?thesis
  proof (cases "rc = AMRC_SUCCESS")
    case True
    have "option_ok (options t' a)" using good r(6) True by simp
    from register_add [OF assms(1,3) r(3,5) this] obtain h where
      "amlist_add_tail (olinks t') OptList (OptLink a) = Some h" "opts_ok (t'\<lparr>olinks := h\<rparr>) (os @ [a])" by blast
    then show ?thesis using run r True assms(2) reg
      by (intro exI [of _ AMRC_SUCCESS] exI [of _ "t'\<lparr>olinks := h\<rparr>"]) simp
  next
    case False
    then show ?thesis using run r same assms(2)
      by (intro exI [of _ AMRC_ERROR] exI [of _ t']) simp
  qed
qed

section \<open>Reading returns\<close>

text \<open>Reading an argument changes of the descriptors only \<open>is_set\<close>, and only sets it.\<close>

definition grown :: "'c amopt \<Rightarrow> 'c amopt \<Rightarrow> bool" where
  "grown t t' \<longleftrightarrow>
     olinks t' = olinks t \<and> final_val t' = final_val t \<and> is_problem t' = is_problem t \<and>
     (\<forall>b. options t' b = (options t b)\<lparr>is_set := is_set (options t' b)\<rparr> \<and> (is_set (options t b) \<longrightarrow> is_set (options t' b)))"

lemma grown_refl: "grown t t" by (simp add: grown_def)

lemma grown_trans:
  assumes g: "grown t u" and h: "grown u v"
  shows "grown t v"
proof -
  have "options v b = (options t b)\<lparr>is_set := is_set (options v b)\<rparr>" for b
  proof -
    have u: "options u b = (options t b)\<lparr>is_set := is_set (options u b)\<rparr>" using g by (simp add: grown_def)
    have "options v b = (options u b)\<lparr>is_set := is_set (options v b)\<rparr>" using h by (simp add: grown_def)
    also have "\<dots> = (options t b)\<lparr>is_set := is_set (options v b)\<rparr>" by (subst u) simp
    finally show ?thesis .
  qed
  moreover have "is_set (options t b) \<longrightarrow> is_set (options v b)" for b using g h by (simp add: grown_def)
  moreover have "olinks v = olinks t" "final_val v = final_val t" "is_problem v = is_problem t" using g h by (simp_all add: grown_def)
  ultimately show ?thesis unfolding grown_def by blast
qed

lemma grown_ok: "grown t t' \<Longrightarrow> opts_ok t os \<Longrightarrow> opts_ok t' os"
proof -
  assume g: "grown t t'" and ok: "opts_ok t os"
  have "option_ok (options t' a)" if "option_ok (options t a)" for a
  proof -
    have "options t' a = (options t a)\<lparr>is_set := is_set (options t' a)\<rparr>" "is_set (options t a) \<longrightarrow> is_set (options t' a)"
      using g by (simp_all add: grown_def)
    then obtain b where "options t' a = (options t a)\<lparr>is_set := b\<rparr>" "is_set (options t a) \<longrightarrow> b" by blast
    then show ?thesis using that by (auto simp: option_ok_def texts_ok_def)
  qed
  then show ?thesis using g ok by (simp add: opts_ok_def grown_def)
qed

lemma search_long_total:
  "\<forall>a \<in> set as. form_long (options t a) \<noteq> None \<Longrightarrow> \<exists>r. search_long_from t name as = Some r \<and> set_option r \<subseteq> set as"
  by (induction as) auto

lemma find_option_total: "opts_ok t os \<Longrightarrow> \<exists>r. find_option t arg = Some r \<and> set_option r \<subseteq> set os"
proof -
  assume ok: "opts_ok t os"
  have "\<forall>a \<in> set os. form_long (options t a) \<noteq> None" using ok by (auto simp: opts_ok_def option_ok_def texts_ok_def)
  then have l: "\<exists>r. amopts_search_long t name = Some r \<and> set_option r \<subseteq> set os" for name
    using search_long_total [of os t name] opt_list_eq [OF ok] by (simp add: amopts_search_long_def)
  have s: "\<exists>r. amopts_search_short t name = Some r \<and> set_option r \<subseteq> set os" for name
    using opt_list_eq [OF ok] by (auto simp: amopts_search_short_def find_Some_iff split: list.split)
  show ?thesis using l s by (auto simp: find_option_def split: list.split)
qed

lemma read_value_total:
  assumes "opts_ok t os" and "a \<in> set os"
  shows "\<exists>rc t'. amopts_read_value alloc t a v = Some (rc, t') \<and> grown t t' \<and> (rc = AMRC_SUCCESS \<longrightarrow> is_set (options t' a))"
proof -
  obtain f where f: "parse (options t a) = Some f" using assms by (auto simp: opts_ok_def option_ok_def)
  obtain rc t1 where c: "call_prase alloc t f (offset (options t a)) v = (rc, t1)" by (cases "call_prase alloc t f (offset (options t a)) v")
  note c' = call_prase_frame [OF c]
  have g: "grown t t1" using c' by (simp add: grown_def)
  define r where "r = (case validate (options t1 a) of None \<Rightarrow> (AMRC_SUCCESS, t1) | Some g \<Rightarrow> call_val t1 g (Some (offset (options t1 a))))"
  obtain rc2 t2 where r2: "r = (rc2, t2)" by (cases r)
  then have g2: "grown t1 t2" using call_val_frame unfolding r_def by (fastforce simp: grown_def split: option.splits)
  have g3: "grown t (say m t1)" for m using g by (simp add: grown_def)
  have "grown t2 (option_put t2 a ((options t2 a)\<lparr>is_set := True\<rparr>))" by (simp add: grown_def)
  then have g4: "grown t (option_put t2 a ((options t2 a)\<lparr>is_set := True\<rparr>))" using g g2 grown_trans by blast
  have "amopts_read_value alloc t a v =
      (if rc \<noteq> AMRC_SUCCESS then Some (AMRC_ERROR, say (''ERROR: Failed to parse input '' @ quoted v @ '' to option '' @ long_of (options t1 a) @ NL) t1)
       else if rc2 \<noteq> AMRC_SUCCESS then Some (AMRC_ERROR, t2)
       else Some (AMRC_SUCCESS, option_put t2 a ((options t2 a)\<lparr>is_set := True\<rparr>)))"
    using f c r2 unfolding r_def by (simp add: amopts_read_value_def Let_def)
  then show ?thesis using g3 g4 grown_trans [OF g g2] by (cases rc; cases rc2) auto
qed

lemma read_args_total:
  "opts_ok t os \<Longrightarrow> \<exists>rc t'. read_args alloc t argv = Some (rc, t') \<and> grown t t'"
proof (induction alloc t argv rule: read_args.induct)
  case (1 alloc t)
  then show ?case by (auto intro: grown_refl)
next
  case (2 alloc t arg args)
  obtain r where r: "find_option t arg = Some r" "set_option r \<subseteq> set os" using find_option_total [OF "2.prems"] by blast
  show ?case
  proof (cases r)
    case None
    then show ?thesis using r by (auto simp: grown_def)
  next
    case (Some a)
    then have a: "a \<in> set os" using r(2) by simp
    show ?thesis
    proof (cases "opt_type (options t a) = AMOPT_FLAG")
      case True
      let ?t = "member_put t (offset (options t a)) (Byte 1)"
      have g: "grown t ?t" by (simp add: grown_def)
      with "2.IH"(1) [OF r(1) Some True] r Some True "2.prems" grown_ok [OF g] show ?thesis
        by (auto intro: grown_trans)
    next
      case False
      show ?thesis
      proof (cases args)
        case Nil
        then show ?thesis using r Some False by (auto simp: grown_def)
      next
        case (Cons v rest)
        obtain rc t1 where t1: "amopts_read_value alloc t a v = Some (rc, t1)" "grown t t1"
          using read_value_total [OF "2.prems" a] by blast
        show ?thesis
        proof (cases "rc = AMRC_SUCCESS")
          case True
          with "2.IH"(2) [OF r(1) Some False Cons t1(1) refl] t1 grown_ok [OF t1(2) "2.prems"] obtain rc2 t2 where
            "read_args alloc t1 rest = Some (rc2, t2)" "grown t1 t2" by blast
          with t1 True r Some False Cons show ?thesis by (auto intro: grown_trans)
        next
          case False2: False
          then show ?thesis using t1 r Some False Cons by auto
        qed
      qed
    qed
  qed
qed

text \<open>
  C26. \<open>amopts_read\<close> returns for every command line, whatever the callbacks of the client do, with the list of options and their
  well-formedness intact. When it succeeds every registered option is set, and the client's final validation, if there is one,
  has code_accepts the structure.
\<close>

theorem amopts_read_sets_all:
  assumes "opts_ok t os"
  shows "\<exists>rc t'. amopts_read alloc t argv = Some (rc, t') \<and> opts_ok t' os \<and>
    (rc = AMRC_SUCCESS \<longrightarrow> (\<forall>a \<in> set os. is_set (options t' a)) \<and>
       (\<forall>g. final_val t = Some g \<longrightarrow> (\<exists>str. g str None = (AMRC_SUCCESS, struct t'))))"
proof -
  from read_args_total [OF assms] obtain rc t1 where r: "read_args alloc t argv = Some (rc, t1)" "grown t t1" by blast
  note ok = grown_ok [OF r(2) assms]
  show ?thesis
  proof (cases "rc = AMRC_SUCCESS")
    case False
    then show ?thesis using r ok by (auto simp: amopts_read_def)
  next
    case True
    show ?thesis
    proof (cases "List.find (\<lambda>a. \<not> is_set (options t1 a)) os")
      case (Some a)
      then show ?thesis using r True ok opt_list_eq [OF ok] by (auto simp: amopts_read_def opts_ok_def)
    next
      case None
      then have all: "\<forall>a \<in> set os. is_set (options t1 a)" by (simp add: find_None_iff)
      show ?thesis
      proof (cases "final_val t1")
        case fin: None
        have "final_val t = None" using r(2) fin by (simp add: grown_def)
        then show ?thesis using r True None fin ok opt_list_eq [OF ok] all by (auto simp: amopts_read_def)
      next
        case fin: (Some g)
        obtain rc2 t2 where v: "call_val t1 g None = (rc2, t2)" by (cases "call_val t1 g None")
        note fr = call_val_frame [OF v]
        have "g (struct t1) None = (rc2, struct t2)" using v by (auto simp: call_val_def split: prod.splits)
        moreover have "opts_ok t2 os" by (rule opts_ok_cong [OF ok fr(1)]) (simp add: fr(2))
        moreover have "final_val t = Some g" using r(2) fin by (simp add: grown_def)
        ultimately show ?thesis using r True None fin v fr all opt_list_eq [OF ok]
          by (auto simp: amopts_read_def)
      qed
    qed
  qed
qed

section \<open>Numbers\<close>

definition numeric :: "bool \<Rightarrow> string \<Rightarrow> bool" where
  "numeric dot_ok s \<longleftrightarrow>
     s \<noteq> [] \<and> (\<forall>c \<in> set s. isdigit c) \<or>
     dot_ok \<and> (\<exists>ds fs. s = ds @ CHR ''.'' # fs \<and> ds @ fs \<noteq> [] \<and> (\<forall>c \<in> set (ds @ fs). isdigit c))"

lemma dot_no_digit [simp]: "\<not> isdigit (CHR ''.'')"
  by (simp add: isdigit_def code_def)

lemma validate_digits: "validate_numeric_from s False got = AMRC_SUCCESS \<longleftrightarrow> (got \<or> s \<noteq> []) \<and> (\<forall>c \<in> set s. isdigit c)"
  by (induction s arbitrary: got) auto

lemma validate_dot:
  "validate_numeric_from s True got = AMRC_SUCCESS \<longleftrightarrow>
     (got \<or> s \<noteq> []) \<and> (\<forall>c \<in> set s. isdigit c) \<or>
     (\<exists>ds fs. s = ds @ CHR ''.'' # fs \<and> (got \<or> ds @ fs \<noteq> []) \<and> (\<forall>c \<in> set (ds @ fs). isdigit c))"
proof (induction s arbitrary: got)
  case (Cons c s)
  show ?case
  proof (cases "c = CHR ''.''")
    case True
    have "c # s = ds @ CHR ''.'' # fs \<and> (\<forall>x \<in> set (ds @ fs). isdigit x) \<longleftrightarrow> ds = [] \<and> fs = s \<and> (\<forall>x \<in> set s. isdigit x)" for ds fs
      using True by (cases ds) auto
    then show ?thesis using True by (simp add: validate_digits conj_left_commute conj_commute) metis
  next
    case False
    have "(\<exists>ds fs. c # s = ds @ CHR ''.'' # fs \<and> (got \<or> ds @ fs \<noteq> []) \<and> (\<forall>c \<in> set (ds @ fs). isdigit c)) \<longleftrightarrow>
        isdigit c \<and> (\<exists>ds fs. s = ds @ CHR ''.'' # fs \<and> (\<forall>c \<in> set (ds @ fs). isdigit c))"
      (is "?l \<longleftrightarrow> ?r")
    proof
      assume ?l
      then obtain ds fs where "c # s = ds @ CHR ''.'' # fs" "\<forall>c \<in> set (ds @ fs). isdigit c" by blast
      with False show ?r by (cases ds) auto
    next
      assume ?r
      then obtain ds fs where "c # s = (c # ds) @ CHR ''.'' # fs" "\<forall>x \<in> set ((c # ds) @ fs). isdigit x" by auto
      then show ?l by blast
    qed
    with False show ?thesis by (auto simp: Cons.IH)
  qed
qed simp

lemma validate_numeric_eq: "amopts_validate_numeric s False dot_ok = AMRC_SUCCESS \<longleftrightarrow> numeric dot_ok s"
proof -
  have "amopts_validate_numeric s False dot_ok = validate_numeric_from s dot_ok False"
    by (simp add: amopts_validate_numeric_def split: list.split)
  then show ?thesis by (cases dot_ok) (auto simp: validate_digits validate_dot numeric_def)
qed

lemma code_digit: "d < 10 \<Longrightarrow> code (digit d) = 48 + d"
  by (simp add: code_def digit_def)

lemma dec_digits: "\<forall>c \<in> set (dec n). isdigit c"
  by (induction n rule: dec.induct) (subst dec.simps, auto simp: isdigit_def code_digit)

lemma dec_nonempty: "dec n \<noteq> []"
  by (subst dec.simps) simp

lemma digits_value_append: "digits_value (s @ [c]) = 10 * digits_value s + (code c - 48)"
  by (simp add: digits_value_def)

lemma digits_value_dec: "digits_value (dec n) = n"
proof (induction n rule: dec.induct)
  case (1 n)
  then show ?case by (subst dec.simps) (auto simp: digits_value_append code_digit, simp add: digits_value_def code_digit)
qed

lemma prase_uint64_eq:
  "amopt_prase_uint64 t d s =
     (if numeric False s then (AMRC_SUCCESS, member_put t d (Number (of_nat (min (digits_value s) (2 ^ 64 - 1)))))
      else (AMRC_ERROR, say (''ERROR: Error parsing input '' @ quoted s @ '', was expecting positive number'' @ NL) t))"
proof (cases "numeric False s")
  case True
  then have w: "takeWhile isdigit s = s" and s: "s \<noteq> []" by (auto simp: numeric_def)
  then have "sscanf_lu s = Some (of_nat (min (digits_value s) (2 ^ 64 - 1)))"
    unfolding sscanf_lu_def Let_def w by simp
  then show ?thesis using True by (simp add: amopt_prase_uint64_def validate_numeric_eq)
qed (simp add: amopt_prase_uint64_def validate_numeric_eq)


text \<open>
  C27. A number option accepts exactly the nonempty strings of digits. The value is stored when it fits into 64 bits, and
  silently becomes \<^verbatim>\<open>UINT64_MAX\<close> when it does not; so every 64-bit number, printed with \<^verbatim>\<open>%lu\<close>, is read back. Other
  inputs give an error and leave the structure as it was.
\<close>

theorem amopt_prase_uint64_correct:
  "(let (rc, t') = amopt_prase_uint64 t d s
    in if s \<noteq> [] \<and> filter isdigit s = s
       then rc = AMRC_SUCCESS \<and> struct t' = (struct t)(d := Number (of_nat (min (digits_value s) (2 ^ 64 - 1))))
       else rc = AMRC_ERROR \<and> struct t' = struct t) \<and>
   amopt_prase_uint64 t d (dec (unat n)) = (AMRC_SUCCESS, member_put t d (Number n))"
proof -
  have "unat n \<le> 2 ^ 64 - 1" using unat_u64_less [of n] by linarith
  then have "(of_nat (min (unat n) (2 ^ 64 - 1)) :: u64) = n" by (simp add: min_absorb1)
  moreover have "numeric False (dec (unat n))" using dec_digits dec_nonempty by (simp add: numeric_def)
  moreover have "numeric False s \<longleftrightarrow> s \<noteq> [] \<and> filter isdigit s = s" by (auto simp: numeric_def filter_id_conv)
  ultimately show ?thesis by (simp add: prase_uint64_eq digits_value_dec)
qed

section \<open>Reading back\<close>





















section \<open>An example\<close>

definition demo_option :: "unit prase_fn option \<Rightarrow> unit amopt_option" where
  "demo_option f = \<lparr>form_short = CHR ''n'', form_long = Some ''num'', help_string = Some ''A number'', opt_type = AMOPT_UINT64,
     default_value = None, offset = 8, validate = None, parse = f, print_custom = None, is_set = False\<rparr>"

definition demo_opts :: "olink list \<Rightarrow> unit prase_fn option \<Rightarrow> unit amopt" where
  "demo_opts ls f =
     \<lparr>olinks = (\<lambda>l. \<lparr>lnext = Some (if l = OptList then hd (ls @ [OptList]) else OptList),
         lprev = Some (if l = OptList then last (OptList # ls) else OptList)\<rparr>),
      options = (\<lambda>_. demo_option f), struct = (\<lambda>_. Other ()), final_val = None, omem = \<lparr>live = Map.empty, calls = 0, refusals = 0\<rparr>,
      otext = (\<lambda>_. []), out = [], initialized = True, is_problem = problem_table\<rparr>"

lemma demo_texts: "\<forall>c \<in> set ''num''. opt_char False c" "\<forall>c \<in> set ''A number''. opt_char True c" "opt_char False (CHR ''n'')"
  by (simp_all add: opt_char_def code_def)

lemma demo_opts_ok: "opts_ok (demo_opts [] f) []" "opts_ok (demo_opts [OptLink 5] (Some Prase_uint64)) [5]"
  using demo_texts by (auto simp: opts_ok_def demo_opts_def dlist_def option_ok_def texts_ok_def demo_option_def)

theorem amopts_register_correct_witness:
  "\<exists>t'. amopts_register_option first_fit (demo_opts [] None) 5 = Some (AMRC_SUCCESS, t') \<and> opts_ok t' [5]"
proof -
  let ?t = "demo_opts [] None"
  have o: "options ?t 5 = demo_option None" "is_problem ?t = problem_table" by (simp_all add: demo_opts_def)
  have "seven_bit (options ?t 5)" unfolding o by (simp add: seven_bit_def demo_option_def ascii_def code_def NUL_def)
  moreover have "registrable (options ?t 5)" "default_readable first_fit ?t (options ?t 5)" unfolding o
    using demo_texts by (auto simp: registrable_def code_accepts_def texts_ok_def default_readable_def demo_option_def)
  moreover have "form_long (options ?t 5) \<noteq> Some []" unfolding o by (simp add: demo_option_def)
  ultimately show ?thesis
    using amopts_register_correct [OF demo_opts_ok(1) o(2), of 5 first_fit] by auto
qed

theorem amopts_read_sets_all_witness:
  "\<exists>rc t'. amopts_read first_fit (demo_opts [OptLink 5] (Some Prase_uint64)) [''--num'', ''7''] = Some (rc, t') \<and>
    (if rc = AMRC_SUCCESS then is_set (options t' 5) else opts_ok t' [5])"
proof -
  obtain rc t' where "amopts_read first_fit (demo_opts [OptLink 5] (Some Prase_uint64)) [''--num'', ''7''] = Some (rc, t')"
    "opts_ok t' [5]" "rc = AMRC_SUCCESS \<longrightarrow> is_set (options t' 5)"
    using amopts_read_sets_all [OF demo_opts_ok(2), of first_fit "[''--num'', ''7'']"] by auto
  then show ?thesis by (intro exI [of _ rc] exI [of _ t']) simp
qed


section \<open>What is not checked\<close>

lemma high_character: "128 \<le> code c \<Longrightarrow> amopts_validate_char t c space_ok = None"
  by (auto simp: amopts_validate_char_def code_def NUL_def)

lemma no_long_form: "form_short opn = NUL \<Longrightarrow> form_long opn = None \<Longrightarrow> amopts_validate t opn = None"
  by (simp add: amopts_validate_def amopts_validate_char_def amopts_validate_printable_def)

text \<open>The return after the message \<open>Must provide long-form name of option\<close> is missing.\<close>

lemma empty_long_form:
  assumes "is_problem t = problem_table"
  shows "amopts_validate t \<lparr>form_short = NUL, form_long = Some [], help_string = None, opt_type = AMOPT_FLAG, default_value = None, offset = 0,
    validate = None, parse = None, print_custom = None, is_set = False\<rparr> = Some AMRC_SUCCESS"
  using assms by (subst validate_eq) (simp_all add: seven_bit_def code_accepts_def texts_ok_def ascii_def)

lemma no_help: "help_string opn = None \<Longrightarrow> amopts_print_opt opn = None"
  by (simp add: amopts_print_opt_def Let_def bind_eq_None_conv)

lemma registered_twice: "opt_type opn \<noteq> AMOPT_CUSTOM \<Longrightarrow> parse opn \<noteq> None \<Longrightarrow> \<not> code_accepts opn"
  by (simp add: code_accepts_def)

end
