(* ===== verification/AmTime.thy ===== *)
theory AmTime
  imports AmAtomic
begin

text \<open>
  The clock and the periodic timers of \<^verbatim>\<open>libam_time.h\<close> and \<^verbatim>\<open>libam_time.c\<close>. A timer is a thread that stores the time
  into a shared handle, and clients that read and configure it; every access to the handle is a step of its own, as its members
  are volatile. A choice of the environment (the time, whether \<^verbatim>\<open>pthread_join\<close> succeeds) is an argument of the step functions.
\<close>

section \<open>The clock\<close>

definition AMTIME_USEC :: u64 where "AMTIME_USEC = 1"
definition AMTIME_MSEC :: u64 where "AMTIME_MSEC = AMTIME_USEC * 1000"
definition AMTIME_SEC :: u64 where "AMTIME_SEC = AMTIME_MSEC * 1000"
definition AMTIME_DEFAULT_REFRESH_PERIOD :: u64 where "AMTIME_DEFAULT_REFRESH_PERIOD = AMTIME_MSEC"

text \<open>\<open>None\<close> is a failed \<^verbatim>\<open>gettimeofday\<close>, otherwise it gives the seconds and the microseconds.\<close>

definition amtime_now :: "(u64 \<times> u64) option \<Rightarrow> u64" where
  "amtime_now r = (case r of None \<Rightarrow> 0 | Some (tv_sec, tv_usec) \<Rightarrow> tv_sec * AMTIME_SEC + tv_usec)"

section \<open>The handle\<close>

record amtime_thread =
  refresh_period :: u64
  max_drift :: u64
  last_now :: u64
  stop_flag :: bool
  thread_free :: bool
  ignore_drift :: bool

definition TIMER_BYTES :: u64 where "TIMER_BYTES = 40"

definition period_of :: "u64 \<Rightarrow> u64" where
  "period_of p = (if p > 0 then p else AMTIME_DEFAULT_REFRESH_PERIOD)"

text \<open>\<open>created\<close> is whether \<^verbatim>\<open>pthread_create\<close> succeeds, \<open>time\<close> the result of \<^verbatim>\<open>amtime_now\<close>.\<close>

definition amtime_preiodic_start :: "allocator \<Rightarrow> bool \<Rightarrow> u64 \<Rightarrow> heap \<Rightarrow> u64 \<Rightarrow> ((addr \<times> amtime_thread) option \<times> heap) option" where
  "amtime_preiodic_start alloc created time h period =
     (case malloc alloc TIMER_BYTES h of
        (None, h) \<Rightarrow> Some (None, h)
      | (Some a, h) \<Rightarrow>
          if created then
            Some (Some (a, \<lparr>refresh_period = period_of period, max_drift = 1, last_now = time, stop_flag = False, thread_free = False,
              ignore_drift = False\<rparr>), h)
          else do { h \<leftarrow> free_block (Some a) h; Some (None, h) })"

section \<open>The thread\<close>

text \<open>
  The points of \<^verbatim>\<open>amtime_preiodic_thread_func\<close> with the local variables that are still read: the new time, the refresh
  period, the old time, and the difference that is to be stored.
\<close>

datatype timer_pc =
    PTest | PClock | PPeriod u64 | PIgnore u64 u64 | PResetDrift u64 | PResetIgnore u64
  | POld u64 u64 | PCompare u64 u64 | PDrift u64 u64 | PNow u64 | PStore u64 u64 | PSleep u64
  | PFreeTest | PFree | PExit

text \<open>One step; \<open>time\<close> is the result of \<^verbatim>\<open>amtime_now\<close>. \<open>None\<close> is an access to a handle that was freed.\<close>

fun timer_step :: "u64 \<Rightarrow> amtime_thread option \<Rightarrow> timer_pc \<Rightarrow> (amtime_thread option \<times> timer_pc) option" where
  "timer_step time m PTest = do { h \<leftarrow> m; Some (m, if stop_flag h then PFreeTest else PClock) }"
| "timer_step time m PClock = Some (m, PPeriod time)"
| "timer_step time m (PPeriod new) = do { h \<leftarrow> m; Some (m, PIgnore new (refresh_period h)) }"
| "timer_step time m (PIgnore new period) = do { h \<leftarrow> m; Some (m, if ignore_drift h then PResetDrift period else POld new period) }"
| "timer_step time m (PResetDrift period) = do { h \<leftarrow> m; Some (Some (h\<lparr>max_drift := 1\<rparr>), PResetIgnore period) }"
| "timer_step time m (PResetIgnore period) = do { h \<leftarrow> m; Some (Some (h\<lparr>ignore_drift := False\<rparr>), PNow period) }"
| "timer_step time m (POld new period) =
     do { h \<leftarrow> m; Some (m, if new - last_now h > period then PCompare (new - last_now h) period else PNow period) }"
| "timer_step time m (PCompare gap period) = do { h \<leftarrow> m; Some (m, if gap > max_drift h then PDrift gap period else PNow period) }"
| "timer_step time m (PDrift gap period) = do { h \<leftarrow> m; Some (Some (h\<lparr>max_drift := gap\<rparr>), PNow period) }"
| "timer_step time m (PNow period) = Some (m, PStore time period)"
| "timer_step time m (PStore new period) = do { h \<leftarrow> m; Some (Some (h\<lparr>last_now := new\<rparr>), PSleep period) }"
| "timer_step time m (PSleep period) = Some (m, PTest)"
| "timer_step time m PFreeTest = do { h \<leftarrow> m; Some (m, if thread_free h then PFree else PExit) }"
| "timer_step time m PFree = do { h \<leftarrow> m; Some (None, PExit) }"
| "timer_step time m PExit = None"

section \<open>The clients\<close>

text \<open>
  The points of the calls on a handle that is not \<^verbatim>\<open>NULL\<close>; the flag is \<open>should_block\<close>. \<open>CDone\<close> is the return with
  its value, 0 where the function returns none.
\<close>

datatype timer_call =
    CRest | CDone u64
  | CNow | CGetPeriod | CGetDrift | CDelDrift | CSetIgnore u64 | CSetPeriod u64
  | CStopFree | CStopFlag bool | CJoin | CDriftTest bool | CDriftRead bool | CRelease u64

text \<open>The first points of the functions.\<close>

definition amtime_preiodic_stop :: "bool \<Rightarrow> timer_call" where
  "amtime_preiodic_stop should_block = (if \<not> should_block then CStopFree else CStopFlag True)"
definition amtime_preiodic_now :: timer_call where "amtime_preiodic_now = CNow"
definition amtime_preiodic_set_refresh_period :: "u64 \<Rightarrow> timer_call" where "amtime_preiodic_set_refresh_period p = CSetIgnore p"
definition amtime_preiodic_get_refresh_period :: timer_call where "amtime_preiodic_get_refresh_period = CGetPeriod"
definition amtime_periodic_get_max_drift :: timer_call where "amtime_periodic_get_max_drift = CGetDrift"
definition amtime_periodic_del_max_drift :: timer_call where "amtime_periodic_del_max_drift = CDelDrift"

text \<open>With the handle \<^verbatim>\<open>NULL\<close> every function returns 0, or nothing, at once.\<close>

definition null_call :: timer_call where "null_call = CDone 0"

text \<open>\<open>over\<close> is whether the thread has ended; a client waits for it in \<^verbatim>\<open>pthread_join\<close>, which fails when \<open>ok\<close> is false.\<close>

fun timer_client_step :: "bool \<Rightarrow> bool \<Rightarrow> amtime_thread option \<Rightarrow> timer_call \<Rightarrow> (amtime_thread option \<times> timer_call) option" where
  "timer_client_step ok over m CNow = do { h \<leftarrow> m; Some (m, CDone (last_now h)) }"
| "timer_client_step ok over m CGetPeriod = do { h \<leftarrow> m; Some (m, CDone (refresh_period h)) }"
| "timer_client_step ok over m CGetDrift = do { h \<leftarrow> m; Some (m, CDone (max_drift h)) }"
| "timer_client_step ok over m CDelDrift = do { h \<leftarrow> m; Some (Some (h\<lparr>max_drift := 1\<rparr>), CDone 0) }"
| "timer_client_step ok over m (CSetIgnore p) = do { h \<leftarrow> m; Some (Some (h\<lparr>ignore_drift := True\<rparr>), CSetPeriod p) }"
| "timer_client_step ok over m (CSetPeriod p) = do { h \<leftarrow> m; Some (Some (h\<lparr>refresh_period := period_of p\<rparr>), CDone 0) }"
| "timer_client_step ok over m CStopFree = do { h \<leftarrow> m; Some (Some (h\<lparr>thread_free := True\<rparr>), CStopFlag False) }"
| "timer_client_step ok over m (CStopFlag block) =
     do { h \<leftarrow> m; Some (Some (h\<lparr>stop_flag := True\<rparr>), if block then CJoin else CDriftTest False) }"
| "timer_client_step ok over m CJoin =
     do { h \<leftarrow> m; Some (m, if \<not> ok then CDone 0 else if over then CDriftTest True else CJoin) }"
| "timer_client_step ok over m (CDriftTest block) =
     do { h \<leftarrow> m; Some (m, if max_drift h > 0 then CDriftRead block else if block then CRelease 1 else CDone 1) }"
| "timer_client_step ok over m (CDriftRead block) =
     do { h \<leftarrow> m; Some (m, if block then CRelease (max_drift h) else CDone (max_drift h)) }"
| "timer_client_step ok over m (CRelease d) = do { h \<leftarrow> m; Some (None, CDone d) }"
| "timer_client_step ok over m CRest = None"
| "timer_client_step ok over m (CDone v) = None"

section \<open>The system\<close>

text \<open>
  A timer that was started, its thread, and any number of clients. A client that stops the timer invalidates the handle,
  so no other call runs then and none begins afterwards; the phase tells whether and how it was stopped.
\<close>

datatype timer_phase = Running | Stopping bool nat

record timer_sys =
  timer_mem :: "amtime_thread option"
  timer_thread :: timer_pc
  timer_clients :: "timer_call list"
  timer_phase :: timer_phase

fun resting :: "timer_call \<Rightarrow> bool" where
  "resting CRest = True" | "resting (CDone v) = True" | "resting _ = False"

fun plain_call :: "timer_call \<Rightarrow> bool" where
  "plain_call CNow = True" | "plain_call CGetPeriod = True" | "plain_call CGetDrift = True" | "plain_call CDelDrift = True"
| "plain_call (CSetIgnore p) = True" | "plain_call _ = False"

definition timer_init :: "timer_sys \<Rightarrow> bool" where
  "timer_init s \<longleftrightarrow> timer_thread s = PTest \<and> timer_phase s = Running \<and> list_all (\<lambda>c. c = CRest) (timer_clients s) \<and>
     (\<exists>alloc time h period a m h'. amtime_preiodic_start alloc True time h period = Some (Some (a, m), h') \<and> timer_mem s = Some m)"

inductive timer_sys_step :: "timer_sys \<Rightarrow> timer_sys \<Rightarrow> bool" where
  thread: "timer_step time (timer_mem s) (timer_thread s) = Some (m, pc) \<Longrightarrow>
    timer_sys_step s (s\<lparr>timer_mem := m, timer_thread := pc\<rparr>)"
| client: "i < length (timer_clients s) \<Longrightarrow>
    timer_client_step ok (timer_thread s = PExit) (timer_mem s) (timer_clients s ! i) = Some (m, c) \<Longrightarrow>
    timer_sys_step s (s\<lparr>timer_mem := m, timer_clients := (timer_clients s)[i := c]\<rparr>)"
| call: "i < length (timer_clients s) \<Longrightarrow> resting (timer_clients s ! i) \<Longrightarrow> timer_phase s = Running \<Longrightarrow> plain_call c \<Longrightarrow>
    timer_sys_step s (s\<lparr>timer_clients := (timer_clients s)[i := c]\<rparr>)"
| stop: "i < length (timer_clients s) \<Longrightarrow> timer_phase s = Running \<Longrightarrow> list_all resting (timer_clients s) \<Longrightarrow>
    timer_sys_step s (s\<lparr>timer_clients := (timer_clients s)[i := amtime_preiodic_stop block], timer_phase := Stopping block i\<rparr>)"

end
