(* ===== verification/AmThreadPool.thy ===== *)
theory AmThreadPool
  imports AmStack AmStats AmTime
begin

text \<open>
  The thread pool of \<^verbatim>\<open>libam_thread_pool.c\<close>: workers and clients as threads in which every access to shared memory
  is a step of its own; runs of reads for the statistics are one step.

  The queue is used through what the stack component promises: elements go in and come out, none is lost or delivered twice, a
  push fails on a full stack, and \<open>amstack_pop\<close> fails when there is no element. Which of the queued tasks is popped is
  left open. A choice of the environment (the time, whether \<^verbatim>\<open>malloc\<close> and \<^verbatim>\<open>pthread_create\<close> succeed) is an argument of the
  step functions. The log messages are compiled out.
\<close>

section \<open>Data\<close>

record tp_config =
  flags :: u32
  default_func :: "addr option"
  poll_freq :: u64
  idle_timeout :: u64
  max_threads :: u64
  min_threads :: u64
  backlog :: u64

definition LIBAM_THREAD_POOL_LAZY_START :: u32 where "LIBAM_THREAD_POOL_LAZY_START = 2"
definition LIBAM_THREAD_POOL_FUNC_OVERRIDE :: u32 where "LIBAM_THREAD_POOL_FUNC_OVERRIDE = 4"

record tp_stats =
  st_threads_created :: u64
  st_tasks_created :: u64
  st_active :: amstat_range
  st_idle :: amstat_range
  st_delay :: amstat_range
  st_processed :: amstat_range
  st_busy :: amstat_range
  st_depth :: amstat_range

record thread_pool =
  tp_id :: u64
  config :: tp_config
  tasks_queue :: "addr list"
  threads_created :: u64
  threads_destroyed :: u64
  tasks_created :: u64
  active_thread_count :: u64
  idle_thread_count :: u64
  running_id :: u64
  drain_signal :: u64
  tp_stats :: tp_stats
  stats_mutex :: bool

record tp_task =
  t_id :: u64
  t_func :: addr
  t_arg :: "addr option"
  t_ret :: "addr option"
  t_time :: u64
  t_active :: u64
  t_idle :: u64
  t_depth :: u64

text \<open>
  The memory: the pool, whether its block is live, the blocks of the tasks, and the calls of task functions made
  so far, with the argument and where the result goes.
\<close>

type_synonym tp_call = "addr \<times> addr option \<times> addr option"

record tp_shared =
  tp :: thread_pool
  tp_live :: bool
  task_mem :: "addr \<rightharpoonup> tp_task"
  runs :: "tp_call list"
  final_stats :: "tp_stats option"

definition call_of :: "tp_task \<Rightarrow> tp_call" where
  "call_of tk = (t_func tk, t_arg tk, t_ret tk)"

section \<open>Statistics\<close>

definition lam_thread_pool_stats_init :: "tp_stats \<Rightarrow> tp_stats" where
  "lam_thread_pool_stats_init st = st\<lparr>st_threads_created := 0, st_tasks_created := 0,
     st_active := amstat_init (st_active st), st_idle := amstat_init (st_idle st), st_delay := amstat_init (st_delay st),
     st_processed := amstat_init (st_processed st), st_busy := amstat_init (st_busy st), st_depth := amstat_init (st_depth st)\<rparr>"

text \<open>Between the lock and the unlock of \<^verbatim>\<open>lam_thread_pool_stats_fold\<close>; \<open>amstat_add\<close> may write to both arguments.\<close>

definition lam_thread_pool_stats_fold :: "tp_stats \<Rightarrow> tp_stats \<Rightarrow> tp_stats \<times> tp_stats" where
  "lam_thread_pool_stats_fold to from =
     (let to = to\<lparr>st_threads_created := st_threads_created to + st_threads_created from,
            st_tasks_created := st_tasks_created to + st_tasks_created from\<rparr>;
          (a, b) = amstat_add (st_active to) (st_active from); to = to\<lparr>st_active := a\<rparr>; from = from\<lparr>st_active := b\<rparr>;
          (a, b) = amstat_add (st_idle to) (st_idle from); to = to\<lparr>st_idle := a\<rparr>; from = from\<lparr>st_idle := b\<rparr>;
          (a, b) = amstat_add (st_delay to) (st_delay from); to = to\<lparr>st_delay := a\<rparr>; from = from\<lparr>st_delay := b\<rparr>;
          (a, b) = amstat_add (st_processed to) (st_processed from); to = to\<lparr>st_processed := a\<rparr>; from = from\<lparr>st_processed := b\<rparr>;
          (a, b) = amstat_add (st_busy to) (st_busy from); to = to\<lparr>st_busy := a\<rparr>; from = from\<lparr>st_busy := b\<rparr>;
          (a, b) = amstat_add (st_depth to) (st_depth from); to = to\<lparr>st_depth := a\<rparr>; from = from\<lparr>st_depth := b\<rparr>
      in (to, from))"

section \<open>Workers\<close>

definition lam_thread_pool_should_stop :: "tp_config \<Rightarrow> u64 \<Rightarrow> u64 \<Rightarrow> u64 \<Rightarrow> bool" where
  "lam_thread_pool_should_stop cf tid now lw =
     (if idle_timeout cf = 0 \<or> now - lw < idle_timeout cf then False
      else if tid \<le> min_threads cf then False
      else True)"

text \<open>The points of \<^verbatim>\<open>lam_thread_pool_worker_func\<close>, and its local variables.\<close>

datatype worker_pc =
    WId | WActive | WIdle | WPop | WEmpty | WDrain | WStop | WSleep
  | WGot | WAccount | WRun | WFree
  | WLock | WFold | WUnlock | WLeaveIdle | WLeaveActive | WGone | WDone

record worker =
  wpc :: worker_pc
  thread_id :: u64
  busy_tasks :: u64
  total_tasks :: u64
  wnow :: u64
  last_work :: u64
  wtask :: addr
  wstats :: tp_stats

definition blank_range :: amstat_range where
  "blank_range = \<lparr>smax = 0, smin = 0, ssum = 0, ssq = 0, savg = 0, snum = 0\<rparr>"

definition blank_stats :: tp_stats where
  "blank_stats = \<lparr>st_threads_created = 0, st_tasks_created = 0, st_active = blank_range, st_idle = blank_range, st_delay = blank_range,
     st_processed = blank_range, st_busy = blank_range, st_depth = blank_range\<rparr>"

definition new_worker :: worker where
  "new_worker = \<lparr>wpc = WId, thread_id = 0, busy_tasks = 0, total_tasks = 0, wnow = 0, last_work = 0, wtask = 0, wstats = blank_stats\<rparr>"

text \<open>The updates of the statistics for a task.\<close>

definition account_task :: "tp_stats \<Rightarrow> u64 \<Rightarrow> tp_task \<Rightarrow> tp_stats option" where
  "account_task st now tk =
     do { a \<leftarrow> amstat_upd (st_delay st) (now - t_time tk);
          let st = st\<lparr>st_delay := a\<rparr>;
          a \<leftarrow> amstat_upd (st_active st) (t_active tk);
          let st = st\<lparr>st_active := a\<rparr>;
          a \<leftarrow> amstat_upd (st_idle st) (t_idle tk);
          let st = st\<lparr>st_idle := a\<rparr>;
          a \<leftarrow> amstat_upd (st_depth st) (t_depth tk);
          Some (st\<lparr>st_depth := a\<rparr>) }"

definition nth_removed :: "nat \<Rightarrow> 'a list \<Rightarrow> 'a list" where
  "nth_removed n xs = take n xs @ drop (Suc n) xs"

definition set_tp :: "tp_shared \<Rightarrow> thread_pool \<Rightarrow> tp_shared" where
  "set_tp k p = k\<lparr>tp := p\<rparr>"

text \<open>
  One step of a worker: \<open>time\<close> is the result of \<^verbatim>\<open>amtime_now\<close>, \<open>n\<close> chooses the task that is popped. A worker that waits
  for the mutex stays where it is; \<open>None\<close> is an access to a block that is not live, or a division by zero.
\<close>

definition worker_step :: "u64 \<Rightarrow> nat \<Rightarrow> tp_shared \<Rightarrow> worker \<Rightarrow> (tp_shared \<times> worker) option" where
  "worker_step time n k w =
     do { c_assert (tp_live k);
          let p = tp k;
          case wpc w of
            WId \<Rightarrow> (let (i, v) = amsync_inc (running_id p)
              in Some (set_tp k (p\<lparr>running_id := v\<rparr>), w\<lparr>wpc := WActive, thread_id := i, busy_tasks := 0, total_tasks := 0\<rparr>))
          | WActive \<Rightarrow> Some (set_tp k (p\<lparr>active_thread_count := snd (amsync_inc (active_thread_count p))\<rparr>), w\<lparr>wpc := WIdle\<rparr>)
          | WIdle \<Rightarrow> Some (set_tp k (p\<lparr>idle_thread_count := snd (amsync_inc (idle_thread_count p))\<rparr>),
              w\<lparr>wpc := WPop, wstats := lam_thread_pool_stats_init (wstats w), wnow := time, last_work := time\<rparr>)
          | WPop \<Rightarrow>
              (case tasks_queue p of
                 [] \<Rightarrow> Some (k, w\<lparr>wpc := WEmpty\<rparr>)
               | _ # _ \<Rightarrow> (let m = n mod length (tasks_queue p)
                   in Some (set_tp k (p\<lparr>tasks_queue := nth_removed m (tasks_queue p)\<rparr>), w\<lparr>wpc := WGot, wtask := tasks_queue p ! m\<rparr>)))
          | WEmpty \<Rightarrow>
              (if busy_tasks w > 0 then
                 do { a \<leftarrow> amstat_upd (st_busy (wstats w)) (busy_tasks w);
                      Some (set_tp k (p\<lparr>idle_thread_count := snd (amsync_inc (idle_thread_count p))\<rparr>),
                        w\<lparr>wpc := WDrain, wstats := (wstats w)\<lparr>st_busy := a\<rparr>, total_tasks := total_tasks w + busy_tasks w, busy_tasks := 0\<rparr>) }
               else Some (k, w\<lparr>wpc := WDrain\<rparr>))
          | WDrain \<Rightarrow> Some (k, w\<lparr>wpc := (if drain_signal p \<noteq> 0 then WLock else WStop)\<rparr>)
          | WStop \<Rightarrow>
              (if lam_thread_pool_should_stop (config p) (thread_id w) (wnow w) (last_work w) then
                 do { a \<leftarrow> amstat_upd (st_processed (wstats w)) (total_tasks w);
                      Some (k, w\<lparr>wpc := WLock, wstats := (wstats w)\<lparr>st_processed := a\<rparr>\<rparr>) }
               else Some (k, w\<lparr>wpc := WSleep\<rparr>))
          | WSleep \<Rightarrow> Some (k, w\<lparr>wpc := WPop, wnow := time\<rparr>)
          | WGot \<Rightarrow>
              Some (if busy_tasks w = 0 then set_tp k (p\<lparr>idle_thread_count := snd (amsync_dec (idle_thread_count p))\<rparr>) else k,
                w\<lparr>wpc := WAccount\<rparr>)
          | WAccount \<Rightarrow>
              do { tk \<leftarrow> task_mem k (wtask w);
                   st \<leftarrow> account_task (wstats w) time tk;
                   Some (k, w\<lparr>wpc := WRun, wnow := time, wstats := st, busy_tasks := busy_tasks w + 1\<rparr>) }
          | WRun \<Rightarrow>
              do { tk \<leftarrow> task_mem k (wtask w);
                   Some (k\<lparr>runs := runs k @ [call_of tk]\<rparr>, w\<lparr>wpc := WFree\<rparr>) }
          | WFree \<Rightarrow>
              do { tk \<leftarrow> task_mem k (wtask w);
                   Some (k\<lparr>task_mem := (task_mem k)(wtask w := None)\<rparr>, w\<lparr>wpc := WPop, wnow := time, last_work := time\<rparr>) }
          | WLock \<Rightarrow>
              Some (if stats_mutex p then (k, w) else (set_tp k (p\<lparr>stats_mutex := True\<rparr>), w\<lparr>wpc := WFold\<rparr>))
          | WFold \<Rightarrow>
              (let (a, b) = lam_thread_pool_stats_fold (tp_stats p) (wstats w)
               in Some (set_tp k (p\<lparr>tp_stats := a\<rparr>), w\<lparr>wpc := WUnlock, wstats := b\<rparr>))
          | WUnlock \<Rightarrow> Some (set_tp k (p\<lparr>stats_mutex := False\<rparr>), w\<lparr>wpc := WLeaveIdle\<rparr>)
          | WLeaveIdle \<Rightarrow>
              Some (set_tp k (p\<lparr>idle_thread_count := snd (amsync_dec (idle_thread_count p))\<rparr>), w\<lparr>wpc := WLeaveActive\<rparr>)
          | WLeaveActive \<Rightarrow>
              Some (set_tp k (p\<lparr>active_thread_count := snd (amsync_dec (active_thread_count p))\<rparr>), w\<lparr>wpc := WGone\<rparr>)
          | WGone \<Rightarrow>
              Some (set_tp k (p\<lparr>threads_destroyed := snd (amsync_inc (threads_destroyed p))\<rparr>), w\<lparr>wpc := WDone\<rparr>)
          | WDone \<Rightarrow> None }"

section \<open>Starting a thread\<close>

text \<open>The points of \<^verbatim>\<open>lam_thread_pool_start_thread\<close>; \<open>ok\<close> is whether \<^verbatim>\<open>pthread_create\<close> succeeds (then \<^verbatim>\<open>pthread_detach\<close> does).\<close>

datatype start_pc = SDrain | SInc | SRead u64 | SUndo | SCreate | SRet amrc

fun start_step :: "bool \<Rightarrow> thread_pool \<Rightarrow> start_pc \<Rightarrow> (thread_pool \<times> start_pc \<times> bool) option" where
  "start_step ok p SDrain = Some (p, if drain_signal p \<noteq> 0 then SRet AMRC_ERROR else SInc, False)"
| "start_step ok p SInc =
     (let (old, v) = amsync_inc (threads_created p) in Some (p\<lparr>threads_created := v\<rparr>, SRead old, False))"
| "start_step ok p (SRead old) =
     Some (p, if max_threads (config p) > 0 \<and> old - threads_destroyed p \<ge> max_threads (config p) then SUndo else SCreate, False)"
| "start_step ok p SUndo =
     Some (p\<lparr>threads_created := snd (amsync_dec (threads_created p))\<rparr>, SRet AMRC_SUCCESS, False)"
| "start_step ok p SCreate = Some (p, if ok then SRet AMRC_SUCCESS else SRet AMRC_ERROR, ok)"
| "start_step ok p (SRet rc) = None"

section \<open>Creation, getters and setters\<close>

definition TP_BYTES :: u64 where "TP_BYTES = 472"

definition create_config :: "tp_config option \<Rightarrow> tp_config" where
  "create_config conf =
     (let c = (case conf of Some c \<Rightarrow> c | None \<Rightarrow> \<lparr>flags = 0, default_func = None, poll_freq = 0, idle_timeout = 0, max_threads = 0,
            min_threads = 0, backlog = 0\<rparr>);
          c = (if poll_freq c = 0 then c\<lparr>poll_freq := 5 * AMTIME_MSEC\<rparr> else c);
          c = (if backlog c = 0 then c\<lparr>backlog := 15\<rparr> else c);
          c = (if min_threads c = 0 then c\<lparr>min_threads := 1\<rparr> else c)
      in if max_threads c \<noteq> 0 \<and> max_threads c < min_threads c then c\<lparr>max_threads := min_threads c\<rparr> else c)"

text \<open>
  \<^verbatim>\<open>lam_thread_pool_create\<close> up to the loop that starts the threads, with the blocks of the pool and of its stack; \<open>index\<close> is
  \<^verbatim>\<open>thread_pool_index\<close>, \<open>mutex_ok\<close> whether the mutex can be initialised.
\<close>

definition lam_thread_pool_create :: "allocator \<Rightarrow> bool \<Rightarrow> heap \<Rightarrow> u64 \<Rightarrow> tp_config option \<Rightarrow>
    ((addr \<times> addr \<times> thread_pool) option \<times> heap \<times> u64) option" where
  "lam_thread_pool_create alloc mutex_ok h index conf =
     (case malloc alloc TP_BYTES h of
        (None, h) \<Rightarrow> Some (None, h, index)
      | (Some a, h) \<Rightarrow>
          do { (r, h) \<leftarrow> amstack_alloc alloc h (backlog (create_config conf));
               case r of
                 None \<Rightarrow> do { h \<leftarrow> free_block (Some a) h; Some (None, h, index) }
               | Some (q, _) \<Rightarrow>
                   if \<not> mutex_ok then
                     do { (rc, h) \<leftarrow> amstack_free (Some q) h; h \<leftarrow> free_block (Some a) h; Some (None, h, index) }
                   else
                     Some (Some (a, q, \<lparr>tp_id = fst (amsync_inc index), config = create_config conf, tasks_queue = [],
                       threads_created = 0, threads_destroyed = 0, tasks_created = 0, active_thread_count = 0,
                       idle_thread_count = 0, running_id = 1, drain_signal = 0,
                       tp_stats = lam_thread_pool_stats_init blank_stats, stats_mutex = False\<rparr>), h, snd (amsync_inc index)) })"

definition lam_thread_pool_get_thread_count :: "thread_pool \<Rightarrow> u64" where
  "lam_thread_pool_get_thread_count p = active_thread_count p"
definition lam_thread_pool_get_idle_thread_count :: "thread_pool \<Rightarrow> u64" where
  "lam_thread_pool_get_idle_thread_count p = idle_thread_count p"
definition lam_thread_pool_get_min_thread_count :: "thread_pool \<Rightarrow> u64" where
  "lam_thread_pool_get_min_thread_count p = min_threads (config p)"
definition lam_thread_pool_get_max_thread_count :: "thread_pool \<Rightarrow> u64" where
  "lam_thread_pool_get_max_thread_count p = max_threads (config p)"

text \<open>The setters, with NULL for \<open>None\<close>; \<^verbatim>\<open>lam_thread_pool_set_min_thread_count\<close> starts threads and is among the steps below.\<close>

definition lam_thread_pool_set_default_func :: "thread_pool option \<Rightarrow> addr option \<Rightarrow> amrc \<times> thread_pool option" where
  "lam_thread_pool_set_default_func p f =
     (case (p, f) of
        (Some q, Some g) \<Rightarrow> (AMRC_SUCCESS, Some (q\<lparr>config := (config q)\<lparr>default_func := Some g\<rparr>\<rparr>))
      | _ \<Rightarrow> (AMRC_ERROR, p))"

definition lam_thread_pool_set_idle_timeout :: "thread_pool option \<Rightarrow> u64 \<Rightarrow> amrc \<times> thread_pool option" where
  "lam_thread_pool_set_idle_timeout p v =
     (case p of Some q \<Rightarrow> (AMRC_SUCCESS, Some (q\<lparr>config := (config q)\<lparr>idle_timeout := v\<rparr>\<rparr>)) | None \<Rightarrow> (AMRC_ERROR, None))"

definition lam_thread_pool_set_max_thread_count :: "thread_pool option \<Rightarrow> u64 \<Rightarrow> amrc \<times> thread_pool option" where
  "lam_thread_pool_set_max_thread_count p v =
     (case p of Some q \<Rightarrow> (AMRC_SUCCESS, Some (q\<lparr>config := (config q)\<lparr>max_threads := v\<rparr>\<rparr>)) | None \<Rightarrow> (AMRC_ERROR, None))"

section \<open>Clients\<close>

text \<open>
  The points of the calls of a client. \<open>CRun...\<close> is \<^verbatim>\<open>lam_thread_pool_run\<close>, \<open>CMin...\<close> is
  \<^verbatim>\<open>lam_thread_pool_set_min_thread_count\<close>, \<open>CCreate...\<close> the loop of \<^verbatim>\<open>lam_thread_pool_create\<close> and what follows when
  a thread could not be started, \<open>CDestroy...\<close> is \<^verbatim>\<open>lam_thread_pool_destroy\<close>.
\<close>

datatype client_pc =
    CIdle | CRet amrc
  | CRun "addr option" "addr option" "addr option" | CRunAlloc addr "addr option" "addr option"
  | CRunCount addr | CRunAccount addr | CRunStart addr start_pc | CRunFree addr | CRunPush addr
  | CMin u64 | CMinActive u64 | CMinStart u64 u64 amrc start_pc
  | CDefault "addr option" | CIdleTimeout u64 | CMax u64
  | CCreate u64 start_pc | CCreateDrain | CCreateWait | CCreateFree
  | CDestroy | CDestroyWait | CDestroyFree

definition new_task :: "addr \<Rightarrow> addr option \<Rightarrow> addr option \<Rightarrow> tp_task" where
  "new_task f a r = \<lparr>t_id = 0, t_func = f, t_arg = a, t_ret = r, t_time = 0, t_active = 0, t_idle = 0, t_depth = 0\<rparr>"

text \<open>The loops go on at these points.\<close>

definition create_next :: "thread_pool \<Rightarrow> u64 \<Rightarrow> client_pc" where
  "create_next p i = (if i < min_threads (config p) then CCreate i SDrain else CRet AMRC_SUCCESS)"

definition min_next :: "u64 \<Rightarrow> u64 \<Rightarrow> amrc \<Rightarrow> client_pc" where
  "min_next active v rc = (if active < v then CMinStart active v rc SDrain else CRet rc)"

definition task_accounted :: "thread_pool \<Rightarrow> u64 \<Rightarrow> tp_task \<Rightarrow> tp_task" where
  "task_accounted p time tk =
     (let tk = tk\<lparr>t_time := time, t_depth := of_nat (length (tasks_queue p)), t_active := active_thread_count p,
            t_idle := idle_thread_count p\<rparr>
      in if t_idle tk > t_active tk then tk\<lparr>t_active := t_idle tk\<rparr> else tk)"

text \<open>The statistics \<^verbatim>\<open>lam_thread_pool_destroy\<close> gives back.\<close>

definition destroy_stats :: "thread_pool \<Rightarrow> tp_stats" where
  "destroy_stats p = (tp_stats p)\<lparr>st_threads_created := threads_created p, st_tasks_created := tasks_created p\<rparr>"

text \<open>
  The steps of the functions; \<open>mem\<close> is the result of \<^verbatim>\<open>malloc\<close>. The result tells whether a worker was started. A client that
  waits stays where it is. First \<^verbatim>\<open>lam_thread_pool_run\<close>.
\<close>

definition run_step :: "u64 \<Rightarrow> bool \<Rightarrow> addr option \<Rightarrow> tp_shared \<Rightarrow> client_pc \<Rightarrow> (tp_shared \<times> client_pc \<times> bool) option" where
  "run_step time ok mem k c =
     (let p = tp k
      in case c of
           CRun func a r \<Rightarrow>
             do { c_assert (drain_signal p = 0);
                  Some (k, (case func of
                      None \<Rightarrow> (case default_func (config p) of None \<Rightarrow> CRet AMRC_ERROR | Some f \<Rightarrow> CRunAlloc f a r)
                    | Some f \<Rightarrow>
                        if default_func (config p) \<noteq> None \<and> flags (config p) AND LIBAM_THREAD_POOL_FUNC_OVERRIDE = 0
                        then CRet AMRC_ERROR else CRunAlloc f a r), False) }
         | CRunAlloc f a r \<Rightarrow>
             Some (case mem of
                 None \<Rightarrow> (k, CRet AMRC_ERROR, False)
               | Some b \<Rightarrow> (k\<lparr>task_mem := (task_mem k)(b \<mapsto> new_task f a r)\<rparr>, CRunCount b, False))
         | CRunCount b \<Rightarrow>
             do { tk \<leftarrow> task_mem k b;
                  let (old, v) = amsync_inc (tasks_created p);
                  Some (set_tp (k\<lparr>task_mem := (task_mem k)(b \<mapsto> tk\<lparr>t_id := old + 1\<rparr>)\<rparr>) (p\<lparr>tasks_created := v\<rparr>), CRunAccount b, False) }
         | CRunAccount b \<Rightarrow>
             do { tk \<leftarrow> task_mem k b;
                  let tk = task_accounted p time tk;
                  Some (k\<lparr>task_mem := (task_mem k)(b \<mapsto> tk)\<rparr>, if t_idle tk = 0 then CRunStart b SDrain else CRunPush b, False) }
         | CRunStart b (SRet rc) \<Rightarrow> Some (k, if rc \<noteq> AMRC_SUCCESS then CRunFree b else CRunPush b, False)
         | CRunStart b s \<Rightarrow> do { (p, s, started) \<leftarrow> start_step ok p s; Some (set_tp k p, CRunStart b s, started) }
         | CRunFree b \<Rightarrow> do { task_mem k b; Some (k\<lparr>task_mem := (task_mem k)(b := None)\<rparr>, CRet AMRC_ERROR, False) }
         | CRunPush b \<Rightarrow>
             Some (if length (tasks_queue p) \<ge> unat (backlog (config p)) then (k, CRet AMRC_ERROR, False)
                   else (set_tp k (p\<lparr>tasks_queue := b # tasks_queue p\<rparr>), CRet AMRC_SUCCESS, False))
         | _ \<Rightarrow> None)"

text \<open>\<^verbatim>\<open>lam_thread_pool_set_min_thread_count\<close>\<close>

definition min_step :: "bool \<Rightarrow> tp_shared \<Rightarrow> client_pc \<Rightarrow> (tp_shared \<times> client_pc \<times> bool) option" where
  "min_step ok k c =
     (let p = tp k
      in case c of
           CMin v \<Rightarrow>
             Some (if v = 0 then (k, CRet AMRC_ERROR, False)
                   else (set_tp k (p\<lparr>config := (config p)\<lparr>min_threads := v\<rparr>\<rparr>),
                     if flags (config p) AND LIBAM_THREAD_POOL_LAZY_START = 0 then CMinActive v else CRet AMRC_SUCCESS, False))
         | CMinActive v \<Rightarrow> Some (k, min_next (active_thread_count p) v AMRC_SUCCESS, False)
         | CMinStart i v rc (SRet r) \<Rightarrow> Some (k, min_next (i + 1) v (if r \<noteq> AMRC_SUCCESS then AMRC_ERROR else rc), False)
         | CMinStart i v rc s \<Rightarrow> do { (p, s, started) \<leftarrow> start_step ok p s; Some (set_tp k p, CMinStart i v rc s, started) }
         | _ \<Rightarrow> None)"

text \<open>The threads in \<^verbatim>\<open>lam_thread_pool_create\<close>, and what it does when one could not be started.\<close>

definition create_step :: "bool \<Rightarrow> tp_shared \<Rightarrow> client_pc \<Rightarrow> (tp_shared \<times> client_pc \<times> bool) option" where
  "create_step ok k c =
     (let p = tp k
      in case c of
           CCreate i (SRet rc) \<Rightarrow> Some (k, if rc \<noteq> AMRC_SUCCESS then CCreateDrain else create_next p (i + 1), False)
         | CCreate i s \<Rightarrow> do { (p, s, started) \<leftarrow> start_step ok p s; Some (set_tp k p, CCreate i s, started) }
         | CCreateDrain \<Rightarrow> Some (set_tp k (p\<lparr>drain_signal := 1\<rparr>), CCreateWait, False)
         | CCreateWait \<Rightarrow> Some (k, if active_thread_count p > 0 then CCreateWait else CCreateFree, False)
         | CCreateFree \<Rightarrow> Some (k\<lparr>tp_live := False\<rparr>, CRet AMRC_ERROR, False)
         | _ \<Rightarrow> None)"

text \<open>\<^verbatim>\<open>lam_thread_pool_destroy\<close>\<close>

definition destroy_step :: "tp_shared \<Rightarrow> client_pc \<Rightarrow> (tp_shared \<times> client_pc \<times> bool) option" where
  "destroy_step k c =
     (let p = tp k
      in case c of
           CDestroy \<Rightarrow> Some (set_tp k (p\<lparr>drain_signal := 1\<rparr>), CDestroyWait, False)
         | CDestroyWait \<Rightarrow> Some (k, if threads_destroyed p < threads_created p then CDestroyWait else CDestroyFree, False)
         | CDestroyFree \<Rightarrow> Some (k\<lparr>tp_live := False, final_stats := Some (destroy_stats p)\<rparr>, CRet AMRC_SUCCESS, False)
         | _ \<Rightarrow> None)"

text \<open>The other setters are one step.\<close>

definition setter_step :: "tp_shared \<Rightarrow> amrc \<times> thread_pool option \<Rightarrow> (tp_shared \<times> client_pc \<times> bool) option" where
  "setter_step k x = do { let (rc, q) = x; q \<leftarrow> q; Some (set_tp k q, CRet rc, False) }"

text \<open>One step of a client; the pool must be there.\<close>

definition client_step :: "u64 \<Rightarrow> bool \<Rightarrow> addr option \<Rightarrow> tp_shared \<Rightarrow> client_pc \<Rightarrow> (tp_shared \<times> client_pc \<times> bool) option" where
  "client_step time ok mem k c =
     do { c_assert (tp_live k);
          case c of
            CIdle \<Rightarrow> None
          | CRet rc \<Rightarrow> None
          | CMin v \<Rightarrow> min_step ok k c
          | CMinActive v \<Rightarrow> min_step ok k c
          | CMinStart i v rc s \<Rightarrow> min_step ok k c
          | CDefault f \<Rightarrow> setter_step k (lam_thread_pool_set_default_func (Some (tp k)) f)
          | CIdleTimeout v \<Rightarrow> setter_step k (lam_thread_pool_set_idle_timeout (Some (tp k)) v)
          | CMax v \<Rightarrow> setter_step k (lam_thread_pool_set_max_thread_count (Some (tp k)) v)
          | CCreate i s \<Rightarrow> create_step ok k c
          | CCreateDrain \<Rightarrow> create_step ok k c
          | CCreateWait \<Rightarrow> create_step ok k c
          | CCreateFree \<Rightarrow> create_step ok k c
          | CDestroy \<Rightarrow> destroy_step k c
          | CDestroyWait \<Rightarrow> destroy_step k c
          | CDestroyFree \<Rightarrow> destroy_step k c
          | _ \<Rightarrow> run_step time ok mem k c }"

lemmas client_steps = client_step_def run_step_def min_step_def create_step_def destroy_step_def setter_step_def

text \<open>\<^verbatim>\<open>lam_thread_pool_create\<close> after the loop is prepared: no thread is started at once with \<open>LAZY_START\<close>.\<close>

definition create_start :: "thread_pool \<Rightarrow> client_pc" where
  "create_start p =
     (if flags (config p) AND LIBAM_THREAD_POOL_LAZY_START = 0 then create_next p 0 else CRet AMRC_SUCCESS)"

section \<open>The system\<close>

text \<open>
  The threads of the program and the pool. While \<open>phase\<close> is \<open>Creating\<close> the pool is known only to the client that
  creates it; the client that destroys it does so when no other client is in a call, and afterwards none is made.
  \<open>accepted\<close> are the calls that \<^verbatim>\<open>lam_thread_pool_run\<close> has accepted, \<open>failed\<close> counts the failures of \<^verbatim>\<open>pthread_create\<close>.
\<close>

datatype tp_thread = Worker worker | Client client_pc

datatype tp_phase = Creating | Open | Closing

record tp_sys =
  shared :: tp_shared
  actors :: "tp_thread list"
  phase :: tp_phase
  accepted :: "tp_call multiset"
  failed :: nat

fun start_of :: "client_pc \<Rightarrow> start_pc option" where
  "start_of (CRunStart b s) = Some s"
| "start_of (CMinStart i v rc s) = Some s"
| "start_of (CCreate i s) = Some s"
| "start_of _ = None"

fun accepts :: "tp_shared \<Rightarrow> client_pc \<Rightarrow> client_pc \<Rightarrow> tp_call multiset" where
  "accepts k (CRunPush b) (CRet AMRC_SUCCESS) = (case task_mem k b of None \<Rightarrow> {#} | Some tk \<Rightarrow> {#call_of tk#})"
| "accepts k _ _ = {#}"

definition start_fails :: "client_pc \<Rightarrow> client_pc \<Rightarrow> nat" where
  "start_fails c c' = (if start_of c = Some SCreate \<and> start_of c' = Some (SRet AMRC_ERROR) then 1 else 0)"

fun client_call :: "client_pc \<Rightarrow> bool" where
  "client_call (CRun f a r) = True"
| "client_call (CMin v) = True"
| "client_call (CDefault f) = True"
| "client_call (CIdleTimeout v) = True"
| "client_call (CMax v) = True"
| "client_call _ = False"

fun at_rest :: "tp_thread \<Rightarrow> bool" where
  "at_rest (Client CIdle) = True"
| "at_rest (Client (CRet rc)) = True"
| "at_rest (Client _) = False"
| "at_rest (Worker w) = True"

inductive tp_step :: "tp_sys \<Rightarrow> tp_sys \<Rightarrow> bool" where
  worker: "i < length (actors s) \<Longrightarrow> actors s ! i = Worker w \<Longrightarrow> worker_step time n (shared s) w = Some (k, w') \<Longrightarrow>
    tp_step s (s\<lparr>shared := k, actors := (actors s)[i := Worker w']\<rparr>)"
| client: "i < length (actors s) \<Longrightarrow> actors s ! i = Client c \<Longrightarrow> \<forall>b. mem = Some b \<longrightarrow> task_mem (shared s) b = None \<Longrightarrow>
    client_step time ok mem (shared s) c = Some (k, c', started) \<Longrightarrow>
    tp_step s (s\<lparr>shared := k, actors := (actors s)[i := Client c'] @ (if started then [Worker new_worker] else []),
      accepted := accepted s + accepts (shared s) c c', failed := failed s + start_fails c c'\<rparr>)"
| created: "i < length (actors s) \<Longrightarrow> actors s ! i = Client (CRet AMRC_SUCCESS) \<Longrightarrow> phase s = Creating \<Longrightarrow>
    tp_step s (s\<lparr>actors := (actors s)[i := Client CIdle], phase := Open\<rparr>)"
| return: "i < length (actors s) \<Longrightarrow> actors s ! i = Client (CRet rc) \<Longrightarrow> phase s \<noteq> Creating \<Longrightarrow>
    tp_step s (s\<lparr>actors := (actors s)[i := Client CIdle]\<rparr>)"
| call: "i < length (actors s) \<Longrightarrow> actors s ! i = Client CIdle \<Longrightarrow> phase s = Open \<Longrightarrow> client_call c \<Longrightarrow>
    tp_step s (s\<lparr>actors := (actors s)[i := Client c]\<rparr>)"
| destroy: "i < length (actors s) \<Longrightarrow> actors s ! i = Client CIdle \<Longrightarrow> phase s = Open \<Longrightarrow> \<forall>a \<in> set (actors s). at_rest a \<Longrightarrow>
    tp_step s (s\<lparr>actors := (actors s)[i := Client CDestroy], phase := Closing\<rparr>)"

inductive_cases tp_stepE: "tp_step s s'"

text \<open>
  A pool that was just created, with the client that creates it and clients that do nothing yet. The size of the
  queue has not wrapped around.
\<close>

definition tp_init :: "tp_sys \<Rightarrow> bool" where
  "tp_init s \<longleftrightarrow>
     (\<exists>alloc h index conf a q p h' index' n.
        lam_thread_pool_create alloc True h index conf = Some (Some (a, q, p), h', index') \<and>
        unat STACK_BYTES + unat SLOT_BYTES * unat (backlog (config p)) < 2 ^ 64 \<and>
        shared s = \<lparr>tp = p, tp_live = True, task_mem = Map.empty, runs = [], final_stats = None\<rparr> \<and>
        actors s = Client (create_start p) # replicate n (Client CIdle) \<and>
        phase s = Creating \<and> accepted s = {#} \<and> failed s = 0)"

end
