(* ===== verification/AmThreadPoolSteps.thy ===== *)
theory AmThreadPoolSteps
  imports AmThreadPool
begin

text \<open>
  What single steps of the workers and clients of the thread pool do to the counters and to the tasks.
\<close>

section \<open>What the threads count for\<close>

fun pc_active :: "worker_pc \<Rightarrow> nat" where
  "pc_active WId = 0" | "pc_active WActive = 0" | "pc_active WGone = 0" | "pc_active WDone = 0"
| "pc_active _ = 1"

definition w_idle :: "worker \<Rightarrow> nat" where
  "w_idle w =
     (if wpc w \<in> {WPop, WEmpty, WGot} then (if busy_tasks w = 0 then 1 else 0)
      else if wpc w \<in> {WDrain, WStop, WSleep, WLock, WFold, WUnlock, WLeaveIdle} then 1 else 0)"

fun w_pending :: "start_pc option \<Rightarrow> nat" where
  "w_pending (Some (SRead old)) = 1" | "w_pending (Some SUndo) = 1" | "w_pending (Some SCreate) = 1"
| "w_pending _ = 0"

fun c_active :: "tp_thread \<Rightarrow> nat" where
  "c_active (Worker w) = pc_active (wpc w)" | "c_active (Client c) = 0"

fun c_idle :: "tp_thread \<Rightarrow> nat" where
  "c_idle (Worker w) = w_idle w" | "c_idle (Client c) = 0"

fun c_done :: "tp_thread \<Rightarrow> nat" where
  "c_done (Worker w) = (if wpc w = WDone then 1 else 0)" | "c_done (Client c) = 0"

text \<open>Threads that were or are about to be created.\<close>

fun c_made :: "tp_thread \<Rightarrow> nat" where
  "c_made (Worker w) = 1" | "c_made (Client c) = w_pending (start_of c)"

text \<open>
  The tasks a worker still has to run, and the other blocks a thread owns: those not yet accepted, and those that were
  run and are still to be freed.
\<close>

fun carries :: "tp_thread \<Rightarrow> addr multiset" where
  "carries (Worker w) = (if wpc w \<in> {WGot, WAccount, WRun} then {#wtask w#} else {#})"
| "carries (Client _) = {#}"

fun holds :: "tp_thread \<Rightarrow> addr multiset" where
  "holds (Worker w) = (if wpc w = WFree then {#wtask w#} else {#})"
| "holds (Client (CRunCount b)) = {#b#}"
| "holds (Client (CRunAccount b)) = {#b#}"
| "holds (Client (CRunStart b s)) = {#b#}"
| "holds (Client (CRunFree b)) = {#b#}"
| "holds (Client (CRunPush b)) = {#b#}"
| "holds (Client _) = {#}"

definition stats_ok :: "tp_stats \<Rightarrow> bool" where
  "stats_ok st \<longleftrightarrow> count_ok (st_active st) \<and> count_ok (st_idle st) \<and> count_ok (st_delay st) \<and>
     count_ok (st_processed st) \<and> count_ok (st_busy st) \<and> count_ok (st_depth st)"

lemma upd_ok: "count_ok s \<Longrightarrow> \<exists>s'. amstat_upd s v = Some s' \<and> count_ok s'"
  using amstat_upd_total [of s v] by (auto simp: count_ok_def)

lemma account_ok: "stats_ok st \<Longrightarrow> \<exists>st'. account_task st now tk = Some st' \<and> stats_ok st'"
proof -
  assume s: "stats_ok st"
  obtain a b c d where "amstat_upd (st_delay st) (now - t_time tk) = Some a" "count_ok a"
    "amstat_upd (st_active st) (t_active tk) = Some b" "count_ok b" "amstat_upd (st_idle st) (t_idle tk) = Some c" "count_ok c"
    "amstat_upd (st_depth st) (t_depth tk) = Some d" "count_ok d"
    using s unfolding stats_ok_def by (metis upd_ok)
  with s show ?thesis by (simp add: account_task_def stats_ok_def)
qed

lemmas amsync_simps = amsync_inc_def amsync_dec_def amsync_add_def amsync_sub_def

section \<open>Steps of a worker\<close>

text \<open>The counters change by what the worker counts for.\<close>

lemma worker_counts:
  assumes "worker_step time n k w = Some (k', w')"
  shows "active_thread_count (tp k') = active_thread_count (tp k) + of_nat (pc_active (wpc w')) - of_nat (pc_active (wpc w))"
    and "threads_destroyed (tp k') = threads_destroyed (tp k) + of_nat (c_done (Worker w')) - of_nat (c_done (Worker w))"
    and "threads_created (tp k') = threads_created (tp k)" "tp_live k" "tp_live k'" "wpc w \<noteq> WDone"
    "drain_signal (tp k') = drain_signal (tp k)"
  using assms
  by (cases "wpc w"; auto simp: worker_step_def Let_def amsync_simps set_tp_def bind_eq_Some_conv
      split: list.splits if_splits prod.splits)+

text \<open>
  The idle counter needs the number of tasks since the worker was last idle, which is bounded by the number of
  calls made, so that it does not wrap around.
\<close>

definition busy_ok :: "nat \<Rightarrow> worker \<Rightarrow> bool" where
  "busy_ok n w \<longleftrightarrow> unat (busy_tasks w) \<le> (if wpc w = WRun then n + 1 else n) \<and>
     (wpc w \<in> {WId, WActive, WIdle, WDrain, WStop, WSleep} \<longrightarrow> busy_tasks w = 0) \<and> (wpc w \<in> {WRun, WFree} \<longrightarrow> busy_tasks w \<noteq> 0)"

lemma busy_ok_mono: "busy_ok n w \<Longrightarrow> n \<le> m \<Longrightarrow> busy_ok m w"
  by (auto simp: busy_ok_def)

lemma busy_inc:
  assumes "unat (b :: u64) \<le> n" and "n < 2 ^ 64 - 1"
  shows "unat (b + 1) = unat b + 1" and "b + 1 \<noteq> 0"
proof -
  have "unat b + 1 < 2 ^ 64" using assms by linarith
  then show "unat (b + 1) = unat b + 1" by (simp add: unat_word_ariths)
  then show "b + 1 \<noteq> 0" by (metis Suc_eq_plus1 nat.distinct(1) unsigned_0)
qed

lemma worker_idle:
  assumes "worker_step time n k w = Some (k', w')" and b: "busy_ok (length (runs k)) w" and "length (runs k) < 2 ^ 64 - 1"
  shows "idle_thread_count (tp k') + of_nat (w_idle w) = idle_thread_count (tp k) + of_nat (w_idle w') \<and>
    busy_ok (length (runs k')) w'"
proof (cases "wpc w = WAccount")
  case True
  then have "unat (busy_tasks w) \<le> length (runs k)" using b by (simp add: busy_ok_def)
  note i = busy_inc [OF this assms(3)]
  show ?thesis using True i \<open>unat (busy_tasks w) \<le> length (runs k)\<close> assms(1)
    by (auto simp: worker_step_def Let_def bind_eq_Some_conv busy_ok_def w_idle_def)
next
  case False
  note d = worker_step_def Let_def amsync_simps set_tp_def bind_eq_Some_conv
  show ?thesis
  proof (cases "wpc w = WPop \<or> wpc w = WEmpty \<or> wpc w = WGot")
    case True
    then show ?thesis
    proof (elim disjE)
      assume pc: "wpc w = WPop"
      with assms(1) have "busy_tasks w' = busy_tasks w" "wpc w' = WEmpty \<or> wpc w' = WGot" "runs k' = runs k"
        "idle_thread_count (tp k') = idle_thread_count (tp k)"
        by (auto simp: d split: list.splits)
      with pc b show ?thesis by (auto simp: busy_ok_def w_idle_def)
    next
      assume pc: "wpc w = WEmpty"
      with assms(1) have "busy_tasks w' = 0" "wpc w' = WDrain" "runs k' = runs k"
        "idle_thread_count (tp k') = (if busy_tasks w = 0 then idle_thread_count (tp k) else idle_thread_count (tp k) + 1)"
        by (auto simp: d word_gt_0 split: if_splits)
      with pc b show ?thesis by (simp add: busy_ok_def w_idle_def)
    next
      assume pc: "wpc w = WGot"
      with assms(1) have "busy_tasks w' = busy_tasks w" "wpc w' = WAccount" "runs k' = runs k"
        "idle_thread_count (tp k') = (if busy_tasks w = 0 then idle_thread_count (tp k) - 1 else idle_thread_count (tp k))"
        by (auto simp: d split: if_splits)
      with pc b show ?thesis by (simp add: busy_ok_def w_idle_def)
    qed
  next
    case other: False
    from assms(1) have w: "busy_tasks w' = busy_tasks w \<or> wpc w = WId \<and> busy_tasks w' = 0"
      by (cases "wpc w") (use False other in \<open>auto simp: d split: if_splits prod.splits\<close>)
    from assms(1) have i: "idle_thread_count (tp k') + of_nat (w_idle w) = idle_thread_count (tp k) + of_nat (w_idle w')"
    proof -
      have z: "wpc w \<in> {WId, WActive, WIdle, WDrain, WStop, WSleep} \<longrightarrow> busy_tasks w = 0" "wpc w \<in> {WRun, WFree} \<longrightarrow> busy_tasks w \<noteq> 0"
        using b unfolding busy_ok_def by blast+
      show ?thesis using assms(1)
        by (cases "wpc w") (use False other z in \<open>auto simp: d w_idle_def split: if_splits prod.splits\<close>)
    qed
    from assms(1) have r: "length (runs k') = (if wpc w = WRun then length (runs k) + 1 else length (runs k))"
      "wpc w = WRun \<longleftrightarrow> wpc w' = WFree" "wpc w' \<noteq> WRun"
      by (cases "wpc w"; use False other in \<open>auto simp: d split: if_splits prod.splits\<close>)+
    from assms(1) have p: "wpc w' \<in> {WId, WActive, WIdle, WDrain, WStop, WSleep} \<longrightarrow> wpc w \<in> {WId, WActive, WIdle, WDrain, WStop, WSleep}"
      by (cases "wpc w") (use False other in \<open>auto simp: d split: if_splits prod.splits\<close>)
    have "unat (busy_tasks w) \<le> length (runs k')" using b r(1) by (simp add: busy_ok_def)
    then have u: "unat (busy_tasks w') \<le> length (runs k')" using w by (elim disjE conjE) simp_all
    have z: "busy_tasks w' = 0" if "wpc w' \<in> {WId, WActive, WIdle, WDrain, WStop, WSleep}"
    proof -
      have "wpc w \<in> {WId, WActive, WIdle, WDrain, WStop, WSleep}" using p that by blast
      then have "busy_tasks w = 0" using b unfolding busy_ok_def by blast
      with w show ?thesis by (elim disjE conjE) simp_all
    qed
    have nz: "busy_tasks w' \<noteq> 0" if "wpc w' \<in> {WRun, WFree}"
    proof -
      have pc: "wpc w = WRun" using r that by blast
      then have "busy_tasks w \<noteq> 0" using b unfolding busy_ok_def by blast
      with w pc show ?thesis by (elim disjE conjE) simp_all
    qed
    have "busy_ok (length (runs k')) w'" unfolding busy_ok_def using u z nz r(3) by simp
    with i show ?thesis by blast
  qed
qed

lemma worker_tasks:
  assumes "worker_step time n k w = Some (k', w')"
  shows "task_mem k' = task_mem k \<and> runs k' = runs k \<and> holds (Worker w') = holds (Worker w) \<and>
      mset (tasks_queue (tp k')) + carries (Worker w') = mset (tasks_queue (tp k)) + carries (Worker w) \<or>
    (\<exists>tk. wpc w = WRun \<and> task_mem k (wtask w) = Some tk \<and> runs k' = runs k @ [call_of tk] \<and> task_mem k' = task_mem k \<and>
      tp k' = tp k \<and> wpc w' = WFree \<and> wtask w' = wtask w) \<or>
    wpc w = WFree \<and> task_mem k' = (task_mem k)(wtask w := None) \<and> runs k' = runs k \<and> tp k' = tp k \<and> wpc w' = WPop"
proof (cases "wpc w = WPop")
  case True
  have pop: "mset (tasks_queue (tp k)) = mset (nth_removed m (tasks_queue (tp k))) + {#tasks_queue (tp k) ! m#}"
    if "m < length (tasks_queue (tp k))" for m
  proof -
    have "mset (tasks_queue (tp k)) = mset (take m (tasks_queue (tp k)) @ tasks_queue (tp k) ! m # drop (Suc m) (tasks_queue (tp k)))"
      using id_take_nth_drop [OF that] by simp
    then show ?thesis by (simp add: nth_removed_def)
  qed
  show ?thesis
  proof (cases "tasks_queue (tp k)")
    case Nil
    then show ?thesis using assms True by (auto simp: worker_step_def Let_def bind_eq_Some_conv)
  next
    case (Cons x xs)
    let ?m = "n mod length (tasks_queue (tp k))"
    have m: "?m < length (tasks_queue (tp k))" using Cons by simp
    have "k' = set_tp k ((tp k)\<lparr>tasks_queue := nth_removed ?m (tasks_queue (tp k))\<rparr>)" "wpc w' = WGot" "wtask w' = tasks_queue (tp k) ! ?m"
      using assms True Cons by (auto simp: worker_step_def Let_def bind_eq_Some_conv)
    then show ?thesis using True pop [OF m] by (auto simp: set_tp_def)
  qed
next
  case False
  then show ?thesis using assms
    by (cases "wpc w"; auto simp: worker_step_def Let_def amsync_simps set_tp_def bind_eq_Some_conv
      split: if_splits prod.splits)
qed

text \<open>A worker can always go on, if the pool is there and its task is.\<close>

definition worker_ok :: "worker \<Rightarrow> bool" where
  "worker_ok w \<longleftrightarrow> wpc w \<in> {WId, WActive, WIdle, WFold, WUnlock, WLeaveIdle, WLeaveActive, WGone, WDone} \<or> stats_ok (wstats w)"

lemma stats_init_ok: "stats_ok (lam_thread_pool_stats_init st)"
  by (simp add: stats_ok_def lam_thread_pool_stats_init_def amstat_init_def count_ok_def)

lemma upd_some_ok: "amstat_upd r v = Some a \<Longrightarrow> count_ok r \<Longrightarrow> count_ok a"
  using upd_ok [of r v] by auto

lemma worker_stats_same:
  assumes "worker_step time n k w = Some (k', w')" and "wpc w \<notin> {WEmpty, WStop, WAccount, WIdle, WFold}"
  shows "wstats w' = wstats w"
    and "wpc w \<in> {WId, WUnlock, WLeaveIdle, WLeaveActive, WGone} \<Longrightarrow> wpc w' \<in> {WActive, WIdle, WLeaveIdle, WLeaveActive, WGone, WDone}"
    and "wpc w = WActive \<Longrightarrow> wpc w' = WIdle"
  using assms
  by (cases "wpc w"; simp add: worker_step_def Let_def amsync_simps bind_eq_Some_conv split: if_splits prod.splits list.splits; fastforce)+

lemma worker_ok_step:
  assumes r: "worker_step time n k w = Some (k', w')" and ok: "worker_ok w"
  shows "worker_ok w'"
proof (cases "wpc w")
  case WEmpty
  then have "stats_ok (wstats w)" using ok by (simp add: worker_ok_def)
  then have "stats_ok (wstats w')" using r WEmpty
    by (auto simp: worker_step_def Let_def bind_eq_Some_conv stats_ok_def dest: upd_some_ok split: if_splits)
  then show ?thesis by (simp add: worker_ok_def)
next
  case WStop
  then have "stats_ok (wstats w)" using ok by (simp add: worker_ok_def)
  then have "stats_ok (wstats w')" using r WStop
    by (auto simp: worker_step_def Let_def bind_eq_Some_conv stats_ok_def dest: upd_some_ok split: if_splits)
  then show ?thesis by (simp add: worker_ok_def)
next
  case WAccount
  then have s: "stats_ok (wstats w)" using ok by (simp add: worker_ok_def)
  from r WAccount obtain tk st where "account_task (wstats w) time tk = Some st" "wstats w' = st"
    by (auto simp: worker_step_def Let_def bind_eq_Some_conv)
  then show ?thesis using account_ok [OF s, of time tk] by (auto simp: worker_ok_def)
next
  case WIdle
  then have "wstats w' = lam_thread_pool_stats_init (wstats w)" using r
    by (auto simp: worker_step_def Let_def bind_eq_Some_conv)
  then show ?thesis by (simp add: worker_ok_def stats_init_ok)
next
  case WFold
  then have "wpc w' = WUnlock" using r by (auto simp: worker_step_def Let_def bind_eq_Some_conv split: prod.splits)
  then show ?thesis by (simp add: worker_ok_def)
next
  case WActive
  then show ?thesis using worker_stats_same(3) [OF r] by (simp add: worker_ok_def)
next
  case WDone
  then show ?thesis using worker_counts(6) [OF r] by simp
qed (use worker_stats_same(1,2) [OF r] ok in \<open>auto simp: worker_ok_def\<close>)

lemma worker_can_step:
  assumes l: "tp_live k" and ok: "worker_ok w" and nd: "wpc w \<noteq> WDone" and own: "\<forall>b \<in># carries (Worker w) + holds (Worker w). task_mem k b \<noteq> None"
  shows "\<exists>k' w'. worker_step time n k w = Some (k', w')"
proof (cases "wpc w")
  case WEmpty
  then have "count_ok (st_busy (wstats w))" using ok by (simp add: worker_ok_def stats_ok_def)
  with upd_ok obtain a where "amstat_upd (st_busy (wstats w)) (busy_tasks w) = Some a" by blast
  then show ?thesis using WEmpty l by (simp add: worker_step_def Let_def)
next
  case WStop
  then have "count_ok (st_processed (wstats w))" using ok by (simp add: worker_ok_def stats_ok_def)
  with upd_ok obtain a where "amstat_upd (st_processed (wstats w)) (total_tasks w) = Some a" by blast
  then show ?thesis using WStop l by (simp add: worker_step_def Let_def)
next
  case WAccount
  then have s: "stats_ok (wstats w)" using ok by (simp add: worker_ok_def)
  obtain tk where tk: "task_mem k (wtask w) = Some tk" using own WAccount by auto
  obtain st where "account_task (wstats w) time tk = Some st" using account_ok [OF s] by blast
  then show ?thesis using WAccount l tk by (simp add: worker_step_def Let_def)
next
  case WRun
  then obtain tk where "task_mem k (wtask w) = Some tk" using own by auto
  then show ?thesis using WRun l by (simp add: worker_step_def Let_def)
next
  case WFree
  then obtain tk where "task_mem k (wtask w) = Some tk" using own by auto
  then show ?thesis using WFree l by (simp add: worker_step_def Let_def)
qed (use l nd in \<open>simp_all add: worker_step_def Let_def split: prod.splits list.splits\<close>)

section \<open>Steps of a client\<close>

lemma start_counts:
  assumes "start_step ok p s = Some (p', s', st)"
  shows "active_thread_count p' = active_thread_count p" "idle_thread_count p' = idle_thread_count p"
    "threads_destroyed p' = threads_destroyed p" "tasks_queue p' = tasks_queue p" "drain_signal p' = drain_signal p"
    "threads_created p' + of_nat (w_pending (Some s)) = threads_created p + of_nat (w_pending (Some s')) +
       of_nat (if st then 1 else 0) + of_nat (if s = SCreate \<and> s' = SRet AMRC_ERROR then 1 else 0)"
  using assms by (cases s; auto simp: amsync_simps split: if_splits)+

lemma setter_counts:
  "lam_thread_pool_set_default_func (Some p) f = (rc, Some q) \<Longrightarrow>
     q = p \<or> (\<exists>g. q = p\<lparr>config := (config p)\<lparr>default_func := Some g\<rparr>\<rparr>)"
  "lam_thread_pool_set_idle_timeout (Some p) v = (rc, Some q) \<Longrightarrow> q = p\<lparr>config := (config p)\<lparr>idle_timeout := v\<rparr>\<rparr>"
  "lam_thread_pool_set_max_thread_count (Some p) v = (rc, Some q) \<Longrightarrow> q = p\<lparr>config := (config p)\<lparr>max_threads := v\<rparr>\<rparr>"
  by (auto simp: lam_thread_pool_set_default_func_def lam_thread_pool_set_idle_timeout_def lam_thread_pool_set_max_thread_count_def
      split: option.splits)

text \<open>The points at which a thread is being started: all three callers do the same there.\<close>

lemma starting_step:
  assumes "client_step time ok mem k c = Some (k', c', started)" and "start_of c = Some s" and "\<forall>rc. s \<noteq> SRet rc"
  shows "\<exists>p' s'. start_step ok (tp k) s = Some (p', s', started) \<and> k' = set_tp k p' \<and> start_of c' = Some s' \<and> holds (Client c') = holds (Client c) \<and>
    tp_live k \<and> accepts d c c' = {#}"
proof -
  have "c = CRunStart b s \<longrightarrow> ?thesis" for b
    using assms(1,3) by (cases s) (auto simp: client_steps Let_def bind_eq_Some_conv)
  moreover have "c = CMinStart i v rc s \<longrightarrow> ?thesis" for i v rc
    using assms(1,3) by (cases s) (auto simp: client_steps Let_def bind_eq_Some_conv)
  moreover have "c = CCreate i s \<longrightarrow> ?thesis" for i
    using assms(1,3) by (cases s) (auto simp: client_steps Let_def bind_eq_Some_conv)
  ultimately show ?thesis using assms(2) by (cases c) auto
qed

lemma resting_step:
  assumes r: "client_step time ok mem k c = Some (k', c', started)" and "\<forall>s. start_of c = Some s \<longrightarrow> (\<exists>rc. s = SRet rc)"
  shows "active_thread_count (tp k') = active_thread_count (tp k)" "idle_thread_count (tp k') = idle_thread_count (tp k)"
    "threads_destroyed (tp k') = threads_destroyed (tp k)" "threads_created (tp k') = threads_created (tp k)"
    "\<not> started" "w_pending (start_of c') = 0" "w_pending (start_of c) = 0" "tp_live k" "start_fails c c' = 0" "runs k' = runs k"
proof -
  have x: "c \<noteq> CRunStart b s" "c \<noteq> CMinStart i v rc s" "c \<noteq> CCreate i s" if "\<forall>rc. s \<noteq> SRet rc" for b s i v rc
    using assms(2) that by auto
  note d = client_steps Let_def bind_eq_Some_conv amsync_simps set_tp_def create_next_def min_next_def start_fails_def
  show "tp_live k" using r by (simp add: client_steps bind_eq_Some_conv)
  have "active_thread_count (tp k') = active_thread_count (tp k) \<and> idle_thread_count (tp k') = idle_thread_count (tp k) \<and>
    threads_destroyed (tp k') = threads_destroyed (tp k) \<and> threads_created (tp k') = threads_created (tp k) \<and>
    \<not> started \<and> w_pending (start_of c') = 0 \<and> w_pending (start_of c) = 0 \<and> start_fails c c' = 0 \<and> runs k' = runs k"
  proof (cases "start_of c")
    case None
    then show ?thesis using r
      by (cases c) (auto simp: d dest: setter_counts split: option.splits if_splits prod.splits)
  next
    case (Some s)
    then obtain rc where "start_of c = Some (SRet rc)" using assms(2) by auto
    then show ?thesis using r by (cases c) (auto simp: d split: if_splits)
  qed
  then show "active_thread_count (tp k') = active_thread_count (tp k)" "idle_thread_count (tp k') = idle_thread_count (tp k)"
    "threads_destroyed (tp k') = threads_destroyed (tp k)" "threads_created (tp k') = threads_created (tp k)"
    "\<not> started" "w_pending (start_of c') = 0" "w_pending (start_of c) = 0" "start_fails c c' = 0" "runs k' = runs k" by simp_all
qed

text \<open>
  What a client does with tasks: nothing, make a new one, write into its own, push it, free it, or drop it.
\<close>

lemma client_tasks:
  assumes r: "client_step time ok mem k c = Some (k', c', started)" and f: "\<forall>b. mem = Some b \<longrightarrow> task_mem k b = None"
    and h: "\<forall>b \<in># holds (Client c). task_mem k b \<noteq> None"
  obtains
    (same) "task_mem k' = task_mem k" "tasks_queue (tp k') = tasks_queue (tp k)" "holds (Client c') = holds (Client c)"
      "accepts k c c' = {#}"
  | (new) b tk where "task_mem k b = None" "task_mem k' = (task_mem k)(b \<mapsto> tk)" "tasks_queue (tp k') = tasks_queue (tp k)"
      "holds (Client c) = {#}" "holds (Client c') = {#b#}" "accepts k c c' = {#}"
  | (mine) b tk tk' where "task_mem k b = Some tk" "task_mem k' = (task_mem k)(b \<mapsto> tk')" "call_of tk' = call_of tk"
      "tasks_queue (tp k') = tasks_queue (tp k)" "holds (Client c') = holds (Client c)" "accepts k c c' = {#}"
  | (push) b tk where "task_mem k b = Some tk" "task_mem k' = task_mem k" "tasks_queue (tp k') = b # tasks_queue (tp k)"
      "holds (Client c) = {#b#}" "holds (Client c') = {#}" "accepts k c c' = {#call_of tk#}"
  | (free) b where "task_mem k' = (task_mem k)(b := None)" "tasks_queue (tp k') = tasks_queue (tp k)"
      "holds (Client c) = {#b#}" "holds (Client c') = {#}" "accepts k c c' = {#}"
  | (leak) b where "task_mem k' = task_mem k" "tasks_queue (tp k') = tasks_queue (tp k)"
      "holds (Client c) = {#b#}" "holds (Client c') = {#}" "accepts k c c' = {#}"
proof (cases "\<exists>s. start_of c = Some s \<and> (\<forall>rc. s \<noteq> SRet rc)")
  case True
  then obtain s where s: "start_of c = Some s" "\<forall>rc. s \<noteq> SRet rc" by blast
  from starting_step [OF r s, of k] obtain p' s' where "start_step ok (tp k) s = Some (p', s', started)" "k' = set_tp k p'"
    "holds (Client c') = holds (Client c)" "accepts k c c' = {#}" by blast
  with start_counts(4) show thesis by (intro same) (auto simp: set_tp_def)
next
  case False
  note d = client_steps Let_def bind_eq_Some_conv amsync_simps set_tp_def create_next_def min_next_def
  show thesis
  proof (cases "\<exists>b. c = CRunAccount b \<or> c = CRunCount b \<or> c = CRunFree b \<or> c = CRunPush b")
    case True
    then obtain b where b: "c = CRunAccount b \<or> c = CRunCount b \<or> c = CRunFree b \<or> c = CRunPush b" by blast
    then obtain tk where tk: "task_mem k b = Some tk" using h by auto
    have call: "call_of (task_accounted p time tk) = call_of tk" "call_of (tk\<lparr>t_id := i\<rparr>) = call_of tk" for p i
      by (simp_all add: task_accounted_def call_of_def Let_def)
    from b show thesis
    proof (elim disjE)
      assume "c = CRunAccount b"
      with r tk call show thesis by (intro mine [of b tk "task_accounted (tp k) time tk"]) (auto simp: d split: if_splits)
    next
      assume "c = CRunCount b"
      with r tk call show thesis by (intro mine [of b tk "tk\<lparr>t_id := tasks_created (tp k) + 1\<rparr>"]) (auto simp: d)
    next
      assume "c = CRunFree b"
      with r show thesis by (intro free [of b]) (auto simp: d)
    next
      assume c: "c = CRunPush b"
      show thesis
      proof (cases "length (tasks_queue (tp k)) \<ge> unat (backlog (config (tp k)))")
        case True
        with r c show thesis by (intro leak [of b]) (auto simp: d)
      next
        case False
        with r c tk show thesis by (intro push [of b tk]) (auto simp: d)
      qed
    qed
  next
    case small: False
    show thesis
    proof (cases "\<exists>g a q b. c = CRunAlloc g a q \<and> mem = Some b")
      case True
      then obtain g a q b where "c = CRunAlloc g a q" "mem = Some b" by blast
      with r f show thesis by (intro new [of b "new_task g a q"]) (auto simp: d)
    next
      case other: False
      have "task_mem k' = task_mem k \<and> tasks_queue (tp k') = tasks_queue (tp k) \<and> holds (Client c') = holds (Client c) \<and> accepts k c c' = {#}"
      proof (cases "start_of c")
        case None
        then show ?thesis using r small other
          by (cases c) (auto simp: d dest: setter_counts split: option.splits if_splits prod.splits)
      next
        case (Some s)
        then obtain rc where "start_of c = Some (SRet rc)" using False by auto
        then show ?thesis using r by (cases c) (auto simp: d split: if_splits)
      qed
      then show thesis by (intro same) simp_all
    qed
  qed
qed

end
