(* ===== verification/AmThreadPoolInv.thy ===== *)
theory AmThreadPoolInv
  imports AmThreadPoolSteps
begin

text \<open>
  The invariants of the thread pool under any interleaving of its workers and clients: counters, tasks and the
  phases of its life.
\<close>

section \<open>Sums over the threads\<close>

definition sum_of :: "(tp_thread \<Rightarrow> 'a :: comm_monoid_add) \<Rightarrow> tp_sys \<Rightarrow> 'a" where
  "sum_of f s = sum_list (map f (actors s))"

lemma sum_of_change:
  fixes f :: "tp_thread \<Rightarrow> 'a :: cancel_comm_monoid_add"
  assumes "i < length (actors s)" and "actors s' = (actors s)[i := x] @ ys"
  shows "sum_of f s' + f (actors s ! i) = sum_of f s + f x + sum_list (map f ys)"
  using sum_list_update_cancel [OF assms(1), of f x] assms(2) by (simp add: sum_of_def ac_simps)

lemma sum_of_replace:
  fixes f :: "tp_thread \<Rightarrow> 'a :: cancel_comm_monoid_add"
  assumes "i < length (actors s)" and "actors s' = (actors s)[i := x]"
  shows "sum_of f s' + f (actors s ! i) = sum_of f s + f x"
  using sum_of_change [of i s s' x "[]" f] assms by simp

text \<open>
  The steps of the system, in a form for invariants: a thread is replaced, and a worker may be added.
\<close>

lemma tp_step_cases:
  assumes "tp_step s s'"
  obtains
    (worker) i w w' time n where "i < length (actors s)" "actors s ! i = Worker w" "actors s' = (actors s)[i := Worker w']"
      "worker_step time n (shared s) w = Some (shared s', w')" "phase s' = phase s" "accepted s' = accepted s" "failed s' = failed s"
  | (client) i c c' time ok mem started where "i < length (actors s)" "actors s ! i = Client c"
      "actors s' = (actors s)[i := Client c'] @ (if started then [Worker new_worker] else [])"
      "\<forall>b. mem = Some b \<longrightarrow> task_mem (shared s) b = None" "client_step time ok mem (shared s) c = Some (shared s', c', started)"
      "phase s' = phase s" "accepted s' = accepted s + accepts (shared s) c c'" "failed s' = failed s + start_fails c c'"
  | (other) i c c' where "i < length (actors s)" "actors s ! i = Client c" "actors s' = (actors s)[i := Client c']"
      "shared s' = shared s" "accepted s' = accepted s" "failed s' = failed s" "start_of c = None" "start_of c' = None"
      "holds (Client c) = {#}" "holds (Client c') = {#}"
proof -
  have call: "start_of c = None \<and> holds (Client c) = {#}" if "client_call c" for c
    using that by (cases c) auto
  from assms show thesis
  proof (cases rule: tp_step.cases)
    case (worker i w time n k w')
    then show thesis by (intro that(1) [of i w w' time n]) simp_all
  next
    case (client i c mem time ok k c' started)
    then show thesis by (intro that(2) [of i c c' started mem time ok]) simp_all
  next
    case (created i)
    then show thesis by (intro that(3) [of i "CRet AMRC_SUCCESS" CIdle]) simp_all
  next
    case (return i rc)
    then show thesis by (intro that(3) [of i "CRet rc" CIdle]) simp_all
  next
    case (call i c)
    then show thesis using \<open>\<And>c. client_call c \<Longrightarrow> start_of c = None \<and> holds (Client c) = {#}\<close> [of c]
      by (intro that(3) [of i CIdle c]) simp_all
  next
    case (destroy i)
    then show thesis by (intro that(3) [of i CIdle CDestroy]) simp_all
  qed
qed

section \<open>Counters\<close>

definition counters_ok :: "tp_sys \<Rightarrow> bool" where
  "counters_ok s \<longleftrightarrow>
     active_thread_count (tp (shared s)) = of_nat (sum_of c_active s) \<and>
     threads_destroyed (tp (shared s)) = of_nat (sum_of c_done s) \<and>
     threads_created (tp (shared s)) = of_nat (sum_of c_made s + failed s)"

lemma counter_change:
  assumes "a = of_nat n" and "m + x = n + y" and "a' + of_nat x = a + of_nat y"
  shows "a' = (of_nat m :: u64)"
proof -
  have "of_nat m + of_nat x = (of_nat n + of_nat y :: u64)" using assms(2) by (metis of_nat_add)
  with assms(1,3) have "a' + of_nat x = of_nat m + of_nat x" by simp
  then show ?thesis by simp
qed

lemma start_fails_eq: "start_of c = Some s \<Longrightarrow> start_of c' = Some s' \<Longrightarrow>
    start_fails c c' = (if s = SCreate \<and> s' = SRet AMRC_ERROR then 1 else 0)"
  by (simp add: start_fails_def)

text \<open>A step of a client on the counters.\<close>

lemma client_counts:
  assumes r: "client_step time ok mem k c = Some (k', c', started)"
  shows "active_thread_count (tp k') = active_thread_count (tp k)" "idle_thread_count (tp k') = idle_thread_count (tp k)"
    "threads_destroyed (tp k') = threads_destroyed (tp k)" "runs k' = runs k" "tp_live k"
    "threads_created (tp k') + of_nat (w_pending (start_of c)) = threads_created (tp k) + of_nat (w_pending (start_of c')) +
       of_nat (if started then 1 else 0) + of_nat (start_fails c c')"
proof -
  have "active_thread_count (tp k') = active_thread_count (tp k) \<and> idle_thread_count (tp k') = idle_thread_count (tp k) \<and>
    threads_destroyed (tp k') = threads_destroyed (tp k) \<and> runs k' = runs k \<and> tp_live k \<and>
    threads_created (tp k') + of_nat (w_pending (start_of c)) = threads_created (tp k) + of_nat (w_pending (start_of c')) +
       of_nat (if started then 1 else 0) + of_nat (start_fails c c')"
  proof (cases "\<exists>s. start_of c = Some s \<and> (\<forall>rc. s \<noteq> SRet rc)")
    case True
    then obtain s where s: "start_of c = Some s" "\<forall>rc. s \<noteq> SRet rc" by blast
    from starting_step [OF r s, of k] obtain p' s' where p: "start_step ok (tp k) s = Some (p', s', started)" "k' = set_tp k p'"
      "start_of c' = Some s'" "tp_live k" by blast
    then show ?thesis using start_counts [OF p(1)] start_fails_eq [OF s(1) p(3)] s(1) by (simp add: set_tp_def)
  next
    case False
    then have "\<forall>s. start_of c = Some s \<longrightarrow> (\<exists>rc. s = SRet rc)" by blast
    from resting_step [OF r this] show ?thesis by simp
  qed
  then show "active_thread_count (tp k') = active_thread_count (tp k)" "idle_thread_count (tp k') = idle_thread_count (tp k)"
    "threads_destroyed (tp k') = threads_destroyed (tp k)" "runs k' = runs k" "tp_live k"
    "threads_created (tp k') + of_nat (w_pending (start_of c)) = threads_created (tp k) + of_nat (w_pending (start_of c')) +
       of_nat (if started then 1 else 0) + of_nat (start_fails c c')" by blast+
qed

lemma counters_step:
  assumes "counters_ok s" and "tp_step s s'"
  shows "counters_ok s'"
  using assms(2)
proof (cases rule: tp_step_cases)
  case (worker i w w' time n)
  note u = sum_of_replace [OF worker(1,3)] and c = worker_counts [OF worker(4)]
  have a: "active_thread_count (tp (shared s)) = of_nat (sum_of c_active s)"
    "threads_destroyed (tp (shared s)) = of_nat (sum_of c_done s)" using assms(1) unfolding counters_ok_def by blast+
  have x: "active_thread_count (tp (shared s')) + of_nat (c_active (Worker w)) =
      active_thread_count (tp (shared s)) + of_nat (c_active (Worker w'))"
    "threads_destroyed (tp (shared s')) + of_nat (c_done (Worker w)) =
      threads_destroyed (tp (shared s)) + of_nat (c_done (Worker w'))"
    unfolding c(1,2) c_active.simps by simp_all
  have "active_thread_count (tp (shared s')) = of_nat (sum_of c_active s')"
    by (rule counter_change [OF a(1) u [where f=c_active, unfolded worker(2)] x(1)])
  moreover have "threads_destroyed (tp (shared s')) = of_nat (sum_of c_done s')"
    by (rule counter_change [OF a(2) u [where f=c_done, unfolded worker(2)] x(2)])
  moreover have "sum_of c_made s' = sum_of c_made s" using u [where f=c_made] worker(2) by simp
  ultimately show ?thesis using assms(1) c(3) worker(7) by (simp add: counters_ok_def)
next
  case (client i c c' time ok mem started)
  note u = sum_of_change [OF client(1,3)] and d = client_counts [OF client(5)]
  have z: "sum_of c_active s' = sum_of c_active s" "sum_of c_done s' = sum_of c_done s"
    using u [where f=c_active] u [where f=c_done] client(2) by (cases started; simp add: new_worker_def)+
  have "threads_created (tp (shared s')) = of_nat (sum_of c_made s' + failed s')"
  proof (rule counter_change)
    show "threads_created (tp (shared s)) = of_nat (sum_of c_made s + failed s)" using assms(1) by (simp add: counters_ok_def)
    show "sum_of c_made s' + failed s' + w_pending (start_of c) =
      sum_of c_made s + failed s + (w_pending (start_of c') + (if started then 1 else 0) + start_fails c c')"
      using u [where f=c_made] client(2,8) by (cases started) simp_all
  qed (use d(6) in simp)
  then show ?thesis using assms(1) z d by (simp add: counters_ok_def)
next
  case (other i c c')
  note u = sum_of_replace [OF other(1,3)]
  have "sum_of c_made s' = sum_of c_made s" "sum_of c_active s' = sum_of c_active s" "sum_of c_done s' = sum_of c_done s"
    using u [where f=c_made] u [where f=c_active] u [where f=c_done] other(2,7,8) by simp_all
  then show ?thesis using assms(1) other by (simp add: counters_ok_def)
qed

section \<open>The idle counter\<close>

definition idle_ok :: "tp_sys \<Rightarrow> bool" where
  "idle_ok s \<longleftrightarrow> length (runs (shared s)) < 2 ^ 64 - 1 \<longrightarrow>
     idle_thread_count (tp (shared s)) = of_nat (sum_of c_idle s) \<and>
     (\<forall>w. Worker w \<in> set (actors s) \<longrightarrow> busy_ok (length (runs (shared s))) w)"

lemma new_worker_ok: "busy_ok n new_worker" "worker_ok new_worker" "w_idle new_worker = 0" "carries (Worker new_worker) = {#}"
    "holds (Worker new_worker) = {#}" "wpc new_worker = WId"
  by (simp_all add: busy_ok_def new_worker_def worker_ok_def w_idle_def)

lemma idle_step:
  assumes "idle_ok s" and "tp_step s s'"
  shows "idle_ok s'"
  using assms(2)
proof (cases rule: tp_step_cases)
  case (worker i w w' time n)
  have len: "length (runs (shared s)) \<le> length (runs (shared s'))" using worker_tasks [OF worker(4)] by auto
  show ?thesis unfolding idle_ok_def
  proof (intro impI)
    assume "length (runs (shared s')) < 2 ^ 64 - 1"
    then have b: "length (runs (shared s)) < 2 ^ 64 - 1" using len by linarith
    then have s: "idle_thread_count (tp (shared s)) = of_nat (sum_of c_idle s)"
      "\<forall>w. Worker w \<in> set (actors s) \<longrightarrow> busy_ok (length (runs (shared s))) w" using assms(1) unfolding idle_ok_def by blast+
    have "Worker w \<in> set (actors s)" using worker(1,2) by (metis nth_mem)
    then have "busy_ok (length (runs (shared s))) w" using s(2) by blast
    note j = worker_idle [OF worker(4) this b]
    have "idle_thread_count (tp (shared s')) = of_nat (sum_of c_idle s')"
      by (rule counter_change [OF s(1) sum_of_replace [OF worker(1,3), where f=c_idle, unfolded worker(2) c_idle.simps]
        conjunct1 [OF j]])
    moreover have "busy_ok (length (runs (shared s'))) v" if "Worker v \<in> set (actors s')" for v
    proof -
      from that worker(3) have "Worker v = Worker w' \<or> Worker v \<in> set (actors s)" using set_update_elim by metis
      then show ?thesis using j s(2) busy_ok_mono [OF _ len] by auto
    qed
    ultimately show "idle_thread_count (tp (shared s')) = of_nat (sum_of c_idle s') \<and>
      (\<forall>w. Worker w \<in> set (actors s') \<longrightarrow> busy_ok (length (runs (shared s'))) w)" by blast
  qed
next
  case (client i c c' time ok mem started)
  note d = client_counts [OF client(5)]
  have "sum_of c_idle s' = sum_of c_idle s"
    using sum_of_change [OF client(1,3), where f=c_idle] client(2) by (cases started) (simp_all add: new_worker_ok)
  moreover have "busy_ok n v" if "Worker v \<in> set (actors s')" "\<forall>w. Worker w \<in> set (actors s) \<longrightarrow> busy_ok n w" for v n
    using that client(3) new_worker_ok(1) by (auto dest!: set_update_elim split: if_splits)
  ultimately show ?thesis using assms(1) d unfolding idle_ok_def by simp
next
  case (other i c c')
  have "sum_of c_idle s' = sum_of c_idle s" using sum_of_replace [OF other(1,3), where f=c_idle] other(2) by simp
  moreover have "Worker v \<in> set (actors s)" if "Worker v \<in> set (actors s')" for v
    using that other(3) by (auto dest!: set_update_elim)
  ultimately show ?thesis using assms(1) other unfolding idle_ok_def by auto
qed

section \<open>Workers\<close>

definition workers_ok :: "tp_sys \<Rightarrow> bool" where
  "workers_ok s \<longleftrightarrow> (\<forall>w. Worker w \<in> set (actors s) \<longrightarrow> worker_ok w)"

lemma workers_step:
  assumes "workers_ok s" and "tp_step s s'"
  shows "workers_ok s'"
  using assms(2)
proof (cases rule: tp_step_cases)
  case (worker i w w' time n)
  have "worker_ok w'" using worker_ok_step [OF worker(4)] assms(1) worker(1,2) unfolding workers_ok_def by (metis nth_mem)
  then show ?thesis using assms(1) worker(3) unfolding workers_ok_def by (auto dest!: set_update_elim)
next
  case (client i c c' time ok mem started)
  then show ?thesis using assms(1) new_worker_ok(2) unfolding workers_ok_def
    by (auto dest!: set_update_elim split: if_splits)
next
  case (other i c c')
  then show ?thesis using assms(1) unfolding workers_ok_def by (auto dest!: set_update_elim)
qed

section \<open>Tasks\<close>

definition carried :: "tp_sys \<Rightarrow> addr multiset" where
  "carried s = mset (tasks_queue (tp (shared s))) + sum_of carries s"

text \<open>Every block that is queued or owned is live, and has one owner.\<close>

definition owned_once :: "(addr \<rightharpoonup> tp_task) \<Rightarrow> addr multiset \<Rightarrow> bool" where
  "owned_once m N \<longleftrightarrow> (\<forall>p. count N p \<le> (if m p = None then 0 else 1))"

definition tasks_ok :: "tp_sys \<Rightarrow> bool" where
  "tasks_ok s \<longleftrightarrow> owned_once (task_mem (shared s)) (carried s + sum_of holds s)"

definition calls_of :: "(addr \<rightharpoonup> tp_task) \<Rightarrow> addr multiset \<Rightarrow> tp_call multiset" where
  "calls_of m C = image_mset (\<lambda>p. call_of (the (m p))) C"

lemma owned_onceD: "owned_once m N \<Longrightarrow> count N p \<le> 1" "owned_once m N \<Longrightarrow> m p = None \<Longrightarrow> count N p = 0"
  unfolding owned_once_def by (cases "m p"; drule spec [of _ p]; simp)+

lemma owned_onceI: "(\<And>p. count N p \<le> 1) \<Longrightarrow> (\<And>p. m p = None \<Longrightarrow> count N p = 0) \<Longrightarrow> owned_once m N"
  by (simp add: owned_once_def)

lemma owned_once_live: "owned_once m N \<Longrightarrow> b \<in># N \<Longrightarrow> m b \<noteq> None"
  using owned_onceD(2) [of m N b] count_eq_zero_iff [of N b] by blast

lemma owned_once_notin:
  "owned_once m (add_mset b N) \<Longrightarrow> b \<notin># N"
  "owned_once m N \<Longrightarrow> m b = None \<Longrightarrow> b \<notin># N"
  using owned_onceD(1) [of m "add_mset b N" b] owned_onceD(2) [of m N b] by (simp_all add: not_in_iff)

lemma owned_once_less:
  assumes "owned_once m (add_mset b N)"
  shows "owned_once m N"
proof (rule owned_onceI)
  fix p
  have le: "count N p \<le> count (add_mset b N) p" by simp
  show "count N p \<le> 1" using le owned_onceD(1) [OF assms] by (rule order_trans)
  show "count N p = 0" if "m p = None" using le owned_onceD(2) [OF assms that] by simp
qed

lemma owned_once_free:
  assumes "owned_once m (add_mset b N)"
  shows "owned_once (m(b := None)) N"
proof (rule owned_onceI)
  fix p
  note l = owned_once_less [OF assms]
  show "count N p \<le> 1" by (rule owned_onceD(1) [OF l])
  show "count N p = 0" if "(m(b := None)) p = None"
    using that owned_onceD(2) [OF l] owned_once_notin(1) [OF assms] by (cases "p = b") (simp_all add: not_in_iff)
qed

lemma owned_once_write: "owned_once m N \<Longrightarrow> m b \<noteq> None \<Longrightarrow> owned_once (m(b \<mapsto> tk)) N"
  by (rule owned_onceI) (auto dest: owned_onceD simp del: One_nat_def split: if_splits)

lemma owned_once_new:
  assumes "owned_once m N" and "m b = None"
  shows "owned_once (m(b \<mapsto> tk)) (add_mset b N)"
proof (rule owned_onceI)
  fix p
  show "count (add_mset b N) p \<le> 1" using owned_onceD [OF assms(1), of p] assms(2) by (cases "p = b") simp_all
  show "count (add_mset b N) p = 0" if "(m(b \<mapsto> tk)) p = None"
    using that owned_onceD(2) [OF assms(1), of p] by (cases "p = b") simp_all
qed

lemma calls_of_outside: "b \<notin># C \<Longrightarrow> calls_of (m(b := x)) C = calls_of m C"
  by (auto simp: calls_of_def intro!: image_mset_cong)

lemma calls_of_mine: "m b = Some tk \<Longrightarrow> call_of tk' = call_of tk \<Longrightarrow> calls_of (m(b \<mapsto> tk')) C = calls_of m C"
  by (auto simp: calls_of_def intro!: image_mset_cong)

lemma calls_of_add [simp]: "calls_of m (add_mset b C) = add_mset (call_of (the (m b))) (calls_of m C)"
  by (simp add: calls_of_def)

text \<open>
  The invariant and the balance of accepted calls against those made and those still to be made.
\<close>

lemma tasks_step:
  assumes "tasks_ok s" and "tp_step s s'"
  shows "tasks_ok s' \<and>
    (accepted s = mset (runs (shared s)) + calls_of (task_mem (shared s)) (carried s) \<longrightarrow>
     accepted s' = mset (runs (shared s')) + calls_of (task_mem (shared s')) (carried s'))"
  using assms(2)
proof (cases rule: tp_step_cases)
  case (worker i w w' time n)
  note uc = sum_of_replace [OF worker(1,3), where f=carries, unfolded worker(2)]
  note uh = sum_of_replace [OF worker(1,3), where f=holds, unfolded worker(2)]
  let ?q = "mset (tasks_queue (tp (shared s)))" and ?q' = "mset (tasks_queue (tp (shared s')))"
  from worker_tasks [OF worker(4)] show ?thesis
  proof (elim disjE exE conjE)
    assume a: "task_mem (shared s') = task_mem (shared s)" "runs (shared s') = runs (shared s)"
      and h: "holds (Worker w') = holds (Worker w)" and q: "?q' + carries (Worker w') = ?q + carries (Worker w)"
    have hs: "sum_of holds s' = sum_of holds s" using uh unfolding h by simp
    have "carried s' + (carries (Worker w) + carries (Worker w')) = (?q' + carries (Worker w')) + (sum_of carries s' + carries (Worker w))"
      by (simp add: carried_def)
    also have "\<dots> = carried s + (carries (Worker w) + carries (Worker w'))"
      unfolding q uc by (simp add: carried_def)
    finally have "carried s' = carried s" by simp
    then show ?thesis using assms(1) a hs worker(6) by (simp add: tasks_ok_def)
  next
    fix tk
    assume a: "wpc w = WRun" "task_mem (shared s) (wtask w) = Some tk" "runs (shared s') = runs (shared s) @ [call_of tk]"
      "task_mem (shared s') = task_mem (shared s)" "tp (shared s') = tp (shared s)" "wpc w' = WFree" "wtask w' = wtask w"
    have "add_mset (wtask w) (sum_of carries s') = sum_of carries s" using uc a by simp
    then have c: "carried s = add_mset (wtask w) (carried s')" using a(5) unfolding carried_def by (metis union_mset_add_mset_right)
    have "sum_of holds s' = add_mset (wtask w) (sum_of holds s)" using uh a by simp
    then show ?thesis using assms(1) a c worker(6) by (simp add: tasks_ok_def)
  next
    assume a: "wpc w = WFree" "task_mem (shared s') = (task_mem (shared s))(wtask w := None)" "runs (shared s') = runs (shared s)"
      "tp (shared s') = tp (shared s)" "wpc w' = WPop"
    have "sum_of carries s' = sum_of carries s" using uc a by simp
    then have c: "carried s' = carried s" using a(4) by (simp add: carried_def)
    have h: "sum_of holds s = add_mset (wtask w) (sum_of holds s')" using uh a by simp
    have o: "owned_once (task_mem (shared s)) (add_mset (wtask w) (carried s + sum_of holds s'))"
      using assms(1) h by (simp add: tasks_ok_def)
    have "wtask w \<notin># carried s" using owned_once_notin(1) [OF o] by simp
    then show ?thesis using owned_once_free [OF o] a c worker(6) by (simp add: tasks_ok_def calls_of_outside del: fun_upd_apply)
  qed
next
  case (client i c c' time ok mem started)
  have "sum_of carries s' = sum_of carries s"
    using sum_of_change [OF client(1,3), where f=carries] client(2) by (cases started) (simp_all add: new_worker_ok)
  then have cq: "carried s' = mset (tasks_queue (tp (shared s'))) + sum_of carries s" by (simp add: carried_def)
  have uh: "sum_of holds s' + holds (Client c) = sum_of holds s + holds (Client c')"
    using sum_of_change [OF client(1,3), where f=holds] client(2) by (cases started) (simp_all add: new_worker_ok)
  have o: "owned_once (task_mem (shared s)) (carried s + sum_of holds s)" using assms(1) by (simp add: tasks_ok_def)
  obtain rest where "sum_of holds s = holds (Client c) + rest"
    using sum_list_one [OF client(1), of holds] client(2) unfolding sum_of_def by metis
  then have own: "\<forall>b \<in># holds (Client c). task_mem (shared s) b \<noteq> None" using owned_once_live [OF o] by simp
  have r: "runs (shared s') = runs (shared s)" using client_counts [OF client(5)] by blast
  from client(5,4) own show ?thesis
  proof (cases rule: client_tasks)
    case same
    then show ?thesis using o uh cq r client(7) by (simp add: tasks_ok_def carried_def)
  next
    case (new b tk)
    then have h: "sum_of holds s' = add_mset b (sum_of holds s)" and c: "carried s' = carried s" using uh cq by (simp_all add: carried_def)
    have "b \<notin># carried s" using owned_once_notin(2) [OF o new(1)] by simp
    then show ?thesis using owned_once_new [OF o new(1)] new(2,6) h c r client(7)
      by (simp add: tasks_ok_def calls_of_outside del: fun_upd_apply)
  next
    case (mine b tk tk')
    then have h: "sum_of holds s' = sum_of holds s" and c: "carried s' = carried s" using uh cq by (simp_all add: carried_def)
    show ?thesis using owned_once_write [OF o] mine h c r client(7)
      by (simp add: tasks_ok_def calls_of_mine del: fun_upd_apply)
  next
    case (push b tk)
    then have h: "sum_of holds s = add_mset b (sum_of holds s')" and c: "carried s' = add_mset b (carried s)"
      using uh cq by (simp_all add: carried_def)
    show ?thesis using o push h c r client(7) by (simp add: tasks_ok_def)
  next
    case (free b)
    then have h: "sum_of holds s = add_mset b (sum_of holds s')" and c: "carried s' = carried s" using uh cq by (simp_all add: carried_def)
    have o: "owned_once (task_mem (shared s)) (add_mset b (carried s + sum_of holds s'))" using o h by simp
    have "b \<notin># carried s" using owned_once_notin(1) [OF o] by simp
    then show ?thesis using owned_once_free [OF o] free c r client(7)
      by (simp add: tasks_ok_def calls_of_outside del: fun_upd_apply)
  next
    case (leak b)
    then have h: "sum_of holds s = add_mset b (sum_of holds s')" and c: "carried s' = carried s" using uh cq by (simp_all add: carried_def)
    have "owned_once (task_mem (shared s)) (add_mset b (carried s + sum_of holds s'))" using o h by simp
    then show ?thesis using owned_once_less leak c r client(7) by (simp add: tasks_ok_def)
  qed
next
  case (other i c c')
  have "sum_of carries s' = sum_of carries s" "sum_of holds s' = sum_of holds s"
    using sum_of_replace [OF other(1,3), where f=carries] sum_of_replace [OF other(1,3), where f=holds] other(2,9,10) by simp_all
  then show ?thesis using assms(1) other(4,5) by (simp add: tasks_ok_def carried_def)
qed

section \<open>Phases\<close>

definition done_all :: "tp_sys \<Rightarrow> bool" where
  "done_all s \<longleftrightarrow> failed s = 0 \<and> (\<forall>w. Worker w \<in> set (actors s) \<longrightarrow> wpc w = WDone)"

text \<open>With fewer than \<open>2 ^ 64\<close> threads the counters of threads do not wrap around.\<close>

definition finished :: "tp_sys \<Rightarrow> bool" where
  "finished s \<longleftrightarrow> length (actors s) + failed s < 2 ^ 64 \<longrightarrow> done_all s"

text \<open>Where the client that creates the pool is, and where the one that destroys it.\<close>

fun creating :: "nat \<Rightarrow> tp_shared \<Rightarrow> client_pc \<Rightarrow> bool" where
  "creating f k (CCreate i st) = (tp_live k \<and> drain_signal (tp k) = 0 \<and>
     (case st of SRet rc \<Rightarrow> rc = AMRC_SUCCESS \<or> 0 < f | _ \<Rightarrow> True))"
| "creating f k CCreateDrain = (tp_live k \<and> 0 < f)"
| "creating f k CCreateWait = (tp_live k \<and> 0 < f)"
| "creating f k CCreateFree = (tp_live k \<and> 0 < f)"
| "creating f k (CRet rc) = (if rc = AMRC_SUCCESS then tp_live k \<and> drain_signal (tp k) = 0 else 0 < f)"
| "creating f k _ = False"

fun open_pc :: "client_pc \<Rightarrow> bool" where
  "open_pc (CCreate i st) = False" | "open_pc CCreateDrain = False" | "open_pc CCreateWait = False"
| "open_pc CCreateFree = False" | "open_pc CDestroy = False" | "open_pc CDestroyWait = False"
| "open_pc CDestroyFree = False" | "open_pc _ = True"

fun closing :: "tp_shared \<Rightarrow> bool \<Rightarrow> client_pc \<Rightarrow> bool" where
  "closing k fin CDestroy = tp_live k"
| "closing k fin CDestroyWait = tp_live k"
| "closing k fin CDestroyFree = (tp_live k \<and> fin)"
| "closing k fin (CRet rc) = (\<not> tp_live k \<and> fin)"
| "closing k fin CIdle = (\<not> tp_live k \<and> fin)"
| "closing k fin _ = False"

definition phase_ok :: "tp_sys \<Rightarrow> bool" where
  "phase_ok s \<longleftrightarrow>
     (case phase s of
        Creating \<Rightarrow> 0 < length (actors s) \<and> (\<exists>c. actors s ! 0 = Client c \<and> creating (failed s) (shared s) c) \<and>
          (\<forall>i < length (actors s). \<forall>c. 0 < i \<longrightarrow> actors s ! i = Client c \<longrightarrow> c = CIdle)
      | Open \<Rightarrow> tp_live (shared s) \<and> drain_signal (tp (shared s)) = 0 \<and> (\<forall>c. Client c \<in> set (actors s) \<longrightarrow> open_pc c)
      | Closing \<Rightarrow> \<exists>d < length (actors s). (\<exists>c. actors s ! d = Client c \<and> closing (shared s) (finished s) c) \<and>
          (\<forall>i < length (actors s). i \<noteq> d \<longrightarrow> at_rest (actors s ! i)))"

lemma creating_step:
  assumes r: "client_step time ok mem k c = Some (k', c', started)" and c: "creating f k c"
  shows "creating (f + start_fails c c') k' c'"
proof -
  note d = client_steps Let_def bind_eq_Some_conv amsync_simps set_tp_def create_next_def start_fails_def
  show ?thesis
  proof (cases "\<exists>i st. c = CCreate i st")
    case True
    then obtain i st where "c = CCreate i st" by blast
    then show ?thesis using r c by (cases st) (auto simp: d split: if_splits amrc.splits)
  next
    case False
    then show ?thesis using r c by (cases c) (auto simp: d split: if_splits)
  qed
qed

lemma open_step:
  assumes r: "client_step time ok mem k c = Some (k', c', started)" and c: "open_pc c" and z: "drain_signal (tp k) = 0"
  shows "open_pc c' \<and> tp_live k' \<and> drain_signal (tp k') = 0"
proof (cases "\<exists>s. start_of c = Some s \<and> (\<forall>rc. s \<noteq> SRet rc)")
  case True
  then obtain s where s: "start_of c = Some s" "\<forall>rc. s \<noteq> SRet rc" by blast
  from starting_step [OF r s, of k] obtain p' s' where p: "start_step ok (tp k) s = Some (p', s', started)" "k' = set_tp k p'"
    "start_of c' = Some s'" "tp_live k" by blast
  have "open_pc c'"
  proof (cases c)
    case (CRunStart b u)
    then show ?thesis using r s by (cases u) (auto simp: client_steps Let_def bind_eq_Some_conv)
  next
    case (CMinStart i v rc u)
    then show ?thesis using r s by (cases u) (auto simp: client_steps Let_def bind_eq_Some_conv)
  qed (use s c in auto)
  then show ?thesis using start_counts(5) [OF p(1)] p(2,4) z by (simp add: set_tp_def)
next
  case False
  note d = client_steps Let_def bind_eq_Some_conv amsync_simps set_tp_def min_next_def
  show ?thesis
  proof (cases "start_of c")
    case None
    then show ?thesis using r c z
      by (cases c) (auto simp: d dest: setter_counts split: option.splits if_splits prod.splits)
  next
    case (Some s)
    then obtain rc where "start_of c = Some (SRet rc)" using False by auto
    then show ?thesis using r c z by (cases c) (auto simp: d split: if_splits)
  qed
qed

lemma closing_step:
  assumes r: "client_step time ok mem k c = Some (k', c', started)" and c: "closing k fin c"
    and f: "\<not> threads_destroyed (tp k) < threads_created (tp k) \<Longrightarrow> fin'" and m: "fin \<Longrightarrow> fin'"
  shows "closing k' fin' c' \<and> \<not> started \<and> start_fails c c' = 0"
  using assms by (cases c) (auto simp: client_steps Let_def bind_eq_Some_conv set_tp_def start_fails_def split: if_splits)

lemma sum_list_le_eq:
  fixes f g :: "'a \<Rightarrow> nat"
  assumes "\<forall>x \<in> set xs. f x \<le> g x" and "sum_list (map g xs) \<le> sum_list (map f xs)"
  shows "\<forall>x \<in> set xs. f x = g x"
  using assms
proof (induction xs)
  case (Cons x xs)
  have "sum_list (map f xs) \<le> sum_list (map g xs)" using Cons.prems(1) by (intro sum_list_mono) simp
  then have "f x = g x" "sum_list (map g xs) \<le> sum_list (map f xs)" using Cons.prems by simp_all
  with Cons show ?case by simp
qed simp

text \<open>When the destroyer has seen as many threads destroyed as created, all workers are done.\<close>

lemma all_destroyed:
  assumes c: "counters_ok s" and d: "\<not> threads_destroyed (tp (shared s)) < threads_created (tp (shared s))"
  shows "finished s"
  unfolding finished_def
proof (intro impI)
  assume b: "length (actors s) + failed s < 2 ^ 64"
  have pw: "w_pending x \<le> 1" for x by (cases x rule: w_pending.cases) simp_all
  then have one: "c_made a \<le> 1" for a by (cases a) simp_all
  have le: "c_done a \<le> c_made a" for a by (cases a) simp_all
  have "sum_of c_made s \<le> length (actors s)"
    using sum_list_mono [of "actors s" c_made "\<lambda>_. 1"] one by (simp add: sum_of_def sum_list_triv)
  then have m: "sum_of c_made s + failed s < 2 ^ 64" using b by linarith
  have "sum_of c_done s \<le> sum_of c_made s" unfolding sum_of_def by (intro sum_list_mono le)
  then have n: "sum_of c_done s < 2 ^ 64" using m by linarith
  have "unat (threads_created (tp (shared s))) \<le> unat (threads_destroyed (tp (shared s)))"
    using d by (simp add: word_le_nat_alt not_less)
  then have e: "sum_of c_made s + failed s \<le> sum_of c_done s"
    using c m n unat_of_nat_fits unfolding counters_ok_def by metis
  then have f: "failed s = 0" "sum_of c_made s \<le> sum_of c_done s" using \<open>sum_of c_done s \<le> sum_of c_made s\<close> by linarith+
  have eq: "\<forall>a \<in> set (actors s). c_done a = c_made a" using sum_list_le_eq [of "actors s" c_done c_made] le f(2)
    by (simp add: sum_of_def)
  have "wpc w = WDone" if "Worker w \<in> set (actors s)" for w
  proof -
    have "c_done (Worker w) = c_made (Worker w)" using eq that by blast
    then show ?thesis by (simp split: if_splits)
  qed
  with f show "done_all s" by (simp add: done_all_def)
qed

lemma finished_later:
  assumes "finished s" and "length (actors s') = length (actors s)" and "failed s' = failed s"
    and "\<And>w. done_all s \<Longrightarrow> Worker w \<in> set (actors s') \<Longrightarrow> Worker w \<in> set (actors s)"
  shows "finished s'"
  using assms unfolding finished_def done_all_def by auto

lemma creating_later: "creating f k c \<Longrightarrow> tp_live k' = tp_live k \<Longrightarrow> drain_signal (tp k') = drain_signal (tp k) \<Longrightarrow> creating f k' c"
  by (cases "(f, k, c)" rule: creating.cases) (auto split: start_pc.splits if_splits)

lemma closing_later: "closing k fin c \<Longrightarrow> tp_live k' = tp_live k \<Longrightarrow> (fin \<Longrightarrow> fin') \<Longrightarrow> closing k' fin' c"
  by (cases c) auto

lemma worker_phase:
  assumes "phase_ok s" and i: "i < length (actors s)" "actors s ! i = Worker w" "actors s' = (actors s)[i := Worker w']"
    and r: "worker_step time n (shared s) w = Some (shared s', w')" and p: "phase s' = phase s" "failed s' = failed s"
  shows "phase_ok s'"
proof -
  note c = worker_counts [OF r]
  have cl: "actors s' ! j = actors s ! j \<or> actors s' ! j = Worker w' \<and> j = i" if "j < length (actors s)" for j
    using i that by (cases "j = i") simp_all
  have len: "length (actors s') = length (actors s)" using i(3) by simp
  have mem: "Client d \<in> set (actors s) " if "Client d \<in> set (actors s')" for d
    using that i(3) by (auto dest!: set_update_elim)
  have fin: "finished s'" if "finished s"
  proof (rule finished_later [OF that len p(2)])
    fix v
    assume "done_all s"
    then have "wpc w = WDone" using i(1,2) unfolding done_all_def by (metis nth_mem)
    with c(6) show "Worker v \<in> set (actors s)" by simp
  qed
  show ?thesis
  proof (cases "phase s")
    case Creating
    then obtain c where z: "0 < length (actors s)" "actors s ! 0 = Client c" "creating (failed s) (shared s) c"
      and o: "\<forall>i < length (actors s). \<forall>c. 0 < i \<longrightarrow> actors s ! i = Client c \<longrightarrow> c = CIdle"
      using assms(1) by (auto simp: phase_ok_def)
    have "actors s' ! 0 = Client c" using cl [OF z(1)] z(2) i(2) by auto
    moreover have "creating (failed s') (shared s') c" using creating_later [OF z(3), of "shared s'"] c(4,5,7) p(2) by simp
    moreover have "d = CIdle" if "j < length (actors s')" "0 < j" "actors s' ! j = Client d" for j d
    proof -
      have "actors s ! j = Client d" using cl [of j] that len by auto
      then show ?thesis using o that len by simp
    qed
    ultimately show ?thesis using Creating p(1) z(1) len unfolding phase_ok_def by simp
  next
    case Open
    then show ?thesis using assms(1) p(1) c(4,5,7) mem by (simp add: phase_ok_def)
  next
    case Closing
    then obtain d c where z: "d < length (actors s)" "actors s ! d = Client c" "closing (shared s) (finished s) c"
      and o: "\<forall>i < length (actors s). i \<noteq> d \<longrightarrow> at_rest (actors s ! i)"
      using assms(1) by (auto simp: phase_ok_def)
    have "actors s' ! d = Client c" using cl [OF z(1)] z(2) i(2) by auto
    moreover have "closing (shared s') (finished s') c" using closing_later [OF z(3) _ fin] c(4,5) by simp
    moreover have "at_rest (actors s' ! j)" if "j < length (actors s')" "j \<noteq> d" for j
      using cl [of j] that len o by auto
    ultimately show ?thesis using Closing p(1) z(1) len unfolding phase_ok_def by auto
  qed
qed

lemma client_phase:
  assumes "phase_ok s" and ct: "counters_ok s" and i: "i < length (actors s)" "actors s ! i = Client c"
    and a: "actors s' = (actors s)[i := Client c'] @ (if started then [Worker new_worker] else [])"
    and r: "client_step time ok mem (shared s) c = Some (shared s', c', started)"
    and p: "phase s' = phase s" "failed s' = failed s + start_fails c c'"
  shows "phase_ok s'"
proof -
  have nr: "c \<noteq> CIdle" "c \<noteq> CRet rc" for rc using r by (auto simp: client_steps Let_def bind_eq_Some_conv)
  have cl: "actors s' ! j = (if j = i then Client c' else if j < length (actors s) then actors s ! j else Worker new_worker)"
    if "j < length (actors s')" for j
    using that i(1) a by (auto simp: nth_append nth_list_update)
  have len: "length (actors s) \<le> length (actors s')" using a by simp
  show ?thesis
  proof (cases "phase s")
    case Creating
    then obtain d where z: "0 < length (actors s)" "actors s ! 0 = Client d" "creating (failed s) (shared s) d"
      and o: "\<forall>i < length (actors s). \<forall>c. 0 < i \<longrightarrow> actors s ! i = Client c \<longrightarrow> c = CIdle"
      using assms(1) by (auto simp: phase_ok_def)
    have i0: "i = 0" using o i nr(1) by blast
    then have "d = c" using z(2) i(2) by simp
    then have "creating (failed s') (shared s') c'" using creating_step [OF r] z(3) p(2) by simp
    moreover have "e = CIdle" if "j < length (actors s')" "0 < j" "actors s' ! j = Client e" for j e
      using that cl [OF that(1)] o i0 by (auto split: if_splits)
    moreover have "actors s' ! 0 = Client c'" using cl [OF less_le_trans [OF z(1) len]] i0 by simp
    moreover have "0 < length (actors s')" using z(1) len by linarith
    ultimately show ?thesis using Creating p(1) unfolding phase_ok_def by simp
  next
    case Open
    then have l: "drain_signal (tp (shared s)) = 0" and o: "\<And>d. Client d \<in> set (actors s) \<Longrightarrow> open_pc d"
      using assms(1) by (simp_all add: phase_ok_def)
    have "open_pc c" using o i by (metis nth_mem)
    note st = open_step [OF r this l]
    have "open_pc d" if "Client d \<in> set (actors s')" for d
      using that a st o by (auto dest!: set_update_elim split: if_splits)
    then show ?thesis using Open p(1) st by (simp add: phase_ok_def)
  next
    case Closing
    then obtain d e where z: "d < length (actors s)" "actors s ! d = Client e" "closing (shared s) (finished s) e"
      and o: "\<forall>i < length (actors s). i \<noteq> d \<longrightarrow> at_rest (actors s ! i)"
      using assms(1) by (auto simp: phase_ok_def)
    have nrest: "\<not> at_rest (Client c)" using nr by (cases c) auto
    then have id: "i = d" using o i by metis
    then have e: "e = c" using z(2) i(2) by simp
    have clo: "closing (shared s') (finished s) c' \<and> \<not> started \<and> start_fails c c' = 0"
      using closing_step [OF r z(3) [unfolded e]] all_destroyed [OF ct] by blast
    have len: "length (actors s') = length (actors s)" using a clo by simp
    have "finished s'" if "finished s"
      using clo a by (intro finished_later [OF that len]) (auto simp: p(2) dest!: set_update_elim)
    then have "closing (shared s') (finished s') c'" using clo closing_later by blast
    moreover have "actors s' ! d = Client c'" using cl [of d] z(1) len id by simp
    moreover have "at_rest (actors s' ! j)" if "j < length (actors s')" "j \<noteq> d" for j
      using that cl [OF that(1)] len o id by auto
    ultimately show ?thesis using Closing p(1) z(1) len unfolding phase_ok_def by auto
  qed
qed

lemma phase_step:
  assumes "phase_ok s" and "counters_ok s" and "tp_step s s'"
  shows "phase_ok s'"
  using assms(3)
proof (cases rule: tp_step.cases)
  case (worker i w time n k w')
  then show ?thesis using worker_phase [OF assms(1), of i w s' w' time n] by simp
next
  case (client i c mem time ok k c' started)
  then show ?thesis using client_phase [OF assms(1,2), of i c s' c' started time ok mem] by simp
next
  case (created i)
  then obtain c where z: "actors s ! 0 = Client c" "creating (failed s) (shared s) c"
      and o: "\<And>i c. i < length (actors s) \<Longrightarrow> 0 < i \<Longrightarrow> actors s ! i = Client c \<Longrightarrow> c = CIdle"
    using assms(1) by (auto simp: phase_ok_def)
  have "i = 0" using o created(2,3) by blast
  then have l: "tp_live (shared s)" "drain_signal (tp (shared s)) = 0" using z created(3) by simp_all
  have "open_pc d" if "Client d \<in> set (actors s')" for d
  proof -
    from that created(1) obtain j where j: "j < length (actors s)" "(actors s)[i := Client CIdle] ! j = Client d"
      by (auto simp: in_set_conv_nth)
    then have "d = CIdle" using o [of j d] \<open>i = 0\<close> by (cases "j = 0") simp_all
    then show ?thesis by simp
  qed
  then show ?thesis using created(1) l by (simp add: phase_ok_def)
next
  case (return i rc)
  show ?thesis
  proof (cases "phase s")
    case Open
    then show ?thesis using assms(1) return(1) by (auto simp: phase_ok_def dest!: set_update_elim)
  next
    case Closing
    then obtain d e where z: "d < length (actors s)" "actors s ! d = Client e" "closing (shared s) (finished s) e"
      and o: "\<forall>i < length (actors s). i \<noteq> d \<longrightarrow> at_rest (actors s ! i)"
      using assms(1) by (auto simp: phase_ok_def)
    have fin: "finished s'" if "finished s"
      using return(1) by (intro finished_later [OF that]) (auto dest!: set_update_elim)
    define e' where "e' = (if d = i then CIdle else e)"
    have "closing (shared s') (finished s') e'"
      using z return(1,3) fin closing_later [OF z(3) _ fin, of "shared s'"] by (cases "d = i") (auto simp: e'_def)
    moreover have "actors s' ! d = Client e'" using z(1,2) return(1) by (simp add: e'_def)
    moreover have "at_rest (actors s' ! j)" if "j < length (actors s')" "j \<noteq> d" for j
      using that return(1,2) o by (cases "j = i") auto
    ultimately show ?thesis using Closing return(1) z(1) unfolding phase_ok_def by auto
  next
    case Creating
    with return show ?thesis by simp
  qed
next
  case (call i c)
  have "open_pc c" using call(5) by (cases c) auto
  then show ?thesis using assms(1) call(1,4) by (auto simp: phase_ok_def dest!: set_update_elim)
next
  case (destroy i)
  then have l: "tp_live (shared s)" using assms(1) by (simp add: phase_ok_def)
  have "\<exists>d < length (actors s'). (\<exists>c. actors s' ! d = Client c \<and> closing (shared s') (finished s') c) \<and>
      (\<forall>j < length (actors s'). j \<noteq> d \<longrightarrow> at_rest (actors s' ! j))"
    using destroy l by (intro exI [of _ i]) auto
  then show ?thesis using destroy(1) by (simp add: phase_ok_def)
qed

end
