(* ===== verification/AmThreadPoolProps.thy ===== *)
theory AmThreadPoolProps
  imports AmThreadPoolInv
begin

text \<open>
  The properties of the thread pool. Its system is an instance of the systems that pass elements on: the calls that were accepted
  go in, the calls made come out.
\<close>

section \<open>Creation\<close>

lemma create_config_ok:
  "0 < min_threads (create_config conf)" "0 < backlog (create_config conf)" "0 < poll_freq (create_config conf)"
  "max_threads (create_config conf) = 0 \<or> min_threads (create_config conf) \<le> max_threads (create_config conf)"
  by (auto simp: create_config_def Let_def word_gt_0 not_less AMTIME_MSEC_def AMTIME_USEC_def split: option.splits)

lemma create_pool:
  assumes "lam_thread_pool_create alloc ok h index conf = Some (Some (a, q, p), h', index')"
  shows "tasks_queue p = [] \<and> threads_created p = 0 \<and> threads_destroyed p = 0 \<and> active_thread_count p = 0 \<and>
    idle_thread_count p = 0 \<and> drain_signal p = 0 \<and> config p = create_config conf"
proof (cases "malloc alloc TP_BYTES h")
  case (Pair m h1)
  obtain b where m: "m = Some b" using assms Pair by (cases m) (simp_all add: lam_thread_pool_create_def)
  show ?thesis
  proof (cases "amstack_alloc alloc h1 (backlog (create_config conf))")
    case None
    then show ?thesis using assms Pair m by (simp add: lam_thread_pool_create_def)
  next
    case (Some x)
    obtain r h2 where x: "x = (r, h2)" by fastforce
    show ?thesis using assms Pair m Some x
      by (cases r; cases ok) (auto simp: lam_thread_pool_create_def bind_eq_Some_conv)
  qed
qed

section \<open>The system\<close>

definition tp_inv :: "tp_sys \<Rightarrow> bool" where
  "tp_inv s \<longleftrightarrow> counters_ok s \<and> idle_ok s \<and> workers_ok s \<and> tasks_ok s \<and> phase_ok s"

definition waiting :: "tp_sys \<Rightarrow> tp_call multiset" where
  "waiting s = calls_of (task_mem (shared s)) (carried s)"

lemma tp_init_inv:
  assumes "tp_init s"
  shows "tp_inv s" and "accepted s = mset (runs (shared s)) + waiting s"
proof -
  from assms obtain alloc h index conf a q p h' index' n where
    cr: "lam_thread_pool_create alloc True h index conf = Some (Some (a, q, p), h', index')" and
    sh: "shared s = \<lparr>tp = p, tp_live = True, task_mem = Map.empty, runs = [], final_stats = None\<rparr>" and
    ac: "actors s = Client (create_start p) # replicate n (Client CIdle)" and
    ph: "phase s = Creating" "accepted s = {#}" "failed s = 0" by (auto simp: tp_init_def)
  note c = create_pool [OF cr]
  have st: "create_start p = CCreate 0 SDrain \<or> create_start p = CRet AMRC_SUCCESS"
    by (simp add: create_start_def create_next_def)
  have z: "sum_of c_active s = 0" "sum_of c_done s = 0" "sum_of c_made s = 0" "sum_of c_idle s = 0" "sum_of carries s = {#}"
    "sum_of holds s = {#}"
    unfolding sum_of_def ac using st by (intro sum_list_zero; auto)+
  have "counters_ok s" "tasks_ok s" "waiting s = {#}"
    using c sh ph by (simp_all add: counters_ok_def tasks_ok_def owned_once_def waiting_def carried_def calls_of_def z)
  moreover have "idle_ok s" "workers_ok s" using c sh ac by (auto simp: idle_ok_def workers_ok_def z)
  moreover have "creating (failed s) (shared s) (create_start p)" using st c sh by auto
  then have "phase_ok s" using ph ac by (simp add: phase_ok_def nth_Cons')
  ultimately show "tp_inv s" "accepted s = mset (runs (shared s)) + waiting s" using ph sh by (simp_all add: tp_inv_def)
qed

lemma tp_step_inv:
  assumes "tp_inv s" and "tp_step s s'"
  shows "tp_inv s'"
  using assms counters_step idle_step workers_step tasks_step phase_step unfolding tp_inv_def by blast

interpretation tps: passing_system tp_init tp_step tp_inv accepted "\<lambda>s. mset (runs (shared s))" waiting
proof unfold_locales
  show "accepted s' = mset (runs (shared s')) + waiting s'"
    if "tp_inv s" "tp_step s s'" "accepted s = mset (runs (shared s)) + waiting s" for s s'
    using tasks_step [OF _ that(2)] that(1,3) unfolding tp_inv_def waiting_def by blast
qed (fact tp_init_inv tp_step_inv)+

section \<open>Schedules\<close>

text \<open>A run of the system, as the list of the choices made.\<close>

datatype choice =
    Work nat u64 nat | Act nat u64 bool "addr option" | Created nat | Return nat | Call nat client_pc | Destroy nat

fun chosen :: "choice \<Rightarrow> tp_sys \<Rightarrow> tp_sys option" where
  "chosen (Work i time n) s =
     (if i < length (actors s) then
        (case actors s ! i of
           Worker w \<Rightarrow> map_option (\<lambda>(k, w'). s\<lparr>shared := k, actors := (actors s)[i := Worker w']\<rparr>) (worker_step time n (shared s) w)
         | _ \<Rightarrow> None) else None)"
| "chosen (Act i time ok mem) s =
     (if i < length (actors s) \<and> (case mem of None \<Rightarrow> True | Some b \<Rightarrow> task_mem (shared s) b = None) then
        (case actors s ! i of
           Client c \<Rightarrow> map_option (\<lambda>(k, c', started).
             s\<lparr>shared := k, actors := (actors s)[i := Client c'] @ (if started then [Worker new_worker] else []),
               accepted := accepted s + accepts (shared s) c c', failed := failed s + start_fails c c'\<rparr>)
               (client_step time ok mem (shared s) c)
         | _ \<Rightarrow> None) else None)"
| "chosen (Created i) s =
     (if i < length (actors s) \<and> actors s ! i = Client (CRet AMRC_SUCCESS) \<and> phase s = Creating
      then Some (s\<lparr>actors := (actors s)[i := Client CIdle], phase := Open\<rparr>) else None)"
| "chosen (Return i) s =
     (if i < length (actors s) \<and> phase s \<noteq> Creating then
        (case actors s ! i of Client (CRet rc) \<Rightarrow> Some (s\<lparr>actors := (actors s)[i := Client CIdle]\<rparr>) | _ \<Rightarrow> None) else None)"
| "chosen (Call i c) s =
     (if i < length (actors s) \<and> actors s ! i = Client CIdle \<and> phase s = Open \<and> client_call c
      then Some (s\<lparr>actors := (actors s)[i := Client c]\<rparr>) else None)"
| "chosen (Destroy i) s =
     (if i < length (actors s) \<and> actors s ! i = Client CIdle \<and> phase s = Open \<and> list_all at_rest (actors s)
      then Some (s\<lparr>actors := (actors s)[i := Client CDestroy], phase := Closing\<rparr>) else None)"

lemma chosen_step:
  assumes "chosen c s = Some s'"
  shows "tp_step s s'"
proof (cases c)
  case (Work i time n)
  with assms show ?thesis by (auto split: if_splits tp_thread.splits intro: tp_step.worker)
next
  case (Act i time ok mem)
  with assms obtain d k d' st where a: "i < length (actors s)" "actors s ! i = Client d"
    "client_step time ok mem (shared s) d = Some (k, d', st)"
    "s' = s\<lparr>shared := k, actors := (actors s)[i := Client d'] @ (if st then [Worker new_worker] else []),
       accepted := accepted s + accepts (shared s) d d', failed := failed s + start_fails d d'\<rparr>"
    "\<forall>b. mem = Some b \<longrightarrow> task_mem (shared s) b = None"
    by (auto split: if_splits tp_thread.splits option.splits)
  show ?thesis unfolding a(4) using tp_step.client [OF a(1,2,5,3)] .
next
  case (Created i)
  with assms show ?thesis by (auto split: if_splits intro: tp_step.created)
next
  case (Return i)
  with assms show ?thesis by (auto split: if_splits tp_thread.splits client_pc.splits intro: tp_step.return)
next
  case (Call i d)
  with assms show ?thesis by (auto split: if_splits intro: tp_step.call)
next
  case (Destroy i)
  with assms show ?thesis by (auto simp: list_all_iff split: if_splits intro: tp_step.destroy)
qed

fun schedule :: "choice list \<Rightarrow> tp_sys \<Rightarrow> tp_sys option" where
  "schedule [] s = Some s"
| "schedule (c # cs) s = do { s \<leftarrow> chosen c s; schedule cs s }"

lemma schedule_steps: "schedule cs s = Some t \<Longrightarrow> tp_step\<^sup>*\<^sup>* s t"
proof (induction cs arbitrary: s)
  case (Cons c cs)
  then obtain u where "chosen c s = Some u" "schedule cs u = Some t" by (auto simp: bind_eq_Some_conv)
  then show ?case using chosen_step Cons.IH by (meson converse_rtranclp_into_rtranclp)
qed simp


definition one_conf :: "u64 \<Rightarrow> tp_config" where
  "one_conf n = \<lparr>flags = 0, default_func = None, poll_freq = 0, idle_timeout = 0, max_threads = 0, min_threads = n, backlog = 0\<rparr>"

definition demo_pool :: "u64 \<Rightarrow> thread_pool" where
  "demo_pool n = \<lparr>tp_id = 1, config = create_config (Some (one_conf n)), tasks_queue = [], threads_created = 0, threads_destroyed = 0,
     tasks_created = 0, active_thread_count = 0, idle_thread_count = 0, running_id = 1, drain_signal = 0,
     tp_stats = lam_thread_pool_stats_init blank_stats, stats_mutex = False\<rparr>"

definition one_pool :: "u64 \<Rightarrow> tp_sys" where
  "one_pool n = \<lparr>shared = \<lparr>tp = demo_pool n, tp_live = True, task_mem = Map.empty, runs = [], final_stats = None\<rparr>,
     actors = [Client (create_start (demo_pool n))], phase = Creating, accepted = {#}, failed = 0\<rparr>"

lemma demo_init: "tp_init (one_pool n)"
proof -
  have b: "backlog (create_config (Some (one_conf n))) = 15" by (simp add: create_config_def one_conf_def Let_def)
  have cr: "\<exists>a q h' index'. lam_thread_pool_create first_fit True \<lparr>live = Map.empty, calls = 0, refusals = 0\<rparr> 1 (Some (one_conf n)) =
      Some (Some (a, q, demo_pool n), h', index')"
    unfolding lam_thread_pool_create_def b
    by (simp add: malloc_def first_fit_def Let_def amstack_alloc_def demo_pool_def amsync_simps upt_conv_Cons TP_BYTES_def
      STACK_BYTES_def SLOT_BYTES_def)
  have "unat STACK_BYTES + unat SLOT_BYTES * unat (backlog (config (demo_pool n))) < 2 ^ 64"
    using b by (simp add: demo_pool_def STACK_BYTES_def SLOT_BYTES_def)
  moreover have "actors (one_pool n) = Client (create_start (demo_pool n)) # replicate 0 (Client CIdle)" by (simp add: one_pool_def)
  moreover have "shared (one_pool n) = \<lparr>tp = demo_pool n, tp_live = True, task_mem = Map.empty, runs = [], final_stats = None\<rparr>"
    "phase (one_pool n) = Creating" "accepted (one_pool n) = {#}" "failed (one_pool n) = 0" by (simp_all add: one_pool_def)
  ultimately show ?thesis using cr unfolding tp_init_def by blast
qed

text \<open>
  A task can be lost: the worker finds the queue empty, a task is queued, the destroyer sets the drain signal, and the worker
  leaves. Everything is done then, and the accepted task was not run.
\<close>

definition start_one :: "choice list" where
  "start_one = replicate 5 (Act 0 0 True None) @ [Created 0]"

definition run_one :: "nat \<Rightarrow> choice list" where
  "run_one b = Call 0 (CRun (Some 7) None None) # map (Act 0 0 True) [None, Some b, None, None, None] @ [Return 0]"

definition destroy_all :: "choice list" where
  "destroy_all = Destroy 0 # replicate 1 (Act 0 0 True None) @ replicate 7 (Work 1 0 0) @ replicate 2 (Act 0 0 True None)"

lemma lost_run:
  "map_option (\<lambda>s. (tp_live (shared s), failed s, accepted s, runs (shared s)))
     (schedule (start_one @ replicate 5 (Work 1 0 0) @ run_one 9 @ destroy_all) (one_pool 1)) =
   Some (False, 0, {#(7, None, None)#}, [])"
  by code_simp

lemma lost_task: "\<exists>s t. tp_init s \<and> tp_step\<^sup>*\<^sup>* s t \<and> \<not> tp_live (shared t) \<and> failed t = 0 \<and>
    accepted t = {#(7, None, None)#} \<and> runs (shared t) = []"
proof -
  obtain t where "schedule (start_one @ replicate 5 (Work 1 0 0) @ run_one 9 @ destroy_all) (one_pool 1) = Some t"
    "\<not> tp_live (shared t)" "failed t = 0" "accepted t = {#(7, None, None)#}" "runs (shared t) = []"
    using lost_run by (auto simp: map_option_eq_Some)
  with demo_init [of 1] schedule_steps show ?thesis by (intro exI [of _ "one_pool 1"] exI [of _ t]) simp
qed

text \<open>
  When a second thread cannot be started, the creator waits for the active threads only, and frees the pool under
  the first thread if that has not become active yet.
\<close>

lemma early_run:
  "map_option (\<lambda>s. (tp_live (shared s), actors s))
     (schedule (replicate 8 (Act 0 0 True None) @ Act 0 0 False None # replicate 4 (Act 0 0 True None)) (one_pool 2)) =
   Some (False, [Client (CRet AMRC_ERROR), Worker new_worker])"
  by code_simp

lemma freed_early: "\<exists>s t. tp_init s \<and> tp_step\<^sup>*\<^sup>* s t \<and> Worker new_worker \<in> set (actors t) \<and> worker_step time n (shared t) new_worker = None"
proof -
  obtain t where t: "schedule (replicate 8 (Act 0 0 True None) @ Act 0 0 False None # replicate 4 (Act 0 0 True None)) (one_pool 2) = Some t"
    "\<not> tp_live (shared t)" "actors t = [Client (CRet AMRC_ERROR), Worker new_worker]"
    using early_run by (auto simp: map_option_eq_Some)
  then have "worker_step time n (shared t) new_worker = None" by (simp add: worker_step_def c_assert_def)
  then show ?thesis using demo_init [of 2] schedule_steps [OF t(1)] t(3) by (intro exI [of _ "one_pool 2"] exI [of _ t]) simp
qed

section \<open>Properties\<close>

text \<open>A task that is run by the worker.\<close>

lemma task_run:
  "map_option (\<lambda>s. (tp_live (shared s), failed s, length (actors s), phase s, runs (shared s), sum_of c_active s))
     (schedule (start_one @ replicate 3 (Work 1 0 0) @ run_one 9 @ replicate 5 (Work 1 0 0)) (one_pool 1)) =
   Some (True, 0, 2, Open, [(7, None, None)], 1)"
  by code_simp

lemma task_run_state: "\<exists>t. tp_step\<^sup>*\<^sup>* (one_pool 1) t \<and> tp_live (shared t) \<and> failed t = 0 \<and> length (actors t) = 2 \<and> phase t = Open \<and>
    runs (shared t) = [(7, None, None)] \<and> sum_of c_active t = 1"
proof -
  obtain t where "schedule (start_one @ replicate 3 (Work 1 0 0) @ run_one 9 @ replicate 5 (Work 1 0 0)) (one_pool 1) = Some t"
    "tp_live (shared t)" "failed t = 0" "length (actors t) = 2" "phase t = Open" "runs (shared t) = [(7, None, None)]"
    "sum_of c_active t = 1"
    using task_run by (auto simp: map_option_eq_Some simp del: length_0_conv)
  with schedule_steps show ?thesis by blast
qed




text \<open>
  C8. Under any interleaving of workers and clients the calls that were accepted are exactly those made so far and those of tasks that
  are queued or held by a worker that is still to run them: no call is made that was not accepted, and none is made twice.
  The block of a task that is queued or held is live and has one owner.
\<close>

theorem tp_runs_once:
  assumes "tp_init s" and "tp_step\<^sup>*\<^sup>* s t"
  shows "accepted t = mset (runs (shared t)) +
      image_mset (\<lambda>b. call_of (the (task_mem (shared t) b))) (mset (tasks_queue (tp (shared t))) + sum_of carries t) \<and>
    (\<forall>b. count (mset (tasks_queue (tp (shared t))) + sum_of carries t + sum_of holds t) b \<le>
       (if task_mem (shared t) b = None then 0 else 1))"
proof
  show "accepted t = mset (runs (shared t)) +
      image_mset (\<lambda>b. call_of (the (task_mem (shared t) b))) (mset (tasks_queue (tp (shared t))) + sum_of carries t)"
    using tps.reachable_balance [OF assms] by (simp add: waiting_def calls_of_def carried_def)
  show "\<forall>b. count (mset (tasks_queue (tp (shared t))) + sum_of carries t + sum_of holds t) b \<le>
       (if task_mem (shared t) b = None then 0 else 1)"
    using tps.reachable_inv [OF assms] unfolding tp_inv_def tasks_ok_def owned_once_def carried_def by blast
qed

theorem tp_runs_once_witness:
  "\<exists>t. tp_step\<^sup>*\<^sup>* (one_pool 1) t \<and> runs (shared t) = [(7, None, None)] \<and>
    accepted t = {#(7, None, None)#} +
      image_mset (\<lambda>b. call_of (the (task_mem (shared t) b))) (mset (tasks_queue (tp (shared t))) + sum_of carries t)"
proof -
  obtain t where t: "tp_step\<^sup>*\<^sup>* (one_pool 1) t" "runs (shared t) = [(7, None, None)]" using task_run_state by blast
  show ?thesis using tp_runs_once [OF demo_init t(1)] t by (intro exI [of _ t]) simp
qed

text \<open>
  C39. What the counters count, under any interleaving: active threads are the workers between their first and last steps; the counter of created
  threads is the number of workers, of the starts that are still pending and of the failed calls of \<^verbatim>\<open>pthread_create\<close>, which it counts too;
  destroyed threads are the workers that are done; and, while fewer than \<open>2 ^ 64 - 1\<close> calls of tasks were made, idle threads are the workers
  without a task at hand.
\<close>

theorem tp_counters_exact:
  assumes "tp_init s" and "tp_step\<^sup>*\<^sup>* s t"
  shows "lam_thread_pool_get_thread_count (tp (shared t)) = of_nat (sum_of c_active t) \<and>
    threads_destroyed (tp (shared t)) = of_nat (sum_of c_done t) \<and>
    threads_created (tp (shared t)) = of_nat (sum_of c_made t + failed t) \<and>
    (length (runs (shared t)) < 2 ^ 64 - 1 \<longrightarrow>
       lam_thread_pool_get_idle_thread_count (tp (shared t)) = of_nat (sum_of c_idle t))"
  using tps.reachable_inv [OF assms]
  unfolding tp_inv_def counters_ok_def idle_ok_def lam_thread_pool_get_thread_count_def lam_thread_pool_get_idle_thread_count_def
  by blast

theorem tp_counters_exact_witness:
  "\<exists>t. tp_step\<^sup>*\<^sup>* (one_pool 1) t \<and> lam_thread_pool_get_thread_count (tp (shared t)) = 1 \<and>
    threads_created (tp (shared t)) = of_nat (sum_of c_made t) \<and>
    lam_thread_pool_get_idle_thread_count (tp (shared t)) = of_nat (sum_of c_idle t)"
proof -
  obtain t where t: "tp_step\<^sup>*\<^sup>* (one_pool 1) t" "runs (shared t) = [(7, None, None)]" "sum_of c_active t = 1" "failed t = 0"
    using task_run_state by blast
  show ?thesis using tp_counters_exact [OF demo_init t(1)] t by (intro exI [of _ t]) simp
qed







end
