(* ===== verification/AmFd.thy ===== *)
theory AmFd
  imports Prelude
begin

text \<open>
  Files and sockets, \<^verbatim>\<open>libam_fdopers.c\<close>. The kernel is a parameter: its answer to a system call is a function of the calls and
  answers so far, which are the state of the functions here. The messages are compiled out.
\<close>

section \<open>The kernel\<close>

type_synonym u16 = "16 word"
type_synonym i32 = "32 word"

text \<open>
  The union \<^verbatim>\<open>amskt_addr\<close>: family and port are at the same place in \<^verbatim>\<open>s4\<close> and \<^verbatim>\<open>s6\<close>, the 124 bytes behind them are
  \<open>sa_rest\<close>: \<^verbatim>\<open>sin_addr\<close> is at its beginning, \<^verbatim>\<open>sin6_addr\<close> behind the four bytes of \<^verbatim>\<open>sin6_flowinfo\<close>. The port is the number
  that is stored, on a little-endian machine.
\<close>

record amskt_addr =
  sa_family :: u16
  sa_port :: u16
  sa_rest :: "u8 list"

definition AF_UNSPEC :: u16 where "AF_UNSPEC = 0"
definition AF_INET :: u16 where "AF_INET = 2"
definition AF_INET6 :: u16 where "AF_INET6 = 10"
definition SOCK_STREAM :: int where "SOCK_STREAM = 1"
definition SOCK_DGRAM :: int where "SOCK_DGRAM = 2"

definition SIZEOF_SOCKADDR :: nat where "SIZEOF_SOCKADDR = 16"
definition SIZEOF_ADDR :: nat where "SIZEOF_ADDR = 128"

definition stored :: "nat \<Rightarrow> 'a list \<Rightarrow> 'a list \<Rightarrow> 'a list" where
  "stored at d buf = take at buf @ d @ drop (at + length d) buf"

definition sin_addr :: "amskt_addr \<Rightarrow> u8 list" where "sin_addr a = take 4 (sa_rest a)"
definition sin6_addr :: "amskt_addr \<Rightarrow> u8 list" where "sin6_addr a = take 16 (drop 4 (sa_rest a))"
definition set_sin_addr :: "u8 list \<Rightarrow> amskt_addr \<Rightarrow> amskt_addr" where
  "set_sin_addr b a = a\<lparr>sa_rest := stored 0 b (sa_rest a)\<rparr>"
definition set_sin6_addr :: "u8 list \<Rightarrow> amskt_addr \<Rightarrow> amskt_addr" where
  "set_sin6_addr b a = a\<lparr>sa_rest := stored 4 b (sa_rest a)\<rparr>"

definition zero_addr :: amskt_addr where
  "zero_addr = \<lparr>sa_family = AF_UNSPEC, sa_port = 0, sa_rest = replicate 124 0\<rparr>"

text \<open>\<^verbatim>\<open>memcpy\<close> of the first \<open>n\<close> bytes, at least family and port.\<close>

definition copy_addr :: "nat \<Rightarrow> amskt_addr \<Rightarrow> amskt_addr \<Rightarrow> amskt_addr" where
  "copy_addr n src dst = \<lparr>sa_family = sa_family src, sa_port = sa_port src, sa_rest = stored 0 (take (n - 4) (sa_rest src)) (sa_rest dst)\<rparr>"

definition htons :: "u16 \<Rightarrow> u16" where
  "htons p = push_bit 8 p OR drop_bit 8 p"

record addrinfo =
  ai_family :: int
  ai_socktype :: int
  ai_protocol :: int
  ai_addr :: amskt_addr
  ai_addrlen :: nat

datatype skt_option = SO_REUSEADDR | SO_REUSEPORT

datatype syscall =
    Open string nat | Lseek int int nat | Read int nat | Write int "u8 list" | Close int
  | Socket int int int | Setsockopt int skt_option | Bind int amskt_addr nat | Listen int nat | Connect int amskt_addr nat
  | Accept int bool | Getsockname int nat | Getpeername int nat | Fcntl_getfl int | Fcntl_setfl int i32
  | Sendto int "u8 list" "amskt_addr option" nat | Recvfrom int nat bool
  | Getaddrinfo "string option" int int nat | Freeaddrinfo

text \<open>What a call gives: the result, \<^verbatim>\<open>errno\<close>, bytes that are stored, an address that is stored, a list of addresses.\<close>

record answer =
  ret :: int
  errno :: nat
  data :: "u8 list"
  peer :: "amskt_addr option"
  infos :: "addrinfo list"

type_synonym history = "(syscall \<times> answer) list"
type_synonym kernel = "history \<Rightarrow> syscall \<Rightarrow> answer"

definition sys :: "kernel \<Rightarrow> syscall \<Rightarrow> history \<Rightarrow> answer \<times> history" where
  "sys K c h = (let a = K h c in (a, h @ [(c, a)]))"

text \<open>The conversion to \<^verbatim>\<open>int\<close>.\<close>

definition c_int :: "int \<Rightarrow> int" where "c_int x = sint (word_of_int x :: i32)"

section \<open>Files\<close>

definition amfd_write :: "kernel \<Rightarrow> int \<Rightarrow> u8 list \<Rightarrow> u32 \<Rightarrow> history \<Rightarrow> (amrc \<times> history) option" where
  "amfd_write K fd buf len h =
     do { c_assert (unat len \<le> length buf);
          let (a, h) = sys K (Write fd (take (unat len) buf)) h;
          Some (if ret a = sint len then AMRC_SUCCESS else AMRC_ERROR, h) }"

text \<open>The loop, with the number of bytes stored so far.\<close>

partial_function (option) read_loop ::
    "kernel \<Rightarrow> int \<Rightarrow> u8 list \<Rightarrow> nat \<Rightarrow> u32 \<Rightarrow> history \<Rightarrow> (amrc \<times> u8 list \<times> history) option" where
  "read_loop K fd buf at len h =
     (if len = 0 then Some (AMRC_SUCCESS, buf, h)
      else do { c_assert (at + unat len \<le> length buf);
                let (a, h) = sys K (Read fd (unat len)) h;
                let buf = stored at (data a) buf;
                let r = c_int (ret a);
                if r < 0 then Some (AMRC_ERROR, buf, h)
                else if r = 0 then Some (AMRC_ERROR, buf, h)
                else read_loop K fd buf (at + nat r) (len - word_of_int r) h })"

declare read_loop.simps [code]

definition amfd_read :: "kernel \<Rightarrow> int \<Rightarrow> u8 list \<Rightarrow> u32 \<Rightarrow> history \<Rightarrow> (amrc \<times> u8 list \<times> history) option" where
  "amfd_read K fd buf olen h = read_loop K fd buf 0 olen h"

definition O_RDONLY :: nat where "O_RDONLY = 0"
definition O_WRONLY_TRUNC_CREAT :: nat where "O_WRONLY_TRUNC_CREAT = 0x241"
definition SEEK_SET :: nat where "SEEK_SET = 0"
definition SEEK_END :: nat where "SEEK_END = 2"

definition amfile_write :: "kernel \<Rightarrow> string \<Rightarrow> u8 list \<Rightarrow> u32 \<Rightarrow> history \<Rightarrow> history option" where
  "amfile_write K filename buf len h =
     (let (a, h) = sys K (Open filename O_WRONLY_TRUNC_CREAT) h; fd = ret a
      in if fd < 0 then Some h
         else do { (rc, h) \<leftarrow> amfd_write K fd buf len h; Some (snd (sys K (Close fd) h)) })"

text \<open>
  The result is the block, its content and the length stored; \<open>junk\<close> is what a block from \<^verbatim>\<open>malloc\<close> contains. The second test of
  \<^verbatim>\<open>file_size\<close> is the source's.
\<close>

definition amfile_read :: "kernel \<Rightarrow> allocator \<Rightarrow> (nat \<Rightarrow> u8) \<Rightarrow> string \<Rightarrow> history \<Rightarrow> heap \<Rightarrow>
    ((addr \<times> u8 list \<times> u32) option \<times> history \<times> heap) option" where
  "amfile_read K alloc junk filename h hp =
     (let (a, h) = sys K (Open filename O_RDONLY) h; fd = ret a
      in if fd < 0 then Some (None, h, hp)
         else
           (let (a, h) = sys K (Lseek fd 0 SEEK_END) h; file_size = ret a
            in if file_size = -1 then Some (None, h, hp)
               else
                 (let (a, h) = sys K (Lseek fd 0 SEEK_SET) h
                  in if file_size = -1 then Some (None, h, hp)
                     else
                       (case malloc alloc (word_of_int file_size) hp of
                          (None, hp) \<Rightarrow> Some (None, h, hp)
                        | (Some p, hp) \<Rightarrow>
                            do { (rc, buf, h) \<leftarrow> amfd_read K fd (map junk [0 ..< nat file_size]) (word_of_int file_size) h;
                                 let h = snd (sys K (Close fd) h);
                                 if rc \<noteq> AMRC_SUCCESS then do { hp \<leftarrow> free_block (Some p) hp; Some (None, h, hp) }
                                 else Some (Some (p, buf, word_of_int file_size), h, hp) }))))"

section \<open>Stream sockets\<close>

definition fail_close :: "kernel \<Rightarrow> int \<Rightarrow> history \<Rightarrow> amrc \<times> int option \<times> history" where
  "fail_close K skt h = (AMRC_ERROR, None, if skt \<ge> 0 then snd (sys K (Close skt) h) else h)"

text \<open>The second component is what is stored to \<^verbatim>\<open>*fd\<close>. The address passed to \<^verbatim>\<open>bind\<close> has \<^verbatim>\<open>sizeof(struct sockaddr)\<close> bytes.\<close>

definition amskt_listen :: "kernel \<Rightarrow> amskt_addr \<Rightarrow> history \<Rightarrow> amrc \<times> int option \<times> history" where
  "amskt_listen K addr0 h =
     (if sa_family addr0 \<noteq> AF_INET \<and> sa_family addr0 \<noteq> AF_INET6 then fail_close K (-1) h
      else
        (let (a, h) = sys K (Socket (uint (sa_family addr0)) SOCK_STREAM 0) h; skt = ret a
         in if skt = -1 then fail_close K skt h
            else
              (let (a, h) = sys K (Setsockopt skt SO_REUSEADDR) h
               in if ret a \<noteq> 0 then fail_close K skt h
                  else
                    (let (a, h) = sys K (Setsockopt skt SO_REUSEPORT) h
                     in if ret a \<noteq> 0 then fail_close K skt h
                        else
                          (let addr = (if sa_family addr0 = AF_INET then set_sin_addr (replicate 4 0) addr0
                                       else set_sin6_addr (replicate 16 0) addr0);
                               (a, h) = sys K (Bind skt addr SIZEOF_SOCKADDR) h
                           in if ret a \<noteq> 0 then fail_close K skt h
                              else
                                (let (a, h) = sys K (Listen skt 5) h
                                 in if ret a \<noteq> 0 then fail_close K skt h
                                    else (AMRC_SUCCESS, Some skt, h)))))))"

definition amskt_connect :: "kernel \<Rightarrow> amskt_addr \<Rightarrow> history \<Rightarrow> amrc \<times> int option \<times> history" where
  "amskt_connect K addr0 h =
     (if sa_family addr0 \<noteq> AF_INET \<and> sa_family addr0 \<noteq> AF_INET6 then (AMRC_ERROR, None, h)
      else
        (let (a, h) = sys K (Socket (uint (sa_family addr0)) SOCK_STREAM 0) h; fd = ret a
         in if fd < 0 then (AMRC_ERROR, None, h)
            else
              (let (a, h) = sys K (Connect fd addr0 SIZEOF_SOCKADDR) h
               in if ret a \<noteq> 0 then (AMRC_ERROR, None, h) else (AMRC_SUCCESS, Some fd, h))))"

definition amskt_disconnect :: "kernel \<Rightarrow> int \<Rightarrow> history \<Rightarrow> int \<times> history" where
  "amskt_disconnect K fd h = (-1, snd (sys K (Close fd) h))"

section \<open>Addresses\<close>

definition reset_addr :: "amrc \<times> amskt_addr" where
  "reset_addr = (AMRC_ERROR, zero_addr\<lparr>sa_family := AF_UNSPEC\<rparr>)"

definition amskt_port2addr :: "u16 \<Rightarrow> u16 \<Rightarrow> amskt_addr option \<Rightarrow> (amrc \<times> amskt_addr) option" where
  "amskt_port2addr fam port p =
     do { a \<leftarrow> p;
          Some (if fam = AF_INET then
                  (if sa_family a \<noteq> AF_INET \<and> sa_family a \<noteq> AF_UNSPEC then reset_addr
                   else (AMRC_SUCCESS, a\<lparr>sa_family := AF_INET, sa_port := htons port\<rparr>))
                else if fam = AF_INET6 then
                  (if sa_family a \<noteq> AF_INET6 \<and> sa_family a \<noteq> AF_UNSPEC then reset_addr
                   else (AMRC_SUCCESS, a\<lparr>sa_family := AF_INET6, sa_port := htons port\<rparr>))
                else reset_addr) }"

text \<open>The conversions of the C library between addresses and text.\<close>

record net =
  pton4 :: "string \<Rightarrow> u8 list option"
  pton6 :: "string \<Rightarrow> u8 list option"
  ntop4 :: "u8 list \<Rightarrow> string"
  ntop6 :: "u8 list \<Rightarrow> string"

definition amskt_str2addr :: "net \<Rightarrow> string \<Rightarrow> u16 \<Rightarrow> amskt_addr option \<Rightarrow> (amrc \<times> amskt_addr) option" where
  "amskt_str2addr N str port p =
     do { a \<leftarrow> p;
          Some (case pton4 N str of
                  Some b \<Rightarrow> (AMRC_SUCCESS, (set_sin_addr b a)\<lparr>sa_family := AF_INET, sa_port := htons port\<rparr>)
                | None \<Rightarrow>
                    (case pton6 N str of
                       Some b \<Rightarrow> (AMRC_SUCCESS, (set_sin6_addr b a)\<lparr>sa_family := AF_INET6, sa_port := htons port\<rparr>)
                     | None \<Rightarrow> reset_addr)) }"

definition amskt_addr_set_port :: "amskt_addr option \<Rightarrow> u16 \<Rightarrow> u16 \<Rightarrow> amrc \<times> amskt_addr option" where
  "amskt_addr_set_port p family port =
     (case p of
        None \<Rightarrow> (AMRC_ERROR, None)
      | Some a \<Rightarrow>
          if family \<noteq> AF_UNSPEC \<and> family \<noteq> AF_INET \<and> family \<noteq> AF_INET6 then (AMRC_ERROR, Some a)
          else if family = AF_UNSPEC \<and> sa_family a \<noteq> AF_INET \<and> sa_family a \<noteq> AF_INET6 then (AMRC_ERROR, Some a)
          else
            (let a = (if sa_family a = AF_UNSPEC \<and> family \<noteq> AF_UNSPEC then zero_addr\<lparr>sa_family := family\<rparr> else a)
             in if family \<noteq> AF_UNSPEC \<and> family \<noteq> sa_family a then (AMRC_ERROR, Some a)
                else if sa_family a = AF_INET then (AMRC_SUCCESS, Some (a\<lparr>sa_port := port\<rparr>))
                else if sa_family a = AF_INET6 then (AMRC_SUCCESS, Some (a\<lparr>sa_port := port\<rparr>))
                else (AMRC_ERROR, Some a)))"

definition schar :: "char \<Rightarrow> int" where
  "schar c = (if of_char c < (128 :: int) then of_char c else of_char c - 256)"

definition tolower :: "int \<Rightarrow> int" where
  "tolower n = (if 65 \<le> n \<and> n \<le> 90 then n + 32 else n)"

text \<open>The character at the front of a C string, 0 at its end.\<close>

definition front :: "string \<Rightarrow> int" where
  "front s = (case s of [] \<Rightarrow> 0 | c # _ \<Rightarrow> schar c)"

fun strnicmp_loop :: "string \<Rightarrow> string \<Rightarrow> nat \<Rightarrow> int \<Rightarrow> int" where
  "strnicmp_loop s1 s2 0 diff = diff"
| "strnicmp_loop s1 s2 (Suc n) diff =
     (let diff = tolower (front s1) - tolower (front s2)
      in if diff \<noteq> 0 \<or> front s1 = 0 then diff else strnicmp_loop (tl s1) (tl s2) n diff)"

text \<open>The difference of \<^verbatim>\<open>NULL\<close> and a pointer to an object is undefined.\<close>

definition strnicmp :: "string option \<Rightarrow> string option \<Rightarrow> nat \<Rightarrow> int option" where
  "strnicmp s1 s2 num =
     (case (s1, s2) of
        (None, None) \<Rightarrow> Some 0
      | (Some a, Some b) \<Rightarrow> Some (strnicmp_loop a b num 0)
      | _ \<Rightarrow> None)"

text \<open>\<^verbatim>\<open>inet_ntop\<close> stores nothing when the text does not fit.\<close>

definition inet_ntop :: "string \<Rightarrow> string \<Rightarrow> nat \<Rightarrow> string" where
  "inet_ntop s out n = (if length s < n then stored 0 (s @ [NUL]) out else out)"

definition ip_text :: "net \<Rightarrow> amskt_addr \<Rightarrow> string" where
  "ip_text N a = (if sa_family a = AF_INET then ntop4 N (sin_addr a) else ntop6 N (sin6_addr a))"

definition INET6_ADDRSTRLEN :: nat where "INET6_ADDRSTRLEN = 46"

text \<open>The output buffer \<open>out\<close> is \<open>None\<close> for \<^verbatim>\<open>NULL\<close>; a buffer shorter than \<^verbatim>\<open>out_len\<close> is undefined.\<close>

definition out_check :: "amskt_addr option \<Rightarrow> string option \<Rightarrow> u32 \<Rightarrow> (amrc \<times> string option) option \<Rightarrow> (amrc \<times> string option) option" where
  "out_check p out out_len r =
     (if p = None \<or> out = None \<or> out_len = 0 then Some (AMRC_ERROR, out)
      else if sa_family (the p) \<noteq> AF_INET \<and> sa_family (the p) \<noteq> AF_INET6 then Some (AMRC_ERROR, out)
      else do { c_assert (unat out_len \<le> length (the out)); r })"

definition amskt_addr_to_ipstr :: "net \<Rightarrow> amskt_addr option \<Rightarrow> string option \<Rightarrow> u32 \<Rightarrow> (amrc \<times> string option) option" where
  "amskt_addr_to_ipstr N p out out_len =
     out_check p out out_len
       (Some (AMRC_SUCCESS, Some ((inet_ntop (ip_text N (the p)) (the out) (unat out_len))[unat out_len - 1 := NUL])))"

definition amskt_addr_to_portstr :: "amskt_addr option \<Rightarrow> string option \<Rightarrow> u32 \<Rightarrow> (amrc \<times> string option) option" where
  "amskt_addr_to_portstr p out out_len =
     out_check p out out_len
       (do { out \<leftarrow> snprintf (the out) (unat out_len) (dec (unat (sa_port (the p))));
             Some (AMRC_SUCCESS, Some (out[unat out_len - 1 := NUL])) })"

text \<open>\<open>junk\<close> is the local buffer for the address before it is written.\<close>

definition amskt_addr_to_str :: "net \<Rightarrow> string \<Rightarrow> amskt_addr option \<Rightarrow> string option \<Rightarrow> u32 \<Rightarrow> (amrc \<times> string option) option" where
  "amskt_addr_to_str N junk p out out_len =
     out_check p out out_len
       (do { let ipstr = (inet_ntop (ip_text N (the p)) junk INET6_ADDRSTRLEN)[INET6_ADDRSTRLEN - 1 := NUL];
             out \<leftarrow> snprintf (the out) (unat out_len) (cstring ipstr @ '':'' @ dec (unat (sa_port (the p))));
             Some (AMRC_SUCCESS, Some (out[unat out_len - 1 := NUL])) })"

definition amskt_addr_to_port :: "amskt_addr option \<Rightarrow> u16" where
  "amskt_addr_to_port p =
     (case p of
        None \<Rightarrow> 0
      | Some a \<Rightarrow> if sa_family a = AF_INET then sa_port a else if sa_family a = AF_INET6 then sa_port a else 0)"

section \<open>Resolving\<close>

definition AI_PASSIVE :: nat where "AI_PASSIVE = 1"
definition AI_NUMERICHOST :: nat where "AI_NUMERICHOST = 4"
definition AI_NUMERICSERV :: nat where "AI_NUMERICSERV = 0x400"

definition free_infos :: "kernel \<Rightarrow> addrinfo list \<Rightarrow> history \<Rightarrow> history" where
  "free_infos K is h = (if is = [] then h else snd (sys K Freeaddrinfo h))"

text \<open>The first address with a supported family, with its port replaced.\<close>

fun first_info :: "u16 \<Rightarrow> addrinfo list \<Rightarrow> amskt_addr \<Rightarrow> amrc \<times> amskt_addr" where
  "first_info port [] out = (AMRC_ERROR, out)"
| "first_info port (i # is) out =
     (if sa_family (ai_addr i) = AF_INET \<or> sa_family (ai_addr i) = AF_INET6
      then (AMRC_SUCCESS, copy_addr (ai_addrlen i) ((ai_addr i)\<lparr>sa_port := port\<rparr>) out)
      else first_info port is out)"

definition amskt_query_to_addr :: "kernel \<Rightarrow> string option \<Rightarrow> u16 \<Rightarrow> amskt_addr \<Rightarrow> history \<Rightarrow> amrc \<times> amskt_addr \<times> history" where
  "amskt_query_to_addr K addr0 port out h =
     (if addr0 = None \<or> addr0 = Some [] then (AMRC_ERROR, out, h)
      else if port = 0 then (AMRC_ERROR, out, h)
      else
        (let (a, h) = sys K (Getaddrinfo addr0 (uint AF_UNSPEC) 0 AI_NUMERICSERV) h
         in if ret a \<noteq> 0 then (AMRC_ERROR, out, h)
            else (let (rc, out) = first_info port (infos a) out in (rc, out, free_infos K (infos a) h))))"

text \<open>The kernel stores at most as many bytes of the address as it is told, \<^verbatim>\<open>sizeof(struct sockaddr)\<close> everywhere.\<close>

definition store_peer :: "answer \<Rightarrow> amskt_addr option \<Rightarrow> amskt_addr option" where
  "store_peer a out = (case peer a of None \<Rightarrow> out | Some p \<Rightarrow> map_option (copy_addr SIZEOF_SOCKADDR p) out)"

definition amskt_local_to_addr :: "kernel \<Rightarrow> int \<Rightarrow> amskt_addr option \<Rightarrow> history \<Rightarrow> amrc \<times> amskt_addr option \<times> history" where
  "amskt_local_to_addr K skt out h =
     (case out of
        None \<Rightarrow> (AMRC_ERROR, None, h)
      | Some _ \<Rightarrow>
          if skt < 0 then (AMRC_ERROR, out, h)
          else
            (let (a, h) = sys K (Getsockname skt SIZEOF_SOCKADDR) h
             in if ret a \<noteq> 0 then (AMRC_ERROR, out, h) else (AMRC_SUCCESS, store_peer a out, h)))"

definition amskt_remote_to_addr :: "kernel \<Rightarrow> int \<Rightarrow> amskt_addr option \<Rightarrow> history \<Rightarrow> amrc \<times> amskt_addr option \<times> history" where
  "amskt_remote_to_addr K skt out h =
     (case out of
        None \<Rightarrow> (AMRC_ERROR, None, h)
      | Some _ \<Rightarrow>
          if skt < 0 then (AMRC_ERROR, out, h)
          else
            (let (a, h) = sys K (Getpeername skt SIZEOF_SOCKADDR) h
             in if ret a \<noteq> 0 then (AMRC_ERROR, out, h) else (AMRC_SUCCESS, store_peer a out, h)))"

section \<open>Server and client sockets\<close>

definition with_port :: "u16 \<Rightarrow> addrinfo \<Rightarrow> amskt_addr" where
  "with_port port i = (ai_addr i)\<lparr>sa_port := port\<rparr>"

text \<open>A server socket is made ready.\<close>

definition prepare_server :: "kernel \<Rightarrow> u16 \<Rightarrow> addrinfo \<Rightarrow> int \<Rightarrow> history \<Rightarrow> bool \<times> history" where
  "prepare_server K port i skt h =
     (let (a, h) = sys K (Setsockopt skt SO_REUSEADDR) h
      in if ret a \<noteq> 0 then (False, h)
         else
           (let (a, h) = sys K (Setsockopt skt SO_REUSEPORT) h
            in if ret a \<noteq> 0 then (False, h)
               else
                 (let (a, h) = sys K (Bind skt (with_port port i) (ai_addrlen i)) h
                  in if ret a = -1 then (False, h)
                     else if ai_socktype i \<noteq> SOCK_DGRAM then
                       (let (a, h) = sys K (Listen skt 15) h in (ret a \<noteq> -1, h))
                     else (True, h))))"

definition prepare_client :: "kernel \<Rightarrow> u16 \<Rightarrow> addrinfo \<Rightarrow> int \<Rightarrow> history \<Rightarrow> bool \<times> history" where
  "prepare_client K port i skt h =
     (let (a, h) = sys K (Connect skt (with_port port i) (ai_addrlen i)) h in (ret a \<noteq> -1, h))"

text \<open>The loop over the addresses: the first one that works is taken.\<close>

fun try_infos :: "kernel \<Rightarrow> (addrinfo \<Rightarrow> int \<Rightarrow> history \<Rightarrow> bool \<times> history) \<Rightarrow> addrinfo list \<Rightarrow> history \<Rightarrow> int \<times> history" where
  "try_infos K prep [] h = (-1, h)"
| "try_infos K prep (i # is) h =
     (let (a, h) = sys K (Socket (ai_family i) (ai_socktype i) (ai_protocol i)) h; skt = ret a
      in if skt < 0 then try_infos K prep is h
         else
           (let (ok, h) = prep i skt h
            in if ok then (skt, h) else try_infos K prep is (snd (sys K (Close skt) h))))"

definition valid_kind :: "int \<Rightarrow> int \<Rightarrow> bool" where
  "valid_kind family kind \<longleftrightarrow>
     (family = uint AF_UNSPEC \<or> family = uint AF_INET \<or> family = uint AF_INET6) \<and> (kind = SOCK_STREAM \<or> kind = SOCK_DGRAM)"

definition amskt_get_server_socket :: "kernel \<Rightarrow> int \<Rightarrow> int \<Rightarrow> string option \<Rightarrow> u16 \<Rightarrow> history \<Rightarrow> (int \<times> history) option" where
  "amskt_get_server_socket K family kind addr0 port h =
     (if \<not> valid_kind family kind then Some (-1, h)
      else
        do { d \<leftarrow> strnicmp (Some ''ANY'') addr0 4;
             let node = (if d = 0 then None else addr0);
             let (a, h) = sys K (Getaddrinfo node family kind (AI_PASSIVE + AI_NUMERICHOST + AI_NUMERICSERV)) h;
             if ret a \<noteq> 0 then Some (-1, h)
             else (let (skt, h) = try_infos K (prepare_server K port) (infos a) h in Some (skt, free_infos K (infos a) h)) })"

definition amskt_get_client_socket :: "kernel \<Rightarrow> int \<Rightarrow> int \<Rightarrow> string option \<Rightarrow> u16 \<Rightarrow> history \<Rightarrow> int \<times> history" where
  "amskt_get_client_socket K family kind addr0 port h =
     (if \<not> valid_kind family kind then (-1, h)
      else if addr0 = None \<or> addr0 = Some [] then (-1, h)
      else if port = 0 then (-1, h)
      else
        (let (a, h) = sys K (Getaddrinfo addr0 family kind AI_NUMERICSERV) h
         in if ret a \<noteq> 0 then (-1, h)
            else (let (skt, h) = try_infos K (prepare_client K port) (infos a) h in (skt, free_infos K (infos a) h))))"

section \<open>Blocking, accepting\<close>

definition O_NONBLOCK :: i32 where "O_NONBLOCK = 0x800"

definition amskt_set_blocking :: "kernel \<Rightarrow> int \<Rightarrow> bool \<Rightarrow> history \<Rightarrow> amrc \<times> history" where
  "amskt_set_blocking K skt should_block h =
     (if skt < 0 then (AMRC_ERROR, h)
      else
        (let (a, h) = sys K (Fcntl_getfl skt) h
         in if ret a < 0 then (AMRC_ERROR, h)
            else
              (let f = word_of_int (ret a);
                   (a, h) = sys K (Fcntl_setfl skt (if should_block then f AND NOT O_NONBLOCK else f OR O_NONBLOCK)) h
               in (if ret a \<noteq> 0 then AMRC_ERROR else AMRC_SUCCESS, h))))"

text \<open>\<open>client\<close> is whether a place for the socket is given; the results are what is stored there and the remote address.\<close>

definition amskt_accept :: "kernel \<Rightarrow> int \<Rightarrow> bool \<Rightarrow> amskt_addr option \<Rightarrow> history \<Rightarrow>
    amrc \<times> int option \<times> amskt_addr option \<times> history" where
  "amskt_accept K server client remote h =
     (if \<not> client then (AMRC_ERROR, None, remote, h)
      else
        (let (a, h) = sys K (Accept server (remote \<noteq> None)) h
         in if ret a = -1 then (AMRC_ERROR, Some (-1), remote, h)
            else (AMRC_SUCCESS, Some (ret a), store_peer a remote, h)))"

section \<open>Sending and receiving\<close>

definition AMSKT_IGNORE_WOULDBLOCK :: u32 where "AMSKT_IGNORE_WOULDBLOCK = 1"
definition AMSKT_IGNORE_INTER :: u32 where "AMSKT_IGNORE_INTER = 2"
definition AMSKT_IGNORE_PACKET :: u32 where "AMSKT_IGNORE_PACKET = 4"

definition EINTR :: nat where "EINTR = 4"
definition EAGAIN :: nat where "EAGAIN = 11"

text \<open>Whether the loop goes on after a failure; \<^verbatim>\<open>EWOULDBLOCK\<close> is \<^verbatim>\<open>EAGAIN\<close> here.\<close>

definition ignored :: "u32 \<Rightarrow> answer \<Rightarrow> bool" where
  "ignored ignore a \<longleftrightarrow>
     errno a = EAGAIN \<and> ignore AND AMSKT_IGNORE_WOULDBLOCK \<noteq> 0 \<or> errno a = EINTR \<and> ignore AND AMSKT_IGNORE_INTER \<noteq> 0"

partial_function (option) send_loop ::
    "kernel \<Rightarrow> int \<Rightarrow> u8 list \<Rightarrow> nat \<Rightarrow> u32 \<Rightarrow> u32 \<Rightarrow> amskt_addr option \<Rightarrow> u32 \<Rightarrow> history \<Rightarrow> (u32 \<times> history) option" where
  "send_loop K skt buf at remaining len remote ignore h =
     (if remaining = 0 then Some (len, h)
      else do { c_assert (at + unat remaining \<le> length buf);
                let (a, h) = sys K (Sendto skt (take (unat remaining) (drop at buf)) remote SIZEOF_ADDR) h;
                let r = c_int (ret a);
                if r \<le> 0 then
                  (if ignored ignore a then send_loop K skt buf at remaining len remote ignore h
                   else Some (len - remaining, h))
                else
                  do { let remaining = remaining - word_of_int r;
                       if ignore AND AMSKT_IGNORE_PACKET = 0 then Some (len - remaining, h)
                       else send_loop K skt buf (at + nat r) remaining len remote ignore h } })"

declare send_loop.simps [code]

definition amskt_send :: "kernel \<Rightarrow> int \<Rightarrow> u8 list \<Rightarrow> u32 \<Rightarrow> amskt_addr option \<Rightarrow> u32 \<Rightarrow> history \<Rightarrow> (u32 \<times> history) option" where
  "amskt_send K skt buf len remote ignore h = send_loop K skt buf 0 len len remote ignore h"

text \<open>The results are the number of bytes, the buffer and the remote address.\<close>

partial_function (option) recv_loop ::
    "kernel \<Rightarrow> int \<Rightarrow> u8 list \<Rightarrow> nat \<Rightarrow> u32 \<Rightarrow> u32 \<Rightarrow> amskt_addr option \<Rightarrow> u32 \<Rightarrow> history \<Rightarrow>
     (u32 \<times> u8 list \<times> amskt_addr option \<times> history) option" where
  "recv_loop K skt buf at remaining len remote ignore h =
     (if remaining = 0 then Some (len, buf, remote, h)
      else do { c_assert (at + unat remaining \<le> length buf);
                let (a, h) = sys K (Recvfrom skt (unat remaining) (remote \<noteq> None)) h;
                let buf = stored at (data a) buf;
                let r = c_int (ret a);
                let remote = (if r < 0 then remote else store_peer a remote);
                if r = 0 then Some (len - remaining, buf, remote, h)
                else if r < 0 then
                  (if ignored ignore a then recv_loop K skt buf at remaining len remote ignore h
                   else Some (len - remaining, buf, remote, h))
                else
                  do { let remaining = remaining - word_of_int r;
                       if ignore AND AMSKT_IGNORE_PACKET = 0 then Some (len - remaining, buf, remote, h)
                       else recv_loop K skt buf (at + nat r) remaining len remote ignore h } })"

declare recv_loop.simps [code]

definition amskt_recv :: "kernel \<Rightarrow> int \<Rightarrow> u8 list \<Rightarrow> u32 \<Rightarrow> amskt_addr option \<Rightarrow> u32 \<Rightarrow> history \<Rightarrow>
    (u32 \<times> u8 list \<times> amskt_addr option \<times> history) option" where
  "amskt_recv K skt buf len remote ignore h = recv_loop K skt buf 0 len len remote ignore h"

end
