(* ===== verification/AmFdProps.thy ===== *)
theory AmFdProps
  imports AmFd
begin

text \<open>
  The properties of files and sockets, under what the manual pages say of the system calls: a read or write transfers no more bytes than
  asked for, a new descriptor is not one that is open.
\<close>

section \<open>What the kernel promises\<close>

definition read_spec :: "kernel \<Rightarrow> bool" where
  "read_spec K \<longleftrightarrow> (\<forall>h d n. let a = K h (Read d n) in -1 \<le> ret a \<and> ret a \<le> int n \<and> ret a < 2 ^ 31 \<and> length (data a) = nat (ret a))"

definition recv_spec :: "kernel \<Rightarrow> bool" where
  "recv_spec K \<longleftrightarrow>
     (\<forall>h d n r. let a = K h (Recvfrom d n r) in -1 \<le> ret a \<and> ret a \<le> int n \<and> ret a < 2 ^ 31 \<and> length (data a) = nat (ret a))"

definition send_spec :: "kernel \<Rightarrow> bool" where
  "send_spec K \<longleftrightarrow> (\<forall>h d b p n. let a = K h (Sendto d b p n) in -1 \<le> ret a \<and> ret a \<le> int (length b) \<and> ret a < 2 ^ 31)"

text \<open>The history after a call was repeated, and that a call is not interrupted for ever.\<close>

fun again :: "kernel \<Rightarrow> syscall \<Rightarrow> nat \<Rightarrow> history \<Rightarrow> history" where
  "again K c 0 h = h"
| "again K c (Suc m) h = again K c m (h @ [(c, K h c)])"

definition patient :: "kernel \<Rightarrow> u32 \<Rightarrow> bool" where
  "patient K ignore \<longleftrightarrow> (\<forall>c h. \<exists>m. let a = K (again K c m h) c in 0 < ret a \<or> \<not> ignored ignore a)"

text \<open>The descriptors that were opened and not closed.\<close>

fun makes_fd :: "syscall \<Rightarrow> bool" where
  "makes_fd (Open f n) = True" | "makes_fd (Socket a b c) = True" | "makes_fd (Accept d r) = True" | "makes_fd _ = False"

fun fds_after :: "syscall \<times> answer \<Rightarrow> int set \<Rightarrow> int set" where
  "fds_after (Close d, a) F = F - {d}"
| "fds_after (c, a) F = (if makes_fd c \<and> 0 \<le> ret a then insert (ret a) F else F)"

definition open_fds :: "history \<Rightarrow> int set" where
  "open_fds h = fold fds_after h {}"

definition fresh_spec :: "kernel \<Rightarrow> bool" where
  "fresh_spec K \<longleftrightarrow> (\<forall>h c. makes_fd c \<longrightarrow> 0 \<le> ret (K h c) \<longrightarrow> ret (K h c) \<notin> open_fds h)"

text \<open>Lists of addresses that were obtained and not freed.\<close>

fun infos_after :: "syscall \<times> answer \<Rightarrow> int \<Rightarrow> int" where
  "infos_after (Getaddrinfo n f k g, a) i = (if ret a = 0 \<and> infos a \<noteq> [] then i + 1 else i)"
| "infos_after (Freeaddrinfo, a) i = i - 1"
| "infos_after (c, a) i = i"

definition open_infos :: "history \<Rightarrow> int" where
  "open_infos h = fold infos_after h 0"

lemma open_simps [simp]:
  "open_fds (h @ cs) = fold fds_after cs (open_fds h)" "open_infos (h @ cs) = fold infos_after cs (open_infos h)"
  by (simp_all add: open_fds_def open_infos_def)

lemma sys_simps [simp]: "sys K c h = (K h c, h @ [(c, K h c)])"
  by (simp add: sys_def Let_def)

text \<open>The next free descriptor, for kernels that are given as examples.\<close>

definition next_fd :: "history \<Rightarrow> int" where
  "next_fd h = foldr (\<lambda>(c, a) m. max m (ret a + 1)) h 3"

lemma open_fds_ret: "d \<in> open_fds h \<Longrightarrow> \<exists>(c, a) \<in> set h. d = ret a"
proof (induction h rule: rev_induct)
  case (snoc x h)
  obtain c a where x: "x = (c, a)" by fastforce
  have "d \<in> fds_after x (open_fds h)" using snoc.prems by simp
  then have "d \<in> open_fds h \<or> d = ret a" unfolding x by (cases c) (auto split: if_splits)
  with snoc.IH x show ?case by auto
qed (simp add: open_fds_def)

lemma next_fd_fresh: "next_fd h \<notin> open_fds h"
proof -
  have "(c, a) \<in> set h \<Longrightarrow> ret a < next_fd h" for c a and h :: history
    by (induction h) (auto simp: next_fd_def)
  then show ?thesis using open_fds_ret by fastforce
qed

section \<open>Words and buffers\<close>

lemma c_int_id: "-1 \<le> x \<Longrightarrow> x < 2 ^ 31 \<Longrightarrow> c_int x = x"
  by (simp add: c_int_def sint_sbintrunc' signed_take_bit_int_eq_self)

lemma c_int_0 [simp]: "c_int 0 = 0"
  by (simp add: c_int_def)

lemma unat_minus_int:
  assumes "0 \<le> r" and "r \<le> int (unat (w :: u32))"
  shows "unat (w - word_of_int r) = unat w - nat r"
proof -
  have "unat w < 2 ^ 32" using unsigned_less [where 'b=32 and 'a=nat and w=w] by simp
  moreover have "nat r \<le> unat w" using assms by (simp add: nat_le_iff)
  ultimately have n: "nat r < 2 ^ 32" by linarith
  have e: "(word_of_int r :: u32) = of_nat (nat r)" using assms(1) by simp
  have u: "unat (of_nat (nat r) :: u32) = nat r" using n by (simp only: unsigned_of_nat) (simp add: take_bit_nat_eq_self)
  have "(of_nat (nat r) :: u32) \<le> w" using u assms by (simp add: word_le_nat_alt nat_le_iff)
  then show ?thesis unfolding e using u by (simp add: unat_sub)
qed

lemma length_stored: "at + length d \<le> length buf \<Longrightarrow> length (stored at d buf) = length buf"
  by (simp add: stored_def)

lemma stored_stored:
  assumes "at + length d + length e \<le> length buf"
  shows "stored (at + length d) e (stored at d buf) = stored at (d @ e) buf"
proof -
  have "take (at + length d) (stored at d buf) = take at buf @ d" using assms by (simp add: stored_def)
  moreover have "drop (at + length d + length e) (stored at d buf) = drop (at + length (d @ e)) buf"
    using assms by (simp add: stored_def ac_simps)
  ultimately show ?thesis by (simp add: stored_def)
qed

lemma stored_Nil [simp]: "at \<le> length buf \<Longrightarrow> stored at [] buf = buf"
  by (simp add: stored_def)

section \<open>Reading\<close>

definition received :: "history \<Rightarrow> u8 list" where
  "received cs = concat (map (\<lambda>(c, a). data a) cs)"

lemma received_simps [simp]: "received [] = []" "received ((c, a) # cs) = data a @ received cs"
  by (simp_all add: received_def)

definition reads_of :: "int \<Rightarrow> history \<Rightarrow> bool" where
  "reads_of fd cs \<longleftrightarrow> (\<forall>c \<in> set cs. \<exists>n. fst c = Read fd n)"

lemma read_loop_correct:
  assumes K: "read_spec K"
  shows "at + unat len \<le> length buf \<Longrightarrow>
    \<exists>rc cs. read_loop K fd buf at len h = Some (rc, stored at (received cs) buf, h @ cs) \<and> reads_of fd cs \<and>
      length (received cs) \<le> unat len \<and> (rc = AMRC_SUCCESS \<longleftrightarrow> length (received cs) = unat len) \<and>
      (rc \<noteq> AMRC_SUCCESS \<longrightarrow> cs \<noteq> [] \<and> ret (snd (last cs)) \<le> 0)"
proof (induction "unat len" arbitrary: at len buf h rule: less_induct)
  case less
  show ?case
  proof (cases "len = 0")
    case True
    then show ?thesis using less.prems
      by (intro exI [of _ AMRC_SUCCESS] exI [of _ "[]"]) (simp add: read_loop.simps reads_of_def)
  next
    case False
    let ?c = "Read fd (unat len)" let ?a = "K h ?c"
    have a: "-1 \<le> ret ?a" "ret ?a \<le> int (unat len)" "ret ?a < 2 ^ 31" "length (data ?a) = nat (ret ?a)"
      using K unfolding read_spec_def Let_def by blast+
    have ci: "c_int (ret ?a) = ret ?a" by (rule c_int_id [OF a(1,3)])
    have run: "read_loop K fd buf at len h =
        (if ret ?a \<le> 0 then Some (AMRC_ERROR, stored at (data ?a) buf, h @ [(?c, ?a)])
         else read_loop K fd (stored at (data ?a) buf) (at + nat (ret ?a)) (len - word_of_int (ret ?a)) (h @ [(?c, ?a)]))"
      by (subst read_loop.simps) (use False less.prems in \<open>simp add: Let_def ci\<close>)
    show ?thesis
    proof (cases "ret ?a \<le> 0")
      case True
      have "0 < unat len" using False by (simp add: unat_gt_0)
      then show ?thesis using True run a(4)
        by (intro exI [of _ AMRC_ERROR] exI [of _ "[(?c, ?a)]"]) (simp add: reads_of_def)
    next
      case r: False
      have u: "unat (len - word_of_int (ret ?a)) = unat len - nat (ret ?a)" using r a(2) by (intro unat_minus_int) linarith+
      have n: "nat (ret ?a) \<le> unat len" "0 < nat (ret ?a)" using r a(2) by linarith+
      have l: "length (stored at (data ?a) buf) = length buf" using less.prems n a(4) by (intro length_stored) linarith
      obtain rc cs where i: "read_loop K fd (stored at (data ?a) buf) (at + nat (ret ?a)) (len - word_of_int (ret ?a)) (h @ [(?c, ?a)]) =
          Some (rc, stored (at + nat (ret ?a)) (received cs) (stored at (data ?a) buf), (h @ [(?c, ?a)]) @ cs)"
        "reads_of fd cs" "length (received cs) \<le> unat len - nat (ret ?a)"
        "rc = AMRC_SUCCESS \<longleftrightarrow> length (received cs) = unat len - nat (ret ?a)"
        "rc \<noteq> AMRC_SUCCESS \<longrightarrow> cs \<noteq> [] \<and> ret (snd (last cs)) \<le> 0"
        using less.hyps [of "len - word_of_int (ret ?a)" "at + nat (ret ?a)" "stored at (data ?a) buf" "h @ [(?c, ?a)]"]
          u n l less.prems by auto
      have "stored (at + nat (ret ?a)) (received cs) (stored at (data ?a) buf) = stored at (received ((?c, ?a) # cs)) buf"
        using stored_stored [of at "data ?a" "received cs" buf] a(4) i(3) n less.prems by simp
      moreover have "reads_of fd ((?c, ?a) # cs)" using i(2) by (simp add: reads_of_def)
      moreover have "length (received ((?c, ?a) # cs)) \<le> unat len"
        "length (received ((?c, ?a) # cs)) = unat len \<longleftrightarrow> length (received cs) = unat len - nat (ret ?a)"
        using a(4) i(3) n by simp_all linarith+
      ultimately show ?thesis using run r i
        by (intro exI [of _ rc] exI [of _ "(?c, ?a) # cs"]) simp
    qed
  qed
qed

lemma amfd_read_ok:
  assumes "read_spec K" and "unat olen \<le> length buf"
  shows "\<exists>rc cs. amfd_read K fd buf olen h = Some (rc, received cs @ drop (length (received cs)) buf, h @ cs) \<and> reads_of fd cs \<and>
    (case rc of
       AMRC_SUCCESS \<Rightarrow> length (received cs) = unat olen
     | AMRC_ERROR \<Rightarrow> length (received cs) < unat olen \<and> cs \<noteq> [] \<and> ret (snd (last cs)) \<le> 0)"
proof -
  obtain rc cs where "read_loop K fd buf 0 olen h = Some (rc, stored 0 (received cs) buf, h @ cs)" "reads_of fd cs"
    "length (received cs) \<le> unat olen" "rc = AMRC_SUCCESS \<longleftrightarrow> length (received cs) = unat olen"
    "rc \<noteq> AMRC_SUCCESS \<longrightarrow> cs \<noteq> [] \<and> ret (snd (last cs)) \<le> 0"
    using read_loop_correct [OF assms(1), of 0 olen buf fd h] assms(2) by auto
  then show ?thesis by (intro exI [of _ rc] exI [of _ cs]) (cases rc; auto simp: amfd_read_def stored_def)
qed

text \<open>
  C24. \<open>amfd_read\<close> returns whatever the kernel answers within its contract: it only reads from its descriptor, never past the buffer; the bytes that arrived are
  at the front of the buffer and the others unchanged; and it succeeds exactly when all the bytes arrived, otherwise the last read failed
  or met the end of the file.
\<close>

theorem amfd_read_correct:
  assumes "read_spec K" and "unat olen \<le> length buf"
  shows "\<exists>rc cs. amfd_read K fd buf olen h = Some (rc, received cs @ drop (length (received cs)) buf, h @ cs) \<and> reads_of fd cs \<and>
    (case rc of
       AMRC_SUCCESS \<Rightarrow> length (received cs) = unat olen
     | AMRC_ERROR \<Rightarrow> length (received cs) < unat olen \<and> cs \<noteq> [] \<and> ret (snd (last cs)) \<le> 0)"
  by (rule amfd_read_ok [OF assms])

text \<open>A kernel that has three bytes, gives two of them at a time, and otherwise the next free descriptor.\<close>

definition small_kernel :: kernel where
  "small_kernel h c =
     (let none = \<lparr>ret = 0, errno = 0, data = [], peer = None, infos = []\<rparr>;
          got = length (received h)
      in case c of
           Read d n \<Rightarrow> (let b = take (min n 2) (drop got [1, 2, 3]) in none\<lparr>ret := int (length b), data := b\<rparr>)
         | Lseek d off whence \<Rightarrow> none\<lparr>ret := (if whence = SEEK_END then 3 else 0)\<rparr>
         | Sendto d b p n \<Rightarrow> none\<lparr>ret := int (min (length b) 2)\<rparr>
         | Open f n \<Rightarrow> none\<lparr>ret := next_fd h\<rparr>
         | Socket a b t \<Rightarrow> none\<lparr>ret := next_fd h\<rparr>
         | Accept d r \<Rightarrow> none\<lparr>ret := next_fd h\<rparr>
         | _ \<Rightarrow> none)"

lemma small_read_spec: "read_spec small_kernel"
  by (auto simp: read_spec_def small_kernel_def Let_def min_def)

theorem amfd_read_correct_witness:
  "\<exists>rc cs. amfd_read small_kernel 7 [0, 0, 0, 9] 3 [] = Some (rc, received cs @ drop (length (received cs)) [0, 0, 0, 9], [] @ cs) \<and>
    (case rc of
       AMRC_SUCCESS \<Rightarrow> length (received cs) = unat (3 :: u32)
     | AMRC_ERROR \<Rightarrow> length (received cs) < unat (3 :: u32) \<and> cs \<noteq> [] \<and> ret (snd (last cs)) \<le> 0)"
  using amfd_read_correct [OF small_read_spec, of 3 "[0, 0, 0, 9]" 7 "[]"] by fastforce

section \<open>Sending\<close>

definition sent :: "history \<Rightarrow> u8 list" where
  "sent cs = concat (map (\<lambda>(c, a). case c of Sendto d b p n \<Rightarrow> take (nat (ret a)) b | _ \<Rightarrow> []) cs)"

lemma sent_simps [simp]: "sent [] = []" "sent ((Sendto d b p n, a) # cs) = take (nat (ret a)) b @ sent cs"
  by (simp_all add: sent_def)

text \<open>Why a transfer ended before all the bytes were through.\<close>

definition stopped :: "u32 \<Rightarrow> nat \<Rightarrow> history \<Rightarrow> bool" where
  "stopped ignore n cs \<longleftrightarrow> cs \<noteq> [] \<and>
     (ret (snd (last cs)) \<le> 0 \<and> \<not> ignored ignore (snd (last cs)) \<or> 0 < n \<and> ignore AND AMSKT_IGNORE_PACKET = 0)"

lemma stopped_Cons: "stopped ignore n cs \<Longrightarrow> n \<le> m \<Longrightarrow> stopped ignore m (x # cs)"
  by (auto simp: stopped_def)

lemma send_loop_correct:
  assumes K: "send_spec K" and P: "patient K ignore"
  shows "at + unat rem \<le> length buf \<Longrightarrow> unat rem \<le> unat len \<Longrightarrow>
    \<exists>n cs. send_loop K skt buf at rem len remote ignore h = Some (n, h @ cs) \<and>
      sent cs = take (unat n - unat (len - rem)) (drop at buf) \<and> len - rem \<le> n \<and> n \<le> len \<and>
      (n \<noteq> len \<longrightarrow> stopped ignore (unat n - unat (len - rem)) cs)"
proof (induction "unat rem" arbitrary: at rem h rule: less_induct)
  case less
  have le: "rem \<le> len" using less.prems by (simp add: word_le_nat_alt)
  have ul: "unat (len - rem) = unat len - unat rem" using le by (rule unat_sub)
  then have dl: "len - rem \<le> len" by (simp add: word_le_nat_alt)
  show ?case
  proof (cases "rem = 0")
    case True
    then show ?thesis by (intro exI [of _ len] exI [of _ "[]"]) (simp add: send_loop.simps)
  next
    case False
    let ?c = "Sendto skt (take (unat rem) (drop at buf)) remote SIZEOF_ADDR"
    let ?done = "\<lambda>h. \<exists>n cs. send_loop K skt buf at rem len remote ignore h = Some (n, h @ cs) \<and>
      sent cs = take (unat n - unat (len - rem)) (drop at buf) \<and> len - rem \<le> n \<and> n \<le> len \<and>
      (n \<noteq> len \<longrightarrow> stopped ignore (unat n - unat (len - rem)) cs)"
    have go: "?done h" if ok: "0 < ret (K h ?c) \<or> \<not> ignored ignore (K h ?c)" for h
    proof -
      let ?a = "K h ?c"
      have a: "-1 \<le> ret ?a" "ret ?a \<le> int (length (take (unat rem) (drop at buf)))" "ret ?a < 2 ^ 31"
        using K unfolding send_spec_def Let_def by blast+
      have r: "ret ?a \<le> int (unat rem)" using a(2) less.prems by simp
      note ci = c_int_id [OF a(1,3)]
      show ?thesis
      proof (cases "ret ?a \<le> 0")
        case True
        then have "send_loop K skt buf at rem len remote ignore h = Some (len - rem, h @ [(?c, ?a)])"
          by (subst send_loop.simps) (use False less.prems ok in \<open>simp add: Let_def ci\<close>)
        then show ?thesis using True ok dl
          by (intro exI [of _ "len - rem"] exI [of _ "[(?c, ?a)]"]) (simp add: stopped_def)
      next
        case pos: False
        let ?k = "nat (ret ?a)" and ?rem = "rem - word_of_int (ret ?a)"
        have u: "unat ?rem = unat rem - ?k" using pos r by (intro unat_minus_int) linarith+
        have k: "?k \<le> unat rem" "0 < ?k" using pos r by linarith+
        have ul': "unat (len - ?rem) = unat len - unat ?rem" using u k le by (intro unat_sub) (simp add: word_le_nat_alt)
        have new: "unat (len - ?rem) - unat (len - rem) = ?k" using ul' ul u k less.prems(2) by linarith
        have mono: "len - rem \<le> len - ?rem" "len - ?rem \<le> len" using ul' ul u k less.prems(2) by (simp_all add: word_le_nat_alt)
        have tk: "take ?k (take (unat rem) (drop at buf)) = take ?k (drop at buf)" using k by (simp add: min_absorb1)
        show ?thesis
        proof (cases "ignore AND AMSKT_IGNORE_PACKET = 0")
          case True
          then have "send_loop K skt buf at rem len remote ignore h = Some (len - ?rem, h @ [(?c, ?a)])"
            by (subst send_loop.simps) (use False less.prems pos in \<open>simp add: Let_def ci\<close>)
          then show ?thesis using True mono new tk k
            by (intro exI [of _ "len - ?rem"] exI [of _ "[(?c, ?a)]"]) (simp add: stopped_def)
        next
          case packet: False
          then have run: "send_loop K skt buf at rem len remote ignore h =
              send_loop K skt buf (at + ?k) ?rem len remote ignore (h @ [(?c, ?a)])"
            by (subst send_loop.simps) (use False less.prems pos in \<open>simp add: Let_def ci\<close>)
          have p: "unat ?rem < unat rem" "at + ?k + unat ?rem \<le> length buf" "unat ?rem \<le> unat len"
            using u k less.prems by linarith+
          obtain n cs where i: "send_loop K skt buf (at + ?k) ?rem len remote ignore (h @ [(?c, ?a)]) = Some (n, (h @ [(?c, ?a)]) @ cs)"
            "sent cs = take (unat n - unat (len - ?rem)) (drop (at + ?k) buf)" "len - ?rem \<le> n" "n \<le> len"
            "n \<noteq> len \<longrightarrow> stopped ignore (unat n - unat (len - ?rem)) cs"
            using less.hyps [OF p] by blast
          have nn: "unat n - unat (len - rem) = ?k + (unat n - unat (len - ?rem))"
            using new i(3) mono by (simp add: word_le_nat_alt)
          have "sent ((?c, ?a) # cs) = take (unat n - unat (len - rem)) (drop at buf)"
            unfolding nn take_add using i(2) tk by (simp add: add.commute)
          moreover have "n \<noteq> len \<longrightarrow> stopped ignore (unat n - unat (len - rem)) ((?c, ?a) # cs)"
            using i(5) nn by (auto intro: stopped_Cons)
          moreover have "len - rem \<le> n" using mono(1) i(3) by (rule order_trans)
          ultimately show ?thesis using run i(1,4) by (intro exI [of _ n] exI [of _ "(?c, ?a) # cs"]) simp
        qed
      qed
    qed
    obtain m where "let a = K (again K ?c m h) ?c in 0 < ret a \<or> \<not> ignored ignore a" using P unfolding patient_def by blast
    then show "?done h"
    proof (induction m arbitrary: h)
      case (0 h)
      then show ?case by (intro go) (simp add: Let_def)
    next
      case (Suc m h)
      let ?a = "K h ?c"
      show ?case
      proof (cases "0 < ret ?a \<or> \<not> ignored ignore ?a")
        case True
        then show ?thesis by (rule go)
      next
        case retry: False
        have a: "-1 \<le> ret ?a" "ret ?a < 2 ^ 31" using K unfolding send_spec_def Let_def by blast+
        have run: "send_loop K skt buf at rem len remote ignore h = send_loop K skt buf at rem len remote ignore (h @ [(?c, ?a)])"
          by (subst send_loop.simps) (use False less.prems retry in \<open>simp add: Let_def c_int_id [OF a]\<close>)
        have "let a = K (again K ?c m (h @ [(?c, ?a)])) ?c in 0 < ret a \<or> \<not> ignored ignore a" using Suc.prems by simp
        from Suc.IH [OF this] obtain n cs where i:
          "send_loop K skt buf at rem len remote ignore (h @ [(?c, ?a)]) = Some (n, (h @ [(?c, ?a)]) @ cs)"
          "sent cs = take (unat n - unat (len - rem)) (drop at buf)" "len - rem \<le> n" "n \<le> len"
          "n \<noteq> len \<longrightarrow> stopped ignore (unat n - unat (len - rem)) cs" by blast
        show ?thesis using run i retry stopped_Cons
          by (intro exI [of _ n] exI [of _ "(?c, ?a) # cs"]) auto
      qed
    qed
  qed
qed

text \<open>
  C13. \<open>amskt_send\<close> returns if the kernel does not answer for ever with an error that is ignored. The bytes that the
  kernel took are the first ones of the buffer, as many as the result says, each once and in order; and fewer than asked for only after an error that is
  not ignored, or after one packet when packet boundaries are not ignored.
\<close>

theorem amskt_send_correct:
  assumes "send_spec K" and "patient K ignore" and "unat len \<le> length buf"
  shows "\<exists>n cs. amskt_send K skt buf len remote ignore h = Some (n, h @ cs) \<and> sent cs = take (unat n) buf \<and> n \<le> len \<and>
    (if n = len then True else stopped ignore (unat n) cs)"
  using send_loop_correct [OF assms(1,2), of 0 len buf len skt remote h] assms(3) by (auto simp: amskt_send_def)

lemma small_send_spec: "send_spec small_kernel"
  by (auto simp: send_spec_def small_kernel_def Let_def min_def)

lemma small_patient: "patient small_kernel ignore"
  unfolding patient_def by (intro allI exI [of _ 0]) (auto simp: small_kernel_def ignored_def EAGAIN_def EINTR_def Let_def split: syscall.splits)

theorem amskt_send_correct_witness:
  "\<exists>n cs. amskt_send small_kernel 7 [5, 6, 7] 3 None AMSKT_IGNORE_PACKET [] = Some (n, [] @ cs) \<and> sent cs = take (unat n) [5, 6, 7] \<and> n \<le> 3 \<and>
    (if n = 3 then True else stopped AMSKT_IGNORE_PACKET (unat n) cs)"
  using amskt_send_correct [OF small_send_spec small_patient, of 3 "[5, 6, 7]" 7 None AMSKT_IGNORE_PACKET "[]"] by simp

section \<open>Receiving\<close>

lemma recv_loop_correct:
  assumes K: "recv_spec K" and P: "patient K ignore"
  shows "at + unat rem \<le> length buf \<Longrightarrow> unat rem \<le> unat len \<Longrightarrow>
    \<exists>n cs remote'. recv_loop K skt buf at rem len remote ignore h = Some (n, stored at (received cs) buf, remote', h @ cs) \<and>
      length (received cs) = unat n - unat (len - rem) \<and> len - rem \<le> n \<and> n \<le> len \<and>
      (n \<noteq> len \<longrightarrow> stopped ignore (unat n - unat (len - rem)) cs \<or> cs \<noteq> [] \<and> ret (snd (last cs)) = 0)"
proof (induction "unat rem" arbitrary: at rem buf remote h rule: less_induct)
  case less
  have le: "rem \<le> len" using less.prems by (simp add: word_le_nat_alt)
  have ul: "unat (len - rem) = unat len - unat rem" using le by (rule unat_sub)
  then have dl: "len - rem \<le> len" by (simp add: word_le_nat_alt)
  show ?case
  proof (cases "rem = 0")
    case True
    then show ?thesis using less.prems by (intro exI [of _ len] exI [of _ "[]"] exI [of _ remote]) (simp add: recv_loop.simps)
  next
    case False
    let ?c = "Recvfrom skt (unat rem) (remote \<noteq> None)"
    let ?done = "\<lambda>remote h. \<exists>n cs remote'. recv_loop K skt buf at rem len remote ignore h = Some (n, stored at (received cs) buf, remote', h @ cs) \<and>
      length (received cs) = unat n - unat (len - rem) \<and> len - rem \<le> n \<and> n \<le> len \<and>
      (n \<noteq> len \<longrightarrow> stopped ignore (unat n - unat (len - rem)) cs \<or> cs \<noteq> [] \<and> ret (snd (last cs)) = 0)"
    have spec: "-1 \<le> ret (K h ?c)" "ret (K h ?c) \<le> int (unat rem)" "ret (K h ?c) < 2 ^ 31" "length (data (K h ?c)) = nat (ret (K h ?c))" for h
      using K unfolding recv_spec_def Let_def by blast+
    have go: "?done remote h" if ok: "0 \<le> ret (K h ?c) \<or> \<not> ignored ignore (K h ?c)" for h
    proof -
      let ?a = "K h ?c"
      note a = spec [of h]
      note ci = c_int_id [OF a(1,3)]
      show ?thesis
      proof (cases "ret ?a \<le> 0")
        case True
        have "\<exists>r. recv_loop K skt buf at rem len remote ignore h = Some (len - rem, stored at (data ?a) buf, r, h @ [(?c, ?a)])"
          by (subst recv_loop.simps) (use True False less.prems ok in \<open>auto simp: Let_def ci simp del: not_None_eq\<close>)
        then obtain r where "recv_loop K skt buf at rem len remote ignore h = Some (len - rem, stored at (data ?a) buf, r, h @ [(?c, ?a)])"
          by blast
        then show ?thesis using True ok dl a(4)
          by (intro exI [of _ "len - rem"] exI [of _ "[(?c, ?a)]"] exI [of _ r]) (auto simp: stopped_def)
      next
        case pos: False
        let ?k = "nat (ret ?a)" and ?rem = "rem - word_of_int (ret ?a)" and ?r = "store_peer ?a remote"
        have u: "unat ?rem = unat rem - ?k" using pos a(2) by (intro unat_minus_int) linarith+
        have k: "?k \<le> unat rem" "0 < ?k" using pos a(2) by linarith+
        have ul': "unat (len - ?rem) = unat len - unat ?rem" using u k le by (intro unat_sub) (simp add: word_le_nat_alt)
        have new: "unat (len - ?rem) - unat (len - rem) = ?k" using ul' ul u k less.prems(2) by linarith
        have mono: "len - rem \<le> len - ?rem" "len - ?rem \<le> len" using ul' ul u k less.prems(2) by (simp_all add: word_le_nat_alt)
        have l: "length (stored at (data ?a) buf) = length buf" using less.prems k a(4) by (intro length_stored) linarith
        show ?thesis
        proof (cases "ignore AND AMSKT_IGNORE_PACKET = 0")
          case True
          then have "recv_loop K skt buf at rem len remote ignore h = Some (len - ?rem, stored at (data ?a) buf, ?r, h @ [(?c, ?a)])"
            by (subst recv_loop.simps) (use False less.prems pos in \<open>simp add: Let_def ci del: not_None_eq\<close>)
          then show ?thesis using True mono new k a(4)
            by (intro exI [of _ "len - ?rem"] exI [of _ "[(?c, ?a)]"] exI [of _ ?r]) (simp add: stopped_def)
        next
          case packet: False
          then have run: "recv_loop K skt buf at rem len remote ignore h =
              recv_loop K skt (stored at (data ?a) buf) (at + ?k) ?rem len ?r ignore (h @ [(?c, ?a)])"
            by (subst recv_loop.simps) (use False less.prems pos in \<open>simp add: Let_def ci del: not_None_eq\<close>)
          have p: "unat ?rem < unat rem" "at + ?k + unat ?rem \<le> length (stored at (data ?a) buf)" "unat ?rem \<le> unat len"
            using u k less.prems l by linarith+
          obtain n cs r where i: "recv_loop K skt (stored at (data ?a) buf) (at + ?k) ?rem len ?r ignore (h @ [(?c, ?a)]) =
              Some (n, stored (at + ?k) (received cs) (stored at (data ?a) buf), r, (h @ [(?c, ?a)]) @ cs)"
            "length (received cs) = unat n - unat (len - ?rem)" "len - ?rem \<le> n" "n \<le> len"
            "n \<noteq> len \<longrightarrow> stopped ignore (unat n - unat (len - ?rem)) cs \<or> cs \<noteq> [] \<and> ret (snd (last cs)) = 0"
            using less.hyps [OF p] by blast
          have nn: "unat n - unat (len - rem) = ?k + (unat n - unat (len - ?rem))"
            using new i(3) mono by (simp add: word_le_nat_alt)
          have b: "at + length (data ?a) + length (received cs) \<le> length buf"
          proof -
            have "unat n \<le> unat len" using i(4) by (simp add: word_le_nat_alt)
            then have "length (received cs) \<le> unat ?rem" using i(2) ul' p(3) by linarith
            then show ?thesis using u k less.prems a(4) by linarith
          qed
          have st: "stored (at + ?k) (received cs) (stored at (data ?a) buf) = stored at (received ((?c, ?a) # cs)) buf"
            using stored_stored [OF b] a(4) by simp
          have "n \<noteq> len \<longrightarrow> stopped ignore (unat n - unat (len - rem)) ((?c, ?a) # cs) \<or>
            (?c, ?a) # cs \<noteq> [] \<and> ret (snd (last ((?c, ?a) # cs))) = 0"
          proof
            assume "n \<noteq> len"
            then consider "stopped ignore (unat n - unat (len - ?rem)) cs" | "cs \<noteq> []" "ret (snd (last cs)) = 0"
              using i(5) by blast
            then show "stopped ignore (unat n - unat (len - rem)) ((?c, ?a) # cs) \<or>
            (?c, ?a) # cs \<noteq> [] \<and> ret (snd (last ((?c, ?a) # cs))) = 0"
            proof cases
              case 1
              then show ?thesis using nn by (auto intro: stopped_Cons)
            next
              case 2
              then show ?thesis by simp
            qed
          qed
          moreover have "len - rem \<le> n" using mono(1) i(3) by (rule order_trans)
          ultimately show ?thesis using run i(1,2,4) st nn a(4)
            by (intro exI [of _ n] exI [of _ "(?c, ?a) # cs"] exI [of _ r]) (simp del: not_None_eq)
        qed
      qed
    qed
    obtain m where "let a = K (again K ?c m h) ?c in 0 < ret a \<or> \<not> ignored ignore a" using P unfolding patient_def by blast
    then show "?done remote h"
    proof (induction m arbitrary: h)
      case (0 h)
      then show ?case by (intro go) (auto simp: Let_def)
    next
      case (Suc m h)
      let ?a = "K h ?c"
      show ?case
      proof (cases "0 \<le> ret ?a \<or> \<not> ignored ignore ?a")
        case True
        then show ?thesis by (rule go)
      next
        case retry: False
        note a = spec [of h]
        have d: "data ?a = []" using a(4) retry by simp
        have st: "stored at [] buf = buf" using less.prems by simp
        have run: "recv_loop K skt buf at rem len remote ignore h = recv_loop K skt buf at rem len remote ignore (h @ [(?c, ?a)])"
          by (subst recv_loop.simps) (use False less.prems retry in \<open>simp add: Let_def c_int_id [OF a(1,3)] d st del: not_None_eq\<close>)
        have "let a = K (again K ?c m (h @ [(?c, ?a)])) ?c in 0 < ret a \<or> \<not> ignored ignore a" using Suc.prems by simp
        from Suc.IH [OF this] obtain n cs r where i:
          "recv_loop K skt buf at rem len remote ignore (h @ [(?c, ?a)]) = Some (n, stored at (received cs) buf, r, (h @ [(?c, ?a)]) @ cs)"
          "length (received cs) = unat n - unat (len - rem)" "len - rem \<le> n" "n \<le> len"
          "n \<noteq> len \<longrightarrow> stopped ignore (unat n - unat (len - rem)) cs \<or> cs \<noteq> [] \<and> ret (snd (last cs)) = 0" by blast
        show ?thesis using run i d stopped_Cons
          by (intro exI [of _ n] exI [of _ "(?c, ?a) # cs"] exI [of _ r]) (auto simp del: not_None_eq)
      qed
    qed
  qed
qed

text \<open>
  \<open>amskt_recv\<close> returns if the kernel does not answer for ever with an error that is ignored. It never writes past the buffer;
  the bytes that arrived, as many as the result says, are at the front of the buffer in order; and fewer than asked for only when the peer
  has closed, after an error that is not ignored, or after one packet when packet boundaries are not ignored.
\<close>

theorem amskt_recv_correct:
  assumes "recv_spec K" and "patient K ignore" and "unat len \<le> length buf"
  shows "\<exists>n cs remote'. amskt_recv K skt buf len remote ignore h = Some (n, received cs @ drop (unat n) buf, remote', h @ cs) \<and>
    length (received cs) = unat n \<and> n \<le> len \<and>
    (if n = len then True else stopped ignore (unat n) cs \<or> ret (snd (last cs)) = 0)"
proof -
  obtain n cs r where "recv_loop K skt buf 0 len len remote ignore h = Some (n, stored 0 (received cs) buf, r, h @ cs)"
    "length (received cs) = unat n" "n \<le> len" "n \<noteq> len \<longrightarrow> stopped ignore (unat n) cs \<or> cs \<noteq> [] \<and> ret (snd (last cs)) = 0"
    using recv_loop_correct [OF assms(1,2), of 0 len buf len skt remote h] assms(3) by auto
  then show ?thesis by (intro exI [of _ n] exI [of _ cs] exI [of _ r]) (auto simp: amskt_recv_def stored_def)
qed

definition echo_kernel :: kernel where
  "echo_kernel h c =
     (let none = \<lparr>ret = 0, errno = 0, data = [], peer = None, infos = []\<rparr>
      in case c of
           Recvfrom d n r \<Rightarrow> (let b = take (min n 2) [1, 2, 3] in none\<lparr>ret := int (length b), data := b\<rparr>)
         | _ \<Rightarrow> none)"

lemma echo_recv_spec: "recv_spec echo_kernel"
  by (auto simp: recv_spec_def echo_kernel_def Let_def min_def)

lemma echo_patient: "patient echo_kernel ignore"
  unfolding patient_def by (intro allI exI [of _ 0]) (auto simp: echo_kernel_def ignored_def EAGAIN_def EINTR_def Let_def split: syscall.splits)

theorem amskt_recv_correct_witness:
  "\<exists>n cs remote'. amskt_recv echo_kernel 7 [0, 0, 0] 3 None AMSKT_IGNORE_PACKET [] = Some (n, received cs @ drop (unat n) [0, 0, 0], remote', [] @ cs) \<and>
    length (received cs) = unat n \<and> n \<le> 3 \<and>
    (if n = 3 then True else stopped AMSKT_IGNORE_PACKET (unat n) cs \<or> ret (snd (last cs)) = 0)"
  using amskt_recv_correct [OF echo_recv_spec echo_patient, of 3 "[0, 0, 0]" 7 None AMSKT_IGNORE_PACKET "[]"] by simp

section \<open>Descriptors\<close>

lemma fds_after_other: "\<not> makes_fd c \<Longrightarrow> (\<And>d. c \<noteq> Close d) \<Longrightarrow> fds_after (c, a) F = F"
  by (cases c) auto

text \<open>The calls with which the life of a descriptor begins or ends.\<close>

definition ends_life :: "int \<Rightarrow> syscall \<times> answer \<Rightarrow> bool" where
  "ends_life skt x = (fst x = Close skt \<or> makes_fd (fst x) \<and> ret (snd x) = skt)"

text \<open>
  Making a socket ready keeps the descriptors and lists of addresses, and what success means stays true when more calls follow.
\<close>

locale socket_setup =
  fixes K :: kernel and prep :: "addrinfo \<Rightarrow> int \<Rightarrow> history \<Rightarrow> bool \<times> history" and good :: "int \<Rightarrow> history \<Rightarrow> bool"
  assumes prep_frame: "prep i skt h = (ok, h') \<Longrightarrow> open_fds h' = open_fds h \<and> open_infos h' = open_infos h"
    and prep_good: "prep i skt h = (True, h') \<Longrightarrow> good skt h'"
    and good_later: "good skt h \<Longrightarrow> \<not> ends_life skt x \<Longrightarrow> good skt (h @ [x])"
begin

lemma try_infos_fds:
  assumes "fresh_spec K" and "try_infos K prep is h = (skt, h')"
  shows "(if 0 \<le> skt then open_fds h' = insert skt (open_fds h) \<and> skt \<notin> open_fds h \<and> good skt h' else skt = -1 \<and> open_fds h' = open_fds h) \<and>
    open_infos h' = open_infos h"
  using assms(2)
proof (induction "is" arbitrary: h)
  case (Cons i "is")
  let ?c = "Socket (ai_family i) (ai_socktype i) (ai_protocol i)" let ?a = "K h ?c" let ?h = "h @ [(?c, ?a)]"
  show ?case
  proof (cases "ret ?a < 0")
    case True
    then have "try_infos K prep is ?h = (skt, h')" using Cons.prems by simp
    from Cons.IH [OF this] show ?thesis using True by (auto split: if_splits)
  next
    case False
    obtain ok h2 where p: "prep i (ret ?a) ?h = (ok, h2)" by fastforce
    have f: "ret ?a \<notin> open_fds h" using assms(1) False unfolding fresh_spec_def by simp
    have o: "open_fds h2 = insert (ret ?a) (open_fds h)" "open_infos h2 = open_infos h"
      using prep_frame [OF p] False by simp_all
    show ?thesis
    proof (cases ok)
      case True
      then have "skt = ret ?a" "h' = h2" using Cons.prems False p by (simp_all add: Let_def)
      then show ?thesis using o f False prep_good p True by simp
    next
      case bad: False
      let ?d = "(Close (ret ?a), K h2 (Close (ret ?a)))"
      have "try_infos K prep is (h2 @ [?d]) = (skt, h')" using Cons.prems False p bad by (simp add: Let_def)
      moreover have "open_fds (h2 @ [?d]) = open_fds h" "open_infos (h2 @ [?d]) = open_infos h" using o f by simp_all
      ultimately show ?thesis using Cons.IH by metis
    qed
  qed
qed simp

lemma free_infos_fds:
  assumes "fresh_spec K" and "0 = ret a" and "try_infos K prep (infos a) (h @ [(Getaddrinfo n f k g, a)]) = (skt, h')"
  shows "(if 0 \<le> skt then open_fds (free_infos K (infos a) h') = insert skt (open_fds h) \<and> skt \<notin> open_fds h \<and> good skt (free_infos K (infos a) h')
      else skt = -1 \<and> open_fds (free_infos K (infos a) h') = open_fds h) \<and>
    open_infos (free_infos K (infos a) h') = open_infos h"
  using try_infos_fds [OF assms(1,3)] assms(2) good_later [of skt h'] by (auto simp: free_infos_def ends_life_def)

end

text \<open>Since the descriptor was made, a certain call was made and did not fail.\<close>

definition did :: "(syscall \<Rightarrow> bool) \<Rightarrow> int \<Rightarrow> history \<Rightarrow> bool" where
  "did P skt h \<longleftrightarrow> (\<exists>x \<in> set (takeWhile (Not \<circ> ends_life skt) (rev h)). P (fst x) \<and> ret (snd x) \<noteq> -1)"

lemma did_snoc: "\<not> ends_life skt (c, a) \<Longrightarrow> did P skt (h @ [(c, a)]) \<longleftrightarrow> P c \<and> ret a \<noteq> -1 \<or> did P skt h"
  by (auto simp: did_def)

definition bound :: "int \<Rightarrow> history \<Rightarrow> bool" where
  "bound skt h \<longleftrightarrow> did (\<lambda>c. \<exists>a n. c = Bind skt a n) skt h"

definition connected :: "int \<Rightarrow> history \<Rightarrow> bool" where
  "connected skt h \<longleftrightarrow> did (\<lambda>c. \<exists>a n. c = Connect skt a n) skt h"

interpretation server: socket_setup K "prepare_server K port" bound for K port
proof unfold_locales
  show "open_fds h' = open_fds h \<and> open_infos h' = open_infos h" if "prepare_server K port i skt h = (ok, h')" for i skt h ok h'
    using that by (auto simp: prepare_server_def Let_def split: if_splits)
  show "bound skt h'" if "prepare_server K port i skt h = (True, h')" for i skt h h'
    using that by (auto simp: prepare_server_def Let_def bound_def did_def ends_life_def split: if_splits)
  show "bound skt (h @ [x])" if "bound skt h" "\<not> ends_life skt x" for skt h x
    using that by (cases x) (simp add: bound_def did_snoc)
qed

interpretation client: socket_setup K "prepare_client K port" connected for K port
proof unfold_locales
  show "open_fds h' = open_fds h \<and> open_infos h' = open_infos h" if "prepare_client K port i skt h = (ok, h')" for i skt h ok h'
    using that by (auto simp: prepare_client_def Let_def)
  show "connected skt h'" if "prepare_client K port i skt h = (True, h')" for i skt h h'
    using that by (auto simp: prepare_client_def Let_def connected_def did_def ends_life_def)
  show "connected skt (h @ [x])" if "connected skt h" "\<not> ends_life skt x" for skt h x
    using that by (cases x) (simp add: connected_def did_snoc)
qed

lemma listen_fds:
  assumes "fresh_spec K"
  shows "case amskt_listen K addr0 h of
      (AMRC_SUCCESS, fd, h') \<Rightarrow> \<exists>skt. fd = Some skt \<and> (0 \<le> skt \<longrightarrow> open_fds h' = insert skt (open_fds h) \<and> skt \<notin> open_fds h)
    | (AMRC_ERROR, fd, h') \<Rightarrow> fd = None \<and> open_fds h' = open_fds h"
proof (cases "sa_family addr0 = AF_INET \<or> sa_family addr0 = AF_INET6")
  case False
  then show ?thesis by (simp add: amskt_listen_def fail_close_def)
next
  case fam: True
  let ?addr = "if sa_family addr0 = AF_INET then set_sin_addr (replicate 4 0) addr0 else set_sin6_addr (replicate 16 0) addr0"
  obtain a1 h1 where s1: "sys K (Socket (uint (sa_family addr0)) SOCK_STREAM 0) h = (a1, h1)" by fastforce
  obtain a2 h2 where s2: "sys K (Setsockopt (ret a1) SO_REUSEADDR) h1 = (a2, h2)" by fastforce
  obtain a3 h3 where s3: "sys K (Setsockopt (ret a1) SO_REUSEPORT) h2 = (a3, h3)" by fastforce
  obtain a4 h4 where s4: "sys K (Bind (ret a1) ?addr SIZEOF_SOCKADDR) h3 = (a4, h4)" by fastforce
  obtain a5 h5 where s5: "sys K (Listen (ret a1) 5) h4 = (a5, h5)" by fastforce
  have o1: "open_fds h1 = (if 0 \<le> ret a1 then insert (ret a1) (open_fds h) else open_fds h)" using s1 by auto
  have o: "open_fds h2 = open_fds h1" "open_fds h3 = open_fds h1" "open_fds h4 = open_fds h1" "open_fds h5 = open_fds h1"
    using s2 s3 s4 s5 by auto
  have f: "0 \<le> ret a1 \<Longrightarrow> ret a1 \<notin> open_fds h" using s1 assms by (auto simp: fresh_spec_def)
  have c: "open_fds (snd (snd (fail_close K (ret a1) x))) = open_fds h" "fst (fail_close K (ret a1) x) = AMRC_ERROR"
    "fst (snd (fail_close K (ret a1) x)) = None" if "open_fds x = open_fds h1" for x
    using that o1 f by (auto simp: fail_close_def)
  have fc: "case fail_close K (ret a1) x of
      (AMRC_SUCCESS, fd, h') \<Rightarrow> \<exists>skt. fd = Some skt \<and> (0 \<le> skt \<longrightarrow> open_fds h' = insert skt (open_fds h) \<and> skt \<notin> open_fds h)
    | (AMRC_ERROR, fd, h') \<Rightarrow> fd = None \<and> open_fds h' = open_fds h" if "open_fds x = open_fds h1" for x
    using c [OF that] by (cases "fail_close K (ret a1) x") auto
  have run: "amskt_listen K addr0 h =
     (if ret a1 = -1 then fail_close K (ret a1) h1 else if ret a2 \<noteq> 0 then fail_close K (ret a1) h2
      else if ret a3 \<noteq> 0 then fail_close K (ret a1) h3 else if ret a4 \<noteq> 0 then fail_close K (ret a1) h4
      else if ret a5 \<noteq> 0 then fail_close K (ret a1) h5 else (AMRC_SUCCESS, Some (ret a1), h5))"
    using fam by (auto simp: amskt_listen_def Let_def s1 s2 s3 s4 s5 simp del: sys_simps)
  have "0 \<le> ret a1 \<longrightarrow> open_fds h5 = insert (ret a1) (open_fds h) \<and> ret a1 \<notin> open_fds h" using o(4) o1 f by auto
  then have "case (AMRC_SUCCESS, Some (ret a1), h5) of
      (AMRC_SUCCESS, fd, h') \<Rightarrow> \<exists>skt. fd = Some skt \<and> (0 \<le> skt \<longrightarrow> open_fds h' = insert skt (open_fds h) \<and> skt \<notin> open_fds h)
    | (AMRC_ERROR, fd, h') \<Rightarrow> fd = None \<and> open_fds h' = open_fds h" by simp
  then show ?thesis unfolding run using fc [OF refl] fc [OF o(1)] fc [OF o(2)] fc [OF o(3)] fc [OF o(4)]
    by (simp only: simp_thms if_True if_False split: if_split)
qed

lemma server_socket_fds:
  assumes "fresh_spec K"
  shows "case amskt_get_server_socket K family kind node port h of
      None \<Rightarrow> node = None
    | Some (skt, h') \<Rightarrow> (if 0 \<le> skt then open_fds h' = insert skt (open_fds h) \<and> skt \<notin> open_fds h \<and> bound skt h'
        else skt = -1 \<and> open_fds h' = open_fds h) \<and> open_infos h' = open_infos h"
proof (cases "valid_kind family kind \<and> node \<noteq> None")
  case False
  then show ?thesis by (cases node) (auto simp: amskt_get_server_socket_def strnicmp_def)
next
  case True
  then obtain d where d: "strnicmp (Some ''ANY'') node 4 = Some d" by (auto simp: strnicmp_def)
  let ?c = "Getaddrinfo (if d = 0 then None else node) family kind (AI_PASSIVE + AI_NUMERICHOST + AI_NUMERICSERV)"
  let ?a = "K h ?c"
  obtain skt h2 where t: "try_infos K (prepare_server K port) (infos ?a) (h @ [(?c, ?a)]) = (skt, h2)" by fastforce
  show ?thesis
  proof (cases "ret ?a = 0")
    case ok: True
    have "amskt_get_server_socket K family kind node port h = Some (skt, free_infos K (infos ?a) h2)"
      using True d ok t by (simp add: amskt_get_server_socket_def Let_def)
    then show ?thesis using server.free_infos_fds [OF assms ok [symmetric] t] by simp
  next
    case bad: False
    have "amskt_get_server_socket K family kind node port h = Some (-1, h @ [(?c, ?a)])"
      using True d bad by (simp add: amskt_get_server_socket_def Let_def)
    then show ?thesis using bad by simp
  qed
qed

lemma client_socket_fds:
  assumes "fresh_spec K"
  shows "case amskt_get_client_socket K family kind node port h of
      (skt, h') \<Rightarrow> (if 0 \<le> skt then open_fds h' = insert skt (open_fds h) \<and> skt \<notin> open_fds h \<and> connected skt h'
        else skt = -1 \<and> open_fds h' = open_fds h) \<and> open_infos h' = open_infos h"
proof (cases "valid_kind family kind \<and> node \<noteq> None \<and> node \<noteq> Some [] \<and> port \<noteq> 0")
  case False
  then show ?thesis by (auto simp: amskt_get_client_socket_def)
next
  case True
  let ?c = "Getaddrinfo node family kind AI_NUMERICSERV" let ?a = "K h ?c"
  obtain skt h2 where t: "try_infos K (prepare_client K port) (infos ?a) (h @ [(?c, ?a)]) = (skt, h2)" by fastforce
  show ?thesis
  proof (cases "ret ?a = 0")
    case ok: True
    have "amskt_get_client_socket K family kind node port h = (skt, free_infos K (infos ?a) h2)"
      using True ok t by (auto simp: amskt_get_client_socket_def Let_def)
    then show ?thesis using client.free_infos_fds [OF assms ok [symmetric] t] by simp
  next
    case bad: False
    have "amskt_get_client_socket K family kind node port h = (-1, h @ [(?c, ?a)])"
      using True bad by (auto simp: amskt_get_client_socket_def Let_def)
    then show ?thesis using bad by simp
  qed
qed

text \<open>
  C12. Sockets are neither leaked nor lost: the functions that make a server or a client socket for an address either give a new descriptor, with which a call of
  \<^verbatim>\<open>bind\<close>, or \<^verbatim>\<open>connect\<close>, has succeeded, and have opened this one only, or they give -1 and have closed what they opened. The list of
  addresses is freed in every case. A listening socket is closed when it could not be set up.
\<close>

theorem sockets_not_leaked:
  assumes "fresh_spec K"
  shows "(\<exists>skt h'. amskt_get_server_socket K family kind (Some name) port h = Some (skt, h') \<and>
      (if 0 \<le> skt then open_fds h' = insert skt (open_fds h) \<and> skt \<notin> open_fds h \<and> bound skt h'
        else skt = -1 \<and> open_fds h' = open_fds h) \<and> open_infos h' = open_infos h) \<and>
    (case amskt_get_client_socket K family kind (Some name) port h of
      (skt, h') \<Rightarrow> (if 0 \<le> skt then open_fds h' = insert skt (open_fds h) \<and> skt \<notin> open_fds h \<and> connected skt h'
        else skt = -1 \<and> open_fds h' = open_fds h) \<and> open_infos h' = open_infos h) \<and>
    (case amskt_listen K a0 h of
      (AMRC_SUCCESS, fd, h') \<Rightarrow> \<exists>skt. fd = Some skt \<and> (0 \<le> skt \<longrightarrow> open_fds h' = insert skt (open_fds h) \<and> skt \<notin> open_fds h)
    | (AMRC_ERROR, fd, h') \<Rightarrow> fd = None \<and> open_fds h' = open_fds h)"
proof (intro conjI)
  obtain skt h' where r: "amskt_get_server_socket K family kind (Some name) port h = Some (skt, h')"
    using server_socket_fds [OF assms, where node = "Some name" and family = family and kind = kind and port = port and h = h]
    by (auto split: option.splits)
  show "\<exists>skt h'. amskt_get_server_socket K family kind (Some name) port h = Some (skt, h') \<and>
      (if 0 \<le> skt then open_fds h' = insert skt (open_fds h) \<and> skt \<notin> open_fds h \<and> bound skt h'
        else skt = -1 \<and> open_fds h' = open_fds h) \<and> open_infos h' = open_infos h"
    using server_socket_fds [OF assms, where node = "Some name" and family = family and kind = kind and port = port and h = h] r
    by (intro exI [of _ skt] exI [of _ h']) simp
qed (rule client_socket_fds [OF assms], rule listen_fds [OF assms])

text \<open>A kernel that gives one more than the largest descriptor so far, and one address for a name.\<close>

definition server_kernel :: kernel where
  "server_kernel h c =
     (let none = \<lparr>ret = 0, errno = 0, data = [], peer = None, infos = []\<rparr>
      in if makes_fd c then none\<lparr>ret := next_fd h\<rparr>
         else (case c of
                 Getaddrinfo n f k g \<Rightarrow> none\<lparr>infos := [\<lparr>ai_family = 2, ai_socktype = 1, ai_protocol = 6,
                   ai_addr = zero_addr\<lparr>sa_family := AF_INET\<rparr>, ai_addrlen = 16\<rparr>]\<rparr>
               | _ \<Rightarrow> none))"

lemma server_fresh: "fresh_spec server_kernel"
  using next_fd_fresh by (simp add: fresh_spec_def server_kernel_def Let_def)

theorem sockets_not_leaked_witness:
  "\<exists>skt h'. amskt_get_server_socket server_kernel 0 SOCK_STREAM (Some ''any'') 80 [] = Some (skt, h') \<and>
     open_fds h' = {skt} \<and> bound skt h' \<and> open_infos h' = 0"
proof -
  have "map_option fst (amskt_get_server_socket server_kernel 0 SOCK_STREAM (Some ''any'') 80 []) = Some 3"
    by code_simp
  then obtain h' where h: "amskt_get_server_socket server_kernel 0 SOCK_STREAM (Some ''any'') 80 [] = Some (3, h')" by auto
  show ?thesis
    using sockets_not_leaked [OF server_fresh, where family=0 and kind=SOCK_STREAM and name="''any''" and port=80 and h="[]"] h
    by (intro exI [of _ 3] exI [of _ h']) (simp add: open_fds_def open_infos_def)
qed

section \<open>Addresses\<close>

lemma dec_length: "n < 10 ^ k \<Longrightarrow> 0 < k \<Longrightarrow> length (dec n) \<le> k"
proof (induction n arbitrary: k rule: dec.induct)
  case (1 n)
  show ?case
  proof (cases "n < 10")
    case True
    then show ?thesis using 1 by (subst dec.simps) simp
  next
    case False
    then obtain j where k: "k = Suc j" "0 < j" using 1(2,3) by (cases k; cases "k - 1") auto
    have "n div 10 < 10 ^ j" using 1(2) k by (simp add: div_less_iff_less_mult mult.commute)
    from 1(1) [OF False this k(2)] show ?thesis using False k by (subst dec.simps) simp
  qed
qed

lemma portstr:
  assumes "sa_family a = AF_INET \<or> sa_family a = AF_INET6" and "6 \<le> unat n" and "unat n \<le> length buf"
  shows "\<exists>out. amskt_addr_to_portstr (Some a) (Some buf) n = Some (AMRC_SUCCESS, Some out) \<and> cstring out = dec (unat (sa_port a))"
proof -
  let ?s = "dec (unat (sa_port a))"
  have "unat (sa_port a) < 2 ^ 16" using unsigned_less [where 'b=16 and 'a=nat and w="sa_port a"] by simp
  then have l: "length ?s \<le> 5" by (intro dec_length) simp_all
  have z: "n \<noteq> 0" using assms(2) by auto
  have w: "snprintf buf (unat n) ?s = Some ((?s @ [NUL]) @ drop (length (?s @ [NUL])) buf)"
    using l assms(2,3) z by (simp add: snprintf_def Let_def unat_eq_zero)
  have "cstring ((?s @ NUL # drop (Suc (length ?s)) buf)[unat n - 1 := NUL]) = ?s"
    using l assms(2) dec_no_NUL by (intro cstring_set_NUL) simp_all
  then show ?thesis using assms z w by (auto simp: amskt_addr_to_portstr_def out_check_def)
qed

text \<open>
  The port of an address: \<open>amskt_addr_set_port\<close> succeeds exactly for a family that fits the address, and then \<open>amskt_addr_to_port\<close> gives the port back,
  and \<open>amskt_addr_to_portstr\<close> its decimal digits; on an error of the arguments the address is unchanged. \<open>amskt_port2addr\<close> stores the port with its bytes
  swapped instead, and the readers do not swap it back.
\<close>

theorem amskt_addr_port_correct:
  assumes "6 \<le> unat n" and "unat n \<le> length buf"
  shows "(case amskt_addr_set_port (Some a) family port of
       (AMRC_SUCCESS, q) \<Rightarrow> (if family = AF_UNSPEC then sa_family a = AF_INET \<or> sa_family a = AF_INET6
           else (family = AF_INET \<or> family = AF_INET6) \<and> (sa_family a = family \<or> sa_family a = AF_UNSPEC)) \<and>
         amskt_addr_to_port q = port \<and>
         (\<exists>out. amskt_addr_to_portstr q (Some buf) n = Some (AMRC_SUCCESS, Some out) \<and> cstring out = dec (unat port))
     | (AMRC_ERROR, q) \<Rightarrow> \<not> (if family = AF_UNSPEC then sa_family a = AF_INET \<or> sa_family a = AF_INET6
           else (family = AF_INET \<or> family = AF_INET6) \<and> (sa_family a = family \<or> sa_family a = AF_UNSPEC)) \<and> q = Some a) \<and>
    (case amskt_port2addr family port (Some a) of
       Some (AMRC_SUCCESS, q) \<Rightarrow> sa_family q = family \<and> sa_rest q = sa_rest a \<and> amskt_addr_to_port (Some q) = htons port
     | Some (AMRC_ERROR, q) \<Rightarrow> q = zero_addr
     | None \<Rightarrow> False)"
proof
  note p = portstr [OF _ assms]
  note d = AF_UNSPEC_def AF_INET_def AF_INET6_def
  show "case amskt_addr_set_port (Some a) family port of
       (AMRC_SUCCESS, q) \<Rightarrow> (if family = AF_UNSPEC then sa_family a = AF_INET \<or> sa_family a = AF_INET6
           else (family = AF_INET \<or> family = AF_INET6) \<and> (sa_family a = family \<or> sa_family a = AF_UNSPEC)) \<and>
         amskt_addr_to_port q = port \<and>
         (\<exists>out. amskt_addr_to_portstr q (Some buf) n = Some (AMRC_SUCCESS, Some out) \<and> cstring out = dec (unat port))
     | (AMRC_ERROR, q) \<Rightarrow> \<not> (if family = AF_UNSPEC then sa_family a = AF_INET \<or> sa_family a = AF_INET6
           else (family = AF_INET \<or> family = AF_INET6) \<and> (sa_family a = family \<or> sa_family a = AF_UNSPEC)) \<and> q = Some a"
    using p [of "a\<lparr>sa_port := port\<rparr>"] p [of "zero_addr\<lparr>sa_family := AF_INET, sa_port := port\<rparr>"]
      p [of "zero_addr\<lparr>sa_family := AF_INET6, sa_port := port\<rparr>"]
    by (auto simp: amskt_addr_set_port_def amskt_addr_to_port_def Let_def d)
  show "case amskt_port2addr family port (Some a) of
       Some (AMRC_SUCCESS, q) \<Rightarrow> sa_family q = family \<and> sa_rest q = sa_rest a \<and> amskt_addr_to_port (Some q) = htons port
     | Some (AMRC_ERROR, q) \<Rightarrow> q = zero_addr
     | None \<Rightarrow> False"
    by (auto simp: amskt_port2addr_def amskt_addr_to_port_def reset_addr_def zero_addr_def d)
qed

theorem amskt_addr_port_correct_witness:
  "(case amskt_addr_set_port (Some zero_addr) AF_INET 80 of
       (AMRC_SUCCESS, q) \<Rightarrow> amskt_addr_to_port q = 80 \<and>
         (\<exists>out. amskt_addr_to_portstr q (Some (replicate 6 NUL)) 6 = Some (AMRC_SUCCESS, Some out) \<and> cstring out = dec 80)
     | (AMRC_ERROR, q) \<Rightarrow> False)"
proof -
  have s: "amskt_addr_set_port (Some zero_addr) AF_INET 80 = (AMRC_SUCCESS, Some (zero_addr\<lparr>sa_family := AF_INET, sa_port := 80\<rparr>))"
    by (simp add: amskt_addr_set_port_def zero_addr_def AF_UNSPEC_def AF_INET_def AF_INET6_def)
  show ?thesis using amskt_addr_port_correct [where n=6 and buf="replicate 6 NUL" and a=zero_addr and family=AF_INET and port=80] unfolding s by simp
qed

lemma port_swapped: "htons 80 = 20480"
  by (simp add: htons_def)

section \<open>Files and leaks\<close>

lemma read_fds: "reads_of fd cs \<Longrightarrow> fold fds_after cs F = F"
proof (induction cs)
  case (Cons x cs)
  then obtain n a where "x = (Read fd n, a)" by (cases x) (auto simp: reads_of_def)
  with Cons show ?case by (auto simp: reads_of_def)
qed simp

definition seek_spec :: "kernel \<Rightarrow> bool" where
  "seek_spec K \<longleftrightarrow> (\<forall>h d off whence. -1 \<le> ret (K h (Lseek d off whence)) \<and> ret (K h (Lseek d off whence)) < 2 ^ 32)"

lemma unat_word_of_int_u32: "0 \<le> n \<Longrightarrow> n < 2 ^ 32 \<Longrightarrow> unat (word_of_int n :: u32) = nat n"
proof -
  assume a: "0 \<le> n" "n < 2 ^ 32"
  have e: "(word_of_int n :: u32) = of_nat (nat n)" using a(1) by simp
  have "nat n < 2 ^ 32" using a by (simp add: nat_less_iff)
  then show ?thesis unfolding e by (simp only: unsigned_of_nat) (simp add: take_bit_nat_eq_self)
qed

text \<open>A file that is open is read into a block of its size and closed; when it could not be read the block is released.\<close>

lemma read_and_close:
  assumes "read_spec K" and l: "length buf = unat n" and m: "live hp p \<noteq> None"
  shows "\<exists>r h' hp'. do { (rc, buf, h) \<leftarrow> amfd_read K fd buf n g;
        let h = snd (sys K (Close fd) h);
        if rc \<noteq> AMRC_SUCCESS then do { hp \<leftarrow> free_block (Some p) hp; Some (None, h, hp) } else Some (Some (p, buf, n), h, hp) } = Some (r, h', hp') \<and>
    (case r of
       None \<Rightarrow> live hp' = (live hp)(p := None)
     | Some (p', bs, n') \<Rightarrow> p' = p \<and> n' = n \<and> hp' = hp \<and> length bs = unat n \<and>
         (\<exists>cs a. h' = g @ cs @ [(Close fd, a)] \<and> reads_of fd cs \<and> bs = received cs))"
proof -
  from amfd_read_ok [OF assms(1), of n buf fd g] l obtain rc cs where
    r: "amfd_read K fd buf n g = Some (rc, received cs @ drop (length (received cs)) buf, g @ cs)" "reads_of fd cs"
      and "case rc of AMRC_SUCCESS \<Rightarrow> length (received cs) = unat n | _ \<Rightarrow> length (received cs) < unat n \<and> cs \<noteq> [] \<and> ret (snd (last cs)) \<le> 0"
    by auto
  then have k: "rc = AMRC_SUCCESS \<Longrightarrow> length (received cs) = unat n" by simp
  show ?thesis
  proof (cases rc)
    case AMRC_ERROR
    then show ?thesis using r(1) m by (auto simp: free_block_def Let_def)
  next
    case AMRC_SUCCESS
    then have "length (received cs) = unat n" "drop (length (received cs)) buf = []" using k l by simp_all
    then show ?thesis using AMRC_SUCCESS r(1,2) by (auto simp: Let_def)
  qed
qed

text \<open>
  C25. \<open>amfile_read\<close> of a file below 4 GiB returns, frees what it allocated when it fails, and otherwise gives a new block that holds exactly the
  bytes that were read, with their number, and has closed the file.
\<close>

theorem amfile_read_correct:
  assumes "read_spec K" and "fresh_spec K" and "seek_spec K" and "malloc_spec alloc"
  shows "\<exists>r h' hp'. amfile_read K alloc junk filename h hp = Some (r, h', hp') \<and>
    (case r of
       None \<Rightarrow> live hp' = live hp
     | Some (p, buf, n) \<Rightarrow> live hp p = None \<and> live hp' = (live hp)(p \<mapsto> of_nat (unat n)) \<and> length buf = unat n \<and> open_fds h' = open_fds h \<and>
         (\<exists>fd pre cs post. h' = h @ pre @ cs @ post \<and> reads_of fd cs \<and> buf = received cs))"
proof -
  let ?a1 = "K h (Open filename O_RDONLY)" let ?fd = "ret ?a1" let ?h1 = "h @ [(Open filename O_RDONLY, ?a1)]"
  let ?c2 = "Lseek ?fd 0 SEEK_END" let ?a2 = "K ?h1 ?c2" let ?h2 = "?h1 @ [(?c2, ?a2)]" let ?s = "ret ?a2"
  let ?c3 = "Lseek ?fd 0 SEEK_SET" let ?h3 = "?h2 @ [(?c3, K ?h2 ?c3)]"
  have s: "-1 \<le> ?s" "?s < 2 ^ 32" using assms(3) unfolding seek_spec_def by blast+
  show ?thesis
  proof (cases "?fd < 0 \<or> ?s = -1")
    case True
    have "\<exists>h'. amfile_read K alloc junk filename h hp = Some (None, h', hp)" using True by (auto simp: amfile_read_def Let_def)
    then show ?thesis by auto
  next
    case ok: False
    then have s0: "0 \<le> ?s" using s by linarith
    obtain m hp1 where m: "malloc alloc (word_of_int ?s) hp = (m, hp1)" by fastforce
    show ?thesis
    proof (cases m)
      case None
      then have "amfile_read K alloc junk filename h hp = Some (None, ?h3, hp1)" using ok m by (simp add: amfile_read_def Let_def)
      then show ?thesis using malloc_None m None by auto
    next
      case (Some p)
      note mp = malloc_Some [OF assms(4) m [unfolded Some]]
      let ?n = "word_of_int ?s :: u32"
      have n: "unat ?n = nat ?s" by (rule unat_word_of_int_u32 [OF s0 s(2)])
      then have w: "(word_of_int ?s :: u64) = of_nat (unat ?n)" using s0 by simp
      have "length (map junk [0 ..< nat ?s]) = unat ?n" "live hp1 p \<noteq> None" using n mp(2) by simp_all
      from read_and_close [OF assms(1) this, of ?fd ?h3] obtain r h' hp' where
        r: "amfile_read K alloc junk filename h hp = Some (r, h', hp')"
          "case r of None \<Rightarrow> live hp' = (live hp1)(p := None)
           | Some (p', bs, n') \<Rightarrow> p' = p \<and> n' = ?n \<and> hp' = hp1 \<and> length bs = unat ?n \<and>
               (\<exists>cs a. h' = ?h3 @ cs @ [(Close ?fd, a)] \<and> reads_of ?fd cs \<and> bs = received cs)"
        using ok m Some by (simp add: amfile_read_def Let_def) blast
      have "?fd \<notin> open_fds h" using assms(2) ok unfolding fresh_spec_def by simp
      then have o: "open_fds (?h3 @ cs @ [(Close ?fd, a)]) = open_fds h" if "reads_of ?fd cs" for cs a using ok read_fds [OF that] by simp
      have h: "?h3 @ cs @ [(Close ?fd, a)] = h @ drop (length h) ?h3 @ cs @ [(Close ?fd, a)]" for cs a by simp
      show ?thesis
      proof (cases r)
        case None
        then show ?thesis using r mp(1,2) by auto
      next
        case (Some x)
        with r(2) obtain bs cs a where x: "x = (p, bs, ?n)" "hp' = hp1" "length bs = unat ?n" "h' = ?h3 @ cs @ [(Close ?fd, a)]"
          "reads_of ?fd cs" "bs = received cs" by (cases x) auto
        have "\<exists>fd pre cs post. h' = h @ pre @ cs @ post \<and> reads_of fd cs \<and> bs = received cs" unfolding x(4) h using x(5,6) by blast
        moreover have "open_fds h' = open_fds h" unfolding x(4) by (rule o [OF x(5)])
        ultimately show ?thesis using r(1) Some x(1-3) mp(1,2) w by auto
      qed
    qed
  qed
qed

text \<open>A kernel with a file of three bytes, which it gives at once.\<close>

definition file_kernel :: kernel where
  "file_kernel h c =
     (let none = \<lparr>ret = 0, errno = 0, data = [], peer = None, infos = []\<rparr>
      in if makes_fd c then none\<lparr>ret := next_fd h\<rparr>
         else (case c of
                 Read d n \<Rightarrow> none\<lparr>ret := int (min n 3), data := take n [1, 2, 3]\<rparr>
               | Lseek d off whence \<Rightarrow> none\<lparr>ret := (if whence = SEEK_END then 3 else 0)\<rparr>
               | _ \<Rightarrow> none))"

lemma file_specs: "read_spec file_kernel" "fresh_spec file_kernel" "seek_spec file_kernel"
  using next_fd_fresh by (auto simp: read_spec_def fresh_spec_def seek_spec_def file_kernel_def Let_def min_def)

lemma file_answers:
  "ret (file_kernel h (Read d 3)) = 3" "data (file_kernel h (Read d 3)) = [1, 2, 3]"
  "ret (file_kernel h (Open f n)) = next_fd h" "ret (file_kernel h (Lseek d off SEEK_END)) = 3"
  by (simp_all add: file_kernel_def Let_def)

lemma next_fd_pos: "0 \<le> next_fd h"
  by (induction h) (auto simp: next_fd_def)

lemma file_reads: "\<exists>h'. amfd_read file_kernel fd [0, 0, 0] 3 h = Some (AMRC_SUCCESS, [1, 2, 3], h')"
proof -
  have c: "c_int 3 = 3" by (rule c_int_id) simp_all
  have "amfd_read file_kernel fd [0, 0, 0] 3 h =
      read_loop file_kernel fd [1, 2, 3] 3 0 (h @ [(Read fd 3, file_kernel h (Read fd 3))])"
    unfolding amfd_read_def by (subst read_loop.simps) (simp add: file_answers c stored_def)
  also have "\<dots> = Some (AMRC_SUCCESS, [1, 2, 3], h @ [(Read fd 3, file_kernel h (Read fd 3))])"
    by (subst read_loop.simps) simp
  finally show ?thesis by blast
qed

theorem amfile_read_correct_witness:
  "\<exists>p buf h' hp'. amfile_read file_kernel first_fit (\<lambda>_. 0) ''f'' [] \<lparr>live = Map.empty, calls = 0, refusals = 0\<rparr> = Some (Some (p, buf, 3), h', hp') \<and>
    length buf = 3 \<and> open_fds h' = {} \<and> live hp' = [p \<mapsto> 3]"
proof -
  let ?r = "amfile_read file_kernel first_fit (\<lambda>_. 0) ''f'' [] \<lparr>live = Map.empty, calls = 0, refusals = 0\<rparr>"
  have m: "malloc first_fit 3 \<lparr>live = Map.empty, calls = 0, refusals = 0\<rparr> = (Some 1, \<lparr>live = [1 \<mapsto> 3], calls = 1, refusals = 0\<rparr>)"
    by (simp add: malloc_def first_fit_def Let_def upt_conv_Cons)
  have j: "map (\<lambda>_. 0 :: u8) [0 ..< 3] = [0, 0, 0]" by (simp add: upt_conv_Cons)
  obtain h1 where "amfd_read file_kernel (next_fd []) [0, 0, 0] 3
      [(Open ''f'' O_RDONLY, file_kernel [] (Open ''f'' O_RDONLY)),
       (Lseek (next_fd []) 0 SEEK_END, file_kernel [(Open ''f'' O_RDONLY, file_kernel [] (Open ''f'' O_RDONLY))] (Lseek (next_fd []) 0 SEEK_END)),
       (Lseek (next_fd []) 0 SEEK_SET,
        file_kernel [(Open ''f'' O_RDONLY, file_kernel [] (Open ''f'' O_RDONLY)),
          (Lseek (next_fd []) 0 SEEK_END, file_kernel [(Open ''f'' O_RDONLY, file_kernel [] (Open ''f'' O_RDONLY))] (Lseek (next_fd []) 0 SEEK_END))]
          (Lseek (next_fd []) 0 SEEK_SET))] = Some (AMRC_SUCCESS, [1, 2, 3], h1)"
    using file_reads by blast
  then obtain h' hp' where r: "?r = Some (Some (1, [1, 2, 3], 3), h', hp')"
    using next_fd_pos [of "[]"] by (simp add: amfile_read_def Let_def file_answers m j)
  show ?thesis
    using amfile_read_correct [OF file_specs first_fit_spec, of "\<lambda>_. 0" "''f''" "[]" "\<lparr>live = Map.empty, calls = 0, refusals = 0\<rparr>"] r
    by (intro exI [of _ 1] exI [of _ "[1, 2, 3]"] exI [of _ h'] exI [of _ hp']) (simp add: open_fds_def)
qed

text \<open>
  What goes wrong: descriptors that stay open, and a failed write of \<open>2 ^ 32 - 1\<close> bytes that passes for a success.
\<close>

lemma connect_leaks:
  assumes "sa_family a = AF_INET" and "K h (Socket 2 1 0) = s" and "0 \<le> ret s" and
    "ret (K (h @ [(Socket 2 1 0, s)]) (Connect (ret s) a 16)) = -1"
  shows "\<exists>h'. amskt_connect K a h = (AMRC_ERROR, None, h') \<and> open_fds h' = insert (ret s) (open_fds h)"
  using assms by (auto simp: amskt_connect_def Let_def AF_INET_def SOCK_STREAM_def SIZEOF_SOCKADDR_def)

lemma file_leaks:
  assumes "K h (Open f O_RDONLY) = s" and "0 \<le> ret s" and "ret (K (h @ [(Open f O_RDONLY, s)]) (Lseek (ret s) 0 SEEK_END)) = -1"
  shows "\<exists>h'. amfile_read K alloc junk f h hp = Some (None, h', hp) \<and> open_fds h' = insert (ret s) (open_fds h)"
  using assms by (auto simp: amfile_read_def Let_def)

lemma write_failure_missed:
  assumes n: "n = -1" and "unat n \<le> length buf" and "ret (K h (Write fd (take (unat n) buf))) = -1"
  shows "\<exists>h'. amfd_write K fd buf n h = Some (AMRC_SUCCESS, h')"
proof -
  have "sint n = -1" unfolding n by simp
  then show ?thesis using assms(2,3) by (simp add: amfd_write_def Let_def)
qed

end
