(* ===== verification/AmDump.thy ===== *)
theory AmDump
  imports Prelude
begin

text \<open>
  The formatting of binary data in \<^verbatim>\<open>libam_log.c\<close>: \<open>amlog_hex\<close> and \<open>amlog_dump\<close>, and their properties. Lengths are of type \<^verbatim>\<open>int\<close>; the
  output is a buffer of characters in which a write past the end is \<open>None\<close>.
\<close>

section \<open>Text in hexadecimal\<close>

definition hex_digit :: "nat \<Rightarrow> char" where
  "hex_digit d = (if d < 10 then char_of (48 + d) else char_of (87 + d))"

text \<open>\<^verbatim>\<open>%02x\<close> of a byte and \<^verbatim>\<open>%lx\<close>.\<close>

definition hex2 :: "u8 \<Rightarrow> string" where
  "hex2 b = [hex_digit (unat b div 16), hex_digit (unat b mod 16)]"

fun hex_number :: "nat \<Rightarrow> string" where
  "hex_number n = (if n < 16 then [hex_digit n] else hex_number (n div 16) @ [hex_digit (n mod 16)])"

declare hex_number.simps [simp del]

definition pad_zero :: "nat \<Rightarrow> string \<Rightarrow> string" where
  "pad_zero w s = replicate (w - length s) CHR ''0'' @ s"

text \<open>\<^verbatim>\<open>snprintf\<close> at a place of the buffer, and the end of the output with the number of characters in it.\<close>

definition snprintf_at :: "string \<Rightarrow> nat \<Rightarrow> nat \<Rightarrow> string \<Rightarrow> string option" where
  "snprintf_at out at n s = map_option (\<lambda>b. take at out @ b) (snprintf (drop at out) n s)"

definition terminate_at :: "string \<Rightarrow> nat \<Rightarrow> string option" where
  "terminate_at out at = (if at < length out then Some (out[at := NUL]) else None)"

text \<open>The loop reads the bytes in order; \<open>done\<close> counts them.\<close>

fun hex_loop :: "u8 list \<Rightarrow> int \<Rightarrow> string \<Rightarrow> nat \<Rightarrow> int \<Rightarrow> int \<Rightarrow> (int \<times> string) option" where
  "hex_loop bs len out at olen n =
     (if 0 < len \<and> 2 < olen then
        (case bs of
           [] \<Rightarrow> None
         | b # bs \<Rightarrow> do { out \<leftarrow> snprintf_at out at 3 (hex2 b); hex_loop bs (len - 1) out (at + 2) (olen - 2) (n + 1) })
      else do { out \<leftarrow> terminate_at out at; Some (n, out) })"

declare hex_loop.simps [simp del]

definition amlog_hex :: "u8 list \<Rightarrow> int \<Rightarrow> string \<Rightarrow> int \<Rightarrow> (int \<times> string) option" where
  "amlog_hex buf len out olen = hex_loop buf len out 0 olen 0"

section \<open>Dump\<close>

definition isprint :: "u8 \<Rightarrow> bool" where "isprint b \<longleftrightarrow> 32 \<le> b \<and> b \<le> 126"

definition byte_char :: "u8 \<Rightarrow> char" where "byte_char b = char_of (unat b)"

text \<open>
  The local arrays \<^verbatim>\<open>hex\<close> of 50 and \<^verbatim>\<open>asc\<close> of 18 characters are the lists written so far; \<^verbatim>\<open>sprintf\<close> of three characters also
  writes a NUL. The other components are \<^verbatim>\<open>skip\<close> and the number of bytes read.
\<close>

definition HEX_SIZE :: nat where "HEX_SIZE = 16 * 3 + 2"
definition ASC_SIZE :: nat where "ASC_SIZE = 16 + 2"

definition dump_cell :: "u8 list \<Rightarrow> int \<Rightarrow> nat \<Rightarrow> string \<times> string \<times> u8 \<times> nat \<Rightarrow> (string \<times> string \<times> u8 \<times> nat) option" where
  "dump_cell buf len i st =
     (case st of (hex, asc, skip, p) \<Rightarrow>
        do { (hex, asc) \<leftarrow> (if i = 8 then do { c_assert (length hex < HEX_SIZE \<and> length asc < ASC_SIZE); Some (hex @ '' '', asc @ '' '') }
                            else Some (hex, asc));
             c_assert (length hex + 4 \<le> HEX_SIZE \<and> length asc < ASC_SIZE);
             if 0 < skip \<or> int p \<ge> len then Some (hex @ ''   '', asc @ '' '', skip - 1, p)
             else do { c_assert (p < length buf);
                       Some (hex @ hex2 (buf ! p) @ '' '', asc @ [if isprint (buf ! p) then byte_char (buf ! p) else CHR ''.''], skip, p + 1) } })"

fun dump_row :: "u8 list \<Rightarrow> int \<Rightarrow> nat list \<Rightarrow> string \<times> string \<times> u8 \<times> nat \<Rightarrow> (string \<times> string \<times> u8 \<times> nat) option" where
  "dump_row buf len [] st = Some st"
| "dump_row buf len (i # is) st = do { st \<leftarrow> dump_cell buf len i st; dump_row buf len is st }"

definition dump_line :: "nat \<Rightarrow> string \<Rightarrow> string \<Rightarrow> string" where
  "dump_line line_address hex asc = pad_zero 6 (hex_number line_address) @ '' '' @ hex @ '' '' @ asc @ [CHR 0x0A]"

definition dump_end :: "string \<Rightarrow> nat \<Rightarrow> (nat \<times> string) option" where
  "dump_end out at = do { out \<leftarrow> terminate_at out at; Some (at, out) }"

text \<open>An \<^verbatim>\<open>output_length\<close> that is not positive leads to a write before the buffer.\<close>

partial_function (option) dump_loop ::
    "u8 list \<Rightarrow> int \<Rightarrow> u64 \<Rightarrow> u64 \<Rightarrow> u8 \<Rightarrow> nat \<Rightarrow> string \<Rightarrow> nat \<Rightarrow> int \<Rightarrow> (nat \<times> string) option" where
  "dump_loop buf len start_offset line_address skip p out at olen =
     (if \<not> line_address < start_offset + word_of_int len then dump_end out at
      else do { (hex, asc, skip, p) \<leftarrow> dump_row buf len [0 ..< 16] ([], [], skip, p);
                c_assert (length hex < HEX_SIZE \<and> length asc < ASC_SIZE \<and> 0 < olen);
                let text = dump_line (unat line_address) hex asc;
                out \<leftarrow> snprintf_at out at (nat olen) text;
                let added = int (length text);
                if added \<ge> olen then dump_end out (at + nat olen - 1)
                else dump_loop buf len start_offset (line_address + 16) skip p out (at + length text) (olen - added) })"

declare dump_loop.simps [code]

definition amlog_dump :: "u8 list \<Rightarrow> int \<Rightarrow> string \<Rightarrow> int \<Rightarrow> u64 \<Rightarrow> (nat \<times> string) option" where
  "amlog_dump buf len out olen start_offset =
     (let skip = ucast (start_offset AND 0xF) :: u8
      in dump_loop buf len start_offset (start_offset - ucast skip) skip 0 out 0 olen)"

section \<open>Writing into the buffer\<close>

text \<open>The buffer holds a text and its NUL at a place.\<close>

definition holds_text :: "string \<Rightarrow> string \<Rightarrow> bool" where
  "holds_text out t \<longleftrightarrow> (\<exists>rest. out = t @ NUL # rest)"

lemma holds_cstring: "holds_text out t \<Longrightarrow> NUL \<notin> set t \<Longrightarrow> cstring out = t"
  by (auto simp: holds_text_def cstring_append_NUL)

lemma snprintf_at_ok:
  assumes "0 < n" and "at + n \<le> length out"
  shows "\<exists>out'. snprintf_at out at n s = Some out' \<and> length out' = length out \<and> holds_text out' (take at out @ take (n - 1) s)"
proof -
  let ?w = "take (n - 1) s @ [NUL]"
  have l: "length ?w \<le> length (drop at out)" using assms by simp
  have "snprintf_at out at n s = Some (take at out @ ?w @ drop (length ?w) (drop at out))"
    using assms l by (simp add: snprintf_at_def snprintf_def Let_def)
  moreover have "length (take at out @ ?w @ drop (length ?w) (drop at out)) = length out" using l assms by simp
  moreover have "holds_text (take at out @ ?w @ drop (length ?w) (drop at out)) (take at out @ take (n - 1) s)"
    by (auto simp: holds_text_def)
  ultimately show ?thesis by blast
qed

lemma terminate_ok: "at < length out \<Longrightarrow> \<exists>out'. terminate_at out at = Some out' \<and> length out' = length out \<and> holds_text out' (take at out)"
  by (auto simp: terminate_at_def holds_text_def upd_conv_take_nth_drop)

lemma holds_take: "holds_text out t \<Longrightarrow> k \<le> length t \<Longrightarrow> take k out = take k t"
  by (auto simp: holds_text_def)

lemma holds_length: "holds_text out t \<Longrightarrow> length t < length out"
  by (auto simp: holds_text_def)

section \<open>Hexadecimal strings\<close>

lemma hex_loop_ok:
  "int (length bs) \<ge> len \<Longrightarrow> 0 < olen \<Longrightarrow> at + nat olen \<le> length out \<Longrightarrow>
    \<exists>out'. hex_loop bs len out at olen n = Some (n + min (max len 0) ((olen - 1) div 2), out') \<and> length out' = length out \<and>
      holds_text out' (take at out @ concat (map hex2 (take (nat (min len ((olen - 1) div 2))) bs)))"
proof (induction bs len out at olen n rule: hex_loop.induct)
  case (1 bs len out at olen n)
  show ?case
  proof (cases "0 < len \<and> 2 < olen")
    case False
    have "at < length out" using 1(3,4) by linarith
    from terminate_ok [OF this] obtain out' where t: "terminate_at out at = Some out'" "length out' = length out"
      "holds_text out' (take at out)" by blast
    have z: "min (max len 0) ((olen - 1) div 2) = 0"
    proof (cases "len \<le> 0")
      case True
      then show ?thesis using 1(3) by simp
    next
      case pos: False
      then have "(olen - 1) div 2 = 0" using False 1(3) by (intro div_pos_pos_trivial) linarith+
      then show ?thesis using pos by simp
    qed
    then have "min len ((olen - 1) div 2) \<le> 0" by linarith
    then show ?thesis using False t z by (subst hex_loop.simps) auto
  next
    case True
    then obtain b bs' where bs: "bs = b # bs'" using 1(2) by (cases bs) auto
    have room: "at + 3 \<le> length out" using True 1(4) by linarith
    have short: "take (3 - 1) (hex2 b) = hex2 b" by (simp add: hex2_def)
    from snprintf_at_ok [OF _ room, of "hex2 b", unfolded short] obtain out1
      where o: "snprintf_at out at 3 (hex2 b) = Some out1" "length out1 = length out" "holds_text out1 (take at out @ hex2 b)"
      by auto
    have tk: "take (at + 2) out1 = take at out @ hex2 b"
      using holds_take [OF o(3), of "at + 2"] True 1(4) by (simp add: hex2_def)
    have d: "(olen - 1) div 2 = (olen - 2 - 1) div 2 + 1" by simp
    have p: "0 < olen - 2" "at + 2 + nat (olen - 2) \<le> length out1" "int (length bs') \<ge> len - 1" using True 1(2,4) o(2) bs by auto
    from 1(1) [OF True bs o(1) p(3,1,2)] obtain out' where i:
      "hex_loop bs' (len - 1) out1 (at + 2) (olen - 2) (n + 1) = Some (n + 1 + min (max (len - 1) 0) ((olen - 2 - 1) div 2), out')"
      "length out' = length out1" "holds_text out' (take (at + 2) out1 @ concat (map hex2 (take (nat (min (len - 1) ((olen - 2 - 1) div 2))) bs')))"
      by blast
    have m: "n + 1 + min (max (len - 1) 0) ((olen - 2 - 1) div 2) = n + min (max len 0) ((olen - 1) div 2)"
      unfolding d using True by linarith
    have "nat (min len ((olen - 1) div 2)) = Suc (nat (min (len - 1) ((olen - 2 - 1) div 2)))"
      unfolding d using True p(1) by linarith
    then have "concat (map hex2 (take (nat (min len ((olen - 1) div 2))) bs)) =
        hex2 b @ concat (map hex2 (take (nat (min (len - 1) ((olen - 2 - 1) div 2))) bs'))"
      unfolding bs by (simp only: take_Suc_Cons list.map concat.simps)
    then have t: "holds_text out' (take at out @ concat (map hex2 (take (nat (min len ((olen - 1) div 2))) bs)))"
      using i(3) by (simp only: tk append_assoc)
    have "hex_loop bs len out at olen n = hex_loop bs' (len - 1) out1 (at + 2) (olen - 2) (n + 1)"
      using True o(1) by (subst hex_loop.simps) (simp add: bs)
    then have "hex_loop bs len out at olen n = Some (n + min (max len 0) ((olen - 1) div 2), out')" by (simp only: i(1) m)
    then show ?thesis using i(2) o(2) t by (intro exI [of _ out']) simp
  qed
qed

section \<open>Reference dump\<close>

text \<open>A line of the reference dump covers the sixteen addresses from \<open>a\<close> on; the data lies at the addresses from \<open>start\<close> on.\<close>

definition ref_hex :: "u8 list \<Rightarrow> nat \<Rightarrow> nat \<Rightarrow> string" where
  "ref_hex bs start a = (if start \<le> a \<and> a < start + length bs then hex2 (bs ! (a - start)) @ '' '' else ''   '')"

definition ref_asc :: "u8 list \<Rightarrow> nat \<Rightarrow> nat \<Rightarrow> char" where
  "ref_asc bs start a =
     (if start \<le> a \<and> a < start + length bs
      then (if isprint (bs ! (a - start)) then byte_char (bs ! (a - start)) else CHR ''.'') else CHR '' '')"

definition ref_line :: "u8 list \<Rightarrow> nat \<Rightarrow> nat \<Rightarrow> string" where
  "ref_line bs start a = dump_line a
     (concat (map (ref_hex bs start) [a ..< a + 8]) @ '' '' @ concat (map (ref_hex bs start) [a + 8 ..< a + 16]))
     (map (ref_asc bs start) [a ..< a + 8] @ '' '' @ map (ref_asc bs start) [a + 8 ..< a + 16])"

fun ref_lines :: "u8 list \<Rightarrow> nat \<Rightarrow> nat \<Rightarrow> nat \<Rightarrow> string" where
  "ref_lines bs start a 0 = []"
| "ref_lines bs start a (Suc k) = ref_line bs start a @ ref_lines bs start (a + 16) k"

text \<open>The lines begin at multiples of 16 and are as many as the data touches.\<close>

definition ref_dump :: "u8 list \<Rightarrow> nat \<Rightarrow> string" where
  "ref_dump bs start = ref_lines bs start (start - start mod 16) ((start mod 16 + length bs + 15) div 16)"

section \<open>A line of the dump\<close>

text \<open>The next cell is that of address \<open>a\<close>: before the data, in it, or after it.\<close>

definition cursor_at :: "nat \<Rightarrow> nat \<Rightarrow> nat \<Rightarrow> u8 \<Rightarrow> nat \<Rightarrow> bool" where
  "cursor_at start len a skip p \<longleftrightarrow>
     p = 0 \<and> 0 < skip \<and> a + unat skip = start \<or> skip = 0 \<and> start \<le> a \<and> a < start + len \<and> p = a - start \<or> p = len \<and> start + len \<le> a"

definition hex_cells :: "u8 list \<Rightarrow> nat \<Rightarrow> nat \<Rightarrow> nat list \<Rightarrow> string" where
  "hex_cells bs start a is = concat (map (\<lambda>i. (if i = 8 then '' '' else []) @ ref_hex bs start (a + i)) is)"

definition asc_cells :: "u8 list \<Rightarrow> nat \<Rightarrow> nat \<Rightarrow> nat list \<Rightarrow> string" where
  "asc_cells bs start a is = concat (map (\<lambda>i. (if i = 8 then '' '' else []) @ [ref_asc bs start (a + i)]) is)"

lemma hex2_length [simp]: "length (hex2 b) = 2"
  by (simp add: hex2_def)

lemma ref_hex_length [simp]: "length (ref_hex bs start a) = 3"
  by (simp add: ref_hex_def)

lemma unat_minus_one_u8: "0 < (x::u8) \<Longrightarrow> unat (x - 1) = unat x - 1"
  by (simp add: word_gt_0 unat_minus_one)

lemma cell_ok:
  assumes c: "cursor_at start (length bs) (a + i) skip p"
    and l: "length hex = 3 * i + (if 8 < i then 1 else 0)" "length asc = i + (if 8 < i then 1 else 0)" "i < 16"
  shows "\<exists>skip' p'. dump_cell bs (int (length bs)) i (hex, asc, skip, p) =
      Some (hex @ hex_cells bs start a [i], asc @ asc_cells bs start a [i], skip', p') \<and> cursor_at start (length bs) (a + Suc i) skip' p'"
proof -
  consider (before) "p = 0" "0 < skip" "a + i + unat skip = start" | (inside) "skip = 0" "start \<le> a + i" "a + i < start + length bs" "p = a + i - start"
    | (after) "p = length bs" "start + length bs \<le> a + i"
    using c by (auto simp: cursor_at_def)
  then show ?thesis
  proof cases
    case before
    have u: "0 < unat skip" using before(2) by (simp add: word_gt_0 unat_gt_0)
    have "a + i < start" using u before(3) by linarith
    moreover have "cursor_at start (length bs) (a + Suc i) (skip - 1) p"
    proof (cases "skip - 1 = 0")
      case True
      then have "unat skip = 1" using unat_minus_one_u8 [OF before(2)] u by simp
      then show ?thesis using before(1,3) True by (cases "bs = []") (auto simp: cursor_at_def)
    next
      case False
      then show ?thesis using before(1,3) u unat_minus_one_u8 [OF before(2)] by (auto simp: cursor_at_def word_gt_0)
    qed
    ultimately show ?thesis using l before(1,2)
      by (auto simp: dump_cell_def hex_cells_def asc_cells_def ref_hex_def ref_asc_def HEX_SIZE_def ASC_SIZE_def)
  next
    case inside
    then have "p < length bs" by linarith
    moreover have "cursor_at start (length bs) (a + Suc i) 0 (p + 1)" using inside by (auto simp: cursor_at_def)
    ultimately show ?thesis using l inside
      by (auto simp: dump_cell_def hex_cells_def asc_cells_def ref_hex_def ref_asc_def HEX_SIZE_def ASC_SIZE_def)
  next
    case after
    have "cursor_at start (length bs) (a + Suc i) (skip - 1) p" using after by (auto simp: cursor_at_def)
    then show ?thesis using l after
      by (auto simp: dump_cell_def hex_cells_def asc_cells_def ref_hex_def ref_asc_def HEX_SIZE_def ASC_SIZE_def)
  qed
qed

lemma cells_Cons:
  "hex_cells bs start a (i # is) = hex_cells bs start a [i] @ hex_cells bs start a is"
  "asc_cells bs start a (i # is) = asc_cells bs start a [i] @ asc_cells bs start a is"
  by (simp_all add: hex_cells_def asc_cells_def)

lemma row_ok:
  "cursor_at start (length bs) (a + i) skip p \<Longrightarrow> length hex = 3 * i + (if 8 < i then 1 else 0) \<Longrightarrow>
    length asc = i + (if 8 < i then 1 else 0) \<Longrightarrow> i + d = 16 \<Longrightarrow>
    \<exists>skip' p'. dump_row bs (int (length bs)) [i ..< 16] (hex, asc, skip, p) =
      Some (hex @ hex_cells bs start a [i ..< 16], asc @ asc_cells bs start a [i ..< 16], skip', p') \<and>
      cursor_at start (length bs) (a + 16) skip' p'"
proof (induction d arbitrary: i hex asc skip p)
  case 0
  then show ?case by (auto simp: hex_cells_def asc_cells_def)
next
  case (Suc d)
  have i: "i < 16" using Suc.prems(4) by simp
  from cell_ok [OF Suc.prems(1-3) i] obtain skip1 p1 where
    c: "dump_cell bs (int (length bs)) i (hex, asc, skip, p) =
          Some (hex @ hex_cells bs start a [i], asc @ asc_cells bs start a [i], skip1, p1)"
      "cursor_at start (length bs) (a + Suc i) skip1 p1" by blast
  have lh: "length (hex @ hex_cells bs start a [i]) = 3 * Suc i + (if 8 < Suc i then 1 else 0)"
    using Suc.prems(2) by (auto simp: hex_cells_def)
  have la: "length (asc @ asc_cells bs start a [i]) = Suc i + (if 8 < Suc i then 1 else 0)"
    using Suc.prems(3) by (auto simp: asc_cells_def)
  have "Suc i + d = 16" using Suc.prems(4) by simp
  from Suc.IH [OF c(2) lh la this] obtain skip' p' where
    r: "dump_row bs (int (length bs)) [Suc i ..< 16] (hex @ hex_cells bs start a [i], asc @ asc_cells bs start a [i], skip1, p1) =
          Some ((hex @ hex_cells bs start a [i]) @ hex_cells bs start a [Suc i ..< 16],
                (asc @ asc_cells bs start a [i]) @ asc_cells bs start a [Suc i ..< 16], skip', p')"
      "cursor_at start (length bs) (a + 16) skip' p'" by blast
  have u: "[i ..< 16] = i # [Suc i ..< 16]" using i by (rule upt_conv_Cons)
  show ?case
    unfolding u cells_Cons(1) [of bs start a i "[Suc i ..< 16]"] cells_Cons(2) [of bs start a i "[Suc i ..< 16]"]
    using c(1) r by simp
qed

lemma upt_shift: "map (\<lambda>i. f (a + i)) [m ..< n] = map f [a + m ..< a + (n::nat)]"
  by (induction n) auto

lemma upt_16: "[0 ..< 16] = [0 ..< 8] @ 8 # [9 ..< (16::nat)]"
  using upt_add_eq_append [of 0 8 8] by (simp add: upt_conv_Cons [of 8 16])

lemma cells_append:
  "hex_cells bs start a (is @ js) = hex_cells bs start a is @ hex_cells bs start a js"
  "asc_cells bs start a (is @ js) = asc_cells bs start a is @ asc_cells bs start a js"
  by (simp_all add: hex_cells_def asc_cells_def)

lemma cells_plain:
  "8 \<notin> set is \<Longrightarrow> hex_cells bs start a is = concat (map (\<lambda>i. ref_hex bs start (a + i)) is)"
  "8 \<notin> set is \<Longrightarrow> asc_cells bs start a is = map (\<lambda>i. ref_asc bs start (a + i)) is"
  by (induction "is") (auto simp: hex_cells_def asc_cells_def)

lemma ref_line_cells: "ref_line bs start a = dump_line a (hex_cells bs start a [0 ..< 16]) (asc_cells bs start a [0 ..< 16])"
proof -
  have m: "map f [a + 8 ..< a + 16] = f (a + 8) # map (\<lambda>i. f (a + i)) [9 ..< 16]" for f :: "nat \<Rightarrow> 'x"
    unfolding upt_shift by (simp add: upt_conv_Cons [of "a + 8" "a + 16"] add.commute [of 9])
  have z: "map f [a ..< a + 8] = map (\<lambda>i. f (a + i)) [0 ..< 8]" for f :: "nat \<Rightarrow> 'x"
    unfolding upt_shift by simp
  have "hex_cells bs start a [0 ..< 16] =
      concat (map (ref_hex bs start) [a ..< a + 8]) @ '' '' @ concat (map (ref_hex bs start) [a + 8 ..< a + 16])"
    unfolding m z upt_16 by (simp add: cells_append cells_Cons(1) [of _ _ _ 8 "[9 ..< 16]"] cells_plain) (simp add: hex_cells_def)
  moreover have "asc_cells bs start a [0 ..< 16] =
      map (ref_asc bs start) [a ..< a + 8] @ '' '' @ map (ref_asc bs start) [a + 8 ..< a + 16]"
    unfolding m z upt_16 by (simp add: cells_append cells_Cons(2) [of _ _ _ 8 "[9 ..< 16]"] cells_plain) (simp add: asc_cells_def)
  ultimately show ?thesis by (simp only: ref_line_def)
qed

section \<open>The whole dump\<close>

lemma cells_length:
  "length (hex_cells bs start a [0 ..< 16]) < HEX_SIZE" "length (asc_cells bs start a [0 ..< 16]) < ASC_SIZE"
proof -
  have "length (hex_cells bs start a is) = 3 * length is + length (filter (\<lambda>i. i = 8) is)" for "is" :: "nat list"
    by (induction "is") (auto simp: hex_cells_def)
  moreover have "length (asc_cells bs start a is) = length is + length (filter (\<lambda>i. i = 8) is)" for "is" :: "nat list"
    by (induction "is") (auto simp: asc_cells_def)
  ultimately show "length (hex_cells bs start a [0 ..< 16]) < HEX_SIZE" "length (asc_cells bs start a [0 ..< 16]) < ASC_SIZE"
    by (simp_all add: HEX_SIZE_def ASC_SIZE_def upt_16)
qed

text \<open>One turn of the loop on a line within the data.\<close>

lemma dump_turn:
  assumes "cursor_at (unat start) (length bs) a skip p" and "unat start + length bs < 2 ^ 64 - 16" and "a < unat start + length bs"
    and "0 < olen" and "at + nat olen \<le> length out"
  shows "\<exists>skip' p' out'. dump_loop bs (int (length bs)) start (word_of_nat a) skip p out at olen =
        (if int (length (ref_line bs (unat start) a)) \<ge> olen then dump_end out' (at + nat olen - 1)
         else dump_loop bs (int (length bs)) start (word_of_nat (a + 16)) skip' p' out' (at + length (ref_line bs (unat start) a))
           (olen - int (length (ref_line bs (unat start) a)))) \<and>
      cursor_at (unat start) (length bs) (a + 16) skip' p' \<and> length out' = length out \<and>
      holds_text out' (take at out @ take (nat olen - 1) (ref_line bs (unat start) a))"
proof -
  let ?line = "ref_line bs (unat start) a"
  have "cursor_at (unat start) (length bs) (a + 0) skip p" using assms(1) by simp
  from row_ok [OF this, of "[]" "[]" 16] obtain skip' p' where
    r: "dump_row bs (int (length bs)) [0 ..< 16] ([], [], skip, p) =
          Some (hex_cells bs (unat start) a [0 ..< 16], asc_cells bs (unat start) a [0 ..< 16], skip', p')"
      "cursor_at (unat start) (length bs) (a + 16) skip' p'" by auto
  have ua: "unat (word_of_nat a :: u64) = a" using assms(2,3) by (simp add: unat_of_nat take_bit_nat_eq_self)
  have us: "unat (start + word_of_int (int (length bs))) = unat start + length bs"
  proof -
    have "unat (word_of_nat (length bs) :: u64) = length bs" using assms(2) by (simp add: unat_of_nat take_bit_nat_eq_self)
    then show ?thesis using assms(2) by (simp add: unat_word_ariths)
  qed
  have g: "(word_of_nat a :: u64) < start + word_of_int (int (length bs))"
    unfolding word_less_nat_alt us ua by (rule assms(3))
  have t: "dump_line (unat (word_of_nat a :: u64)) (hex_cells bs (unat start) a [0 ..< 16]) (asc_cells bs (unat start) a [0 ..< 16]) = ?line"
    by (simp only: ua ref_line_cells)
  have "0 < nat olen" using assms(4) by simp
  from snprintf_at_ok [OF this assms(5), of ?line] obtain out' where
    w: "snprintf_at out at (nat olen) ?line = Some out'" "length out' = length out" "holds_text out' (take at out @ take (nat olen - 1) ?line)"
    by blast
  have n: "(word_of_nat a :: u64) + 16 = word_of_nat (a + 16)" by simp
  have "dump_loop bs (int (length bs)) start (word_of_nat a) skip p out at olen =
      (if int (length ?line) \<ge> olen then dump_end out' (at + nat olen - 1)
       else dump_loop bs (int (length bs)) start (word_of_nat (a + 16)) skip' p' out' (at + length ?line) (olen - int (length ?line)))"
    by (subst dump_loop.simps) (simp only: g not_True_eq_False if_False r(1) bind.bind_lunit prod.case cells_length assms(4) simp_thms
      c_assert_simps Let_def t w(1) n)
  then show ?thesis using r(2) w(2,3) by blast
qed

lemma dump_loop_ok:
  "cursor_at (unat start) (length bs) a skip p \<Longrightarrow> unat start + length bs < 2 ^ 64 - 16 \<Longrightarrow> a < unat start + length bs + 16 \<Longrightarrow>
    k = (unat start + length bs - a + 15) div 16 \<Longrightarrow> 0 < olen \<Longrightarrow> at + nat olen \<le> length out \<Longrightarrow>
    \<exists>out'. dump_loop bs (int (length bs)) start (word_of_nat a) skip p out at olen =
        Some (at + min (nat olen - 1) (length (ref_lines bs (unat start) a k)), out') \<and> length out' = length out \<and>
      holds_text out' (take at out @ take (nat olen - 1) (ref_lines bs (unat start) a k))"
proof (induction k arbitrary: a skip p out at olen)
  case 0
  have a: "unat start + length bs \<le> a" using "0.prems"(4) by (simp add: div_eq_0_iff)
  have ua: "unat (word_of_nat a :: u64) = a" using "0.prems"(2,3) by (simp add: unat_of_nat take_bit_nat_eq_self)
  have us: "unat (start + word_of_int (int (length bs))) = unat start + length bs"
    using "0.prems"(2) by (simp add: unat_word_ariths unat_of_nat take_bit_nat_eq_self)
  have g: "\<not> (word_of_nat a :: u64) < start + word_of_int (int (length bs))" unfolding word_less_nat_alt us ua using a by simp
  have "at < length out" using "0.prems"(5,6) by linarith
  from terminate_ok [OF this] obtain out' where t: "terminate_at out at = Some out'" "length out' = length out" "holds_text out' (take at out)"
    by blast
  have "dump_loop bs (int (length bs)) start (word_of_nat a) skip p out at olen = Some (at, out')"
    by (subst dump_loop.simps) (simp only: g not_False_eq_True if_True dump_end_def t(1) bind.bind_lunit)
  then show ?case using t(2,3) by (intro exI [of _ out']) simp
next
  case (Suc k)
  let ?line = "ref_line bs (unat start) a"
  let ?rest = "ref_lines bs (unat start) (a + 16) k"
  have a: "a < unat start + length bs" using Suc.prems(4) by (cases "a < unat start + length bs") auto
  from dump_turn [OF Suc.prems(1,2) a Suc.prems(5,6)] obtain skip' p' out1 where
    d: "dump_loop bs (int (length bs)) start (word_of_nat a) skip p out at olen =
        (if int (length ?line) \<ge> olen then dump_end out1 (at + nat olen - 1)
         else dump_loop bs (int (length bs)) start (word_of_nat (a + 16)) skip' p' out1 (at + length ?line) (olen - int (length ?line)))"
      "cursor_at (unat start) (length bs) (a + 16) skip' p'" "length out1 = length out"
      "holds_text out1 (take at out @ take (nat olen - 1) ?line)" by blast
  have room: "at \<le> length out" using Suc.prems(6) by simp
  show ?case
  proof (cases "int (length ?line) \<ge> olen")
    case True
    have "at + nat olen - 1 < length out1" using d(3) Suc.prems(5,6) by linarith
    from terminate_ok [OF this] obtain out' where t: "terminate_at out1 (at + nat olen - 1) = Some out'" "length out' = length out1"
      "holds_text out' (take (at + nat olen - 1) out1)" by blast
    have "length (take at out @ take (nat olen - 1) ?line) = at + nat olen - 1" using True room Suc.prems(5) by simp
    then have k: "take (at + nat olen - 1) out1 = take at out @ take (nat olen - 1) ?line" using holds_take [OF d(4)] by (metis order_refl take_all)
    have m: "take (nat olen - 1) (?line @ ?rest) = take (nat olen - 1) ?line" using True by simp
    have n: "at + min (nat olen - 1) (length (?line @ ?rest)) = at + nat olen - 1" using True Suc.prems(5) by simp
    have "dump_loop bs (int (length bs)) start (word_of_nat a) skip p out at olen = Some (at + nat olen - 1, out')"
      unfolding d(1) if_P [OF True] dump_end_def t(1) by simp
    then show ?thesis unfolding ref_lines.simps n m using t(2,3) d(3) by (intro exI [of _ out']) (simp only: k simp_thms)
  next
    case False
    then have o: "0 < olen - int (length ?line)" by simp
    have f: "at + length ?line + nat (olen - int (length ?line)) \<le> length out1" using False d(3) Suc.prems(6) by linarith
    have b: "a + 16 < unat start + length bs + 16" using a by simp
    have k: "k = (unat start + length bs - (a + 16) + 15) div 16" using Suc.prems(4) a by linarith
    from Suc.IH [OF d(2) Suc.prems(2) b k o f] obtain out' where
      i: "dump_loop bs (int (length bs)) start (word_of_nat (a + 16)) skip' p' out1 (at + length ?line) (olen - int (length ?line)) =
          Some (at + length ?line + min (nat (olen - int (length ?line)) - 1) (length ?rest), out')" "length out' = length out1"
        "holds_text out' (take (at + length ?line) out1 @ take (nat (olen - int (length ?line)) - 1) ?rest)" by blast
    have w: "take (nat olen - 1) ?line = ?line" using False by simp
    have "take (at + length ?line) out1 = take at out @ ?line"
      using holds_take [OF d(4) [unfolded w], of "at + length ?line"] room by simp
    moreover have "take (nat olen - 1) (?line @ ?rest) = ?line @ take (nat (olen - int (length ?line)) - 1) ?rest"
      using False by (simp add: nat_diff_distrib' diff_commute)
    moreover have "at + min (nat olen - 1) (length (?line @ ?rest)) =
        at + length ?line + min (nat (olen - int (length ?line)) - 1) (length ?rest)" using False by simp
    moreover have "dump_loop bs (int (length bs)) start (word_of_nat a) skip p out at olen =
        dump_loop bs (int (length bs)) start (word_of_nat (a + 16)) skip' p' out1 (at + length ?line) (olen - int (length ?line))"
      unfolding d(1) using False by simp
    ultimately show ?thesis using i d(3) unfolding ref_lines.simps by simp
  qed
qed

section \<open>Characters of the output\<close>

lemma hex_digit_not_NUL: "d < 16 \<Longrightarrow> hex_digit d \<noteq> NUL"
proof
  assume d: "d < 16" and "hex_digit d = NUL"
  then have "of_char (hex_digit d) = (0::nat)" by (simp add: NUL_def)
  then show False using d by (auto simp: hex_digit_def split: if_splits)
qed

lemma byte_nibbles: "unat (b::u8) div 16 < 16" "unat b mod 16 < 16"
  using unsigned_less [where 'b=8 and 'a=nat and w=b] by (auto simp: less_mult_imp_div_less)

lemma hex2_no_NUL: "NUL \<notin> set (hex2 b)"
  using hex_digit_not_NUL [OF byte_nibbles(1), symmetric] hex_digit_not_NUL [OF byte_nibbles(2), symmetric] by (simp add: hex2_def)

lemma hex_number_no_NUL: "NUL \<notin> set (hex_number n)"
proof (induction n rule: hex_number.induct)
  case (1 n)
  show ?case
  proof (cases "n < 16")
    case True
    then show ?thesis by (subst hex_number.simps) (simp add: hex_digit_not_NUL [symmetric])
  next
    case False
    have "hex_digit (n mod 16) \<noteq> NUL" by (rule hex_digit_not_NUL) simp
    then show ?thesis using 1 False by (subst hex_number.simps) auto
  qed
qed

lemma ref_cells_no_NUL: "NUL \<notin> set (ref_hex bs start a)" "ref_asc bs start a \<noteq> NUL"
proof -
  show "NUL \<notin> set (ref_hex bs start a)" using hex2_no_NUL by (auto simp: ref_hex_def NUL_def)
  have "byte_char b \<noteq> NUL" if "isprint b" for b
  proof -
    have "32 \<le> unat b" "unat b < 256" using that unsigned_less [where 'b=8 and 'a=nat and w=b]
      by (auto simp: isprint_def word_le_nat_alt)
    then have "of_char (byte_char b) \<noteq> (0::nat)" by (simp add: byte_char_def)
    then show ?thesis by (auto simp: NUL_def)
  qed
  then show "ref_asc bs start a \<noteq> NUL" by (auto simp: ref_asc_def NUL_def)
qed

lemma ref_line_no_NUL: "NUL \<notin> set (ref_line bs start a)"
proof -
  have "NUL \<notin> set (map (ref_asc bs start) xs)" for xs using ref_cells_no_NUL(2) [of bs start] by (auto dest: sym)
  moreover have "NUL \<notin> set (concat (map (ref_hex bs start) xs))" for xs using ref_cells_no_NUL(1) by auto
  ultimately show ?thesis using hex_number_no_NUL
    by (simp only: ref_line_def dump_line_def pad_zero_def set_append Un_iff set_replicate_conv_if) (simp add: NUL_def)
qed

lemma ref_lines_no_NUL: "NUL \<notin> set (ref_lines bs start a k)"
  by (induction k arbitrary: a) (simp_all add: ref_line_no_NUL)

text \<open>Two digits are read back.\<close>

definition hex_value :: "char \<Rightarrow> nat" where
  "hex_value c = (if of_char c < (58::nat) then of_char c - 48 else of_char c - 87)"

fun unhex :: "string \<Rightarrow> u8 list" where
  "unhex (c # d # s) = word_of_nat (16 * hex_value c + hex_value d) # unhex s"
| "unhex s = []"

lemma hex_value_digit: "d < 16 \<Longrightarrow> hex_value (hex_digit d) = d"
  by (auto simp: hex_value_def hex_digit_def)

lemma unhex_hex2: "unhex (concat (map hex2 bs)) = bs"
  by (induction bs) (simp_all add: hex2_def hex_value_digit byte_nibbles)

section \<open>Properties\<close>

text \<open>\<open>amlog_hex\<close> returns the number of bytes that it converted, which is half of the length of the text.\<close>

lemma amlog_hex_returns:
  assumes "len \<le> int (length bs)" and "0 < olen" and "nat olen \<le> length out"
  shows "\<exists>out'. amlog_hex bs len out olen = Some (min (max len 0) ((olen - 1) div 2), out') \<and> length out' = length out \<and>
      cstring out' = concat (map hex2 (take (nat (min len ((olen - 1) div 2))) bs))"
proof -
  let ?n = "nat (min len ((olen - 1) div 2))"
  from hex_loop_ok [OF assms(1,2), of 0 out 0] assms(3) obtain out' where
    h: "amlog_hex bs len out olen = Some (min (max len 0) ((olen - 1) div 2), out')" "length out' = length out"
      "holds_text out' (concat (map hex2 (take ?n bs)))" by (auto simp: amlog_hex_def)
  have "cstring out' = concat (map hex2 (take ?n bs))" using h(3) hex2_no_NUL by (intro holds_cstring) auto
  with h(1,2) show ?thesis by blast
qed

text \<open>
  C29. \<open>amlog_hex\<close> returns, writes within the output, ends it with a NUL, and converts the bytes that were asked for and fit,
  two digits each, from which the bytes are read back.
\<close>

theorem amlog_hex_correct:
  assumes "len \<le> int (length bs)" and "0 < olen" and "nat olen \<le> length out"
  shows "\<exists>r out'. amlog_hex bs len out olen = Some (r, out') \<and> length out' = length out \<and>
      length (cstring out') = 2 * nat (min len ((olen - 1) div 2)) \<and>
      unhex (cstring out') = take (nat (min len ((olen - 1) div 2))) bs"
proof -
  let ?n = "nat (min len ((olen - 1) div 2))"
  from amlog_hex_returns [OF assms] obtain r out' where
    h: "amlog_hex bs len out olen = Some (r, out')" "length out' = length out" and c: "cstring out' = concat (map hex2 (take ?n bs))" by blast
  have "?n \<le> length bs" using assms(1) by linarith
  then have "length (cstring out') = 2 * ?n" unfolding c by (simp add: length_concat comp_def sum_list_triv)
  then show ?thesis using h unhex_hex2 [of "take ?n bs"] unfolding c [symmetric] by blast
qed

theorem amlog_hex_correct_witness:
  "\<exists>r out'. amlog_hex [0x3a, 0xff, 7] 3 (replicate 6 CHR ''x'') 6 = Some (r, out') \<and> unhex (cstring out') = [0x3a, 0xff]"
  using amlog_hex_correct [of 3 "[0x3a, 0xff, 7]" 6 "replicate 6 CHR ''x''"] by (auto simp: numeral_2_eq_2)

text \<open>
  C28. \<open>amlog_dump\<close> returns, writes within the output, ends it with a NUL and leaves there the reference dump, cut
  to what fits: a line for each sixteen addresses the data touches, aligned to sixteen, with the address, two digits for each byte
  at its column and the characters; it returns the length of the text.
\<close>

theorem amlog_dump_correct:
  assumes "unat start + length bs < 2 ^ 64 - 16" and "0 < olen" and "nat olen \<le> length out"
  shows "\<exists>out'. amlog_dump bs (int (length bs)) out olen start =
        Some (min (nat olen - 1) (length (ref_dump bs (unat start))), out') \<and> length out' = length out \<and>
      cstring out' = take (nat olen - 1) (ref_dump bs (unat start))"
proof -
  let ?skip = "ucast (start AND 0xF) :: u8"
  let ?a = "unat start - unat start mod 16"
  have "start AND 0xF = take_bit 4 start" by (simp add: take_bit_eq_mask mask_eq_exp_minus_1)
  then have m: "unat (start AND 0xF) = unat start mod 16" by (simp add: take_bit_eq_mod unat_mod_distrib)
  have small: "unat start mod 16 < 256" by (rule less_trans [of _ 16]) simp_all
  have u: "unat ?skip = unat start mod 16" using small by (simp add: unsigned_ucast_eq m take_bit_nat_eq_self)
  have k: "(ucast ?skip :: u64) = word_of_nat (unat start mod 16)"
    using u by (metis of_nat_unat ucast_id word_of_nat_eq_iff)
  have l: "start - ucast ?skip = word_of_nat ?a" unfolding k by (simp add: of_nat_diff)
  have s: "?a + unat ?skip = unat start" unfolding u by simp
  have c: "cursor_at (unat start) (length bs) ?a ?skip 0"
    using s by (cases "?skip = 0") (auto simp: cursor_at_def word_gt_0)
  have "?a < unat start + length bs + 16" by simp
  moreover have "(unat start mod 16 + length bs + 15) div 16 = (unat start + length bs - ?a + 15) div 16" by simp
  ultimately obtain out' where
    d: "amlog_dump bs (int (length bs)) out olen start = Some (min (nat olen - 1) (length (ref_dump bs (unat start))), out')"
      "length out' = length out" "holds_text out' (take (nat olen - 1) (ref_dump bs (unat start)))"
    using dump_loop_ok [OF c assms(1) _ _ assms(2), of _ 0 out] assms(3)
    by (auto simp: amlog_dump_def Let_def l ref_dump_def)
  have "NUL \<notin> set (take (nat olen - 1) (ref_dump bs (unat start)))"
    using ref_lines_no_NUL by (auto simp: ref_dump_def dest: in_set_takeD)
  then show ?thesis using d holds_cstring by blast
qed

text \<open>Three bytes at address 0x1e take the last two columns of one line and the first of the next; the second line is cut.\<close>

theorem amlog_dump_correct_witness:
  "\<exists>out'. amlog_dump [0x41, 0x00, 0x7e] 3 (replicate 120 CHR ''x'') 120 0x1e = Some (119, out') \<and>
      take 62 (cstring out') = ''000010'' @ replicate 44 CHR '' '' @ ''41 00'' @ replicate 7 CHR '' ''"
proof -
  have "length (ref_dump [0x41, 0x00, 0x7e] 0x1e) = 150" by code_simp
  moreover have "take 62 (ref_dump [0x41, 0x00, 0x7e] 0x1e) = ''000010'' @ replicate 44 CHR '' '' @ ''41 00'' @ replicate 7 CHR '' ''"
    by code_simp
  ultimately show ?thesis
    using amlog_dump_correct [of "0x1e" "[0x41, 0x00, 0x7e]" 120 "replicate 120 CHR ''x''"] by (auto simp: min_def)
qed

end
