(* ===== verification/AmTimeProps.thy ===== *)
theory AmTimeProps
  imports AmTime
begin

text \<open>
  The properties of the periodic timers: the thread and the clients do not use a handle that was freed, except for the end of a stop that
  does not block; the handle is freed once; drift and period are never 0; a stopped timer ends.
\<close>

section \<open>The invariant\<close>

fun looping :: "timer_pc \<Rightarrow> bool" where
  "looping PFreeTest = False" | "looping PFree = False" | "looping PExit = False" | "looping _ = True"

fun gap_ok :: "timer_pc \<Rightarrow> bool" where
  "gap_ok (PDrift gap period) = (0 < gap)" | "gap_ok _ = True"

definition handle_ok :: "amtime_thread \<Rightarrow> bool" where
  "handle_ok h \<longleftrightarrow> 0 < max_drift h \<and> 0 < refresh_period h"

definition live_with :: "bool \<Rightarrow> bool \<Rightarrow> amtime_thread option \<Rightarrow> bool" where
  "live_with stop_it free_it m \<longleftrightarrow> (\<exists>h. m = Some h \<and> stop_flag h = stop_it \<and> thread_free h = free_it)"

text \<open>After a stop that does not block the thread owns the handle.\<close>

definition detached :: "amtime_thread option \<Rightarrow> timer_pc \<Rightarrow> bool" where
  "detached m pc \<longleftrightarrow> (if m = None then pc = PExit else live_with True True m \<and> pc \<noteq> PExit)"

definition ended :: "amtime_thread option \<Rightarrow> timer_pc \<Rightarrow> bool" where
  "ended m pc \<longleftrightarrow> live_with True False m \<and> pc = PExit"

fun stopping_ok :: "bool \<Rightarrow> amtime_thread option \<Rightarrow> timer_pc \<Rightarrow> timer_call \<Rightarrow> bool" where
  "stopping_ok block m pc CStopFree = (\<not> block \<and> live_with False False m \<and> looping pc)"
| "stopping_ok block m pc (CStopFlag b) = (b = block \<and> live_with False (\<not> block) m \<and> looping pc)"
| "stopping_ok block m pc CJoin = (block \<and> live_with True False m \<and> pc \<noteq> PFree)"
| "stopping_ok block m pc (CDriftTest b) = (b = block \<and> (if block then ended m pc else detached m pc))"
| "stopping_ok block m pc (CDriftRead b) = (b = block \<and> (if block then ended m pc else detached m pc))"
| "stopping_ok block m pc (CRelease d) = (block \<and> 0 < d \<and> ended m pc)"
| "stopping_ok block m pc (CDone v) =
     (if \<not> block then 0 < v \<and> detached m pc
      else if v = 0 then live_with True False m \<and> pc \<noteq> PFree else m = None \<and> pc = PExit)"
| "stopping_ok block m pc c = False"

fun running_ok :: "timer_call \<Rightarrow> bool" where
  "running_ok (CSetPeriod p) = True" | "running_ok c = (resting c \<or> plain_call c)"

definition phase_ok_for :: "timer_sys \<Rightarrow> bool" where
  "phase_ok_for s \<longleftrightarrow>
     (case timer_phase s of
        Running \<Rightarrow> live_with False False (timer_mem s) \<and> looping (timer_thread s) \<and> list_all running_ok (timer_clients s)
      | Stopping block i \<Rightarrow> i < length (timer_clients s) \<and>
          (\<forall>j < length (timer_clients s). j \<noteq> i \<longrightarrow> resting (timer_clients s ! j)) \<and>
          stopping_ok block (timer_mem s) (timer_thread s) (timer_clients s ! i))"

definition timer_inv :: "timer_sys \<Rightarrow> bool" where
  "timer_inv s \<longleftrightarrow> pred_option handle_ok (timer_mem s) \<and> gap_ok (timer_thread s) \<and> phase_ok_for s"

lemma period_of_pos [simp]: "0 < period_of p"
  by (simp add: period_of_def AMTIME_DEFAULT_REFRESH_PERIOD_def AMTIME_MSEC_def AMTIME_USEC_def)

lemma timer_started:
  assumes "amtime_preiodic_start alloc True time h period = Some (Some (a, m), h')"
  shows "handle_ok m" and "\<not> stop_flag m" and "\<not> thread_free m" and "refresh_period m = period_of period"
proof -
  obtain r h1 where r: "malloc alloc TIMER_BYTES h = (r, h1)" by fastforce
  with assms show "handle_ok m" "\<not> stop_flag m" "\<not> thread_free m" "refresh_period m = period_of period"
    by (cases r; auto simp: amtime_preiodic_start_def handle_ok_def)+
qed

lemma timer_init_inv: "timer_init s \<Longrightarrow> timer_inv s"
  by (auto simp: timer_init_def timer_inv_def phase_ok_for_def live_with_def list_all_iff timer_started)

lemma plain_running: "plain_call c \<Longrightarrow> running_ok c" "resting c \<Longrightarrow> running_ok c"
  by (cases c; simp)+

section \<open>Steps of the thread\<close>

lemma timer_step_values:
  assumes "timer_step time m pc = Some (m', pc')" and "pred_option handle_ok m" and "gap_ok pc"
  shows "pred_option handle_ok m' \<and> gap_ok pc'"
  using assms by (cases pc) (auto simp: bind_eq_Some_conv handle_ok_def split: if_splits)

lemma timer_step_loop:
  assumes "timer_step time m pc = Some (m', pc')" and "looping pc" and "live_with False f m"
  shows "live_with False f m' \<and> looping pc'"
  using assms by (cases pc) (auto simp: bind_eq_Some_conv live_with_def split: if_splits)

lemma timer_step_stopped:
  assumes "timer_step time m pc = Some (m', pc')" and "live_with True f m" and "pc = PFree \<Longrightarrow> f"
  shows "m' = None \<and> pc' = PExit \<and> f \<or> live_with True f m' \<and> (pc' = PFree \<longrightarrow> f) \<and> (pc' = PExit \<longrightarrow> \<not> f)"
  using assms by (cases pc) (auto simp: bind_eq_Some_conv live_with_def split: if_splits)

lemma stopping_thread:
  assumes "stopping_ok block m pc c" and t: "timer_step time m pc = Some (m', pc')"
  shows "stopping_ok block m' pc' c"
proof -
  have no_exit: "pc \<noteq> PExit" using t by auto
  have d: "detached m' pc'" if "detached m pc"
    using that t timer_step_stopped [OF t, of True] no_exit by (auto simp: detached_def live_with_def split: if_splits)
  have j: "live_with True False m' \<and> pc' \<noteq> PFree" if "live_with True False m" "pc \<noteq> PFree"
    using that timer_step_stopped [OF t, of False] by auto
  have l: "live_with False f m' \<and> looping pc'" if "live_with False f m" "looping pc" for f
    using that timer_step_loop [OF t] by blast
  show ?thesis using assms(1) no_exit d j l by (cases c) (auto simp: ended_def split: if_splits)
qed

section \<open>Steps of the clients\<close>

lemma client_step_values:
  assumes "timer_client_step ok over m c = Some (m', c')" and "pred_option handle_ok m"
  shows "pred_option handle_ok m'"
  using assms by (cases c) (auto simp: bind_eq_Some_conv handle_ok_def split: if_splits)

lemma client_step_running:
  assumes "timer_client_step ok over m c = Some (m', c')" and "running_ok c" and "live_with False False m"
  shows "running_ok c' \<and> live_with False False m'"
  using assms by (cases c) (auto simp: bind_eq_Some_conv live_with_def)

lemma client_step_stopping:
  assumes "timer_client_step ok (pc = PExit) m c = Some (m', c')" and "stopping_ok block m pc c" and "pred_option handle_ok m"
  shows "stopping_ok block m' pc c'"
  using assms
  by (cases c) (auto simp: bind_eq_Some_conv live_with_def ended_def detached_def handle_ok_def split: if_splits)

lemma resting_done: "resting c \<Longrightarrow> timer_client_step ok over m c = None"
  by (cases c) auto

lemma timer_step_inv:
  assumes "timer_inv s" and "timer_sys_step s s'"
  shows "timer_inv s'"
  using assms(2,1)
proof (induction rule: timer_sys_step.induct)
  case (thread time s m pc)
  then show ?case using timer_step_values [OF thread(1)] timer_step_loop [OF thread(1)] stopping_thread [OF _ thread(1)]
    by (auto simp: timer_inv_def phase_ok_for_def split: timer_phase.splits)
next
  case (client i s ok m c)
  note v = client_step_values [OF client(2)]
  show ?case
  proof (cases "timer_phase s")
    case Running
    have r: "list_all running_ok (timer_clients s)" "live_with False False (timer_mem s)"
      using client(3) Running by (auto simp: timer_inv_def phase_ok_for_def)
    then have "running_ok (timer_clients s ! i)" using client(1) by (simp add: list_all_length)
    from client_step_running [OF client(2) this r(2)] r(1) Running client(3) v show ?thesis
      by (auto simp: timer_inv_def phase_ok_for_def list_all_iff dest!: set_update_elim)
  next
    case (Stopping block k)
    have k: "\<forall>j < length (timer_clients s). j \<noteq> k \<longrightarrow> resting (timer_clients s ! j)" "k < length (timer_clients s)"
      "stopping_ok block (timer_mem s) (timer_thread s) (timer_clients s ! k)" "pred_option handle_ok (timer_mem s)"
      using client(3) Stopping by (auto simp: timer_inv_def phase_ok_for_def)
    have "i = k" using k(1) client(1,2) resting_done by (metis option.distinct(1))
    then show ?thesis using client_step_stopping [OF client(2), of block] k v client(3) Stopping
      by (auto simp: timer_inv_def phase_ok_for_def)
  qed
next
  case (call i s c)
  then show ?case using plain_running by (auto simp: timer_inv_def phase_ok_for_def list_all_iff dest!: set_update_elim)
next
  case (stop i s block)
  then have r: "resting (timer_clients s ! j)" if "j < length (timer_clients s)" for j using that by (simp add: list_all_length)
  show ?case using stop r by (auto simp: timer_inv_def phase_ok_for_def amtime_preiodic_stop_def)
qed

interpretation tms: invariant_system timer_init timer_sys_step timer_inv
  by unfold_locales (fact timer_init_inv timer_step_inv)+

text \<open>What can go on.\<close>

lemma live_can_step: "m \<noteq> None \<Longrightarrow> pc \<noteq> PExit \<Longrightarrow> timer_step time m pc \<noteq> None"
  by (cases pc) auto

lemma live_call_can_step: "m \<noteq> None \<Longrightarrow> \<not> resting c \<Longrightarrow> timer_client_step ok over m c \<noteq> None"
  by (cases c) auto

lemma stopping_thread_live: "stopping_ok block m pc c \<Longrightarrow> pc \<noteq> PExit \<Longrightarrow> m \<noteq> None"
  by (cases c) (auto simp: live_with_def ended_def detached_def split: if_splits)

lemma timer_thread_can_step:
  assumes "timer_inv s" and "timer_thread s \<noteq> PExit"
  shows "timer_step time (timer_mem s) (timer_thread s) \<noteq> None"
  using assms stopping_thread_live live_can_step
  by (auto simp: timer_inv_def phase_ok_for_def live_with_def split: timer_phase.splits)

lemma timer_client_can_step:
  assumes "timer_inv s" and "i < length (timer_clients s)" and "\<not> resting (timer_clients s ! i)" and "timer_phase s \<noteq> Stopping False i"
  shows "timer_client_step ok over (timer_mem s) (timer_clients s ! i) \<noteq> None"
proof (rule live_call_can_step [OF _ assms(3)])
  show "timer_mem s \<noteq> None"
  proof (cases "timer_phase s")
    case Running
    then show ?thesis using assms(1) by (auto simp: timer_inv_def phase_ok_for_def live_with_def)
  next
    case (Stopping block k)
    then have "k = i" using assms(1-3) by (auto simp: timer_inv_def phase_ok_for_def)
    then have "block" "stopping_ok True (timer_mem s) (timer_thread s) (timer_clients s ! i)"
      using assms(1,4) Stopping by (cases block; simp add: timer_inv_def phase_ok_for_def)+
    then show ?thesis using assms(3) by (cases "timer_clients s ! i") (auto simp: live_with_def ended_def)
  qed
qed

section \<open>The end of a stopped timer\<close>

text \<open>The thread running alone, with the times it reads, until it ends; a client running alone.\<close>

fun thread_alone :: "u64 list \<Rightarrow> amtime_thread option \<times> timer_pc \<Rightarrow> (amtime_thread option \<times> timer_pc) option" where
  "thread_alone [] st = Some st"
| "thread_alone (time # clock) (m, pc) =
     (if pc = PExit then Some (m, pc) else do { st \<leftarrow> timer_step time m pc; thread_alone clock st })"

fun client_alone :: "nat \<Rightarrow> bool \<Rightarrow> amtime_thread option \<times> timer_call \<Rightarrow> (amtime_thread option \<times> timer_call) option" where
  "client_alone 0 over st = Some st"
| "client_alone (Suc n) over (m, c) = do { st \<leftarrow> timer_client_step True over m c; client_alone n over st }"

fun steps_left :: "timer_pc \<Rightarrow> nat" where
  "steps_left PExit = 0" | "steps_left PFree = 1" | "steps_left PFreeTest = 2" | "steps_left PTest = 3"
| "steps_left (PSleep p) = 4" | "steps_left (PStore n p) = 5" | "steps_left (PNow p) = 6" | "steps_left (PDrift g p) = 7"
| "steps_left (PCompare g p) = 8" | "steps_left (POld n p) = 9" | "steps_left (PResetIgnore p) = 7" | "steps_left (PResetDrift p) = 8"
| "steps_left (PIgnore n p) = 10" | "steps_left (PPeriod n) = 11" | "steps_left PClock = 12"

lemma stopped_progress:
  assumes "live_with True f m" and "pc \<noteq> PExit"
  shows "\<exists>m' pc'. timer_step time m pc = Some (m', pc') \<and> steps_left pc' < steps_left pc"
  using assms by (cases pc) (auto simp: live_with_def)

lemma thread_ends:
  "live_with True f m \<Longrightarrow> (pc = PFree \<Longrightarrow> f) \<Longrightarrow> (pc = PExit \<Longrightarrow> \<not> f) \<Longrightarrow> steps_left pc \<le> length clock \<Longrightarrow>
    \<exists>m'. thread_alone clock (m, pc) = Some (m', PExit) \<and> (if f then m' = None else live_with True False m' \<and>
      (pred_option handle_ok m \<and> gap_ok pc \<longrightarrow> pred_option handle_ok m'))"
proof (induction clock arbitrary: m pc)
  case Nil
  then have "pc = PExit" by (cases pc) auto
  then show ?case using Nil by simp
next
  case (Cons time clock)
  show ?case
  proof (cases "pc = PExit")
    case True
    then show ?thesis using Cons.prems by simp
  next
    case False
    from stopped_progress [OF Cons.prems(1) False, of time] obtain m' pc' where
      t: "timer_step time m pc = Some (m', pc')" "steps_left pc' < steps_left pc" by blast
    have e: "thread_alone (time # clock) (m, pc) = thread_alone clock (m', pc')" using False t(1) by simp
    note v = timer_step_values [OF t(1)]
    from timer_step_stopped [OF t(1) Cons.prems(1,2)] consider
      (gone) "m' = None" "pc' = PExit" f | (on) "live_with True f m'" "pc' = PFree \<longrightarrow> f" "pc' = PExit \<longrightarrow> \<not> f" by blast
    then show ?thesis
    proof cases
      case gone
      then show ?thesis unfolding e by (cases clock) auto
    next
      case on
      have "steps_left pc' \<le> length clock" using t(2) Cons.prems(4) by simp
      from Cons.IH [OF on(1) _ _ this] on(2,3) v show ?thesis unfolding e by (auto split: if_splits)
    qed
  qed
qed

text \<open>Who frees the handle of a timer that was told to stop.\<close>

lemma stopping_owner:
  assumes "stopping_ok block (Some h) pc c" and "stop_flag h"
  shows "live_with True (\<not> block) (Some h)" and "pc = PFree \<Longrightarrow> \<not> block" and "pc = PExit \<Longrightarrow> block"
  using assms by (cases c; auto simp: live_with_def ended_def detached_def split: if_splits)+

lemma join_returns:
  assumes "live_with True False m" and "pred_option handle_ok m"
  shows "\<exists>v. client_alone 4 True (m, CJoin) = Some (None, CDone v) \<and> 0 < v"
  using assms by (auto simp: live_with_def handle_ok_def numeral_eq_Suc)

section \<open>Rounds of the thread\<close>

text \<open>A round reads the clock twice; ten steps lead back to the test of the loop.\<close>

fun thread_round :: "nat \<Rightarrow> u64 \<times> u64 \<Rightarrow> amtime_thread option \<times> timer_pc \<Rightarrow> (amtime_thread option \<times> timer_pc) option" where
  "thread_round 0 clocks st = Some st"
| "thread_round (Suc n) clocks (m, pc) =
     do { (m, pc) \<leftarrow> timer_step (if pc = PClock then fst clocks else snd clocks) m pc;
          if pc = PTest then Some (m, pc) else thread_round n clocks (m, pc) }"

fun thread_rounds :: "(u64 \<times> u64) list \<Rightarrow> amtime_thread option \<times> timer_pc \<Rightarrow> (amtime_thread option \<times> timer_pc) option" where
  "thread_rounds [] st = Some st"
| "thread_rounds (c # cs) st = do { st \<leftarrow> thread_round 10 c st; thread_rounds cs st }"

lemma round_effect:
  assumes "\<not> stop_flag h"
  shows "thread_round 10 (c, d) (Some h, PTest) =
    Some (Some (if ignore_drift h then h\<lparr>max_drift := 1, ignore_drift := False, last_now := d\<rparr>
      else h\<lparr>max_drift := (if c - last_now h > refresh_period h then max (max_drift h) (c - last_now h) else max_drift h), last_now := d\<rparr>), PTest)"
  using assms by (auto simp: numeral_eq_Suc max_def not_less)

text \<open>The times between the end of a round and the begin of the next.\<close>

fun gaps :: "u64 \<Rightarrow> (u64 \<times> u64) list \<Rightarrow> u64 list" where
  "gaps t [] = []" | "gaps t ((c, d) # cs) = (c - t) # gaps d cs"

lemma rounds_effect:
  assumes "\<not> stop_flag h" and "\<not> ignore_drift h"
  shows "thread_rounds cs (Some h, PTest) =
    Some (Some (h\<lparr>max_drift := fold max (filter (\<lambda>g. g > refresh_period h) (gaps (last_now h) cs)) (max_drift h),
      last_now := (if cs = [] then last_now h else snd (last cs))\<rparr>), PTest)"
  using assms
proof (induction cs arbitrary: h)
  case (Cons c cs)
  obtain a b where c: "c = (a, b)" by fastforce
  let ?h = "h\<lparr>max_drift := (if a - last_now h > refresh_period h then max (max_drift h) (a - last_now h) else max_drift h), last_now := b\<rparr>"
  have r: "thread_round 10 c (Some h, PTest) = Some (Some ?h, PTest)"
    unfolding c round_effect [OF Cons.prems(1)] using Cons.prems(2) by simp
  have "thread_rounds (c # cs) (Some h, PTest) = thread_rounds cs (Some ?h, PTest)" by (simp only: thread_rounds.simps r bind.bind_lunit)
  also have "\<dots> = Some (Some (?h\<lparr>max_drift := fold max (filter (\<lambda>g. g > refresh_period ?h) (gaps (last_now ?h) cs)) (max_drift ?h),
      last_now := (if cs = [] then last_now ?h else snd (last cs))\<rparr>), PTest)"
    by (rule Cons.IH) (use Cons.prems in simp_all)
  finally show ?case unfolding c by (auto simp: max.commute)
qed simp

section \<open>Schedules\<close>

datatype timer_choice = TimerThread u64 | TimerClient nat | TimerCall nat timer_call | TimerStop nat bool

fun timer_chosen :: "timer_choice \<Rightarrow> timer_sys \<Rightarrow> timer_sys option" where
  "timer_chosen (TimerThread time) s =
     map_option (\<lambda>(m, pc). s\<lparr>timer_mem := m, timer_thread := pc\<rparr>) (timer_step time (timer_mem s) (timer_thread s))"
| "timer_chosen (TimerClient i) s =
     (if i < length (timer_clients s) then
        map_option (\<lambda>(m, c). s\<lparr>timer_mem := m, timer_clients := (timer_clients s)[i := c]\<rparr>)
          (timer_client_step True (timer_thread s = PExit) (timer_mem s) (timer_clients s ! i))
      else None)"
| "timer_chosen (TimerCall i c) s =
     (if i < length (timer_clients s) \<and> resting (timer_clients s ! i) \<and> timer_phase s = Running \<and> plain_call c
      then Some (s\<lparr>timer_clients := (timer_clients s)[i := c]\<rparr>) else None)"
| "timer_chosen (TimerStop i block) s =
     (if i < length (timer_clients s) \<and> timer_phase s = Running \<and> list_all resting (timer_clients s)
      then Some (s\<lparr>timer_clients := (timer_clients s)[i := amtime_preiodic_stop block], timer_phase := Stopping block i\<rparr>) else None)"

lemma timer_chosen_step: "timer_chosen ch s = Some s' \<Longrightarrow> timer_sys_step s s'"
  by (cases ch) (auto split: if_splits intro: timer_sys_step.intros)

fun timer_schedule :: "timer_choice list \<Rightarrow> timer_sys \<Rightarrow> timer_sys option" where
  "timer_schedule [] s = Some s"
| "timer_schedule (c # cs) s = do { s \<leftarrow> timer_chosen c s; timer_schedule cs s }"

lemma timer_schedule_steps: "timer_schedule cs s = Some t \<Longrightarrow> timer_sys_step\<^sup>*\<^sup>* s t"
proof (induction cs arbitrary: s)
  case (Cons c cs)
  then obtain u where "timer_chosen c s = Some u" "timer_schedule cs u = Some t" by (auto simp: bind_eq_Some_conv)
  then show ?case using timer_chosen_step Cons.IH by (meson converse_rtranclp_into_rtranclp)
qed simp

text \<open>A timer with a period of a second, started at the time 5 s, and two clients.\<close>

definition second_timer :: amtime_thread where
  "second_timer = \<lparr>refresh_period = 1000000, max_drift = 1, last_now = 5000000, stop_flag = False, thread_free = False, ignore_drift = False\<rparr>"

definition demo_timer :: timer_sys where
  "demo_timer = \<lparr>timer_mem = Some second_timer, timer_thread = PTest, timer_clients = [CRest, CRest], timer_phase = Running\<rparr>"

lemma demo_timer_init: "timer_init demo_timer"
proof -
  have "\<exists>a h'. amtime_preiodic_start first_fit True 5000000 \<lparr>live = Map.empty, calls = 0, refusals = 0\<rparr> 1000000 = Some (Some (a, second_timer), h')"
    by (simp add: amtime_preiodic_start_def malloc_def first_fit_def Let_def TIMER_BYTES_def second_timer_def period_of_def
      upt_conv_Cons)
  then show ?thesis unfolding timer_init_def demo_timer_def by (simp, blast)
qed

text \<open>
  A stop that does not block can be overtaken by the thread: it sees the flag and frees the handle, which the client then
  reads for its result.
\<close>

lemma stop_reads_freed_handle:
  "map_option (\<lambda>s. (timer_mem s, timer_client_step True True (timer_mem s) (timer_clients s ! 0)))
     (timer_schedule (TimerStop 0 False # replicate 2 (TimerClient 0) @ replicate 3 (TimerThread 0)) demo_timer) = Some (None, None)"
  by code_simp

text \<open>
  A change of the period sets the flag that the next drift is to be ignored before it sets the period: the thread can clear the
  flag in between, sleep for the old period, and count that as a drift against the new one.
\<close>

lemma new_period_counts_as_drift:
  "map_option (\<lambda>s. map_option max_drift (timer_mem s))
     (timer_schedule ([TimerCall 0 (CSetIgnore 1000), TimerClient 0] @ replicate 7 (TimerThread 5000010) @ [TimerClient 0] @ replicate 10 (TimerThread 6000010)) demo_timer) =
   Some (Some 1000000)"
  by code_simp

text \<open>A clock that is set back by a microsecond gives the largest drift there is.\<close>

lemma clock_set_back: "thread_round 10 (4999999, 5000000) (Some second_timer, PTest) = Some (Some (second_timer\<lparr>max_drift := - 1\<rparr>), PTest)"
  by (simp add: round_effect second_timer_def max_def)

text \<open>The drift that is kept is the whole time since the last refresh, not what exceeds the period.\<close>

lemma drift_is_whole_time:
  "thread_round 10 (6000001, 6000002) (Some second_timer, PTest) = Some (Some (second_timer\<lparr>max_drift := 1000001, last_now := 6000002\<rparr>), PTest)"
  by (simp add: round_effect second_timer_def max_def)

section \<open>Properties\<close>

text \<open>
  C10. Under any interleaving of the thread of a timer and its clients, the thread never uses a freed handle and no call does,
  a stop that does not block excepted; the drift and the period that can be read are never 0; a blocking stop that reports
  success has freed the handle and the thread has ended, and after a stop that does not block the thread frees the handle.
\<close>

theorem timer_handle_safe:
  assumes "timer_init s" and "timer_sys_step\<^sup>*\<^sup>* s t"
  shows "(timer_thread t \<noteq> PExit \<longrightarrow> timer_step time (timer_mem t) (timer_thread t) \<noteq> None) \<and>
    (i < length (timer_clients t) \<and> \<not> resting (timer_clients t ! i) \<and> timer_phase t \<noteq> Stopping False i \<longrightarrow>
       timer_client_step ok over (timer_mem t) (timer_clients t ! i) \<noteq> None) \<and>
    (timer_mem t = Some h \<longrightarrow> 0 < max_drift h \<and> 0 < refresh_period h) \<and>
    (timer_phase t = Stopping True i \<and> timer_clients t ! i = CDone v \<and> v \<noteq> 0 \<longrightarrow> timer_mem t = None \<and> timer_thread t = PExit) \<and>
    (timer_phase t = Stopping False i \<and> timer_thread t = PExit \<longrightarrow> timer_mem t = None)"
proof -
  have inv: "timer_inv t" using tms.reachable_inv assms by blast
  have th: "timer_step time (timer_mem t) (timer_thread t) \<noteq> None" if "timer_thread t \<noteq> PExit"
    using inv that timer_thread_can_step by blast
  have cl: "timer_client_step ok over (timer_mem t) (timer_clients t ! i) \<noteq> None"
    if "i < length (timer_clients t)" "\<not> resting (timer_clients t ! i)" "timer_phase t \<noteq> Stopping False i"
    using inv that timer_client_can_step by blast
  have "0 < max_drift h \<and> 0 < refresh_period h" if "timer_mem t = Some h"
    using inv that by (simp add: timer_inv_def handle_ok_def)
  moreover have "timer_mem t = None \<and> timer_thread t = PExit"
    if "timer_phase t = Stopping True i" "timer_clients t ! i = CDone v" "v \<noteq> 0"
    using inv that by (simp add: timer_inv_def phase_ok_for_def)
  moreover have "timer_mem t = None" if "timer_phase t = Stopping False i" "timer_thread t = PExit"
    using inv that by (cases "timer_clients t ! i") (auto simp: timer_inv_def phase_ok_for_def detached_def split: if_splits)
  ultimately show ?thesis using th cl by blast
qed

text \<open>A blocking stop while the thread is in a round.\<close>

definition stopped_timer :: "timer_choice list" where
  "stopped_timer = replicate 3 (TimerThread 5000020) @ [TimerCall 1 CNow, TimerClient 1, TimerStop 0 True, TimerClient 0] @ replicate 7 (TimerThread 6000100) @
     replicate 4 (TimerClient 0)"

theorem timer_handle_safe_witness:
  "\<exists>t. timer_sys_step\<^sup>*\<^sup>* demo_timer t \<and> timer_clients t = [CDone 1, CDone 5000000] \<and> timer_mem t = None \<and> timer_thread t = PExit"
proof -
  have "map_option (\<lambda>s. (timer_clients s, timer_phase s)) (timer_schedule stopped_timer demo_timer) =
      Some ([CDone 1, CDone 5000000], Stopping True 0)" by code_simp
  then obtain t where t: "timer_schedule stopped_timer demo_timer = Some t" "timer_clients t = [CDone 1, CDone 5000000]"
    "timer_phase t = Stopping True 0" by (auto simp: map_option_case split: option.splits)
  note steps = timer_schedule_steps [OF t(1)]
  from timer_handle_safe [where i = 0 and v = 1 and time = 0 and ok = True and over = True and h = second_timer,
      OF demo_timer_init steps] t(2,3) have "timer_mem t = None \<and> timer_thread t = PExit" by simp
  with steps t(2) show ?thesis by blast
qed

text \<open>
  C11. A timer that was told to stop ends: at any point of any interleaving, the thread ends within 12 steps of its own, whatever
  the clock shows. A blocking stop then returns the drift, which is not 0, and has freed the handle; otherwise the thread has freed it.
\<close>

theorem timer_stop_ends:
  assumes "timer_init s" and "timer_sys_step\<^sup>*\<^sup>* s t" and "timer_phase t = Stopping block i" and "timer_mem t = Some h" and "stop_flag h"
    and "12 \<le> length clock"
  shows "\<exists>m. thread_alone clock (Some h, timer_thread t) = Some (m, PExit) \<and>
    (if block then timer_clients t ! i = CJoin \<longrightarrow> (\<exists>v. client_alone 4 True (m, CJoin) = Some (None, CDone v) \<and> 0 < v) else m = None)"
proof -
  have inv: "timer_inv t" using tms.reachable_inv assms(1,2) by blast
  then have st: "stopping_ok block (Some h) (timer_thread t) (timer_clients t ! i)" "pred_option handle_ok (Some h)" "gap_ok (timer_thread t)"
    using assms(3,4) by (simp_all add: timer_inv_def phase_ok_for_def)
  note o = stopping_owner [OF st(1) assms(5)]
  have "steps_left (timer_thread t) \<le> length clock" using assms(6) by (cases "timer_thread t") auto
  from thread_ends [OF o(1) o(2) _ this] o(3) st(2,3) obtain m where
    m: "thread_alone clock (Some h, timer_thread t) = Some (m, PExit)"
      "if \<not> block then m = None else live_with True False m \<and> pred_option handle_ok m" by (cases block) auto
  then show ?thesis using join_returns by auto
qed

theorem timer_stop_ends_witness:
  "\<exists>t m. timer_sys_step\<^sup>*\<^sup>* demo_timer t \<and> thread_alone (replicate 12 7) (timer_mem t, timer_thread t) = Some (m, PExit) \<and>
     (\<exists>v. client_alone 4 True (m, CJoin) = Some (None, CDone v) \<and> 0 < v)"
proof -
  let ?cs = "replicate 6 (TimerThread 5000020) @ [TimerStop 0 True, TimerClient 0]"
  have "map_option (\<lambda>s. (timer_clients s ! 0, timer_phase s, map_option stop_flag (timer_mem s))) (timer_schedule ?cs demo_timer) =
      Some (CJoin, Stopping True 0, Some True)" by code_simp
  then obtain t h where t: "timer_schedule ?cs demo_timer = Some t" "timer_clients t ! 0 = CJoin" "timer_phase t = Stopping True 0"
    "timer_mem t = Some h" "stop_flag h" by (auto simp: map_option_case split: option.splits)
  note steps = timer_schedule_steps [OF t(1)]
  from timer_stop_ends [OF demo_timer_init steps t(3,4,5), of "replicate 12 7"] t(2) obtain m where
    "thread_alone (replicate 12 7) (Some h, timer_thread t) = Some (m, PExit)"
    "\<exists>v. client_alone 4 True (m, CJoin) = Some (None, CDone v) \<and> 0 < v" by auto
  with steps t(4) show ?thesis by metis
qed

end
