(* ===== verification/AmLog.thy ===== *)
theory AmLog
  imports AmList AmCqueue
begin

text \<open>
  The log sinks of \<^verbatim>\<open>libam_log.c\<close>. The functions are run one at a time; where a function waits for others to fill a queue, what
  they do to it is a parameter. A lock that would have to wait is \<open>None\<close>. The lists of sinks are intrusive lists, the queues
  circular queues in memory.
\<close>

section \<open>Data\<close>

text \<open>
  The text of \<open>lin_message\<close> ends before its NUL. \<open>lin_file\<close> is \<^verbatim>\<open>NULL\<close> for \<open>None\<close>.
\<close>

record amlog_line =
  lin_timestamp :: u64
  lin_level :: u64
  lin_mask :: u64
  lin_file :: "string option"
  lin_line :: int
  lin_message :: string
  lin_length :: int

definition blank_line :: amlog_line where
  "blank_line = \<lparr>lin_timestamp = 0, lin_level = 0, lin_mask = 0, lin_file = None, lin_line = 0, lin_message = [], lin_length = 0\<rparr>"

record amlog_sink =
  sk_name :: "string option"
  sk_user :: "addr option"
  sk_level :: u64
  sk_mask :: u64
  sk_callback :: "addr option"
  sk_in :: "addr option"
  sk_out :: "addr option"

record log_thread =
  lt_running :: bool
  lt_in :: "addr option"
  lt_out :: "addr option"
  lt_sink :: "addr option"

text \<open>The link of a sink is its first member; the heads of the two lists are static.\<close>

datatype log_link = DirectSinks | QueuedSinks | SinkLink addr

datatype rwlock = Readers nat | Writer

text \<open>A call of a callback: the function, the sink, the user data, and the line it is given.\<close>

type_synonym log_call = "addr \<times> addr \<times> addr option \<times> amlog_line"

record log_state =
  lg_heap :: heap
  lg_sinks :: "addr \<rightharpoonup> amlog_sink"
  lg_links :: "log_link links"
  lg_queues :: "addr \<rightharpoonup> amcqueue"
  lg_lines :: "addr \<rightharpoonup> amlog_line"
  lg_thread :: "(addr \<times> log_thread) option"
  direct_rwlock :: rwlock
  queued_rwlock :: rwlock
  use_source_location :: bool
  abort_on_error :: bool
  block_on_error :: bool
  lg_calls :: "log_call list"

section \<open>Locks\<close>

fun rw_read :: "rwlock \<Rightarrow> rwlock option" where
  "rw_read (Readers n) = Some (Readers (Suc n))" | "rw_read Writer = None"

fun rw_write :: "rwlock \<Rightarrow> rwlock option" where
  "rw_write (Readers n) = (if n = 0 then Some Writer else None)" | "rw_write Writer = None"

fun rw_release :: "rwlock \<Rightarrow> rwlock option" where
  "rw_release (Readers n) = (if n = 0 then None else Some (Readers (n - 1)))" | "rw_release Writer = Some (Readers 0)"

section \<open>Registration\<close>

definition SINK_BYTES :: u64 where "SINK_BYTES = 72"

definition new_sink :: "string option \<Rightarrow> addr option \<Rightarrow> addr option \<Rightarrow> addr option \<Rightarrow> addr option \<Rightarrow> amlog_sink" where
  "new_sink name user callback inq outq =
     \<lparr>sk_name = name, sk_user = user, sk_level = - 1, sk_mask = 0, sk_callback = callback, sk_in = inq, sk_out = outq\<rparr>"

definition amlog_sink_register_direct ::
    "allocator \<Rightarrow> string option \<Rightarrow> addr option \<Rightarrow> addr option \<Rightarrow> log_state \<Rightarrow> (addr option \<times> log_state) option" where
  "amlog_sink_register_direct alloc name callback user s =
     (if callback = None then Some (None, s)
      else case malloc alloc SINK_BYTES (lg_heap s) of
          (None, h) \<Rightarrow> Some (None, s\<lparr>lg_heap := h\<rparr>)
        | (Some a, h) \<Rightarrow>
            do { let s = s\<lparr>lg_heap := h, lg_sinks := (lg_sinks s)(a \<mapsto> new_sink name user callback None None)\<rparr>;
                 l \<leftarrow> rw_write (direct_rwlock s);
                 ls \<leftarrow> amlist_add (lg_links s) DirectSinks (SinkLink a);
                 l \<leftarrow> rw_release l;
                 Some (Some a, s\<lparr>lg_links := ls, direct_rwlock := l\<rparr>) })"

definition amlog_sink_register_queued ::
    "allocator \<Rightarrow> string option \<Rightarrow> addr option \<Rightarrow> addr option \<Rightarrow> addr option \<Rightarrow> log_state \<Rightarrow> (addr option \<times> log_state) option" where
  "amlog_sink_register_queued alloc name inq outq user s =
     (if inq = None \<or> outq = None then Some (None, s)
      else case malloc alloc SINK_BYTES (lg_heap s) of
          (None, h) \<Rightarrow> Some (None, s\<lparr>lg_heap := h\<rparr>)
        | (Some a, h) \<Rightarrow>
            do { let s = s\<lparr>lg_heap := h, lg_sinks := (lg_sinks s)(a \<mapsto> new_sink name user None inq outq)\<rparr>;
                 l \<leftarrow> rw_write (queued_rwlock s);
                 ls \<leftarrow> amlist_add (lg_links s) QueuedSinks (SinkLink a);
                 l \<leftarrow> rw_release l;
                 Some (Some a, s\<lparr>lg_links := ls, queued_rwlock := l\<rparr>) })"

definition amlog_sink_set_level :: "addr option \<Rightarrow> u64 \<Rightarrow> log_state \<Rightarrow> (u64 \<times> log_state) option" where
  "amlog_sink_set_level sink new_level s =
     (case sink of
        None \<Rightarrow> Some (0, s)
      | Some a \<Rightarrow> do { k \<leftarrow> lg_sinks s a; Some (sk_level k, s\<lparr>lg_sinks := (lg_sinks s)(a \<mapsto> k\<lparr>sk_level := new_level\<rparr>)\<rparr>) })"

definition amlog_sink_set_mask :: "addr option \<Rightarrow> u64 \<Rightarrow> log_state \<Rightarrow> (u64 \<times> log_state) option" where
  "amlog_sink_set_mask sink new_mask s =
     (case sink of
        None \<Rightarrow> Some (0, s)
      | Some a \<Rightarrow> do { k \<leftarrow> lg_sinks s a; Some (sk_mask k, s\<lparr>lg_sinks := (lg_sinks s)(a \<mapsto> k\<lparr>sk_mask := new_mask\<rparr>)\<rparr>) })"

definition amlog_sink_unregister :: "addr option \<Rightarrow> log_state \<Rightarrow> log_state option" where
  "amlog_sink_unregister sink s =
     (case sink of
        None \<Rightarrow> Some s
      | Some a \<Rightarrow>
          do { k \<leftarrow> lg_sinks s a;
               l \<leftarrow> rw_write (if sk_callback k = None then queued_rwlock s else direct_rwlock s);
               ls \<leftarrow> amlist_del (lg_links s) (SinkLink a);
               l \<leftarrow> rw_release l;
               let s = (if sk_callback k = None then s\<lparr>queued_rwlock := l\<rparr> else s\<lparr>direct_rwlock := l\<rparr>);
               h \<leftarrow> free_block (Some a) (lg_heap s);
               Some (s\<lparr>lg_links := ls, lg_heap := h, lg_sinks := (lg_sinks s)(a := None)\<rparr>) })"

section \<open>Queues of a sink\<close>

text \<open>\<open>others n\<close> is what other threads do to the queue while this one sleeps for the \<open>n\<close>-th time; \<open>None\<close> may be an abort.\<close>

partial_function (option) amlog_sink_dequeue ::
    "(nat \<Rightarrow> amcqueue \<Rightarrow> amcqueue) \<Rightarrow> bool \<Rightarrow> bool \<Rightarrow> nat \<Rightarrow> amcqueue \<Rightarrow> (amcqueue \<times> addr option) option" where
  "amlog_sink_dequeue others abort block n q =
     do { (q, r) \<leftarrow> amcqueue_deq q;
          case r of
            Some x \<Rightarrow> Some (q, Some x)
          | None \<Rightarrow>
              if abort then None
              else if block then amlog_sink_dequeue others abort block (n + 1) (others n q)
              else Some (q, None) }"

declare amlog_sink_dequeue.simps [code]

text \<open>\<^verbatim>\<open>amcqueue_enq\<close> fails for \<^verbatim>\<open>NULL\<close> only, again and again when the sink blocks on errors.\<close>

definition amlog_sink_enqueue :: "bool \<Rightarrow> bool \<Rightarrow> addr option \<Rightarrow> amcqueue \<Rightarrow> (amcqueue \<times> amrc) option" where
  "amlog_sink_enqueue abort block ent q =
     (case ent of
        Some x \<Rightarrow> do { q \<leftarrow> amcqueue_enq x q; Some (q, AMRC_SUCCESS) }
      | None \<Rightarrow> if abort \<or> block then None else Some (q, AMRC_ERROR))"

section \<open>Messages\<close>

definition sink_skips :: "amlog_sink \<Rightarrow> amlog_line \<Rightarrow> bool" where
  "sink_skips k ent \<longleftrightarrow> (sk_mask k \<noteq> 0 \<and> lin_mask ent \<noteq> 0 \<and> sk_mask k AND lin_mask ent = 0) \<or> sk_level k < lin_level ent"

text \<open>
  The line is formatted when the first sink takes it: \<open>time\<close> is the result of \<^verbatim>\<open>amtime_now\<close> and \<open>text\<close> what \<^verbatim>\<open>vsnprintf\<close> would
  write without a limit, \<open>None\<close> when it fails. It writes at most 254 characters and returns the length of the text.
\<close>

definition MESSAGE_SIZE :: nat where "MESSAGE_SIZE = 256"

definition format_line :: "u64 \<Rightarrow> string option \<Rightarrow> amlog_line \<times> bool \<Rightarrow> amlog_line option" where
  "format_line time text st =
     (case st of (ent, formatted) \<Rightarrow>
        if formatted then Some ent
        else case text of
            None \<Rightarrow> None
          | Some t \<Rightarrow> Some (ent\<lparr>lin_timestamp := time, lin_message := take (MESSAGE_SIZE - 1 - 1) t, lin_length := int (length t)\<rparr>))"

definition set_queue :: "addr \<Rightarrow> amcqueue \<Rightarrow> log_state \<Rightarrow> log_state" where
  "set_queue a q s = s\<lparr>lg_queues := (lg_queues s)(a \<mapsto> q)\<rparr>"

text \<open>What is done for a queued sink that takes the line.\<close>

definition queue_line :: "(nat \<Rightarrow> amcqueue \<Rightarrow> amcqueue) \<Rightarrow> amlog_sink \<Rightarrow> amlog_line \<Rightarrow> log_state \<Rightarrow> log_state option" where
  "queue_line others k ent s =
     do { oa \<leftarrow> sk_out k;
          q \<leftarrow> lg_queues s oa;
          (q, r) \<leftarrow> amlog_sink_dequeue others (abort_on_error s) (block_on_error s) 0 q;
          let s = set_queue oa q s;
          case r of
            None \<Rightarrow> Some s
          | Some x \<Rightarrow>
              do { lg_lines s x;
                   let s = s\<lparr>lg_lines := (lg_lines s)(x \<mapsto> ent)\<rparr>;
                   ia \<leftarrow> sk_in k;
                   q \<leftarrow> lg_queues s ia;
                   (q, rc) \<leftarrow> amlog_sink_enqueue (abort_on_error s) (block_on_error s) (Some x) q;
                   Some (set_queue ia q s) } }"

text \<open>The loop over the queued sinks; \<open>None\<close> inside of the result is the return with an error.\<close>

fun send_queued :: "(nat \<Rightarrow> amcqueue \<Rightarrow> amcqueue) \<Rightarrow> u64 \<Rightarrow> string option \<Rightarrow> log_link list \<Rightarrow> amlog_line \<times> bool \<Rightarrow> log_state \<Rightarrow>
    ((amlog_line \<times> bool) option \<times> log_state) option" where
  "send_queued others time text [] st s = Some (Some st, s)"
| "send_queued others time text (SinkLink a # ls) st s =
     do { k \<leftarrow> lg_sinks s a;
          if sink_skips k (fst st) then send_queued others time text ls st s
          else case format_line time text st of
              None \<Rightarrow> Some (None, s)
            | Some ent \<Rightarrow> do { s \<leftarrow> queue_line others k ent s; send_queued others time text ls (ent, True) s } }"
| "send_queued others time text (_ # ls) st s = None"

definition call_sink :: "addr \<Rightarrow> amlog_sink \<Rightarrow> amlog_line \<Rightarrow> log_state \<Rightarrow> log_state option" where
  "call_sink a k ent s = do { f \<leftarrow> sk_callback k; Some (s\<lparr>lg_calls := lg_calls s @ [(f, a, sk_user k, ent)]\<rparr>) }"

fun send_direct :: "u64 \<Rightarrow> string option \<Rightarrow> log_link list \<Rightarrow> amlog_line \<times> bool \<Rightarrow> log_state \<Rightarrow> (amrc \<times> log_state) option" where
  "send_direct time text [] st s = Some (AMRC_SUCCESS, s)"
| "send_direct time text (SinkLink a # ls) st s =
     do { k \<leftarrow> lg_sinks s a;
          if sink_skips k (fst st) then send_direct time text ls st s
          else case format_line time text st of
              None \<Rightarrow> Some (AMRC_ERROR, s)
            | Some ent \<Rightarrow> do { s \<leftarrow> call_sink a k ent s; send_direct time text ls (ent, True) s } }"
| "send_direct time text (_ # ls) st s = None"

definition unformatted :: "log_state \<Rightarrow> string option \<Rightarrow> int \<Rightarrow> u64 \<Rightarrow> u64 \<Rightarrow> amlog_line" where
  "unformatted s file line level msk =
     (if use_source_location s then blank_line\<lparr>lin_level := level, lin_mask := msk, lin_file := file, lin_line := line\<rparr>
      else blank_line\<lparr>lin_level := level, lin_mask := msk, lin_file := Some ''N/A'', lin_line := 0\<rparr>)"

definition amlog_sink_message :: "(nat \<Rightarrow> amcqueue \<Rightarrow> amcqueue) \<Rightarrow> u64 \<Rightarrow> string option \<Rightarrow> int \<Rightarrow> u64 \<Rightarrow> u64 \<Rightarrow> string option \<Rightarrow>
    log_state \<Rightarrow> (amrc \<times> log_state) option" where
  "amlog_sink_message others time file line level msk text s =
     do { let st = (unformatted s file line level msk, False);
          l \<leftarrow> rw_read (queued_rwlock s);
          let s = s\<lparr>queued_rwlock := l\<rparr>;
          ls \<leftarrow> amlist_for_each_entry (lg_links s) QueuedSinks;
          (r, s) \<leftarrow> send_queued others time text ls st s;
          l \<leftarrow> rw_release (queued_rwlock s);
          let s = s\<lparr>queued_rwlock := l\<rparr>;
          case r of
            None \<Rightarrow> Some (AMRC_ERROR, s)
          | Some st \<Rightarrow>
              if lg_thread s = None then
                do { l \<leftarrow> rw_read (direct_rwlock s);
                     let s = s\<lparr>direct_rwlock := l\<rparr>;
                     ls \<leftarrow> amlist_for_each_entry (lg_links s) DirectSinks;
                     (rc, s) \<leftarrow> send_direct time text ls st s;
                     l \<leftarrow> rw_release (direct_rwlock s);
                     Some (rc, s\<lparr>direct_rwlock := l\<rparr>) }
              else Some (AMRC_SUCCESS, s) }"

section \<open>The thread for direct sinks\<close>

fun call_sinks :: "log_link list \<Rightarrow> amlog_line \<Rightarrow> log_state \<Rightarrow> log_state option" where
  "call_sinks [] ent s = Some s"
| "call_sinks (SinkLink a # ls) ent s =
     do { k \<leftarrow> lg_sinks s a;
          if sink_skips k ent then call_sinks ls ent s else do { s \<leftarrow> call_sink a k ent s; call_sinks ls ent s } }"
| "call_sinks (_ # ls) ent s = None"

text \<open>A turn of the loop, and whether there is another.\<close>

definition thread_turn :: "log_state \<Rightarrow> (bool \<times> log_state) option" where
  "thread_turn s =
     do { (_, t) \<leftarrow> lg_thread s;
          ia \<leftarrow> lt_in t;
          q \<leftarrow> lg_queues s ia;
          (q, r) \<leftarrow> amcqueue_deq q;
          let s = set_queue ia q s;
          case r of
            None \<Rightarrow> Some (lt_running t, s)
          | Some x \<Rightarrow>
              do { ent \<leftarrow> lg_lines s x;
                   l \<leftarrow> rw_read (direct_rwlock s);
                   let s = s\<lparr>direct_rwlock := l\<rparr>;
                   ls \<leftarrow> amlist_for_each_entry (lg_links s) DirectSinks;
                   s \<leftarrow> call_sinks ls ent s;
                   l \<leftarrow> rw_release (direct_rwlock s);
                   let s = s\<lparr>direct_rwlock := l\<rparr>;
                   oa \<leftarrow> lt_out t;
                   q \<leftarrow> lg_queues s oa;
                   q \<leftarrow> amcqueue_enq x q;
                   Some (True, set_queue oa q s) } }"

text \<open>The thread run alone to its end, which it does not reach while it is to keep running.\<close>

partial_function (option) amlog_direct_callback_thread_func :: "log_state \<Rightarrow> log_state option" where
  "amlog_direct_callback_thread_func s =
     do { (more, s) \<leftarrow> thread_turn s; if more then amlog_direct_callback_thread_func s else Some s }"

declare amlog_direct_callback_thread_func.simps [code]

section \<open>Initialisation and termination\<close>

definition AMLOG_FLAGS_USE_THREAD :: u32 where "AMLOG_FLAGS_USE_THREAD = 1"
definition AMLOG_FLAGS_AVOID_SOURCE_LINES :: u32 where "AMLOG_FLAGS_AVOID_SOURCE_LINES = 2"
definition AMLOG_FLAGS_BLOCK_ON_ERROR :: u32 where "AMLOG_FLAGS_BLOCK_ON_ERROR = 4"
definition AMLOG_FLAGS_ABORT_ON_ERROR :: u32 where "AMLOG_FLAGS_ABORT_ON_ERROR = 8"
definition THREAD_LINE_BUFFER_SIZE :: nat where "THREAD_LINE_BUFFER_SIZE = 2048"

text \<open>The block of the thread: the first members take 32 bytes, then come the lines, of 296 bytes each, then a pointer.\<close>

definition FIRST_LINE :: nat where "FIRST_LINE = 32"
definition LINE_BYTES :: nat where "LINE_BYTES = 296"
definition LOG_THREAD_BYTES :: u64 where "LOG_THREAD_BYTES = of_nat (FIRST_LINE + THREAD_LINE_BUFFER_SIZE * LINE_BYTES + 8)"

definition line_at :: "addr \<Rightarrow> nat \<Rightarrow> addr" where
  "line_at th i = th + FIRST_LINE + i * LINE_BYTES"

definition in_buffer :: "addr \<Rightarrow> addr \<Rightarrow> bool" where
  "in_buffer th x \<longleftrightarrow> th + FIRST_LINE \<le> x \<and> x < line_at th THREAD_LINE_BUFFER_SIZE \<and> (x - (th + FIRST_LINE)) mod LINE_BYTES = 0"

definition set_thread :: "addr \<Rightarrow> log_thread \<Rightarrow> log_state \<Rightarrow> log_state" where
  "set_thread th t s = s\<lparr>lg_thread := Some (th, t)\<rparr>"

text \<open>The result is whether everything could be made; what is there when it could not, is in the state.\<close>

definition new_queue :: "allocator \<Rightarrow> log_state \<Rightarrow> (addr option \<times> log_state) option" where
  "new_queue alloc s =
     do { (r, h) \<leftarrow> amcqueue_alloc alloc (lg_heap s) (of_nat THREAD_LINE_BUFFER_SIZE);
          let s = s\<lparr>lg_heap := h\<rparr>;
          case r of
            None \<Rightarrow> Some (None, s)
          | Some (a, q) \<Rightarrow> Some (Some a, set_queue a q s) }"

text \<open>The lines go into the queue of free lines, then the sink is registered and the thread started.\<close>

definition make_sink :: "allocator \<Rightarrow> bool \<Rightarrow> addr \<Rightarrow> log_thread \<Rightarrow> log_state \<Rightarrow> (bool \<times> log_state) option" where
  "make_sink alloc created th t s =
     do { oa \<leftarrow> lt_out t;
          q \<leftarrow> lg_queues s oa;
          q \<leftarrow> fill amcqueue_enq (map (line_at th) [0 ..< THREAD_LINE_BUFFER_SIZE]) q;
          let s = set_queue oa q s;
          (k, s) \<leftarrow> amlog_sink_register_queued alloc (Some ''amlog direct callback thread'') (lt_in t) (lt_out t) None s;
          Some (k \<noteq> None \<and> created, set_thread th (t\<lparr>lt_sink := k\<rparr>) s) }"

definition make_queues :: "allocator \<Rightarrow> bool \<Rightarrow> addr \<Rightarrow> log_state \<Rightarrow> (bool \<times> log_state) option" where
  "make_queues alloc created th s =
     do { (i, s) \<leftarrow> new_queue alloc s;
          let t = \<lparr>lt_running = True, lt_in = i, lt_out = None, lt_sink = None\<rparr>;
          if i = None then Some (False, set_thread th t s)
          else
            do { (r, s) \<leftarrow> new_queue alloc (set_thread th t s);
                 let t = \<lparr>lt_running = True, lt_in = i, lt_out = r, lt_sink = None\<rparr>;
                 if r = None then Some (False, set_thread th t s) else make_sink alloc created th t (set_thread th t s) } }"

definition make_thread :: "allocator \<Rightarrow> bool \<Rightarrow> log_state \<Rightarrow> (bool \<times> log_state) option" where
  "make_thread alloc created s =
     (case malloc alloc LOG_THREAD_BYTES (lg_heap s) of
        (None, h) \<Rightarrow> Some (False, s\<lparr>lg_heap := h\<rparr>)
      | (Some th, h) \<Rightarrow>
          make_queues alloc created th
            (set_thread th \<lparr>lt_running = True, lt_in = None, lt_out = None, lt_sink = None\<rparr>
              (s\<lparr>lg_heap := h, lg_lines := (\<lambda>x. if in_buffer th x then Some blank_line else lg_lines s x)\<rparr>)))"

definition release_queue :: "addr option \<Rightarrow> log_state \<Rightarrow> log_state option" where
  "release_queue p s =
     (case p of
        None \<Rightarrow> Some s
      | Some a \<Rightarrow> do { (rc, h) \<leftarrow> amcqueue_free (Some a) (lg_heap s); Some (s\<lparr>lg_heap := h, lg_queues := (lg_queues s)(a := None)\<rparr>) })"

text \<open>The error branch of \<^verbatim>\<open>amlog_sink_init\<close>, which is also the end of \<^verbatim>\<open>amlog_sink_term\<close>.\<close>

definition release_thread :: "log_state \<Rightarrow> log_state option" where
  "release_thread s =
     (case lg_thread s of
        None \<Rightarrow> Some s
      | Some (th, t) \<Rightarrow>
          do { s \<leftarrow> amlog_sink_unregister (lt_sink t) s;
               s \<leftarrow> release_queue (lt_in t) s;
               s \<leftarrow> release_queue (lt_out t) s;
               h \<leftarrow> free_block (Some th) (lg_heap s);
               Some (s\<lparr>lg_heap := h, lg_thread := None, lg_lines := (\<lambda>x. if in_buffer th x then None else lg_lines s x)\<rparr>) })"

definition amlog_sink_init :: "allocator \<Rightarrow> bool \<Rightarrow> u32 \<Rightarrow> log_state \<Rightarrow> (amrc \<times> log_state) option" where
  "amlog_sink_init alloc created flags s =
     (if flags AND AMLOG_FLAGS_BLOCK_ON_ERROR \<noteq> 0 \<and> flags AND AMLOG_FLAGS_ABORT_ON_ERROR \<noteq> 0 then Some (AMRC_ERROR, s)
      else
        do { let s = s\<lparr>abort_on_error := (flags AND AMLOG_FLAGS_ABORT_ON_ERROR \<noteq> 0),
               block_on_error := (flags AND AMLOG_FLAGS_BLOCK_ON_ERROR \<noteq> 0),
               use_source_location := (flags AND AMLOG_FLAGS_AVOID_SOURCE_LINES = 0)\<rparr>;
             if flags AND AMLOG_FLAGS_USE_THREAD = 0 then Some (AMRC_SUCCESS, s)
             else
               do { c_assert (lg_thread s = None);
                    (made, s) \<leftarrow> make_thread alloc created s;
                    if made then Some (AMRC_SUCCESS, s) else do { s \<leftarrow> release_thread s; Some (AMRC_ERROR, s) } } })"

definition amlog_sink_term :: "log_state \<Rightarrow> log_state option" where
  "amlog_sink_term s =
     (case lg_thread s of
        None \<Rightarrow> Some s
      | Some (th, t) \<Rightarrow>
          do { s \<leftarrow> amlog_direct_callback_thread_func (set_thread th (t\<lparr>lt_running := False\<rparr>) s);
               release_thread s })"

section \<open>The sink for standard output\<close>

definition levels :: "string list" where
  "levels = [''CRITICAL'', ''ERROR'', ''ERROR'', ''WARNING'', ''WARNING'', ''WARNING'', ''INFO'', ''INFO'', ''INFO'', ''INFO'', ''DEBUG'']"

definition level_name :: "u64 \<Rightarrow> string" where
  "level_name l = (if l < of_nat (length levels) then levels ! unat l else take 31 (''level '' @ dec (unat l)))"

text \<open>\<open>date\<close> is the text of the date that \<^verbatim>\<open>localtime\<close> and \<^verbatim>\<open>strftime\<close> make of the seconds; the result is what is printed.\<close>

definition amlog_sink_dafault_stdout :: "(u64 \<Rightarrow> string) \<Rightarrow> bool \<Rightarrow> amlog_line \<Rightarrow> string" where
  "amlog_sink_dafault_stdout date source ent =
     (let usec = dec (unat (lin_timestamp ent mod 1000000));
          place = (case lin_file ent of None \<Rightarrow> ''(null)'' | Some f \<Rightarrow> f) @ '':'' @ (if lin_line ent < 0 then ''-'' else []) @ dec (nat \<bar>lin_line ent\<bar>) @ '' ''
      in date (lin_timestamp ent div 1000000) @ ''.'' @ replicate (6 - length usec) CHR ''0'' @ usec @ '' '' @
         (if source then place else []) @ level_name (lin_level ent) @ '' '' @
         (if lin_length ent < 0 then lin_message ent else take (nat (lin_length ent)) (lin_message ent)))"

end
