(* ===== verification/AmLogInv.thy ===== *)
theory AmLogInv
  imports AmLog
begin

text \<open>
  The lists of sinks and their queues: the invariant of the log, and what a message does to it.
\<close>

section \<open>The invariant\<close>

fun sink_lists :: "addr list \<Rightarrow> addr list \<Rightarrow> log_link \<Rightarrow> log_link list" where
  "sink_lists ds qs DirectSinks = map SinkLink ds"
| "sink_lists ds qs QueuedSinks = map SinkLink qs"
| "sink_lists ds qs (SinkLink a) = []"

definition holds_queue :: "log_state \<Rightarrow> addr \<Rightarrow> nat \<Rightarrow> addr list \<Rightarrow> bool" where
  "holds_queue s a c xs \<longleftrightarrow> (\<exists>q. lg_queues s a = Some q \<and> queue_list c q xs)"

definition direct_ok :: "log_state \<Rightarrow> addr \<Rightarrow> bool" where
  "direct_ok s a \<longleftrightarrow> (\<exists>k. lg_sinks s a = Some k \<and> sk_callback k \<noteq> None)"

text \<open>The lines of a queued sink are in its two queues, and all of them fit into the first.\<close>

definition queued_ok :: "log_state \<Rightarrow> (addr \<Rightarrow> addr list) \<Rightarrow> (addr \<Rightarrow> addr list) \<Rightarrow> addr \<Rightarrow> bool" where
  "queued_ok s In Out a \<longleftrightarrow>
     (\<exists>k i r ci co. lg_sinks s a = Some k \<and> sk_callback k = None \<and> sk_in k = Some i \<and> sk_out k = Some r \<and>
        holds_queue s i ci (In a) \<and> holds_queue s r co (Out a) \<and> length (In a) + length (Out a) \<le> ci \<and>
        (\<forall>x \<in> set (In a @ Out a). lg_lines s x \<noteq> None))"

definition queue_addrs :: "log_state \<Rightarrow> addr \<Rightarrow> addr list" where
  "queue_addrs s a = (case lg_sinks s a of None \<Rightarrow> [] | Some k \<Rightarrow> [the (sk_in k), the (sk_out k)])"

definition log_ok :: "log_state \<Rightarrow> addr list \<Rightarrow> addr list \<Rightarrow> (addr \<Rightarrow> addr list) \<Rightarrow> (addr \<Rightarrow> addr list) \<Rightarrow> bool" where
  "log_ok s ds qs In Out \<longleftrightarrow>
     forest (lg_links s) {DirectSinks, QueuedSinks} (sink_lists ds qs) \<and>
     (\<forall>a \<in> set ds. direct_ok s a) \<and> (\<forall>a \<in> set qs. queued_ok s In Out a) \<and>
     distinct (concat (map (queue_addrs s) qs)) \<and> distinct (concat (map (\<lambda>a. In a @ Out a) qs))"

definition unlocked :: "log_state \<Rightarrow> bool" where
  "unlocked s \<longleftrightarrow> direct_rwlock s = Readers 0 \<and> queued_rwlock s = Readers 0"

lemma log_for_each:
  assumes "log_ok s ds qs In Out"
  shows "amlist_for_each_entry (lg_links s) DirectSinks = Some (map SinkLink ds)"
    and "amlist_for_each_entry (lg_links s) QueuedSinks = Some (map SinkLink qs)"
  using assms links.rep_for_each [of "lg_links s" "{DirectSinks, QueuedSinks}" "sink_lists ds qs"] by (auto simp: log_ok_def)

lemma log_distinct:
  assumes "log_ok s ds qs In Out"
  shows "distinct ds" and "distinct qs" and "set ds \<inter> set qs = {}"
proof -
  have f: "forest (lg_links s) {DirectSinks, QueuedSinks} (sink_lists ds qs)" using assms by (simp add: log_ok_def)
  show "distinct ds" "distinct qs"
    using links.rep_distinct [OF f, of DirectSinks] links.rep_distinct [OF f, of QueuedSinks] by (simp_all add: distinct_map)
  show "set ds \<inter> set qs = {}" using links.rep_disjoint [OF f, of DirectSinks QueuedSinks] by auto
qed

text \<open>What is distinct for all sinks, for two of them.\<close>

lemma distinct_concat_pair:
  "distinct (concat (map f xs)) \<Longrightarrow> a \<in> set xs \<Longrightarrow> b \<in> set xs \<Longrightarrow> a \<noteq> b \<Longrightarrow> set (f a) \<inter> set (f b) = {}"
  by (induction xs) auto

lemma distinct_concat_one: "distinct (concat (map f xs)) \<Longrightarrow> a \<in> set xs \<Longrightarrow> distinct (f a)"
  by (induction xs) auto

lemma distinct_concat_update:
  assumes "distinct (concat (map f xs))" and "distinct xs" and "a \<in> set xs" and "distinct (g a)" and "set (g a) \<subseteq> set (f a)"
    and "\<And>b. b \<in> set xs \<Longrightarrow> b \<noteq> a \<Longrightarrow> g b = f b"
  shows "distinct (concat (map g xs))"
  using assms
proof (induction xs)
  case (Cons x xs)
  show ?case
  proof (cases "x = a")
    case True
    have "\<forall>b \<in> set xs. g b = f b" using Cons.prems(2,6) True by auto
    then have m: "concat (map g xs) = concat (map f xs)" by (metis map_eq_conv)
    have "set (g a) \<inter> set (concat (map f xs)) = {}" using Cons.prems(1,5) True by auto
    then show ?thesis using Cons.prems(1,4) True unfolding list.map concat.simps m by simp
  next
    case False
    then have a: "a \<in> set xs" "g x = f x" using Cons.prems by auto
    have "set (concat (map g xs)) \<subseteq> set (concat (map f xs))"
    proof
      fix y assume "y \<in> set (concat (map g xs))"
      then obtain b where b: "b \<in> set xs" "y \<in> set (g b)" by auto
      then have "y \<in> set (f b)" using Cons.prems(5,6) by (cases "b = a") auto
      then show "y \<in> set (concat (map f xs))" using b by auto
    qed
    moreover have "distinct (concat (map g xs))" using Cons a by auto
    ultimately show ?thesis using Cons.prems(1) a by auto
  qed
qed simp

section \<open>One sink takes a line\<close>

lemma queue_line_empty:
  assumes "queued_ok s In Out a" and "lg_sinks s a = Some k" and "Out a = []" and "\<not> abort_on_error s" and "\<not> block_on_error s"
  shows "queue_line others k ent s = Some s"
proof -
  from assms(1-3) obtain r q c where r: "sk_out k = Some r" "lg_queues s r = Some q" "queue_list c q []"
    by (auto simp: queued_ok_def holds_queue_def)
  have "amlog_sink_dequeue others False False 0 q = Some (q, None)"
    by (subst amlog_sink_dequeue.simps) (simp add: deq_alone_empty [OF r(3)])
  moreover have "set_queue r q s = s" using r(2) by (simp add: set_queue_def fun_upd_idem)
  ultimately show ?thesis using r(1,2) assms(4,5) by (simp add: queue_line_def Let_def)
qed

lemma dequeue_takes:
  assumes "queue_list c q (x # xs)"
  shows "\<exists>q'. amlog_sink_dequeue others ab bl n q = Some (q', Some x) \<and> queue_list c q' xs"
proof -
  from cqf.deq_law [OF assms] obtain q' where "amcqueue_deq q = Some (q', Some x)" "queue_list c q' xs" by blast
  then show ?thesis by (subst amlog_sink_dequeue.simps) simp
qed

text \<open>The capacities of the queues stay.\<close>

definition caps :: "(addr \<rightharpoonup> amcqueue) \<Rightarrow> addr \<Rightarrow> u64 option" where
  "caps m = (\<lambda>a. map_option cq_capacity (m a))"

lemma caps_dom: "caps m = caps m' \<Longrightarrow> dom m = dom m'"
  by (metis (no_types, lifting) caps_def domIff map_option_is_None subsetI subset_antisym)

lemma queue_list_capacity: "queue_list c q xs \<Longrightarrow> cq_capacity q = of_nat (Suc c)"
proof -
  assume "queue_list c q xs"
  then have "unat (cq_capacity q) = Suc c" by (simp add: queue_list_def)
  then have "of_nat (unat (cq_capacity q)) = (of_nat (Suc c) :: u64)" by simp
  then show ?thesis by simp
qed

text \<open>The two queues of a sink change, and lines are written.\<close>

lemma log_ok_requeue:
  assumes ok: "log_ok s ds qs In Out" and a: "a \<in> set qs" and k: "lg_sinks s a = Some k" "sk_in k = Some i" "sk_out k = Some r"
    and Q: "\<And>b. b \<noteq> i \<Longrightarrow> b \<noteq> r \<Longrightarrow> Q b = lg_queues s b" and L: "dom (lg_lines s) \<subseteq> dom L"
    and new: "Q i = Some qi" "queue_list ci qi xs" "Q r = Some qo" "queue_list co qo ys" "length xs + length ys \<le> ci"
    and own: "set (xs @ ys) \<subseteq> set (In a @ Out a)" "distinct (xs @ ys)"
  shows "log_ok (s\<lparr>lg_queues := Q, lg_lines := L\<rparr>) ds qs (In(a := xs)) (Out(a := ys))"
proof -
  let ?s = "s\<lparr>lg_queues := Q, lg_lines := L\<rparr>"
  have dq: "distinct (concat (map (queue_addrs s) qs))" "distinct (concat (map (\<lambda>a. In a @ Out a) qs))" and qok: "\<forall>b \<in> set qs. queued_ok s In Out b"
    using ok by (simp_all add: log_ok_def)
  have sinks: "queue_addrs ?s = queue_addrs s" by (simp add: queue_addrs_def fun_eq_iff)
  have "\<forall>x \<in> set (xs @ ys). L x \<noteq> None"
  proof
    fix x assume "x \<in> set (xs @ ys)"
    then have "x \<in> set (In a @ Out a)" using own(1) by blast
    moreover have "queued_ok s In Out a" using qok a by blast
    ultimately have "lg_lines s x \<noteq> None" unfolding queued_ok_def by blast
    then show "L x \<noteq> None" using L by blast
  qed
  moreover have "sk_callback k = None" using qok a k by (auto simp: queued_ok_def)
  ultimately have own_ok: "queued_ok ?s (In(a := xs)) (Out(a := ys)) a" using k new by (auto simp: queued_ok_def holds_queue_def)
  have other: "queued_ok ?s (In(a := xs)) (Out(a := ys)) b" if b: "b \<in> set qs" "b \<noteq> a" for b
  proof -
    have "queued_ok s In Out b" using qok b(1) by blast
    then obtain kb ib rb cib cob where
      g: "lg_sinks s b = Some kb" "sk_callback kb = None" "sk_in kb = Some ib" "sk_out kb = Some rb"
        "holds_queue s ib cib (In b)" "holds_queue s rb cob (Out b)" "length (In b) + length (Out b) \<le> cib"
        "\<forall>y \<in> set (In b @ Out b). lg_lines s y \<noteq> None" by (auto simp: queued_ok_def)
    have "set (queue_addrs s a) \<inter> set (queue_addrs s b) = {}" using distinct_concat_pair [OF dq(1) a b(1)] b(2) by blast
    then have "ib \<noteq> i" "ib \<noteq> r" "rb \<noteq> i" "rb \<noteq> r" using k g(1,3,4) by (auto simp: queue_addrs_def)
    then have "holds_queue ?s ib cib (In b)" "holds_queue ?s rb cob (Out b)" using g(5,6) Q by (auto simp: holds_queue_def)
    moreover have "\<forall>y \<in> set (In b @ Out b). lg_lines ?s y \<noteq> None" using g(8) L by auto
    ultimately show ?thesis using g b(2) unfolding queued_ok_def by auto
  qed
  have "distinct (concat (map (\<lambda>b. (In(a := xs)) b @ (Out(a := ys)) b) qs))"
    by (rule distinct_concat_update [OF dq(2) log_distinct(2) [OF ok] a]) (use own in auto)
  then show ?thesis using ok own_ok other sinks by (auto simp: log_ok_def direct_ok_def)
qed

lemma log_queue_facts:
  assumes "log_ok s ds qs In Out" and "a \<in> set qs" and "lg_sinks s a = Some k"
  shows "\<exists>i r ci co qi qo. sk_in k = Some i \<and> sk_out k = Some r \<and> i \<noteq> r \<and> lg_queues s i = Some qi \<and> queue_list ci qi (In a) \<and>
    lg_queues s r = Some qo \<and> queue_list co qo (Out a) \<and> length (In a) + length (Out a) \<le> ci \<and>
    (\<forall>x \<in> set (In a @ Out a). lg_lines s x \<noteq> None) \<and> distinct (In a @ Out a)"
proof -
  have "queued_ok s In Out a" "distinct (concat (map (queue_addrs s) qs))" "distinct (concat (map (\<lambda>a. In a @ Out a) qs))"
    using assms(1,2) by (simp_all add: log_ok_def)
  then have "queued_ok s In Out a" "distinct (queue_addrs s a)" "distinct (In a @ Out a)"
    using distinct_concat_one [of "queue_addrs s" qs a] distinct_concat_one [of "\<lambda>a. In a @ Out a" qs a] assms(2) by blast+
  moreover from this assms(3) obtain i r ci co qi qo where
    f: "sk_in k = Some i" "sk_out k = Some r" "lg_queues s i = Some qi" "queue_list ci qi (In a)" "lg_queues s r = Some qo"
      "queue_list co qo (Out a)" "length (In a) + length (Out a) \<le> ci" "\<forall>x \<in> set (In a @ Out a). lg_lines s x \<noteq> None"
    unfolding queued_ok_def holds_queue_def by auto
  moreover have "i \<noteq> r" using \<open>distinct (queue_addrs s a)\<close> assms(3) f(1,2) by (simp add: queue_addrs_def)
  ultimately show ?thesis by blast
qed

lemma queue_line_moves:
  assumes ok: "log_ok s ds qs In Out" and a: "a \<in> set qs" and k: "lg_sinks s a = Some k" and l: "Out a = x # xs"
  shows "\<exists>Q. queue_line others k ent s = Some (s\<lparr>lg_queues := Q, lg_lines := (lg_lines s)(x \<mapsto> ent)\<rparr>) \<and> caps Q = caps (lg_queues s) \<and>
    log_ok (s\<lparr>lg_queues := Q, lg_lines := (lg_lines s)(x \<mapsto> ent)\<rparr>) ds qs (In(a := In a @ [x])) (Out(a := xs))"
proof -
  from log_queue_facts [OF ok a k] l obtain i r ci co qi qo where
    f: "sk_in k = Some i" "sk_out k = Some r" "i \<noteq> r" "lg_queues s i = Some qi" "queue_list ci qi (In a)" "lg_queues s r = Some qo"
      "queue_list co qo (x # xs)" "length (In a) + length (x # xs) \<le> ci" "\<forall>y \<in> set (In a @ x # xs). lg_lines s y \<noteq> None"
      "distinct (In a @ x # xs)" by auto
  from dequeue_takes [OF f(7)] obtain qo' where d: "amlog_sink_dequeue others (abort_on_error s) (block_on_error s) 0 qo = Some (qo', Some x)"
    "queue_list co qo' xs" by blast
  have "Suc (length (In a)) \<le> ci" using f(8) by simp
  from cqf.enq_law [OF f(5) this, of x] obtain qi' where e: "amcqueue_enq x qi = Some qi'" "queue_list ci qi' (In a @ [x])" by blast
  let ?Q = "(lg_queues s)(r \<mapsto> qo', i \<mapsto> qi')"
  have "lg_lines s x \<noteq> None" using f(9) by simp
  then have "queue_line others k ent s = Some (s\<lparr>lg_queues := ?Q, lg_lines := (lg_lines s)(x \<mapsto> ent)\<rparr>)"
    using f(1-4,6) d(1) e(1) by (auto simp: queue_line_def Let_def set_queue_def amlog_sink_enqueue_def)
  moreover have "log_ok (s\<lparr>lg_queues := ?Q, lg_lines := (lg_lines s)(x \<mapsto> ent)\<rparr>) ds qs (In(a := In a @ [x])) (Out(a := xs))"
    by (rule log_ok_requeue [OF ok a k f(1,2)]) (use f d(2) e(2) l in auto)
  moreover have "caps ?Q = caps (lg_queues s)" using f(4-7) d(2) e(2) by (auto simp: caps_def queue_list_capacity)
  ultimately show ?thesis by blast
qed

section \<open>The loops over the sinks\<close>

text \<open>The sinks a line is for, and the queues after it was moved.\<close>

definition routes :: "log_state \<Rightarrow> amlog_line \<Rightarrow> addr list \<Rightarrow> addr list" where
  "routes s ent as = filter (\<lambda>a. \<not> sink_skips (the (lg_sinks s a)) ent) as"

definition moved_in :: "addr list \<Rightarrow> (addr \<Rightarrow> addr list) \<Rightarrow> (addr \<Rightarrow> addr list) \<Rightarrow> addr \<Rightarrow> addr list" where
  "moved_in as In Out a = (if a \<in> set as then In a @ take 1 (Out a) else In a)"

definition moved_out :: "addr list \<Rightarrow> (addr \<Rightarrow> addr list) \<Rightarrow> addr \<Rightarrow> addr list" where
  "moved_out as Out a = (if a \<in> set as then drop 1 (Out a) else Out a)"

definition written :: "addr list \<Rightarrow> (addr \<Rightarrow> addr list) \<Rightarrow> amlog_line \<Rightarrow> (addr \<rightharpoonup> amlog_line) \<Rightarrow> addr \<rightharpoonup> amlog_line" where
  "written as Out ent m x = (if \<exists>a \<in> set as. Out a \<noteq> [] \<and> x = hd (Out a) then Some ent else m x)"

definition call_of_sink :: "log_state \<Rightarrow> amlog_line \<Rightarrow> addr \<Rightarrow> log_call" where
  "call_of_sink s ent a = (the (sk_callback (the (lg_sinks s a))), a, sk_user (the (lg_sinks s a)), ent)"

lemma routes_Cons:
  "lg_sinks s a = Some k \<Longrightarrow> routes s ent (a # as) = (if sink_skips k ent then routes s ent as else a # routes s ent as)"
  by (simp add: routes_def)

lemma routes_Nil [simp]: "routes s ent [] = []"
  by (simp add: routes_def)

lemma routes_cong: "lg_sinks s' = lg_sinks s \<Longrightarrow> routes s' = routes s"
  by (simp add: routes_def fun_eq_iff)

lemma routes_subset: "set (routes s ent as) \<subseteq> set as"
  by (auto simp: routes_def)

lemma skips_formatted: "format_line time text st = Some ent \<Longrightarrow> sink_skips k ent = sink_skips k (fst st)"
  by (auto simp: format_line_def sink_skips_def split: prod.splits if_splits option.splits)

lemma routes_formatted: "format_line time text st = Some ent \<Longrightarrow> routes s ent as = routes s (fst st) as"
  by (simp add: routes_def skips_formatted)

lemma moved_none [simp]: "moved_in [] In Out = In" "moved_out [] Out = Out" "written [] Out ent m = m"
  by (simp_all add: moved_in_def moved_out_def written_def fun_eq_iff)

lemma moved_Cons:
  assumes "a \<notin> set as"
  shows "moved_in as (In(a := In a @ take 1 (Out a))) (Out(a := drop 1 (Out a))) = moved_in (a # as) In Out"
    and "moved_out as (Out(a := drop 1 (Out a))) = moved_out (a # as) Out"
  using assms by (auto simp: moved_in_def moved_out_def fun_eq_iff)

lemma written_Cons:
  assumes "a \<notin> set as" and "Out a = x # xs"
  shows "written as (Out(a := xs)) ent (m(x \<mapsto> ent)) = written (a # as) Out ent m"
  using assms by (auto simp: written_def fun_eq_iff)

lemma written_skip: "Out a = [] \<Longrightarrow> written as Out ent m = written (a # as) Out ent m"
  by (auto simp: written_def fun_eq_iff)

text \<open>A sink that takes the line, whether or not it has a free one.\<close>

lemma queue_line_ok:
  assumes ok: "log_ok s ds qs In Out" and a: "a \<in> set qs" and k: "lg_sinks s a = Some k"
    and e: "Out a = [] \<Longrightarrow> \<not> abort_on_error s \<and> \<not> block_on_error s"
  shows "\<exists>Q. queue_line others k ent s = Some (s\<lparr>lg_queues := Q, lg_lines := written [a] Out ent (lg_lines s)\<rparr>) \<and> caps Q = caps (lg_queues s) \<and>
    log_ok (s\<lparr>lg_queues := Q, lg_lines := written [a] Out ent (lg_lines s)\<rparr>) ds qs (In(a := In a @ take 1 (Out a))) (Out(a := drop 1 (Out a)))"
proof (cases "Out a")
  case Nil
  have w: "written [a] Out ent (lg_lines s) = lg_lines s" using Nil by (simp add: written_def fun_eq_iff)
  have "queued_ok s In Out a" using ok a by (simp add: log_ok_def)
  from queue_line_empty [OF this k Nil] e [OF Nil] have "queue_line others k ent s = Some s" by blast
  moreover have "In(a := In a @ take 1 (Out a)) = In" "Out(a := drop 1 (Out a)) = Out" using Nil by (simp_all add: fun_upd_idem)
  ultimately show ?thesis using ok unfolding w by (intro exI [of _ "lg_queues s"]) simp
next
  case (Cons x xs)
  have "written [a] Out ent (lg_lines s) = (lg_lines s)(x \<mapsto> ent)" using Cons by (auto simp: written_def fun_eq_iff)
  then show ?thesis using queue_line_moves [OF ok a k Cons, of others ent] Cons by simp
qed

lemma send_formatted:
  "log_ok s ds qs In Out \<Longrightarrow> set as \<subseteq> set qs \<Longrightarrow> distinct as \<Longrightarrow>
    (\<forall>a \<in> set (routes s ent as). Out a \<noteq> [] \<or> \<not> abort_on_error s \<and> \<not> block_on_error s) \<Longrightarrow>
    \<exists>Q. send_queued others time text (map SinkLink as) (ent, True) s =
        Some (Some (ent, True), s\<lparr>lg_queues := Q, lg_lines := written (routes s ent as) Out ent (lg_lines s)\<rparr>) \<and> caps Q = caps (lg_queues s) \<and>
      log_ok (s\<lparr>lg_queues := Q, lg_lines := written (routes s ent as) Out ent (lg_lines s)\<rparr>) ds qs
        (moved_in (routes s ent as) In Out) (moved_out (routes s ent as) Out)"
proof (induction as arbitrary: s In Out)
  case Nil
  then show ?case by (intro exI [of _ "lg_queues s"]) simp
next
  case (Cons a as)
  have "queued_ok s In Out a" using Cons.prems(1,2) by (simp add: log_ok_def)
  then obtain k where k: "lg_sinks s a = Some k" by (auto simp: queued_ok_def)
  note r = routes_Cons [where s = s and a = a and k = k and ent = ent and as = as, OF k]
  show ?case
  proof (cases "sink_skips k ent")
    case True
    then show ?thesis using Cons.IH [OF Cons.prems(1)] Cons.prems r k by simp
  next
    case False
    have al: "a \<in> set qs" "a \<notin> set as" "a \<notin> set (routes s ent as)"
      using Cons.prems(2,3) routes_subset [of s ent as] by auto
    have "Out a = [] \<Longrightarrow> \<not> abort_on_error s \<and> \<not> block_on_error s" using Cons.prems(4) False r by auto
    from queue_line_ok [OF Cons.prems(1) al(1) k this, of others ent] obtain Q1 where
      q: "queue_line others k ent s = Some (s\<lparr>lg_queues := Q1, lg_lines := written [a] Out ent (lg_lines s)\<rparr>)" "caps Q1 = caps (lg_queues s)"
        "log_ok (s\<lparr>lg_queues := Q1, lg_lines := written [a] Out ent (lg_lines s)\<rparr>) ds qs (In(a := In a @ take 1 (Out a))) (Out(a := drop 1 (Out a)))"
      by blast
    let ?s = "s\<lparr>lg_queues := Q1, lg_lines := written [a] Out ent (lg_lines s)\<rparr>"
    have rt: "routes ?s = routes s" by (rule routes_cong) simp
    have "\<forall>b \<in> set (routes ?s ent as). (Out(a := drop 1 (Out a))) b \<noteq> [] \<or> \<not> abort_on_error ?s \<and> \<not> block_on_error ?s"
      using Cons.prems(4) False r al(3) unfolding rt by auto
    moreover have "set as \<subseteq> set qs" "distinct as" using Cons.prems(2,3) by auto
    ultimately obtain Q where
      i: "send_queued others time text (map SinkLink as) (ent, True) ?s =
        Some (Some (ent, True), ?s\<lparr>lg_queues := Q, lg_lines := written (routes s ent as) (Out(a := drop 1 (Out a))) ent (lg_lines ?s)\<rparr>)"
        "caps Q = caps (lg_queues ?s)"
        "log_ok (?s\<lparr>lg_queues := Q, lg_lines := written (routes s ent as) (Out(a := drop 1 (Out a))) ent (lg_lines ?s)\<rparr>) ds qs
          (moved_in (routes s ent as) (In(a := In a @ take 1 (Out a))) (Out(a := drop 1 (Out a)))) (moved_out (routes s ent as) (Out(a := drop 1 (Out a))))"
      using Cons.IH [OF q(3)] unfolding rt by blast
    have w: "written (routes s ent as) (Out(a := drop 1 (Out a))) ent (written [a] Out ent (lg_lines s)) =
        written (a # routes s ent as) Out ent (lg_lines s)"
      using al(3) by (auto simp: written_def fun_eq_iff)
    note m = moved_Cons(1) [where In = In and Out = Out, OF al(3)] moved_Cons(2) [where Out = Out, OF al(3)]
    have "send_queued others time text (map SinkLink (a # as)) (ent, True) s = send_queued others time text (map SinkLink as) (ent, True) ?s"
      using k False q(1) by (simp add: format_line_def)
    moreover have "?s\<lparr>lg_queues := Q, lg_lines := written (routes s ent as) (Out(a := drop 1 (Out a))) ent (lg_lines ?s)\<rparr> =
        s\<lparr>lg_queues := Q, lg_lines := written (a # routes s ent as) Out ent (lg_lines s)\<rparr>" unfolding w [symmetric] by simp
    note e = this
    moreover have "routes s ent (a # as) = a # routes s ent as" using r False by simp
    moreover have "caps Q = caps (lg_queues s)" using i(2) q(2) by simp
    ultimately show ?thesis using i(1,3) unfolding e m by auto
  qed
qed

text \<open>A line that is not formatted yet: nothing happens before the first sink that takes it.\<close>

lemma send_unformatted:
  assumes "log_ok s ds qs In Out" and "set as \<subseteq> set qs" and "distinct as" and "format_line time (Some t) (ent, False) = Some e"
    and "\<forall>a \<in> set (routes s ent as). Out a \<noteq> [] \<or> \<not> abort_on_error s \<and> \<not> block_on_error s"
  shows "\<exists>Q. send_queued others time (Some t) (map SinkLink as) (ent, False) s =
        Some (Some (if routes s ent as = [] then (ent, False) else (e, True)),
          s\<lparr>lg_queues := Q, lg_lines := written (routes s ent as) Out e (lg_lines s)\<rparr>) \<and> caps Q = caps (lg_queues s) \<and>
      log_ok (s\<lparr>lg_queues := Q, lg_lines := written (routes s ent as) Out e (lg_lines s)\<rparr>) ds qs
        (moved_in (routes s ent as) In Out) (moved_out (routes s ent as) Out)"
  using assms
proof (induction as)
  case Nil
  then show ?case by (intro exI [of _ "lg_queues s"]) simp
next
  case (Cons a as)
  have "queued_ok s In Out a" using Cons.prems(1,2) by (simp add: log_ok_def)
  then obtain k where k: "lg_sinks s a = Some k" by (auto simp: queued_ok_def)
  note r = routes_Cons [where s = s and a = a and k = k and ent = ent and as = as, OF k]
  show ?case
  proof (cases "sink_skips k ent")
    case True
    then show ?thesis using Cons k r by simp
  next
    case False
    have re: "routes s e (a # as) = routes s ent (a # as)" using routes_formatted [OF Cons.prems(4)] by simp
    have "sink_skips k e = False" using skips_formatted [OF Cons.prems(4)] False by simp
    then have "send_queued others time (Some t) (map SinkLink (a # as)) (ent, False) s =
        send_queued others time (Some t) (map SinkLink (a # as)) (e, True) s"
      using k False Cons.prems(4) by (simp add: format_line_def)
    moreover have "routes s ent (a # as) \<noteq> []" using False r by simp
    ultimately show ?thesis
      using send_formatted [of s ds qs In Out "a # as" e others time "Some t"] Cons.prems unfolding re by simp
  qed
qed

lemma send_fails:
  assumes "\<forall>a \<in> set as. lg_sinks s a \<noteq> None"
  shows "send_queued others time None (map SinkLink as) (ent, False) s =
    Some (if routes s ent as = [] then Some (ent, False) else None, s)"
  using assms
proof (induction as)
  case (Cons a as)
  then obtain k where "lg_sinks s a = Some k" by auto
  then show ?case using Cons by (simp add: routes_Cons format_line_def)
qed simp

lemma direct_formatted:
  assumes "\<forall>a \<in> set as. direct_ok s a"
  shows "send_direct time text (map SinkLink as) (ent, True) s =
    Some (AMRC_SUCCESS, s\<lparr>lg_calls := lg_calls s @ map (call_of_sink s ent) (routes s ent as)\<rparr>)"
  using assms
proof (induction as arbitrary: s)
  case (Cons a as)
  then obtain k f where k: "lg_sinks s a = Some k" "sk_callback k = Some f" by (auto simp: direct_ok_def)
  show ?case
  proof (cases "sink_skips k ent")
    case True
    then show ?thesis using Cons k by (simp add: routes_Cons)
  next
    case False
    let ?s = "s\<lparr>lg_calls := lg_calls s @ [call_of_sink s ent a]\<rparr>"
    have "\<forall>a \<in> set as. direct_ok ?s a" using Cons.prems by (simp add: direct_ok_def)
    note i = Cons.IH [OF this]
    have c: "call_of_sink ?s = call_of_sink s" "routes ?s = routes s" by (simp_all add: call_of_sink_def routes_def fun_eq_iff)
    have "send_direct time text (map SinkLink (a # as)) (ent, True) s = send_direct time text (map SinkLink as) (ent, True) ?s"
      using k False by (simp add: format_line_def call_sink_def call_of_sink_def)
    then show ?thesis using i False k unfolding c by (simp add: routes_Cons)
  qed
qed simp

lemma direct_unformatted:
  assumes "\<forall>a \<in> set as. direct_ok s a"
  shows "send_direct time text (map SinkLink as) (ent, False) s =
    (if routes s ent as = [] then Some (AMRC_SUCCESS, s)
     else case format_line time text (ent, False) of
         None \<Rightarrow> Some (AMRC_ERROR, s)
       | Some e \<Rightarrow> Some (AMRC_SUCCESS, s\<lparr>lg_calls := lg_calls s @ map (call_of_sink s e) (routes s ent as)\<rparr>))"
  using assms
proof (induction as)
  case (Cons a as)
  then obtain k f where k: "lg_sinks s a = Some k" "sk_callback k = Some f" by (auto simp: direct_ok_def)
  show ?case
  proof (cases "sink_skips k ent")
    case True
    then have r: "routes s ent (a # as) = routes s ent as" using k by (simp add: routes_Cons)
    show ?thesis unfolding r using Cons k True by simp
  next
    case False
    show ?thesis
    proof (cases "format_line time text (ent, False)")
      case None
      then show ?thesis using k False by (simp add: routes_Cons)
    next
      case (Some e)
      have "sink_skips k e = False" using skips_formatted [OF Some] False by simp
      then have "send_direct time text (map SinkLink (a # as)) (ent, False) s = send_direct time text (map SinkLink (a # as)) (e, True) s"
        using k False Some by (simp add: format_line_def)
      then show ?thesis
        using direct_formatted [OF Cons.prems, of time "text" e] routes_formatted [OF Some, of s "a # as"] Some False k
        by (simp add: routes_Cons)
    qed
  qed
qed simp

section \<open>A message\<close>

definition line_of :: "u64 \<Rightarrow> string \<Rightarrow> amlog_line \<Rightarrow> amlog_line" where
  "line_of time t ent = ent\<lparr>lin_timestamp := time, lin_message := take 254 t, lin_length := int (length t)\<rparr>"

lemma format_line_of: "format_line time (Some t) (ent, False) = Some (line_of time t ent)"
  by (simp add: format_line_def line_of_def MESSAGE_SIZE_def)

lemma log_ok_cong:
  assumes "lg_links s' = lg_links s" "lg_sinks s' = lg_sinks s" "lg_queues s' = lg_queues s" "lg_lines s' = lg_lines s"
  shows "log_ok s' = log_ok s"
proof -
  have "direct_ok s' = direct_ok s" by (simp add: direct_ok_def fun_eq_iff assms)
  moreover have "queued_ok s' = queued_ok s" by (simp add: queued_ok_def holds_queue_def fun_eq_iff assms)
  moreover have "queue_addrs s' = queue_addrs s" by (simp add: queue_addrs_def fun_eq_iff assms)
  ultimately show ?thesis by (intro ext) (simp only: log_ok_def assms)
qed

lemma log_sinks_there:
  assumes "log_ok s ds qs In Out"
  shows "\<forall>a \<in> set qs. lg_sinks s a \<noteq> None" and "\<forall>a \<in> set ds. direct_ok s a"
  using assms by (auto simp: log_ok_def queued_ok_def)

lemma message_fails:
  assumes "log_ok s ds qs In Out" and "unlocked s"
  shows "amlog_sink_message others time file line level msk None s =
    Some (if routes s (unformatted s file line level msk) qs = [] \<and>
             (lg_thread s \<noteq> None \<or> routes s (unformatted s file line level msk) ds = []) then AMRC_SUCCESS else AMRC_ERROR, s)"
proof -
  let ?ent = "unformatted s file line level msk"
  let ?s = "s\<lparr>queued_rwlock := Readers 1\<rparr>"
  let ?d = "s\<lparr>direct_rwlock := Readers 1\<rparr>"
  have l: "queued_rwlock s = Readers 0" "direct_rwlock s = Readers 0" using assms(2) by (simp_all add: unlocked_def)
  have u: "s\<lparr>queued_rwlock := Readers 0\<rparr> = s" "s\<lparr>direct_rwlock := Readers 0\<rparr> = s"
    "s\<lparr>queued_rwlock := Readers 0, direct_rwlock := Readers (Suc 0)\<rparr> = s\<lparr>direct_rwlock := Readers (Suc 0)\<rparr>"
    using l by simp_all
  have r: "routes ?s = routes s" "routes ?d = routes s" by (simp_all add: routes_def fun_eq_iff)
  have q: "send_queued others time None (map SinkLink qs) (?ent, False) ?s =
      Some (if routes s ?ent qs = [] then Some (?ent, False) else None, ?s)"
    using send_fails [of qs ?s others time ?ent] log_sinks_there(1) [OF assms(1)] unfolding r by simp
  have d: "send_direct time None (map SinkLink ds) (?ent, False) ?d =
      Some (if routes s ?ent ds = [] then AMRC_SUCCESS else AMRC_ERROR, ?d)"
    using direct_unformatted [of ds ?d time None ?ent] log_sinks_there(2) [OF assms(1)] unfolding r
    by (simp add: format_line_def direct_ok_def)
  show ?thesis
    using q d log_for_each [OF assms(1)] l by (auto simp: amlog_sink_message_def Let_def u)
qed

lemma message_ok:
  assumes ok: "log_ok s ds qs In Out" and un: "unlocked s"
    and e: "\<forall>a \<in> set (routes s (unformatted s file line level msk) qs). Out a \<noteq> [] \<or> \<not> abort_on_error s \<and> \<not> block_on_error s"
  shows "\<exists>Q. amlog_sink_message others time file line level msk (Some t) s =
      Some (AMRC_SUCCESS, s\<lparr>lg_queues := Q,
        lg_lines := written (routes s (unformatted s file line level msk) qs) Out (line_of time t (unformatted s file line level msk)) (lg_lines s),
        lg_calls := lg_calls s @ (if lg_thread s = None then map (call_of_sink s (line_of time t (unformatted s file line level msk)))
          (routes s (unformatted s file line level msk) ds) else [])\<rparr>) \<and> caps Q = caps (lg_queues s) \<and>
    log_ok (s\<lparr>lg_queues := Q,
        lg_lines := written (routes s (unformatted s file line level msk) qs) Out (line_of time t (unformatted s file line level msk)) (lg_lines s)\<rparr>)
      ds qs (moved_in (routes s (unformatted s file line level msk) qs) In Out) (moved_out (routes s (unformatted s file line level msk) qs) Out)"
proof -
  define ent where "ent = unformatted s file line level msk"
  define ln where "ln = line_of time t ent"
  let ?s = "s\<lparr>queued_rwlock := Readers 1\<rparr>"
  have l: "queued_rwlock s = Readers 0" "direct_rwlock s = Readers 0" using un by (simp_all add: unlocked_def)
  have r: "routes ?s = routes s" by (simp add: routes_def fun_eq_iff)
  have "log_ok ?s ds qs In Out" using ok log_ok_cong [of ?s s] by simp
  from send_unformatted [OF this subset_refl log_distinct(2) [OF ok] format_line_of, of ent "others" time t] e obtain Q where
    q: "send_queued others time (Some t) (map SinkLink qs) (ent, False) ?s =
        Some (Some (if routes s ent qs = [] then (ent, False) else (ln, True)),
          ?s\<lparr>lg_queues := Q, lg_lines := written (routes s ent qs) Out ln (lg_lines s)\<rparr>)" "caps Q = caps (lg_queues s)"
      "log_ok (?s\<lparr>lg_queues := Q, lg_lines := written (routes s ent qs) Out ln (lg_lines s)\<rparr>) ds qs
        (moved_in (routes s ent qs) In Out) (moved_out (routes s ent qs) Out)"
    unfolding r ent_def [symmetric] ln_def [symmetric] by auto
  let ?t = "s\<lparr>lg_queues := Q, lg_lines := written (routes s ent qs) Out ln (lg_lines s)\<rparr>"
  have okt: "log_ok ?t ds qs (moved_in (routes s ent qs) In Out) (moved_out (routes s ent qs) Out)"
    using q(3) log_ok_cong [of ?t "?s\<lparr>lg_queues := Q, lg_lines := written (routes s ent qs) Out ln (lg_lines s)\<rparr>"] by simp
  let ?d = "?t\<lparr>direct_rwlock := Readers 1\<rparr>"
  have rd: "routes ?d = routes s" "call_of_sink ?d = call_of_sink s" by (simp_all add: routes_def call_of_sink_def fun_eq_iff)
  have dok: "\<forall>a \<in> set ds. direct_ok ?d a" using log_sinks_there(2) [OF ok] by (simp add: direct_ok_def)
  have d: "send_direct time (Some t) (map SinkLink ds) (if routes s ent qs = [] then (ent, False) else (ln, True)) ?d =
      Some (AMRC_SUCCESS, ?d\<lparr>lg_calls := lg_calls s @ map (call_of_sink s ln) (routes s ent ds)\<rparr>)"
  proof (cases "routes s ent qs = []")
    case True
    then show ?thesis using direct_unformatted [OF dok, of time "Some t" ent] unfolding rd
      by (simp add: format_line_of ln_def)
  next
    case False
    have "routes s ln ds = routes s ent ds" unfolding ln_def using routes_formatted [OF format_line_of] by simp
    then show ?thesis using False direct_formatted [OF dok, of time "Some t" ln] unfolding rd by simp
  qed
  have u: "?t\<lparr>queued_rwlock := Readers 0\<rparr> = ?t" "?t\<lparr>queued_rwlock := Readers 0, direct_rwlock := Readers (Suc 0)\<rparr> = ?t\<lparr>direct_rwlock := Readers (Suc 0)\<rparr>"
    "?t\<lparr>lg_calls := c, direct_rwlock := Readers 0\<rparr> = ?t\<lparr>lg_calls := c\<rparr>" "?t\<lparr>direct_rwlock := Readers 0\<rparr> = ?t" for c
    using l by simp_all
  have "amlog_sink_message others time file line level msk (Some t) s =
      Some (AMRC_SUCCESS, ?t\<lparr>lg_calls := lg_calls s @ (if lg_thread s = None then map (call_of_sink s ln) (routes s ent ds) else [])\<rparr>)"
    using q(1) d log_for_each [OF ok] l unfolding amlog_sink_message_def ent_def [symmetric]
    by (auto simp: Let_def u)
  then show ?thesis using q(2) okt unfolding ent_def ln_def by auto
qed

end
