(* ===== verification/AmLogThread.thy ===== *)
theory AmLogThread
  imports AmLogInv
begin

text \<open>
  The thread that calls the direct sinks: its turns, and how \<open>amlog_sink_init\<close> makes it and \<open>amlog_sink_term\<close> ends it.
\<close>

section \<open>Turns\<close>

text \<open>The thread at \<open>th\<close> with its sink \<open>a\<close>, which takes every line and owns the lines of the buffer.\<close>

definition thread_ok :: "log_state \<Rightarrow> addr list \<Rightarrow> (addr \<Rightarrow> addr list) \<Rightarrow> (addr \<Rightarrow> addr list) \<Rightarrow> addr \<Rightarrow> log_thread \<Rightarrow> addr \<Rightarrow> bool" where
  "thread_ok s qs In Out th t a \<longleftrightarrow>
     lg_thread s = Some (th, t) \<and> a \<in> set qs \<and> lt_sink t = Some a \<and>
     (\<exists>k i r. lg_sinks s a = Some k \<and> sk_level k = - 1 \<and> sk_mask k = 0 \<and> sk_in k = Some i \<and> sk_out k = Some r \<and>
        lt_in t = Some i \<and> lt_out t = Some r \<and> (\<exists>q. lg_queues s r = Some q \<and> queue_list THREAD_LINE_BUFFER_SIZE q (Out a)) \<and>
        distinct [a, i, r, th] \<and> {a, i, r, th} \<subseteq> dom (live (lg_heap s))) \<and>
     length (In a) + length (Out a) = THREAD_LINE_BUFFER_SIZE \<and> (\<forall>x. x \<in> set (In a @ Out a) \<longleftrightarrow> in_buffer th x)"

definition deliver :: "log_state \<Rightarrow> addr list \<Rightarrow> amlog_line \<Rightarrow> log_call list" where
  "deliver s ds ent = map (call_of_sink s ent) (routes s ent ds)"

lemma deliver_cong:
  "(\<And>a. a \<in> set ds \<Longrightarrow> lg_sinks s' a = lg_sinks s a) \<Longrightarrow> deliver s' ds ent = deliver s ds ent"
  by (induction ds) (auto simp: deliver_def routes_def call_of_sink_def)

lemma call_sinks_ok:
  assumes "\<forall>a \<in> set as. direct_ok s a"
  shows "call_sinks (map SinkLink as) ent s = Some (s\<lparr>lg_calls := lg_calls s @ deliver s as ent\<rparr>)"
  using assms
proof (induction as arbitrary: s)
  case (Cons a as)
  then obtain k f where k: "lg_sinks s a = Some k" "sk_callback k = Some f" by (auto simp: direct_ok_def)
  show ?case
  proof (cases "sink_skips k ent")
    case True
    then show ?thesis using Cons k by (simp add: deliver_def routes_Cons)
  next
    case False
    let ?s = "s\<lparr>lg_calls := lg_calls s @ [call_of_sink s ent a]\<rparr>"
    have "\<forall>a \<in> set as. direct_ok ?s a" using Cons.prems by (simp add: direct_ok_def)
    note i = Cons.IH [OF this]
    have c: "deliver ?s as ent = deliver s as ent" by (rule deliver_cong) simp
    have "call_sinks (map SinkLink (a # as)) ent s = call_sinks (map SinkLink as) ent ?s"
      using k False by (simp add: call_sink_def call_of_sink_def)
    then show ?thesis using i False k unfolding c by (simp add: deliver_def routes_Cons)
  qed
qed (simp add: deliver_def)

lemma turn_empty:
  assumes ok: "log_ok s ds qs In Out" and t: "thread_ok s qs In Out th t a" and e: "In a = []"
  shows "thread_turn s = Some (lt_running t, s)"
proof -
  from t obtain k i where k: "lg_thread s = Some (th, t)" "a \<in> set qs" "lg_sinks s a = Some k" "sk_in k = Some i" "lt_in t = Some i"
    by (auto simp: thread_ok_def)
  from log_queue_facts [OF ok k(2,3)] k(4) e obtain ci qi where q: "lg_queues s i = Some qi" "queue_list ci qi []" by auto
  have "set_queue i qi s = s" using q(1) by (simp add: set_queue_def fun_upd_idem)
  then show ?thesis using k(1,5) q(1) deq_alone_empty [OF q(2)] by (simp add: thread_turn_def Let_def)
qed

lemma turn_delivers:
  assumes ok: "log_ok s ds qs In Out" and t: "thread_ok s qs In Out th t a" and l: "In a = x # xs" and un: "unlocked s"
  shows "\<exists>Q. thread_turn s = Some (True, s\<lparr>lg_queues := Q, lg_calls := lg_calls s @ deliver s ds (the (lg_lines s x))\<rparr>) \<and>
    caps Q = caps (lg_queues s) \<and>
    log_ok (s\<lparr>lg_queues := Q, lg_calls := lg_calls s @ deliver s ds (the (lg_lines s x))\<rparr>) ds qs (In(a := xs)) (Out(a := Out a @ [x])) \<and>
    thread_ok (s\<lparr>lg_queues := Q, lg_calls := lg_calls s @ deliver s ds (the (lg_lines s x))\<rparr>) qs (In(a := xs)) (Out(a := Out a @ [x])) th t a"
proof -
  from t obtain k i r qo where
    k: "lg_thread s = Some (th, t)" "a \<in> set qs" "lg_sinks s a = Some k" "sk_in k = Some i" "sk_out k = Some r" "lt_in t = Some i"
      "lt_out t = Some r" "lg_queues s r = Some qo" "queue_list THREAD_LINE_BUFFER_SIZE qo (Out a)"
    by (auto simp: thread_ok_def)
  from log_queue_facts [OF ok k(2,3)] k(4,5) l obtain ci qi where
    f: "i \<noteq> r" "lg_queues s i = Some qi" "queue_list ci qi (x # xs)" "length (x # xs) + length (Out a) \<le> ci"
      "\<forall>y \<in> set (x # xs @ Out a). lg_lines s y \<noteq> None" "distinct (x # xs @ Out a)" by auto
  have room: "Suc (length (Out a)) \<le> THREAD_LINE_BUFFER_SIZE" using t l by (auto simp: thread_ok_def)
  from cqf.deq_law [OF f(3)] obtain qi' where d: "amcqueue_deq qi = Some (qi', Some x)" "queue_list ci qi' xs" by blast
  from cqf.enq_law [OF k(9) room, of x] obtain qo' where e: "amcqueue_enq x qo = Some qo'"
    "queue_list THREAD_LINE_BUFFER_SIZE qo' (Out a @ [x])" by blast
  let ?Q = "(lg_queues s)(i \<mapsto> qi', r \<mapsto> qo')"
  obtain e0 where ent: "lg_lines s x = Some e0" using f(5) by auto
  let ?s = "s\<lparr>lg_queues := ?Q, lg_calls := lg_calls s @ deliver s ds e0\<rparr>"
  have lk: "direct_rwlock s = Readers 0" using un by (simp add: unlocked_def)
  let ?d = "s\<lparr>lg_queues := (lg_queues s)(i \<mapsto> qi'), direct_rwlock := Readers (Suc 0)\<rparr>"
  have "\<forall>b \<in> set ds. direct_ok ?d b" using log_sinks_there(2) [OF ok] by (simp add: direct_ok_def)
  note c = call_sinks_ok [OF this, of e0]
  have dl: "deliver ?d ds e0 = deliver s ds e0" by (rule deliver_cong) simp
  have u: "s\<lparr>lg_queues := Q, direct_rwlock := Readers 0, lg_calls := c\<rparr> = s\<lparr>lg_queues := Q, lg_calls := c\<rparr>" for Q c using lk by simp
  have run: "thread_turn s = Some (True, ?s)"
    using k(1,6-8) f(1,2) d(1) e(1) ent lk log_for_each(1) [OF ok] c unfolding dl
    by (simp add: thread_turn_def Let_def set_queue_def u)
  have "log_ok (s\<lparr>lg_queues := ?Q, lg_lines := lg_lines s\<rparr>) ds qs (In(a := xs)) (Out(a := Out a @ [x]))"
  proof (rule log_ok_requeue [OF ok k(2,3,4,5)])
    show "?Q i = Some qi'" "?Q r = Some qo'" using f(1) by simp_all
    show "queue_list ci qi' xs" "queue_list THREAD_LINE_BUFFER_SIZE qo' (Out a @ [x])" by (fact d(2) e(2))+
    show "length xs + length (Out a @ [x]) \<le> ci" using f(4) by simp
    show "set (xs @ Out a @ [x]) \<subseteq> set (In a @ Out a)" "distinct (xs @ Out a @ [x])" using l f(6) by auto
  qed auto
  then have "log_ok ?s ds qs (In(a := xs)) (Out(a := Out a @ [x]))"
    using log_ok_cong [of ?s "s\<lparr>lg_queues := ?Q, lg_lines := lg_lines s\<rparr>"] by simp
  moreover have "thread_ok ?s qs (In(a := xs)) (Out(a := Out a @ [x])) th t a"
  proof -
    have "(\<forall>y. y \<in> set (In a @ Out a) \<longleftrightarrow> in_buffer th y) \<longleftrightarrow> (\<forall>y. y \<in> set (xs @ Out a @ [x]) \<longleftrightarrow> in_buffer th y)" using l by auto
    then show ?thesis using t e(2) k l f(1) unfolding thread_ok_def by auto
  qed
  moreover have "caps ?Q = caps (lg_queues s)" using f(2,3) k(8,9) d(2) e(2) by (auto simp: caps_def queue_list_capacity)
  ultimately show ?thesis unfolding ent option.sel using run by blast
qed

text \<open>A thread that is told to stop delivers what is in its queue, in order.\<close>

lemma thread_func_ends:
  "log_ok s ds qs In Out \<Longrightarrow> thread_ok s qs In Out th t a \<Longrightarrow> unlocked s \<Longrightarrow> \<not> lt_running t \<Longrightarrow>
    \<exists>Q Out'. amlog_direct_callback_thread_func s =
        Some (s\<lparr>lg_queues := Q, lg_calls := lg_calls s @ concat (map (\<lambda>x. deliver s ds (the (lg_lines s x))) (In a))\<rparr>) \<and>
      caps Q = caps (lg_queues s) \<and>
      log_ok (s\<lparr>lg_queues := Q, lg_calls := lg_calls s @ concat (map (\<lambda>x. deliver s ds (the (lg_lines s x))) (In a))\<rparr>) ds qs (In(a := [])) Out' \<and>
      thread_ok (s\<lparr>lg_queues := Q, lg_calls := lg_calls s @ concat (map (\<lambda>x. deliver s ds (the (lg_lines s x))) (In a))\<rparr>) qs (In(a := [])) Out' th t a"
proof (induction "In a" arbitrary: s In Out)
  case Nil
  have e: "In a = []" "In(a := []) = In" using Nil.hyps by (simp_all add: fun_upd_idem)
  have "amlog_direct_callback_thread_func s = Some s"
    using turn_empty [OF Nil.prems(1,2) e(1)] Nil.prems(4) by (subst amlog_direct_callback_thread_func.simps) simp
  moreover have "s\<lparr>lg_queues := lg_queues s, lg_calls := lg_calls s @ []\<rparr> = s" by simp
  ultimately show ?case using Nil.prems(1,2) e by (intro exI [of _ "lg_queues s"] exI [of _ Out]) simp
next
  case (Cons x xs)
  from turn_delivers [OF Cons.prems(1,2) Cons.hyps(2) [symmetric] Cons.prems(3)] obtain Q1 where
    d: "thread_turn s = Some (True, s\<lparr>lg_queues := Q1, lg_calls := lg_calls s @ deliver s ds (the (lg_lines s x))\<rparr>)" "caps Q1 = caps (lg_queues s)"
      "log_ok (s\<lparr>lg_queues := Q1, lg_calls := lg_calls s @ deliver s ds (the (lg_lines s x))\<rparr>) ds qs (In(a := xs)) (Out(a := Out a @ [x]))"
      "thread_ok (s\<lparr>lg_queues := Q1, lg_calls := lg_calls s @ deliver s ds (the (lg_lines s x))\<rparr>) qs (In(a := xs)) (Out(a := Out a @ [x])) th t a"
    by blast
  let ?s = "s\<lparr>lg_queues := Q1, lg_calls := lg_calls s @ deliver s ds (the (lg_lines s x))\<rparr>"
  have un: "unlocked ?s" using Cons.prems(3) by (simp add: unlocked_def)
  have dl: "deliver ?s = deliver s" by (intro ext deliver_cong) simp
  from Cons.hyps(1) [of "In(a := xs)", OF _ d(3,4) un Cons.prems(4)] obtain Q Out' where
    i: "amlog_direct_callback_thread_func ?s = Some (?s\<lparr>lg_queues := Q, lg_calls := lg_calls ?s @ concat (map (\<lambda>x. deliver s ds (the (lg_lines s x))) xs)\<rparr>)"
      "caps Q = caps (lg_queues ?s)"
      "log_ok (?s\<lparr>lg_queues := Q, lg_calls := lg_calls ?s @ concat (map (\<lambda>x. deliver s ds (the (lg_lines s x))) xs)\<rparr>) ds qs ((In(a := xs))(a := [])) Out'"
      "thread_ok (?s\<lparr>lg_queues := Q, lg_calls := lg_calls ?s @ concat (map (\<lambda>x. deliver s ds (the (lg_lines s x))) xs)\<rparr>) qs ((In(a := xs))(a := [])) Out' th t a"
    unfolding dl by auto
  have c: "?s\<lparr>lg_queues := Q, lg_calls := lg_calls ?s @ concat (map (\<lambda>x. deliver s ds (the (lg_lines s x))) xs)\<rparr> =
      s\<lparr>lg_queues := Q, lg_calls := lg_calls s @ concat (map (\<lambda>x. deliver s ds (the (lg_lines s x))) (In a))\<rparr>"
    by (simp add: Cons.hyps(2) [symmetric])
  have "amlog_direct_callback_thread_func s = amlog_direct_callback_thread_func ?s"
    by (subst amlog_direct_callback_thread_func.simps) (simp add: d(1))
  then show ?case using i d(2) unfolding c by (auto simp: fun_upd_upd)
qed

end
