(* ===== verification/AmLogInit.thy ===== *)
theory AmLogInit
  imports AmLogThread
begin

text \<open>
  The lifetime of the thread: \<open>amlog_sink_init\<close> and \<open>amlog_sink_term\<close>.
\<close>

section \<open>The buffer of lines\<close>

lemma line_at_inj: "line_at th i = line_at th j \<longleftrightarrow> i = j"
  by (simp add: line_at_def LINE_BYTES_def)

lemma buffer_lines: "x \<in> set (map (line_at th) [0 ..< THREAD_LINE_BUFFER_SIZE]) \<longleftrightarrow> in_buffer th x"
proof
  assume "x \<in> set (map (line_at th) [0 ..< THREAD_LINE_BUFFER_SIZE])"
  then obtain i where "x = line_at th i" "i < THREAD_LINE_BUFFER_SIZE" by auto
  then show "in_buffer th x" by (simp add: in_buffer_def line_at_def LINE_BYTES_def)
next
  assume b: "in_buffer th x"
  then obtain d where d: "x = th + FIRST_LINE + d" "d mod LINE_BYTES = 0" "d < THREAD_LINE_BUFFER_SIZE * LINE_BYTES"
    by (auto simp: in_buffer_def line_at_def dest!: le_Suc_ex)
  then have "d = (d div LINE_BYTES) * LINE_BYTES" "d div LINE_BYTES < THREAD_LINE_BUFFER_SIZE"
    by (auto simp: less_mult_imp_div_less)
  then have "x = line_at th (d div LINE_BYTES)" "d div LINE_BYTES < THREAD_LINE_BUFFER_SIZE" using d(1) by (simp_all add: line_at_def)
  then show "x \<in> set (map (line_at th) [0 ..< THREAD_LINE_BUFFER_SIZE])" by auto
qed

lemma buffer_distinct: "distinct (map (line_at th) [0 ..< n])"
  by (simp add: distinct_map inj_on_def line_at_inj)

section \<open>New queues\<close>

lemma new_queue_list:
  "queue_list 2048 \<lparr>cq_bytes = QUEUE_BYTES + CELL_BYTES * (of_nat THREAD_LINE_BUFFER_SIZE + 1), read_lock = AMSPINLOCK_UNLOCKED,
     cq_capacity = of_nat THREAD_LINE_BUFFER_SIZE + 1, cq_head = 0, cq_tail = 0, cells = (\<lambda>_. None)\<rparr> []"
  by (simp add: queue_list_def QUEUE_BYTES_def CELL_BYTES_def THREAD_LINE_BUFFER_SIZE_def AMSPINLOCK_UNLOCKED_def)

lemma new_queue_ok:
  assumes "malloc_spec alloc"
  obtains (none) h where "new_queue alloc s = Some (None, s\<lparr>lg_heap := h\<rparr>)" "live h = live (lg_heap s)"
  | (some) a h q sz where "new_queue alloc s = Some (Some a, s\<lparr>lg_heap := h, lg_queues := (lg_queues s)(a \<mapsto> q)\<rparr>)"
      "live (lg_heap s) a = None" "live h = (live (lg_heap s))(a \<mapsto> sz)" "queue_list THREAD_LINE_BUFFER_SIZE q []"
proof -
  let ?cap = "of_nat THREAD_LINE_BUFFER_SIZE :: u64"
  let ?sz = "QUEUE_BYTES + CELL_BYTES * (?cap + 1)"
  have sz: "16 \<le> unat ?sz" by (simp add: QUEUE_BYTES_def CELL_BYTES_def THREAD_LINE_BUFFER_SIZE_def)
  obtain r h where m: "malloc alloc ?sz (lg_heap s) = (r, h)" by fastforce
  show thesis
  proof (cases r)
    case None
    then have "new_queue alloc s = Some (None, s\<lparr>lg_heap := h\<rparr>)" using m by (simp add: new_queue_def amcqueue_alloc_def Let_def)
    then show thesis using none malloc_None [of alloc ?sz] m None by blast
  next
    case (Some a)
    let ?q = "\<lparr>cq_bytes = ?sz, read_lock = AMSPINLOCK_UNLOCKED, cq_capacity = ?cap + 1, cq_head = 0, cq_tail = 0, cells = (\<lambda>_. None)\<rparr>"
    have "amcqueue_alloc alloc (lg_heap s) ?cap = Some (Some (a, ?q), h)" using m Some sz by (simp add: amcqueue_alloc_def Let_def)
    then have "new_queue alloc s = Some (Some a, s\<lparr>lg_heap := h, lg_queues := (lg_queues s)(a \<mapsto> ?q)\<rparr>)"
      by (simp add: new_queue_def Let_def set_queue_def)
    moreover have "queue_list THREAD_LINE_BUFFER_SIZE ?q []" using new_queue_list by (simp add: THREAD_LINE_BUFFER_SIZE_def)
    ultimately show thesis using some malloc_Some(1,2) [OF assms] m Some by metis
  qed
qed

section \<open>Unregistering\<close>

lemma sink_lists_remove:
  "distinct qs \<Longrightarrow> (sink_lists ds qs)(QueuedSinks := remove1 (SinkLink a) (map SinkLink qs)) = sink_lists ds (remove1 a qs)"
proof (intro ext)
  fix l assume "distinct qs"
  have "remove1 (SinkLink a) (map SinkLink qs) = map SinkLink (remove1 a qs)" by (induction qs) auto
  then show "((sink_lists ds qs)(QueuedSinks := remove1 (SinkLink a) (map SinkLink qs))) l = sink_lists ds (remove1 a qs) l" by (cases l) auto
qed

lemma distinct_concat_remove1: "distinct (concat (map f xs)) \<Longrightarrow> distinct (concat (map f (remove1 a xs)))"
proof (induction xs)
  case (Cons x xs)
  have "set (concat (map f (remove1 a xs))) \<subseteq> set (concat (map f xs))" using set_remove1_subset [of a xs] by auto
  with Cons show ?case by auto
qed simp

text \<open>The queued sink goes, with its block, and the others stay as they are.\<close>

lemma unregister_queued:
  assumes ok: "log_ok s ds qs In Out" and un: "unlocked s" and a: "a \<in> set qs" and lv: "live (lg_heap s) a \<noteq> None"
  shows "\<exists>ls. amlog_sink_unregister (Some a) s =
      Some (s\<lparr>lg_links := ls, lg_heap := (lg_heap s)\<lparr>live := (live (lg_heap s))(a := None)\<rparr>, lg_sinks := (lg_sinks s)(a := None)\<rparr>) \<and>
    log_ok (s\<lparr>lg_links := ls, lg_heap := (lg_heap s)\<lparr>live := (live (lg_heap s))(a := None)\<rparr>, lg_sinks := (lg_sinks s)(a := None)\<rparr>)
      ds (remove1 a qs) In Out"
proof -
  note o = ok [unfolded log_ok_def]
  from o a obtain k where k: "lg_sinks s a = Some k" "sk_callback k = None" by (auto simp: queued_ok_def)
  have f: "forest (lg_links s) {DirectSinks, QueuedSinks} (sink_lists ds qs)" using o by blast
  from links.rep_del [OF f, of QueuedSinks "SinkLink a"] a obtain ls where
    l: "amlist_del (lg_links s) (SinkLink a) = Some ls" "forest ls {DirectSinks, QueuedSinks} (sink_lists ds (remove1 a qs))"
    unfolding sink_lists.simps sink_lists_remove [OF log_distinct(2) [OF ok]] by auto
  let ?h = "(lg_heap s)\<lparr>live := (live (lg_heap s))(a := None)\<rparr>"
  let ?s = "s\<lparr>lg_links := ls, lg_heap := ?h, lg_sinks := (lg_sinks s)(a := None)\<rparr>"
  have q: "queued_rwlock s = Readers 0" using un by (simp add: unlocked_def)
  have fr: "free_block (Some a) (lg_heap s) = Some ?h" using lv by (simp add: free_block_def)
  have "s\<lparr>queued_rwlock := Readers 0, lg_links := ls, lg_heap := ?h, lg_sinks := (lg_sinks s)(a := None)\<rparr> = ?s" using q by simp
  then have run: "amlog_sink_unregister (Some a) s = Some ?s"
    using k q l(1) fr by (simp add: amlog_sink_unregister_def Let_def)
  have na: "b \<noteq> a" if "b \<in> set (remove1 a qs) \<or> b \<in> set ds" for b
    using that log_distinct [OF ok] a by auto
  define u where "u = ?s"
  have u: "lg_links u = ls" "lg_queues u = lg_queues s" "lg_lines u = lg_lines s" "lg_sinks u = (lg_sinks s)(a := None)" by (simp_all add: u_def)
  have qok: "queued_ok u In Out b" if b: "b \<in> set (remove1 a qs)" for b
  proof -
    have "queued_ok s In Out b" using o b notin_set_remove1 by fastforce
    moreover have "lg_sinks u b = lg_sinks s b" using na b u(4) by auto
    ultimately show ?thesis unfolding queued_ok_def holds_queue_def u by simp
  qed
  have dok: "direct_ok u b" if "b \<in> set ds" for b using o na that unfolding direct_ok_def u by auto
  have m: "map (queue_addrs u) (remove1 a qs) = map (queue_addrs s) (remove1 a qs)"
    using na unfolding queue_addrs_def u by auto
  have "log_ok u ds (remove1 a qs) In Out"
    unfolding log_ok_def m u(1)
    using l(2) o qok dok distinct_concat_remove1 [of "queue_addrs s" qs a] distinct_concat_remove1 [of "\<lambda>a. In a @ Out a" qs a]
    by (intro conjI ballI) blast+
  then show ?thesis using run unfolding u_def by blast
qed

text \<open>Queues and lines that are not those of a registered sink can go.\<close>

lemma log_ok_drop:
  assumes ok: "log_ok s ds qs In Out" and q: "\<And>b. b \<in> set qs \<Longrightarrow> set (queue_addrs s b) \<inter> X = {}" and l: "\<And>b. b \<in> set qs \<Longrightarrow> set (In b @ Out b) \<inter> Y = {}"
    and s': "lg_links s' = lg_links s" "lg_sinks s' = lg_sinks s" "\<And>x. x \<notin> X \<Longrightarrow> lg_queues s' x = lg_queues s x"
      "\<And>x. x \<notin> Y \<Longrightarrow> lg_lines s' x = lg_lines s x"
  shows "log_ok s' ds qs In Out"
proof -
  note o = ok [unfolded log_ok_def]
  have "queued_ok s' In Out b" if b: "b \<in> set qs" for b
  proof -
    have "queued_ok s In Out b" using o b by blast
    then obtain k i r ci co where
      g: "lg_sinks s b = Some k" "sk_callback k = None" "sk_in k = Some i" "sk_out k = Some r" "holds_queue s i ci (In b)"
        "holds_queue s r co (Out b)" "length (In b) + length (Out b) \<le> ci" "\<forall>y \<in> set (In b @ Out b). lg_lines s y \<noteq> None"
      by (auto simp: queued_ok_def)
    have "i \<notin> X" "r \<notin> X" using q [OF b] g(1,3,4) by (auto simp: queue_addrs_def)
    then have "holds_queue s' i ci (In b)" "holds_queue s' r co (Out b)" using g(5,6) s'(3) by (auto simp: holds_queue_def)
    moreover have "\<forall>y \<in> set (In b @ Out b). lg_lines s' y \<noteq> None" using g(8) l [OF b] s'(4) by (metis disjoint_iff)
    ultimately show ?thesis using g s'(2) unfolding queued_ok_def by auto
  qed
  moreover have "direct_ok s' = direct_ok s" "queue_addrs s' = queue_addrs s" using s'(2) by (simp_all add: direct_ok_def queue_addrs_def fun_eq_iff)
  ultimately show ?thesis using o unfolding log_ok_def s'(1) by metis
qed

section \<open>Releasing the thread\<close>

lemma release_queue_ok:
  "live (lg_heap s) a \<noteq> None \<Longrightarrow> release_queue (Some a) s =
    Some (s\<lparr>lg_heap := (lg_heap s)\<lparr>live := (live (lg_heap s))(a := None)\<rparr>, lg_queues := (lg_queues s)(a := None)\<rparr>)"
  by (simp add: release_queue_def amcqueue_free_def free_block_def)

lemma release_thread_ok:
  assumes ok: "log_ok s ds qs In Out" and t: "thread_ok s qs In Out th t a" and un: "unlocked s"
  shows "\<exists>s'. release_thread s = Some s' \<and> log_ok s' ds (remove1 a qs) In Out \<and> lg_thread s' = None \<and> unlocked s' \<and> lg_calls s' = lg_calls s \<and>
    lg_sinks s' = (lg_sinks s)(a := None) \<and> lg_lines s' = (\<lambda>x. if in_buffer th x then None else lg_lines s x) \<and>
    (\<exists>i r. lt_in t = Some i \<and> lt_out t = Some r \<and> live (lg_heap s') = (live (lg_heap s)) |` (- {a, i, r, th}) \<and>
       lg_queues s' = (lg_queues s) |` (- {i, r}))"
proof -
  from t obtain k i r where
    f: "lg_thread s = Some (th, t)" "a \<in> set qs" "lt_sink t = Some a" "lg_sinks s a = Some k" "sk_in k = Some i" "sk_out k = Some r"
      "lt_in t = Some i" "lt_out t = Some r" "distinct [a, i, r, th]" "{a, i, r, th} \<subseteq> dom (live (lg_heap s))"
      "\<forall>x. x \<in> set (In a @ Out a) \<longleftrightarrow> in_buffer th x"
    by (auto simp: thread_ok_def)
  have "live (lg_heap s) a \<noteq> None" using f(10) by auto
  from unregister_queued [OF ok un f(2) this] obtain ls where
    u: "amlog_sink_unregister (Some a) s =
        Some (s\<lparr>lg_links := ls, lg_heap := (lg_heap s)\<lparr>live := (live (lg_heap s))(a := None)\<rparr>, lg_sinks := (lg_sinks s)(a := None)\<rparr>)"
      "log_ok (s\<lparr>lg_links := ls, lg_heap := (lg_heap s)\<lparr>live := (live (lg_heap s))(a := None)\<rparr>, lg_sinks := (lg_sinks s)(a := None)\<rparr>)
        ds (remove1 a qs) In Out" by blast
  let ?u = "s\<lparr>lg_links := ls, lg_heap := (lg_heap s)\<lparr>live := (live (lg_heap s))(a := None)\<rparr>, lg_sinks := (lg_sinks s)(a := None)\<rparr>"
  let ?h = "(lg_heap s)\<lparr>live := (live (lg_heap s))(a := None, i := None, r := None, th := None)\<rparr>"
  let ?s = "?u\<lparr>lg_heap := ?h, lg_queues := (lg_queues s)(i := None, r := None), lg_thread := None,
    lg_lines := (\<lambda>x. if in_buffer th x then None else lg_lines s x)\<rparr>"
  have lv: "live (lg_heap s) i \<noteq> None" "live (lg_heap s) r \<noteq> None" "live (lg_heap s) th \<noteq> None" and ne: "i \<noteq> a" "r \<noteq> a" "th \<noteq> a" "r \<noteq> i" "th \<noteq> i" "th \<noteq> r"
    using f(9,10) by auto
  have "release_queue (Some i) ?u = Some (?u\<lparr>lg_heap := (lg_heap s)\<lparr>live := (live (lg_heap s))(a := None, i := None)\<rparr>,
      lg_queues := (lg_queues s)(i := None)\<rparr>)" using lv(1) ne(1) by (subst release_queue_ok) simp_all
  moreover have "release_queue (Some r) (?u\<lparr>lg_heap := (lg_heap s)\<lparr>live := (live (lg_heap s))(a := None, i := None)\<rparr>,
      lg_queues := (lg_queues s)(i := None)\<rparr>) = Some (?u\<lparr>lg_heap := (lg_heap s)\<lparr>live := (live (lg_heap s))(a := None, i := None, r := None)\<rparr>,
      lg_queues := (lg_queues s)(i := None, r := None)\<rparr>)" using lv(2) ne(2,4) by (subst release_queue_ok) simp_all
  moreover have "free_block (Some th) ((lg_heap s)\<lparr>live := (live (lg_heap s))(a := None, i := None, r := None)\<rparr>) = Some ?h"
    using lv(3) ne(3,5,6) by (simp add: free_block_def)
  ultimately have run: "release_thread s = Some ?s"
    unfolding release_thread_def f(1,3,7,8) option.case prod.case u(1) by (simp add: f(3,7,8) u(1) cong: if_cong)
  have na: "b \<noteq> a \<and> b \<in> set qs" if "b \<in> set (remove1 a qs)" for b using that log_distinct(2) [OF ok] by auto
  have dq: "distinct (concat (map (queue_addrs s) qs))" "distinct (concat (map (\<lambda>a. In a @ Out a) qs))" using ok by (simp_all add: log_ok_def)
  have "log_ok ?s ds (remove1 a qs) In Out"
  proof (rule log_ok_drop [OF u(2), where X = "{i, r}" and Y = "{x. in_buffer th x}"])
    fix b assume "b \<in> set (remove1 a qs)"
    then have b: "b \<noteq> a" "b \<in> set qs" using na by blast+
    have "set (queue_addrs s b) \<inter> set (queue_addrs s a) = {}" using distinct_concat_pair [OF dq(1) b(2) f(2) b(1)] .
    then show "set (queue_addrs ?u b) \<inter> {i, r} = {}" using f(4-6) b(1) by (auto simp: queue_addrs_def)
    have "set (In b @ Out b) \<inter> set (In a @ Out a) = {}" using distinct_concat_pair [OF dq(2) b(2) f(2) b(1)] .
    then show "set (In b @ Out b) \<inter> {x. in_buffer th x} = {}" using f(11) by blast
  qed auto
  moreover have "live (lg_heap ?s) = (live (lg_heap s)) |` (- {a, i, r, th})" "lg_queues ?s = (lg_queues s) |` (- {i, r})"
    by (auto simp: restrict_map_def fun_eq_iff)
  ultimately show ?thesis using run f(7,8) un by (auto simp: unlocked_def)
qed

section \<open>Termination\<close>

lemma term_ok:
  assumes ok: "log_ok s ds qs In Out" and t: "thread_ok s qs In Out th t a" and un: "unlocked s"
  shows "\<exists>s' Out'. amlog_sink_term s = Some s' \<and> log_ok s' ds (remove1 a qs) (In(a := [])) Out' \<and> lg_thread s' = None \<and> unlocked s' \<and>
    lg_calls s' = lg_calls s @ concat (map (\<lambda>x. deliver s ds (the (lg_lines s x))) (In a)) \<and> lg_sinks s' = (lg_sinks s)(a := None) \<and>
    (\<exists>i r. lt_in t = Some i \<and> lt_out t = Some r \<and> live (lg_heap s') = (live (lg_heap s)) |` (- {a, i, r, th}) \<and>
       dom (lg_queues s') = dom (lg_queues s) - {i, r})"
proof -
  let ?t = "t\<lparr>lt_running := False\<rparr>"
  let ?s = "set_thread th ?t s"
  have th: "lg_thread s = Some (th, t)" using t by (simp add: thread_ok_def)
  have o: "log_ok ?s ds qs In Out" using ok log_ok_cong [of ?s s] by (simp add: set_thread_def)
  have tk: "thread_ok ?s qs In Out th ?t a" using t by (auto simp: thread_ok_def set_thread_def)
  have u: "unlocked ?s" using un by (simp add: unlocked_def set_thread_def)
  have dl: "deliver ?s = deliver s" by (intro ext deliver_cong) (simp add: set_thread_def)
  let ?c = "lg_calls s @ concat (map (\<lambda>x. deliver s ds (the (lg_lines s x))) (In a))"
  from thread_func_ends [OF o tk u] obtain Q Out' where
    f: "amlog_direct_callback_thread_func ?s = Some (?s\<lparr>lg_queues := Q, lg_calls := ?c\<rparr>)" "caps Q = caps (lg_queues s)"
      "log_ok (?s\<lparr>lg_queues := Q, lg_calls := ?c\<rparr>) ds qs (In(a := [])) Out'"
      "thread_ok (?s\<lparr>lg_queues := Q, lg_calls := ?c\<rparr>) qs (In(a := [])) Out' th ?t a"
    unfolding dl by (auto simp: set_thread_def)
  have uf: "unlocked (?s\<lparr>lg_queues := Q, lg_calls := ?c\<rparr>)" using un by (simp add: unlocked_def set_thread_def)
  from release_thread_ok [OF f(3,4) uf] obtain s' i r where
    r: "release_thread (?s\<lparr>lg_queues := Q, lg_calls := ?c\<rparr>) = Some s'" "log_ok s' ds (remove1 a qs) (In(a := [])) Out'" "lg_thread s' = None"
      "unlocked s'" "lg_calls s' = ?c" "lg_sinks s' = (lg_sinks s)(a := None)" "lt_in t = Some i" "lt_out t = Some r"
      "live (lg_heap s') = (live (lg_heap s)) |` (- {a, i, r, th})" "lg_queues s' = Q |` (- {i, r})"
    by (auto simp: set_thread_def)
  have "amlog_sink_term s = Some s'" using th f(1) r(1) by (simp add: amlog_sink_term_def)
  moreover have "dom (lg_queues s') = dom (lg_queues s) - {i, r}" using r(10) caps_dom [OF f(2)] by auto
  ultimately show ?thesis using r(2-9) by blast
qed

section \<open>Initialisation\<close>

definition blocks_live :: "log_state \<Rightarrow> bool" where
  "blocks_live s \<longleftrightarrow> dom (lg_sinks s) \<union> dom (lg_queues s) \<subseteq> dom (live (lg_heap s))"

text \<open>What \<^verbatim>\<open>malloc\<close> promises beyond \<open>malloc_spec\<close>: the lines of a new block are not lines that are in use.\<close>

definition lines_apart :: "allocator \<Rightarrow> log_state \<Rightarrow> bool" where
  "lines_apart alloc s \<longleftrightarrow> (\<forall>n lv th x. alloc n LOG_THREAD_BYTES lv = Some th \<and> in_buffer th x \<longrightarrow> lg_lines s x = None)"

lemma sink_lists_add: "(sink_lists ds qs)(QueuedSinks := SinkLink a # map SinkLink qs) = sink_lists ds (a # qs)"
proof
  show "((sink_lists ds qs)(QueuedSinks := SinkLink a # map SinkLink qs)) l = sink_lists ds (a # qs) l" for l by (cases l) auto
qed

lemma register_queued_ok:
  assumes "malloc_spec alloc" and "forest (lg_links s) {DirectSinks, QueuedSinks} (sink_lists ds qs)" and "queued_rwlock s = Readers 0"
    and "set ds \<union> set qs \<subseteq> dom (live (lg_heap s))"
  obtains (none) h where "amlog_sink_register_queued alloc name (Some i) (Some r) user s = Some (None, s\<lparr>lg_heap := h\<rparr>)" "live h = live (lg_heap s)"
  | (some) a h ls where "amlog_sink_register_queued alloc name (Some i) (Some r) user s =
        Some (Some a, s\<lparr>lg_heap := h, lg_sinks := (lg_sinks s)(a \<mapsto> new_sink name user None (Some i) (Some r)), lg_links := ls\<rparr>)"
      "live (lg_heap s) a = None" "live h = (live (lg_heap s))(a \<mapsto> SINK_BYTES)" "forest ls {DirectSinks, QueuedSinks} (sink_lists ds (a # qs))"
proof -
  obtain m h where m: "malloc alloc SINK_BYTES (lg_heap s) = (m, h)" by fastforce
  show thesis
  proof (cases m)
    case None
    then show thesis using none [of h] malloc_None [of alloc SINK_BYTES] m by (simp add: amlog_sink_register_queued_def)
  next
    case (Some a)
    note f = malloc_Some(1,2) [OF assms(1) m [unfolded Some]]
    have "a \<notin> set ds" "a \<notin> set qs" using f(1) assms(4) by auto
    then have "\<forall>b \<in> {DirectSinks, QueuedSinks}. SinkLink a \<notin> set (sink_lists ds qs b)" by auto
    from links.rep_add [OF assms(2) _ _ this, of QueuedSinks] obtain ls where
      l: "amlist_add (lg_links s) QueuedSinks (SinkLink a) = Some ls" "forest ls {DirectSinks, QueuedSinks} (sink_lists ds (a # qs))"
      unfolding sink_lists.simps sink_lists_add by auto
    have "s\<lparr>lg_heap := h, lg_sinks := X, lg_links := ls, queued_rwlock := Readers 0\<rparr> = s\<lparr>lg_heap := h, lg_sinks := X, lg_links := ls\<rparr>" for X
      using assms(3) by simp
    then have "amlog_sink_register_queued alloc name (Some i) (Some r) user s =
        Some (Some a, s\<lparr>lg_heap := h, lg_sinks := (lg_sinks s)(a \<mapsto> new_sink name user None (Some i) (Some r)), lg_links := ls\<rparr>)"
      using m Some l(1) assms(3) by (simp add: amlog_sink_register_queued_def Let_def)
    then show thesis using some f l(2) by blast
  qed
qed

text \<open>Memory, sinks, queues and lines are as before, and there is no thread; the switches of the log may have changed.\<close>

definition no_thread_left :: "log_state \<Rightarrow> log_state \<Rightarrow> bool" where
  "no_thread_left s s' \<longleftrightarrow> live (lg_heap s') = live (lg_heap s) \<and> lg_sinks s' = lg_sinks s \<and> lg_queues s' = lg_queues s \<and> lg_lines s' = lg_lines s \<and>
     lg_calls s' = lg_calls s \<and> lg_thread s' = None"

text \<open>Release before a sink was registered.\<close>

lemma release_unregistered:
  assumes "lg_thread s = Some (th, t)" and "lt_sink t = None" and "lt_in t = None \<longrightarrow> lt_out t = None"
    and "distinct (th # (case lt_in t of None \<Rightarrow> [] | Some i \<Rightarrow> [i]) @ (case lt_out t of None \<Rightarrow> [] | Some r \<Rightarrow> [r]))"
    and "{th} \<union> set_option (lt_in t) \<union> set_option (lt_out t) \<subseteq> dom (live (lg_heap s))"
  shows "release_thread s = Some (s\<lparr>lg_heap := (lg_heap s)\<lparr>live := (live (lg_heap s)) |` (- ({th} \<union> set_option (lt_in t) \<union> set_option (lt_out t)))\<rparr>,
      lg_queues := (lg_queues s) |` (- (set_option (lt_in t) \<union> set_option (lt_out t))), lg_thread := None,
      lg_lines := (\<lambda>x. if in_buffer th x then None else lg_lines s x)\<rparr>)"
proof -
  have "f |` (- {a}) = f(a := None)" "f |` (- {a, b}) = f(b := None, a := None)" "f |` (- {a, b, c}) = f(c := None, b := None, a := None)"
    "f |` UNIV = f" for f :: "'x \<rightharpoonup> 'y" and a b c by (auto simp: restrict_map_def fun_eq_iff)
  note r = this
  show ?thesis
  proof (cases "lt_in t"; cases "lt_out t")
    fix i j assume ij: "lt_in t = Some i" "lt_out t = Some j"
    then have "th \<noteq> i" "th \<noteq> j" "i \<noteq> j" "live (lg_heap s) th \<noteq> None" "live (lg_heap s) i \<noteq> None" "live (lg_heap s) j \<noteq> None"
      using assms(4,5) by auto
    then show ?thesis using assms(1,2) ij
      by (simp add: release_thread_def amlog_sink_unregister_def release_queue_ok free_block_def r insert_commute fun_upd_twist cong: if_cong)
  next
    fix i assume ij: "lt_in t = Some i" "lt_out t = None"
    then have "th \<noteq> i" "live (lg_heap s) th \<noteq> None" "live (lg_heap s) i \<noteq> None" using assms(4,5) by auto
    then show ?thesis using assms(1,2) ij
      by (simp add: release_thread_def amlog_sink_unregister_def release_queue_def [of None] release_queue_ok free_block_def r insert_commute fun_upd_twist cong: if_cong)
  next
    assume ij: "lt_in t = None" "lt_out t = None"
    then have "live (lg_heap s) th \<noteq> None" using assms(4,5) by auto
    then show ?thesis using assms(1,2) ij
      by (simp add: release_thread_def amlog_sink_unregister_def release_queue_def free_block_def r cong: if_cong)
  qed (use assms(3) in simp)
qed

lemma release_restores:
  assumes t: "lg_thread s = Some (th, t)" "lt_sink t = None" "lt_in t = None \<longrightarrow> lt_out t = None"
      "distinct (th # (case lt_in t of None \<Rightarrow> [] | Some i \<Rightarrow> [i]) @ (case lt_out t of None \<Rightarrow> [] | Some r \<Rightarrow> [r]))"
      "{th} \<union> set_option (lt_in t) \<union> set_option (lt_out t) \<subseteq> dom (live (lg_heap s))"
    and same: "lg_links s = lg_links s0" "lg_sinks s = lg_sinks s0" "lg_calls s = lg_calls s0" "direct_rwlock s = direct_rwlock s0"
      "queued_rwlock s = queued_rwlock s0" "lg_lines s = (\<lambda>x. if in_buffer th x then Some blank_line else lg_lines s0 x)"
      "live (lg_heap s) |` (- ({th} \<union> set_option (lt_in t) \<union> set_option (lt_out t))) = live (lg_heap s0)"
      "lg_queues s |` (- (set_option (lt_in t) \<union> set_option (lt_out t))) = lg_queues s0"
    and apart: "\<forall>x. in_buffer th x \<longrightarrow> lg_lines s0 x = None" and ok: "log_ok s0 ds qs In Out" "unlocked s0"
  shows "\<exists>r. release_thread s = Some r \<and> no_thread_left s0 r \<and> log_ok r ds qs In Out \<and> unlocked r"
proof -
  let ?r = "s\<lparr>lg_heap := (lg_heap s)\<lparr>live := live (lg_heap s0)\<rparr>, lg_queues := lg_queues s0, lg_thread := None, lg_lines := lg_lines s0\<rparr>"
  have l: "(\<lambda>x. if in_buffer th x then None else lg_lines s x) = lg_lines s0" using apart same(6) by auto
  have "release_thread s = Some ?r" using release_unregistered [OF t] unfolding same(7,8) l .
  moreover have "no_thread_left s0 ?r" "unlocked ?r" using same ok(2) by (simp_all add: no_thread_left_def unlocked_def)
  moreover have "log_ok ?r ds qs In Out" using ok(1) log_ok_cong [of ?r s0] same(1,2) by simp
  ultimately show ?thesis by blast
qed

lemma queued_ok_addrs:
  "queued_ok s In Out b \<Longrightarrow> set (queue_addrs s b) \<subseteq> dom (lg_queues s)"
  by (auto simp: queued_ok_def queue_addrs_def holds_queue_def)

text \<open>The state after everything was made.\<close>

lemma made_ok:
  assumes ok: "log_ok s ds qs In Out" and fresh: "lg_sinks s a = None" "lg_queues s i = None" "lg_queues s r = None" "distinct [a, i, r, th]"
    and apart: "\<forall>x. in_buffer th x \<longrightarrow> lg_lines s x = None"
    and u: "forest (lg_links u) {DirectSinks, QueuedSinks} (sink_lists ds (a # qs))" "lg_sinks u = (lg_sinks s)(a \<mapsto> new_sink name user None (Some i) (Some r))"
      "lg_queues u i = Some qi" "queue_list THREAD_LINE_BUFFER_SIZE qi []" "lg_queues u r = Some qo"
      "queue_list THREAD_LINE_BUFFER_SIZE qo (map (line_at th) [0 ..< THREAD_LINE_BUFFER_SIZE])"
      "\<forall>b. b \<noteq> i \<longrightarrow> b \<noteq> r \<longrightarrow> lg_queues u b = lg_queues s b"
      "lg_lines u = (\<lambda>x. if in_buffer th x then Some blank_line else lg_lines s x)"
      "lg_thread u = Some (th, \<lparr>lt_running = True, lt_in = Some i, lt_out = Some r, lt_sink = Some a\<rparr>)"
      "{a, i, r, th} \<subseteq> dom (live (lg_heap u))"
  shows "log_ok u ds (a # qs) (In(a := [])) (Out(a := map (line_at th) [0 ..< THREAD_LINE_BUFFER_SIZE]))"
    and "thread_ok u (a # qs) (In(a := [])) (Out(a := map (line_at th) [0 ..< THREAD_LINE_BUFFER_SIZE])) th
      \<lparr>lt_running = True, lt_in = Some i, lt_out = Some r, lt_sink = Some a\<rparr> a"
proof -
  let ?In = "In(a := [])" and ?Out = "Out(a := map (line_at th) [0 ..< THREAD_LINE_BUFFER_SIZE])"
  note o = ok [unfolded log_ok_def]
  have qok: "queued_ok s In Out b" if "b \<in> set qs" for b using o that by blast
  have na: "b \<noteq> a" if "b \<in> set qs \<or> b \<in> set ds" for b
    using that fresh(1) log_sinks_there [OF ok] by (auto simp: direct_ok_def)
  have other: "queued_ok u ?In ?Out b" if b: "b \<in> set qs" for b
  proof -
    from qok [OF b] obtain k ib rb ci co where
      g: "lg_sinks s b = Some k" "sk_callback k = None" "sk_in k = Some ib" "sk_out k = Some rb" "holds_queue s ib ci (In b)"
        "holds_queue s rb co (Out b)" "length (In b) + length (Out b) \<le> ci" "\<forall>y \<in> set (In b @ Out b). lg_lines s y \<noteq> None"
      by (auto simp: queued_ok_def)
    have "ib \<noteq> i" "ib \<noteq> r" "rb \<noteq> i" "rb \<noteq> r" using g(5,6) fresh(2,3) by (auto simp: holds_queue_def)
    then have "holds_queue u ib ci (In b)" "holds_queue u rb co (Out b)" using g(5,6) u(7) by (auto simp: holds_queue_def)
    moreover have "\<forall>y \<in> set (In b @ Out b). lg_lines u y \<noteq> None" using g(8) unfolding u(8) by auto
    ultimately show ?thesis using g na b u(2) unfolding queued_ok_def by auto
  qed
  have own: "queued_ok u ?In ?Out a"
  proof -
    have "\<forall>x \<in> set (map (line_at th) [0 ..< THREAD_LINE_BUFFER_SIZE]). lg_lines u x \<noteq> None" using buffer_lines [of _ th] unfolding u(8) by auto
    then show ?thesis using u(2-6) unfolding queued_ok_def holds_queue_def by (auto simp: new_sink_def)
  qed
  have addrs: "map (queue_addrs u) qs = map (queue_addrs s) qs" using na u(2) by (auto simp: queue_addrs_def)
  have "\<forall>b \<in> set qs. set (queue_addrs s b) \<subseteq> dom (lg_queues s)" using queued_ok_addrs qok by blast
  then have "i \<notin> set (concat (map (queue_addrs s) qs))" "r \<notin> set (concat (map (queue_addrs s) qs))" using fresh(2,3) by auto
  then have d1: "distinct (concat (map (queue_addrs u) (a # qs)))"
    using o fresh(4) u(2) unfolding list.map concat.simps addrs by (auto simp: queue_addrs_def new_sink_def)
  have l: "map (\<lambda>b. ?In b @ ?Out b) qs = map (\<lambda>b. In b @ Out b) qs" using na by auto
  have "set (map (line_at th) [0 ..< THREAD_LINE_BUFFER_SIZE]) \<inter> set (concat (map (\<lambda>b. In b @ Out b) qs)) = {}"
  proof (rule equals0I)
    fix x assume x: "x \<in> set (map (line_at th) [0 ..< THREAD_LINE_BUFFER_SIZE]) \<inter> set (concat (map (\<lambda>b. In b @ Out b) qs))"
    then obtain b where "b \<in> set qs" "x \<in> set (In b @ Out b)" by auto
    then have "lg_lines s x \<noteq> None" using qok unfolding queued_ok_def by blast
    moreover have "in_buffer th x" using x by (simp only: Int_iff buffer_lines)
    ultimately show False using apart by simp
  qed
  then have d2: "distinct (concat (map (\<lambda>b. ?In b @ ?Out b) (a # qs)))"
    using o buffer_distinct unfolding list.map concat.simps l by auto
  have dok: "direct_ok u b" if "b \<in> set ds" for b using o na that u(2) by (auto simp: direct_ok_def)
  show "log_ok u ds (a # qs) ?In ?Out" unfolding log_ok_def using u(1) dok own other d1 d2 by (intro conjI ballI) auto
  have "\<forall>x. x \<in> set (?In a @ ?Out a) \<longleftrightarrow> in_buffer th x" using buffer_lines [of _ th] by simp
  then show "thread_ok u (a # qs) ?In ?Out th \<lparr>lt_running = True, lt_in = Some i, lt_out = Some r, lt_sink = Some a\<rparr> a"
    unfolding thread_ok_def using u(2,5,6,9,10) fresh(4) by (auto simp: new_sink_def)
qed

lemma log_ok_lists_cong:
  assumes "\<And>b. b \<in> set qs \<Longrightarrow> In' b = In b \<and> Out' b = Out b"
  shows "log_ok s ds qs In' Out' = log_ok s ds qs In Out"
proof -
  have "map (\<lambda>b. In' b @ Out' b) qs = map (\<lambda>b. In b @ Out b) qs" using assms by auto
  moreover have "(\<forall>b \<in> set qs. queued_ok s In' Out' b) = (\<forall>b \<in> set qs. queued_ok s In Out b)" using assms by (simp add: queued_ok_def)
  ultimately show ?thesis by (simp only: log_ok_def)
qed

text \<open>Whatever fails, what was made so far is released.\<close>

lemma make_thread_ok:
  assumes spec: "malloc_spec alloc" and ok: "log_ok s ds qs In Out" and un: "unlocked s" and th0: "lg_thread s = None"
    and lv: "blocks_live s" and ap: "lines_apart alloc s"
  obtains (failed) s' s'' where "make_thread alloc created s = Some (False, s')" "release_thread s' = Some s''" "no_thread_left s s''"
      "log_ok s'' ds qs In Out" "unlocked s''"
  | (made) u th t a i r where "make_thread alloc created s = Some (True, u)" created
      "log_ok u ds (a # qs) (In(a := [])) (Out(a := map (line_at th) [0 ..< THREAD_LINE_BUFFER_SIZE]))"
      "thread_ok u (a # qs) (In(a := [])) (Out(a := map (line_at th) [0 ..< THREAD_LINE_BUFFER_SIZE])) th t a"
      "unlocked u" "lg_calls u = lg_calls s" "\<exists>k. lg_sinks u = (lg_sinks s)(a \<mapsto> k)" "lg_sinks s a = None"
      "use_source_location u = use_source_location s" "abort_on_error u = abort_on_error s" "block_on_error u = block_on_error s"
      "lt_in t = Some i" "lt_out t = Some r" "live (lg_heap u) |` (- {a, i, r, th}) = live (lg_heap s)"
proof -
  let ?buf = "\<lambda>th x. if in_buffer th x then Some blank_line else lg_lines s x"
  let ?t0 = "\<lparr>lt_running = True, lt_in = None, lt_out = None, lt_sink = None\<rparr>"
  have undo: "log_ok s'' ds qs In Out \<and> unlocked s'' \<and> no_thread_left s s''"
    if "lg_links s'' = lg_links s" "lg_sinks s'' = lg_sinks s" "lg_queues s'' = lg_queues s" "lg_lines s'' = lg_lines s" "lg_calls s'' = lg_calls s"
      "lg_thread s'' = None" "live (lg_heap s'') = live (lg_heap s)" "direct_rwlock s'' = direct_rwlock s" "queued_rwlock s'' = queued_rwlock s" for s''
    using that ok un log_ok_cong [of s'' s] by (simp add: no_thread_left_def unlocked_def)
  obtain m h1 where m: "malloc alloc LOG_THREAD_BYTES (lg_heap s) = (m, h1)" by fastforce
  show thesis
  proof (cases m)
    case None
    let ?s = "s\<lparr>lg_heap := h1\<rparr>"
    have "make_thread alloc created s = Some (False, ?s)" "release_thread ?s = Some ?s"
      using m None th0 by (simp_all add: make_thread_def release_thread_def)
    then show thesis using failed [of ?s ?s] undo [of ?s] th0 malloc_None [of alloc LOG_THREAD_BYTES] m None by simp
  next
    case (Some th)
    note h1 = malloc_Some(1,2) [OF spec m [unfolded Some]]
    have apart: "\<forall>x. in_buffer th x \<longrightarrow> lg_lines s x = None"
      using ap m Some by (auto simp: lines_apart_def malloc_def Let_def split: option.splits)
    let ?s1 = "s\<lparr>lg_heap := h1, lg_lines := ?buf th, lg_thread := Some (th, ?t0)\<rparr>"
    have q1: "make_thread alloc created s = make_queues alloc created th ?s1"
      using m Some by (simp add: make_thread_def set_thread_def)
    have l1: "live (lg_heap ?s1) = (live (lg_heap s))(th \<mapsto> LOG_THREAD_BYTES)" using h1(2) by simp
    show thesis
      using spec
    proof (cases rule: new_queue_ok [where s = "?s1"])
      case (none h2)
      let ?s2 = "?s1\<lparr>lg_heap := h2\<rparr>"
      have mk: "make_thread alloc created s = Some (False, ?s2)" unfolding q1 make_queues_def none(1) by (simp add: set_thread_def Let_def)
      have "\<exists>r. release_thread ?s2 = Some r \<and> no_thread_left s r \<and> log_ok r ds qs In Out \<and> unlocked r"
        by (rule release_restores [where th = th and t = ?t0]) (use none(2) l1 h1(1) apart ok un in \<open>auto simp: restrict_map_def fun_eq_iff\<close>)
      then show thesis using failed [OF mk] by blast
    next
      case (some i h2 qi sz)
      let ?t1 = "\<lparr>lt_running = True, lt_in = Some i, lt_out = None, lt_sink = None\<rparr>"
      let ?s2 = "?s1\<lparr>lg_heap := h2, lg_queues := (lg_queues s)(i \<mapsto> qi), lg_thread := Some (th, ?t1)\<rparr>"
      have q2: "make_thread alloc created s = do { (r, s) \<leftarrow> new_queue alloc ?s2;
          let t = \<lparr>lt_running = True, lt_in = Some i, lt_out = r, lt_sink = None\<rparr>;
          if r = None then Some (False, set_thread th t s) else make_sink alloc created th t (set_thread th t s) }"
        unfolding q1 make_queues_def some(1) by (simp add: set_thread_def Let_def)
      note qi = some(4)
      have l2: "live h2 = (live (lg_heap s))(th \<mapsto> LOG_THREAD_BYTES, i \<mapsto> sz)" using some(3) l1 by simp
      have i: "i \<noteq> th" "live (lg_heap s) i = None" "lg_queues s i = None"
        using some(2) l1 lv by (auto simp: blocks_live_def split: if_splits)
      show thesis
        using spec
      proof (cases rule: new_queue_ok [where s = "?s2"])
        case (none h3)
        let ?s3 = "?s2\<lparr>lg_heap := h3\<rparr>"
        have mk: "make_thread alloc created s = Some (False, ?s3)" unfolding q2 none(1) by (simp add: set_thread_def Let_def)
        have "\<exists>r. release_thread ?s3 = Some r \<and> no_thread_left s r \<and> log_ok r ds qs In Out \<and> unlocked r"
          by (rule release_restores [where th = th and t = ?t1])
            (use none(2) l2 i h1(1) apart ok un in \<open>auto simp: restrict_map_def fun_eq_iff\<close>)
        then show thesis using failed [OF mk] by blast
      next
        case (some r h3 qo sz')
        let ?t2 = "\<lparr>lt_running = True, lt_in = Some i, lt_out = Some r, lt_sink = None\<rparr>"
        have l3: "live h3 = (live (lg_heap s))(th \<mapsto> LOG_THREAD_BYTES, i \<mapsto> sz, r \<mapsto> sz')" using some(3) l2 by simp
        have r: "r \<noteq> th" "r \<noteq> i" "live (lg_heap s) r = None" "lg_queues s r = None"
          using some(2) l2 lv by (auto simp: blocks_live_def split: if_splits)
        from cqf.fill_rep [OF some(4), of "map (line_at th) [0 ..< THREAD_LINE_BUFFER_SIZE]"] obtain qf where
          qf: "fill amcqueue_enq (map (line_at th) [0 ..< THREAD_LINE_BUFFER_SIZE]) qo = Some qf"
            "queue_list THREAD_LINE_BUFFER_SIZE qf (map (line_at th) [0 ..< THREAD_LINE_BUFFER_SIZE])" by auto
        let ?s3 = "?s2\<lparr>lg_heap := h3, lg_thread := Some (th, ?t2), lg_queues := (lg_queues s)(i \<mapsto> qi, r \<mapsto> qf)\<rparr>"
        have q3: "make_thread alloc created s =
            do { (k, s) \<leftarrow> amlog_sink_register_queued alloc (Some ''amlog direct callback thread'') (Some i) (Some r) None ?s3;
                 Some (k \<noteq> None \<and> created, set_thread th (?t2\<lparr>lt_sink := k\<rparr>) s) }"
          unfolding q2 some(1) by (simp add: make_sink_def set_thread_def set_queue_def Let_def qf(1))
        have f3: "forest (lg_links ?s3) {DirectSinks, QueuedSinks} (sink_lists ds qs)" using ok by (simp add: log_ok_def)
        have lk: "queued_rwlock ?s3 = Readers 0" using un by (simp add: unlocked_def)
        have dom3: "set ds \<union> set qs \<subseteq> dom (live (lg_heap ?s3))"
        proof -
          have "set ds \<union> set qs \<subseteq> dom (lg_sinks s)" using log_sinks_there [OF ok] by (auto simp: direct_ok_def)
          moreover have "dom (lg_sinks s) \<subseteq> dom (live (lg_heap s))" using lv by (simp add: blocks_live_def)
          moreover have "dom (live (lg_heap s)) \<subseteq> dom (live (lg_heap ?s3))" using l3 by auto
          ultimately show ?thesis by blast
        qed
        show thesis
          using spec f3 lk dom3
        proof (cases rule: register_queued_ok [where s = "?s3" and i = i and r = r and name = "Some ''amlog direct callback thread''" and user = None])
          case (none h4)
          let ?s4 = "?s3\<lparr>lg_heap := h4\<rparr>"
          have mk: "make_thread alloc created s = Some (False, ?s4)" unfolding q3 none(1) by (simp add: set_thread_def)
          have "\<exists>x. release_thread ?s4 = Some x \<and> no_thread_left s x \<and> log_ok x ds qs In Out \<and> unlocked x"
            by (rule release_restores [where th = th and t = ?t2])
              (use none(2) l3 i r h1(1) apart ok un in \<open>auto simp: restrict_map_def fun_eq_iff\<close>)
          then show thesis using failed [OF mk] by blast
        next
          case (some a h4 ls)
          let ?t = "\<lparr>lt_running = True, lt_in = Some i, lt_out = Some r, lt_sink = Some a\<rparr>"
          let ?u = "?s3\<lparr>lg_heap := h4, lg_sinks := (lg_sinks s)(a \<mapsto> new_sink (Some ''amlog direct callback thread'') None None (Some i) (Some r)),
            lg_links := ls, lg_thread := Some (th, ?t)\<rparr>"
          have mk: "make_thread alloc created s = Some (created, ?u)" unfolding q3 using some(1) by (simp add: set_thread_def)
          have a: "lg_sinks s a = None" "distinct [a, i, r, th]" "live (lg_heap s) a = None"
            using some(2) l3 lv i(1) r(1,2) by (auto simp: blocks_live_def split: if_splits)
          have l4: "live h4 = (live (lg_heap s))(th \<mapsto> LOG_THREAD_BYTES, i \<mapsto> sz, r \<mapsto> sz', a \<mapsto> SINK_BYTES)" using some(3) l3 by simp
          note made_ok [where u = "?u", OF ok a(1) i(3) r(4) a(2) apart]
          note full = this [of "Some ''amlog direct callback thread''" None qi qf]
          have full1: "log_ok ?u ds (a # qs) (In(a := [])) (Out(a := map (line_at th) [0 ..< THREAD_LINE_BUFFER_SIZE]))"
            by (rule full(1)) (use some(4) qi qf(2) l4 r(2) in simp_all)
          have full2: "thread_ok ?u (a # qs) (In(a := [])) (Out(a := map (line_at th) [0 ..< THREAD_LINE_BUFFER_SIZE])) th ?t a"
            by (rule full(2)) (use some(4) qi qf(2) l4 r(2) in simp_all)
          have uu: "unlocked ?u" using un by (simp add: unlocked_def)
          show thesis
          proof (cases created)
            case True
            have "live (lg_heap ?u) |` (- {a, i, r, th}) = live (lg_heap s)"
              using l4 a(3) i(2) r(3) h1(1) by (auto simp: restrict_map_def fun_eq_iff)
            then show thesis by (intro made [OF _ True full1 full2 uu, where i = i and r = r]) (use mk True a(1) in auto)
          next
            case False
            from release_thread_ok [OF full1 full2 uu] obtain x where
              x: "release_thread ?u = Some x" "log_ok x ds (remove1 a (a # qs)) (In(a := [])) (Out(a := map (line_at th) [0 ..< THREAD_LINE_BUFFER_SIZE]))"
                "lg_thread x = None" "unlocked x" "lg_calls x = lg_calls s" "lg_sinks x = (lg_sinks ?u)(a := None)"
                "lg_lines x = (\<lambda>y. if in_buffer th y then None else lg_lines ?u y)" "live (lg_heap x) = (live h4) |` (- {a, i, r, th})"
                "lg_queues x = (lg_queues ?u) |` (- {i, r})" by auto
            have "a \<notin> set qs" using a(1) log_sinks_there(1) [OF ok] by auto
            then have "(In(a := [])) b = In b \<and> (Out(a := map (line_at th) [0 ..< THREAD_LINE_BUFFER_SIZE])) b = Out b" if "b \<in> set qs" for b
              using that by auto
            note cong = log_ok_lists_cong [where qs = qs and In' = "In(a := [])" and In = In and Out = Out and
                Out' = "Out(a := map (line_at th) [0 ..< THREAD_LINE_BUFFER_SIZE])", OF this]
            have "log_ok x ds qs (In(a := [])) (Out(a := map (line_at th) [0 ..< THREAD_LINE_BUFFER_SIZE]))" using x(2) by simp
            then have "log_ok x ds qs In Out" using cong by blast
            moreover have "no_thread_left s x"
              unfolding no_thread_left_def x(3,5-9) l4 using a i r h1(1) apart by (auto simp: restrict_map_def fun_eq_iff)
            ultimately show thesis using failed [of ?u x] mk False x(1,4) by simp
          qed
        qed
      qed
    qed
  qed
qed

section \<open>Why the initialisation fails\<close>

definition switches :: "log_state \<Rightarrow> bool \<times> bool \<times> bool" where
  "switches s = (abort_on_error s, block_on_error s, use_source_location s)"

lemma new_queue_refusals:
  "new_queue alloc s = Some (r, u) \<Longrightarrow> refusals (lg_heap u) = refusals (lg_heap s) + (if r = None then 1 else 0) \<and> switches u = switches s"
  by (auto simp: new_queue_def amcqueue_alloc_def set_queue_def switches_def Let_def bind_eq_Some_conv dest!: malloc_refusals split: option.splits prod.splits)

lemma register_refusals:
  "amlog_sink_register_queued alloc name (Some i) (Some r) user s = Some (k, u) \<Longrightarrow>
    refusals (lg_heap u) = refusals (lg_heap s) + (if k = None then 1 else 0) \<and> switches u = switches s"
  by (auto simp: amlog_sink_register_queued_def switches_def Let_def bind_eq_Some_conv dest!: malloc_refusals split: option.splits prod.splits)

lemma set_thread_heap [simp]: "lg_heap (set_thread th t s) = lg_heap s" "switches (set_thread th t s) = switches s"
  by (simp_all add: set_thread_def switches_def)

lemma set_queue_heap [simp]: "lg_heap (set_queue a q s) = lg_heap s" "switches (set_queue a q s) = switches s"
  by (simp_all add: set_queue_def switches_def)

lemma set_thread_heap_eq: "set_thread th t a = set_thread th t' b \<Longrightarrow> lg_heap a = lg_heap b"
  by (metis set_thread_heap(1))

lemma switches_update [simp]: "switches (s\<lparr>lg_heap := h\<rparr>) = switches s" "switches (s\<lparr>lg_lines := l\<rparr>) = switches s"
  by (simp_all add: switches_def)

lemma make_sink_refusals:
  assumes "make_sink alloc created th t s = Some (made, u)" and "lt_in t \<noteq> None"
  shows "made = (created \<and> refusals (lg_heap u) = refusals (lg_heap s)) \<and> refusals (lg_heap s) \<le> refusals (lg_heap u) \<and> switches u = switches s"
  using assms by (auto simp: make_sink_def Let_def bind_eq_Some_conv dest!: register_refusals)

lemma make_queues_refusals:
  assumes "make_queues alloc created th s = Some (made, u)"
  shows "made = (created \<and> refusals (lg_heap u) = refusals (lg_heap s)) \<and> refusals (lg_heap s) \<le> refusals (lg_heap u) \<and> switches u = switches s"
  using assms
  by (auto simp: make_queues_def Let_def bind_eq_Some_conv dest!: new_queue_refusals make_sink_refusals dest: set_thread_heap_eq split: if_splits)

lemma make_thread_refusals:
  assumes "make_thread alloc created s = Some (made, u)"
  shows "made = (created \<and> \<not> refused (lg_heap s) (lg_heap u)) \<and> switches u = switches s"
  using assms
  by (auto simp: make_thread_def refused_def dest!: malloc_refusals make_queues_refusals split: option.splits prod.splits)

lemma unregister_refusals:
  "amlog_sink_unregister k s = Some u \<Longrightarrow> refusals (lg_heap u) = refusals (lg_heap s) \<and> switches u = switches s"
  by (cases k) (auto simp: amlog_sink_unregister_def switches_def Let_def bind_eq_Some_conv dest!: free_block_refusals split: if_split_asm)

lemma release_queue_refusals:
  "release_queue p s = Some u \<Longrightarrow> refusals (lg_heap u) = refusals (lg_heap s) \<and> switches u = switches s"
  by (cases p) (auto simp: release_queue_def amcqueue_free_def switches_def bind_eq_Some_conv dest!: free_block_refusals)

lemma release_refusals:
  assumes "release_thread s = Some u"
  shows "refusals (lg_heap u) = refusals (lg_heap s) \<and> switches u = switches s"
proof (cases "lg_thread s")
  case None
  then show ?thesis using assms by (simp add: release_thread_def)
next
  case (Some x)
  then obtain th t where x: "lg_thread s = Some (th, t)" by (cases x) simp
  from assms obtain s1 s2 s3 h where r: "amlog_sink_unregister (lt_sink t) s = Some s1" "release_queue (lt_in t) s1 = Some s2"
    "release_queue (lt_out t) s2 = Some s3" "free_block (Some th) (lg_heap s3) = Some h" "lg_heap u = h" "switches u = switches s3"
    by (auto simp: release_thread_def x bind_eq_Some_conv switches_def)
  show ?thesis
    using unregister_refusals [OF r(1)] release_queue_refusals [OF r(2)] release_queue_refusals [OF r(3)] free_block_refusals [OF r(4)] r(5,6) by simp
qed

end
