(* ===== verification/AmLogProps.thy ===== *)
theory AmLogProps
  imports AmLogInit
begin

text \<open>
  The properties of the log: what a message does, that initialisation is all or nothing, and that the thread
  delivers what would be delivered without it.
\<close>

section \<open>Messages\<close>

definition takes :: "log_state \<Rightarrow> amlog_line \<Rightarrow> addr \<Rightarrow> bool" where
  "takes s ent a \<longleftrightarrow> \<not> sink_skips (the (lg_sinks s a)) ent"

lemma routes_takes: "routes s ent as = filter (takes s ent) as"
  by (simp add: routes_def takes_def cong: filter_cong)

lemma written_line:
  assumes ok: "log_ok s ds qs In Out" and a: "a \<in> set qs" "takes s ent a" "Out a \<noteq> []"
  shows "written (routes s ent qs) Out e m (hd (Out a)) = Some e"
  using a by (auto simp: written_def routes_takes)

lemma not_written:
  assumes ok: "log_ok s ds qs In Out" and a: "a \<in> set qs" and x: "x \<in> set (In a)"
  shows "written (routes s ent qs) Out e m x = m x"
proof -
  have d: "distinct (concat (map (\<lambda>a. In a @ Out a) qs))" using ok by (simp add: log_ok_def)
  have "x \<noteq> hd (Out b)" if b: "b \<in> set qs" "Out b \<noteq> []" for b
  proof (cases "b = a")
    case True
    then show ?thesis using distinct_concat_one [OF d a] x b(2) by (metis disjoint_iff distinct_append hd_in_set)
  next
    case False
    have "set (In b @ Out b) \<inter> set (In a @ Out a) = {}" using distinct_concat_pair [OF d b(1) a False] .
    then show ?thesis using x b(2) by (metis Un_iff disjoint_iff hd_in_set set_append)
  qed
  then show ?thesis using routes_subset [of s ent qs] by (auto simp: written_def)
qed

text \<open>
  What a message does in general: each direct sink that takes it, if there is no thread, is called once, in the order of the list, and each queued
  sink that takes it and has a free line has that line, filled in, behind the lines in its queue; a sink without a free line is passed over, and
  the call succeeds all the same. A sink with the mask 0 takes every mask, and the length that is stored is that of the text before it was cut.
\<close>

lemma amlog_message_general:
  assumes "log_ok s ds qs In Out" and "unlocked s" and "\<forall>a \<in> set qs. takes s ent a \<longrightarrow> Out a \<noteq> [] \<or> \<not> abort_on_error s \<and> \<not> block_on_error s"
    and "ent = unformatted s file line level msk"
  shows "amlog_sink_message others time file line level msk None s =
      Some (if (\<exists>a \<in> set qs. takes s ent a) \<or> lg_thread s = None \<and> (\<exists>a \<in> set ds. takes s ent a) then AMRC_ERROR else AMRC_SUCCESS, s) \<and>
    (\<exists>s' In' Out'. amlog_sink_message others time file line level msk (Some t) s = Some (AMRC_SUCCESS, s') \<and>
       log_ok s' ds qs In' Out' \<and> unlocked s' \<and>
       lg_calls s' = lg_calls s @ (if lg_thread s = None then map (call_of_sink s (line_of time t ent)) (filter (takes s ent) ds) else []) \<and>
       (\<forall>a \<in> set qs. if takes s ent a \<and> Out a \<noteq> []
          then In' a = In a @ [hd (Out a)] \<and> Out' a = tl (Out a) \<and> lg_lines s' (hd (Out a)) = Some (line_of time t ent)
          else In' a = In a \<and> Out' a = Out a) \<and>
       (\<forall>a \<in> set qs. \<forall>x \<in> set (In a). lg_lines s' x = lg_lines s x))"
proof -
  let ?M = "routes s ent qs"
  have e: "\<forall>a \<in> set (routes s (unformatted s file line level msk) qs). Out a \<noteq> [] \<or> \<not> abort_on_error s \<and> \<not> block_on_error s"
    using assms(3) by (auto simp: assms(4) routes_takes)
  from message_ok [OF assms(1,2) e, of "others" time t] obtain Q where
    m: "amlog_sink_message others time file line level msk (Some t) s = Some (AMRC_SUCCESS, s\<lparr>lg_queues := Q, lg_lines := written ?M Out (line_of time t ent) (lg_lines s),
        lg_calls := lg_calls s @ (if lg_thread s = None then map (call_of_sink s (line_of time t ent)) (routes s ent ds) else [])\<rparr>)"
      "log_ok (s\<lparr>lg_queues := Q, lg_lines := written ?M Out (line_of time t ent) (lg_lines s)\<rparr>) ds qs (moved_in ?M In Out) (moved_out ?M Out)"
    unfolding assms(4) [symmetric] by blast
  let ?s = "s\<lparr>lg_queues := Q, lg_lines := written ?M Out (line_of time t ent) (lg_lines s),
        lg_calls := lg_calls s @ (if lg_thread s = None then map (call_of_sink s (line_of time t ent)) (routes s ent ds) else [])\<rparr>"
  have ok: "log_ok ?s ds qs (moved_in ?M In Out) (moved_out ?M Out)"
    using m(2) log_ok_cong [of ?s "s\<lparr>lg_queues := Q, lg_lines := written ?M Out (line_of time t ent) (lg_lines s)\<rparr>"] by simp
  have un: "unlocked ?s" using assms(2) by (simp add: unlocked_def)
  have q: "if takes s ent a \<and> Out a \<noteq> []
      then moved_in ?M In Out a = In a @ [hd (Out a)] \<and> moved_out ?M Out a = tl (Out a) \<and> lg_lines ?s (hd (Out a)) = Some (line_of time t ent)
      else moved_in ?M In Out a = In a \<and> moved_out ?M Out a = Out a" if a: "a \<in> set qs" for a
  proof (cases "Out a")
    case Nil
    then show ?thesis by (simp add: moved_in_def moved_out_def)
  next
    case (Cons x xs)
    then have "takes s ent a \<Longrightarrow> lg_lines ?s (hd (Out a)) = Some (line_of time t ent)" using written_line [OF assms(1) a] by simp
    then show ?thesis using a Cons by (simp add: moved_in_def moved_out_def routes_takes)
  qed
  have l: "\<forall>a \<in> set qs. \<forall>x \<in> set (In a). lg_lines ?s x = lg_lines s x" using not_written [OF assms(1)] by simp
  have f: "amlog_sink_message others time file line level msk None s =
      Some (if (\<exists>a \<in> set qs. takes s ent a) \<or> lg_thread s = None \<and> (\<exists>a \<in> set ds. takes s ent a) then AMRC_ERROR else AMRC_SUCCESS, s)"
    unfolding message_fails [OF assms(1,2)] assms(4) [symmetric] routes_takes by (auto simp: filter_empty_conv)
  have c: "lg_calls ?s = lg_calls s @ (if lg_thread s = None then map (call_of_sink s (line_of time t ent)) (filter (takes s ent) ds) else [])"
    by (simp add: routes_takes)
  have r: "\<forall>a \<in> set qs. if takes s ent a \<and> Out a \<noteq> []
      then moved_in ?M In Out a = In a @ [hd (Out a)] \<and> moved_out ?M Out a = tl (Out a) \<and> lg_lines ?s (hd (Out a)) = Some (line_of time t ent)
      else moved_in ?M In Out a = In a \<and> moved_out ?M Out a = Out a" using q by blast
  show ?thesis
    by (intro conjI exI [of _ ?s] exI [of _ "moved_in ?M In Out"] exI [of _ "moved_out ?M Out"]) (fact f m(1) ok un c r l)+
qed

text \<open>The sinks that \<^verbatim>\<open>libam_log.h\<close> promises a message to, and the line they get.\<close>

definition wanted :: "log_state \<Rightarrow> u64 \<Rightarrow> u64 \<Rightarrow> addr \<Rightarrow> bool" where
  "wanted s level msk a =
     (let k = the (lg_sinks s a) in level \<le> sk_level k \<and> (msk = 0 \<or> sk_mask k AND msk \<noteq> 0))"

definition full_line :: "u64 \<Rightarrow> string \<Rightarrow> amlog_line \<Rightarrow> amlog_line" where
  "full_line time t ent = ent\<lparr>lin_timestamp := time, lin_message := t, lin_length := int (length t)\<rparr>"

lemma takes_wanted:
  assumes "msk = 0 \<or> sk_mask (the (lg_sinks s a)) \<noteq> 0"
  shows "takes s (unformatted s file line level msk) a = wanted s level msk a"
  using assms by (auto simp: takes_def sink_skips_def wanted_def unformatted_def blank_line_def Let_def not_less)

lemma line_of_full: "length t \<le> 254 \<Longrightarrow> line_of time t ent = full_line time t ent"
  by (simp add: line_of_def full_line_def)

text \<open>
  C14. A message of at most 254 characters reaches exactly the sinks it is for, those with its level or a higher one that have a component of its mask in common with it, or
  all of these levels when its mask is 0, as long as each of them that is queued has a free line, and no sink has the mask 0 unless the message has:
  each such direct sink, if there is no thread, is called once with the whole line, in the order of the list; each such queued sink has the whole line
  behind the lines in its queue; the other queues stay as they are, and the call succeeds. With a text that cannot be formatted nothing is sent, and
  the error is returned when any sink was to get it. The locks are free afterwards.
\<close>

theorem amlog_message_correct:
  assumes "log_ok s ds qs In Out" and "unlocked s" and "\<forall>a \<in> set qs. wanted s level msk a \<longrightarrow> Out a \<noteq> []"
    and "msk = 0 \<or> (\<forall>a \<in> set ds \<union> set qs. sk_mask (the (lg_sinks s a)) \<noteq> 0)" and "length t \<le> 254"
    and "ln = full_line time t (unformatted s file line level msk)"
  shows "((\<exists>a \<in> set qs. wanted s level msk a) \<or> lg_thread s = None \<and> (\<exists>a \<in> set ds. wanted s level msk a) \<longrightarrow>
       amlog_sink_message others time file line level msk None s = Some (AMRC_ERROR, s)) \<and>
    (\<exists>s' In' Out'. amlog_sink_message others time file line level msk (Some t) s = Some (AMRC_SUCCESS, s') \<and>
       log_ok s' ds qs In' Out' \<and> unlocked s' \<and>
       lg_calls s' = lg_calls s @ (if lg_thread s = None then map (call_of_sink s ln) (filter (wanted s level msk) ds) else []) \<and>
       (\<forall>a \<in> set qs. if wanted s level msk a
          then In' a = In a @ [hd (Out a)] \<and> Out' a = tl (Out a) \<and> lg_lines s' (hd (Out a)) = Some ln
          else In' a = In a \<and> Out' a = Out a) \<and>
       (\<forall>a \<in> set qs. \<forall>x \<in> set (In a). lg_lines s' x = lg_lines s x))"
proof -
  let ?ent = "unformatted s file line level msk"
  have w: "takes s ?ent a = wanted s level msk a" if "a \<in> set ds \<union> set qs" for a
    using takes_wanted [of msk s a] assms(4) that by blast
  have d: "filter (takes s ?ent) ds = filter (wanted s level msk) ds" using w by (simp cong: filter_cong)
  have ln: "line_of time t ?ent = ln" using line_of_full [OF assms(5)] assms(6) by simp
  have e: "\<forall>a \<in> set qs. takes s ?ent a \<longrightarrow> Out a \<noteq> [] \<or> \<not> abort_on_error s \<and> \<not> block_on_error s" using assms(3) w by simp
  note g = amlog_message_general [OF assms(1,2) e refl, of others time t, unfolded d ln]
  show ?thesis
  proof
    show "(\<exists>a \<in> set qs. wanted s level msk a) \<or> lg_thread s = None \<and> (\<exists>a \<in> set ds. wanted s level msk a) \<longrightarrow>
        amlog_sink_message others time file line level msk None s = Some (AMRC_ERROR, s)"
      using g [THEN conjunct1] w by auto
    from g [THEN conjunct2] obtain s' In' Out' where
      m: "amlog_sink_message others time file line level msk (Some t) s = Some (AMRC_SUCCESS, s')" "log_ok s' ds qs In' Out'" "unlocked s'"
        "lg_calls s' = lg_calls s @ (if lg_thread s = None then map (call_of_sink s ln) (filter (wanted s level msk) ds) else [])"
        "\<forall>a \<in> set qs. \<forall>x \<in> set (In a). lg_lines s' x = lg_lines s x"
      and q: "\<forall>a \<in> set qs. if takes s ?ent a \<and> Out a \<noteq> []
          then In' a = In a @ [hd (Out a)] \<and> Out' a = tl (Out a) \<and> lg_lines s' (hd (Out a)) = Some ln
          else In' a = In a \<and> Out' a = Out a" by blast
    have "if wanted s level msk a
          then In' a = In a @ [hd (Out a)] \<and> Out' a = tl (Out a) \<and> lg_lines s' (hd (Out a)) = Some ln
          else In' a = In a \<and> Out' a = Out a" if "a \<in> set qs" for a
      using q [rule_format, OF that] w [of a] assms(3) that by (simp split: if_splits)
    with m show "\<exists>s' In' Out'. amlog_sink_message others time file line level msk (Some t) s = Some (AMRC_SUCCESS, s') \<and>
       log_ok s' ds qs In' Out' \<and> unlocked s' \<and>
       lg_calls s' = lg_calls s @ (if lg_thread s = None then map (call_of_sink s ln) (filter (wanted s level msk) ds) else []) \<and>
       (\<forall>a \<in> set qs. if wanted s level msk a
          then In' a = In a @ [hd (Out a)] \<and> Out' a = tl (Out a) \<and> lg_lines s' (hd (Out a)) = Some ln
          else In' a = In a \<and> Out' a = Out a) \<and>
       (\<forall>a \<in> set qs. \<forall>x \<in> set (In a). lg_lines s' x = lg_lines s x)" by blast
  qed
qed

section \<open>Initialisation\<close>

text \<open>
  C19. \<open>amlog_sink_init\<close> returns; it refuses to block and to abort on errors at once and changes nothing. Otherwise the three switches are as the flags say,
  and the call succeeds unless a thread is asked for and \<^verbatim>\<open>malloc\<close> or \<^verbatim>\<open>pthread_create\<close> fails; then it fails, all that was made is released,
  and memory, sinks, queues and lines are as before. When it succeeds with a thread, the sink of the thread is registered and all its lines are free.
\<close>

theorem amlog_init_correct:
  assumes "malloc_spec alloc" and "log_ok s ds qs In Out" and "unlocked s" and "lg_thread s = None" and "blocks_live s" and "lines_apart alloc s"
  shows "\<exists>rc s'. amlog_sink_init alloc created flags s = Some (rc, s') \<and> unlocked s' \<and> lg_calls s' = lg_calls s \<and>
    (if flags AND AMLOG_FLAGS_BLOCK_ON_ERROR \<noteq> 0 \<and> flags AND AMLOG_FLAGS_ABORT_ON_ERROR \<noteq> 0 then rc = AMRC_ERROR \<and> s' = s
     else abort_on_error s' = (flags AND AMLOG_FLAGS_ABORT_ON_ERROR \<noteq> 0) \<and> block_on_error s' = (flags AND AMLOG_FLAGS_BLOCK_ON_ERROR \<noteq> 0) \<and>
       use_source_location s' = (flags AND AMLOG_FLAGS_AVOID_SOURCE_LINES = 0) \<and>
       rc = (if flags AND AMLOG_FLAGS_USE_THREAD \<noteq> 0 \<and> (\<not> created \<or> refused (lg_heap s) (lg_heap s')) then AMRC_ERROR else AMRC_SUCCESS) \<and>
       (if rc = AMRC_SUCCESS \<and> flags AND AMLOG_FLAGS_USE_THREAD \<noteq> 0
        then \<exists>th t a. log_ok s' ds (a # qs) (In(a := [])) (Out(a := map (line_at th) [0 ..< THREAD_LINE_BUFFER_SIZE])) \<and>
          thread_ok s' (a # qs) (In(a := [])) (Out(a := map (line_at th) [0 ..< THREAD_LINE_BUFFER_SIZE])) th t a
        else no_thread_left s s' \<and> log_ok s' ds qs In Out))"
proof -
  let ?s = "s\<lparr>abort_on_error := (flags AND AMLOG_FLAGS_ABORT_ON_ERROR \<noteq> 0), block_on_error := (flags AND AMLOG_FLAGS_BLOCK_ON_ERROR \<noteq> 0),
    use_source_location := (flags AND AMLOG_FLAGS_AVOID_SOURCE_LINES = 0)\<rparr>"
  have h: "log_ok ?s ds qs In Out" "unlocked ?s" "lg_thread ?s = None" "blocks_live ?s" "lines_apart alloc ?s"
    using assms log_ok_cong [of ?s s] by (simp_all add: unlocked_def blocks_live_def lines_apart_def)
  have b: "no_thread_left s s' = no_thread_left ?s s'" for s' by (simp add: no_thread_left_def)
  show ?thesis
  proof (cases "flags AND AMLOG_FLAGS_BLOCK_ON_ERROR \<noteq> 0 \<and> flags AND AMLOG_FLAGS_ABORT_ON_ERROR \<noteq> 0")
    case True
    then show ?thesis using assms by (simp add: amlog_sink_init_def)
  next
    case ok: False
    show ?thesis
    proof (cases "flags AND AMLOG_FLAGS_USE_THREAD = 0")
      case True
      then have i: "amlog_sink_init alloc created flags s = Some (AMRC_SUCCESS, ?s)" using ok by (auto simp: amlog_sink_init_def Let_def)
      have "no_thread_left s ?s" using assms(4) by (simp add: no_thread_left_def)
      then show ?thesis using True ok h by (intro exI [of _ AMRC_SUCCESS] exI [of _ ?s]) (simp only: i if_False, simp)
    next
      case False
      then have i: "amlog_sink_init alloc created flags s =
          do { (made, s) \<leftarrow> make_thread alloc created ?s; if made then Some (AMRC_SUCCESS, s) else do { s \<leftarrow> release_thread s; Some (AMRC_ERROR, s) } }"
        using ok assms(4) by (auto simp: amlog_sink_init_def Let_def)
      show ?thesis
        using assms(1) h
      proof (cases rule: make_thread_ok [where s = "?s" and created = created])
        case (failed s1 s2)
        have w: "\<not> created \<or> refused (lg_heap s) (lg_heap s2)" "switches s2 = switches ?s"
          using make_thread_refusals [OF failed(1)] release_refusals [OF failed(2)] by (auto simp: refused_def)
        have c: "lg_calls s2 = lg_calls s" using failed(3) by (simp add: no_thread_left_def)
        show ?thesis
          using False ok w c failed(3-5) unfolding i failed(1)
          by (intro exI [of _ AMRC_ERROR] exI [of _ s2]) (auto simp: failed(2) b switches_def)
      next
        case (made u th t a)
        have "\<not> refused (lg_heap s) (lg_heap u)" using make_thread_refusals [OF made(1)] by simp
        with False ok made show ?thesis unfolding i made(1)
          by (intro exI [of _ AMRC_SUCCESS] exI [of _ u]) (simp, blast)
      qed
    qed
  qed
qed

section \<open>With and without the thread\<close>

text \<open>Messages, and turns of the thread at any time between them.\<close>

datatype log_event = Log u64 "string option" int u64 u64 "string option" | Turn

fun is_log :: "log_event \<Rightarrow> bool" where
  "is_log Turn = False" | "is_log _ = True"

fun run_events :: "log_event list \<Rightarrow> log_state \<Rightarrow> log_state option" where
  "run_events [] s = Some s"
| "run_events (Log time file line level msk text # es) s =
     do { (rc, s) \<leftarrow> amlog_sink_message (\<lambda>n q. q) time file line level msk text s; run_events es s }"
| "run_events (Turn # es) s = do { (more, s) \<leftarrow> thread_turn s; run_events es s }"

definition pending :: "log_state \<Rightarrow> addr list \<Rightarrow> addr list \<Rightarrow> log_call list" where
  "pending s ds xs = concat (map (\<lambda>x. deliver s ds (the (lg_lines s x))) xs)"

text \<open>
  The log without a thread and the log with one: the same sinks, but for the one of the thread, the same lines in their queues,
  and the calls made in the first are those made in the second and those the thread still has to make.
\<close>

definition in_step :: "addr list \<Rightarrow> addr list \<Rightarrow> addr \<Rightarrow> log_thread \<Rightarrow> addr \<Rightarrow> nat \<Rightarrow> log_state \<Rightarrow> log_state \<Rightarrow> bool" where
  "in_step ds qs th t a n d u \<longleftrightarrow>
     (\<exists>In Out. log_ok d ds qs In Out \<and> log_ok u ds (a # qs) In Out \<and> thread_ok u (a # qs) In Out th t a \<and>
        lg_calls d = lg_calls u @ pending u ds (In a) \<and> n \<le> length (Out a)) \<and>
     unlocked d \<and> unlocked u \<and> lg_thread d = None \<and> (\<exists>k. lg_sinks u = (lg_sinks d)(a \<mapsto> k)) \<and> lg_sinks d a = None \<and>
     use_source_location u = use_source_location d \<and>
     \<not> abort_on_error d \<and> \<not> block_on_error d \<and> \<not> abort_on_error u \<and> \<not> block_on_error u"

lemma thread_sink_takes:
  assumes "thread_ok s qs In Out th t a"
  shows "takes s ent a"
proof -
  from assms obtain k where "lg_sinks s a = Some k" "sk_level k = - 1" "sk_mask k = 0" by (auto simp: thread_ok_def)
  moreover have "\<not> (- 1 :: u64) < lin_level ent" using word_n1_ge [of "lin_level ent"] by (simp add: not_less)
  ultimately show ?thesis by (simp add: takes_def sink_skips_def)
qed

lemma thread_ok_cong:
  assumes "thread_ok s qs In Out th t a" and "lg_thread s' = lg_thread s" and "lg_sinks s' = lg_sinks s" and "lg_heap s' = lg_heap s"
    and "In' a @ Out' a = In a @ Out a"
    and "\<And>r. lt_out t = Some r \<Longrightarrow> \<exists>q. lg_queues s' r = Some q \<and> queue_list THREAD_LINE_BUFFER_SIZE q (Out' a)"
  shows "thread_ok s' qs In' Out' th t a"
proof -
  have "length (In' a) + length (Out' a) = length (In a) + length (Out a)" using arg_cong [OF assms(5), of length] by simp
  moreover have "set (In' a @ Out' a) = set (In a @ Out a)" using assms(5) by simp
  ultimately show ?thesis using assms(1-4,6) unfolding thread_ok_def by auto
qed

lemma same_capacity:
  assumes "queue_list c q xs" and "queue_list c' q' ys" and "cq_capacity q' = cq_capacity q"
  shows "c' = c"
  using assms by (simp add: queue_list_def)

lemma line_of_routes: "routes s (line_of time t ent) as = routes s ent as"
  using routes_formatted [OF format_line_of, of s time t ent as] by simp

text \<open>A message, in the log with the thread.\<close>

lemma thread_message:
  assumes ok: "log_ok u ds (a # qs) In Out" and tk: "thread_ok u (a # qs) In Out th t a" and un: "unlocked u"
    and l: "Out a = x # xs" and e: "\<not> abort_on_error u" "\<not> block_on_error u"
    and ent: "ent = unformatted u file line level msk"
  shows "\<exists>u'. amlog_sink_message others time file line level msk (Some tx) u = Some (AMRC_SUCCESS, u') \<and>
    log_ok u' ds (a # qs) (moved_in (a # routes u ent qs) In Out) (moved_out (a # routes u ent qs) Out) \<and>
    thread_ok u' (a # qs) (moved_in (a # routes u ent qs) In Out) (moved_out (a # routes u ent qs) Out) th t a \<and>
    pending u' ds (moved_in (a # routes u ent qs) In Out a) = pending u ds (In a) @ deliver u ds (line_of time tx ent) \<and>
    lg_calls u' = lg_calls u \<and> unlocked u' \<and> lg_heap u' = lg_heap u \<and> lg_sinks u' = lg_sinks u \<and>
    use_source_location u' = use_source_location u \<and> abort_on_error u' = abort_on_error u \<and> block_on_error u' = block_on_error u"
proof -
  let ?e = "line_of time tx ent"
  let ?M = "a # routes u ent qs"
  have M: "routes u ent (a # qs) = ?M" using thread_sink_takes [OF tk] by (simp add: routes_takes)
  have "\<forall>b \<in> set (routes u (unformatted u file line level msk) (a # qs)). Out b \<noteq> [] \<or> \<not> abort_on_error u \<and> \<not> block_on_error u"
    using e by simp
  from message_ok [OF ok un this, of "others" time tx] obtain Q where
    m: "amlog_sink_message others time file line level msk (Some tx) u = Some (AMRC_SUCCESS, u\<lparr>lg_queues := Q, lg_lines := written ?M Out ?e (lg_lines u),
        lg_calls := lg_calls u @ (if lg_thread u = None then map (call_of_sink u ?e) (routes u ent ds) else [])\<rparr>)" "caps Q = caps (lg_queues u)"
      "log_ok (u\<lparr>lg_queues := Q, lg_lines := written ?M Out ?e (lg_lines u)\<rparr>) ds (a # qs) (moved_in ?M In Out) (moved_out ?M Out)"
    unfolding ent [symmetric] M by blast
  have th: "lg_thread u \<noteq> None" using tk by (simp add: thread_ok_def)
  let ?u = "u\<lparr>lg_queues := Q, lg_lines := written ?M Out ?e (lg_lines u)\<rparr>"
  have run: "amlog_sink_message others time file line level msk (Some tx) u = Some (AMRC_SUCCESS, ?u)" using m(1) th by simp
  have la: "moved_in ?M In Out a = In a @ [x]" "moved_out ?M Out a = xs" using l by (simp_all add: moved_in_def moved_out_def)
  have "thread_ok ?u (a # qs) (moved_in ?M In Out) (moved_out ?M Out) th t a"
  proof (rule thread_ok_cong [OF tk])
    fix r assume r: "lt_out t = Some r"
    from tk r obtain k q where k: "lg_sinks u a = Some k" "sk_out k = Some r" "lg_queues u r = Some q"
      "queue_list THREAD_LINE_BUFFER_SIZE q (Out a)" by (auto simp: thread_ok_def)
    from log_queue_facts [OF m(3), of a k] k(1,2) obtain co q' where q': "Q r = Some q'" "queue_list co q' (moved_out ?M Out a)" by auto
    have "cq_capacity q' = cq_capacity q" using fun_cong [OF m(2), of r] k(3) q'(1) by (simp add: caps_def)
    then have "co = THREAD_LINE_BUFFER_SIZE" using same_capacity [OF k(4) q'(2)] by blast
    then show "\<exists>q. lg_queues ?u r = Some q \<and> queue_list THREAD_LINE_BUFFER_SIZE q (moved_out ?M Out a)" using q' by simp
  qed (use l la in simp_all)
  moreover have "pending ?u ds (moved_in ?M In Out a) = pending u ds (In a) @ deliver u ds ?e"
  proof -
    have dl: "deliver ?u = deliver u" by (intro ext deliver_cong) simp
    have "lg_lines ?u y = lg_lines u y" if "y \<in> set (In a)" for y using not_written [OF ok _ that, of ent ?e] M by simp
    moreover have "lg_lines ?u x = Some ?e" using l by (auto simp: written_def)
    ultimately show ?thesis unfolding la pending_def dl by (simp cong: map_cong)
  qed
  ultimately show ?thesis using run m(3) un by (intro exI [of _ ?u]) (simp add: unlocked_def)
qed

lemma log_in_step:
  assumes s: "in_step ds qs th t a (Suc n) d u"
  shows "\<exists>rc d' rc' u'. amlog_sink_message others time file line level msk text d = Some (rc, d') \<and>
    amlog_sink_message others time file line level msk text u = Some (rc', u') \<and> in_step ds qs th t a n d' u' \<and> lg_heap u' = lg_heap u"
proof -
  from s obtain In Out where
    ok: "log_ok d ds qs In Out" "log_ok u ds (a # qs) In Out" "thread_ok u (a # qs) In Out th t a"
      "lg_calls d = lg_calls u @ pending u ds (In a)" "Suc n \<le> length (Out a)"
    and f: "unlocked d" "unlocked u" "lg_thread d = None" "lg_sinks d a = None" "use_source_location u = use_source_location d"
      "\<not> abort_on_error d" "\<not> block_on_error d" "\<not> abort_on_error u" "\<not> block_on_error u"
    unfolding in_step_def by blast
  from s obtain k where k: "lg_sinks u = (lg_sinks d)(a \<mapsto> k)" unfolding in_step_def by blast
  show ?thesis
  proof (cases "text")
    case None
    have "in_step ds qs th t a n d u" using s unfolding in_step_def by (meson Suc_leD)
    then show ?thesis unfolding None message_fails [OF ok(1) f(1)] message_fails [OF ok(2) f(2)] by blast
  next
    case (Some tx)
    define ent where "ent = unformatted d file line level msk"
    have eu: "ent = unformatted u file line level msk" using f(5) by (simp add: ent_def unformatted_def)
    obtain x xs where l: "Out a = x # xs" using ok(5) by (cases "Out a") auto
    have na: "a \<notin> set qs" "a \<notin> set ds" using log_distinct(2,3) [OF ok(2)] by auto
    have rt: "routes u ent qs = routes d ent qs" "deliver u ds e = deliver d ds e" for e
      using na k by (auto simp: routes_def intro!: filter_cong deliver_cong)
    from thread_message [OF ok(2,3) f(2) l f(8,9) eu, of "others" time tx] obtain u' where
      u': "amlog_sink_message others time file line level msk (Some tx) u = Some (AMRC_SUCCESS, u')"
        "log_ok u' ds (a # qs) (moved_in (a # routes d ent qs) In Out) (moved_out (a # routes d ent qs) Out)"
        "thread_ok u' (a # qs) (moved_in (a # routes d ent qs) In Out) (moved_out (a # routes d ent qs) Out) th t a"
        "pending u' ds (moved_in (a # routes d ent qs) In Out a) = pending u ds (In a) @ deliver d ds (line_of time tx ent)"
        "lg_calls u' = lg_calls u" "unlocked u'" "lg_heap u' = lg_heap u" "lg_sinks u' = lg_sinks u"
        "use_source_location u' = use_source_location u" "abort_on_error u' = abort_on_error u" "block_on_error u' = block_on_error u"
      unfolding rt by blast
    have "\<forall>b \<in> set (routes d (unformatted d file line level msk) qs). Out b \<noteq> [] \<or> \<not> abort_on_error d \<and> \<not> block_on_error d"
      using f(6,7) by simp
    from message_ok [OF ok(1) f(1) this, of "others" time tx] f(3) obtain Q where
      m: "amlog_sink_message others time file line level msk (Some tx) d = Some (AMRC_SUCCESS, d\<lparr>lg_queues := Q,
          lg_lines := written (routes d ent qs) Out (line_of time tx ent) (lg_lines d), lg_calls := lg_calls d @ map (call_of_sink d (line_of time tx ent)) (routes d ent ds)\<rparr>)"
        "log_ok (d\<lparr>lg_queues := Q, lg_lines := written (routes d ent qs) Out (line_of time tx ent) (lg_lines d)\<rparr>) ds qs
          (moved_in (routes d ent qs) In Out) (moved_out (routes d ent qs) Out)"
      unfolding ent_def [symmetric] by auto
    let ?d = "d\<lparr>lg_queues := Q, lg_lines := written (routes d ent qs) Out (line_of time tx ent) (lg_lines d),
      lg_calls := lg_calls d @ map (call_of_sink d (line_of time tx ent)) (routes d ent ds)\<rparr>"
    have "log_ok ?d ds qs (moved_in (routes d ent qs) In Out) (moved_out (routes d ent qs) Out)"
      using m(2) log_ok_cong [of ?d "d\<lparr>lg_queues := Q, lg_lines := written (routes d ent qs) Out (line_of time tx ent) (lg_lines d)\<rparr>"] by simp
    moreover have "log_ok ?d ds qs (moved_in (a # routes d ent qs) In Out) (moved_out (a # routes d ent qs) Out) =
        log_ok ?d ds qs (moved_in (routes d ent qs) In Out) (moved_out (routes d ent qs) Out)"
      by (rule log_ok_lists_cong) (use na in \<open>auto simp: moved_in_def moved_out_def\<close>)
    ultimately have okd: "log_ok ?d ds qs (moved_in (a # routes d ent qs) In Out) (moved_out (a # routes d ent qs) Out)" by blast
    have "lg_calls ?d = lg_calls u' @ pending u' ds (moved_in (a # routes d ent qs) In Out a)"
      using ok(4) unfolding u'(4,5) deliver_def line_of_routes by simp
    moreover have "n \<le> length (moved_out (a # routes d ent qs) Out a)" using ok(5) by (simp add: moved_out_def)
    ultimately have "in_step ds qs th t a n ?d u'"
      using okd u'(2,3,6,8-11) f k unfolding in_step_def by (auto simp: unlocked_def)
    then show ?thesis using m(1) u'(1,7) unfolding Some by blast
  qed
qed

lemma turn_in_step:
  assumes s: "in_step ds qs th t a n d u"
  shows "\<exists>more u'. thread_turn u = Some (more, u') \<and> in_step ds qs th t a n d u' \<and> lg_heap u' = lg_heap u"
proof -
  from s obtain In Out where
    ok: "log_ok d ds qs In Out" "log_ok u ds (a # qs) In Out" "thread_ok u (a # qs) In Out th t a"
      "lg_calls d = lg_calls u @ pending u ds (In a)" "n \<le> length (Out a)"
    unfolding in_step_def by blast
  have un: "unlocked u" using s by (simp add: in_step_def)
  show ?thesis
  proof (cases "In a")
    case Nil
    then show ?thesis using turn_empty [OF ok(2,3)] s by blast
  next
    case (Cons x xs)
    from turn_delivers [OF ok(2,3) Cons un] obtain Q where
      q: "thread_turn u = Some (True, u\<lparr>lg_queues := Q, lg_calls := lg_calls u @ deliver u ds (the (lg_lines u x))\<rparr>)"
        "log_ok (u\<lparr>lg_queues := Q, lg_calls := lg_calls u @ deliver u ds (the (lg_lines u x))\<rparr>) ds (a # qs) (In(a := xs)) (Out(a := Out a @ [x]))"
        "thread_ok (u\<lparr>lg_queues := Q, lg_calls := lg_calls u @ deliver u ds (the (lg_lines u x))\<rparr>) (a # qs) (In(a := xs)) (Out(a := Out a @ [x])) th t a"
      by blast
    let ?u = "u\<lparr>lg_queues := Q, lg_calls := lg_calls u @ deliver u ds (the (lg_lines u x))\<rparr>"
    have na: "a \<notin> set qs" using log_distinct(2) [OF ok(2)] by auto
    have "log_ok d ds qs (In(a := xs)) (Out(a := Out a @ [x])) = log_ok d ds qs In Out"
      by (rule log_ok_lists_cong) (use na in auto)
    moreover have "lg_calls d = lg_calls ?u @ pending ?u ds ((In(a := xs)) a)"
    proof -
      have "deliver ?u = deliver u" by (intro ext deliver_cong) simp
      then show ?thesis using ok(4) Cons by (simp add: pending_def)
    qed
    moreover have "n \<le> length ((Out(a := Out a @ [x])) a)" using ok(5) by simp
    moreover have "unlocked d \<and> unlocked ?u \<and> lg_thread d = None \<and> (\<exists>k. lg_sinks ?u = (lg_sinks d)(a \<mapsto> k)) \<and> lg_sinks d a = None \<and>
        use_source_location ?u = use_source_location d \<and> \<not> abort_on_error d \<and> \<not> block_on_error d \<and> \<not> abort_on_error ?u \<and> \<not> block_on_error ?u"
      using s by (simp add: in_step_def unlocked_def)
    ultimately have "in_step ds qs th t a n d ?u" using q(2,3) ok(1) unfolding in_step_def by blast
    then show ?thesis using q(1) by auto
  qed
qed

lemma run_in_step:
  "in_step ds qs th t a n d u \<Longrightarrow> length (filter is_log es) \<le> n \<Longrightarrow>
    \<exists>d' v m. run_events (filter is_log es) d = Some d' \<and> run_events es u = Some v \<and> in_step ds qs th t a m d' v \<and> lg_heap v = lg_heap u"
proof (induction es arbitrary: n d u)
  case (Cons e es)
  show ?case
  proof (cases e)
    case Turn
    from turn_in_step [OF Cons.prems(1)] obtain more u' where
      u: "thread_turn u = Some (more, u')" "in_step ds qs th t a n d u'" "lg_heap u' = lg_heap u" by blast
    from Cons.IH [OF u(2)] Cons.prems(2) Turn u(1,3) show ?thesis by auto
  next
    case (Log tm fl ln lv mk tx)
    then obtain m where n: "n = Suc m" using Cons.prems(2) by (cases n) auto
    from log_in_step [OF Cons.prems(1) [unfolded n], of "\<lambda>n q. q" tm fl ln lv mk tx] obtain rc d' rc' u' where
      u: "amlog_sink_message (\<lambda>n q. q) tm fl ln lv mk tx d = Some (rc, d')"
        "amlog_sink_message (\<lambda>n q. q) tm fl ln lv mk tx u = Some (rc', u')" "in_step ds qs th t a m d' u'" "lg_heap u' = lg_heap u" by blast
    from Cons.IH [OF u(3)] Cons.prems(2) Log u(1,2,4) n show ?thesis by auto
  qed
qed auto

text \<open>
  C15. The thread delivers the same when it was started without the flags to block or to abort and at most 2048 messages are logged in all, as many
  as there are lines: whatever the messages are, and whenever the thread gets a turn between them, after \<open>amlog_sink_term\<close> the callbacks of the direct sinks have had the calls, in the order, that they get without a
  thread; and all memory is given back.
\<close>

theorem amlog_thread_delivers:
  assumes "malloc_spec alloc" and "log_ok s ds qs In Out" and "unlocked s" and "lg_thread s = None" and "blocks_live s" and "lines_apart alloc s"
    and init: "amlog_sink_init alloc True (f OR AMLOG_FLAGS_USE_THREAD) s = Some (AMRC_SUCCESS, u)" and f: "f = 0 \<or> f = AMLOG_FLAGS_AVOID_SOURCE_LINES"
    and n: "length (filter is_log es) \<le> THREAD_LINE_BUFFER_SIZE"
  shows "\<exists>d d' v w. amlog_sink_init alloc True f s = Some (AMRC_SUCCESS, d) \<and> run_events (filter is_log es) d = Some d' \<and>
    run_events es u = Some v \<and> amlog_sink_term v = Some w \<and> lg_calls w = lg_calls d' \<and> live (lg_heap w) = live (lg_heap s)"
proof -
  let ?s = "s\<lparr>abort_on_error := False, block_on_error := False, use_source_location := (f = 0)\<rparr>"
  have fl: "amlog_sink_init alloc True f s = Some (AMRC_SUCCESS, ?s)" and
    fi: "amlog_sink_init alloc True (f OR AMLOG_FLAGS_USE_THREAD) s =
        do { (made, s) \<leftarrow> make_thread alloc True ?s; if made then Some (AMRC_SUCCESS, s) else do { s \<leftarrow> release_thread s; Some (AMRC_ERROR, s) } }"
    using f assms(4)
    by (auto simp: amlog_sink_init_def AMLOG_FLAGS_USE_THREAD_def AMLOG_FLAGS_AVOID_SOURCE_LINES_def AMLOG_FLAGS_BLOCK_ON_ERROR_def
        AMLOG_FLAGS_ABORT_ON_ERROR_def Let_def)
  have h: "log_ok ?s ds qs In Out" "unlocked ?s" "lg_thread ?s = None" "blocks_live ?s" "lines_apart alloc ?s"
    using assms log_ok_cong [of ?s s] by (simp_all add: unlocked_def blocks_live_def lines_apart_def)
  show ?thesis
    using assms(1) h
  proof (cases rule: make_thread_ok [where s = "?s" and created = True])
    case (failed s1 s2)
    then show ?thesis using init fi by simp
  next
    case (made u' th t a i r)
    have u: "u' = u" using made(1) init fi by simp
    let ?In = "In(a := [])" and ?Out = "Out(a := map (line_at th) [0 ..< THREAD_LINE_BUFFER_SIZE])"
    note m = made [unfolded u]
    have na: "a \<notin> set qs" using log_distinct(2) [OF m(3)] by auto
    have "log_ok ?s ds qs ?In ?Out = log_ok ?s ds qs In Out" by (rule log_ok_lists_cong) (use na in auto)
    then have "in_step ds qs th t a THREAD_LINE_BUFFER_SIZE ?s u"
      unfolding in_step_def using h m(3-11) by (intro conjI exI [of _ ?In] exI [of _ ?Out]) (auto simp: pending_def)
    from run_in_step [OF this n] obtain d' v k where
      run: "run_events (filter is_log es) ?s = Some d'" "run_events es u = Some v" "in_step ds qs th t a k d' v" "lg_heap v = lg_heap u" by blast
    from run(3) obtain In' Out' where
      v: "log_ok v ds (a # qs) In' Out'" "thread_ok v (a # qs) In' Out' th t a" "lg_calls d' = lg_calls v @ pending v ds (In' a)" "unlocked v"
      unfolding in_step_def by blast
    from term_ok [OF v(1,2,4)] obtain w where
      w: "amlog_sink_term v = Some w" "lg_calls w = lg_calls v @ pending v ds (In' a)"
        "live (lg_heap w) = (live (lg_heap v)) |` (- {a, i, r, th})" using m(12,13) unfolding pending_def by auto
    have "live (lg_heap w) = live (lg_heap s)" using w(3) m(14) run(4) by simp
    then show ?thesis using fl run(1,2) w(1,2) v(3) by auto
  qed
qed

section \<open>Examples\<close>

definition empty_log :: log_state where
  "empty_log = \<lparr>lg_heap = \<lparr>live = Map.empty, calls = 0, refusals = 0\<rparr>, lg_sinks = Map.empty, lg_links = (\<lambda>l. \<lparr>lnext = Some l, lprev = Some l\<rparr>),
     lg_queues = Map.empty, lg_lines = Map.empty, lg_thread = None, direct_rwlock = Readers 0, queued_rwlock = Readers 0,
     use_source_location = True, abort_on_error = False, block_on_error = False, lg_calls = []\<rparr>"

lemma empty_log_ok: "log_ok empty_log [] [] In Out" "unlocked empty_log" "blocks_live empty_log" "lines_apart alloc empty_log" "lg_thread empty_log = None"
  by (auto simp: log_ok_def empty_log_def forest_def dlist_def unlocked_def blocks_live_def lines_apart_def)

lemma register_direct_ok:
  assumes "malloc_spec alloc" and "log_ok s ds qs In Out" and "unlocked s" and "blocks_live s"
  obtains (none) h where "amlog_sink_register_direct alloc name (Some f) user s = Some (None, s\<lparr>lg_heap := h\<rparr>)" "live h = live (lg_heap s)"
  | (some) a h ls where "amlog_sink_register_direct alloc name (Some f) user s =
        Some (Some a, s\<lparr>lg_heap := h, lg_sinks := (lg_sinks s)(a \<mapsto> new_sink name user (Some f) None None), lg_links := ls\<rparr>)"
      "live (lg_heap s) a = None" "live h = (live (lg_heap s))(a \<mapsto> SINK_BYTES)"
      "log_ok (s\<lparr>lg_heap := h, lg_sinks := (lg_sinks s)(a \<mapsto> new_sink name user (Some f) None None), lg_links := ls\<rparr>) (a # ds) qs In Out"
proof -
  obtain m h where m: "malloc alloc SINK_BYTES (lg_heap s) = (m, h)" by fastforce
  show thesis
  proof (cases m)
    case None
    then show thesis using none [of h] malloc_None [of alloc SINK_BYTES] m by (simp add: amlog_sink_register_direct_def)
  next
    case (Some a)
    note f = malloc_Some(1,2) [OF assms(1) m [unfolded Some]]
    have na: "lg_sinks s a = None" using f(1) assms(4) by (auto simp: blocks_live_def)
    then have ns: "a \<notin> set ds" "a \<notin> set qs" using log_sinks_there [OF assms(2)] by (auto simp: direct_ok_def)
    have fo: "forest (lg_links s) {DirectSinks, QueuedSinks} (sink_lists ds qs)" using assms(2) by (simp add: log_ok_def)
    have "\<forall>b \<in> {DirectSinks, QueuedSinks}. SinkLink a \<notin> set (sink_lists ds qs b)" using ns by auto
    moreover have "(sink_lists ds qs)(DirectSinks := SinkLink a # map SinkLink ds) = sink_lists (a # ds) qs"
    proof
      show "((sink_lists ds qs)(DirectSinks := SinkLink a # map SinkLink ds)) l = sink_lists (a # ds) qs l" for l by (cases l) auto
    qed
    ultimately obtain ls where
      l: "amlist_add (lg_links s) DirectSinks (SinkLink a) = Some ls" "forest ls {DirectSinks, QueuedSinks} (sink_lists (a # ds) qs)"
      using links.rep_add [OF fo, of DirectSinks "SinkLink a"] by auto
    let ?s = "s\<lparr>lg_heap := h, lg_sinks := (lg_sinks s)(a \<mapsto> new_sink name user (Some f) None None), lg_links := ls\<rparr>"
    have lk: "direct_rwlock s = Readers 0" using assms(3) by (simp add: unlocked_def)
    then have "s\<lparr>lg_heap := h, lg_sinks := X, lg_links := ls, direct_rwlock := Readers 0\<rparr> = s\<lparr>lg_heap := h, lg_sinks := X, lg_links := ls\<rparr>" for X
      by simp
    then have run: "amlog_sink_register_direct alloc name (Some f) user s = Some (Some a, ?s)"
      using m Some l(1) lk by (simp add: amlog_sink_register_direct_def Let_def)
    note o = assms(2) [unfolded log_ok_def]
    have q: "queued_ok ?s In Out b" "queue_addrs ?s b = queue_addrs s b" if b: "b \<in> set qs" for b
    proof -
      have "lg_sinks ?s b = lg_sinks s b" using b ns(2) by auto
      moreover have "queued_ok s In Out b" using o b by blast
      ultimately show "queued_ok ?s In Out b" "queue_addrs ?s b = queue_addrs s b" by (simp_all add: queued_ok_def holds_queue_def queue_addrs_def)
    qed
    have "direct_ok ?s b" if "b \<in> set (a # ds)" for b using o that by (auto simp: direct_ok_def new_sink_def)
    moreover have mq: "map (queue_addrs ?s) qs = map (queue_addrs s) qs" using q(2) by auto
    ultimately have "log_ok ?s (a # ds) qs In Out" unfolding log_ok_def mq using l(2) o q(1) by simp
    then show thesis using some [OF run f] by blast
  qed
qed

text \<open>A log with one direct sink, and a log in which that sink is served by the thread.\<close>

definition demo_log :: log_state where
  "demo_log = empty_log\<lparr>lg_heap := \<lparr>live = [1 \<mapsto> SINK_BYTES], calls = 1, refusals = 0\<rparr>, lg_sinks := [1 \<mapsto> new_sink None None (Some 500) None None],
     lg_links := (\<lambda>l. case l of DirectSinks \<Rightarrow> \<lparr>lnext = Some (SinkLink 1), lprev = Some (SinkLink 1)\<rparr>
        | QueuedSinks \<Rightarrow> \<lparr>lnext = Some QueuedSinks, lprev = Some QueuedSinks\<rparr>
        | SinkLink a \<Rightarrow> \<lparr>lnext = Some DirectSinks, lprev = Some DirectSinks\<rparr>)\<rparr>"

lemma demo_log_ok: "log_ok demo_log [1] [] In Out" "unlocked demo_log" "blocks_live demo_log" "lines_apart alloc demo_log" "lg_thread demo_log = None"
  by (auto simp: log_ok_def demo_log_def empty_log_def forest_def dlist_def unlocked_def blocks_live_def lines_apart_def direct_ok_def new_sink_def)

lemma first_fit_next:
  assumes "\<forall>b \<in> set [1 ..< a]. lv b \<noteq> None" and "lv a = None" and "1 \<le> a" and "a < 100" and "unat sz < 2 ^ 63"
  shows "malloc first_fit sz \<lparr>live = lv, calls = n, refusals = 0\<rparr> = (Some a, \<lparr>live = lv(a \<mapsto> sz), calls = n + 1, refusals = 0\<rparr>)"
  using first_fit_at [OF assms] by (simp add: malloc_def)

lemma demo_log_init: "\<exists>u. amlog_sink_init first_fit True AMLOG_FLAGS_USE_THREAD demo_log = Some (AMRC_SUCCESS, u)"
proof -
  let ?n = "of_nat THREAD_LINE_BUFFER_SIZE :: u64"
  let ?sz = "QUEUE_BYTES + CELL_BYTES * (?n + 1)"
  let ?q = "\<lparr>cq_bytes = ?sz, read_lock = AMSPINLOCK_UNLOCKED, cq_capacity = ?n + 1, cq_head = 0, cq_tail = 0, cells = (\<lambda>_. None)\<rparr>"
  have sz: "unat ?sz < 2 ^ 63" "16 \<le> unat ?sz" "unat LOG_THREAD_BYTES < 2 ^ 63" "unat SINK_BYTES < 2 ^ 63"
    by (simp_all add: QUEUE_BYTES_def CELL_BYTES_def THREAD_LINE_BUFFER_SIZE_def LOG_THREAD_BYTES_def FIRST_LINE_def LINE_BYTES_def SINK_BYTES_def)
  let ?l1 = "[1 \<mapsto> SINK_BYTES] :: addr \<rightharpoonup> u64"
  have m1: "malloc first_fit LOG_THREAD_BYTES \<lparr>live = ?l1, calls = 1, refusals = 0\<rparr> = (Some 2, \<lparr>live = ?l1(2 \<mapsto> LOG_THREAD_BYTES), calls = 2, refusals = 0\<rparr>)"
    by (subst first_fit_next [where a = 2]) (use sz in auto)
  have m2: "malloc first_fit ?sz \<lparr>live = ?l1(2 \<mapsto> LOG_THREAD_BYTES), calls = 2, refusals = 0\<rparr> =
      (Some 3, \<lparr>live = ?l1(2 \<mapsto> LOG_THREAD_BYTES, 3 \<mapsto> ?sz), calls = 3, refusals = 0\<rparr>)"
    by (subst first_fit_next [where a = 3]) (use sz in auto)
  have m3: "malloc first_fit ?sz \<lparr>live = ?l1(2 \<mapsto> LOG_THREAD_BYTES, 3 \<mapsto> ?sz), calls = 3, refusals = 0\<rparr> =
      (Some 4, \<lparr>live = ?l1(2 \<mapsto> LOG_THREAD_BYTES, 3 \<mapsto> ?sz, 4 \<mapsto> ?sz), calls = 4, refusals = 0\<rparr>)"
    by (subst first_fit_next [where a = 4]) (use sz in auto)
  have m4: "malloc first_fit SINK_BYTES \<lparr>live = ?l1(2 \<mapsto> LOG_THREAD_BYTES, 3 \<mapsto> ?sz, 4 \<mapsto> ?sz), calls = 4, refusals = 0\<rparr> =
      (Some 5, \<lparr>live = ?l1(2 \<mapsto> LOG_THREAD_BYTES, 3 \<mapsto> ?sz, 4 \<mapsto> ?sz, 5 \<mapsto> SINK_BYTES), calls = 5, refusals = 0\<rparr>)"
    by (subst first_fit_next [where a = 5]) (use sz in auto)
  from new_queue_list cqf.fill_rep [of THREAD_LINE_BUFFER_SIZE ?q "[]" "map (line_at 2) [0 ..< THREAD_LINE_BUFFER_SIZE]"]
  obtain qf where f: "fill amcqueue_enq (map (line_at 2) [0 ..< THREAD_LINE_BUFFER_SIZE]) ?q = Some qf"
    by (auto simp: THREAD_LINE_BUFFER_SIZE_def)
  show ?thesis
    using m1 m2 m3 m4 sz(2) f
    by (simp add: amlog_sink_init_def AMLOG_FLAGS_USE_THREAD_def AMLOG_FLAGS_AVOID_SOURCE_LINES_def AMLOG_FLAGS_BLOCK_ON_ERROR_def
        AMLOG_FLAGS_ABORT_ON_ERROR_def Let_def make_thread_def make_queues_def make_sink_def new_queue_def amcqueue_alloc_def demo_log_def empty_log_def
        set_thread_def set_queue_def amlog_sink_register_queued_def amlist_add_def)
qed

text \<open>A log with a direct sink and a queued sink whose two lines are free.\<close>

definition two_sinks :: log_state where
  "two_sinks = empty_log\<lparr>
     lg_heap := \<lparr>live = [1 \<mapsto> SINK_BYTES, 2 \<mapsto> SINK_BYTES], calls = 2, refusals = 0\<rparr>,
     lg_sinks := [1 \<mapsto> new_sink None None (Some 500) None None, 2 \<mapsto> new_sink None None None (Some 3) (Some 4)],
     lg_links := (\<lambda>l. case l of DirectSinks \<Rightarrow> \<lparr>lnext = Some (SinkLink 1), lprev = Some (SinkLink 1)\<rparr>
        | QueuedSinks \<Rightarrow> \<lparr>lnext = Some (SinkLink 2), lprev = Some (SinkLink 2)\<rparr>
        | SinkLink a \<Rightarrow> if a = 1 then \<lparr>lnext = Some DirectSinks, lprev = Some DirectSinks\<rparr>
            else \<lparr>lnext = Some QueuedSinks, lprev = Some QueuedSinks\<rparr>),
     lg_queues := [3 \<mapsto> demo_queue 0 0 (\<lambda>_. None), 4 \<mapsto> demo_queue 0 2 [0 \<mapsto> 20, 1 \<mapsto> 21]],
     lg_lines := [20 \<mapsto> blank_line, 21 \<mapsto> blank_line]\<rparr>"

lemma two_sinks_ok: "log_ok two_sinks [1] [2] (\<lambda>_. []) (\<lambda>_. [20, 21])"
proof -
  have q: "queue_list 2 (demo_queue 0 0 (\<lambda>_. None)) []" "queue_list 2 (demo_queue 0 2 [0 \<mapsto> 20, 1 \<mapsto> 21]) [20, 21]"
    by (auto simp: queue_list_def demo_queue_def QUEUE_BYTES_def CELL_BYTES_def less_Suc_eq)
  have k: "lg_sinks two_sinks 1 = Some (new_sink None None (Some 500) None None)" "lg_sinks two_sinks 2 = Some (new_sink None None None (Some 3) (Some 4))"
    "lg_queues two_sinks 3 = Some (demo_queue 0 0 (\<lambda>_. None))" "lg_queues two_sinks 4 = Some (demo_queue 0 2 [0 \<mapsto> 20, 1 \<mapsto> 21])"
    "lg_lines two_sinks 20 = Some blank_line" "lg_lines two_sinks 21 = Some blank_line"
    by (simp_all add: two_sinks_def)
  have "queued_ok two_sinks (\<lambda>_. []) (\<lambda>_. [20, 21]) 2"
    unfolding queued_ok_def holds_queue_def using k q by (intro exI [of _ "new_sink None None None (Some 3) (Some 4)"] exI) (auto simp: new_sink_def)
  moreover have "forest (lg_links two_sinks) {DirectSinks, QueuedSinks} (sink_lists [1] [2])"
    by (auto simp: two_sinks_def forest_def dlist_def)
  ultimately show ?thesis using k by (simp add: log_ok_def direct_ok_def queue_addrs_def new_sink_def)
qed

theorem amlog_message_correct_witness:
  "\<exists>s'. amlog_sink_message (\<lambda>n q. q) 7 (Some ''a.c'') 3 1 0 (Some ''hello'') two_sinks = Some (AMRC_SUCCESS, s') \<and>
    lg_calls s' = [(500, 1, None, full_line 7 ''hello'' (unformatted two_sinks (Some ''a.c'') 3 1 0))] \<and>
    lg_lines s' 20 = Some (full_line 7 ''hello'' (unformatted two_sinks (Some ''a.c'') 3 1 0))"
proof -
  have u: "unlocked two_sinks" by (simp add: unlocked_def two_sinks_def empty_log_def)
  have e: "\<forall>a \<in> set [2 :: addr]. wanted two_sinks 1 0 a \<longrightarrow> [20, 21 :: addr] \<noteq> []" by simp
  have l: "length ''hello'' \<le> 254" and z: "0 = (0 :: u64) \<or> (\<forall>a \<in> set [1] \<union> set [2]. sk_mask (the (lg_sinks two_sinks a)) \<noteq> 0)" by simp_all
  have t: "wanted two_sinks 1 0 1" "wanted two_sinks 1 0 2"
    by (simp_all add: wanted_def two_sinks_def new_sink_def empty_log_def)
  have c: "lg_calls two_sinks = []" "lg_thread two_sinks = None" "call_of_sink two_sinks x (Suc 0) = (500, Suc 0, None, x)" for x
    by (simp_all add: two_sinks_def empty_log_def call_of_sink_def new_sink_def)
  from amlog_message_correct [OF two_sinks_ok u e z l refl, of "\<lambda>n q. q" 7 "Some ''a.c''" 3]
  show ?thesis using t by (auto simp: c)
qed

theorem amlog_init_correct_witness:
  "\<exists>u th t a. amlog_sink_init first_fit True AMLOG_FLAGS_USE_THREAD demo_log = Some (AMRC_SUCCESS, u) \<and> use_source_location u \<and>
    thread_ok u [a] (\<lambda>_. []) ((\<lambda>_. [])(a := map (line_at th) [0 ..< THREAD_LINE_BUFFER_SIZE])) th t a"
proof -
  have f: "AMLOG_FLAGS_USE_THREAD AND AMLOG_FLAGS_USE_THREAD \<noteq> 0" "AMLOG_FLAGS_USE_THREAD AND AMLOG_FLAGS_ABORT_ON_ERROR = 0"
    "AMLOG_FLAGS_USE_THREAD AND AMLOG_FLAGS_AVOID_SOURCE_LINES = 0"
    by (simp_all add: AMLOG_FLAGS_USE_THREAD_def AMLOG_FLAGS_ABORT_ON_ERROR_def AMLOG_FLAGS_AVOID_SOURCE_LINES_def)
  from demo_log_init obtain u where u: "amlog_sink_init first_fit True AMLOG_FLAGS_USE_THREAD demo_log = Some (AMRC_SUCCESS, u)" by blast
  from amlog_init_correct [OF first_fit_spec demo_log_ok(1,2,5,3,4), where In = "\<lambda>_. []" and Out = "\<lambda>_. []" and created = True and flags = AMLOG_FLAGS_USE_THREAD] u f
  have "use_source_location u" "\<exists>th t a. thread_ok u [a] ((\<lambda>_. [])(a := [])) ((\<lambda>_. [])(a := map (line_at th) [0 ..< THREAD_LINE_BUFFER_SIZE])) th t a"
    by auto
  then show ?thesis using u by (simp add: fun_upd_idem)
qed

theorem amlog_thread_delivers_witness:
  "\<exists>d d' u v w. amlog_sink_init first_fit True 0 demo_log = Some (AMRC_SUCCESS, d) \<and>
    run_events [Log 7 None 3 1 0 (Some ''hello'')] d = Some d' \<and>
    amlog_sink_init first_fit True AMLOG_FLAGS_USE_THREAD demo_log = Some (AMRC_SUCCESS, u) \<and>
    run_events [Turn, Log 7 None 3 1 0 (Some ''hello''), Turn] u = Some v \<and>
    amlog_sink_term v = Some w \<and> lg_calls w = lg_calls d' \<and> live (lg_heap w) = live (lg_heap demo_log)"
proof -
  from demo_log_init obtain u where u: "amlog_sink_init first_fit True (0 OR AMLOG_FLAGS_USE_THREAD) demo_log = Some (AMRC_SUCCESS, u)" by auto
  have n: "length (filter is_log [Turn, Log 7 None 3 1 0 (Some ''hello''), Turn]) \<le> THREAD_LINE_BUFFER_SIZE" by (simp add: THREAD_LINE_BUFFER_SIZE_def)
  from amlog_thread_delivers [OF first_fit_spec demo_log_ok(1,2,5,3,4) u _ n]
  obtain d d' v w where "amlog_sink_init first_fit True 0 demo_log = Some (AMRC_SUCCESS, d)"
     "run_events [Log 7 None 3 1 0 (Some ''hello'')] d = Some d'"
    "run_events [Turn, Log 7 None 3 1 0 (Some ''hello''), Turn] u = Some v" "amlog_sink_term v = Some w" 
    "lg_calls w = lg_calls d'" "live (lg_heap w) = live (lg_heap demo_log)"
    by (auto simp del: run_events.simps)
  then show ?thesis using u by (auto simp del: run_events.simps)
qed

end
