(* ===== verification/AmLogLimits.thy ===== *)
theory AmLogLimits
  imports AmLogInit
begin

text \<open>
  What the log does at its limits: long texts, sinks that block, and two threads in \<^verbatim>\<open>amlog_sink_unregister\<close>.
\<close>

section \<open>Limits\<close>

text \<open>Of a long text 254 characters are kept, while the length is that of the whole text.\<close>

lemma long_message:
  assumes "format_line time (Some t) (ent, False) = Some l" and "254 < length t"
  shows "length (lin_message l) = 254" and "lin_length l = int (length t)"
  using assms by (auto simp: format_line_of line_of_def)

text \<open>A sink that blocks waits for as long as others leave its queue empty, and returns with the first line they put there.\<close>

lemma blocking_dequeue_returns:
  assumes "\<And>i q. i < n \<Longrightarrow> queue_list c q [] \<Longrightarrow> queue_list c (others i q) []" and "\<And>q. queue_list c q [] \<Longrightarrow> queue_list c (others n q) (x # xs)"
    and "queue_list c q []"
  shows "\<exists>q'. amlog_sink_dequeue others False True 0 q = Some (q', Some x) \<and> queue_list c q' xs"
proof -
  have "\<exists>q'. amlog_sink_dequeue others False True (n - k) q = Some (q', Some x) \<and> queue_list c q' xs"
    if "k \<le> n" and "queue_list c q []" for k q
    using that
  proof (induction k arbitrary: q)
    case 0
    then show ?case using dequeue_takes [OF assms(2) [OF 0(2)]] by (subst amlog_sink_dequeue.simps) (simp add: deq_alone_empty)
  next
    case (Suc k)
    have "queue_list c (others (n - Suc k) q) []" using assms(1) Suc.prems by simp
    moreover have "n - Suc k + 1 = n - k" using Suc.prems(1) by simp
    ultimately show ?case using Suc.IH [of "others (n - Suc k) q"] Suc.prems
      by (subst amlog_sink_dequeue.simps) (simp only: deq_alone_empty [OF Suc.prems(2)], simp)
  qed
  from this [of n q] assms(3) show ?thesis by simp
qed

section \<open>Two threads that unregister\<close>

text \<open>
  \<^verbatim>\<open>amlog_sink_unregister\<close> with each access to what the threads share as a step. The pointer to the lock is static: \<open>ur_lock\<close> is
  whether it points to \<^verbatim>\<open>direct_rwlock\<close>.
\<close>

datatype unregister_pc = UChoose | ULock | UDel | UUnlock | UFree | UDone

record unregister_sys =
  ur_lock :: "bool option"
  ur_direct :: rwlock
  ur_queued :: rwlock

definition lock_now :: "(rwlock \<Rightarrow> rwlock option) \<Rightarrow> unregister_sys \<Rightarrow> unregister_sys option" where
  "lock_now op k =
     (case ur_lock k of
        None \<Rightarrow> None
      | Some True \<Rightarrow> map_option (\<lambda>l. k\<lparr>ur_direct := l\<rparr>) (op (ur_direct k))
      | Some False \<Rightarrow> map_option (\<lambda>l. k\<lparr>ur_queued := l\<rparr>) (op (ur_queued k)))"

text \<open>\<open>direct\<close> is whether the sink has a callback. A thread that has to wait for a lock has no step.\<close>

fun unregister_step :: "bool \<Rightarrow> unregister_pc \<Rightarrow> unregister_sys \<Rightarrow> (unregister_sys \<times> unregister_pc) option" where
  "unregister_step direct UChoose k = Some (k\<lparr>ur_lock := Some direct\<rparr>, ULock)"
| "unregister_step direct ULock k = do { k \<leftarrow> lock_now rw_write k; Some (k, UDel) }"
| "unregister_step direct UDel k = Some (k, UUnlock)"
| "unregister_step direct UUnlock k = do { k \<leftarrow> lock_now rw_release k; Some (k, UFree) }"
| "unregister_step direct UFree k = Some (k, UDone)"
| "unregister_step direct UDone k = None"

text \<open>\<open>run_unregister\<close> lets the threads \<open>0, 1, \<dots>\<close> take their steps in the given order.\<close>

fun run_unregister :: "nat list \<Rightarrow> (bool \<times> unregister_pc) list \<Rightarrow> unregister_sys \<Rightarrow> (unregister_sys \<times> (bool \<times> unregister_pc) list) option" where
  "run_unregister [] ts k = Some (k, ts)"
| "run_unregister (i # is) ts k =
     (if i < length ts
      then do { (k, p) \<leftarrow> unregister_step (fst (ts ! i)) (snd (ts ! i)) k; run_unregister is (ts[i := (fst (ts ! i), p)]) k }
      else None)"

text \<open>Alone, a thread has the lock of its list while it changes the list, and releases it.\<close>

lemma unregister_alone:
  "run_unregister [0, 0] [(d, UChoose)] \<lparr>ur_lock = l, ur_direct = Readers 0, ur_queued = Readers 0\<rparr> =
     Some (\<lparr>ur_lock = Some d, ur_direct = (if d then Writer else Readers 0), ur_queued = (if d then Readers 0 else Writer)\<rparr>, [(d, UDel)])"
  "run_unregister [0, 0, 0, 0, 0] [(d, UChoose)] \<lparr>ur_lock = l, ur_direct = Readers 0, ur_queued = Readers 0\<rparr> =
     Some (\<lparr>ur_lock = Some d, ur_direct = Readers 0, ur_queued = Readers 0\<rparr>, [(d, UDone)])"
  by (cases d; simp add: lock_now_def)+

text \<open>
  A thread that unregisters a direct sink can change the list with no lock on it, when another unregisters a queued sink; and
  it can release a lock that nobody holds, while its own stays locked for ever.
\<close>

lemma unregister_wrong_lock:
  "run_unregister [0, 1, 0] [(True, UChoose), (False, UChoose)] \<lparr>ur_lock = None, ur_direct = Readers 0, ur_queued = Readers 0\<rparr> =
     Some (\<lparr>ur_lock = Some False, ur_direct = Readers 0, ur_queued = Writer\<rparr>, [(True, UDel), (False, ULock)])"
  by (simp add: lock_now_def)

lemma unregister_stuck:
  "run_unregister [0, 0, 0, 1] [(True, UChoose), (False, UChoose)] \<lparr>ur_lock = None, ur_direct = Readers 0, ur_queued = Readers 0\<rparr> =
     Some (\<lparr>ur_lock = Some False, ur_direct = Writer, ur_queued = Readers 0\<rparr>, [(True, UUnlock), (False, ULock)])"
  "run_unregister [0, 0, 0, 1, 0] [(True, UChoose), (False, UChoose)] \<lparr>ur_lock = None, ur_direct = Readers 0, ur_queued = Readers 0\<rparr> = None"
  by (simp_all add: lock_now_def)

end
