(* ===== verification/Spec2Isabelle.thy ===== *)
theory Spec2Isabelle
  imports AmHash AmList AmTreeIndex AmItree AmStats AmStrhashProps AmStack AmLstack AmCqueue AmPoolProps AmPoolCreate AmOptsProps AmThreadPoolProps
    AmFdProps AmDump AmTimeProps AmLogProps AmLogLimits
begin

text \<open>
  A verification development for libam, a C library of containers, lock-free structures, pools,
  option parsing, threads, timers, logging and file operations.

  \<^bold>\<open>Parts.\<close> Every theory opens with what it holds.

  \<^item> Prelude: machine words, return codes (\<^verbatim>\<open>libam_types.h\<close>), assertions, formatting of numbers with
    \<^verbatim>\<open>snprintf\<close>, and the memory allocator as a parameter.
  \<^item> AmHash: the hash functions of \<^verbatim>\<open>libam_hash.c\<close>.
  \<^item> AmList: the intrusive list of \<^verbatim>\<open>libam_list.h\<close> over an explicit memory of links.
  \<^item> AmTree, AmTreeShape, AmTreeRotate, AmTreeBalance, AmTreeInsert, AmTreeDelete, AmTreeIndex: the
    AVL tree of \<^verbatim>\<open>libam_tree.c\<close> over a memory of nodes with parent pointers, and its proofs, for single calls and
    for runs of calls.
  \<^item> AmItree: the AVL tree with an ordered list, \<^verbatim>\<open>libam_itree.c\<close>.
  \<^item> AmStats: the statistics of \<^verbatim>\<open>libam_stats.h\<close> and \<^verbatim>\<open>libam_stats.c\<close>.
  \<^item> AmStrhash, AmStrhashInv, AmStrhashMap, AmStrhashOps, AmStrhashProps: the string hash table of
    \<^verbatim>\<open>libam_strhash.c\<close>.
  \<^item> AmAtomic: \<^verbatim>\<open>libam_atomic.h\<close>, \<^verbatim>\<open>libam_spinlock.h\<close>, and what the proofs about threads share.
  \<^item> AmStack, AmLstack, AmCqueue: the lock-free structures of \<^verbatim>\<open>libam_stack.c\<close>, \<^verbatim>\<open>libam_lstack.c\<close> and
    \<^verbatim>\<open>libam_cqueue.c\<close>, as step relations over any number of threads in which every access to shared
    memory is a step of its own. What calls were given and what they returned is kept beside the state and compared with what the structure
    holds. A run of one thread has fuel, 4 to 8 steps; the theorems give the result
    with that fuel.
  \<^item> AmPool, AmPoolInv, AmPoolOps, AmPoolTree, AmPoolCreate, AmPoolProps: the memory pools of \<^verbatim>\<open>libam_pool.c\<close>. The invariant
    \<open>pools_ok\<close> ties the links of all pools to lists of chunks, and \<open>view\<close> is what the client sees: its pointers
    and the bytes behind them.
  \<^item> AmOpts, AmOptsProps: the option parser of \<^verbatim>\<open>libam_opts.c\<close>. The invariant \<open>opts_ok\<close> says that every registered option
    is well-formed and has a parser; \<open>arg_words\<close> is how a user writes an option, and \<open>shown\<close> what the structure then holds.
  \<^item> AmThreadPool, AmThreadPoolSteps, AmThreadPoolInv, AmThreadPoolProps: the thread pool of \<^verbatim>\<open>libam_thread_pool.c\<close>, with any
    number of workers and clients. Its queue is used by what AmStack shows of it. The invariants tie the counters to the
    points the threads have reached, and the blocks of tasks to their owners; the environment creates the pool before it is used and destroys it
    when no other call runs.
  \<^item> AmTime, AmTimeProps: the clock and the periodic timers of \<^verbatim>\<open>libam_time.c\<close>, with a thread and any number of clients on a
    handle. The invariant says who may still use the handle and who frees it; 12 steps are the longest way of the thread to its end.
  \<^item> AmFd, AmFdProps: files and sockets, \<^verbatim>\<open>libam_fdopers.c\<close>. The kernel is a function from the calls and answers so far, the state
    of the model, to the next answer; \<open>open_fds\<close> are the descriptors that were opened and not closed. Setting up a socket is the locale
    \<open>socket_setup\<close>, with server and client as instances.
  \<^item> AmDump: the formatting of binary data in \<^verbatim>\<open>libam_log.c\<close>, with \<open>ref_dump\<close> as the reference.
  \<^item> AmLog, AmLogInv, AmLogThread, AmLogInit, AmLogProps: the sinks of \<^verbatim>\<open>libam_log.c\<close>, over the models of the list, the queue and \<^verbatim>\<open>malloc\<close>.
    \<open>log_ok\<close> is the invariant of the two lists of sinks and of the lines in their queues, \<open>thread_ok\<close> that of the thread for direct sinks:
    each of its \<open>THREAD_LINE_BUFFER_SIZE\<close> lines is in one of its two queues. The log with the thread is shown to make the same calls as the log
    without it, for any turns of the thread between the messages. AmLogLimits: sinks that block, and two threads that unregister sinks.

  \<^bold>\<open>Correspondence.\<close> A struct is a record, pointers are addresses, the memory of a kind of object is a
  function from addresses; functions return \<open>None\<close> where the C program would have undefined
  behaviour, fail an assertion, or not return, and the state after the call otherwise. Loops are
  structural recursion or \<open>partial_function\<close> in the option monad, so that a loop that does not end is
  \<open>None\<close>; the theorems that an operation returns \<open>Some\<close> are also termination theorems.

  \<^bold>\<open>Parameters.\<close> \<^verbatim>\<open>malloc\<close> is a parameter (\<open>allocator\<close>) with the hypothesis \<open>malloc_spec\<close>; the state of the memory counts the calls
  that failed, so that \<open>refused h h'\<close> says that one did between two states: the insertion into the hash table, the initialisation of the log and the reading of
  options fail for want of memory exactly then. POSIX leaves open whether a thread that asks again for a lock it has gets \<^verbatim>\<open>EDEADLK\<close> or blocks: in the hash table
  \<open>reports_deadlock\<close> says which, and the properties hold for both. Client callbacks are recorded as the calls made. The kernel is a parameter with \<open>read_spec\<close>, \<open>recv_spec\<close>, \<open>send_spec\<close>, \<open>seek_spec\<close> and \<open>fresh_spec\<close>, what the
  manual pages say of the calls, and \<open>patient\<close>, that a call is not interrupted for ever. In the log, the text that
  \<^verbatim>\<open>vsnprintf\<close> makes, the date that \<^verbatim>\<open>localtime\<close> and \<^verbatim>\<open>strftime\<close> make, and what other threads do to a queue while a sink blocks (\<open>others\<close>)
  are parameters; \<open>lines_apart\<close> says that \<^verbatim>\<open>malloc\<close> puts the block of the thread, with its lines, where there are no lines yet.

  \<^bold>\<open>Not modelled.\<close> Build files and the test programs; the disabled printing code of the trees. The functions of the log
  sinks run one at a time: a lock that would have to wait is \<open>None\<close>, and the thread takes whole turns (its accesses to the queues are
  interleaved with others in AmCqueue).
\<close>

end
